(* ===== verification/Quipu_Prelude.thy ===== *)
theory Quipu_Prelude
  imports Main "HOL-Library.Word" "HOL-Library.AList" "HOL-Library.Sublist" "HOL-Library.Char_ord" "HOL-Library.List_Lexorder"
begin

text \<open>
  Shared vocabulary of the development: the machine integer widths of the Rust code,
  little-endian encodings (\<open>u32::to_le_bytes\<close> and friends), the two ways an operation can
  fail (a sum type for pure code, a state-and-error function for code that mutates), ordered
  maps (\<open>std::collections::BTreeMap\<close>), and the generic lemmas the components share.
\<close>

section \<open>Machine integers and bytes\<close>

type_synonym u8 = "8 word"
type_synonym u32 = "32 word"
type_synonym u64 = "64 word"
type_synonym u128 = "128 word"
type_synonym bytes = "u8 list"

text \<open>\<open>u64::MAX\<close>, as a word (timestamps) and as a natural number (byte bounds).\<close>

abbreviation u64_MAX :: u64 where "u64_MAX \<equiv> - 1"

definition u64_max_nat :: nat where
  "u64_max_nat = 2 ^ 64 - 1"

named_theorems le_simps \<open>lengths and round trips of little-endian encodings\<close>
named_theorems op_simps \<open>unfolding of state-and-error operations\<close>

text \<open>\<open>to_le_bytes\<close> of an \<open>n\<close>-byte unsigned integer with value \<open>v\<close>, and \<open>from_le_bytes\<close>.\<close>

primrec le_bytes :: "nat \<Rightarrow> nat \<Rightarrow> bytes" where
  "le_bytes 0 v = []"
| "le_bytes (Suc n) v = word_of_nat (v mod 256) # le_bytes n (v div 256)"

primrec le_nat :: "bytes \<Rightarrow> nat" where
  "le_nat [] = 0"
| "le_nat (b # bs) = unat b + 256 * le_nat bs"

lemma unat_byte_bound: "unat (b :: u8) < 256"
  using unsigned_less [of b] by (simp flip: of_nat_less_iff [where 'a = int])

lemma unat_u32_bound: "unat (x :: u32) < 4294967296"
  using unsigned_less [of x] by (simp flip: of_nat_less_iff [where 'a = int])

lemma unat_u64_bound: "unat (x :: u64) < 18446744073709551616"
  using unsigned_less [of x] by (simp flip: of_nat_less_iff [where 'a = int])

lemma length_le_bytes [simp, le_simps]: "length (le_bytes n v) = n"
  by (induction n arbitrary: v) auto

lemma unat_byte [simp]: "unat (word_of_nat (v mod 256) :: u8) = v mod 256"
  by (simp add: unat_of_nat)

lemma le_nat_le_bytes [le_simps]: "le_nat (le_bytes n v) = v mod 256 ^ n"
proof (induction n arbitrary: v)
  case 0
  then show ?case by simp
next
  case (Suc n)
  have "v mod 256 + 256 * (v div 256 mod 256 ^ n) = v mod (256 * 256 ^ n)"
    by (metis add.commute mod_mult2_eq mult.commute)
  with Suc show ?case by simp
qed

lemma le_nat_bound: "le_nat bs < 256 ^ length bs"
proof (induction bs)
  case Nil
  then show ?case by simp
next
  case (Cons b bs)
  have "unat b < 256" using unat_byte_bound [of b] by simp
  with Cons have "unat b + 256 * le_nat bs < 256 + 256 * le_nat bs"
    and "256 + 256 * le_nat bs \<le> 256 * 256 ^ length bs"
    by simp_all
  then show ?case by simp
qed

lemma le_bytes_le_nat: "length bs = n \<Longrightarrow> le_bytes n (le_nat bs) = bs"
proof (induction bs arbitrary: n)
  case Nil
  then show ?case by simp
next
  case (Cons b bs)
  have b: "unat b < 256" using unat_byte_bound [of b] by simp
  then have "(unat b + 256 * le_nat bs) mod 256 = unat b"
    and "(unat b + 256 * le_nat bs) div 256 = le_nat bs"
    by simp_all
  with Cons show ?case by auto
qed

text \<open>The two widths the file formats use.\<close>

definition le32 :: "u32 \<Rightarrow> bytes" where "le32 x = le_bytes 4 (unat x)"
definition le64 :: "u64 \<Rightarrow> bytes" where "le64 x = le_bytes 8 (unat x)"
definition from_le32 :: "bytes \<Rightarrow> u32" where "from_le32 bs = word_of_nat (le_nat bs)"
definition from_le64 :: "bytes \<Rightarrow> u64" where "from_le64 bs = word_of_nat (le_nat bs)"

lemma length_le32 [simp, le_simps]: "length (le32 x) = 4"
  by (simp add: le32_def)

lemma length_le64 [simp, le_simps]: "length (le64 x) = 8"
  by (simp add: le64_def)

lemma from_le32_le32 [simp, le_simps]: "from_le32 (le32 x) = x"
  using unat_u32_bound [of x] by (simp add: from_le32_def le32_def le_nat_le_bytes)

lemma from_le64_le64 [simp, le_simps]: "from_le64 (le64 x) = x"
  using unat_u64_bound [of x] by (simp add: from_le64_def le64_def le_nat_le_bytes)

lemma le32_inject [simp]: "le32 x = le32 y \<longleftrightarrow> x = y"
  by (metis from_le32_le32)

lemma le64_inject [simp]: "le64 x = le64 y \<longleftrightarrow> x = y"
  by (metis from_le64_le64)

lemma le32_from_le32: "length bs = 4 \<Longrightarrow> le32 (from_le32 bs) = bs"
  using le_nat_bound [of bs]
  by (simp add: le32_def from_le32_def unat_of_nat le_bytes_le_nat)

lemma le64_from_le64: "length bs = 8 \<Longrightarrow> le64 (from_le64 bs) = bs"
  using le_nat_bound [of bs]
  by (simp add: le64_def from_le64_def unat_of_nat le_bytes_le_nat)

lemma unat_le_u64_MAX [simp]: "x \<le> u64_MAX"
  by simp

section \<open>Fallible operations\<close>

text \<open>
  \<open>?\<close> on a pure \<open>Result\<close>: stop at the first error.
\<close>

definition rbind :: "'e + 'a \<Rightarrow> ('a \<Rightarrow> 'e + 'b) \<Rightarrow> 'e + 'b" where
  "rbind r k = (case r of Inl e \<Rightarrow> Inl e | Inr a \<Rightarrow> k a)"

lemma rbind_simps [simp]: "rbind (Inl e) k = Inl e" "rbind (Inr a) k = k a"
  by (simp_all add: rbind_def)

lemma rbind_Inr_iff: "rbind r k = Inr b \<longleftrightarrow> (\<exists>a. r = Inr a \<and> k a = Inr b)"
  by (cases r) auto

text \<open>\<open>ok_or\<close> on an option.\<close>

definition ok_or :: "'e \<Rightarrow> 'a option \<Rightarrow> 'e + 'a" where
  "ok_or e o' = (case o' of None \<Rightarrow> Inl e | Some a \<Rightarrow> Inr a)"

lemma ok_or_simps [simp]: "ok_or e None = Inl e" "ok_or e (Some a) = Inr a"
  by (simp_all add: ok_or_def)

text \<open>\<open>iter.map(f).collect::<Result<Vec<_>>>()\<close>: the first error, or all the values.\<close>

primrec collect_res :: "('e + 'a) list \<Rightarrow> 'e + 'a list" where
  "collect_res [] = Inr []"
| "collect_res (r # rs) = rbind r (\<lambda>a. rbind (collect_res rs) (\<lambda>as. Inr (a # as)))"

lemma collect_res_Inr: "collect_res (map Inr xs) = Inr xs"
  by (induction xs) auto

lemma collect_res_map_Inr: "(\<And>x. x \<in> set xs \<Longrightarrow> f x = Inr (g x)) \<Longrightarrow> collect_res (map f xs) = Inr (map g xs)"
  by (induction xs) auto

text \<open>
  A method with \<open>&mut self\<close> that returns \<open>Result<_>\<close> is a function from the state to the
  result and the new state. \<open>seqE\<close> is the \<open>?\<close> of such code: an error returns at once and
  keeps the mutations made so far.
\<close>

type_synonym ('s, 'e, 'a) sop = "'s \<Rightarrow> ('e + 'a) \<times> 's"

definition retE :: "'a \<Rightarrow> ('s, 'e, 'a) sop" where
  "retE a s = (Inr a, s)"

definition raiseE :: "'e \<Rightarrow> ('s, 'e, 'a) sop" where
  "raiseE e s = (Inl e, s)"

definition liftE :: "'e + 'a \<Rightarrow> ('s, 'e, 'a) sop" where
  "liftE r s = (r, s)"

definition seqE :: "('s, 'e, 'a) sop \<Rightarrow> ('a \<Rightarrow> ('s, 'e, 'b) sop) \<Rightarrow> ('s, 'e, 'b) sop" where
  "seqE m k s = (case m s of (Inl e, s') \<Rightarrow> (Inl e, s') | (Inr a, s') \<Rightarrow> k a s')"

lemma seqE_Inr: "m s = (Inr a, s') \<Longrightarrow> seqE m k s = k a s'"
  by (simp add: seqE_def)

lemma seqE_Inl: "m s = (Inl e, s') \<Longrightarrow> seqE m k s = (Inl e, s')"
  by (simp add: seqE_def)

lemma seqE_InrE:
  assumes "seqE m k s = (Inr b, s'')"
  obtains a s' where "m s = (Inr a, s')" and "k a s' = (Inr b, s'')"
  using assms by (auto simp: seqE_def split: prod.splits sum.splits)

lemma retE_simp [simp]: "retE a s = (Inr a, s)"
  by (simp add: retE_def)

lemma raiseE_simp [simp]: "raiseE e s = (Inl e, s)"
  by (simp add: raiseE_def)

lemma liftE_simp [simp]: "liftE r s = (r, s)"
  by (simp add: liftE_def)

declare retE_def [op_simps] raiseE_def [op_simps] liftE_def [op_simps] seqE_def [op_simps]

text \<open>A loop \<open>for x in xs { body(x)?; }\<close>.\<close>

primrec forE :: "'x list \<Rightarrow> ('x \<Rightarrow> ('s, 'e, unit) sop) \<Rightarrow> ('s, 'e, unit) sop" where
  "forE [] f = retE ()"
| "forE (x # xs) f = seqE (f x) (\<lambda>_. forE xs f)"

section \<open>Ordered maps\<close>

text \<open>
  A \<open>BTreeMap\<close> is an association list in ascending key order: iteration follows the list,
  lookup is \<^const>\<open>map_of\<close>, \<open>insert\<close> is \<open>bt_insert\<close>.
\<close>

fun bt_insert :: "'k::linorder \<Rightarrow> 'v \<Rightarrow> ('k \<times> 'v) list \<Rightarrow> ('k \<times> 'v) list" where
  "bt_insert k v [] = [(k, v)]"
| "bt_insert k v ((a, b) # kvs) =
     (if k < a then (k, v) # (a, b) # kvs
      else if k = a then (k, v) # kvs
      else (a, b) # bt_insert k v kvs)"

definition bt_wf :: "('k::linorder \<times> 'v) list \<Rightarrow> bool" where
  "bt_wf kvs \<longleftrightarrow> sorted_wrt (<) (map fst kvs)"

lemma bt_wf_Nil [simp]: "bt_wf []"
  by (simp add: bt_wf_def)

lemma bt_wf_Cons: "bt_wf (kv # kvs) \<longleftrightarrow> (\<forall>kv' \<in> set kvs. fst kv < fst kv') \<and> bt_wf kvs"
  by (simp add: bt_wf_def)

lemma map_of_bt_insert [simp]: "map_of (bt_insert k v kvs) = (map_of kvs)(k \<mapsto> v)"
  by (induction k v kvs rule: bt_insert.induct) auto

lemma set_bt_insert_keys [simp]: "fst ` set (bt_insert k v kvs) = insert k (fst ` set kvs)"
  by (induction k v kvs rule: bt_insert.induct) auto

lemma bt_wf_insert: "bt_wf kvs \<Longrightarrow> bt_wf (bt_insert k v kvs)"
proof (induction k v kvs rule: bt_insert.induct)
  case (1 k v)
  then show ?case by (simp add: bt_wf_def)
next
  case (2 k v a b kvs)
  show ?case
  proof (cases "a < k")
    case True
    with 2 have IH: "bt_wf (bt_insert k v kvs)" by (simp add: bt_wf_Cons)
    have "\<forall>x \<in> fst ` set (bt_insert k v kvs). a < x"
      using 2(2) True by (auto simp: bt_wf_Cons)
    then have "\<forall>kv' \<in> set (bt_insert k v kvs). a < fst kv'" by blast
    moreover from True have "\<not> k < a" and "k \<noteq> a" by auto
    ultimately show ?thesis using IH by (simp add: bt_wf_Cons)
  next
    case False
    with 2(2) show ?thesis by (auto simp: bt_wf_Cons)
  qed
qed

lemma bt_wf_distinct: "bt_wf kvs \<Longrightarrow> distinct (map fst kvs)"
  by (simp add: bt_wf_def strict_sorted_iff)

lemma bt_wf_filter: "bt_wf kvs \<Longrightarrow> bt_wf (filter P kvs)"
  by (induction kvs) (auto simp: bt_wf_Cons)

lemma bt_insert_append:
  "\<forall>kv \<in> set kvs. fst kv < k \<Longrightarrow> bt_insert k v kvs = kvs @ [(k, v)]"
  by (induction kvs) auto

lemma bt_wf_append:
  "bt_wf (xs @ ys) \<longleftrightarrow> bt_wf xs \<and> bt_wf ys \<and> (\<forall>x \<in> set xs. \<forall>y \<in> set ys. fst x < fst y)"
  by (auto simp: bt_wf_def sorted_wrt_append)

section \<open>Strings\<close>

text \<open>
  A Rust \<open>String\<close> is its UTF-8 bytes; the model's \<open>string\<close> is a list of 8-bit characters,
  one per byte, so \<open>==\<close>, \<open>starts_with\<close>, \<open>Ord\<close> and \<open>as_bytes\<close> are the list operations.
\<close>

definition as_bytes :: "string \<Rightarrow> bytes" where
  "as_bytes s = map (\<lambda>c. word_of_nat (of_char c)) s"

definition from_bytes :: "bytes \<Rightarrow> string" where
  "from_bytes bs = map (\<lambda>b. char_of (unat b)) bs"

lemma unat_of_char [simp]: "unat (word_of_nat (of_char c) :: u8) = of_char c"
proof -
  have "(of_char c :: nat) < 256" by simp
  then show ?thesis by (simp add: unat_of_nat)
qed

lemma from_bytes_as_bytes [simp]: "from_bytes (as_bytes s) = s"
  by (induction s) (simp_all add: as_bytes_def from_bytes_def)

lemma as_bytes_inject [simp]: "as_bytes s = as_bytes t \<longleftrightarrow> s = t"
  by (metis from_bytes_as_bytes)

lemma of_char_char_of_word: "(word_of_nat (of_char (char_of (unat b) :: char)) :: u8) = b"
  using unat_byte_bound [of b] by (simp add: of_char_of)

lemma as_bytes_from_bytes [simp]: "as_bytes (from_bytes bs) = bs"
  by (induction bs) (simp_all add: as_bytes_def from_bytes_def of_char_char_of_word del: of_char_of)

lemma as_bytes_append: "as_bytes (s @ t) = as_bytes s @ as_bytes t"
  by (simp add: as_bytes_def)

definition strip_prefix :: "'a list \<Rightarrow> 'a list \<Rightarrow> 'a list option" where
  "strip_prefix p s = (if prefix p s then Some (drop (length p) s) else None)"

definition strip_suffix :: "'a list \<Rightarrow> 'a list \<Rightarrow> 'a list option" where
  "strip_suffix q s = (if suffix q s then Some (take (length s - length q) s) else None)"

lemma strip_prefix_append [simp]: "strip_prefix p (p @ s) = Some s"
  by (simp add: strip_prefix_def)

lemma strip_suffix_append [simp]: "strip_suffix q (s @ q) = Some s"
  by (simp add: strip_suffix_def suffix_def)

section \<open>Lists\<close>

lemma min_u64_MAX [simp]: "min x u64_MAX = x" "min u64_MAX x = (x :: u64)"
  by (auto simp: min_def intro: order.antisym)

lemma max_zero_word [simp]: "max x (0 :: 'a::len word) = x" "max 0 x = (x :: 'a::len word)"
  by (simp_all add: max_def)

lemma foldl_min_start: "foldl min (a::'a::linorder) xs \<le> a"
  by (induction xs arbitrary: a) (auto intro: order_trans [OF _ min.cobounded1])

lemma foldl_max_start: "(a::'a::linorder) \<le> foldl max a xs"
  by (induction xs arbitrary: a) (auto intro: order_trans [OF max.cobounded1])

lemma foldl_min_le: "x \<in> set xs \<Longrightarrow> foldl min (a::'a::linorder) xs \<le> x"
  by (induction xs arbitrary: a) (auto intro: order_trans [OF foldl_min_start])

lemma foldl_max_ge: "x \<in> set xs \<Longrightarrow> x \<le> foldl max (a::'a::linorder) xs"
  by (induction xs arbitrary: a) (auto intro: order_trans [OF _ foldl_max_start])


section \<open>The contract of a log\<close>

text \<open>
  The contract of an append-only log, as its clients use it: a successful append adds one row at
  the end, appending uses up at most one unit of room, and verification is not disturbed by it.
  Segments and tables provide it (\<open>Segment_Props\<close>, \<open>Table_Props\<close>).
\<close>


locale append_log =
  fixes holds_rows :: "'s \<Rightarrow> 'r list \<Rightarrow> bool"
    and app :: "'x \<Rightarrow> ('s, 'e, 'a) sop"
    and row :: "'x \<Rightarrow> 'r"
    and room :: "'s \<Rightarrow> nat"
  assumes app_ok: "holds_rows s rs \<Longrightarrow> 0 < room s \<Longrightarrow> app x s = (Inr a, s') \<Longrightarrow>
      holds_rows s' (rs @ [row x])"
    and app_room: "holds_rows s rs \<Longrightarrow> 0 < room s \<Longrightarrow> app x s = (Inr a, s') \<Longrightarrow> room s \<le> Suc (room s')"
begin

text \<open>A loop of appends that reports success has written every row, in order.\<close>

lemma app_all_ok:
  "holds_rows s rs \<Longrightarrow> length xs \<le> room s \<Longrightarrow>
     forE xs (\<lambda>x. seqE (app x) (\<lambda>_. retE ())) s = (Inr (), s') \<Longrightarrow>
     holds_rows s' (rs @ map row xs)"
proof (induction xs arbitrary: s rs)
  case Nil
  then show ?case by simp
next
  case (Cons x xs)
  have r: "0 < room s" using Cons.prems(2) by simp
  obtain a s1 where a: "app x s = (Inr a, s1)"
    and rest: "forE xs (\<lambda>x. seqE (app x) (\<lambda>_. retE ())) s1 = (Inr (), s')"
  proof (cases "app x s")
    case (Pair r s1)
    show ?thesis
    proof (cases r)
      case (Inl e)
      then show ?thesis using Cons.prems(3) Pair by (simp add: seqE_def)
    next
      case (Inr a)
      then have "forE (x # xs) (\<lambda>x. seqE (app x) (\<lambda>_. retE ())) s =
          forE xs (\<lambda>x. seqE (app x) (\<lambda>_. retE ())) s1"
        using Pair by (simp add: seqE_def)
      then have "forE xs (\<lambda>x. seqE (app x) (\<lambda>_. retE ())) s1 = (Inr (), s')"
        using Cons.prems(3) by (simp only:)
      then show ?thesis using that Pair Inr by blast
    qed
  qed
  have "holds_rows s1 (rs @ [row x])" using app_ok [OF Cons.prems(1) r a] .
  moreover have "length xs \<le> room s1" using app_room [OF Cons.prems(1) r a] Cons.prems(2) by simp
  ultimately have "holds_rows s' ((rs @ [row x]) @ map row xs)" using rest by (rule Cons.IH)
  then show ?case by simp
qed

end

end
