(* ===== verification/Errors.thy ===== *)
theory Errors
  imports Quipu_Prelude
begin

text \<open>
  The error type of \<open>quipu-core\<close> (\<open>crates/quipu-core/src/error.rs\<close>). The variants are the
  code's; where the code formats a message into a \<open>String\<close>, the model keeps a constructor per
  message with the data the message is built from, so that different errors stay different.
\<close>

type_synonym path = "string list" \<comment> \<open>\<open>PathBuf\<close>, by components\<close>

text \<open>\<open>std::io::Error\<close>: its kind and the raw OS code it may carry.\<close>

datatype io_kind = KNotFound | KStorageFull | KPermissionDenied | KWouldBlock | KInvalidInput | KInvalidData | KUnexpectedEof | KOther

datatype io_error = IoError (io_kind_of: io_kind) (io_raw_os: "int option")

datatype corrupt_reason =
    BadMagic
  | UnsupportedVersion u8
  | ChainMismatch
  | CrcMismatch
  | SeedMismatch
  | BadCheckpointLine
  | CheckpointHeadAbsent
  | MalformedRekeyHead
  | RekeyHeadAbsent

datatype encode_reason =
    RecordTooLarge nat
  | NoDirName
  | CodecFailed string

datatype crypto_reason =
    NoHmacKey
  | VersionZero
  | HmacKeyMissing u32
  | RsaPublicMissing u32
  | RsaPrivateMissing u32
  | NoRsaKey
  | NoSigningKey
  | NotRsaEncrypted
  | BadBase64
  | BadNonceLength
  | NoRewrapKey
  | RekeyNoRsaKey
  | RekeyNoPrivateKey
  | CheckpointSignatureInvalid
  | KeyConfiguredTwice string u32
  | RekeySignatureInvalid
  | CryptoLibrary string

datatype schema_reason =
    UnknownField string
  | FieldNotIndexed string
  | PlaintextCacheDisabled string
  | RsaFieldIndexed string string
  | FieldIndexSizeZero string string
  | FieldIndexNeedsText string string
  | FieldKindMismatch string
  | MissingRequiredField string
  | UnknownFieldForType string string
  | ReservedTypePrefix string
  | FieldRemoved string string
  | FieldKindOrProtectionChanged string string
  | FieldIndexChanged string string
  | NoRegistryTable string
  | CustomColumnUnregistered string
  | CustomColumnKind string
  | CustomColumnMissing string
  | AccessLogDisabled

datatype cursor_reason =
    NotACursor
  | UnsupportedCursorVersion u8
  | OppositeSortOrder

datatype error =
    Io io_error
  | Corrupt path nat corrupt_reason
  | Encode encode_reason
  | Crypto crypto_reason
  | Schema schema_reason
  | NotFound string
  | Locked path
  | InvalidCursor cursor_reason

type_synonym 'a res = "error + 'a"

text \<open>POSIX \<open>ENOSPC\<close>.\<close>

definition ENOSPC :: int where "ENOSPC = 28"

definition io_is_storage_full :: "io_error \<Rightarrow> bool" where
  "io_is_storage_full e \<longleftrightarrow> io_kind_of e = KStorageFull \<or> io_raw_os e = Some ENOSPC"

fun is_storage_full :: "error \<Rightarrow> bool" where
  "is_storage_full (Io e) = io_is_storage_full e"
| "is_storage_full _ = False"

lemma is_storage_full_iff:
  "is_storage_full e \<longleftrightarrow>
     (\<exists>k r. e = Io (IoError k r) \<and> (k = KStorageFull \<or> r = Some 28))"
proof (cases e)
  case (Io x)
  then show ?thesis by (cases x) (auto simp: io_is_storage_full_def ENOSPC_def)
qed simp_all

end
