(* ===== verification/Fs.thy ===== *)
theory Fs
  imports Errors
begin

text \<open>
  What the code uses of \<open>std::fs\<close> and of \<open>std::io::BufWriter\<close>.

  The disk maps paths to byte contents (an association list, so that a directory can be
  listed). Every operation that changes the disk consumes one entry of a fault schedule: it
  either passes, or fails with an I/O error after \<open>n\<close> bytes of a write have reached the file.
  An exhausted schedule means that nothing fails any more. Theorems that quantify over the
  schedule therefore speak about every sequence of I/O failures; \<open>quiet w\<close> is the disk on
  which no operation fails. Reads fail only when the file does not exist.
\<close>

datatype fault = Pass | Fault io_error nat

record fs =
  fs_files :: "(path \<times> bytes) list"
  fs_dirs :: "path list"
  fs_faults :: "fault list"

definition fget :: "fs \<Rightarrow> path \<Rightarrow> bytes option" where
  "fget w p = map_of (fs_files w) p"

definition fput :: "path \<Rightarrow> bytes \<Rightarrow> fs \<Rightarrow> fs" where
  "fput p bs w = w\<lparr>fs_files := AList.update p bs (fs_files w)\<rparr>"

definition fdel :: "path \<Rightarrow> fs \<Rightarrow> fs" where
  "fdel p w = w\<lparr>fs_files := AList.delete p (fs_files w)\<rparr>"

definition fs_wf :: "fs \<Rightarrow> bool" where
  "fs_wf w \<longleftrightarrow> distinct (map fst (fs_files w))"

definition quiet :: "fs \<Rightarrow> bool" where
  "quiet w \<longleftrightarrow> fs_faults w = []"

lemma fget_fput [simp]: "fget (fput p bs w) q = (if q = p then Some bs else fget w q)"
  by (simp add: fget_def fput_def update_conv')

lemma fget_fdel [simp]: "fget (fdel p w) q = (if q = p then None else fget w q)"
  by (simp add: fget_def fdel_def delete_conv')

lemma fget_faults [simp]: "fget (w\<lparr>fs_faults := f\<rparr>) p = fget w p"
  by (simp add: fget_def)

lemma fget_dirs [simp]: "fget (w\<lparr>fs_dirs := f\<rparr>) p = fget w p"
  by (simp add: fget_def)

lemma fput_fields [simp]:
  "fs_faults (fput p bs w) = fs_faults w" "fs_dirs (fput p bs w) = fs_dirs w"
  by (simp_all add: fput_def)

lemma fdel_fields [simp]:
  "fs_faults (fdel p w) = fs_faults w" "fs_dirs (fdel p w) = fs_dirs w"
  by (simp_all add: fdel_def)

lemma quiet_fput [simp]: "quiet (fput p bs w) = quiet w"
  by (simp add: quiet_def)

lemma quiet_fdel [simp]: "quiet (fdel p w) = quiet w"
  by (simp add: quiet_def)

lemma fs_wf_fput [simp]: "fs_wf w \<Longrightarrow> fs_wf (fput p bs w)"
  by (simp add: fs_wf_def fput_def distinct_update)

lemma fs_wf_fdel [simp]: "fs_wf w \<Longrightarrow> fs_wf (fdel p w)"
  by (simp add: fs_wf_def fdel_def distinct_delete)

lemma fs_wf_faults [simp]: "fs_wf (w\<lparr>fs_faults := f\<rparr>) = fs_wf w"
  by (simp add: fs_wf_def)

section \<open>Disk operations\<close>

text \<open>Take the next entry of the fault schedule.\<close>

definition next_fault :: "fs \<Rightarrow> (io_error \<times> nat) option \<times> fs" where
  "next_fault w =
     (case fs_faults w of
        [] \<Rightarrow> (None, w)
      | Pass # fs \<Rightarrow> (None, w\<lparr>fs_faults := fs\<rparr>)
      | Fault e n # fs \<Rightarrow> (Some (e, n), w\<lparr>fs_faults := fs\<rparr>))"

lemma next_fault_quiet [simp]: "quiet w \<Longrightarrow> next_fault w = (None, w)"
  by (simp add: next_fault_def quiet_def)

text \<open>An operation whose only effect on success is \<open>f\<close> on the disk.\<close>

definition fs_op :: "(fs \<Rightarrow> fs) \<Rightarrow> (fs, error, unit) sop" where
  "fs_op f w =
     (case next_fault w of
        (None, w') \<Rightarrow> (Inr (), f w')
      | (Some (e, n), w') \<Rightarrow> (Inl (Io e), w'))"

lemma fs_op_quiet [simp]: "quiet w \<Longrightarrow> fs_op f w = (Inr (), f w)"
  by (simp add: fs_op_def)

definition io_not_found :: error where
  "io_not_found = Io (IoError KNotFound None)"

text \<open>\<open>File::open\<close> followed by reading: the content, or \<open>NotFound\<close>.\<close>

definition fs_read :: "path \<Rightarrow> fs \<Rightarrow> bytes res" where
  "fs_read p w = ok_or io_not_found (fget w p)"

text \<open>\<open>OpenOptions::new().create(true).truncate(false)\<close>.\<close>

definition fs_open_create :: "path \<Rightarrow> (fs, error, unit) sop" where
  "fs_open_create p = fs_op (\<lambda>w. case fget w p of None \<Rightarrow> fput p [] w | Some _ \<Rightarrow> w)"

text \<open>\<open>File::set_len\<close>, when it shrinks the file.\<close>

definition fs_truncate :: "path \<Rightarrow> nat \<Rightarrow> (fs, error, unit) sop" where
  "fs_truncate p n =
     fs_op (\<lambda>w. case fget w p of None \<Rightarrow> w | Some bs \<Rightarrow> fput p (take n bs) w)"

text \<open>
  \<open>write_all\<close> on a file positioned at its end. On a fault, the first \<open>n\<close> bytes are in the
  file. The result also says how many bytes were written, which \<open>BufWriter\<close> uses. A file that
  was unlinked while it is held open swallows the data.
\<close>

definition fs_append_raw :: "path \<Rightarrow> bytes \<Rightarrow> fs \<Rightarrow> (io_error option \<times> nat) \<times> fs" where
  "fs_append_raw p bs w =
     (let (fl, w') = next_fault w;
          k = (case fl of None \<Rightarrow> length bs | Some (_, n) \<Rightarrow> min n (length bs));
          w'' = (case fget w' p of None \<Rightarrow> w' | Some old \<Rightarrow> fput p (old @ take k bs) w')
      in ((map_option fst fl, k), w''))"

lemma fs_append_raw_quiet:
  "quiet w \<Longrightarrow> fget w p = Some old \<Longrightarrow>
     fs_append_raw p bs w = ((None, length bs), fput p (old @ bs) w)"
  by (simp add: fs_append_raw_def)

text \<open>The same, as a plain result.\<close>

definition fs_append_all :: "path \<Rightarrow> bytes \<Rightarrow> (fs, error, unit) sop" where
  "fs_append_all p bs w =
     (case fs_append_raw p bs w of
        ((None, _), w') \<Rightarrow> (Inr (), w')
      | ((Some e, _), w') \<Rightarrow> (Inl (Io e), w'))"

definition fs_sync :: "path \<Rightarrow> (fs, error, unit) sop" where
  "fs_sync p = fs_op (\<lambda>w. w)"

text \<open>\<open>fs::write\<close> of a whole file.\<close>

definition fs_write_file :: "path \<Rightarrow> bytes \<Rightarrow> (fs, error, unit) sop" where
  "fs_write_file p bs w =
     (case next_fault w of
        (None, w') \<Rightarrow> (Inr (), fput p bs w')
      | (Some (e, n), w') \<Rightarrow> (Inl (Io e), fput p (take n bs) w'))"

lemma fs_write_file_quiet [simp]: "quiet w \<Longrightarrow> fs_write_file p bs w = (Inr (), fput p bs w)"
  by (simp add: fs_write_file_def)

definition fs_remove_file :: "path \<Rightarrow> (fs, error, unit) sop" where
  "fs_remove_file p w =
     (case fget w p of
        None \<Rightarrow> (Inl io_not_found, w)
      | Some _ \<Rightarrow> fs_op (fdel p) w)"

text \<open>\<open>OpenOptions::new().create(true).truncate(true)\<close>, and \<open>rename\<close> of a file.\<close>

definition fs_create_truncated :: "path \<Rightarrow> (fs, error, unit) sop" where
  "fs_create_truncated p = fs_op (fput p [])"

definition fs_rename_file :: "path \<Rightarrow> path \<Rightarrow> (fs, error, unit) sop" where
  "fs_rename_file a b w =
     (case fget w a of
        None \<Rightarrow> (Inl io_not_found, w)
      | Some bs \<Rightarrow> fs_op (\<lambda>w. fput b bs (fdel a w)) w)"

definition fs_create_dir_all :: "path \<Rightarrow> (fs, error, unit) sop" where
  "fs_create_dir_all d =
     fs_op (\<lambda>w. if d \<in> set (fs_dirs w) then w else w\<lparr>fs_dirs := d # fs_dirs w\<rparr>)"

text \<open>\<open>read_dir\<close>: the names of the files of a directory, in the order of the disk.\<close>

definition fs_read_dir :: "path \<Rightarrow> fs \<Rightarrow> string list" where
  "fs_read_dir d w = map last (filter (\<lambda>p. p \<noteq> [] \<and> butlast p = d) (map fst (fs_files w)))"

definition dir_exists :: "path \<Rightarrow> fs \<Rightarrow> bool" where
  "dir_exists d w \<longleftrightarrow> d \<in> set (fs_dirs w)"

text \<open>\<open>remove_dir_all\<close> and \<open>rename\<close> of a directory with everything below it.\<close>

text \<open>Removing a directory is not atomic: when it fails, the first \<open>n\<close> files below it are gone.\<close>

fun remove_below :: "path \<Rightarrow> nat \<Rightarrow> (path \<times> bytes) list \<Rightarrow> (path \<times> bytes) list" where
  "remove_below d n [] = []"
| "remove_below d n ((p, c) # fs) =
     (if prefix d p \<and> n > 0 then remove_below d (n - 1) fs else (p, c) # remove_below d n fs)"

definition forget_dir :: "path \<Rightarrow> fs \<Rightarrow> fs" where
  "forget_dir d w = w\<lparr>fs_files := filter (\<lambda>(p, _). \<not> prefix d p) (fs_files w),
     fs_dirs := filter (\<lambda>p. \<not> prefix d p) (fs_dirs w)\<rparr>"

definition fs_remove_dir_all :: "path \<Rightarrow> (fs, error, unit) sop" where
  "fs_remove_dir_all d w =
     (if \<not> dir_exists d w then (Inl io_not_found, w)
      else case next_fault w of
        (None, w') \<Rightarrow> (Inr (), forget_dir d w')
      | (Some (e, n), w') \<Rightarrow> (Inl (Io e), w'\<lparr>fs_files := remove_below d n (fs_files w')\<rparr>))"

definition rebase :: "path \<Rightarrow> path \<Rightarrow> path \<Rightarrow> path" where
  "rebase a b p = (if prefix a p then b @ drop (length a) p else p)"

definition move_dir :: "path \<Rightarrow> path \<Rightarrow> fs \<Rightarrow> fs" where
  "move_dir a b w = w\<lparr>fs_files := map (\<lambda>(p, c). (rebase a b p, c)) (fs_files w),
     fs_dirs := map (rebase a b) (fs_dirs w)\<rparr>"

definition fs_rename_dir :: "path \<Rightarrow> path \<Rightarrow> (fs, error, unit) sop" where
  "fs_rename_dir a b w =
     (if \<not> dir_exists a w then (Inl io_not_found, w) else fs_op (move_dir a b) w)"

lemma child_path_iff: "p \<noteq> [] \<and> butlast p = d \<and> last p = x \<longleftrightarrow> p = d @ [x]"
  by (metis append_butlast_last_id append_is_Nil_conv butlast_snoc last_snoc list.distinct(1))

lemma set_fs_read_dir: "x \<in> set (fs_read_dir d w) \<longleftrightarrow> fget w (d @ [x]) \<noteq> None"
proof -
  have "x \<in> set (fs_read_dir d w) \<longleftrightarrow>
      (\<exists>p \<in> fst ` set (fs_files w). p \<noteq> [] \<and> butlast p = d \<and> last p = x)"
    unfolding fs_read_dir_def set_map set_filter by blast
  also have "\<dots> \<longleftrightarrow> d @ [x] \<in> fst ` set (fs_files w)"
    unfolding child_path_iff by metis
  finally have "x \<in> set (fs_read_dir d w) \<longleftrightarrow> d @ [x] \<in> fst ` set (fs_files w)" .
  then show ?thesis by (simp add: fget_def map_of_eq_None_iff)
qed

lemma distinct_fs_read_dir:
  assumes "fs_wf w"
  shows "distinct (fs_read_dir d w)"
proof -
  let ?ps = "filter (\<lambda>p. p \<noteq> [] \<and> butlast p = d) (map fst (fs_files w))"
  have "distinct ?ps" using assms by (simp add: fs_wf_def)
  moreover have "inj_on last (set ?ps)"
  proof (rule inj_onI)
    fix p q assume "p \<in> set ?ps" "q \<in> set ?ps" and eq: "last p = last q"
    then have "p = d @ [last p]" and "q = d @ [last q]"
      unfolding set_filter mem_Collect_eq by (metis append_butlast_last_id)+
    with eq show "p = q" by metis
  qed
  ultimately show ?thesis by (simp add: fs_read_dir_def distinct_map)
qed


section \<open>File names\<close>

text \<open>
  What the code uses of \<open>std::path\<close> beyond joining: replacing a file name's extension.
\<close>


text \<open>
  \<open>Path::with_extension\<close>: the file name loses what follows its last dot, unless that dot is the
  first character or the name is \<open>..\<close>.
\<close>

definition file_stem :: "string \<Rightarrow> string" where
  "file_stem name =
     (let before = rev (tl (dropWhile (\<lambda>c. c \<noteq> CHR ''.'') (rev name)))
      in if name = ''..'' \<or> CHR ''.'' \<notin> set name \<or> before = [] then name else before)"

definition with_extension :: "path \<Rightarrow> string \<Rightarrow> path" where
  "with_extension p ext = (if p = [] then [] else butlast p @ [file_stem (last p) @ ''.'' @ ext])"

end
