(* ===== verification/Segment.thy ===== *)
theory Segment
  imports Fs
begin

text \<open>
  Append-only segment files (\<open>crates/quipu-core/src/storage/segment.rs\<close>): the header and frame
  formats, the hash chain, the buffered writer, recovery by \<open>skim\<close>, the sequential reader,
  chain verification and chain search.

  SHA-256 (crate \<open>sha2\<close>) and CRC-32 (crate \<open>crc32fast\<close>) are parameters, bundled in the
  record \<open>ext\<close>; the only fact assumed of them, where it is needed, is \<open>ext_ok\<close>: a SHA-256
  digest has 32 bytes.
\<close>

section \<open>External functions\<close>

record ext =
  x_sha256 :: "bytes \<Rightarrow> bytes"
  x_crc32 :: "bytes \<Rightarrow> u32"

definition ext_ok :: "ext \<Rightarrow> bool" where
  "ext_ok X \<longleftrightarrow> (\<forall>b. length (x_sha256 X b) = 32)"

section \<open>Format constants\<close>

definition MAGIC :: bytes where "MAGIC = [65, 76, 79, 71]" \<comment> \<open>\<open>b"ALOG"\<close>\<close>
definition FORMAT_VERSION :: u8 where "FORMAT_VERSION = 1"
definition CHAIN_LEN :: nat where "CHAIN_LEN = 32"
definition SEGMENT_HEADER :: nat where "SEGMENT_HEADER = 4 + 1 + 32"
definition FRAME_HEADER :: nat where "FRAME_HEADER = 4 + 4 + 8 + 32"
definition MAX_RECORD :: nat where "MAX_RECORD = 64 * 1024 * 1024"
definition BUF_CAPACITY :: nat where "BUF_CAPACITY = 256 * 1024"

type_synonym chain_hash = bytes \<comment> \<open>\<open>[u8; 32]\<close>\<close>

definition ZERO_CHAIN :: chain_hash where "ZERO_CHAIN = replicate 32 0"

lemma length_MAGIC [simp]: "length MAGIC = 4"
  by (simp add: MAGIC_def)

lemma length_ZERO_CHAIN [simp]: "length ZERO_CHAIN = 32"
  by (simp add: ZERO_CHAIN_def)

lemma header_sizes [simp]: "SEGMENT_HEADER = 37" "FRAME_HEADER = 48" "MAX_RECORD = 67108864"
  by (simp_all add: SEGMENT_HEADER_def FRAME_HEADER_def MAX_RECORD_def)

definition chain_next :: "ext \<Rightarrow> chain_hash \<Rightarrow> bytes \<Rightarrow> chain_hash" where
  "chain_next X prev payload = x_sha256 X (prev @ payload)"

lemma length_chain_next [simp]: "ext_ok X \<Longrightarrow> length (chain_next X c p) = 32"
  by (simp add: ext_ok_def chain_next_def)

section \<open>Reading\<close>

text \<open>The four fields of a frame header, cut out of its 48 bytes.\<close>

definition frame_fields :: "bytes \<Rightarrow> u32 \<times> u32 \<times> u64 \<times> chain_hash" where
  "frame_fields h =
     (from_le32 (take 4 h), from_le32 (take 4 (drop 4 h)),
      from_le64 (take 8 (drop 8 h)), take 32 (drop 16 h))"

definition read_header :: "path \<Rightarrow> bytes \<Rightarrow> (u8 \<times> chain_hash) res" where
  "read_header p head =
     (if take 4 head \<noteq> MAGIC then Inl (Corrupt p 0 BadMagic)
      else let version = head ! 4 in
        if version \<noteq> FORMAT_VERSION then Inl (Corrupt p 0 (UnsupportedVersion version))
        else Inr (version, drop 5 (take SEGMENT_HEADER head)))"

record skim =
  sk_valid_len :: nat
  sk_min_timestamp :: u64
  sk_max_timestamp :: u64
  sk_records :: nat
  sk_last_chain :: chain_hash

text \<open>
  The loop of \<open>skim\<close>: \<open>rest\<close> is the unread part of the file, so \<open>total - valid\<close> is its
  length.
\<close>

function skim_loop :: "ext \<Rightarrow> bytes \<Rightarrow> skim \<Rightarrow> skim" where
  "skim_loop X rest sk =
     (if length rest < FRAME_HEADER then sk
      else
        let (len, crc, ts, chain) = frame_fields (take FRAME_HEADER rest);
            body = drop FRAME_HEADER rest;
            buf = take (unat len) body
        in if unat len > MAX_RECORD \<or> length rest - FRAME_HEADER < unat len then sk
           else if x_crc32 X buf \<noteq> crc then sk
           else skim_loop X (drop (unat len) body)
                  \<lparr>sk_valid_len = sk_valid_len sk + (FRAME_HEADER + unat len),
                   sk_min_timestamp = min (sk_min_timestamp sk) ts,
                   sk_max_timestamp = max (sk_max_timestamp sk) ts,
                   sk_records = sk_records sk + 1,
                   sk_last_chain = chain\<rparr>)"
  by pat_completeness auto
termination
  by (relation "measure (\<lambda>(X, rest, sk). length rest)") auto

declare skim_loop.simps [simp del]

definition skim_bytes :: "ext \<Rightarrow> path \<Rightarrow> bytes \<Rightarrow> skim option res" where
  "skim_bytes X p content =
     (if length content < SEGMENT_HEADER then Inr None
      else rbind (read_header p (take SEGMENT_HEADER content)) (\<lambda>(_, seed).
        Inr (Some (skim_loop X (drop SEGMENT_HEADER content)
          \<lparr>sk_valid_len = SEGMENT_HEADER, sk_min_timestamp = u64_MAX, sk_max_timestamp = 0,
           sk_records = 0, sk_last_chain = seed\<rparr>))))"

definition skim_file :: "ext \<Rightarrow> path \<Rightarrow> fs \<Rightarrow> skim option res" where
  "skim_file X p w =
     (case fget w p of None \<Rightarrow> Inr None | Some content \<Rightarrow> skim_bytes X p content)"

text \<open>
  \<open>SegmentReader\<close>. \<open>rd_rest\<close> is what the underlying reader still holds: the file content
  after the current offset. It may extend past \<open>rd_end\<close>, which only bounds the offsets.
\<close>

record segment_reader =
  rd_path :: path
  rd_rest :: bytes
  rd_offset :: nat
  rd_end :: nat
  rd_seed :: chain_hash

definition open_bounded_bytes :: "path \<Rightarrow> nat \<Rightarrow> bytes \<Rightarrow> segment_reader res" where
  "open_bounded_bytes p bound content =
     (let end' = min (length content) bound in
      rbind (if end' \<ge> SEGMENT_HEADER
             then rbind (read_header p (take SEGMENT_HEADER content)) (\<lambda>(_, seed). Inr seed)
             else Inr ZERO_CHAIN) (\<lambda>seed.
      Inr \<lparr>rd_path = p,
           rd_rest = (if end' \<ge> SEGMENT_HEADER then drop SEGMENT_HEADER content else content),
           rd_offset = min SEGMENT_HEADER end',
           rd_end = end', rd_seed = seed\<rparr>))"

definition open_bounded :: "path \<Rightarrow> nat \<Rightarrow> fs \<Rightarrow> segment_reader res" where
  "open_bounded p bound w = rbind (fs_read p w) (open_bounded_bytes p bound)"

definition reader_open :: "path \<Rightarrow> fs \<Rightarrow> segment_reader res" where
  "reader_open p w = open_bounded p u64_max_nat w"

definition next_record_raw ::
  "ext \<Rightarrow> segment_reader \<Rightarrow> ((u64 \<times> chain_hash \<times> bytes) option \<times> segment_reader) res" where
  "next_record_raw X r =
     (if rd_end r - rd_offset r < FRAME_HEADER then Inr (None, r)
      else
        let (len, crc, ts, chain) = frame_fields (take FRAME_HEADER (rd_rest r));
            body = drop FRAME_HEADER (rd_rest r);
            buf = take (unat len) body
        in if unat len > MAX_RECORD \<or> rd_end r - rd_offset r - FRAME_HEADER < unat len
           then Inr (None, r)
           else if x_crc32 X buf \<noteq> crc then Inl (Corrupt (rd_path r) (rd_offset r) CrcMismatch)
           else Inr (Some (ts, chain, buf),
                     r\<lparr>rd_offset := rd_offset r + (FRAME_HEADER + unat len),
                       rd_rest := drop (unat len) body\<rparr>))"

definition next_record ::
  "ext \<Rightarrow> segment_reader \<Rightarrow> ((u64 \<times> bytes) option \<times> segment_reader) res" where
  "next_record X r =
     rbind (next_record_raw X r) (\<lambda>(o', r'). Inr (map_option (\<lambda>(ts, _, p). (ts, p)) o', r'))"

lemma next_record_raw_offset:
  "next_record_raw X r = Inr (Some t, r') \<Longrightarrow>
     rd_end r' = rd_end r \<and> rd_offset r < rd_offset r' \<and> rd_offset r' \<le> rd_end r"
  by (auto simp: next_record_raw_def Let_def split: if_splits prod.splits)

text \<open>\<open>verify_chain\<close>: recompute the hash chain over every record.\<close>

function verify_loop ::
  "ext \<Rightarrow> segment_reader \<Rightarrow> chain_hash \<Rightarrow> (chain_hash \<times> chain_hash) res" where
  "verify_loop X r expect =
     (case next_record_raw X r of
        Inl e \<Rightarrow> Inl e
      | Inr (None, r') \<Rightarrow> Inr (rd_seed r, expect)
      | Inr (Some (ts, chain, payload), r') \<Rightarrow>
          let expect' = chain_next X expect payload
          in if chain \<noteq> expect' then Inl (Corrupt (rd_path r) (rd_offset r) ChainMismatch)
             else verify_loop X r' expect')"
  by pat_completeness auto
termination
  by (relation "measure (\<lambda>(X, r, e). rd_end r - rd_offset r)")
    (auto dest!: next_record_raw_offset)

declare verify_loop.simps [simp del]

definition verify_chain :: "ext \<Rightarrow> path \<Rightarrow> fs \<Rightarrow> (chain_hash \<times> chain_hash) res" where
  "verify_chain X p w = rbind (reader_open p w) (\<lambda>r. verify_loop X r (rd_seed r))"

text \<open>\<open>chain_contains\<close>: is \<open>target\<close> the header seed or the stored chain value of a record?\<close>

function contains_loop :: "ext \<Rightarrow> segment_reader \<Rightarrow> chain_hash \<Rightarrow> bool res" where
  "contains_loop X r target =
     (case next_record_raw X r of
        Inl e \<Rightarrow> Inl e
      | Inr (None, r') \<Rightarrow> Inr False
      | Inr (Some (ts, chain, payload), r') \<Rightarrow>
          if chain = target then Inr True else contains_loop X r' target)"
  by pat_completeness auto
termination
  by (relation "measure (\<lambda>(X, r, t). rd_end r - rd_offset r)")
    (auto dest!: next_record_raw_offset)

declare contains_loop.simps [simp del]

definition chain_contains :: "ext \<Rightarrow> path \<Rightarrow> chain_hash \<Rightarrow> fs \<Rightarrow> bool res" where
  "chain_contains X p target w =
     rbind (reader_open p w) (\<lambda>r.
       if rd_seed r = target then Inr True else contains_loop X r target)"

text \<open>Draining a reader with \<open>next_record\<close>, as every scan does.\<close>

function read_records :: "ext \<Rightarrow> segment_reader \<Rightarrow> (u64 \<times> bytes) list res" where
  "read_records X r =
     (case next_record_raw X r of
        Inl e \<Rightarrow> Inl e
      | Inr (None, r') \<Rightarrow> Inr []
      | Inr (Some (ts, chain, payload), r') \<Rightarrow>
          rbind (read_records X r') (\<lambda>rs. Inr ((ts, payload) # rs)))"
  by pat_completeness auto
termination
  by (relation "measure (\<lambda>(X, r). rd_end r - rd_offset r)")
    (auto dest!: next_record_raw_offset)

declare read_records.simps [simp del]

section \<open>Writing\<close>

text \<open>
  \<open>Segment\<close>: \<open>seg_buf\<close> is the content of its \<open>BufWriter\<close>, whose file is \<open>seg_path\<close>,
  positioned at the end.
\<close>

record segment =
  seg_path :: path
  seg_buf :: bytes
  seg_len :: nat
  seg_min_timestamp :: u64
  seg_max_timestamp :: u64
  seg_records :: nat
  seg_last_chain :: chain_hash

text \<open>
  \<open>BufWriter::flush_buf\<close>: what was written before an error leaves the buffer, the rest stays.
\<close>

definition bw_flush_buf :: "(segment \<times> fs, error, unit) sop" where
  "bw_flush_buf = (\<lambda>(s, w).
     if seg_buf s = [] then (Inr (), (s, w))
     else case fs_append_raw (seg_path s) (seg_buf s) w of ((err, k), w') \<Rightarrow>
       ((case err of None \<Rightarrow> Inr () | Some e \<Rightarrow> Inl (Io e)),
        (s\<lparr>seg_buf := drop k (seg_buf s)\<rparr>, w')))"

text \<open>
  \<open>BufWriter::write_all\<close>: data that fits the spare capacity is buffered; otherwise the buffer
  is flushed first, and data as large as the capacity goes straight to the file.
\<close>

definition bw_spare :: "segment \<Rightarrow> nat" where
  "bw_spare s = BUF_CAPACITY - length (seg_buf s)"

definition bw_put :: "bytes \<Rightarrow> (segment \<times> fs, error, unit) sop" where
  "bw_put data = (\<lambda>(s, w). (Inr (), (s\<lparr>seg_buf := seg_buf s @ data\<rparr>, w)))"

definition bw_direct :: "bytes \<Rightarrow> (segment \<times> fs, error, unit) sop" where
  "bw_direct data = (\<lambda>(s, w).
     case fs_append_raw (seg_path s) data w of ((err, k), w') \<Rightarrow>
       ((case err of None \<Rightarrow> Inr () | Some e \<Rightarrow> Inl (Io e)), (s, w')))"

definition bw_write_all :: "bytes \<Rightarrow> (segment \<times> fs, error, unit) sop" where
  "bw_write_all data = (\<lambda>(s, w).
     if length data < bw_spare s then bw_put data (s, w)
     else seqE (if length data > bw_spare s then bw_flush_buf else retE ()) (\<lambda>_.
            if length data \<ge> BUF_CAPACITY then bw_direct data else bw_put data) (s, w))"

definition on_fs :: "(fs, error, 'a) sop \<Rightarrow> ('x \<times> fs, error, 'a) sop" where
  "on_fs m = (\<lambda>(x, w). case m w of (r, w') \<Rightarrow> (r, (x, w')))"

definition seg_flush :: "(segment \<times> fs, error, unit) sop" where
  "seg_flush = bw_flush_buf"

definition seg_sync :: "(segment \<times> fs, error, unit) sop" where
  "seg_sync = (\<lambda>(s, w). seqE bw_flush_buf (\<lambda>_. on_fs (fs_sync (seg_path s))) (s, w))"

text \<open>
  \<open>Segment::open\<close>. An existing file keeps its header and loses its torn tail; a missing file,
  or one shorter than a header, gets a fresh header with \<open>seed\<close> (in the buffer only).
\<close>

definition seg_open :: "ext \<Rightarrow> path \<Rightarrow> chain_hash \<Rightarrow> (fs, error, segment) sop" where
  "seg_open X p seed w =
     (case skim_file X p w of
        Inl e \<Rightarrow> (Inl e, w)
      | Inr skimmed \<Rightarrow>
          seqE (fs_open_create p) (\<lambda>_.
            case skimmed of
              Some k \<Rightarrow>
                seqE (\<lambda>w. if length (case fget w p of None \<Rightarrow> [] | Some c \<Rightarrow> c) > sk_valid_len k
                           then fs_truncate p (sk_valid_len k) w else (Inr (), w)) (\<lambda>_.
                retE \<lparr>seg_path = p, seg_buf = [], seg_len = sk_valid_len k,
                      seg_min_timestamp = sk_min_timestamp k,
                      seg_max_timestamp = sk_max_timestamp k,
                      seg_records = sk_records k, seg_last_chain = sk_last_chain k\<rparr>)
            | None \<Rightarrow>
                seqE (fs_truncate p 0) (\<lambda>_.
                retE \<lparr>seg_path = p, seg_buf = MAGIC @ [FORMAT_VERSION] @ seed,
                      seg_len = SEGMENT_HEADER,
                      seg_min_timestamp = u64_MAX, seg_max_timestamp = 0,
                      seg_records = 0, seg_last_chain = seed\<rparr>)) w)"

definition seg_is_empty :: "segment \<Rightarrow> bool" where
  "seg_is_empty s \<longleftrightarrow> seg_len s \<le> SEGMENT_HEADER"

text \<open>\<open>Segment::append\<close>: five buffered writes, then the bookkeeping.\<close>

definition seg_append ::
  "ext \<Rightarrow> bytes \<Rightarrow> u64 \<Rightarrow> (segment \<times> fs, error, nat) sop" where
  "seg_append X payload timestamp = (\<lambda>(s, w).
     if length payload > MAX_RECORD then (Inl (Encode (RecordTooLarge (length payload))), (s, w))
     else
       let offset = seg_len s;
           crc = x_crc32 X payload;
           chain = chain_next X (seg_last_chain s) payload
       in seqE (bw_write_all (le32 (word_of_nat (length payload)))) (\<lambda>_.
          seqE (bw_write_all (le32 crc)) (\<lambda>_.
          seqE (bw_write_all (le64 timestamp)) (\<lambda>_.
          seqE (bw_write_all chain) (\<lambda>_.
          seqE (bw_write_all payload) (\<lambda>_. \<lambda>(s, w).
            (Inr offset,
             (s\<lparr>seg_len := seg_len s + (FRAME_HEADER + length payload),
               seg_min_timestamp := min (seg_min_timestamp s) timestamp,
               seg_max_timestamp := max (seg_max_timestamp s) timestamp,
               seg_records := seg_records s + 1,
               seg_last_chain := chain\<rparr>, w))))))) (s, w))"

text \<open>Dropping a segment flushes its buffer and ignores the outcome.\<close>

definition seg_drop :: "segment \<Rightarrow> fs \<Rightarrow> fs" where
  "seg_drop s w = snd (snd (bw_flush_buf (s, w)))"

end
