(* ===== verification/Segment_Format.thy ===== *)
theory Segment_Format
  imports Segment
begin

text \<open>
  What a segment file means: a header followed by frames. \<open>frame\<close> is the encoding of one
  stored record (timestamp, stored chain value, payload), \<open>seg_image\<close> the file that an
  undisturbed writer produces for a list of rows. The lemmas relate the reading loops
  (\<open>skim_loop\<close>, \<open>next_record_raw\<close> and its three clients) to that format.
\<close>

section \<open>The format\<close>

type_synonym row = "u64 \<times> bytes" \<comment> \<open>timestamp and payload\<close>
type_synonym stored = "u64 \<times> chain_hash \<times> bytes"

definition frame :: "ext \<Rightarrow> stored \<Rightarrow> bytes" where
  "frame X t = (case t of (ts, c, p) \<Rightarrow>
     le32 (word_of_nat (length p)) @ le32 (x_crc32 X p) @ le64 ts @ c @ p)"

definition frames :: "ext \<Rightarrow> stored list \<Rightarrow> bytes" where
  "frames X ts = concat (map (frame X) ts)"

fun chain_recs :: "ext \<Rightarrow> chain_hash \<Rightarrow> row list \<Rightarrow> stored list" where
  "chain_recs X c [] = []"
| "chain_recs X c ((ts, p) # rs) = (ts, chain_next X c p, p) # chain_recs X (chain_next X c p) rs"

definition chain_of :: "ext \<Rightarrow> chain_hash \<Rightarrow> bytes list \<Rightarrow> chain_hash" where
  "chain_of X = foldl (chain_next X)"

definition row_of :: "stored \<Rightarrow> row" where
  "row_of t = (case t of (ts, c, p) \<Rightarrow> (ts, p))"

definition seg_header :: "chain_hash \<Rightarrow> bytes" where
  "seg_header seed = MAGIC @ [FORMAT_VERSION] @ seed"

definition seg_image :: "ext \<Rightarrow> chain_hash \<Rightarrow> row list \<Rightarrow> bytes" where
  "seg_image X seed recs = seg_header seed @ frames X (chain_recs X seed recs)"

definition stored_ok :: "stored \<Rightarrow> bool" where
  "stored_ok t \<longleftrightarrow> (case t of (ts, c, p) \<Rightarrow> length c = 32 \<and> length p \<le> MAX_RECORD)"

definition row_ok :: "row \<Rightarrow> bool" where
  "row_ok r \<longleftrightarrow> length (snd r) \<le> MAX_RECORD"

lemma frames_simps [simp]:
  "frames X [] = []" "frames X (t # ts) = frame X t @ frames X ts"
  "frames X (us @ ts) = frames X us @ frames X ts"
  by (simp_all add: frames_def)

lemma chain_of_simps [simp]:
  "chain_of X c [] = c" "chain_of X c (p # ps) = chain_of X (chain_next X c p) ps"
  "chain_of X c (ps @ qs) = chain_of X (chain_of X c ps) qs"
  by (simp_all add: chain_of_def)

lemma chain_recs_append:
  "chain_recs X c (rs @ qs) = chain_recs X c rs @ chain_recs X (chain_of X c (map snd rs)) qs"
  by (induction X c rs rule: chain_recs.induct) auto

lemma map_row_of_chain_recs [simp]: "map row_of (chain_recs X c rs) = rs"
  by (induction X c rs rule: chain_recs.induct) (auto simp: row_of_def)

lemma length_chain_recs [simp]: "length (chain_recs X c rs) = length rs"
  by (induction X c rs rule: chain_recs.induct) auto

lemma take_chain_recs: "take n (chain_recs X c rs) = chain_recs X c (take n rs)"
proof -
  have "chain_recs X c rs = chain_recs X c (take n rs) @
          chain_recs X (chain_of X c (map snd (take n rs))) (drop n rs)"
    by (metis append_take_drop_id chain_recs_append)
  then have "take n (chain_recs X c rs) =
      take n (chain_recs X c (take n rs)) @
      take (n - length (take n rs)) (chain_recs X (chain_of X c (map snd (take n rs))) (drop n rs))"
    by (simp only: take_append length_chain_recs)
  then show ?thesis by (cases "n \<le> length rs") simp_all
qed

lemma stored_ok_chain_recs:
  "ext_ok X \<Longrightarrow> \<forall>r \<in> set rs. row_ok r \<Longrightarrow> \<forall>t \<in> set (chain_recs X c rs). stored_ok t"
  by (induction X c rs rule: chain_recs.induct) (auto simp: stored_ok_def row_ok_def)

lemma length_seg_header [simp]: "length seed = 32 \<Longrightarrow> length (seg_header seed) = 37"
  by (simp add: seg_header_def)

lemma length_frame: "stored_ok (ts, c, p) \<Longrightarrow> length (frame X (ts, c, p)) = 48 + length p"
  by (simp add: frame_def stored_ok_def)

lemma length_frame_ge: "stored_ok t \<Longrightarrow> 48 \<le> length (frame X t)"
  by (cases t) (simp add: length_frame)

section \<open>Parsing one frame\<close>

lemma frame_fields_frame:
  assumes "stored_ok (ts, c, p)"
  shows "frame_fields (take 48 (frame X (ts, c, p) @ rest)) =
           (word_of_nat (length p), x_crc32 X p, ts, c)"
    and "drop 48 (frame X (ts, c, p) @ rest) = p @ rest"
proof -
  let ?a = "le32 (word_of_nat (length p))" and ?b = "le32 (x_crc32 X p)" and ?c = "le64 ts"
  have c: "length c = 32" using assms by (simp add: stored_ok_def)
  have eq: "frame X (ts, c, p) @ rest = (?a @ ?b @ ?c @ c) @ p @ rest" by (simp add: frame_def)
  have len: "length (?a @ ?b @ ?c @ c) = 48" using c by simp
  show "drop 48 (frame X (ts, c, p) @ rest) = p @ rest" using len unfolding eq by simp
  have "take 48 (frame X (ts, c, p) @ rest) = ?a @ ?b @ ?c @ c" using len unfolding eq by simp
  then show "frame_fields (take 48 (frame X (ts, c, p) @ rest)) =
           (word_of_nat (length p), x_crc32 X p, ts, c)"
    using c by (simp add: frame_fields_def)
qed

lemma unat_length32: "n \<le> MAX_RECORD \<Longrightarrow> unat (word_of_nat n :: u32) = n"
  by (simp add: unat_of_nat)

text \<open>
  A tail on which both the recovery scan and the readers stop without an error: too short for a
  header, or its length field exceeds the limit or what is left.
\<close>

definition short_tail :: "bytes \<Rightarrow> bool" where
  "short_tail t \<longleftrightarrow> length t < 48 \<or>
     (let len = unat (fst (frame_fields (take 48 t))) in len > MAX_RECORD \<or> length t - 48 < len)"

lemma short_tail_Nil [simp]: "short_tail []"
  by (simp add: short_tail_def)

lemma short_tail_prefix:
  assumes "stored_ok t" and "n < length (frame X t)"
  shows "short_tail (take n (frame X t))"
proof (cases "n < 48")
  case True
  then show ?thesis using assms(2) by (simp add: short_tail_def)
next
  case False
  obtain ts c p where t: "t = (ts, c, p)" by (cases t)
  have "take 48 (take n (frame X t)) = take 48 (frame X t @ [])" using False by simp
  then have "fst (frame_fields (take 48 (take n (frame X t)))) = word_of_nat (length p)"
    using frame_fields_frame(1) assms(1) unfolding t by (metis fst_conv)
  moreover have "length p \<le> MAX_RECORD" using assms(1) t by (simp add: stored_ok_def)
  moreover have "length (frame X t) = 48 + length p" using assms(1) t length_frame by simp
  ultimately show ?thesis using assms(2) False
    by (simp add: short_tail_def unat_length32)
qed

text \<open>Every prefix of a run of frames is whole frames followed by a short tail.\<close>

lemma take_frames:
  assumes "\<forall>t \<in> set ts. stored_ok t"
  shows "\<exists>k tail. k \<le> length ts \<and> take n (frames X ts) = frames X (take k ts) @ tail \<and> short_tail tail"
  using assms
proof (induction ts arbitrary: n)
  case Nil
  then show ?case by simp
next
  case (Cons t ts)
  show ?case
  proof (cases "n < length (frame X t)")
    case True
    then have "take n (frames X (t # ts)) = frames X (take 0 (t # ts)) @ take n (frame X t)" by simp
    moreover have "short_tail (take n (frame X t))" using Cons.prems True by (simp add: short_tail_prefix)
    ultimately show ?thesis by blast
  next
    case False
    obtain k tail where k: "k \<le> length ts"
      "take (n - length (frame X t)) (frames X ts) = frames X (take k ts) @ tail" "short_tail tail"
      using Cons.IH [of "n - length (frame X t)"] Cons.prems by (metis list.set_intros(2))
    then have "Suc k \<le> length (t # ts)"
      "take n (frames X (t # ts)) = frames X (take (Suc k) (t # ts)) @ tail" using False by auto
    with k(3) show ?thesis by blast
  qed
qed

section \<open>The recovery scan\<close>

definition skim_add :: "skim \<Rightarrow> stored \<Rightarrow> skim" where
  "skim_add sk t = (case t of (ts, c, p) \<Rightarrow>
     \<lparr>sk_valid_len = sk_valid_len sk + (48 + length p),
      sk_min_timestamp = min (sk_min_timestamp sk) ts,
      sk_max_timestamp = max (sk_max_timestamp sk) ts,
      sk_records = sk_records sk + 1, sk_last_chain = c\<rparr>)"

lemma skim_loop_frame:
  assumes "stored_ok t"
  shows "skim_loop X (frame X t @ rest) sk = skim_loop X rest (skim_add sk t)"
proof -
  obtain ts c p where t: "t = (ts, c, p)" by (cases t)
  have p: "length p \<le> MAX_RECORD" using assms t by (simp add: stored_ok_def)
  show ?thesis
    using length_frame [of ts c p X] assms p frame_fields_frame [of ts c p X rest] unat_length32 [OF p]
    unfolding t by (subst skim_loop.simps) (simp add: skim_add_def)
qed

lemma skim_loop_short: "short_tail t \<Longrightarrow> skim_loop X t sk = sk"
  by (subst skim_loop.simps) (auto simp: short_tail_def Let_def split: prod.splits)

lemma skim_loop_frames:
  "\<forall>t \<in> set ts. stored_ok t \<Longrightarrow>
     skim_loop X (frames X ts @ tail) sk = skim_loop X tail (foldl skim_add sk ts)"
  by (induction ts arbitrary: sk) (simp_all add: skim_loop_frame)

lemma skim_add_fields:
  "sk_min_timestamp (foldl skim_add sk ts) = foldl min (sk_min_timestamp sk) (map fst ts)"
  "sk_max_timestamp (foldl skim_add sk ts) = foldl max (sk_max_timestamp sk) (map fst ts)"
  "sk_records (foldl skim_add sk ts) = sk_records sk + length ts"
  "sk_last_chain (foldl skim_add sk ts) = foldl (\<lambda>c t. fst (snd t)) (sk_last_chain sk) ts"
  by (induction ts arbitrary: sk) (auto simp: skim_add_def split: prod.splits)

lemma skim_add_valid_len:
  "\<forall>t \<in> set ts. stored_ok t \<Longrightarrow>
     sk_valid_len (foldl skim_add sk ts) = sk_valid_len sk + length (frames X ts)"
proof (induction ts arbitrary: sk)
  case Nil
  then show ?case by simp
next
  case (Cons t ts)
  obtain a c p where "t = (a, c, p)" by (cases t)
  with Cons show ?case by (simp add: skim_add_def length_frame)
qed

lemma last_chain_recs: "foldl (\<lambda>c t. fst (snd t)) c (chain_recs X c rs) = chain_of X c (map snd rs)"
  by (induction X c rs rule: chain_recs.induct) auto

lemma map_fst_chain_recs [simp]: "map fst (chain_recs X c rs) = map fst rs"
  by (induction X c rs rule: chain_recs.induct) auto

definition seg_skim :: "ext \<Rightarrow> chain_hash \<Rightarrow> row list \<Rightarrow> skim" where
  "seg_skim X seed recs =
     \<lparr>sk_valid_len = length (seg_image X seed recs),
      sk_min_timestamp = foldl min u64_MAX (map fst recs),
      sk_max_timestamp = foldl max 0 (map fst recs),
      sk_records = length recs, sk_last_chain = chain_of X seed (map snd recs)\<rparr>"

lemma read_header_image:
  assumes "length seed = 32"
  shows "read_header p (take 37 (seg_header seed @ rest)) = Inr (1, seed)"
  using assms by (simp add: seg_header_def read_header_def Let_def FORMAT_VERSION_def MAGIC_def)

lemma skim_bytes_image:
  assumes "ext_ok X" and "length seed = 32" and "\<forall>r \<in> set recs. row_ok r" and "short_tail tail"
  shows "skim_bytes X p (seg_image X seed recs @ tail) = Inr (Some (seg_skim X seed recs))"
proof -
  let ?ts = "chain_recs X seed recs"
  let ?sk = "\<lparr>sk_valid_len = 37, sk_min_timestamp = u64_MAX, sk_max_timestamp = 0,
      sk_records = 0, sk_last_chain = seed\<rparr>"
  have ok: "\<forall>t \<in> set ?ts. stored_ok t" using assms stored_ok_chain_recs by blast
  have "skim_loop X (frames X ?ts @ tail) ?sk = foldl skim_add ?sk ?ts"
    using skim_loop_frames [OF ok] skim_loop_short [OF assms(4)] by simp
  also have "\<dots> = seg_skim X seed recs"
    using assms(2) skim_add_fields [of ?sk ?ts] skim_add_valid_len [OF ok, of ?sk X]
    by (intro skim.equality) (simp_all add: seg_skim_def seg_image_def last_chain_recs del: foldl_map)
  finally show ?thesis
    using assms(2) read_header_image [OF assms(2), of p "frames X ?ts @ tail"]
    by (simp add: skim_bytes_def seg_image_def)
qed

end
