(* ===== verification/Segment_Read.thy ===== *)
theory Segment_Read
  imports Segment_Format
begin

text \<open>
  The readers of a segment (\<open>SegmentReader\<close>, \<open>verify_chain\<close>, \<open>chain_contains\<close>) on a file made of
  frames: what they return, where verification stops, and why a file that verifies with the
  same seed and head as the original has the same payloads, up to an explicit SHA-256 collision.
\<close>

section \<open>A reader positioned at a run of frames\<close>

definition rd_ready :: "ext \<Rightarrow> segment_reader \<Rightarrow> stored list \<Rightarrow> bool" where
  "rd_ready X r ts \<longleftrightarrow> (\<forall>t \<in> set ts. stored_ok t) \<and>
     (\<exists>tail k. rd_rest r = frames X ts @ tail \<and> k \<le> length tail \<and> short_tail (take k tail) \<and>
        rd_end r = rd_offset r + length (frames X ts) + k)"

definition rd_advance :: "ext \<Rightarrow> segment_reader \<Rightarrow> stored \<Rightarrow> segment_reader" where
  "rd_advance X r t = r\<lparr>rd_offset := rd_offset r + length (frame X t),
                       rd_rest := drop (length (frame X t)) (rd_rest r)\<rparr>"

lemma rd_advance_fields [simp]:
  "rd_seed (rd_advance X r t) = rd_seed r" "rd_path (rd_advance X r t) = rd_path r"
  "rd_end (rd_advance X r t) = rd_end r"
  "rd_offset (rd_advance X r t) = rd_offset r + length (frame X t)"
  by (simp_all add: rd_advance_def)

lemma rd_ready_advance: "rd_ready X r (t # ts) \<Longrightarrow> rd_ready X (rd_advance X r t) ts"
  by (auto simp: rd_ready_def rd_advance_def)

lemma next_record_raw_Cons:
  assumes "rd_ready X r (t # ts)"
  shows "next_record_raw X r = Inr (Some t, rd_advance X r t)"
proof -
  obtain a c p where t: "t = (a, c, p)" by (cases t)
  from assms obtain rest where ok: "stored_ok t" and rest: "rd_rest r = frame X t @ rest"
    and en: "rd_end r - rd_offset r \<ge> length (frame X t)"
    by (auto simp: rd_ready_def)
  have p: "length p \<le> MAX_RECORD" using ok t by (simp add: stored_ok_def)
  have lf: "length (frame X t) = 48 + length p" using ok t length_frame by simp
  have fld: "frame_fields (take 48 (rd_rest r)) = (word_of_nat (length p), x_crc32 X p, a, c)"
    and dr: "drop 48 (rd_rest r) = p @ rest"
    using frame_fields_frame ok unfolding rest t by simp_all
  have "drop (48 + length p) (rd_rest r) = rest" using lf unfolding rest by simp
  with en lf show ?thesis
    unfolding next_record_raw_def header_sizes fld dr t
    using unat_length32 [OF p] p by (simp add: rd_advance_def)
qed

lemma next_record_raw_Nil:
  assumes "rd_ready X r []"
  shows "next_record_raw X r = Inr (None, r)"
proof -
  from assms obtain tail k where
    r: "rd_rest r = tail" "k \<le> length tail" "short_tail (take k tail)" "rd_end r = rd_offset r + k"
    by (auto simp: rd_ready_def)
  show ?thesis
  proof (cases "k < 48")
    case True
    then show ?thesis using r by (simp add: next_record_raw_def)
  next
    case False
    then have "take 48 (take k tail) = take 48 tail" by simp
    with r False show ?thesis
      by (auto simp: next_record_raw_def short_tail_def Let_def split: prod.splits)
  qed
qed

lemma next_record_Cons:
  "rd_ready X r (t # ts) \<Longrightarrow> next_record X r = Inr (Some (row_of t), rd_advance X r t)"
  by (cases t) (simp add: next_record_def next_record_raw_Cons row_of_def)

lemma next_record_Nil: "rd_ready X r [] \<Longrightarrow> next_record X r = Inr (None, r)"
  by (simp add: next_record_def next_record_raw_Nil)

lemmas next_record_ready = next_record_raw_Cons next_record_raw_Nil next_record_Cons next_record_Nil

lemma read_records_ready: "rd_ready X r ts \<Longrightarrow> read_records X r = Inr (map row_of ts)"
proof (induction ts arbitrary: r)
  case Nil
  then show ?case by (subst read_records.simps) (simp add: next_record_ready)
next
  case (Cons t ts)
  obtain a c p where "t = (a, c, p)" by (cases t)
  with Cons show ?case
    by (subst read_records.simps) (simp add: next_record_ready rd_ready_advance row_of_def)
qed

lemma contains_loop_ready:
  "rd_ready X r ts \<Longrightarrow> contains_loop X r target = Inr (target \<in> (\<lambda>t. fst (snd t)) ` set ts)"
proof (induction ts arbitrary: r)
  case Nil
  then show ?case by (subst contains_loop.simps) (simp add: next_record_ready)
next
  case (Cons t ts)
  obtain a c p where "t = (a, c, p)" by (cases t)
  with Cons show ?case
    by (subst contains_loop.simps) (auto simp: next_record_ready rd_ready_advance)
qed

section \<open>Verification\<close>

text \<open>The offset of the first record whose stored chain value is not its recomputation.\<close>

fun bad_offset :: "ext \<Rightarrow> chain_hash \<Rightarrow> nat \<Rightarrow> stored list \<Rightarrow> nat option" where
  "bad_offset X c off [] = None"
| "bad_offset X c off ((ts, h, p) # rest) =
     (if h \<noteq> chain_next X c p then Some off
      else bad_offset X (chain_next X c p) (off + (48 + length p)) rest)"

lemma bad_offset_None:
  "bad_offset X c off ts = None \<longleftrightarrow> ts = chain_recs X c (map row_of ts)"
  by (induction X c off ts rule: bad_offset.induct) (auto simp: row_of_def)

lemma bad_offset_chain_recs [simp]: "bad_offset X c off (chain_recs X c rs) = None"
  by (simp add: bad_offset_None)

lemma verify_loop_ready:
  "rd_ready X r ts \<Longrightarrow> verify_loop X r c =
     (case bad_offset X c (rd_offset r) ts of
        None \<Rightarrow> Inr (rd_seed r, chain_of X c (map (snd \<circ> snd) ts))
      | Some off \<Rightarrow> Inl (Corrupt (rd_path r) off ChainMismatch))"
proof (induction ts arbitrary: r c)
  case Nil
  then show ?case by (subst verify_loop.simps) (simp add: next_record_ready)
next
  case (Cons t ts)
  obtain a h p where t: "t = (a, h, p)" by (cases t)
  have "stored_ok (a, h, p)" using Cons.prems t by (simp add: rd_ready_def)
  then have "length (frame X t) = 48 + length p" using t length_frame by simp
  moreover have "rd_ready X (rd_advance X r t) ts" using Cons.prems by (rule rd_ready_advance)
  ultimately show ?case using Cons.prems Cons.IH [of "rd_advance X r t" "chain_next X c p"] t
    by (subst verify_loop.simps) (auto simp: next_record_raw_Cons Let_def split: option.splits)
qed

section \<open>Opening a file\<close>

lemma open_bounded_bytes_ready:
  assumes "length seed = 32" and "\<forall>t \<in> set ts. stored_ok t" and "k \<le> length tail"
    and "short_tail (take k tail)"
    and "min (length (seg_header seed @ frames X ts @ tail)) bound = 37 + length (frames X ts) + k"
  shows "\<exists>r. open_bounded_bytes p bound (seg_header seed @ frames X ts @ tail) = Inr r \<and>
             rd_ready X r ts \<and> rd_seed r = seed \<and> rd_path r = p \<and> rd_offset r = 37"
proof -
  have "open_bounded_bytes p bound (seg_header seed @ frames X ts @ tail) =
      Inr \<lparr>rd_path = p, rd_rest = frames X ts @ tail, rd_offset = 37,
           rd_end = 37 + length (frames X ts) + k, rd_seed = seed\<rparr>"
    using assms(1) assms(5) read_header_image [OF assms(1), of p "frames X ts @ tail"]
    by (simp only: open_bounded_bytes_def Let_def) (simp add: min_def)
  then show ?thesis using assms(2-4) by (force simp: rd_ready_def)
qed

text \<open>
  A reader bounded by the length the writer had reached sees exactly the rows written by then,
  whatever follows them in the file.
\<close>

lemma open_bounded_image:
  assumes "ext_ok X" and "length seed = 32" and "\<forall>r \<in> set recs. row_ok r"
    and "fget w p = Some (seg_image X seed recs @ tail)"
    and "bound = length (seg_image X seed recs) \<or> bound \<ge> length (seg_image X seed recs @ tail) \<and> short_tail tail"
  shows "\<exists>r. open_bounded p bound w = Inr r \<and> rd_ready X r (chain_recs X seed recs) \<and>
             rd_seed r = seed \<and> rd_path r = p \<and> rd_offset r = 37"
proof -
  let ?ts = "chain_recs X seed recs"
  define k where "k = (if bound = length (seg_image X seed recs) then 0 else length tail)"
  have 1: "\<forall>t \<in> set ?ts. stored_ok t" using assms stored_ok_chain_recs by blast
  have 2: "k \<le> length tail" by (simp add: k_def)
  have 3: "short_tail (take k tail)" using assms(5) by (auto simp: k_def)
  have 4: "min (length (seg_header seed @ frames X ?ts @ tail)) bound = 37 + length (frames X ?ts) + k"
    using assms(2,5) by (auto simp: k_def seg_image_def min_def)
  from open_bounded_bytes_ready [OF assms(2) 1 2 3 4, of p] show ?thesis
    using assms(4) by (simp add: open_bounded_def fs_read_def seg_image_def)
qed

lemma reader_open_stored:
  assumes "length seed = 32" and "\<forall>t \<in> set ts. stored_ok t" and "short_tail tail"
    and "fget w p = Some (seg_header seed @ frames X ts @ tail)"
    and "length (seg_header seed @ frames X ts @ tail) \<le> u64_max_nat"
  shows "\<exists>r. reader_open p w = Inr r \<and> rd_ready X r ts \<and>
             rd_seed r = seed \<and> rd_path r = p \<and> rd_offset r = 37"
  using open_bounded_bytes_ready [OF assms(1,2), of "length tail" tail X u64_max_nat p] assms
  by (simp add: reader_open_def open_bounded_def fs_read_def)

theorem verify_chain_stored:
  assumes "length seed = 32" and "\<forall>t \<in> set ts. stored_ok t" and "short_tail tail"
    and "fget w p = Some (seg_header seed @ frames X ts @ tail)"
    and "length (seg_header seed @ frames X ts @ tail) \<le> u64_max_nat"
  shows "verify_chain X p w =
     (case bad_offset X seed 37 ts of
        None \<Rightarrow> Inr (seed, chain_of X seed (map (snd \<circ> snd) ts))
      | Some off \<Rightarrow> Inl (Corrupt p off ChainMismatch))"
  using reader_open_stored [OF assms] by (auto simp: verify_chain_def verify_loop_ready)

lemma map_payload_chain_recs [simp]: "map (snd \<circ> snd) (chain_recs X c rs) = map snd rs"
  by (induction X c rs rule: chain_recs.induct) auto

lemma verify_chain_image:
  assumes "ext_ok X" and "length seed = 32" and "\<forall>r \<in> set recs. row_ok r" and "short_tail tail"
    and "fget w p = Some (seg_image X seed recs @ tail)"
    and "length (seg_image X seed recs @ tail) \<le> u64_max_nat"
  shows "verify_chain X p w = Inr (seed, chain_of X seed (map snd recs))"
  using verify_chain_stored [of seed "chain_recs X seed recs" tail w p X] assms stored_ok_chain_recs
  by (simp add: seg_image_def)

lemma chain_contains_image:
  assumes "ext_ok X" and "length seed = 32" and "\<forall>r \<in> set recs. row_ok r" and "short_tail tail"
    and "fget w p = Some (seg_image X seed recs @ tail)"
    and "length (seg_image X seed recs @ tail) \<le> u64_max_nat"
  shows "chain_contains X p h w =
     Inr (\<exists>n \<le> length recs. h = chain_of X seed (map snd (take n recs)))"
proof -
  have chains: "(\<lambda>t. fst (snd t)) ` set (chain_recs X c rs) =
      {h. \<exists>n. 0 < n \<and> n \<le> length rs \<and> h = chain_of X c (map snd (take n rs))}" for c rs
  proof (induction X c rs rule: chain_recs.induct)
    case (2 X c ts p rs)
    have "(\<exists>n. 0 < n \<and> n \<le> Suc (length rs) \<and> h = chain_of X c (map snd (take n ((ts, p) # rs)))) \<longleftrightarrow>
        (\<exists>m \<le> length rs. h = chain_of X (chain_next X c p) (map snd (take m rs)))" for h
      by (metis (no_types, lifting) Suc_le_mono Suc_pred' chain_of_simps(2) list.simps(9) snd_conv
          take_Suc_Cons zero_less_Suc)
    moreover have "(\<exists>m \<le> length rs. h = chain_of X (chain_next X c p) (map snd (take m rs))) \<longleftrightarrow>
        h = chain_next X c p \<or>
        (\<exists>n. 0 < n \<and> n \<le> length rs \<and> h = chain_of X (chain_next X c p) (map snd (take n rs)))" for h
      by (metis chain_of_simps(1) gr0I le0 list.simps(8) take0)
    ultimately show ?case using 2 by auto
  qed simp
  have "\<forall>t \<in> set (chain_recs X seed recs). stored_ok t" using assms stored_ok_chain_recs by blast
  then obtain r where r: "reader_open p w = Inr r" "rd_ready X r (chain_recs X seed recs)" "rd_seed r = seed"
    using reader_open_stored [of seed "chain_recs X seed recs" tail w p X] assms by (auto simp: seg_image_def)
  have "(\<exists>n \<le> length recs. h = chain_of X seed (map snd (take n recs))) \<longleftrightarrow>
      h = seed \<or> (\<exists>n. 0 < n \<and> n \<le> length recs \<and> h = chain_of X seed (map snd (take n recs)))"
    by (metis chain_of_simps(1) gr0I le0 list.simps(8) take0)
  then show ?thesis
    unfolding chain_contains_def r(1) using r(2,3) chains [of seed recs]
    by (simp add: contains_loop_ready)
qed

section \<open>Tamper evidence\<close>

text \<open>The inputs hashed while a chain is computed, and a pair of them with the same digest.\<close>

fun hash_inputs :: "ext \<Rightarrow> chain_hash \<Rightarrow> bytes list \<Rightarrow> bytes list" where
  "hash_inputs X c [] = []"
| "hash_inputs X c (p # ps) = (c @ p) # hash_inputs X (chain_next X c p) ps"

definition collision_between :: "ext \<Rightarrow> bytes list \<Rightarrow> bytes list \<Rightarrow> bool" where
  "collision_between X as bs \<longleftrightarrow> (\<exists>a \<in> set as. \<exists>b \<in> set bs. a \<noteq> b \<and> x_sha256 X a = x_sha256 X b)"

lemma hash_inputs_append:
  "hash_inputs X c (ps @ qs) = hash_inputs X c ps @ hash_inputs X (chain_of X c ps) qs"
  by (induction X c ps rule: hash_inputs.induct) auto

lemma length_chain_of: "ext_ok X \<Longrightarrow> length c = 32 \<Longrightarrow> length (chain_of X c ps) = 32"
  by (induction ps arbitrary: c) auto

text \<open>
  Two payload lists with the same head, from the same seed, are equal, or a collision is among
  the inputs hashed, or the seed itself is a digest of one of them.
\<close>

lemma chain_of_collision:
  assumes "ext_ok X" and "length c = 32" and "chain_of X c ps = chain_of X c qs"
    and "\<not> collision_between X (hash_inputs X c ps) (hash_inputs X c qs)"
    and "\<forall>a \<in> set (hash_inputs X c ps @ hash_inputs X c qs). x_sha256 X a \<noteq> c"
  shows "ps = qs"
  using assms(3-5)
proof (induction ps arbitrary: qs rule: rev_induct)
  case Nil
  show ?case
  proof (cases qs rule: rev_cases)
    case (snoc ys y)
    with Nil show ?thesis by (auto simp: hash_inputs_append chain_next_def)
  qed simp
next
  case (snoc p ps)
  show ?case
  proof (cases qs rule: rev_cases)
    case Nil
    with snoc.prems show ?thesis by (auto simp: hash_inputs_append chain_next_def)
  next
    case (snoc ys y)
    let ?a = "chain_of X c ps @ p" and ?b = "chain_of X c ys @ y"
    have "x_sha256 X ?a = x_sha256 X ?b"
      using snoc.prems(1) snoc by (simp add: chain_next_def)
    then have "?a = ?b"
      using snoc.prems(2) snoc by (auto simp: collision_between_def hash_inputs_append)
    then have "chain_of X c ps = chain_of X c ys" and "p = y"
      using length_chain_of [OF assms(1,2)] by auto
    moreover have "ps = ys"
      using snoc.prems(2,3) snoc \<open>chain_of X c ps = chain_of X c ys\<close>
      by (intro snoc.IH) (auto simp: hash_inputs_append collision_between_def)
    ultimately show ?thesis using snoc by simp
  qed
qed

end
