(* ===== verification/Segment_Write.thy ===== *)
theory Segment_Write
  imports Segment_Read
begin

text \<open>
  The writer of a segment (\<open>Segment::open\<close>, \<open>append\<close>, \<open>flush\<close>, \<open>sync\<close>) against the format:
  the file content followed by the buffer is the image of the rows appended so far, under every
  schedule of I/O faults, and reopening after a crash recovers whole rows only.
\<close>

section \<open>Buffered writes under faults\<close>

lemma seqE_assoc: "seqE (seqE m k) l = seqE m (\<lambda>a. seqE (k a) l)"
  by (rule ext) (auto simp: seqE_def split: prod.splits sum.splits)

lemma seqE_ret [simp]: "seqE (retE a) k = k a"
  by (rule ext) (simp add: seqE_def)

text \<open>The bytes a segment stands for: what is on disk, then what is buffered.\<close>

definition holds :: "segment \<Rightarrow> fs \<Rightarrow> bytes \<Rightarrow> bool" where
  "holds s w img \<longleftrightarrow> (\<exists>c. fget w (seg_path s) = Some c \<and> c @ seg_buf s = img)"

text \<open>What no write to a segment touches.\<close>

definition same_but :: "path \<Rightarrow> fs \<Rightarrow> fs \<Rightarrow> bool" where
  "same_but p w w' \<longleftrightarrow> (\<forall>q. q \<noteq> p \<longrightarrow> fget w' q = fget w q) \<and> fs_dirs w' = fs_dirs w \<and>
     (quiet w \<longrightarrow> quiet w') \<and> (fs_wf w \<longrightarrow> fs_wf w')"

definition buf_step :: "segment \<Rightarrow> fs \<Rightarrow> segment \<Rightarrow> fs \<Rightarrow> bool" where
  "buf_step s w s' w' \<longleftrightarrow> s' = s\<lparr>seg_buf := seg_buf s'\<rparr> \<and> same_but (seg_path s) w w'"

lemma same_but_refl [simp]: "same_but p w w"
  by (simp add: same_but_def)

lemma same_but_trans: "same_but p w w' \<Longrightarrow> same_but p w' w'' \<Longrightarrow> same_but p w w''"
  by (simp add: same_but_def)

lemma same_but_fput [simp]: "same_but p w (fput p c w)"
  by (simp add: same_but_def)

lemma same_but_fputI: "same_but p w w' \<Longrightarrow> same_but p w (fput p c w')"
  by (rule same_but_trans [OF _ same_but_fput])

lemma buf_step_refl [simp]: "buf_step s w s w"
  by (simp add: buf_step_def)

lemma buf_step_path: "buf_step s w s' w' \<Longrightarrow> seg_path s' = seg_path s"
  by (auto simp: buf_step_def) (metis select_convs(1) surjective update_convs(2))

lemma buf_step_trans: "buf_step s w s' w' \<Longrightarrow> buf_step s' w' s'' w'' \<Longrightarrow> buf_step s w s'' w''"
  unfolding buf_step_def
  by (cases s; cases s'; cases s'') (auto intro: same_but_trans)

lemma buf_step_fields:
  assumes "buf_step s w s' w'"
  shows "seg_len s' = seg_len s" "seg_min_timestamp s' = seg_min_timestamp s"
    "seg_max_timestamp s' = seg_max_timestamp s" "seg_records s' = seg_records s"
    "seg_last_chain s' = seg_last_chain s" "seg_path s' = seg_path s"
  using assms unfolding buf_step_def by (cases s; cases s'; simp)+

lemma next_fault_same: "next_fault w = (fl, w') \<Longrightarrow> same_but p w w' \<and> (\<forall>q. fget w' q = fget w q)"
  by (auto simp: next_fault_def same_but_def quiet_def split: list.splits fault.splits)

lemma next_fault_None_quiet: "quiet w \<Longrightarrow> fst (next_fault w) = None"
  by simp

lemma fs_append_raw_cases:
  assumes "fget w p = Some old"
  obtains (ok) w' where "fs_append_raw p bs w = ((None, length bs), w')"
      "fget w' p = Some (old @ bs)" "same_but p w w'"
  | (fault) e k w' where "fs_append_raw p bs w = ((Some e, k), w')" "k \<le> length bs" "\<not> quiet w"
      "fget w' p = Some (old @ take k bs)" "same_but p w w'"
proof (cases "next_fault w")
  case (Pair fl w1)
  note n = next_fault_same [OF Pair, of p]
  show ?thesis
  proof (cases fl)
    case None
    with Pair n assms have "fs_append_raw p bs w = ((None, length bs), fput p (old @ bs) w1)"
      by (simp add: fs_append_raw_def)
    moreover have "same_but p w (fput p (old @ bs) w1)"
      using n same_but_trans same_but_fput by blast
    ultimately show ?thesis using ok by simp
  next
    case (Some en)
    obtain e m where en: "en = (e, m)" by (cases en)
    let ?k = "min m (length bs)"
    have "fs_append_raw p bs w = ((Some e, ?k), fput p (old @ take ?k bs) w1)"
      using Pair n assms Some en by (simp add: fs_append_raw_def Let_def)
    moreover have "same_but p w (fput p (old @ take ?k bs) w1)"
      using n same_but_trans same_but_fput by blast
    moreover have "\<not> quiet w" using Pair Some by auto
    ultimately show ?thesis using fault [of e ?k] by simp
  qed
qed

text \<open>
  \<open>wrote m img data\<close>: run on a segment that stands for \<open>img\<close>, the operation \<open>m\<close> adds \<open>data\<close>,
  or fails with an I/O error after adding a prefix of it; on a quiet disk it does not fail.
\<close>

definition wrote :: "(segment \<times> fs, error, 'a) sop \<Rightarrow> bytes \<Rightarrow> bytes \<Rightarrow> bool" where
  "wrote m img data \<longleftrightarrow> (\<forall>s w r s' w'. holds s w img \<longrightarrow> m (s, w) = (r, (s', w')) \<longrightarrow>
     buf_step s w s' w' \<and>
     (case r of
        Inr _ \<Rightarrow> holds s' w' (img @ data)
      | Inl e \<Rightarrow> \<not> quiet w \<and> (\<exists>i. e = Io i) \<and> (\<exists>k \<le> length data. holds s' w' (img @ take k data))))"

lemma wroteD:
  assumes "wrote m img data" and "holds s w img" and "m (s, w) = (r, (s', w'))"
  shows "buf_step s w s' w'"
    and "case r of Inr _ \<Rightarrow> holds s' w' (img @ data)
         | Inl e \<Rightarrow> \<not> quiet w \<and> (\<exists>i. e = Io i) \<and> (\<exists>k \<le> length data. holds s' w' (img @ take k data))"
  using assms unfolding wrote_def by blast+

lemma wrote_ret: "wrote (retE a) img []"
  by (simp add: wrote_def)

lemma wrote_seq:
  assumes m: "wrote m img d1" and k: "\<And>x. wrote (k x) (img @ d1) d2"
  shows "wrote (seqE m k) img (d1 @ d2)"
  unfolding wrote_def
proof (intro allI impI)
  fix s w r s' w'
  assume h: "holds s w img" and run: "seqE m k (s, w) = (r, (s', w'))"
  obtain r1 s1 w1 where m1: "m (s, w) = (r1, (s1, w1))" by (metis surj_pair)
  note D = wroteD [OF m h m1]
  show "buf_step s w s' w' \<and>
     (case r of
        Inr _ \<Rightarrow> holds s' w' (img @ d1 @ d2)
      | Inl e \<Rightarrow> \<not> quiet w \<and> (\<exists>i. e = Io i) \<and>
          (\<exists>k \<le> length (d1 @ d2). holds s' w' (img @ take k (d1 @ d2))))"
  proof (cases r1)
    case (Inl e)
    with run m1 have eq: "r = Inl e" "s' = s1" "w' = w1" by (auto simp: seqE_def)
    from D(2) Inl obtain k where "\<not> quiet w" "\<exists>i. e = Io i" "k \<le> length d1" "holds s1 w1 (img @ take k d1)"
      by auto
    moreover from this have "take k (d1 @ d2) = take k d1" by simp
    ultimately show ?thesis using D(1) eq by (auto intro!: exI [of _ k])
  next
    case (Inr a)
    with run m1 have run2: "k a (s1, w1) = (r, (s', w'))" by (simp add: seqE_def)
    have h1: "holds s1 w1 (img @ d1)" using D(2) Inr by simp
    note E = wroteD [OF k h1 run2]
    have q: "\<not> quiet w1 \<Longrightarrow> \<not> quiet w" using D(1) by (auto simp: buf_step_def same_but_def)
    show ?thesis
    proof (cases r)
      case (Inl e)
      with E(2) obtain j where "\<not> quiet w1" "\<exists>i. e = Io i" "j \<le> length d2"
        "holds s' w' ((img @ d1) @ take j d2)" by auto
      then show ?thesis using Inl q buf_step_trans [OF D(1) E(1)]
        by (auto intro!: exI [of _ "length d1 + j"])
    next
      case (Inr b)
      then show ?thesis using E buf_step_trans [OF D(1) E(1)] by simp
    qed
  qed
qed

lemma wrote_flush_buf: "wrote bw_flush_buf img []"
  unfolding wrote_def
proof (intro allI impI)
  fix s w r s' w'
  assume h: "holds s w img" and run: "bw_flush_buf (s, w) = (r, (s', w'))"
  from h obtain c where c: "fget w (seg_path s) = Some c" "c @ seg_buf s = img" by (auto simp: holds_def)
  show "buf_step s w s' w' \<and> (case r of Inr _ \<Rightarrow> holds s' w' (img @ [])
      | Inl e \<Rightarrow> \<not> quiet w \<and> (\<exists>i. e = Io i) \<and> (\<exists>k \<le> length []. holds s' w' (img @ take k [])))"
  proof (cases "seg_buf s = []")
    case True
    with run h show ?thesis by (auto simp: bw_flush_buf_def)
  next
    case False
    then show ?thesis using run c
      by (cases rule: fs_append_raw_cases [OF c(1), of "seg_buf s"])
        (auto simp: bw_flush_buf_def buf_step_def holds_def)
  qed
qed

lemma flush_buf_empties:
  assumes "bw_flush_buf (s, w) = (Inr (), (s', w'))" and "holds s w img"
  shows "seg_buf s' = []"
proof (cases "seg_buf s = []")
  case True
  then show ?thesis using assms by (simp add: bw_flush_buf_def)
next
  case False
  from assms(2) obtain c where "fget w (seg_path s) = Some c" by (auto simp: holds_def)
  then show ?thesis using assms(1) False
    by (cases rule: fs_append_raw_cases [of w "seg_path s" c "seg_buf s"])
      (auto simp: bw_flush_buf_def)
qed

lemma wrote_put: "wrote (bw_put data) img data"
  by (auto simp: wrote_def bw_put_def holds_def buf_step_def)

lemma wrote_write_all: "wrote (bw_write_all data) img data"
proof -
  have direct: "\<And>s w r s' w'. holds s w img \<Longrightarrow> seg_buf s = [] \<Longrightarrow>
      bw_direct data (s, w) = (r, (s', w')) \<Longrightarrow>
      buf_step s w s' w' \<and> (case r of Inr _ \<Rightarrow> holds s' w' (img @ data)
      | Inl e \<Rightarrow> \<not> quiet w \<and> (\<exists>i. e = Io i) \<and> (\<exists>k \<le> length data. holds s' w' (img @ take k data)))"
  proof -
    fix s w r s' w'
    assume "holds s w img" and b: "seg_buf s = []" and run: "bw_direct data (s, w) = (r, (s', w'))"
    then have c: "fget w (seg_path s) = Some img" by (simp add: holds_def)
    show "buf_step s w s' w' \<and> (case r of Inr _ \<Rightarrow> holds s' w' (img @ data)
      | Inl e \<Rightarrow> \<not> quiet w \<and> (\<exists>i. e = Io i) \<and> (\<exists>k \<le> length data. holds s' w' (img @ take k data)))"
      using run b c
      by (cases rule: fs_append_raw_cases [OF c, of data])
        (auto simp: bw_direct_def buf_step_def holds_def)
  qed
  show ?thesis
    unfolding wrote_def
  proof (intro allI impI)
    fix s w r s' w'
    assume h: "holds s w img" and run: "bw_write_all data (s, w) = (r, (s', w'))"
    let ?m = "if length data > bw_spare s then bw_flush_buf else retE ()"
    show "buf_step s w s' w' \<and> (case r of Inr _ \<Rightarrow> holds s' w' (img @ data)
      | Inl e \<Rightarrow> \<not> quiet w \<and> (\<exists>i. e = Io i) \<and> (\<exists>k \<le> length data. holds s' w' (img @ take k data)))"
    proof (cases "length data < bw_spare s")
      case True
      then have "bw_put data (s, w) = (r, (s', w'))" using run by (simp add: bw_write_all_def)
      with h show ?thesis using wrote_put unfolding wrote_def by blast
    next
      case full: False
      obtain r1 s1 w1 where m1: "?m (s, w) = (r1, (s1, w1))" by (metis surj_pair)
      have "wrote ?m img []" by (simp add: wrote_flush_buf wrote_ret)
      note D = wroteD [OF this h m1]
      show ?thesis
      proof (cases r1)
        case (Inl e)
        with run m1 full have "r = Inl e" "s' = s1" "w' = w1"
          by (auto simp: bw_write_all_def seqE_def)
        with D Inl show ?thesis by (auto intro!: exI [of _ 0])
      next
        case (Inr u)
        have h1: "holds s1 w1 img" using D(2) Inr by simp
        have run2: "(if BUF_CAPACITY \<le> length data then bw_direct data else bw_put data) (s1, w1) = (r, (s', w'))"
          using run m1 full Inr by (simp add: bw_write_all_def seqE_def)
        have "BUF_CAPACITY \<le> length data \<Longrightarrow> seg_buf s1 = []"
          using m1 Inr flush_buf_empties h full
          by (cases "length data > bw_spare s") (auto simp: bw_spare_def BUF_CAPACITY_def simp flip: length_0_conv)
        then have "buf_step s1 w1 s' w' \<and> (case r of Inr _ \<Rightarrow> holds s' w' (img @ data)
            | Inl e \<Rightarrow> \<not> quiet w1 \<and> (\<exists>i. e = Io i) \<and> (\<exists>k \<le> length data. holds s' w' (img @ take k data)))"
          using direct [OF h1] run2 wroteD [OF wrote_put h1]
          by (cases "BUF_CAPACITY \<le> length data") (auto split: sum.splits)
        moreover have "\<not> quiet w1 \<Longrightarrow> \<not> quiet w" using D(1) by (auto simp: buf_step_def same_but_def)
        ultimately show ?thesis using buf_step_trans [OF D(1)] by (auto split: sum.splits)
      qed
    qed
  qed
qed

section \<open>The writer's invariant\<close>

text \<open>
  The segment stands for the image of \<open>recs\<close> and its bookkeeping agrees.
\<close>

definition seg_books :: "ext \<Rightarrow> chain_hash \<Rightarrow> row list \<Rightarrow> segment \<Rightarrow> bool" where
  "seg_books X seed recs s \<longleftrightarrow>
     seg_len s = length (seg_image X seed recs) \<and>
     seg_min_timestamp s = foldl min u64_MAX (map fst recs) \<and>
     seg_max_timestamp s = foldl max 0 (map fst recs) \<and>
     seg_records s = length recs \<and>
     seg_last_chain s = chain_of X seed (map snd recs)"

definition seg_inv :: "ext \<Rightarrow> chain_hash \<Rightarrow> row list \<Rightarrow> segment \<Rightarrow> fs \<Rightarrow> bool" where
  "seg_inv X seed recs s w \<longleftrightarrow> ext_ok X \<and> length seed = 32 \<and> (\<forall>r \<in> set recs. row_ok r) \<and>
     holds s w (seg_image X seed recs) \<and> seg_books X seed recs s"

lemma seg_image_snoc:
  "seg_image X seed (recs @ [(ts, p)]) =
     seg_image X seed recs @ frame X (ts, chain_next X (chain_of X seed (map snd recs)) p, p)"
  by (simp add: seg_image_def chain_recs_append)

lemma seg_books_step: "buf_step s w s' w' \<Longrightarrow> seg_books X seed recs s' = seg_books X seed recs s"
  using buf_step_fields [of s w s' w'] by (simp add: seg_books_def)

definition seg_commit :: "bytes \<Rightarrow> u64 \<Rightarrow> chain_hash \<Rightarrow> segment \<Rightarrow> segment" where
  "seg_commit p ts c s = s\<lparr>seg_len := seg_len s + (48 + length p),
     seg_min_timestamp := min (seg_min_timestamp s) ts,
     seg_max_timestamp := max (seg_max_timestamp s) ts,
     seg_records := seg_records s + 1, seg_last_chain := c\<rparr>"

lemma seg_append_alt:
  assumes "length p \<le> MAX_RECORD"
  shows "seg_append X p ts (s, w) =
    (let c = chain_next X (seg_last_chain s) p in
     seqE (seqE (bw_write_all (le32 (word_of_nat (length p)))) (\<lambda>_.
           seqE (bw_write_all (le32 (x_crc32 X p))) (\<lambda>_.
           seqE (bw_write_all (le64 ts)) (\<lambda>_.
           seqE (bw_write_all c) (\<lambda>_. bw_write_all p)))))
       (\<lambda>_ (s', w'). (Inr (seg_len s), (seg_commit p ts c s', w'))) (s, w))"
  using assms by (simp add: seg_append_def seqE_assoc Let_def seg_commit_def)

lemma wrote_frame:
  "wrote (seqE (bw_write_all (le32 (word_of_nat (length p)))) (\<lambda>_.
           seqE (bw_write_all (le32 (x_crc32 X p))) (\<lambda>_.
           seqE (bw_write_all (le64 ts)) (\<lambda>_.
           seqE (bw_write_all c) (\<lambda>_. bw_write_all p)))))
     img (frame X (ts, c, p))"
  unfolding frame_def prod.case by (intro wrote_seq wrote_write_all)

lemma seg_append_cases:
  assumes inv: "seg_inv X seed recs s w" and run: "seg_append X p ts (s, w) = (r, (s', w'))"
  obtains (ok) "r = Inr (length (seg_image X seed recs))" "length p \<le> MAX_RECORD"
      "seg_inv X seed (recs @ [(ts, p)]) s' w'" "seg_path s' = seg_path s" "same_but (seg_path s) w w'"
  | (large) "r = Inl (Encode (RecordTooLarge (length p)))" "length p > MAX_RECORD" "s' = s" "w' = w"
  | (fault) i k where "r = Inl (Io i)" "\<not> quiet w" "length p \<le> MAX_RECORD"
      "k \<le> length (frame X (ts, chain_next X (seg_last_chain s) p, p))"
      "holds s' w' (seg_image X seed recs @
         take k (frame X (ts, chain_next X (seg_last_chain s) p, p)))"
      "buf_step s w s' w'"
proof (cases "length p \<le> MAX_RECORD")
  case False
  with run show ?thesis by (intro large) (auto simp: seg_append_def)
next
  case True
  let ?c = "chain_next X (seg_last_chain s) p" and ?img = "seg_image X seed recs"
  let ?m = "seqE (bw_write_all (le32 (word_of_nat (length p)))) (\<lambda>_.
           seqE (bw_write_all (le32 (x_crc32 X p))) (\<lambda>_.
           seqE (bw_write_all (le64 ts)) (\<lambda>_.
           seqE (bw_write_all ?c) (\<lambda>_. bw_write_all p))))"
  have h: "holds s w ?img" and b: "seg_books X seed recs s" using inv by (simp_all add: seg_inv_def)
  obtain r1 s1 w1 where m1: "?m (s, w) = (r1, (s1, w1))" by (metis surj_pair)
  note D = wroteD [OF wrote_frame h m1]
  have run': "seqE ?m (\<lambda>_ (s', w'). (Inr (seg_len s), (seg_commit p ts ?c s', w'))) (s, w) = (r, (s', w'))"
    using run seg_append_alt [OF True, of X ts s w] by (simp add: Let_def)
  show ?thesis
  proof (cases r1)
    case (Inl e)
    then have "r = Inl e" "s' = s1" "w' = w1" using run' m1 by (auto simp: seqE_Inl)
    with D Inl True show ?thesis using fault by auto
  next
    case (Inr u)
    then have eq: "r = Inr (seg_len s)" "s' = seg_commit p ts ?c s1" "w' = w1"
      using run' m1 by (auto simp: seqE_Inr)
    have b1: "seg_books X seed recs s1" using b D(1) seg_books_step by blast
    have "seg_last_chain s = chain_of X seed (map snd recs)" using b by (simp add: seg_books_def)
    then have "holds s' w' (seg_image X seed (recs @ [(ts, p)]))"
      using D(2) Inr eq by (simp add: seg_image_snoc holds_def seg_commit_def)
    moreover have "seg_books X seed (recs @ [(ts, p)]) s'"
      using b1 eq(2) inv \<open>seg_last_chain s = _\<close>
      by (simp add: seg_books_def seg_commit_def seg_image_snoc frame_def seg_inv_def)
    ultimately show ?thesis using inv eq True buf_step_fields [OF D(1)] D(1)
      by (intro ok) (auto simp: seg_inv_def row_ok_def seg_books_def buf_step_def seg_commit_def)
  qed
qed

section \<open>Flush, sync and open\<close>

lemma seg_inv_buf_step:
  "seg_inv X seed recs s w \<Longrightarrow> buf_step s w s' w' \<Longrightarrow> holds s' w' (seg_image X seed recs) \<Longrightarrow>
     seg_inv X seed recs s' w'"
  by (simp add: seg_inv_def seg_books_step)

lemma seg_flush_cases:
  assumes inv: "seg_inv X seed recs s w" and run: "seg_flush (s, w) = (r, (s', w'))"
  obtains (ok) "r = Inr ()" "seg_inv X seed recs s' w'" "buf_step s w s' w'" "seg_buf s' = []"
      "fget w' (seg_path s) = Some (seg_image X seed recs)"
  | (fault) i where "r = Inl (Io i)" "\<not> quiet w" "seg_inv X seed recs s' w'" "buf_step s w s' w'"
proof -
  have h: "holds s w (seg_image X seed recs)" using inv by (simp add: seg_inv_def)
  have run': "bw_flush_buf (s, w) = (r, (s', w'))" using run by (simp add: seg_flush_def)
  note D = wroteD [OF wrote_flush_buf h run']
  have "holds s' w' (seg_image X seed recs)" using D(2) by (cases r) auto
  then have inv': "seg_inv X seed recs s' w'" using inv D(1) seg_inv_buf_step by blast
  show ?thesis
  proof (cases r)
    case (Inl e)
    then show ?thesis using D inv' fault by auto
  next
    case (Inr u)
    then have "seg_buf s' = []" using flush_buf_empties run' h by simp
    moreover from this have "fget w' (seg_path s) = Some (seg_image X seed recs)"
      using \<open>holds s' w' _\<close> buf_step_path [OF D(1)] by (simp add: holds_def)
    ultimately show ?thesis using D inv' ok Inr by simp
  qed
qed

lemma fs_op_cases:
  assumes "fs_op f w = (r, w')"
  obtains (ok) w1 where "r = Inr ()" "w' = f w1" "same_but p w w1" "\<forall>q. fget w1 q = fget w q"
  | (fault) i where "r = Inl (Io i)" "\<not> quiet w" "same_but p w w'" "\<forall>q. fget w' q = fget w q"
proof (cases "next_fault w")
  case (Pair fl w1)
  note n = next_fault_same [OF Pair, of p]
  show ?thesis
  proof (cases fl)
    case None
    with Pair assms n show ?thesis using ok [of w1] by (simp add: fs_op_def)
  next
    case (Some en)
    moreover have "\<not> quiet w" using Pair Some by auto
    ultimately show ?thesis using Pair assms n fault by (cases en) (auto simp: fs_op_def)
  qed
qed

lemma seg_sync_cases:
  assumes inv: "seg_inv X seed recs s w" and run: "seg_sync (s, w) = (r, (s', w'))"
  obtains (ok) "r = Inr ()" "seg_inv X seed recs s' w'" "buf_step s w s' w'" "seg_buf s' = []"
      "fget w' (seg_path s) = Some (seg_image X seed recs)"
  | (fault) i where "r = Inl (Io i)" "\<not> quiet w" "seg_inv X seed recs s' w'" "buf_step s w s' w'"
proof -
  obtain r1 s1 w1 where m: "seg_flush (s, w) = (r1, (s1, w1))" by (metis surj_pair)
  from inv m show ?thesis
  proof (cases rule: seg_flush_cases)
    case (fault i)
    with m run have "r = Inl (Io i)" "s' = s1" "w' = w1"
      by (auto simp: seg_sync_def seg_flush_def seqE_def)
    with fault show ?thesis using that(2) by simp
  next
    case ok
    obtain r2 w2 where f: "fs_op (\<lambda>w. w) w1 = (r2, w2)" by (metis surj_pair)
    with ok m run have eq: "r = r2" "s' = s1" "w' = w2"
      by (auto simp: seg_sync_def seg_flush_def seqE_def on_fs_def fs_sync_def)
    have step: "same_but (seg_path s) w1 w2 \<and> (\<forall>q. fget w2 q = fget w1 q)"
      using f by (cases rule: fs_op_cases [where p = "seg_path s"]) auto
    then have "seg_inv X seed recs s' w'" "buf_step s w s' w'"
      "fget w' (seg_path s) = Some (seg_image X seed recs)"
      using ok eq by (auto simp: seg_inv_def holds_def buf_step_def intro: same_but_trans)
    moreover have "\<not> quiet w1 \<Longrightarrow> \<not> quiet w" using ok by (auto simp: buf_step_def same_but_def)
    moreover have "r2 = Inr () \<or> (\<exists>i. r2 = Inl (Io i) \<and> \<not> quiet w1)"
      using f by (cases rule: fs_op_cases [where p = "seg_path s"]) auto
    ultimately show ?thesis using eq ok that by auto
  qed
qed

lemma fget_open_create:
  "fget (case fget w p of None \<Rightarrow> fput p [] w | Some _ \<Rightarrow> w) q =
     (if q = p then Some (case fget w p of None \<Rightarrow> [] | Some c \<Rightarrow> c) else fget w q)"
  by (simp split: option.split)

lemma same_but_open_create [simp]:
  "same_but p w (case fget w p of None \<Rightarrow> fput p [] w | Some _ \<Rightarrow> w)"
  by (simp split: option.split)

lemma fs_open_create_cases:
  assumes "fs_open_create p w = (r, w')"
  obtains (ok) "r = Inr ()" "same_but p w w'"
      "fget w' p = Some (case fget w p of None \<Rightarrow> [] | Some c \<Rightarrow> c)"
  | (fault) i where "r = Inl (Io i)" "\<not> quiet w" "same_but p w w'" "fget w' p = fget w p"
  using assms unfolding fs_open_create_def
proof (cases rule: fs_op_cases [where p = p])
  case (ok w1)
  then have "fget w' p = Some (case fget w p of None \<Rightarrow> [] | Some c \<Rightarrow> c)"
    by (simp split: option.split)
  moreover have "same_but p w w'" using ok same_but_trans same_but_open_create by metis
  ultimately show ?thesis using ok(1) that(1) by blast
next
  case (fault i)
  then show ?thesis using that(2) by auto
qed

lemma fs_truncate_cases:
  assumes "fs_truncate p n w = (r, w')" and "fget w p = Some c"
  obtains (ok) "r = Inr ()" "same_but p w w'" "fget w' p = Some (take n c)"
  | (fault) i where "r = Inl (Io i)" "\<not> quiet w" "same_but p w w'" "fget w' p = Some c"
  using assms(1) unfolding fs_truncate_def
proof (cases rule: fs_op_cases [where p = p])
  case (ok w1)
  then show ?thesis using that(1) assms(2) by (simp add: same_but_fputI)
next
  case (fault i)
  then show ?thesis using that(2) assms(2) by auto
qed

text \<open>
  Opening an existing segment keeps its rows and cuts the tail; a fault leaves the file alone.
\<close>

lemma seg_open_image_cases:
  assumes X: "ext_ok X" "length seed = 32" "\<forall>r \<in> set recs. row_ok r" "short_tail tail"
    and c: "fget w p = Some (seg_image X seed recs @ tail)"
    and run: "seg_open X p seed' w = (r, w')"
  obtains (ok) s where "r = Inr s" "seg_inv X seed recs s w'" "seg_buf s = []" "seg_path s = p"
      "same_but p w w'" "fget w' p = Some (seg_image X seed recs)"
  | (fault) i where "r = Inl (Io i)" "\<not> quiet w" "same_but p w w'" "fget w' p = fget w p"
proof -
  let ?img = "seg_image X seed recs" and ?k = "seg_skim X seed recs"
  let ?tr = "\<lambda>w. if length (case fget w p of None \<Rightarrow> [] | Some c \<Rightarrow> c) > sk_valid_len ?k
                then fs_truncate p (sk_valid_len ?k) w else (Inr (), w)"
  let ?s = "\<lparr>seg_path = p, seg_buf = [], seg_len = sk_valid_len ?k,
      seg_min_timestamp = sk_min_timestamp ?k, seg_max_timestamp = sk_max_timestamp ?k,
      seg_records = sk_records ?k, seg_last_chain = sk_last_chain ?k\<rparr>"
  have sk: "skim_file X p w = Inr (Some ?k)"
    using c skim_bytes_image [OF X] by (simp add: skim_file_def)
  have run': "seqE (fs_open_create p) (\<lambda>_. seqE ?tr (\<lambda>_. retE ?s)) w = (r, w')"
    using run by (simp add: seg_open_def sk)
  have inv: "seg_inv X seed recs ?s w2" if "fget w2 p = Some ?img" for w2
    using X that by (simp add: seg_inv_def holds_def seg_books_def seg_skim_def)
  obtain r1 w1 where m1: "fs_open_create p w = (r1, w1)" by (metis surj_pair)
  then show ?thesis
  proof (cases rule: fs_open_create_cases)
    case (fault i)
    then have "r = Inl (Io i)" "w' = w1" using run' m1 by (auto simp: seqE_Inl)
    then show ?thesis using fault by (intro that(2)) simp_all
  next
    case ok
    then have c1: "fget w1 p = Some (?img @ tail)" using c by simp
    have q: "\<not> quiet w1 \<Longrightarrow> \<not> quiet w" using ok by (auto simp: same_but_def)
    show ?thesis
    proof (cases "tail = []")
      case True
      then have "?tr w1 = (Inr (), w1)" using c1 by (simp add: seg_skim_def)
      then have "r = Inr ?s" "w' = w1" using run' m1 ok by (simp_all add: seqE_def)
      then show ?thesis using ok c1 True inv [of w1] that(1) [of ?s] by simp
    next
      case False
      then have tr: "?tr w1 = fs_truncate p (length ?img) w1" using c1 by (simp add: seg_skim_def)
      obtain r2 w2 where m2: "fs_truncate p (length ?img) w1 = (r2, w2)" by (metis surj_pair)
      from m2 c1 show ?thesis
      proof (cases rule: fs_truncate_cases)
        case ok2: ok
        then have "r = Inr ?s" "w' = w2" using run' m1 m2 ok tr by (simp_all add: seqE_def)
        then show ?thesis using ok ok2 inv [of w2] that(1) [of ?s] by (auto intro: same_but_trans)
      next
        case (fault i)
        then have "r = Inl (Io i)" "w' = w2" using run' m1 m2 ok tr by (simp_all add: seqE_def)
        then show ?thesis using ok fault c1 c q that(2) by (auto intro: same_but_trans)
      qed
    qed
  qed
qed

text \<open>A missing file, or one shorter than a header, becomes an empty segment.\<close>

lemma seg_open_fresh_cases:
  assumes X: "ext_ok X" "length seed = 32"
    and c: "case fget w p of None \<Rightarrow> True | Some c \<Rightarrow> length c < 37"
    and run: "seg_open X p seed w = (r, w')"
  obtains (ok) s where "r = Inr s" "seg_inv X seed [] s w'" "seg_buf s = seg_header seed"
      "seg_path s = p" "same_but p w w'" "fget w' p = Some []"
  | (fault) i where "r = Inl (Io i)" "\<not> quiet w" "same_but p w w'"
      "case fget w' p of None \<Rightarrow> True | Some c \<Rightarrow> length c < 37"
proof -
  let ?s = "\<lparr>seg_path = p, seg_buf = seg_header seed, seg_len = 37,
      seg_min_timestamp = u64_MAX, seg_max_timestamp = 0, seg_records = 0, seg_last_chain = seed\<rparr>"
  have sk: "skim_file X p w = Inr None"
    using c by (auto simp: skim_file_def skim_bytes_def split: option.splits)
  have run': "seqE (fs_open_create p) (\<lambda>_. seqE (fs_truncate p 0) (\<lambda>_. retE ?s)) w = (r, w')"
    using run by (simp add: seg_open_def sk seg_header_def)
  have inv: "seg_inv X seed [] ?s w2" if "fget w2 p = Some []" for w2
    using X that by (simp add: seg_inv_def holds_def seg_books_def seg_image_def)
  obtain r1 w1 where m1: "fs_open_create p w = (r1, w1)" by (metis surj_pair)
  then show ?thesis
  proof (cases rule: fs_open_create_cases)
    case (fault i)
    then have "r = Inl (Io i)" "w' = w1" using run' m1 by (auto simp: seqE_Inl)
    then show ?thesis using fault c by (intro that(2)) simp_all
  next
    case ok
    let ?c = "case fget w p of None \<Rightarrow> [] | Some c \<Rightarrow> c"
    have q: "\<not> quiet w1 \<Longrightarrow> \<not> quiet w" using ok by (auto simp: same_but_def)
    obtain r2 w2 where m2: "fs_truncate p 0 w1 = (r2, w2)" by (metis surj_pair)
    from m2 ok(3) show ?thesis
    proof (cases rule: fs_truncate_cases)
      case ok2: ok
      then have "r = Inr ?s" "w' = w2" using run' m1 m2 ok by (simp_all add: seqE_def)
      then show ?thesis using ok ok2 inv [of w2] that(1) [of ?s] by (auto intro: same_but_trans)
    next
      case (fault i)
      then have "r = Inl (Io i)" "w' = w2" using run' m1 m2 ok by (simp_all add: seqE_def)
      moreover have "case fget w2 p of None \<Rightarrow> True | Some c \<Rightarrow> length c < 37"
        using fault c by (auto split: option.splits)
      ultimately show ?thesis using ok fault q that(2) by (auto intro: same_but_trans)
    qed
  qed
qed

text \<open>
  Whatever prefix of the byte stream reached the disk, reopening keeps the rows whose frames
  were complete.
\<close>

lemma seg_open_crash_image:
  assumes X: "ext_ok X" "length seed = 32" "\<forall>r \<in> set recs. row_ok r" and q: "quiet w"
    and c: "fget w p = Some (take n (seg_image X seed recs))" and False: "\<not> n < 37"
  shows "\<exists>s w' k. seg_open X p seed' w = (Inr s, w') \<and> k \<le> length recs \<and>
     seg_inv X seed (take k recs) s w' \<and> same_but p w w' \<and> seg_path s = p \<and>
     (\<forall>j \<le> length recs. length (seg_image X seed (take j recs)) \<le> n \<longrightarrow> j \<le> k)"
proof -
  let ?ts = "chain_recs X seed recs"
  have ok: "\<forall>t \<in> set ?ts. stored_ok t" using X stored_ok_chain_recs by blast
  obtain k tail where k: "k \<le> length recs" "take (n - 37) (frames X ?ts) = frames X (take k ?ts) @ tail"
    and t: "short_tail tail" using take_frames [OF ok, of "n - 37" X] by auto
  have c': "fget w p = Some (seg_image X seed (take k recs) @ tail)"
    using c k False X by (simp add: seg_image_def take_chain_recs)
  have okk: "\<forall>r \<in> set (take k recs). row_ok r" using X by (meson in_set_takeD)
  obtain r w' where run: "seg_open X p seed' w = (r, w')" by (metis surj_pair)
  from X(1,2) okk t c' run obtain s where s: "r = Inr s" "seg_inv X seed (take k recs) s w'" "same_but p w w'" "seg_path s = p"
    using q by (cases rule: seg_open_image_cases) auto
  have "j \<le> k" if j: "j \<le> length recs" "length (seg_image X seed (take j recs)) \<le> n" for j
  proof (rule ccontr)
    assume "\<not> j \<le> k"
    then have kj: "k < j" by simp
    let ?us = "drop k (take j ?ts)"
    have "take k (take j ?ts) = take k ?ts" using kj by (simp add: min_def)
    then have split: "frames X (take j ?ts) = frames X (take k ?ts) @ frames X ?us"
      by (metis append_take_drop_id frames_simps(3))
    let ?A = "seg_image X seed (take j recs)" and ?I = "seg_image X seed recs"
    have "?I = ?A @ frames X (drop j ?ts)"
      by (simp add: seg_image_def take_chain_recs [symmetric] flip: frames_simps(3))
    then have A: "prefix ?A ?I" by simp
    have "prefix ?A (take n ?I)"
      using prefix_length_prefix [OF A take_is_prefix [of n]] prefix_length_le [OF A] j(2) by simp
    then have "prefix (seg_header seed @ frames X (take j ?ts)) (take n ?I)"
      by (simp add: seg_image_def take_chain_recs)
    moreover have "take n (seg_image X seed recs) = seg_header seed @ frames X (take k ?ts) @ tail"
      using k(2) False X by (simp add: seg_image_def)
    ultimately have pre: "prefix (frames X ?us) tail" by (simp add: split)
    obtain u us where us: "?us = u # us" using kj j by (cases ?us) auto
    have "stored_ok u" using ok us by (metis in_set_dropD in_set_takeD list.set_intros(1))
    then have "\<not> short_tail (frame X u @ rest)" for rest
      using frame_fields_frame(1) length_frame
      by (cases u) (auto simp: short_tail_def stored_ok_def unat_length32)
    moreover obtain rest where "tail = frame X u @ rest" using pre us by (auto simp: prefix_def)
    ultimately show False using t by simp
  qed
  with run s k(1) show ?thesis by blast
qed

lemma seg_open_crash:
  assumes X: "ext_ok X" "length seed = 32" "\<forall>r \<in> set recs. row_ok r" and q: "quiet w"
    and c: "fget w p = Some (take n (seg_image X seed recs))"
  shows "\<exists>s w' k. seg_open X p seed w = (Inr s, w') \<and> k \<le> length recs \<and>
     seg_inv X seed (take k recs) s w' \<and> same_but p w w' \<and>
     (\<forall>j \<le> length recs. length (seg_image X seed (take j recs)) \<le> n \<longrightarrow> j \<le> k)"
proof (cases "n < 37")
  case True
  have short: "case fget w p of None \<Rightarrow> True | Some c \<Rightarrow> length c < 37" using c True by simp
  obtain r w' where run: "seg_open X p seed w = (r, w')" by (metis surj_pair)
  from X(1,2) short run obtain s where "r = Inr s" "seg_inv X seed [] s w'" "same_but p w w'"
    using q by (cases rule: seg_open_fresh_cases) auto
  moreover have "\<not> length (seg_image X seed (take j recs)) \<le> n" for j
    using X True by (simp add: seg_image_def)
  ultimately show ?thesis using run by (intro exI [of _ s] exI [of _ w'] exI [of _ 0]) simp
next
  case False
  then show ?thesis using seg_open_crash_image [OF X q c, of seed] by blast
qed

end
