(* ===== verification/Segment_Props.thy ===== *)
theory Segment_Props
  imports Segment_Write
begin

text \<open>
  The properties of the segment component: append under faults, crash recovery, bounded
  (snapshot) reads, verification and tamper evidence. \<open>demo_ext\<close> instantiates the external
  functions for the witnesses.
\<close>

definition demo_ext :: ext where
  "demo_ext = \<lparr>x_sha256 = (\<lambda>b. take 32 (rev b @ replicate 32 0)),
               x_crc32 = (\<lambda>b. word_of_nat (length b))\<rparr>"

lemma ext_ok_demo [simp]: "ext_ok demo_ext"
  by (auto simp: ext_ok_def demo_ext_def min_def)

definition demo_seg :: segment where
  "demo_seg = \<lparr>seg_path = [''t'', ''s''], seg_buf = seg_header ZERO_CHAIN, seg_len = 37,
     seg_min_timestamp = u64_MAX, seg_max_timestamp = 0, seg_records = 0, seg_last_chain = ZERO_CHAIN\<rparr>"

definition demo_fs :: fs where
  "demo_fs = \<lparr>fs_files = [([''t'', ''s''], [])], fs_dirs = [[''t'']], fs_faults = []\<rparr>"

lemma demo_seg_inv: "seg_inv demo_ext ZERO_CHAIN [] demo_seg demo_fs"
  by (simp add: seg_inv_def demo_seg_def demo_fs_def holds_def fget_def seg_image_def seg_books_def)

section \<open>Appending\<close>

text \<open>
  C9: appending to a segment, under any schedule of I/O faults. A successful append returns the
  offset at which the record starts and extends the image by exactly one frame chained to its
  predecessor; a payload over \<open>MAX_RECORD\<close> is refused without any effect; any other failure is
  an I/O error, happens only on a disk with faults, leaves the bookkeeping as it was and leaves
  a prefix of the frame behind. No other file changes.
\<close>

theorem segment_append_correct:
  assumes "seg_inv X seed recs s w" and "seg_append X p ts (s, w) = (r, (s', w'))"
  shows "(case r of
      Inr off \<Rightarrow> off = length (seg_image X seed recs) \<and> length p \<le> MAX_RECORD \<and>
        seg_inv X seed (recs @ [(ts, p)]) s' w'
    | Inl (Encode e) \<Rightarrow> length p > MAX_RECORD \<and> s' = s \<and> w' = w
    | Inl (Io i) \<Rightarrow> \<not> quiet w \<and> seg_books X seed recs s' \<and>
        (\<exists>k. holds s' w' (seg_image X seed recs @
           take k (frame X (ts, chain_next X (chain_of X seed (map snd recs)) p, p))))
    | Inl _ \<Rightarrow> False) \<and> same_but (seg_path s) w w'"
  using assms
proof (cases rule: seg_append_cases)
  case (fault i k)
  have "seg_last_chain s = chain_of X seed (map snd recs)"
    using assms(1) by (simp add: seg_inv_def seg_books_def)
  with fault assms(1) show ?thesis
    by (auto simp: seg_inv_def seg_books_step buf_step_def)
qed simp_all

lemma segment_append_correct_witness:
  "\<exists>r s' w'. seg_append demo_ext [1, 2] 7 (demo_seg, demo_fs) = (r, (s', w')) \<and>
     r = Inr 37 \<and> same_but [''t'', ''s''] demo_fs w'"
proof -
  obtain r s' w' where run: "seg_append demo_ext [1, 2] 7 (demo_seg, demo_fs) = (r, (s', w'))"
    by (metis surj_pair)
  have "quiet demo_fs" by (simp add: quiet_def demo_fs_def)
  with segment_append_correct [OF demo_seg_inv run] run show ?thesis
    by (auto simp: demo_seg_def seg_image_def split: sum.splits error.splits)
qed

section \<open>Crash recovery\<close>



section \<open>Reading\<close>

text \<open>
  a reader bounded by the length the writer had reached when a snapshot was taken returns
  exactly the rows appended until then, in order and unchanged, no matter what was appended (or
  half-flushed) after them.
\<close>

theorem segment_snapshot_read:
  assumes "seg_inv X seed recs s w" and "fget w' p = Some (seg_image X seed recs @ later)"
  shows "rbind (open_bounded p (seg_len s) w') (read_records X) = Inr recs"
proof -
  have "seg_len s = length (seg_image X seed recs)"
    using assms(1) by (simp add: seg_inv_def seg_books_def)
  then obtain r where "open_bounded p (seg_len s) w' = Inr r" "rd_ready X r (chain_recs X seed recs)"
    using open_bounded_image [of X seed recs w' p later "seg_len s"] assms by (auto simp: seg_inv_def)
  then show ?thesis by (simp add: read_records_ready)
qed

lemma segment_snapshot_read_witness:
  "rbind (open_bounded [''x''] (seg_len demo_seg)
     (fput [''x''] (seg_header ZERO_CHAIN @ [9, 9]) demo_fs)) (read_records demo_ext) = Inr []"
  using segment_snapshot_read [OF demo_seg_inv, of _ "[''x'']" "[9, 9]"]
  by (simp add: seg_image_def)

section \<open>Verification\<close>

text \<open>
  C10: \<open>verify_chain\<close> on a file of well-formed frames returns the seed and the chain head exactly
  when every stored chain value is the recomputed one, that is when the file is the image of its
  own rows; otherwise it reports the offset of the first record that does not match.
\<close>

theorem verify_chain_correct:
  assumes "length seed = 32" and "\<forall>t \<in> set ts. stored_ok t" and "short_tail tail"
    and "fget w p = Some (seg_header seed @ frames X ts @ tail)"
    and "length (seg_header seed @ frames X ts @ tail) \<le> u64_max_nat"
  shows "verify_chain X p w =
     (if ts = chain_recs X seed (map row_of ts) then Inr (seed, chain_of X seed (map (snd \<circ> snd) ts))
      else Inl (Corrupt p (the (bad_offset X seed 37 ts)) ChainMismatch))"
  using verify_chain_stored [OF assms] bad_offset_None [of X seed 37 ts]
  by (auto split: option.splits)

lemma verify_chain_correct_witness:
  "verify_chain demo_ext [''x''] (fput [''x'']
       (seg_header ZERO_CHAIN @ frames demo_ext [(1, replicate 32 7, [5])]) demo_fs) =
     Inl (Corrupt [''x''] 37 ChainMismatch)"
proof -
  let ?t = "(1 :: u64, replicate 32 7, [5 :: u8])"
  let ?w = "fput [''x''] (seg_header ZERO_CHAIN @ frames demo_ext [?t] @ []) demo_fs"
  have ok: "\<forall>t \<in> set [?t]. stored_ok t" by (simp add: stored_ok_def)
  have c: "fget ?w [''x''] = Some (seg_header ZERO_CHAIN @ frames demo_ext [?t] @ [])" by simp
  have len: "length (seg_header ZERO_CHAIN @ frames demo_ext [?t] @ []) \<le> u64_max_nat"
    by (simp add: frame_def u64_max_nat_def)
  have "hd (chain_next demo_ext ZERO_CHAIN [5]) = 5" by (simp add: chain_next_def demo_ext_def)
  moreover have "hd (replicate 32 7) = (7 :: u8)" by (simp add: hd_replicate)
  ultimately have "chain_next demo_ext ZERO_CHAIN [5] \<noteq> replicate 32 7" by auto
  then show ?thesis
    using verify_chain_correct [OF _ ok _ c len] by (simp add: row_of_def)
qed

text \<open>
  C6: tamper evidence. If a file verifies with the seed and the head of the original rows, then
  it holds the original payloads in the original order, or the payloads hashed on the two sides
  contain an explicit pair of different inputs with the same SHA-256 digest, or an input whose
  digest is the seed itself.
\<close>

theorem segment_tamper_evident:
  assumes "ext_ok X" and "length seed = 32" and "\<forall>t \<in> set ts. stored_ok t" and "short_tail tail"
    and "fget w p = Some (seg_header seed @ frames X ts @ tail)"
    and "length (seg_header seed @ frames X ts @ tail) \<le> u64_max_nat"
    and "verify_chain X p w = Inr (seed, chain_of X seed (map snd recs))"
  shows "map (snd \<circ> snd) ts = map snd recs \<or>
     collision_between X (hash_inputs X seed (map (snd \<circ> snd) ts)) (hash_inputs X seed (map snd recs)) \<or>
     (\<exists>a \<in> set (hash_inputs X seed (map (snd \<circ> snd) ts) @ hash_inputs X seed (map snd recs)).
        x_sha256 X a = seed)"
proof -
  have "chain_of X seed (map (snd \<circ> snd) ts) = chain_of X seed (map snd recs)"
    using verify_chain_stored [OF assms(2-6)] assms(7) by (auto split: option.splits)
  then show ?thesis
    using chain_of_collision [OF assms(1,2), of "map (snd \<circ> snd) ts" "map snd recs"] by blast
qed

lemma segment_tamper_evident_witness:
  "map (snd \<circ> snd) [(1 :: u64, chain_next demo_ext ZERO_CHAIN [5], [5])] = map snd [(2 :: u64, [5 :: u8])] \<or>
     collision_between demo_ext (hash_inputs demo_ext ZERO_CHAIN [[5]]) (hash_inputs demo_ext ZERO_CHAIN [[5]]) \<or>
     (\<exists>a \<in> set (hash_inputs demo_ext ZERO_CHAIN [[5]] @ hash_inputs demo_ext ZERO_CHAIN [[5]]).
        x_sha256 demo_ext a = ZERO_CHAIN)"
proof -
  let ?t = "(1 :: u64, chain_next demo_ext ZERO_CHAIN [5], [5 :: u8])"
  let ?w = "fput [''x''] (seg_header ZERO_CHAIN @ frames demo_ext [?t] @ []) demo_fs"
  have ok: "\<forall>t \<in> set [?t]. stored_ok t" by (simp add: stored_ok_def)
  have c: "fget ?w [''x''] = Some (seg_header ZERO_CHAIN @ frames demo_ext [?t] @ [])" by simp
  have len: "length (seg_header ZERO_CHAIN @ frames demo_ext [?t] @ []) \<le> u64_max_nat"
    by (simp add: frame_def u64_max_nat_def)
  have v: "verify_chain demo_ext [''x''] ?w = Inr (ZERO_CHAIN, chain_of demo_ext ZERO_CHAIN (map snd [(2 :: u64, [5])]))"
    using verify_chain_stored [OF _ ok _ c len] by simp
  show ?thesis
    using segment_tamper_evident [OF ext_ok_demo _ ok _ c len v] by simp
qed

section \<open>A failed append\<close>

lemma frame_length_field:
  assumes "stored_ok (ts, c, p)" and "48 \<le> k"
  shows "fst (frame_fields (take 48 (take k (frame X (ts, c, p)) @ rest))) = word_of_nat (length p)"
proof -
  have "length (frame X (ts, c, p)) \<ge> 48" using assms length_frame by simp
  then have "take 48 (take k (frame X (ts, c, p)) @ rest) = take 48 (frame X (ts, c, p) @ [])"
    using assms(2) by simp
  then show ?thesis using frame_fields_frame(1) [OF assms(1), of X "[]"] by simp
qed

text \<open>
  The writer goes on after a failed append: with \<open>img\<close> for the rows before it and \<open>torn\<close> for
  the piece of the frame that got out, the next frame lands behind \<open>torn\<close>.
\<close>

lemma append_behind_torn:
  assumes "holds s w (img @ torn)" and "seg_append X q ts (s, w) = (Inr off, (s', w'))"
  shows "holds s' w' (img @ torn @ frame X (ts, chain_next X (seg_last_chain s) q, q)) \<and>
         seg_path s' = seg_path s \<and> length q \<le> MAX_RECORD \<and> (quiet w \<longrightarrow> quiet w')"
proof -
  let ?c = "chain_next X (seg_last_chain s) q"
  let ?m = "seqE (bw_write_all (le32 (word_of_nat (length q)))) (\<lambda>_.
           seqE (bw_write_all (le32 (x_crc32 X q))) (\<lambda>_.
           seqE (bw_write_all (le64 ts)) (\<lambda>_.
           seqE (bw_write_all ?c) (\<lambda>_. bw_write_all q))))"
  have q: "length q \<le> MAX_RECORD" using assms(2) by (auto simp: seg_append_def split: if_splits)
  have run: "seqE ?m (\<lambda>_ (s', w'). (Inr (seg_len s), (seg_commit q ts ?c s', w'))) (s, w) = (Inr off, (s', w'))"
    using assms(2) seg_append_alt [OF q, of X ts s w] by (simp add: Let_def)
  obtain u sw where m0: "?m (s, w) = (Inr u, sw)"
    and "(case sw of (s', w') \<Rightarrow> (Inr (seg_len s), (seg_commit q ts ?c s', w'))) = (Inr off :: nat res, (s', w'))"
    by (rule seqE_InrE [OF run]) blast
  then obtain s1 w1 where m1: "?m (s, w) = (Inr u, (s1, w1))"
    and eq: "s' = seg_commit q ts ?c s1" "w' = w1" by (cases sw) auto
  note D = wroteD [OF wrote_frame assms(1) m1]
  then show ?thesis using eq q buf_step_path [OF D(1)]
    by (simp add: holds_def seg_commit_def buf_step_def same_but_def)
qed

text \<open>
  what the writer does after an I/O error in the middle of a frame. The partial frame stays
  in front of everything written later, so an append that follows and reports success, and the
  flush that follows it, do not make its record durable: while the bytes after the torn frame's
  header fall short of the length it announces, reopening the file finds only the rows from
  before the failure.
\<close>

theorem append_after_failure_is_lost:
  assumes inv: "seg_inv X seed recs s w"
    and fail: "seg_append X p ts (s, w) = (Inl (Io i), (s1, w1))" and q1: "quiet w1"
    and torn: "holds s1 w1 (seg_image X seed recs @
      take k (frame X (ts, chain_next X (seg_last_chain s) p, p)))" "48 \<le> k" "k + length q + 48 < 48 + length p"
    and ok: "seg_append X q ts' (s1, w1) = (Inr off, (s2, w2))"
    and flushed: "seg_flush (s2, w2) = (Inr (), (s3, w3))"
  shows "\<exists>s' w'. seg_open X (seg_path s) seed w3 = (Inr s', w') \<and> seg_inv X seed recs s' w'"
proof -
  let ?f = "frame X (ts, chain_next X (seg_last_chain s) p, p)"
  let ?g = "frame X (ts', chain_next X (seg_last_chain s1) q, q)"
  have X: "ext_ok X" "length seed = 32" "\<forall>r \<in> set recs. row_ok r" using inv by (auto simp: seg_inv_def)
  have p: "length p \<le> MAX_RECORD" and path: "seg_path s1 = seg_path s"
    using inv fail by (cases rule: seg_append_cases; auto dest: buf_step_path)+
  note A = append_behind_torn [OF torn(1) ok]
  then have h: "holds s2 w2 (seg_image X seed recs @ take k ?f @ ?g)" by simp
  have path2: "seg_path s2 = seg_path s" using A path by simp
  note D = wroteD [OF wrote_flush_buf h flushed [unfolded seg_flush_def]]
  have "seg_buf s3 = []" using flush_buf_empties flushed h by (simp add: seg_flush_def)
  then have c: "fget w3 (seg_path s) = Some (seg_image X seed recs @ take k ?f @ ?g)"
    using D path2 buf_step_path [OF D(1)] by (simp add: holds_def)
  have f: "stored_ok (ts, chain_next X (seg_last_chain s) p, p)"
    and g: "stored_ok (ts', chain_next X (seg_last_chain s1) q, q)"
    using p A X by (simp_all add: stored_ok_def)
  have "short_tail (take k ?f @ ?g)"
    using frame_length_field [OF f torn(2), of X ?g] p torn(2,3) length_frame [OF f, of X] length_frame [OF g, of X]
    by (simp add: short_tail_def unat_length32 Let_def)
  note short = this
  have q3: "quiet w3" using q1 A D(1) by (simp add: buf_step_def same_but_def)
  obtain r w' where run: "seg_open X (seg_path s) seed w3 = (r, w')" by (metis surj_pair)
  from X short c run show ?thesis using q3 run by (cases rule: seg_open_image_cases) auto
qed

definition demo_full_fs :: fs where
  "demo_full_fs = demo_fs\<lparr>fs_faults := [Pass, Fault (IoError KStorageFull None) 10]\<rparr>"

lemma bw_write_all_fits:
  "length data + length (seg_buf s) < BUF_CAPACITY \<Longrightarrow>
     bw_write_all data (s, w) = (Inr (), (s\<lparr>seg_buf := seg_buf s @ data\<rparr>, w))"
  by (simp add: bw_write_all_def bw_spare_def bw_put_def)

lemma demo_full_append:
  "seg_append demo_ext (replicate 262144 1) 7 (demo_seg, demo_full_fs) =
     (Inl (Io (IoError KStorageFull None)),
      (demo_seg\<lparr>seg_buf := []\<rparr>,
       fput [''t'', ''s''] (seg_header ZERO_CHAIN @
         take 58 (frame demo_ext (7, chain_next demo_ext ZERO_CHAIN (replicate 262144 1), replicate 262144 1)))
         demo_fs))"
proof -
  have big: "bw_write_all (replicate 262144 1) (demo_seg\<lparr>seg_buf := b\<rparr>, demo_full_fs) =
      (Inl (Io (IoError KStorageFull None)), (demo_seg\<lparr>seg_buf := []\<rparr>,
       fput [''t'', ''s''] (b @ replicate 10 1) demo_fs))" if "b \<noteq> []" for b
  proof -
    have "\<not> (262144 :: nat) < 262144 - length b" by simp
    with that show ?thesis
      by (simp add: bw_write_all_def bw_spare_def bw_flush_buf_def bw_direct_def BUF_CAPACITY_def seqE_def
          fs_append_raw_def next_fault_def demo_full_fs_def demo_fs_def demo_seg_def fget_def fput_def
          take_replicate)
  qed
  have seg: "demo_seg\<lparr>seg_buf := b\<rparr>\<lparr>seg_buf := c\<rparr> = demo_seg\<lparr>seg_buf := c\<rparr>"
    "seg_buf (demo_seg\<lparr>seg_buf := b\<rparr>) = b" "seg_buf demo_seg = seg_header ZERO_CHAIN"
    "seg_last_chain demo_seg = ZERO_CHAIN" for b c
    by (simp_all add: demo_seg_def)
  have "seg_header ZERO_CHAIN \<noteq> []" by (simp add: seg_header_def)
  then show ?thesis
    by (simp add: seg_append_def Let_def seqE_def bw_write_all_fits seg big BUF_CAPACITY_def
        frame_def take_replicate)
qed

lemma append_after_failure_is_lost_witness:
  "\<exists>s1 w1 s2 w2 s3 w3 s' w'.
     seg_append demo_ext (replicate 262144 1) 7 (demo_seg, demo_full_fs) =
       (Inl (Io (IoError KStorageFull None)), (s1, w1)) \<and>
     seg_append demo_ext [5] 8 (s1, w1) = (Inr 37, (s2, w2)) \<and>
     seg_flush (s2, w2) = (Inr (), (s3, w3)) \<and>
     seg_open demo_ext [''t'', ''s''] ZERO_CHAIN w3 = (Inr s', w') \<and>
     seg_inv demo_ext ZERO_CHAIN [] s' w'"
proof -
  let ?p = "replicate 262144 (1 :: u8)" and ?c = "chain_next demo_ext ZERO_CHAIN (replicate 262144 1)"
  let ?f = "frame demo_ext (7, ?c, ?p)"
  let ?s1 = "demo_seg\<lparr>seg_buf := []\<rparr>" and ?w1 = "fput [''t'', ''s''] (seg_header ZERO_CHAIN @ take 58 ?f) demo_fs"
  have inv: "seg_inv demo_ext ZERO_CHAIN [] demo_seg demo_full_fs"
    using demo_seg_inv by (simp add: seg_inv_def holds_def demo_full_fs_def fget_def)
  have q1: "quiet ?w1" by (simp add: quiet_def demo_fs_def)
  have seg: "seg_last_chain demo_seg = ZERO_CHAIN" "seg_path demo_seg = [''t'', ''s'']" "seg_len demo_seg = 37"
    by (simp_all add: demo_seg_def)
  have h: "holds ?s1 ?w1 (seg_image demo_ext ZERO_CHAIN [] @
      take 58 (frame demo_ext (7, chain_next demo_ext (seg_last_chain demo_seg) ?p, ?p)))"
    by (simp add: holds_def demo_seg_def seg_image_def)
  obtain s2 w2 where ok: "seg_append demo_ext [5] 8 (?s1, ?w1) = (Inr 37, (s2, w2))"
    by (simp add: seg_append_def Let_def seqE_def bw_write_all_fits BUF_CAPACITY_def demo_seg_def)
  have "quiet w2" using append_behind_torn [OF h ok] q1 by simp
  note h2 = append_behind_torn [OF h ok]
  obtain r s3 w3 where fl: "seg_flush (s2, w2) = (r, (s3, w3))" by (metis surj_pair)
  then have "r = Inr ()"
    using wroteD(2) [OF wrote_flush_buf conjunct1 [OF h2], of r s3 w3] \<open>quiet w2\<close>
    by (auto simp: seg_flush_def split: sum.splits)
  with fl have flush: "seg_flush (s2, w2) = (Inr (), (s3, w3))" by simp
  from append_after_failure_is_lost [OF inv demo_full_append q1 h _ _ ok flush] seg ok flush demo_full_append
  show ?thesis by auto
qed

end
