(* ===== verification/Names.thy ===== *)
theory Names
  imports Fs
begin

text \<open>
  Decimal numbers in file names: \<open>format!("{:010}")\<close>, \<open>str::parse::<u64>\<close>, and the names of
  segment and sidecar files (\<open>segment_path\<close>, \<open>meta_path\<close> and the name parser of \<open>Table::open\<close>
  in \<open>crates/quipu-core/src/storage/table.rs\<close>).
\<close>

definition digit :: "nat \<Rightarrow> char" where "digit d = char_of (48 + d)"

definition digit_val :: "char \<Rightarrow> nat option" where
  "digit_val c = (if 48 \<le> (of_char c :: nat) \<and> (of_char c :: nat) \<le> 57
                  then Some (of_char c - 48) else None)"

lemma digit_val_digit [simp]: "d < 10 \<Longrightarrow> digit_val (digit d) = Some d"
  by (simp add: digit_def digit_val_def of_char_of)

function dec :: "nat \<Rightarrow> string" where
  "dec n = (if n < 10 then [digit n] else dec (n div 10) @ [digit (n mod 10)])"
  by pat_completeness auto
termination by (relation "measure id") auto

declare dec.simps [simp del]

definition pad10 :: "nat \<Rightarrow> string" where
  "pad10 n = replicate (10 - length (dec n)) (digit 0) @ dec n"

fun digits_val :: "nat \<Rightarrow> string \<Rightarrow> nat option" where
  "digits_val acc [] = Some acc"
| "digits_val acc (c # cs) =
     (case digit_val c of None \<Rightarrow> None | Some d \<Rightarrow> digits_val (10 * acc + d) cs)"

text \<open>\<open>str::parse::<u64>\<close>: an optional \<open>+\<close>, then digits; \<open>None\<close> on overflow.\<close>

definition parse_u64 :: "string \<Rightarrow> nat option" where
  "parse_u64 s =
     (let body = (case s of c # cs \<Rightarrow> if c = CHR ''+'' then cs else s | [] \<Rightarrow> [])
      in if body = [] then None
         else case digits_val 0 body of
                None \<Rightarrow> None
              | Some n \<Rightarrow> if n \<le> u64_max_nat then Some n else None)"

lemma digits_val_append:
  "digits_val acc (xs @ ys) = (case digits_val acc xs of None \<Rightarrow> None | Some a \<Rightarrow> digits_val a ys)"
  by (induction xs arbitrary: acc) (auto split: option.splits)

lemma digits_val_dec: "digits_val 0 (dec n) = Some n"
proof (induction n rule: dec.induct)
  case (1 n)
  then show ?case
    by (subst dec.simps) (auto simp: digits_val_append mult.commute [of 10])
qed

lemma digits_val_zeros: "digits_val 0 (replicate k (digit 0) @ s) = digits_val 0 s"
  by (induction k) simp_all

lemma dec_not_Nil [simp]: "dec n \<noteq> []"
  by (subst dec.simps) simp

lemma digit_not_plus: "d < 10 \<Longrightarrow> digit d \<noteq> CHR ''+''"
proof
  assume "d < 10" and "digit d = CHR ''+''"
  then have "digit_val (CHR ''+'') = Some d" by (metis digit_val_digit)
  then show False by (simp add: digit_val_def)
qed

lemma hd_dec: "\<exists>d < 10. hd (dec n) = digit d"
proof (induction n rule: dec.induct)
  case (1 n)
  then show ?case by (subst (1) dec.simps) auto
qed

lemma hd_pad10: "\<exists>d < 10. hd (pad10 n) = digit d"
proof (cases "10 - length (dec n)")
  case 0
  then show ?thesis using hd_dec by (simp add: pad10_def)
next
  case (Suc k)
  then have "hd (pad10 n) = digit 0" by (simp add: pad10_def)
  then show ?thesis by (intro exI [of _ 0]) simp
qed

lemma parse_u64_pad10: "n \<le> u64_max_nat \<Longrightarrow> parse_u64 (pad10 n) = Some n"
proof -
  assume n: "n \<le> u64_max_nat"
  have ne: "pad10 n \<noteq> []" by (simp add: pad10_def)
  then have "hd (pad10 n) \<noteq> CHR ''+''" using hd_pad10 [of n] digit_not_plus by metis
  then have "(case pad10 n of c # cs \<Rightarrow> if c = CHR ''+'' then cs else pad10 n | [] \<Rightarrow> []) = pad10 n"
    using ne by (cases "pad10 n") auto
  moreover have "digits_val 0 (pad10 n) = Some n"
    by (simp add: pad10_def digits_val_zeros digits_val_dec)
  ultimately show ?thesis using n ne by (simp add: parse_u64_def)
qed

lemma pad10_inject: "pad10 m = pad10 n \<longleftrightarrow> m = n"
proof
  assume "pad10 m = pad10 n"
  then have "digits_val 0 (pad10 m) = digits_val 0 (pad10 n)" by simp
  then show "m = n" by (simp add: pad10_def digits_val_zeros digits_val_dec)
qed simp

section \<open>Segment and sidecar names\<close>

definition SEGMENT_PREFIX :: string where "SEGMENT_PREFIX = ''seg-''"
definition SEGMENT_SUFFIX :: string where "SEGMENT_SUFFIX = ''.log''"
definition META_SUFFIX :: string where "META_SUFFIX = ''.meta''"

definition segment_name :: "nat \<Rightarrow> string" where
  "segment_name seq = SEGMENT_PREFIX @ pad10 seq @ SEGMENT_SUFFIX"

definition meta_name :: "nat \<Rightarrow> string" where
  "meta_name seq = SEGMENT_PREFIX @ pad10 seq @ META_SUFFIX"

definition segment_path :: "path \<Rightarrow> nat \<Rightarrow> path" where
  "segment_path dir seq = dir @ [segment_name seq]"

definition meta_path :: "path \<Rightarrow> nat \<Rightarrow> path" where
  "meta_path dir seq = dir @ [meta_name seq]"

text \<open>The filter of \<open>Table::open\<close> over the directory listing.\<close>

definition parse_segment_name :: "string \<Rightarrow> nat option" where
  "parse_segment_name name =
     Option.bind (strip_prefix SEGMENT_PREFIX name) (\<lambda>s.
     Option.bind (strip_suffix SEGMENT_SUFFIX s) parse_u64)"

lemma parse_segment_name [simp]: "n \<le> u64_max_nat \<Longrightarrow> parse_segment_name (segment_name n) = Some n"
  by (simp add: parse_segment_name_def segment_name_def parse_u64_pad10)

lemma segment_path_inject [simp]: "segment_path d m = segment_path d n \<longleftrightarrow> m = n"
  by (simp add: segment_path_def segment_name_def pad10_inject)

lemma meta_path_inject [simp]: "meta_path d m = meta_path d n \<longleftrightarrow> m = n"
  by (simp add: meta_path_def meta_name_def pad10_inject)

lemma last_names: "last (segment_name m) = CHR ''g''" "last (meta_name m) = CHR ''a''"
  by (simp_all add: segment_name_def meta_name_def SEGMENT_SUFFIX_def META_SUFFIX_def)

lemma segment_meta_path [simp]: "segment_path d m \<noteq> meta_path e n" "meta_path e n \<noteq> segment_path d m"
  using last_names [of m] last_names [of n] by (auto simp: segment_path_def meta_path_def)

lemma parse_meta_name [simp]: "parse_segment_name (meta_name n) = None"
proof -
  have "\<not> suffix SEGMENT_SUFFIX (pad10 n @ META_SUFFIX)"
    by (auto simp: suffix_def SEGMENT_SUFFIX_def META_SUFFIX_def dest!: arg_cong [of _ _ last])
  then show ?thesis by (simp add: parse_segment_name_def meta_name_def strip_suffix_def)
qed

lemma butlast_segment_path [simp]: "butlast (segment_path d n) = d" "last (segment_path d n) = segment_name n"
  by (simp_all add: segment_path_def)

lemma butlast_meta_path [simp]: "butlast (meta_path d n) = d" "last (meta_path d n) = meta_name n"
  by (simp_all add: meta_path_def)

end
