(* ===== verification/Table.thy ===== *)
theory Table
  imports Segment Names
begin

text \<open>
  Tables: a directory of rolling segments (\<open>crates/quipu-core/src/storage/table.rs\<close>).

  The row type of a table is a type parameter with a codec (\<open>bincode\<close> through \<open>serde\<close>):
  \<open>c_ser\<close> and \<open>c_de\<close>. The sidecar files have a codec of their own.
  Sequence numbers are natural numbers (a \<open>u64\<close> that counts segments).
\<close>

record 'r codec =
  c_ser :: "'r \<Rightarrow> bytes res"
  c_de :: "bytes \<Rightarrow> 'r res"

text \<open>What the code relies on: decoding what was encoded gives the row back.\<close>

definition codec_ok :: "'r codec \<Rightarrow> bool" where
  "codec_ok C \<longleftrightarrow> (\<forall>r b. c_ser C r = Inr b \<longrightarrow> c_de C b = Inr r)"

section \<open>State\<close>

record seg_meta =
  m_min_timestamp :: u64
  m_max_timestamp :: u64
  m_records :: nat

record sealed_seg =
  ss_path :: path
  ss_meta :: seg_meta

record table =
  t_dir :: path
  t_active :: segment
  t_active_seq :: nat
  t_sealed :: "(nat \<times> sealed_seg) list"
  t_max_segment_bytes :: nat

record segment_slice =
  sl_path :: path
  sl_bound :: nat
  sl_seq :: nat
  sl_min_ts :: u64
  sl_max_ts :: u64

type_synonym 'a top = "(table \<times> fs, error, 'a) sop"

definition on_active :: "(segment \<times> fs, error, 'a) sop \<Rightarrow> 'a top" where
  "on_active m = (\<lambda>(t, w). case m (t_active t, w) of
     (r, (s, w')) \<Rightarrow> (r, (t\<lparr>t_active := s\<rparr>, w')))"

section \<open>Sidecars\<close>

definition read_meta :: "seg_meta codec \<Rightarrow> path \<Rightarrow> fs \<Rightarrow> seg_meta option" where
  "read_meta M p w =
     (case fget w p of None \<Rightarrow> None
      | Some bs \<Rightarrow> (case c_de M bs of Inl _ \<Rightarrow> None | Inr m \<Rightarrow> Some m))"

definition write_meta :: "seg_meta codec \<Rightarrow> path \<Rightarrow> seg_meta \<Rightarrow> fs \<Rightarrow> fs" where
  "write_meta M p m w =
     (case c_ser M m of Inl _ \<Rightarrow> w | Inr bs \<Rightarrow> snd (fs_write_file p bs w))"

section \<open>Opening\<close>

definition list_segments :: "path \<Rightarrow> fs \<Rightarrow> nat list" where
  "list_segments dir w = sort (List.map_filter parse_segment_name (fs_read_dir dir w))"

definition skim_meta :: "skim option \<Rightarrow> seg_meta" where
  "skim_meta k = (case k of
     Some s \<Rightarrow> \<lparr>m_min_timestamp = sk_min_timestamp s, m_max_timestamp = sk_max_timestamp s,
               m_records = sk_records s\<rparr>
   | None \<Rightarrow> \<lparr>m_min_timestamp = u64_MAX, m_max_timestamp = 0, m_records = 0\<rparr>)"

definition load_meta :: "ext \<Rightarrow> seg_meta codec \<Rightarrow> path \<Rightarrow> nat \<Rightarrow> (fs, error, seg_meta) sop" where
  "load_meta X M dir seq w =
     (case read_meta M (meta_path dir seq) w of
        Some m \<Rightarrow> (Inr m, w)
      | None \<Rightarrow>
          (case skim_file X (segment_path dir seq) w of
             Inl e \<Rightarrow> (Inl e, w)
           | Inr k \<Rightarrow> (Inr (skim_meta k), write_meta M (meta_path dir seq) (skim_meta k) w)))"

fun load_sealed ::
  "ext \<Rightarrow> seg_meta codec \<Rightarrow> path \<Rightarrow> nat list \<Rightarrow> (nat \<times> sealed_seg) list
     \<Rightarrow> (fs, error, (nat \<times> sealed_seg) list) sop" where
  "load_sealed X M dir [] acc = retE acc"
| "load_sealed X M dir (seq # seqs) acc =
     seqE (load_meta X M dir seq) (\<lambda>m.
       load_sealed X M dir seqs
         (bt_insert seq \<lparr>ss_path = segment_path dir seq, ss_meta = m\<rparr> acc))"

definition table_open ::
  "ext \<Rightarrow> seg_meta codec \<Rightarrow> path \<Rightarrow> nat \<Rightarrow> (fs, error, table) sop" where
  "table_open X M dir max_bytes =
     seqE (fs_create_dir_all dir) (\<lambda>_ w.
       let seqs = list_segments dir w;
           active_seq = (if seqs = [] then 0 else last seqs)
       in seqE (load_sealed X M dir (filter (\<lambda>s. s \<noteq> active_seq) seqs) []) (\<lambda>sealed.
          seqE (seg_open X (segment_path dir active_seq) ZERO_CHAIN) (\<lambda>active.
          retE \<lparr>t_dir = dir, t_active = active, t_active_seq = active_seq,
                t_sealed = sealed, t_max_segment_bytes = max_bytes\<rparr>)) w)"

section \<open>Appending\<close>

text \<open>
  \<open>roll\<close>: the sidecar write is best effort; the sealed entry and the new sequence number are
  recorded before the new segment is opened.
\<close>

definition seal_meta :: "segment \<Rightarrow> seg_meta" where
  "seal_meta s = \<lparr>m_min_timestamp = seg_min_timestamp s, m_max_timestamp = seg_max_timestamp s,
                 m_records = seg_records s\<rparr>"

definition table_roll :: "ext \<Rightarrow> seg_meta codec \<Rightarrow> unit top" where
  "table_roll X M =
     seqE (on_active seg_sync) (\<lambda>_ (t, w).
       let s = t_active t;
           w1 = write_meta M (meta_path (t_dir t) (t_active_seq t)) (seal_meta s) w;
           t1 = t\<lparr>t_sealed := bt_insert (t_active_seq t)
                     \<lparr>ss_path = seg_path s, ss_meta = seal_meta s\<rparr> (t_sealed t),
                  t_active_seq := t_active_seq t + 1\<rparr>
       in case seg_open X (segment_path (t_dir t) (t_active_seq t1)) (seg_last_chain s) w1 of
            (Inl e, w2) \<Rightarrow> (Inl e, (t1, w2))
          | (Inr s', w2) \<Rightarrow> (Inr (), (t1\<lparr>t_active := s'\<rparr>, seg_drop s w2)))"

definition must_roll :: "table \<Rightarrow> bytes \<Rightarrow> bool" where
  "must_roll t payload \<longleftrightarrow> \<not> seg_is_empty (t_active t) \<and>
     seg_len (t_active t) + length payload > t_max_segment_bytes t"

definition table_append ::
  "ext \<Rightarrow> seg_meta codec \<Rightarrow> 'r codec \<Rightarrow> 'r \<Rightarrow> u64 \<Rightarrow> unit top" where
  "table_append X M C row timestamp = (\<lambda>(t, w).
     case c_ser C row of
       Inl e \<Rightarrow> (Inl e, (t, w))
     | Inr payload \<Rightarrow>
         seqE (if must_roll t payload then table_roll X M else retE ()) (\<lambda>_.
         seqE (on_active (seg_append X payload timestamp)) (\<lambda>_. retE ())) (t, w))"

definition table_flush :: "unit top" where
  "table_flush = on_active seg_flush"

definition table_sync :: "unit top" where
  "table_sync = on_active seg_sync"

section \<open>Snapshots and verification\<close>

definition slices_of :: "table \<Rightarrow> segment_slice list" where
  "slices_of t =
     map (\<lambda>(seq, s). \<lparr>sl_path = ss_path s, sl_bound = u64_max_nat, sl_seq = seq,
                      sl_min_ts = m_min_timestamp (ss_meta s),
                      sl_max_ts = m_max_timestamp (ss_meta s)\<rparr>) (t_sealed t) @
     [\<lparr>sl_path = seg_path (t_active t), sl_bound = seg_len (t_active t), sl_seq = t_active_seq t,
       sl_min_ts = seg_min_timestamp (t_active t), sl_max_ts = seg_max_timestamp (t_active t)\<rparr>]"

definition table_slices :: "segment_slice list top" where
  "table_slices = seqE table_flush (\<lambda>_ (t, w). (Inr (slices_of t), (t, w)))"

definition table_paths :: "table \<Rightarrow> path list" where
  "table_paths t = map (ss_path \<circ> snd) (t_sealed t) @ [seg_path (t_active t)]"

fun verify_paths :: "ext \<Rightarrow> chain_hash option \<Rightarrow> path list \<Rightarrow> fs \<Rightarrow> unit res" where
  "verify_paths X prev [] w = Inr ()"
| "verify_paths X prev (p # ps) w =
     rbind (verify_chain X p w) (\<lambda>(seed, last).
       if prev \<noteq> None \<and> prev \<noteq> Some seed then Inl (Corrupt p 0 SeedMismatch)
       else verify_paths X (Some last) ps w)"

definition table_verify :: "ext \<Rightarrow> unit top" where
  "table_verify X = seqE table_flush (\<lambda>_ (t, w). (verify_paths X None (table_paths t) w, (t, w)))"

fun contains_paths :: "ext \<Rightarrow> chain_hash \<Rightarrow> path list \<Rightarrow> fs \<Rightarrow> bool res" where
  "contains_paths X h [] w = Inr False"
| "contains_paths X h (p # ps) w =
     rbind (chain_contains X p h w) (\<lambda>b. if b then Inr True else contains_paths X h ps w)"

definition contains_chain_value :: "ext \<Rightarrow> chain_hash \<Rightarrow> bool top" where
  "contains_chain_value X h =
     seqE table_flush (\<lambda>_ (t, w). (contains_paths X h (table_paths t) w, (t, w)))"

definition chain_head :: "table \<Rightarrow> chain_hash" where
  "chain_head t = seg_last_chain (t_active t)"

definition record_count :: "table \<Rightarrow> nat" where
  "record_count t = seg_records (t_active t) + sum_list (map (m_records \<circ> ss_meta \<circ> snd) (t_sealed t))"

definition oldest_sealed_max_ts :: "table \<Rightarrow> u64 option" where
  "oldest_sealed_max_ts t =
     (case t_sealed t of [] \<Rightarrow> None | (_, s) # _ \<Rightarrow> Some (m_max_timestamp (ss_meta s)))"

definition file_len :: "path \<Rightarrow> fs \<Rightarrow> nat res" where
  "file_len p w = rbind (fs_read p w) (\<lambda>c. Inr (length c))"

definition table_total_bytes :: "nat top" where
  "table_total_bytes = seqE table_flush (\<lambda>_ (t, w).
     (rbind (collect_res (map (\<lambda>(_, s). file_len (ss_path s) w) (t_sealed t))) (\<lambda>ns.
        Inr (seg_len (t_active t) + sum_list ns)), (t, w)))"

section \<open>Dropping rows\<close>

definition on_disk :: "(fs, error, 'a) sop \<Rightarrow> 'a top" where
  "on_disk m = (\<lambda>(t, w). case m w of (r, w') \<Rightarrow> (r, (t, w')))"

definition ignoring :: "(fs, error, 'a) sop \<Rightarrow> unit top" where
  "ignoring m = (\<lambda>(t, w). (Inr (), (t, snd (m w))))"

fun drop_sealed :: "nat list \<Rightarrow> unit top" where
  "drop_sealed [] = retE ()"
| "drop_sealed (seq # seqs) =
     seqE (\<lambda>(t, w). case map_of (t_sealed t) seq of
             None \<Rightarrow> (Inr (), (t, w))
           | Some s \<Rightarrow>
               seqE (on_disk (fs_remove_file (ss_path s))) (\<lambda>_.
                 ignoring (fs_remove_file (meta_path (t_dir t) seq)))
               (t\<lparr>t_sealed := filter (\<lambda>kv. fst kv \<noteq> seq) (t_sealed t)\<rparr>, w))
          (\<lambda>_. drop_sealed seqs)"

definition purge_older_than :: "u64 \<Rightarrow> nat top" where
  "purge_older_than cutoff = (\<lambda>(t, w).
     let doomed = map fst (filter (\<lambda>(_, s). m_max_timestamp (ss_meta s) < cutoff) (t_sealed t))
     in seqE (drop_sealed doomed) (\<lambda>_. retE (length doomed)) (t, w))"

definition purge_oldest_sealed :: "nat option top" where
  "purge_oldest_sealed = (\<lambda>(t, w).
     case t_sealed t of
       [] \<Rightarrow> (Inr None, (t, w))
     | (seq, s) # rest \<Rightarrow>
         let bytes = (case fget w (ss_path s) of None \<Rightarrow> 0 | Some c \<Rightarrow> length c)
         in seqE (on_disk (fs_remove_file (ss_path s))) (\<lambda>_. retE (Some bytes))
              (t\<lparr>t_sealed := rest\<rparr>, w))"

definition table_clear :: "ext \<Rightarrow> unit top" where
  "table_clear X = (\<lambda>(t, w).
     let old = t_active t; old_sealed = t_sealed t;
         t1 = t\<lparr>t_active_seq := t_active_seq t + 1\<rparr>
     in case seg_open X (segment_path (t_dir t) (t_active_seq t1)) ZERO_CHAIN w of
          (Inl e, w1) \<Rightarrow> (Inl e, (t1, w1))
        | (Inr s, w1) \<Rightarrow>
            seqE (on_disk (fs_remove_file (seg_path old))) (\<lambda>_ (t, w).
            seqE (forE old_sealed (\<lambda>(_, s). on_disk (fs_remove_file (ss_path s)))) (\<lambda>_.
            forE old_sealed (\<lambda>(seq, _). ignoring (fs_remove_file (meta_path (t_dir t) seq))))
              (t\<lparr>t_sealed := []\<rparr>, w))
            (t1\<lparr>t_active := s\<rparr>, seg_drop old w1))"

text \<open>Dropping a table drops its active segment.\<close>

definition table_drop :: "table \<Rightarrow> fs \<Rightarrow> fs" where
  "table_drop t w = seg_drop (t_active t) w"

section \<open>Rewriting a table\<close>

record rewrite_stats =
  rw_old_chain_head :: chain_hash
  rw_new_chain_head :: chain_hash
  rw_records :: nat

definition sibling :: "path \<Rightarrow> string \<Rightarrow> path" where
  "sibling dir ext = butlast dir @ [last dir @ ext]"

definition remove_stale :: "path \<Rightarrow> (fs, error, unit) sop" where
  "remove_stale d w = (if dir_exists d w then fs_remove_dir_all d w else (Inr (), w))"

text \<open>
  The loop over one slice: decode, transform, append. \<open>f\<close> is the caller's closure; it carries
  its own state \<open>'g\<close>.
\<close>

lemma next_record_offset:
  "next_record X r = Inr (Some t, r') \<Longrightarrow> rd_end r' - rd_offset r' < rd_end r - rd_offset r"
  unfolding next_record_def rbind_Inr_iff
  by (auto dest!: next_record_raw_offset split: prod.splits)

function rewrite_loop ::
  "ext \<Rightarrow> seg_meta codec \<Rightarrow> 'r codec \<Rightarrow> ('g \<Rightarrow> 'r \<Rightarrow> 'r res \<times> 'g) \<Rightarrow> segment_reader \<Rightarrow> 'g
     \<Rightarrow> 'g top" where
  "rewrite_loop X M C f r g =
     (case next_record X r of
        Inl e \<Rightarrow> raiseE e
      | Inr (None, r') \<Rightarrow> retE g
      | Inr (Some (ts, payload), r') \<Rightarrow>
          (case c_de C payload of
             Inl e \<Rightarrow> raiseE e
           | Inr row \<Rightarrow>
               (case f g row of
                  (Inl e, g') \<Rightarrow> raiseE e
                | (Inr row', g') \<Rightarrow>
                    seqE (table_append X M C row' ts) (\<lambda>_. rewrite_loop X M C f r' g'))))"
  by pat_completeness auto
termination
  by (relation "measure (\<lambda>(X, M, C, f, r, g). rd_end r - rd_offset r)")
    (auto dest!: next_record_offset)

declare rewrite_loop.simps [simp del]

fun rewrite_slices ::
  "ext \<Rightarrow> seg_meta codec \<Rightarrow> 'r codec \<Rightarrow> ('g \<Rightarrow> 'r \<Rightarrow> 'r res \<times> 'g) \<Rightarrow> segment_slice list \<Rightarrow> 'g
     \<Rightarrow> 'g top" where
  "rewrite_slices X M C f [] g = retE g"
| "rewrite_slices X M C f (s # ss) g = (\<lambda>(t, w).
     case open_bounded (sl_path s) (sl_bound s) w of
       Inl e \<Rightarrow> (Inl e, (t, w))
     | Inr r \<Rightarrow> seqE (rewrite_loop X M C f r g) (\<lambda>g'. rewrite_slices X M C f ss g') (t, w))"

text \<open>An early return drops the open tables, the younger one first.\<close>

definition rewrite_table ::
  "ext \<Rightarrow> seg_meta codec \<Rightarrow> 'r codec \<Rightarrow> ('g \<Rightarrow> 'r \<Rightarrow> 'r res \<times> 'g) \<Rightarrow> path \<Rightarrow> nat \<Rightarrow> 'g
     \<Rightarrow> (fs, error, rewrite_stats \<times> 'g) sop" where
  "rewrite_table X M C f dir max_bytes g =
     (if dir = [] then raiseE (Encode NoDirName)
      else
        let tmp = sibling dir ''.rewrite'';
            backup = sibling dir ''.pre-rewrite''
        in seqE (remove_stale tmp) (\<lambda>_.
           seqE (remove_stale backup) (\<lambda>_.
           seqE (table_open X M dir max_bytes) (\<lambda>old w0.
             case table_slices (old, w0) of
               (Inl e, (old, w1)) \<Rightarrow> (Inl e, table_drop old w1)
             | (Inr slices, (old, w1)) \<Rightarrow>
               (case table_open X M tmp max_bytes w1 of
                  (Inl e, w2) \<Rightarrow> (Inl e, table_drop old w2)
                | (Inr fresh, w2) \<Rightarrow>
                  (case seqE (rewrite_slices X M C f slices g) (\<lambda>g'. seqE table_sync (\<lambda>_. retE g'))
                          (fresh, w2) of
                     (Inl e, (fresh, w3)) \<Rightarrow> (Inl e, table_drop old (table_drop fresh w3))
                   | (Inr g', (fresh, w3)) \<Rightarrow>
                       seqE (fs_rename_dir dir backup) (\<lambda>_.
                       seqE (fs_rename_dir tmp dir) (\<lambda>_.
                       seqE (fs_remove_dir_all backup) (\<lambda>_.
                       retE (\<lparr>rw_old_chain_head = chain_head old,
                              rw_new_chain_head = chain_head fresh,
                              rw_records = record_count fresh\<rparr>, g'))))
                         (table_drop fresh (table_drop old w3))))))))"

end
