(* ===== verification/Table_Inv.thy ===== *)
theory Table_Inv
  imports Table Segment_Write
begin

text \<open>
  What a table stands for: a list of sealed segments and an active one, each a chain seed with
  rows. \<open>tbl_inv\<close> ties the in-memory bookkeeping, the files of the directory and the sidecars
  to that view; \<open>linked\<close> says that the seeds continue the chain across segments.
\<close>

section \<open>The view\<close>

type_synonym seg_view = "chain_hash \<times> row list"

definition rows_meta :: "row list \<Rightarrow> seg_meta" where
  "rows_meta rs = \<lparr>m_min_timestamp = foldl min u64_MAX (map fst rs),
                  m_max_timestamp = foldl max 0 (map fst rs), m_records = length rs\<rparr>"

definition view_rows :: "seg_view list \<Rightarrow> row list" where
  "view_rows vs = concat (map snd vs)"

definition view_head :: "ext \<Rightarrow> seg_view \<Rightarrow> chain_hash" where
  "view_head X v = chain_of X (fst v) (map snd (snd v))"

fun linked :: "ext \<Rightarrow> seg_view list \<Rightarrow> bool" where
  "linked X (v # v' # vs) \<longleftrightarrow> fst v' = view_head X v \<and> linked X (v' # vs)"
| "linked X _ \<longleftrightarrow> True"

text \<open>What is relied on of the sidecar codec: a truncated sidecar does not decode.\<close>

definition meta_codec_ok :: "seg_meta codec \<Rightarrow> bool" where
  "meta_codec_ok M \<longleftrightarrow> codec_ok M \<and>
     (\<forall>m b k. c_ser M m = Inr b \<longrightarrow> k < length b \<longrightarrow> (\<exists>e. c_de M (take k b) = Inl e))"

definition sealed_ok :: "ext \<Rightarrow> fs \<Rightarrow> path \<Rightarrow> nat \<times> sealed_seg \<Rightarrow> seg_view \<Rightarrow> bool" where
  "sealed_ok X w dir kv v \<longleftrightarrow>
     ss_path (snd kv) = segment_path dir (fst kv) \<and>
     fget w (segment_path dir (fst kv)) = Some (seg_image X (fst v) (snd v)) \<and>
     length (fst v) = 32 \<and> (\<forall>r \<in> set (snd v). row_ok r) \<and> ss_meta (snd kv) = rows_meta (snd v)"

definition dir_clean :: "table \<Rightarrow> fs \<Rightarrow> bool" where
  "dir_clean t w \<longleftrightarrow> (\<forall>x n. fget w (t_dir t @ [x]) \<noteq> None \<longrightarrow> parse_segment_name x = Some n \<longrightarrow>
     x = segment_name n \<and> (n = t_active_seq t \<or> n \<in> fst ` set (t_sealed t)))"

definition metas_ok :: "seg_meta codec \<Rightarrow> table \<Rightarrow> fs \<Rightarrow> bool" where
  "metas_ok M t w \<longleftrightarrow>
     (\<forall>kv \<in> set (t_sealed t). read_meta M (meta_path (t_dir t) (fst kv)) w \<in> {None, Some (ss_meta (snd kv))}) \<and>
     (\<forall>n \<ge> t_active_seq t. read_meta M (meta_path (t_dir t) n) w = None)"

definition tbl_inv ::
  "ext \<Rightarrow> seg_meta codec \<Rightarrow> seg_view list \<Rightarrow> seg_view \<Rightarrow> table \<Rightarrow> fs \<Rightarrow> bool" where
  "tbl_inv X M vs v t w \<longleftrightarrow>
     meta_codec_ok M \<and>
     list_all2 (sealed_ok X w (t_dir t)) (t_sealed t) vs \<and>
     bt_wf (t_sealed t) \<and> (\<forall>kv \<in> set (t_sealed t). fst kv < t_active_seq t) \<and>
     seg_inv X (fst v) (snd v) (t_active t) w \<and>
     seg_path (t_active t) = segment_path (t_dir t) (t_active_seq t) \<and>
     dir_clean t w \<and> metas_ok M t w"

text \<open>No file is longer than a \<open>u64\<close> can say.\<close>

definition files_fit :: "fs \<Rightarrow> bool" where
  "files_fit w \<longleftrightarrow> (\<forall>p c. fget w p = Some c \<longrightarrow> length c \<le> u64_max_nat)"

section \<open>Locality\<close>

definition same_outside :: "path \<Rightarrow> fs \<Rightarrow> fs \<Rightarrow> bool" where
  "same_outside d w w' \<longleftrightarrow> (\<forall>q. (\<forall>x. q \<noteq> d @ [x]) \<longrightarrow> fget w' q = fget w q) \<and> fs_dirs w' = fs_dirs w \<and>
     (quiet w \<longrightarrow> quiet w') \<and> (fs_wf w \<longrightarrow> fs_wf w')"

lemma same_outside_refl [simp]: "same_outside d w w"
  by (simp add: same_outside_def)

lemma same_outside_trans: "same_outside d w w' \<Longrightarrow> same_outside d w' w'' \<Longrightarrow> same_outside d w w''"
  by (simp add: same_outside_def)

lemma same_but_outside: "same_but (d @ [x]) w w' \<Longrightarrow> same_outside d w w'"
  by (auto simp: same_but_def same_outside_def)

lemma same_but_seg_outside: "same_but (segment_path d n) w w' \<Longrightarrow> same_outside d w w'"
  by (simp add: segment_path_def same_but_outside)

lemma same_but_meta_outside: "same_but (meta_path d n) w w' \<Longrightarrow> same_outside d w w'"
  by (simp add: meta_path_def same_but_outside)

lemma same_outside_quiet: "same_outside d w w' \<Longrightarrow> quiet w \<Longrightarrow> quiet w'"
  by (simp add: same_outside_def)

text \<open>The invariant looks only at the files of the table's own directory.\<close>

lemma tbl_inv_cong:
  assumes "\<And>x. fget w' (t_dir t @ [x]) = fget w (t_dir t @ [x])"
  shows "tbl_inv X M vs v t w' = tbl_inv X M vs v t w"
proof -
  have seg: "fget w' (segment_path (t_dir t) n) = fget w (segment_path (t_dir t) n)" for n
    using assms by (simp add: segment_path_def)
  have meta: "read_meta M (meta_path (t_dir t) n) w' = read_meta M (meta_path (t_dir t) n) w" for n
    using assms by (simp add: meta_path_def read_meta_def)
  have "sealed_ok X w' (t_dir t) = sealed_ok X w (t_dir t)"
    by (intro ext) (simp add: sealed_ok_def seg)
  moreover have "dir_clean t w' = dir_clean t w" by (simp add: dir_clean_def assms)
  moreover have "metas_ok M t w' = metas_ok M t w" by (simp add: metas_ok_def meta)
  moreover have "seg_path (t_active t) = segment_path (t_dir t) (t_active_seq t) \<Longrightarrow>
      seg_inv X (fst v) (snd v) (t_active t) w' = seg_inv X (fst v) (snd v) (t_active t) w"
    by (simp add: seg_inv_def holds_def seg)
  ultimately show ?thesis unfolding tbl_inv_def by auto
qed

lemma same_outside_other:
  assumes "same_outside d w w'" and "d \<noteq> e"
  shows "fget w' (e @ [x]) = fget w (e @ [x])"
  using assms by (auto simp: same_outside_def)

lemma tbl_inv_other:
  "same_outside d w w' \<Longrightarrow> t_dir t \<noteq> d \<Longrightarrow> tbl_inv X M vs v t w' = tbl_inv X M vs v t w"
  by (rule tbl_inv_cong) (metis same_outside_other)

section \<open>Replacing the active segment's state\<close>

lemma tbl_inv_active:
  assumes inv: "tbl_inv X M vs v t w" and s: "seg_inv X (fst v') (snd v') s w'"
    and b: "same_but (segment_path (t_dir t) (t_active_seq t)) w w'"
    and p: "seg_path s = segment_path (t_dir t) (t_active_seq t)"
  shows "tbl_inv X M vs v' (t\<lparr>t_active := s\<rparr>) w'"
proof -
  let ?p = "segment_path (t_dir t) (t_active_seq t)"
  have eq: "q \<noteq> ?p \<Longrightarrow> fget w' q = fget w q" for q using b by (simp add: same_but_def)
  have "list_all2 (sealed_ok X w' (t_dir t)) (t_sealed t) vs"
  proof (rule list.rel_mono_strong)
    show "list_all2 (sealed_ok X w (t_dir t)) (t_sealed t) vs" using inv by (simp add: tbl_inv_def)
  next
    fix kv u assume "kv \<in> set (t_sealed t)" "sealed_ok X w (t_dir t) kv u"
    moreover from this have "fst kv \<noteq> t_active_seq t" using inv by (auto simp: tbl_inv_def)
    ultimately show "sealed_ok X w' (t_dir t) kv u" using eq by (simp add: sealed_ok_def)
  qed
  moreover have "dir_clean (t\<lparr>t_active := s\<rparr>) w'"
  proof -
    have "fget w (t_dir t @ [x]) \<noteq> None" if "fget w' (t_dir t @ [x]) \<noteq> None" for x
    proof (cases "t_dir t @ [x] = ?p")
      case True
      then show ?thesis using inv by (auto simp: tbl_inv_def seg_inv_def holds_def)
    next
      case False
      then show ?thesis using eq that by simp
    qed
    then show ?thesis using inv by (auto simp: tbl_inv_def dir_clean_def)
  qed
  moreover have "metas_ok M (t\<lparr>t_active := s\<rparr>) w'"
    using inv eq by (simp add: tbl_inv_def metas_ok_def read_meta_def)
  ultimately show ?thesis using inv s p by (simp add: tbl_inv_def)
qed

lemma tbl_inv_path: "tbl_inv X M vs v t w \<Longrightarrow> seg_path (t_active t) = segment_path (t_dir t) (t_active_seq t)"
  by (simp add: tbl_inv_def)

lemma tbl_inv_seg: "tbl_inv X M vs v t w \<Longrightarrow> seg_inv X (fst v) (snd v) (t_active t) w"
  by (simp add: tbl_inv_def)

lemma buf_stepD: "buf_step s w s' w' \<Longrightarrow> same_but (seg_path s) w w' \<and> seg_path s' = seg_path s"
  by (rule conjI, (unfold buf_step_def, elim conjE, assumption), rule buf_step_path [unfolded buf_step_def])

lemma on_active_run:
  assumes "on_active m (t, w) = (r, (t', w'))"
  obtains s' where "m (t_active t, w) = (r, (s', w'))" "t' = t\<lparr>t_active := s'\<rparr>"
  using assms by (cases "m (t_active t, w)") (auto simp: on_active_def)

lemma table_flush_cases:
  assumes inv: "tbl_inv X M vs v t w" and run: "table_flush (t, w) = (r, (t', w'))"
  obtains (ok) "r = Inr ()" "tbl_inv X M vs v t' w'" "same_outside (t_dir t) w w'"
      "t' = t\<lparr>t_active := t_active t'\<rparr>" "slices_of t' = slices_of t" "table_paths t' = table_paths t"
      "fget w' (segment_path (t_dir t) (t_active_seq t)) = Some (seg_image X (fst v) (snd v))"
      "seg_buf (t_active t') = []"
  | (fault) i where "r = Inl (Io i)" "\<not> quiet w" "tbl_inv X M vs v t' w'" "same_outside (t_dir t) w w'"
      "t' = t\<lparr>t_active := t_active t'\<rparr>"
proof -
  from run obtain s' where m: "seg_flush (t_active t, w) = (r, (s', w'))" and t': "t' = t\<lparr>t_active := s'\<rparr>"
    unfolding table_flush_def by (rule on_active_run)
  from tbl_inv_seg [OF inv] m show ?thesis
  proof (cases rule: seg_flush_cases)
    case ok
    then have b: "same_but (segment_path (t_dir t) (t_active_seq t)) w w'"
      and p: "seg_path s' = segment_path (t_dir t) (t_active_seq t)"
      using tbl_inv_path [OF inv] by (auto dest!: buf_stepD)
    note f = buf_step_fields [OF ok(3)]
    show ?thesis
      using ok t' tbl_inv_active [OF inv ok(2) b p] tbl_inv_path [OF inv] b f
      by (intro that(1)) (auto simp: same_but_seg_outside slices_of_def table_paths_def)
  next
    case (fault i)
    then have b: "same_but (segment_path (t_dir t) (t_active_seq t)) w w'"
      and p: "seg_path s' = segment_path (t_dir t) (t_active_seq t)"
      using tbl_inv_path [OF inv] by (auto dest!: buf_stepD)
    show ?thesis
      using fault t' tbl_inv_active [OF inv fault(3) b p] b
      by (intro that(2)) (auto simp: same_but_seg_outside)
  qed
qed

lemma table_sync_cases:
  assumes inv: "tbl_inv X M vs v t w" and run: "table_sync (t, w) = (r, (t', w'))"
  obtains (ok) "r = Inr ()" "tbl_inv X M vs v t' w'" "same_outside (t_dir t) w w'"
      "t' = t\<lparr>t_active := t_active t'\<rparr>" "buf_step (t_active t) w (t_active t') w'" "seg_buf (t_active t') = []"
      "fget w' (segment_path (t_dir t) (t_active_seq t)) = Some (seg_image X (fst v) (snd v))"
  | (fault) i where "r = Inl (Io i)" "\<not> quiet w" "tbl_inv X M vs v t' w'" "same_outside (t_dir t) w w'"
      "t' = t\<lparr>t_active := t_active t'\<rparr>"
proof -
  from run obtain s' where m: "seg_sync (t_active t, w) = (r, (s', w'))" and t': "t' = t\<lparr>t_active := s'\<rparr>"
    unfolding table_sync_def by (rule on_active_run)
  from tbl_inv_seg [OF inv] m show ?thesis
  proof (cases rule: seg_sync_cases)
    case ok
    then have b: "same_but (segment_path (t_dir t) (t_active_seq t)) w w'"
      and p: "seg_path s' = segment_path (t_dir t) (t_active_seq t)"
      using tbl_inv_path [OF inv] by (auto dest!: buf_stepD)
    show ?thesis
      using ok t' tbl_inv_active [OF inv ok(2) b p] tbl_inv_path [OF inv] b
      by (intro that(1)) (auto simp: same_but_seg_outside)
  next
    case (fault i)
    then have b: "same_but (segment_path (t_dir t) (t_active_seq t)) w w'"
      and p: "seg_path s' = segment_path (t_dir t) (t_active_seq t)"
      using tbl_inv_path [OF inv] by (auto dest!: buf_stepD)
    show ?thesis
      using fault t' tbl_inv_active [OF inv fault(3) b p] b
      by (intro that(2)) (auto simp: same_but_seg_outside)
  qed
qed

end
