(* ===== verification/Table_Append.thy ===== *)
theory Table_Append
  imports Table_Inv
begin

text \<open>
  Rolling and appending: under every schedule of I/O faults a successful append adds exactly one
  row at the end of the table's view, rolling to a fresh, correctly seeded segment when the size
  limit asks for it.
\<close>

section \<open>Sidecar writes\<close>

lemma fs_write_file_cases:
  assumes "fs_write_file p bs w = (r, w')"
  obtains (ok) "r = Inr ()" "same_but p w w'" "fget w' p = Some bs"
  | (fault) i n where "r = Inl (Io i)" "\<not> quiet w" "same_but p w w'" "fget w' p = Some (take n bs)"
proof (cases "next_fault w")
  case (Pair fl w1)
  note n = next_fault_same [OF Pair, of p]
  show ?thesis
  proof (cases fl)
    case None
    then show ?thesis using ok assms Pair n by (auto simp: fs_write_file_def same_but_fputI)
  next
    case (Some en)
    then have "\<not> quiet w" using Pair by auto
    then show ?thesis using fault assms Pair n Some
      by (cases en) (auto simp: fs_write_file_def same_but_fputI)
  qed
qed

lemma write_meta_same: "same_but p w (write_meta M p m w)"
proof (cases "c_ser M m")
  case (Inr bs)
  obtain r w' where f: "fs_write_file p bs w = (r, w')" by (metis surj_pair)
  then have "same_but p w w'" by (cases rule: fs_write_file_cases) auto
  then show ?thesis using f Inr by (simp add: write_meta_def)
qed (simp add: write_meta_def)

lemma read_meta_write_meta:
  assumes "meta_codec_ok M"
  shows "read_meta M p (write_meta M p m w) \<in> {None, Some m, read_meta M p w}"
proof (cases "c_ser M m")
  case (Inr bs)
  have de: "c_de M bs = Inr m" using assms Inr by (simp add: meta_codec_ok_def codec_ok_def)
  obtain r w' where f: "fs_write_file p bs w = (r, w')" by (metis surj_pair)
  then show ?thesis
  proof (cases rule: fs_write_file_cases)
    case ok
    then show ?thesis using f Inr de by (simp add: write_meta_def read_meta_def)
  next
    case (fault i n)
    then have "read_meta M p w' = (case c_de M (take n bs) of Inl _ \<Rightarrow> None | Inr m \<Rightarrow> Some m)"
      by (simp add: read_meta_def)
    also have "\<dots> \<in> {None, Some m}"
    proof (cases "n < length bs")
      case True
      then obtain e where "c_de M (take n bs) = Inl e"
        using assms Inr unfolding meta_codec_ok_def by blast
      then show ?thesis by simp
    qed (simp add: de)
    finally show ?thesis using f Inr by (auto simp: write_meta_def)
  qed
qed (simp add: write_meta_def)

section \<open>Rolling\<close>

lemma seg_drop_empty: "seg_buf s = [] \<Longrightarrow> seg_drop s w = w"
  by (simp add: seg_drop_def bw_flush_buf_def)

lemma seal_meta_inv: "seg_inv X sd rs s w \<Longrightarrow> seal_meta s = rows_meta rs"
  by (simp add: seg_inv_def seg_books_def seal_meta_def rows_meta_def)

lemma table_roll_cases:
  assumes inv: "tbl_inv X M vs v t w" and room: "t_active_seq t < u64_max_nat"
    and run: "table_roll X M (t, w) = (r, (t', w'))"
  obtains (ok) "r = Inr ()" "tbl_inv X M (vs @ [v]) (view_head X v, []) t' w'"
      "same_outside (t_dir t) w w'" "t_dir t' = t_dir t" "t_max_segment_bytes t' = t_max_segment_bytes t"
      "t_active_seq t' = t_active_seq t + 1"
  | (fault) i where "r = Inl (Io i)" "\<not> quiet w" "same_outside (t_dir t) w w'" "t_dir t' = t_dir t"
      "t_max_segment_bytes t' = t_max_segment_bytes t"
proof -
  obtain r1 t1 w1 where m1: "table_sync (t, w) = (r1, (t1, w1))" by (metis surj_pair)
  from inv m1 show ?thesis
  proof (cases rule: table_sync_cases)
    case (fault i)
    then have "r = Inl (Io i)" "t' = t1" "w' = w1"
      using run m1 by (simp_all add: table_roll_def table_sync_def seqE_def)
    moreover have "t_dir t1 = t_dir t" "t_max_segment_bytes t1 = t_max_segment_bytes t"
      using arg_cong [OF fault(5), of t_dir] arg_cong [OF fault(5), of t_max_segment_bytes] by simp_all
    ultimately show ?thesis using fault by (intro that(2)) simp_all
  next
    case ok
    let ?d = "t_dir t" and ?n = "t_active_seq t" and ?s = "t_active t1"
    have t1: "t_dir t1 = ?d" "t_active_seq t1 = ?n" "t_sealed t1 = t_sealed t"
      "t_max_segment_bytes t1 = t_max_segment_bytes t"
      using arg_cong [OF ok(4), of t_dir] arg_cong [OF ok(4), of t_active_seq]
        arg_cong [OF ok(4), of t_sealed] arg_cong [OF ok(4), of t_max_segment_bytes] by simp_all
    let ?w2 = "write_meta M (meta_path ?d ?n) (seal_meta ?s) w1"
    let ?e = "(?n, \<lparr>ss_path = seg_path ?s, ss_meta = seal_meta ?s\<rparr>)"
    let ?t2 = "t1\<lparr>t_sealed := t_sealed t @ [?e], t_active_seq := ?n + 1\<rparr>"
    have seg1: "seg_inv X (fst v) (snd v) ?s w1" using ok(2) by (rule tbl_inv_seg)
    have path1: "seg_path ?s = segment_path ?d ?n" using tbl_inv_path [OF ok(2)] t1 by simp
    have keys: "\<forall>kv \<in> set (t_sealed t). fst kv < ?n" using inv by (simp add: tbl_inv_def)
    then have ins: "bt_insert ?n \<lparr>ss_path = seg_path ?s, ss_meta = seal_meta ?s\<rparr> (t_sealed t) = t_sealed t @ [?e]"
      by (rule bt_insert_append)
    have w2: "same_but (meta_path ?d ?n) w1 ?w2" by (rule write_meta_same)
    have absent: "fget ?w2 (segment_path ?d (?n + 1)) = None"
    proof (rule ccontr)
      assume "fget ?w2 (segment_path ?d (?n + 1)) \<noteq> None"
      then have "fget w1 (?d @ [segment_name (?n + 1)]) \<noteq> None"
        using w2 by (simp add: same_but_def segment_path_def [symmetric])
      moreover have "parse_segment_name (segment_name (?n + 1)) = Some (?n + 1)" using room by simp
      moreover have "dir_clean t1 w1" using ok(2) by (simp add: tbl_inv_def)
      ultimately have "?n + 1 = ?n \<or> ?n + 1 \<in> fst ` set (t_sealed t)"
        unfolding dir_clean_def t1 by blast
      then show False using keys by auto
    qed
    obtain r3 w3 where m3: "seg_open X (segment_path ?d (?n + 1)) (seg_last_chain ?s) ?w2 = (r3, w3)"
      by (metis surj_pair)
    have X: "ext_ok X" "length (seg_last_chain ?s) = 32"
      using seg1 by (auto simp: seg_inv_def seg_books_def length_chain_of)
    have sync: "on_active seg_sync (t, w) = (Inr (), (t1, w1))"
      using m1 ok(1) by (simp add: table_sync_def)
    have sync': "seqE (on_active seg_sync) k (t, w) = k () (t1, w1)" for k :: "unit \<Rightarrow> unit top"
      by (simp add: seqE_def sync)
    have seq2: "t_active_seq ?t2 = ?n + 1" by simp
    have "table_roll X M (t, w) = (case r3 of Inl e \<Rightarrow> (Inl e, (?t2, w3))
        | Inr s' \<Rightarrow> (Inr (), (?t2\<lparr>t_active := s'\<rparr>, seg_drop ?s w3)))"
      unfolding table_roll_def sync' Let_def prod.case t1 ins seq2 m3
      by (cases r3) simp_all
    then have run': "(r, (t', w')) = (case r3 of Inl e \<Rightarrow> (Inl e, (?t2, w3))
        | Inr s' \<Rightarrow> (Inr (), (?t2\<lparr>t_active := s'\<rparr>, seg_drop ?s w3)))"
      by (simp only: run)
    have short: "case fget ?w2 (segment_path ?d (?n + 1)) of None \<Rightarrow> True | Some c \<Rightarrow> length c < 37"
      using absent by simp
    from X short m3 show ?thesis
    proof (cases rule: seg_open_fresh_cases)
      case (fault i)
      have "same_outside ?d w w3"
        using ok(3) same_but_meta_outside [OF w2] same_but_seg_outside [OF fault(3)]
        by (auto intro: same_outside_trans)
      moreover have "\<not> quiet w" using fault ok(3) w2 by (auto simp: same_but_def same_outside_def)
      ultimately show ?thesis using run' fault t1 by (intro that(2)) auto
    next
      case (ok s')
      note ok' = \<open>tbl_inv X M vs v t1 w1\<close> \<open>same_outside (t_dir t) w w1\<close> \<open>seg_buf (t_active t1) = []\<close>
        \<open>fget w1 (segment_path (t_dir t) (t_active_seq t)) = Some (seg_image X (fst v) (snd v))\<close>
      have res: "r = Inr ()" "t' = ?t2\<lparr>t_active := s'\<rparr>" "w' = w3"
        using run' ok ok'(3) by (simp_all add: seg_drop_empty)
      have eq: "q \<noteq> segment_path ?d (?n + 1) \<Longrightarrow> q \<noteq> meta_path ?d ?n \<Longrightarrow> fget w3 q = fget w1 q" for q
        using ok(5) w2 by (simp add: same_but_def)
      have all: "list_all2 (sealed_ok X w3 ?d) (t_sealed t @ [?e]) (vs @ [v])"
      proof (rule list_all2_appendI)
        have "list_all2 (sealed_ok X w1 ?d) (t_sealed t) vs" using ok'(1) t1 by (simp add: tbl_inv_def)
        then show "list_all2 (sealed_ok X w3 ?d) (t_sealed t) vs"
        proof (rule list.rel_mono_strong)
          fix kv u assume "kv \<in> set (t_sealed t)" "sealed_ok X w1 ?d kv u"
          moreover from this have "fst kv \<noteq> ?n + 1" using keys by auto
          ultimately show "sealed_ok X w3 ?d kv u" using eq by (simp add: sealed_ok_def)
        qed
        show "list_all2 (sealed_ok X w3 ?d) [?e] [v]"
          using seg1 path1 eq ok'(4) seal_meta_inv [OF seg1] by (simp add: sealed_ok_def seg_inv_def)
      qed
      have clean: "dir_clean (?t2\<lparr>t_active := s'\<rparr>) w3"
        unfolding dir_clean_def
      proof (intro allI impI)
        fix x n assume x: "fget w3 (t_dir (?t2\<lparr>t_active := s'\<rparr>) @ [x]) \<noteq> None" "parse_segment_name x = Some n"
        show "x = segment_name n \<and> (n = t_active_seq (?t2\<lparr>t_active := s'\<rparr>) \<or> n \<in> fst ` set (t_sealed (?t2\<lparr>t_active := s'\<rparr>)))"
        proof (cases "?d @ [x] = segment_path ?d (?n + 1)")
          case True
          then have "x = segment_name (?n + 1)" by (simp add: segment_path_def)
          then show ?thesis using x(2) room by simp
        next
          case False
          have "?d @ [x] \<noteq> meta_path ?d ?n" using x(2) by (auto simp: meta_path_def)
          then have "fget w1 (t_dir t1 @ [x]) \<noteq> None" using x(1) eq False t1 by simp
          then show ?thesis using ok'(1) x(2) t1 by (auto simp: tbl_inv_def dir_clean_def)
        qed
      qed
      have metas: "metas_ok M (?t2\<lparr>t_active := s'\<rparr>) w3"
      proof -
        have rd: "read_meta M (meta_path ?d m) w3 = read_meta M (meta_path ?d m) ?w2" for m
          using ok(5) by (simp add: read_meta_def same_but_def)
        have rd': "m \<noteq> ?n \<Longrightarrow> read_meta M (meta_path ?d m) ?w2 = read_meta M (meta_path ?d m) w1" for m
          using w2 by (simp add: read_meta_def same_but_def)
        have old: "metas_ok M t1 w1" and M: "meta_codec_ok M" using ok'(1) by (simp_all add: tbl_inv_def)
        have "read_meta M (meta_path ?d ?n) w1 = None" using old t1 by (simp add: metas_ok_def)
        then have "read_meta M (meta_path ?d ?n) ?w2 \<in> {None, Some (seal_meta ?s)}"
          using read_meta_write_meta [OF M, of "meta_path ?d ?n" "seal_meta ?s" w1] by auto
        moreover have "\<forall>kv \<in> set (t_sealed t). fst kv \<noteq> ?n" using keys by auto
        ultimately show ?thesis using old rd rd' t1 by (simp add: metas_ok_def)
      qed
      have bt: "bt_wf (t_sealed t @ [?e])"
        using ok'(1) keys t1 by (simp add: tbl_inv_def bt_wf_append) (simp add: bt_wf_def)
      have seed: "seg_last_chain ?s = view_head X v"
        using seg1 by (simp add: seg_inv_def seg_books_def view_head_def)
      have "tbl_inv X M (vs @ [v]) (view_head X v, []) t' w'"
        using ok'(1) all clean metas bt keys ok(2,4) seed t1 unfolding res
        by (auto simp: tbl_inv_def less_SucI)
      moreover have "same_outside ?d w w3"
        using ok'(2) same_but_meta_outside [OF w2] same_but_seg_outside [OF ok(5)]
        by (auto intro: same_outside_trans)
      ultimately show ?thesis using res t1 by (intro that(1)) simp_all
    qed
  qed
qed

section \<open>Appending\<close>

text \<open>The view after appending \<open>(ts, p)\<close>, with and without a roll.\<close>

definition view_append ::
  "ext \<Rightarrow> bool \<Rightarrow> u64 \<Rightarrow> bytes \<Rightarrow> seg_view list \<times> seg_view \<Rightarrow> seg_view list \<times> seg_view" where
  "view_append X rolled ts p vv = (case vv of (vs, v) \<Rightarrow>
     if rolled then (vs @ [v], (view_head X v, [(ts, p)])) else (vs, (fst v, snd v @ [(ts, p)])))"

lemma view_rows_append [simp]:
  "view_rows (vs @ ws) = view_rows vs @ view_rows ws" "view_rows [] = []"
  "view_rows [v] = snd v"
  by (simp_all add: view_rows_def)

lemma view_append_rows:
  "view_append X b ts p (vs, v) = (vs', v') \<Longrightarrow> view_rows (vs' @ [v']) = view_rows (vs @ [v]) @ [(ts, p)]"
  by (auto simp: view_append_def split: if_splits)

lemma linked_snoc:
  "linked X (vs @ [v, v']) \<longleftrightarrow> linked X (vs @ [v]) \<and> fst v' = view_head X v"
proof (induction vs)
  case (Cons u us)
  then show ?case by (cases us) auto
qed auto

lemma linked_last_seed: "fst v = fst v' \<Longrightarrow> linked X (vs @ [v]) = linked X (vs @ [v'])"
proof (induction vs)
  case (Cons u us)
  then show ?case by (cases us) auto
qed auto

lemma view_append_linked:
  "view_append X b ts p (vs, v) = (vs', v') \<Longrightarrow> linked X (vs @ [v]) \<Longrightarrow> linked X (vs' @ [v'])"
  using linked_last_seed [of v "(fst v, snd v @ [(ts, p)])" X vs]
  by (auto simp: view_append_def linked_snoc split: if_splits)

lemma table_append_active_cases:
  assumes inv: "tbl_inv X M vs v t w"
    and run: "seqE (on_active (seg_append X p ts)) (\<lambda>_. retE ()) (t, w) = (r, (t', w'))"
  obtains (ok) "r = Inr ()" "length p \<le> MAX_RECORD" "tbl_inv X M vs (fst v, snd v @ [(ts, p)]) t' w'"
      "same_outside (t_dir t) w w'" "t' = t\<lparr>t_active := t_active t'\<rparr>"
  | (large) "r = Inl (Encode (RecordTooLarge (length p)))" "length p > MAX_RECORD" "t' = t" "w' = w"
  | (fault) i where "r = Inl (Io i)" "\<not> quiet w" "same_outside (t_dir t) w w'" "t' = t\<lparr>t_active := t_active t'\<rparr>"
proof -
  obtain r1 s' w1 where m: "seg_append X p ts (t_active t, w) = (r1, (s', w1))" by (metis surj_pair)
  have on: "on_active (seg_append X p ts) (t, w) = (r1, (t\<lparr>t_active := s'\<rparr>, w1))"
    by (simp add: on_active_def m)
  have res: "r = (case r1 of Inl e \<Rightarrow> Inl e | Inr _ \<Rightarrow> Inr ())" "t' = t\<lparr>t_active := s'\<rparr>" "w' = w1"
    using run by (cases r1; simp add: seqE_def on)+
  from tbl_inv_seg [OF inv] m show ?thesis
  proof (cases rule: seg_append_cases)
    case ok
    have b: "same_but (segment_path (t_dir t) (t_active_seq t)) w w1"
      and p: "seg_path s' = segment_path (t_dir t) (t_active_seq t)"
      using ok tbl_inv_path [OF inv] by auto
    have "tbl_inv X M vs (fst v, snd v @ [(ts, p)]) t' w'"
      unfolding res using ok by (intro tbl_inv_active [OF inv _ b p]) simp
    then show ?thesis using ok res same_but_seg_outside [OF b] by (intro that(1)) simp_all
  next
    case large
    then show ?thesis using res by (intro that(2)) simp_all
  next
    case (fault i k)
    then have "same_but (segment_path (t_dir t) (t_active_seq t)) w w1"
      using buf_stepD tbl_inv_path [OF inv] by fastforce
    then show ?thesis using fault res same_but_seg_outside by (intro that(3)) simp_all
  qed
qed

lemma table_append_cases:
  assumes inv: "tbl_inv X M vs v t w" and room: "t_active_seq t < u64_max_nat"
    and run: "table_append X M C row ts (t, w) = (r, (t', w'))"
  obtains (ok) p vs' v' where "r = Inr ()" "c_ser C row = Inr p" "length p \<le> MAX_RECORD"
      "view_append X (must_roll t p) ts p (vs, v) = (vs', v')" "tbl_inv X M vs' v' t' w'"
      "same_outside (t_dir t) w w'" "t_dir t' = t_dir t" "t_max_segment_bytes t' = t_max_segment_bytes t"
      "t_active_seq t' \<le> t_active_seq t + 1"
  | (codec) e where "r = Inl e" "c_ser C row = Inl e" "t' = t" "w' = w"
  | (large) p vs' v' where "r = Inl (Encode (RecordTooLarge (length p)))" "length p > MAX_RECORD"
      "c_ser C row = Inr p" "(vs', v') = (if must_roll t p then (vs @ [v], (view_head X v, [])) else (vs, v))"
      "tbl_inv X M vs' v' t' w'" "same_outside (t_dir t) w w'" "t_dir t' = t_dir t"
      "t_max_segment_bytes t' = t_max_segment_bytes t" "t_active_seq t' \<le> t_active_seq t + 1"
  | (fault) i where "r = Inl (Io i)" "\<not> quiet w" "same_outside (t_dir t) w w'" "t_dir t' = t_dir t"
      "t_max_segment_bytes t' = t_max_segment_bytes t"
proof (cases "c_ser C row")
  case (Inl e)
  then show ?thesis using run by (intro that(2)) (simp_all add: table_append_def)
next
  case (Inr p)
  let ?app = "seqE (on_active (seg_append X p ts)) (\<lambda>_. retE ())"
  have fields: "t_dir t2 = t_dir t1 \<and> t_max_segment_bytes t2 = t_max_segment_bytes t1 \<and>
      t_active_seq t2 = t_active_seq t1" if "t2 = t1\<lparr>t_active := t_active t2\<rparr>" for t1 t2 :: table
    by (subst (1 2 3) that) simp
  show ?thesis
  proof (cases "must_roll t p")
    case False
    then have run': "?app (t, w) = (r, (t', w'))" using run Inr by (simp add: table_append_def)
    from inv run' show ?thesis
    proof (cases rule: table_append_active_cases)
      case ok
      then show ?thesis using fields [OF ok(5)] Inr False
        by (intro that(1) [of p vs "(fst v, snd v @ [(ts, p)])"]) (simp_all add: view_append_def)
    next
      case large
      then show ?thesis using inv Inr False by (intro that(3) [of p vs v]) simp_all
    next
      case (fault i)
      then show ?thesis using fields [OF fault(4)] by (intro that(4)) simp_all
    qed
  next
    case True
    obtain r1 t1 w1 where m1: "table_roll X M (t, w) = (r1, (t1, w1))" by (metis surj_pair)
    from inv room m1 show ?thesis
    proof (cases rule: table_roll_cases)
      case (fault i)
      then have "r = Inl (Io i)" "t' = t1" "w' = w1"
        using run Inr True m1 by (simp_all add: table_append_def seqE_def)
      then show ?thesis using fault by (intro that(4)) simp_all
    next
      case roll: ok
      then have run': "?app (t1, w1) = (r, (t', w'))"
        using run Inr True m1 by (simp add: table_append_def seqE_def)
      have q: "\<not> quiet w1 \<Longrightarrow> \<not> quiet w" using roll(3) by (auto simp: same_outside_def)
      from roll(2) run' show ?thesis
      proof (cases rule: table_append_active_cases)
        case ok
        then show ?thesis using fields [OF ok(5)] Inr True roll same_outside_trans [OF roll(3)]
          by (intro that(1) [of p "vs @ [v]" "(view_head X v, [(ts, p)])"]) (simp_all add: view_append_def)
      next
        case large
        then show ?thesis using roll Inr True
          by (intro that(3) [of p "vs @ [v]" "(view_head X v, [])"]) simp_all
      next
        case (fault i)
        then show ?thesis using fields [OF fault(4)] roll same_outside_trans [OF roll(3)] q
          by (intro that(4)) simp_all
      qed
    qed
  qed
qed

end
