(* ===== verification/Scan.thy ===== *)
theory Scan
  imports Table
begin

text \<open>
  Scans over snapshot slices (\<open>TableScan\<close> and \<open>PositionedScan\<close> in
  \<open>crates/quipu-core/src/storage/table.rs\<close>). A call of \<open>next_row\<close> takes the disk as it is at
  that moment, so a scan can run while segments are appended to or unlinked.
\<close>

section \<open>Sequential scan\<close>

record table_scan =
  ts_slices :: "segment_slice list"
  ts_current :: "segment_reader option"
  ts_idx :: nat

definition scan_over :: "segment_slice list \<Rightarrow> table_scan" where
  "scan_over sls = \<lparr>ts_slices = sls, ts_current = None, ts_idx = 0\<rparr>"

definition io_vanished :: "error \<Rightarrow> bool" where
  "io_vanished e = (case e of Io i \<Rightarrow> io_kind_of i = KNotFound | _ \<Rightarrow> False)"

text \<open>A slice whose file has been unlinked since the snapshot is skipped.\<close>

function ts_next_row :: "ext \<Rightarrow> 'r codec \<Rightarrow> fs \<Rightarrow> table_scan \<Rightarrow> 'r option res \<times> table_scan" where
  "ts_next_row X C w s =
     (case ts_current s of
        None \<Rightarrow>
          if ts_idx s \<ge> length (ts_slices s) then (Inr None, s)
          else
            let sl = ts_slices s ! ts_idx s; s1 = s\<lparr>ts_idx := ts_idx s + 1\<rparr>
            in (case open_bounded (sl_path sl) (sl_bound sl) w of
                  Inr r \<Rightarrow> ts_next_row X C w (s1\<lparr>ts_current := Some r\<rparr>)
                | Inl e \<Rightarrow> if io_vanished e then ts_next_row X C w s1 else (Inl e, s1))
      | Some r \<Rightarrow>
          (case next_record X r of
             Inl e \<Rightarrow> (Inl e, s)
           | Inr (None, r') \<Rightarrow> ts_next_row X C w (s\<lparr>ts_current := None\<rparr>)
           | Inr (Some (ts, p), r') \<Rightarrow>
               (case c_de C p of
                  Inl e \<Rightarrow> (Inl e, s\<lparr>ts_current := Some r'\<rparr>)
                | Inr row \<Rightarrow> (Inr (Some row), s\<lparr>ts_current := Some r'\<rparr>))))"
  by pat_completeness auto
termination
  by (relation "measure (\<lambda>(X, C, w, s). 2 * (length (ts_slices s) - ts_idx s) +
        (if ts_current s = None then 0 else 1))") auto

declare ts_next_row.simps [simp del]

section \<open>Positional scan\<close>

type_synonym position = "nat \<times> nat" \<comment> \<open>segment sequence number, record index in the segment\<close>

text \<open>The derived \<open>Ord\<close> of \<open>Position\<close>.\<close>

definition pos_less :: "position \<Rightarrow> position \<Rightarrow> bool" where
  "pos_less p q \<longleftrightarrow> fst p < fst q \<or> (fst p = fst q \<and> snd p < snd q)"

record positioned_scan =
  ps_slices :: "segment_slice list"
  ps_slice_idx :: nat
  ps_desc :: bool
  ps_from :: u64
  ps_to :: u64
  ps_after :: "position option"
  ps_current :: "(nat \<times> nat \<times> segment_reader) option"
  ps_buffered :: "(position \<times> u64 \<times> bytes) list" \<comment> \<open>drained from the back\<close>
  ps_opened :: nat

definition positioned_new ::
  "segment_slice list \<Rightarrow> bool \<Rightarrow> u64 option \<Rightarrow> u64 option \<Rightarrow> position option \<Rightarrow> positioned_scan" where
  "positioned_new sls desc from to after =
     (let sorted = sort_key sl_seq sls
      in \<lparr>ps_slices = (if desc then rev sorted else sorted), ps_slice_idx = 0, ps_desc = desc,
          ps_from = (case from of None \<Rightarrow> 0 | Some a \<Rightarrow> a),
          ps_to = (case to of None \<Rightarrow> u64_MAX | Some b \<Rightarrow> b),
          ps_after = after, ps_current = None, ps_buffered = [], ps_opened = 0\<rparr>)"

definition ps_prune :: "positioned_scan \<Rightarrow> segment_slice \<Rightarrow> bool" where
  "ps_prune s sl \<longleftrightarrow> sl_max_ts sl < ps_from s \<or> sl_min_ts sl > ps_to s \<or>
     (case ps_after s of
        Some p \<Rightarrow> (\<not> ps_desc s \<and> sl_seq sl < fst p) \<or> (ps_desc s \<and> sl_seq sl > fst p)
      | None \<Rightarrow> False)"

definition ps_in_range :: "positioned_scan \<Rightarrow> u64 \<Rightarrow> bool" where
  "ps_in_range s ts \<longleftrightarrow> ps_from s \<le> ts \<and> ts \<le> ps_to s"

definition ps_past_cursor :: "positioned_scan \<Rightarrow> position \<Rightarrow> bool" where
  "ps_past_cursor s pos =
     (case ps_after s of
        None \<Rightarrow> True
      | Some p \<Rightarrow> if ps_desc s then pos_less pos p else pos_less p pos)"

function ps_next_slice :: "positioned_scan \<Rightarrow> segment_slice option \<times> positioned_scan" where
  "ps_next_slice s =
     (if ps_slice_idx s < length (ps_slices s) then
        let sl = ps_slices s ! ps_slice_idx s; s1 = s\<lparr>ps_slice_idx := ps_slice_idx s + 1\<rparr>
        in if ps_prune s1 sl then ps_next_slice s1
           else (Some sl, s1\<lparr>ps_opened := ps_opened s1 + 1\<rparr>)
      else (None, s))"
  by pat_completeness auto
termination
  by (relation "measure (\<lambda>s. length (ps_slices s) - ps_slice_idx s)") auto

declare ps_next_slice.simps [simp del]

lemma ps_next_slice_idx:
  "ps_next_slice s = (Some sl, s') \<Longrightarrow>
     ps_slices s' = ps_slices s \<and> ps_slice_idx s < ps_slice_idx s' \<and>
     ps_slice_idx s' \<le> length (ps_slices s) \<and> ps_current s' = ps_current s \<and>
     ps_buffered s' = ps_buffered s"
proof (induction s rule: ps_next_slice.induct)
  case (1 s)
  show ?case
  proof (cases "ps_slice_idx s < length (ps_slices s) \<and>
      ps_prune (s\<lparr>ps_slice_idx := ps_slice_idx s + 1\<rparr>) (ps_slices s ! ps_slice_idx s)")
    case True
    then have "ps_next_slice (s\<lparr>ps_slice_idx := ps_slice_idx s + 1\<rparr>) = (Some sl, s')"
      using 1(2) by (subst (asm) ps_next_slice.simps) simp
    with 1(1) True show ?thesis by fastforce
  next
    case False
    with 1(2) show ?thesis by (subst (asm) ps_next_slice.simps) (auto split: if_splits)
  qed
qed

definition reader_left :: "segment_reader \<Rightarrow> nat" where
  "reader_left r = rd_end r - rd_offset r"

lemma next_record_left:
  "next_record X r = Inr (Some t, r') \<Longrightarrow> reader_left r' < reader_left r"
  by (simp add: reader_left_def next_record_offset)

text \<open>Forward: one record at a time.\<close>

function ps_next_asc ::
  "ext \<Rightarrow> 'r codec \<Rightarrow> fs \<Rightarrow> positioned_scan \<Rightarrow> (position \<times> 'r) option res \<times> positioned_scan" where
  "ps_next_asc X C w s =
     (case ps_current s of
        None \<Rightarrow>
          (case ps_next_slice s of
             (None, s1) \<Rightarrow> (Inr None, s1)
           | (Some sl, s1) \<Rightarrow>
               (case open_bounded (sl_path sl) (sl_bound sl) w of
                  Inl e \<Rightarrow> (Inl e, s1)
                | Inr r \<Rightarrow> ps_next_asc X C w (s1\<lparr>ps_current := Some (sl_seq sl, 0, r)\<rparr>)))
      | Some (seq, idx, r) \<Rightarrow>
          (case next_record X r of
             Inl e \<Rightarrow> (Inl e, s)
           | Inr (None, r') \<Rightarrow> ps_next_asc X C w (s\<lparr>ps_current := None\<rparr>)
           | Inr (Some (ts, p), r') \<Rightarrow>
               let s1 = s\<lparr>ps_current := Some (seq, idx + 1, r')\<rparr>
               in if ps_in_range s ts \<and> ps_past_cursor s (seq, idx) then
                    (case c_de C p of
                       Inl e \<Rightarrow> (Inl e, s1)
                     | Inr row \<Rightarrow> (Inr (Some ((seq, idx), row)), s1))
                  else ps_next_asc X C w s1))"
  by pat_completeness auto
termination
  by (relation "(\<lambda>(X, C, w, s). length (ps_slices s) - ps_slice_idx s) <*mlex*>
        measure (\<lambda>(X, C, w, s). case ps_current s of None \<Rightarrow> 0 | Some (_, _, r) \<Rightarrow> 1 + reader_left r)")
    (auto simp: mlex_prod_def wf_mlex dest!: ps_next_slice_idx [OF sym] next_record_left)

declare ps_next_asc.simps [simp del]

text \<open>Backward: the matching rows of one segment are buffered and drained from the back.\<close>

function buffer_loop ::
  "ext \<Rightarrow> positioned_scan \<Rightarrow> nat \<Rightarrow> nat \<Rightarrow> segment_reader \<Rightarrow> unit res \<times> positioned_scan" where
  "buffer_loop X s seq idx r =
     (case next_record X r of
        Inl e \<Rightarrow> (Inl e, s)
      | Inr (None, r') \<Rightarrow> (Inr (), s)
      | Inr (Some (ts, p), r') \<Rightarrow>
          buffer_loop X
            (if ps_in_range s ts \<and> ps_past_cursor s (seq, idx)
             then s\<lparr>ps_buffered := ps_buffered s @ [((seq, idx), ts, p)]\<rparr> else s)
            seq (idx + 1) r')"
  by pat_completeness auto
termination
  by (relation "measure (\<lambda>(X, s, seq, idx, r). reader_left r)") (auto dest!: next_record_left)

declare buffer_loop.simps [simp del]

lemma buffer_loop_fields:
  "buffer_loop X s seq idx r = (res, s') \<Longrightarrow>
     ps_slices s' = ps_slices s \<and> ps_slice_idx s' = ps_slice_idx s"
proof (induction X s seq idx r rule: buffer_loop.induct)
  case (1 X s seq idx r)
  then show ?case
    by (subst (asm) (2) buffer_loop.simps)
      (auto split: sum.splits prod.splits option.splits if_splits)
qed

function ps_next_desc ::
  "ext \<Rightarrow> 'r codec \<Rightarrow> fs \<Rightarrow> positioned_scan \<Rightarrow> (position \<times> 'r) option res \<times> positioned_scan" where
  "ps_next_desc X C w s =
     (if ps_buffered s \<noteq> [] then
        let (pos, ts, p) = last (ps_buffered s); s1 = s\<lparr>ps_buffered := butlast (ps_buffered s)\<rparr>
        in (case c_de C p of Inl e \<Rightarrow> (Inl e, s1) | Inr row \<Rightarrow> (Inr (Some (pos, row)), s1))
      else
        (case ps_next_slice s of
           (None, s1) \<Rightarrow> (Inr None, s1)
         | (Some sl, s1) \<Rightarrow>
             (case open_bounded (sl_path sl) (sl_bound sl) w of
                Inl e \<Rightarrow> (Inl e, s1)
              | Inr r \<Rightarrow>
                  (case buffer_loop X s1 (sl_seq sl) 0 r of
                     (Inl e, s2) \<Rightarrow> (Inl e, s2)
                   | (Inr _, s2) \<Rightarrow> ps_next_desc X C w s2))))"
  by pat_completeness auto
termination
  by (relation "measure (\<lambda>(X, C, w, s). length (ps_slices s) - ps_slice_idx s)")
    (auto dest!: ps_next_slice_idx [OF sym] buffer_loop_fields [OF sym])

declare ps_next_desc.simps [simp del]

definition ps_next_row ::
  "ext \<Rightarrow> 'r codec \<Rightarrow> fs \<Rightarrow> positioned_scan \<Rightarrow> (position \<times> 'r) option res \<times> positioned_scan" where
  "ps_next_row X C w s = (if ps_desc s then ps_next_desc X C w s else ps_next_asc X C w s)"

end
