(* ===== verification/Scan_Facts.thy ===== *)
theory Scan_Facts
  imports Scan Table_Inv
begin

text \<open>
  The scans against a reference: a positional scan yields, one call at a time, exactly the rows
  that a filter over all numbered rows of its slices keeps, in ascending or descending order of
  position. Pruning whole segments by their time range or by the cursor loses nothing.
\<close>

section \<open>The reference\<close>

type_synonym numbered = "position \<times> row"

definition number_from :: "nat \<Rightarrow> nat \<Rightarrow> row list \<Rightarrow> numbered list" where
  "number_from seq k rs = zip (map (Pair seq) [k..<k + length rs]) rs"

definition ps_keep :: "positioned_scan \<Rightarrow> numbered \<Rightarrow> bool" where
  "ps_keep s e \<longleftrightarrow> ps_in_range s (fst (snd e)) \<and> ps_past_cursor s (fst e)"

definition slice_reads :: "ext \<Rightarrow> fs \<Rightarrow> segment_slice \<Rightarrow> row list \<Rightarrow> bool" where
  "slice_reads X w sl rs \<longleftrightarrow>
     (\<exists>r ts. open_bounded (sl_path sl) (sl_bound sl) w = Inr r \<and> rd_ready X r ts \<and> map row_of ts = rs)"

definition slice_ok :: "ext \<Rightarrow> fs \<Rightarrow> segment_slice \<Rightarrow> row list \<Rightarrow> bool" where
  "slice_ok X w sl rs \<longleftrightarrow> slice_reads X w sl rs \<and>
     (\<forall>r \<in> set rs. sl_min_ts sl \<le> fst r \<and> fst r \<le> sl_max_ts sl)"

text \<open>The rows of one segment in scan order, and of a list of segments.\<close>

definition slice_numbered :: "bool \<Rightarrow> segment_slice \<Rightarrow> row list \<Rightarrow> numbered list" where
  "slice_numbered desc sl rs =
     (if desc then rev (number_from (sl_seq sl) 0 rs) else number_from (sl_seq sl) 0 rs)"

definition slices_numbered :: "bool \<Rightarrow> segment_slice list \<Rightarrow> row list list \<Rightarrow> numbered list" where
  "slices_numbered desc sls vs = concat (map2 (slice_numbered desc) sls vs)"

lemma number_from_simps [simp]:
  "number_from seq k [] = []"
  "number_from seq k (r # rs) = ((seq, k), r) # number_from seq (Suc k) rs"
proof -
  show "number_from seq k [] = []" by (simp add: number_from_def)
  have "[k..<k + length (r # rs)] = k # [Suc k..<Suc k + length rs]"
    by (subst upt_conv_Cons) simp_all
  then show "number_from seq k (r # rs) = ((seq, k), r) # number_from seq (Suc k) rs"
    unfolding number_from_def by simp
qed

lemma slices_numbered_simps [simp]:
  "slices_numbered d [] vs = []" "slices_numbered d sls [] = []"
  "slices_numbered d (sl # sls) (v # vs) = slice_numbered d sl v @ slices_numbered d sls vs"
  by (simp_all add: slices_numbered_def)

lemma number_from_seq: "e \<in> set (number_from seq k rs) \<Longrightarrow> fst (fst e) = seq \<and> snd e \<in> set rs"
  by (induction rs arbitrary: k) auto

definition same_query :: "positioned_scan \<Rightarrow> positioned_scan \<Rightarrow> bool" where
  "same_query s s' \<longleftrightarrow> ps_desc s' = ps_desc s \<and> ps_from s' = ps_from s \<and> ps_to s' = ps_to s \<and>
     ps_after s' = ps_after s \<and> ps_slices s' = ps_slices s"

lemma same_query_refl [simp]: "same_query s s"
  by (simp add: same_query_def)

lemma same_query_trans: "same_query s s' \<Longrightarrow> same_query s' s'' \<Longrightarrow> same_query s s''"
  by (simp add: same_query_def)

lemma same_query_keep: "same_query s s' \<Longrightarrow> ps_keep s' = ps_keep s"
  by (rule ext) (simp add: same_query_def ps_keep_def ps_in_range_def ps_past_cursor_def split: option.splits)

lemma same_query_prune: "same_query s s' \<Longrightarrow> ps_prune s' = ps_prune s"
  by (rule ext) (auto simp: same_query_def ps_prune_def split: option.splits)

text \<open>A pruned segment has no row that the query keeps.\<close>

lemma prune_sound:
  assumes "ps_prune s sl" and "slice_ok X w sl rs"
  shows "filter (ps_keep s) (slice_numbered d sl rs) = []"
proof -
  have "\<not> ps_keep s e" if e: "e \<in> set (number_from (sl_seq sl) 0 rs)" for e
  proof -
    have seq: "fst (fst e) = sl_seq sl" and r: "snd e \<in> set rs" using number_from_seq [OF e] by auto
    have b: "sl_min_ts sl \<le> fst (snd e)" "fst (snd e) \<le> sl_max_ts sl"
      using assms(2) r by (auto simp: slice_ok_def)
    have "\<not> ps_in_range s (fst (snd e))" if "sl_max_ts sl < ps_from s \<or> sl_min_ts sl > ps_to s"
      using that b unfolding ps_in_range_def by (meson leD le_less_trans less_le_trans)
    moreover have "\<not> ps_past_cursor s (fst e)"
      if "case ps_after s of Some p \<Rightarrow> (\<not> ps_desc s \<and> sl_seq sl < fst p) \<or> (ps_desc s \<and> sl_seq sl > fst p)
          | None \<Rightarrow> False"
      using that seq by (auto simp: ps_past_cursor_def pos_less_def split: option.splits)
    ultimately show ?thesis using assms(1) unfolding ps_prune_def ps_keep_def by blast
  qed
  then show ?thesis by (simp add: filter_empty_conv slice_numbered_def)
qed

section \<open>Finding the next segment\<close>

definition slices_left :: "ext \<Rightarrow> fs \<Rightarrow> positioned_scan \<Rightarrow> row list list \<Rightarrow> bool" where
  "slices_left X w s vs \<longleftrightarrow> list_all2 (slice_ok X w) (drop (ps_slice_idx s) (ps_slices s)) vs"

definition left_numbered :: "positioned_scan \<Rightarrow> row list list \<Rightarrow> numbered list" where
  "left_numbered s vs = slices_numbered (ps_desc s) (drop (ps_slice_idx s) (ps_slices s)) vs"

lemma ps_next_slice_cases:
  assumes "slices_left X w s vs"
  obtains (done_) s' where "ps_next_slice s = (None, s')" "same_query s s'" "ps_current s' = ps_current s"
      "ps_buffered s' = ps_buffered s" "slices_left X w s' []" "filter (ps_keep s) (left_numbered s vs) = []"
  | (found) sl v vs' s' where "ps_next_slice s = (Some sl, s')" "same_query s s'" "ps_current s' = ps_current s"
      "ps_buffered s' = ps_buffered s" "slices_left X w s' vs'" "slice_ok X w sl v"
      "filter (ps_keep s) (left_numbered s vs) =
         filter (ps_keep s) (slice_numbered (ps_desc s) sl v @ left_numbered s' vs')"
  using assms
proof (induction s arbitrary: vs thesis rule: ps_next_slice.induct)
  case (1 s)
  show ?case
  proof (cases "ps_slice_idx s < length (ps_slices s)")
    case False
    then have "ps_next_slice s = (None, s)" by (subst ps_next_slice.simps) simp
    moreover have "vs = []" using 1(4) False by (simp add: slices_left_def)
    ultimately show ?thesis using 1(2) [of s] 1(4) by (simp add: left_numbered_def)
  next
    case True
    let ?sl = "ps_slices s ! ps_slice_idx s" and ?s1 = "s\<lparr>ps_slice_idx := ps_slice_idx s + 1\<rparr>"
    have drop: "drop (ps_slice_idx s) (ps_slices s) = ?sl # drop (Suc (ps_slice_idx s)) (ps_slices s)"
      using True by (simp add: Cons_nth_drop_Suc)
    then obtain v vs1 where vs: "vs = v # vs1" "slice_ok X w ?sl v" "slices_left X w ?s1 vs1"
      using 1(4) by (auto simp: slices_left_def list_all2_Cons1)
    have num: "left_numbered s vs = slice_numbered (ps_desc s) ?sl v @ left_numbered ?s1 vs1"
      using vs drop by (simp add: left_numbered_def)
    have q1: "same_query s ?s1" by (simp add: same_query_def)
    show ?thesis
    proof (cases "ps_prune ?s1 ?sl")
      case False
      let ?s2 = "?s1\<lparr>ps_opened := ps_opened ?s1 + 1\<rparr>"
      have "ps_next_slice s = (Some ?sl, ?s2)" using True False by (subst ps_next_slice.simps) simp
      moreover have "slices_left X w ?s2 vs1" using vs(3) by (simp add: slices_left_def)
      moreover have "left_numbered ?s2 vs1 = left_numbered ?s1 vs1" by (simp add: left_numbered_def)
      ultimately show ?thesis using 1(3) [of ?sl ?s2 vs1 v] num vs(2) by (simp add: same_query_def)
    next
      case prune: True
      then have step: "ps_next_slice s = ps_next_slice ?s1" using True by (subst ps_next_slice.simps) simp
      have "filter (ps_keep s) (slice_numbered (ps_desc s) ?sl v) = []"
        using prune_sound [OF _ vs(2)] prune same_query_prune [OF q1] by simp
      then have flt: "filter (ps_keep s) (left_numbered s vs) = filter (ps_keep ?s1) (left_numbered ?s1 vs1)"
        using num same_query_keep [OF q1] by simp
      show ?thesis
      proof (rule 1(1) [OF True refl refl prune _ _ vs(3)])
        fix s' assume "ps_next_slice ?s1 = (None, s')" "same_query ?s1 s'" "ps_current s' = ps_current ?s1"
          "ps_buffered s' = ps_buffered ?s1" "slices_left X w s' []"
          "filter (ps_keep ?s1) (left_numbered ?s1 vs1) = []"
        then show thesis using 1(2) [of s'] step flt same_query_trans [OF q1] by simp
      next
        fix sl v' vs' s' assume "ps_next_slice ?s1 = (Some sl, s')" "same_query ?s1 s'"
          "ps_current s' = ps_current ?s1" "ps_buffered s' = ps_buffered ?s1" "slices_left X w s' vs'"
          "slice_ok X w sl v'"
          "filter (ps_keep ?s1) (left_numbered ?s1 vs1) =
             filter (ps_keep ?s1) (slice_numbered (ps_desc ?s1) sl v' @ left_numbered s' vs')"
        then show thesis
          using 1(3) [of sl s' vs' v'] step flt same_query_trans [OF q1] same_query_keep [OF q1] by simp
      qed
    qed
  qed
qed

section \<open>Ascending order\<close>

text \<open>The rows still to be looked at: the rest of the open segment, then the other slices.\<close>

definition asc_todo :: "ext \<Rightarrow> fs \<Rightarrow> positioned_scan \<Rightarrow> numbered list \<Rightarrow> bool" where
  "asc_todo X w s todo \<longleftrightarrow> \<not> ps_desc s \<and> (\<exists>vs cur. slices_left X w s vs \<and> todo = cur @ left_numbered s vs \<and>
     (case ps_current s of
        None \<Rightarrow> cur = []
      | Some (seq, idx, r) \<Rightarrow> \<exists>ts. rd_ready X r ts \<and> cur = number_from seq idx (map row_of ts)))"

lemma asc_todoI:
  "\<not> ps_desc s \<Longrightarrow> slices_left X w s vs \<Longrightarrow> ps_current s = Some (seq, idx, r) \<Longrightarrow> rd_ready X r ts \<Longrightarrow>
     asc_todo X w s (number_from seq idx (map row_of ts) @ left_numbered s vs)"
  unfolding asc_todo_def by fastforce

definition decode_row :: "'r codec \<Rightarrow> numbered \<Rightarrow> (position \<times> 'r) option res" where
  "decode_row C e = rbind (c_de C (snd (snd e))) (\<lambda>row. Inr (Some (fst e, row)))"

text \<open>
  One call of \<open>nxt\<close>: with \<open>F\<close> the rows the query keeps of what is left, it returns the first of
  them (or the end) and leaves the others.
\<close>

definition row_result :: "'r codec \<Rightarrow> numbered list \<Rightarrow> (position \<times> 'r) option res" where
  "row_result C F = (case F of [] \<Rightarrow> Inr None | e # _ \<Rightarrow> decode_row C e)"

definition scan_step ::
  "'r codec \<Rightarrow> (positioned_scan \<Rightarrow> (position \<times> 'r) option res \<times> positioned_scan) \<Rightarrow>
     (positioned_scan \<Rightarrow> numbered list \<Rightarrow> bool) \<Rightarrow> positioned_scan \<Rightarrow> numbered list \<Rightarrow> bool" where
  "scan_step C nxt view s F \<longleftrightarrow> (\<exists>s' todo. same_query s s' \<and> view s' todo \<and>
     filter (ps_keep s) todo = tl F \<and> nxt s = (row_result C F, s'))"

lemma scan_step_trans:
  assumes "scan_step C nxt view s1 F" and "same_query s s1" and "nxt s = nxt s1"
  shows "scan_step C nxt view s F"
proof -
  from assms(1) obtain s' todo where "same_query s1 s'" "view s' todo"
    "filter (ps_keep s1) todo = tl F" "nxt s1 = (row_result C F, s')"
    unfolding scan_step_def by blast
  then show ?thesis
    using assms(2,3) same_query_trans [OF assms(2)] same_query_keep [OF assms(2)]
    unfolding scan_step_def by metis
qed

lemma scan_stepI:
  "same_query s s' \<Longrightarrow> view s' todo \<Longrightarrow> filter (ps_keep s) todo = tl F \<Longrightarrow>
     nxt s = (row_result C F, s') \<Longrightarrow> scan_step C nxt view s F"
  unfolding scan_step_def by blast

lemma ps_next_asc_step:
  assumes "asc_todo X w s todo"
  shows "scan_step C (ps_next_asc X C w) (asc_todo X w) s (filter (ps_keep s) todo)"
  using assms
proof (induction X C w s arbitrary: todo rule: ps_next_asc.induct)
  case (1 X C w s)
  from 1(4) obtain vs cur where asc: "\<not> ps_desc s" and left: "slices_left X w s vs" and todo: "todo = cur @ left_numbered s vs"
    and cur: "case ps_current s of None \<Rightarrow> cur = []
      | Some (seq, idx, r) \<Rightarrow> \<exists>ts. rd_ready X r ts \<and> cur = number_from seq idx (map row_of ts)"
    by (auto simp: asc_todo_def)
  show ?case
  proof (cases "ps_current s")
    case None
    from left show ?thesis
    proof (cases rule: ps_next_slice_cases)
      case (done_ s')
      then have "ps_next_asc X C w s = (Inr None, s')" using None by (subst ps_next_asc.simps) simp
      moreover have "asc_todo X w s' []"
        using done_ None asc by (auto simp: asc_todo_def left_numbered_def same_query_def intro!: exI [of _ "[]"])
      ultimately show ?thesis using done_ todo cur None
        by (intro scan_stepI [of s s' _ "[]"]) (simp_all add: row_result_def)
    next
      case (found sl v vs' s')
      then obtain r ts where r: "open_bounded (sl_path sl) (sl_bound sl) w = Inr r" "rd_ready X r ts"
        "map row_of ts = v" by (auto simp: slice_ok_def slice_reads_def)
      let ?s1 = "s'\<lparr>ps_current := Some (sl_seq sl, 0, r)\<rparr>"
      let ?todo = "number_from (sl_seq sl) 0 v @ left_numbered s' vs'"
      have q: "same_query s ?s1" using found(2) by (simp add: same_query_def)
      have "left_numbered ?s1 vs' = left_numbered s' vs'" "slices_left X w ?s1 vs'"
        using found(5) by (simp_all add: left_numbered_def slices_left_def)
      moreover have "\<not> ps_desc ?s1" using asc found(2) by (simp add: same_query_def)
      ultimately have "asc_todo X w ?s1 ?todo" using asc_todoI [of ?s1 X w vs' "sl_seq sl" 0 r ts] r by simp
      note IH = 1(1) [OF None found(1) [symmetric] refl r(1) this]
      have "ps_next_asc X C w s = ps_next_asc X C w ?s1"
        using None found(1) r(1) by (subst ps_next_asc.simps) simp
      moreover have "filter (ps_keep s) todo = filter (ps_keep ?s1) ?todo"
        using found(7) todo cur None asc same_query_keep [OF q] by (simp add: slice_numbered_def)
      ultimately show ?thesis using scan_step_trans [OF IH q] by simp
    qed
  next
    case (Some c)
    obtain seq idx r where c: "c = (seq, idx, r)" by (cases c)
    from cur Some c obtain ts where ts: "rd_ready X r ts" "cur = number_from seq idx (map row_of ts)" by auto
    show ?thesis
    proof (cases ts)
      case Nil
      let ?s1 = "s\<lparr>ps_current := None\<rparr>"
      have rec: "next_record X r = Inr (None, r)" using ts Nil next_record_Nil by simp
      have "asc_todo X w ?s1 todo"
        using left todo ts Nil asc by (auto simp: asc_todo_def slices_left_def left_numbered_def)
      note IH = 1(2) [OF Some c [symmetric] refl rec refl refl this]
      have q: "same_query s ?s1" by (simp add: same_query_def)
      have "ps_next_asc X C w s = ps_next_asc X C w ?s1"
        using Some c rec by (subst ps_next_asc.simps) simp
      then show ?thesis using scan_step_trans [OF IH q] same_query_keep [OF q] by simp
    next
      case (Cons t us)
      obtain a h p where t: "row_of t = (a, p)" by (metis surj_pair)
      let ?r' = "rd_advance X r t" and ?s1 = "s\<lparr>ps_current := Some (seq, idx + 1, rd_advance X r t)\<rparr>"
      let ?todo = "number_from seq (idx + 1) (map row_of us) @ left_numbered s vs"
      have rec: "next_record X r = Inr (Some (a, p), ?r')" using ts Cons next_record_Cons t by fastforce
      have "rd_ready X ?r' us" using ts Cons rd_ready_advance by blast
      moreover have "left_numbered ?s1 vs = left_numbered s vs" "slices_left X w ?s1 vs"
        using left by (simp_all add: left_numbered_def slices_left_def)
      ultimately have view: "asc_todo X w ?s1 ?todo" using asc_todoI [of ?s1 X w vs seq "idx + 1" ?r' us] asc by simp
      have todo': "todo = ((seq, idx), (a, p)) # ?todo" using todo ts Cons t by simp
      have q: "same_query s ?s1" by (simp add: same_query_def)
      show ?thesis
      proof (cases "ps_in_range s a \<and> ps_past_cursor s (seq, idx)")
        case True
        then have "ps_next_asc X C w s = (decode_row C ((seq, idx), (a, p)), ?s1)"
          using Some c rec by (subst ps_next_asc.simps) (simp add: decode_row_def rbind_def split: sum.split)
        moreover have "filter (ps_keep s) todo = ((seq, idx), (a, p)) # filter (ps_keep s) ?todo"
          using True todo' by (simp add: ps_keep_def)
        ultimately show ?thesis using q view
          by (intro scan_stepI [of s ?s1 _ ?todo]) (simp_all add: row_result_def)
      next
        case False
        have "ps_next_asc X C w s = ps_next_asc X C w ?s1"
          using Some c rec False by (subst ps_next_asc.simps) auto
        moreover note IH = 1(3) [OF Some c [symmetric] refl rec refl refl refl refl False view]
        moreover have "filter (ps_keep s) todo = filter (ps_keep ?s1) ?todo"
          using False todo' same_query_keep [OF q] by (auto simp: ps_keep_def)
        ultimately show ?thesis using scan_step_trans [OF IH q] by simp
      qed
    qed
  qed
qed

section \<open>Descending order\<close>

lemma buffer_loop_ready:
  "rd_ready X r ts \<Longrightarrow> buffer_loop X s seq idx r =
     (Inr (), s\<lparr>ps_buffered := ps_buffered s @ filter (ps_keep s) (number_from seq idx (map row_of ts))\<rparr>)"
proof (induction ts arbitrary: r s idx)
  case Nil
  then show ?case by (subst buffer_loop.simps) (simp add: next_record_Nil)
next
  case (Cons t ts)
  obtain a p where t: "row_of t = (a, p)" by (metis surj_pair)
  let ?s1 = "if ps_in_range s a \<and> ps_past_cursor s (seq, idx)
             then s\<lparr>ps_buffered := ps_buffered s @ [((seq, idx), a, p)]\<rparr> else s"
  have rec: "next_record X r = Inr (Some (a, p), rd_advance X r t)"
    using Cons.prems next_record_Cons t by fastforce
  have keep: "ps_keep ?s1 = ps_keep s" by (rule same_query_keep) (simp add: same_query_def)
  have "buffer_loop X s seq idx r = buffer_loop X ?s1 seq (idx + 1) (rd_advance X r t)"
    by (subst buffer_loop.simps) (simp add: rec)
  also have "\<dots> = (Inr (), ?s1\<lparr>ps_buffered := ps_buffered ?s1 @
      filter (ps_keep s) (number_from seq (idx + 1) (map row_of ts))\<rparr>)"
    using Cons.IH [OF rd_ready_advance [OF Cons.prems], of ?s1 "idx + 1"] keep by simp
  also have "\<dots> = (Inr (), s\<lparr>ps_buffered := ps_buffered s @
      filter (ps_keep s) (number_from seq idx (map row_of (t # ts)))\<rparr>)"
    using t by (simp add: ps_keep_def)
  finally show ?case .
qed

definition desc_todo :: "ext \<Rightarrow> fs \<Rightarrow> positioned_scan \<Rightarrow> numbered list \<Rightarrow> bool" where
  "desc_todo X w s todo \<longleftrightarrow> ps_desc s \<and> (\<exists>vs. slices_left X w s vs \<and>
     (\<forall>e \<in> set (ps_buffered s). ps_keep s e) \<and> todo = rev (ps_buffered s) @ left_numbered s vs)"

lemma filter_rev_buffered:
  "\<forall>e \<in> set b. P e \<Longrightarrow> filter P (rev b @ xs) = rev b @ filter P xs"
  by (simp add: filter_id_conv)

lemma ps_next_desc_step:
  assumes "desc_todo X w s todo"
  shows "scan_step C (ps_next_desc X C w) (desc_todo X w) s (filter (ps_keep s) todo)"
  using assms
proof (induction X C w s arbitrary: todo rule: ps_next_desc.induct)
  case (1 X C w s)
  from 1(2) obtain vs where desc: "ps_desc s" and left: "slices_left X w s vs"
    and kept: "\<forall>e \<in> set (ps_buffered s). ps_keep s e"
    and todo: "todo = rev (ps_buffered s) @ left_numbered s vs" by (auto simp: desc_todo_def)
  show ?case
  proof (cases "ps_buffered s = []")
    case False
    obtain b pos ts p where b: "ps_buffered s = b @ [(pos, ts, p)]"
      using False by (metis append_butlast_last_id surj_pair)
    let ?s1 = "s\<lparr>ps_buffered := b\<rparr>"
    have q: "same_query s ?s1" by (simp add: same_query_def)
    have "left_numbered ?s1 vs = left_numbered s vs" "slices_left X w ?s1 vs"
      using left by (simp_all add: left_numbered_def slices_left_def)
    then have "desc_todo X w ?s1 (rev b @ left_numbered s vs)"
      using kept b desc same_query_keep [OF q] by (auto simp: desc_todo_def)
    moreover have "ps_next_desc X C w s = (decode_row C (pos, ts, p), ?s1)"
      using b by (subst ps_next_desc.simps) (simp add: decode_row_def rbind_def split: sum.split)
    moreover have "filter (ps_keep s) todo = (pos, ts, p) # filter (ps_keep s) (rev b @ left_numbered s vs)"
      using todo b kept by simp
    ultimately show ?thesis using q
      by (intro scan_stepI [of s ?s1 _ "rev b @ left_numbered s vs"]) (simp_all add: row_result_def)
  next
    case True
    from left show ?thesis
    proof (cases rule: ps_next_slice_cases)
      case (done_ s')
      then have "ps_next_desc X C w s = (Inr None, s')" using True by (subst ps_next_desc.simps) simp
      moreover have "desc_todo X w s' []"
        using done_ True desc by (auto simp: desc_todo_def left_numbered_def same_query_def intro!: exI [of _ "[]"])
      ultimately show ?thesis using done_ todo True
        by (intro scan_stepI [of s s' _ "[]"]) (simp_all add: row_result_def)
    next
      case (found sl v vs' s')
      then obtain r ts where r: "open_bounded (sl_path sl) (sl_bound sl) w = Inr r" "rd_ready X r ts"
        "map row_of ts = v" by (auto simp: slice_ok_def slice_reads_def)
      let ?kept = "filter (ps_keep s) (number_from (sl_seq sl) 0 v)"
      let ?s2 = "s'\<lparr>ps_buffered := ?kept\<rparr>"
      let ?todo = "rev ?kept @ left_numbered s' vs'"
      have buf: "buffer_loop X s' (sl_seq sl) 0 r = (Inr (), ?s2)"
        using buffer_loop_ready [OF r(2), of s' "sl_seq sl" 0] r(3) True found(4) same_query_keep [OF found(2)]
        by simp
      have q: "same_query s ?s2" using found(2) by (simp add: same_query_def)
      have "left_numbered ?s2 vs' = left_numbered s' vs'" "slices_left X w ?s2 vs'"
        using found(5) by (simp_all add: left_numbered_def slices_left_def)
      moreover have "ps_desc ?s2" using desc found(2) by (simp add: same_query_def)
      ultimately have view: "desc_todo X w ?s2 ?todo"
        using same_query_keep [OF q] by (auto simp: desc_todo_def)
      have "ps_next_desc X C w s = ps_next_desc X C w ?s2"
        using True found(1) r(1) buf by (subst ps_next_desc.simps) simp
      moreover have "filter (ps_keep s) todo = filter (ps_keep ?s2) ?todo"
        using found(7) todo True desc same_query_keep [OF q]
        by (simp add: slice_numbered_def rev_filter)
      moreover have "\<not> ps_buffered s \<noteq> []" using True by simp
      note IH = 1(1) [OF this found(1) [symmetric] refl r(1) buf [symmetric] refl view]
      ultimately show ?thesis using scan_step_trans [OF IH q] by simp
    qed
  qed
qed

section \<open>Draining a scan\<close>

text \<open>\<open>n\<close> calls of \<open>next_row\<close>: the rows returned until the end, or the first error.\<close>

fun ps_take :: "ext \<Rightarrow> 'r codec \<Rightarrow> fs \<Rightarrow> nat \<Rightarrow> positioned_scan \<Rightarrow> (position \<times> 'r) list res \<times> positioned_scan" where
  "ps_take X C w 0 s = (Inr [], s)"
| "ps_take X C w (Suc n) s =
     (case ps_next_row X C w s of
        (Inl e, s') \<Rightarrow> (Inl e, s')
      | (Inr None, s') \<Rightarrow> (Inr [], s')
      | (Inr (Some x), s') \<Rightarrow>
          (case ps_take X C w n s' of
             (Inl e, s'') \<Rightarrow> (Inl e, s'')
           | (Inr xs, s'') \<Rightarrow> (Inr (x # xs), s'')))"

definition ps_todo :: "ext \<Rightarrow> fs \<Rightarrow> positioned_scan \<Rightarrow> numbered list \<Rightarrow> bool" where
  "ps_todo X w s todo \<longleftrightarrow> (if ps_desc s then desc_todo X w s todo else asc_todo X w s todo)"

lemma ps_next_row_step:
  assumes "ps_todo X w s todo"
  shows "scan_step C (ps_next_row X C w) (ps_todo X w) s (filter (ps_keep s) todo)"
proof -
  have "ps_desc s' = ps_desc s" if "same_query s s'" for s' using that by (simp add: same_query_def)
  then show ?thesis
    using ps_next_desc_step [of X w s todo C] ps_next_asc_step [of X w s todo C] assms
    unfolding scan_step_def ps_todo_def ps_next_row_def by (cases "ps_desc s") (simp; metis)+
qed

text \<open>Decoding every payload, or the first failure.\<close>

definition decode_rows :: "'r codec \<Rightarrow> numbered list \<Rightarrow> (position \<times> 'r) list res" where
  "decode_rows C es = collect_res (map (\<lambda>e. rbind (c_de C (snd (snd e))) (\<lambda>row. Inr (fst e, row))) es)"

lemma ps_take_todo:
  assumes "ps_todo X w s todo"
  shows "fst (ps_take X C w n s) = decode_rows C (take n (filter (ps_keep s) todo))"
  using assms
proof (induction n arbitrary: s todo)
  case 0
  then show ?case by (simp add: decode_rows_def)
next
  case (Suc n)
  from ps_next_row_step [OF Suc.prems, of C] obtain s' todo' where
    s': "same_query s s'" "ps_todo X w s' todo'" "filter (ps_keep s) todo' = tl (filter (ps_keep s) todo)"
    and nxt: "ps_next_row X C w s = (row_result C (filter (ps_keep s) todo), s')"
    unfolding scan_step_def by blast
  have IH: "fst (ps_take X C w n s') = decode_rows C (take n (filter (ps_keep s) todo'))"
    using Suc.IH [OF s'(2)] same_query_keep [OF s'(1)] by simp
  show ?case
  proof (cases "filter (ps_keep s) todo")
    case Nil
    then show ?thesis using nxt by (simp add: row_result_def decode_rows_def)
  next
    case (Cons e es)
    obtain r s'' where tk: "ps_take X C w n s' = (r, s'')" by (metis surj_pair)
    then have r: "r = decode_rows C (take n es)" using IH s'(3) Cons by simp
    show ?thesis
      using nxt Cons tk r
      by (cases "c_de C (snd (snd e))")
        (auto simp: row_result_def decode_row_def decode_rows_def split: sum.split)
  qed
qed

end
