(* ===== verification/Table_Read.thy ===== *)
theory Table_Read
  imports Table_Append Scan_Facts
begin

text \<open>
  Reading a table: the slices of a snapshot describe the rows of the view, sequential and
  positional scans return them, \<open>verify\<close> succeeds exactly when the segments are linked, the
  counters and the chain head are those of the view.
\<close>

section \<open>Snapshots\<close>

text \<open>
  What a disk must still hold for a snapshot of \<open>t\<close> to be readable: the sealed files, and the
  active file with whatever has been appended to it since.
\<close>

definition snap_ok :: "ext \<Rightarrow> seg_view list \<Rightarrow> seg_view \<Rightarrow> table \<Rightarrow> fs \<Rightarrow> bool" where
  "snap_ok X vs v t w \<longleftrightarrow>
     list_all2 (sealed_ok X w (t_dir t)) (t_sealed t) vs \<and>
     (\<exists>later. fget w (segment_path (t_dir t) (t_active_seq t)) = Some (seg_image X (fst v) (snd v) @ later))"

lemma slices_of_ok:
  assumes inv: "tbl_inv X M vs v t w" and snap: "snap_ok X vs v t w'" and fit: "files_fit w'"
  shows "list_all2 (slice_ok X w') (slices_of t) (map snd vs @ [snd v])"
proof -
  have X: "ext_ok X" using inv by (simp add: tbl_inv_def seg_inv_def)
  let ?sl = "\<lambda>(seq, s). \<lparr>sl_path = ss_path s, sl_bound = u64_max_nat, sl_seq = seq,
      sl_min_ts = m_min_timestamp (ss_meta s), sl_max_ts = m_max_timestamp (ss_meta s)\<rparr>"
  have sealed: "slice_ok X w' (?sl kv) (snd u)" if "sealed_ok X w' (t_dir t) kv u" for kv u
  proof -
    have c: "fget w' (segment_path (t_dir t) (fst kv)) = Some (seg_image X (fst u) (snd u) @ [])"
      and u: "length (fst u) = 32" "\<forall>r \<in> set (snd u). row_ok r"
      using that by (auto simp: sealed_ok_def)
    have "length (seg_image X (fst u) (snd u) @ []) \<le> u64_max_nat" using fit c by (auto simp: files_fit_def)
    then obtain r where "open_bounded (segment_path (t_dir t) (fst kv)) u64_max_nat w' = Inr r"
      "rd_ready X r (chain_recs X (fst u) (snd u))"
      using open_bounded_image [OF X u c, of u64_max_nat] by auto
    moreover have "\<forall>r \<in> set (snd u). m_min_timestamp (ss_meta (snd kv)) \<le> fst r \<and>
        fst r \<le> m_max_timestamp (ss_meta (snd kv))"
      using that by (auto simp: sealed_ok_def rows_meta_def foldl_min_le foldl_max_ge)
    ultimately show ?thesis using that
      by (auto simp: slice_ok_def slice_reads_def sealed_ok_def split: prod.split
          intro!: exI [of _ r] exI [of _ "chain_recs X (fst u) (snd u)"])
  qed
  have 1: "list_all2 (slice_ok X w') (map ?sl (t_sealed t)) (map snd vs)"
    using snap unfolding snap_ok_def list_all2_map1 list_all2_map2
    by (elim conjE list.rel_mono_strong) (rule sealed)
  have seg: "seg_inv X (fst v) (snd v) (t_active t) w" using inv by (rule tbl_inv_seg)
  obtain later where "fget w' (segment_path (t_dir t) (t_active_seq t)) = Some (seg_image X (fst v) (snd v) @ later)"
    using snap by (auto simp: snap_ok_def)
  then obtain r where "open_bounded (segment_path (t_dir t) (t_active_seq t)) (seg_len (t_active t)) w' = Inr r"
    "rd_ready X r (chain_recs X (fst v) (snd v))"
    using open_bounded_image [OF X, of "fst v" "snd v" w' _ later "seg_len (t_active t)"] seg
    by (auto simp: seg_inv_def seg_books_def)
  moreover have "\<forall>r \<in> set (snd v). seg_min_timestamp (t_active t) \<le> fst r \<and> fst r \<le> seg_max_timestamp (t_active t)"
    using seg by (auto simp: seg_inv_def seg_books_def foldl_min_le foldl_max_ge)
  ultimately have 2: "slice_ok X w' \<lparr>sl_path = seg_path (t_active t), sl_bound = seg_len (t_active t),
      sl_seq = t_active_seq t, sl_min_ts = seg_min_timestamp (t_active t),
      sl_max_ts = seg_max_timestamp (t_active t)\<rparr> (snd v)"
    using tbl_inv_path [OF inv]
    by (auto simp: slice_ok_def slice_reads_def intro!: exI [of _ r] exI [of _ "chain_recs X (fst v) (snd v)"])
  show ?thesis unfolding slices_of_def using list_all2_appendI [OF 1, of "[_]" "[snd v]"] 2 by simp
qed

lemma snap_ok_flushed:
  assumes "tbl_inv X M vs v t w"
    and "fget w (segment_path (t_dir t) (t_active_seq t)) = Some (seg_image X (fst v) (snd v))"
  shows "snap_ok X vs v t w"
  using assms by (auto simp: snap_ok_def tbl_inv_def)

section \<open>Positional scans of a snapshot\<close>

text \<open>All rows of a table with their positions, in append order.\<close>

definition table_numbered :: "table \<Rightarrow> seg_view list \<Rightarrow> seg_view \<Rightarrow> numbered list" where
  "table_numbered t vs v =
     concat (map2 (\<lambda>seq u. number_from seq 0 (snd u)) (map fst (t_sealed t) @ [t_active_seq t]) (vs @ [v]))"

lemma slices_of_seqs: "map sl_seq (slices_of t) = map fst (t_sealed t) @ [t_active_seq t]"
  by (simp add: slices_of_def case_prod_unfold comp_def)

lemma sorted_slices:
  assumes "tbl_inv X M vs v t w"
  shows "sort_key sl_seq (slices_of t) = slices_of t"
proof -
  have "sorted_wrt (<) (map fst (t_sealed t) @ [t_active_seq t])"
    using assms by (auto simp: tbl_inv_def bt_wf_def sorted_wrt_append)
  then have "sorted (map sl_seq (slices_of t))"
    unfolding slices_of_seqs by (simp add: strict_sorted_iff)
  then show ?thesis by (simp add: sort_key_id_if_sorted)
qed

lemma slices_numbered_seqs:
  assumes "length sls = length us"
  shows "slices_numbered False sls (map snd us) =
     concat (map2 (\<lambda>seq u. number_from seq 0 (snd u)) (map sl_seq sls) us)"
  using assms
proof (induction sls arbitrary: us)
  case (Cons sl sls)
  then show ?case by (cases us) (auto simp: slice_numbered_def)
qed simp

lemma slices_numbered_rev:
  "length sls = length us \<Longrightarrow>
     slices_numbered True (rev sls) (rev us) = rev (slices_numbered False sls us)"
proof (induction sls arbitrary: us)
  case (Cons sl sls)
  obtain u us' where us: "us = u # us'" using Cons.prems by (cases us) auto
  have app: "length xs = length ys \<Longrightarrow> slices_numbered True (xs @ [x]) (ys @ [y]) =
      slices_numbered True xs ys @ slice_numbered True x y" for xs ys x y
    by (simp add: slices_numbered_def)
  show ?case using Cons us app [of "rev sls" "rev us'" sl u] by (simp add: slice_numbered_def)
qed simp

definition query_order :: "bool \<Rightarrow> 'a list \<Rightarrow> 'a list" where
  "query_order desc xs = (if desc then rev xs else xs)"

text \<open>The rows a query asks for: time range and cursor, both taken literally.\<close>

definition asked ::
  "bool \<Rightarrow> u64 option \<Rightarrow> u64 option \<Rightarrow> position option \<Rightarrow> numbered \<Rightarrow> bool" where
  "asked desc from to after e \<longleftrightarrow>
     (case from of None \<Rightarrow> True | Some a \<Rightarrow> a \<le> fst (snd e)) \<and>
     (case to of None \<Rightarrow> True | Some b \<Rightarrow> fst (snd e) \<le> b) \<and>
     (case after of None \<Rightarrow> True
      | Some p \<Rightarrow> if desc then pos_less (fst e) p else pos_less p (fst e))"

lemma ps_keep_new: "ps_keep (positioned_new sls desc from to after) = asked desc from to after"
  by (rule ext)
    (auto simp: ps_keep_def asked_def positioned_new_def ps_in_range_def ps_past_cursor_def Let_def
      split: option.splits)

lemma positioned_scan_todo:
  assumes inv: "tbl_inv X M vs v t w" and snap: "snap_ok X vs v t w'" and fit: "files_fit w'"
  shows "ps_todo X w' (positioned_new (slices_of t) desc from to after)
           (query_order desc (table_numbered t vs v))"
proof -
  let ?s = "positioned_new (slices_of t) desc from to after" and ?us = "map snd vs @ [snd v]"
  note sorted = sorted_slices [OF inv]
  note ok = slices_of_ok [OF assms]
  have len: "length (slices_of t) = length (vs @ [v])" using list_all2_lengthD [OF ok] by simp
  have num: "table_numbered t vs v = slices_numbered False (slices_of t) ?us"
    using slices_numbered_seqs [OF len] unfolding table_numbered_def slices_of_seqs by simp
  show ?thesis
  proof (cases desc)
    case False
    have "slices_left X w' ?s ?us" "left_numbered ?s ?us = table_numbered t vs v"
      using ok False num by (simp_all add: slices_left_def left_numbered_def positioned_new_def Let_def sorted)
    then show ?thesis using False
      by (auto simp: ps_todo_def asc_todo_def query_order_def positioned_new_def Let_def)
  next
    case True
    have "list_all2 (slice_ok X w') (rev (slices_of t)) (rev ?us)"
      using ok by (simp only: list_all2_rev1 rev_rev_ident)
    then have "slices_left X w' ?s (rev ?us)" "left_numbered ?s (rev ?us) = rev (table_numbered t vs v)"
      using True num slices_numbered_rev [of "slices_of t" ?us] len
      by (simp_all add: slices_left_def left_numbered_def positioned_new_def Let_def sorted)
    then show ?thesis using True
      by (auto simp: ps_todo_def desc_todo_def query_order_def positioned_new_def Let_def
          intro!: exI [of _ "rev ?us"])
  qed
qed

section \<open>Sequential scans\<close>

text \<open>Reading a table to its end with \<open>next_row\<close>.\<close>

inductive ts_reads :: "ext \<Rightarrow> 'r codec \<Rightarrow> fs \<Rightarrow> table_scan \<Rightarrow> 'r list \<Rightarrow> bool"
  for X :: ext and C :: "'r codec" and w :: fs where
  end_of_scan: "ts_next_row X C w s = (Inr None, s') \<Longrightarrow> ts_reads X C w s []"
| a_row: "ts_next_row X C w s = (Inr (Some row), s') \<Longrightarrow> ts_reads X C w s' rows \<Longrightarrow>
    ts_reads X C w s (row # rows)"

definition ts_left :: "ext \<Rightarrow> fs \<Rightarrow> table_scan \<Rightarrow> row list \<Rightarrow> bool" where
  "ts_left X w s rows \<longleftrightarrow> (\<exists>vs cur. list_all2 (slice_reads X w) (drop (ts_idx s) (ts_slices s)) vs \<and>
     rows = cur @ concat vs \<and>
     (case ts_current s of None \<Rightarrow> cur = []
      | Some r \<Rightarrow> \<exists>ts. rd_ready X r ts \<and> cur = map row_of ts))"

lemma ts_next_row_step:
  assumes "ts_left X w s rows"
  shows "\<exists>s'. (case rows of
      [] \<Rightarrow> ts_next_row X C w s = (Inr None, s')
    | (ts, p) # rest \<Rightarrow> ts_left X w s' rest \<and>
        ts_next_row X C w s = (rbind (c_de C p) (\<lambda>row. Inr (Some row)), s'))"
  using assms
proof (induction X C w s arbitrary: rows rule: ts_next_row.induct)
  case (1 X C w s)
  from 1(4) obtain vs cur where vs: "list_all2 (slice_reads X w) (drop (ts_idx s) (ts_slices s)) vs"
    and rows: "rows = cur @ concat vs"
    and cur: "case ts_current s of None \<Rightarrow> cur = [] | Some r \<Rightarrow> \<exists>ts. rd_ready X r ts \<and> cur = map row_of ts"
    by (auto simp: ts_left_def)
  show ?case
  proof (cases "ts_current s")
    case None
    show ?thesis
    proof (cases "ts_idx s \<ge> length (ts_slices s)")
      case True
      then show ?thesis using None vs rows cur by (subst ts_next_row.simps) simp
    next
      case False
      let ?sl = "ts_slices s ! ts_idx s"
      have "drop (ts_idx s) (ts_slices s) = ?sl # drop (Suc (ts_idx s)) (ts_slices s)"
        using False by (simp add: Cons_nth_drop_Suc)
      then obtain u vs' where u: "vs = u # vs'" "slice_reads X w ?sl u"
        "list_all2 (slice_reads X w) (drop (Suc (ts_idx s)) (ts_slices s)) vs'"
        using vs by (auto simp: list_all2_Cons1)
      then obtain r ts where r: "open_bounded (sl_path ?sl) (sl_bound ?sl) w = Inr r" "rd_ready X r ts"
        "map row_of ts = u" by (auto simp: slice_reads_def)
      let ?s1 = "s\<lparr>ts_idx := ts_idx s + 1, ts_current := Some r\<rparr>"
      have "ts_next_row X C w s = ts_next_row X C w ?s1"
        using None False r by (subst ts_next_row.simps) simp
      moreover have "ts_left X w ?s1 rows" using u r rows cur None by (auto simp: ts_left_def)
      note IH = 1(2) [OF None False refl refl r(1) this]
      ultimately show ?thesis using IH by (simp only:)
    qed
  next
    case (Some r)
    then obtain ts where ts: "rd_ready X r ts" "cur = map row_of ts" using cur by auto
    show ?thesis
    proof (cases ts)
      case Nil
      let ?s1 = "s\<lparr>ts_current := None\<rparr>"
      have rec: "next_record X r = Inr (None, r)" using ts Nil next_record_Nil by simp
      have "ts_next_row X C w s = ts_next_row X C w ?s1" using Some rec by (subst ts_next_row.simps) simp
      moreover have "ts_left X w ?s1 rows" using vs rows ts Nil by (auto simp: ts_left_def)
      note IH = 1(3) [OF Some rec refl refl this]
      ultimately show ?thesis using IH by (simp only:)
    next
      case (Cons t us)
      obtain a p where t: "row_of t = (a, p)" by (metis surj_pair)
      let ?s1 = "s\<lparr>ts_current := Some (rd_advance X r t)\<rparr>"
      have rec: "next_record X r = Inr (Some (a, p), rd_advance X r t)"
        using ts Cons next_record_Cons t by fastforce
      have "rd_ready X (rd_advance X r t) us" using ts Cons rd_ready_advance by blast
      then have "ts_left X w ?s1 (map row_of us @ concat vs)" using vs by (auto simp: ts_left_def)
      moreover have "ts_next_row X C w s = (rbind (c_de C p) (\<lambda>row. Inr (Some row)), ?s1)"
        using Some rec by (subst ts_next_row.simps) (simp add: rbind_def split: sum.split)
      ultimately show ?thesis using rows ts Cons t by (auto intro!: exI [of _ ?s1])
    qed
  qed
qed

lemma ts_reads_left:
  assumes "ts_left X w s rows" and "\<And>r. r \<in> set rows \<Longrightarrow> c_de C (snd r) = Inr (f (snd r))"
  shows "ts_reads X C w s (map (f \<circ> snd) rows)"
  using assms
proof (induction rows arbitrary: s)
  case Nil
  then show ?case using ts_next_row_step [OF Nil.prems(1), of C] by (auto intro: end_of_scan)
next
  case (Cons r rows)
  obtain a p where r: "r = (a, p)" by (cases r)
  from ts_next_row_step [OF Cons.prems(1), of C] r obtain s' where s': "ts_left X w s' rows"
    "ts_next_row X C w s = (rbind (c_de C p) (\<lambda>row. Inr (Some row)), s')" by auto
  have "c_de C p = Inr (f p)" using Cons.prems(2) [of r] r by simp
  then have "ts_next_row X C w s = (Inr (Some (f p)), s')" using s'(2) by simp
  moreover have "ts_reads X C w s' (map (f \<circ> snd) rows)" using Cons.IH [OF s'(1)] Cons.prems(2) by (simp add: comp_def)
  ultimately have "ts_reads X C w s (f p # map (f \<circ> snd) rows)" by (rule a_row)
  then show ?case using r by (simp add: comp_def)
qed

lemma scan_over_left:
  assumes "tbl_inv X M vs v t w" and "snap_ok X vs v t w'" and "files_fit w'"
  shows "ts_left X w' (scan_over (slices_of t)) (view_rows (vs @ [v]))"
proof -
  have "list_all2 (slice_reads X w') (slices_of t) (map snd vs @ [snd v])"
    using slices_of_ok [OF assms] by (rule list_all2_mono) (simp add: slice_ok_def)
  then show ?thesis by (auto simp: ts_left_def scan_over_def view_rows_def)
qed

section \<open>Continuing from a cursor\<close>

lemma pos_less_irrefl: "\<not> pos_less p p"
  by (simp add: pos_less_def)

lemma pos_less_asym: "pos_less p q \<Longrightarrow> \<not> pos_less q p"
  by (auto simp: pos_less_def)

lemma pos_less_trans: "pos_less p q \<Longrightarrow> pos_less q r \<Longrightarrow> pos_less p r"
  by (auto simp: pos_less_def)

lemma filter_beyond:
  assumes "sorted_wrt R F" and "\<And>a b. R a b \<Longrightarrow> \<not> R b a" and "take n F \<noteq> []"
  shows "filter (R (last (take n F))) F = drop n F"
proof -
  let ?p = "last (take n F)"
  obtain us where us: "take n F = us @ [?p]" using assms(3) by (metis append_butlast_last_id)
  then have F: "F = us @ ?p # drop n F" by (metis append_Cons append_Nil append_assoc append_take_drop_id)
  then have "sorted_wrt R (us @ ?p # drop n F)" using assms(1) by simp
  then have "\<forall>u \<in> set us. R u ?p" and "\<forall>d \<in> set (drop n F). R ?p d" by (auto simp: sorted_wrt_append)
  then have "filter (R ?p) (us @ ?p # drop n F) = drop n F"
    using assms(2) by (auto simp: filter_empty_conv filter_id_conv)
  then show ?thesis using F by simp
qed

lemma number_from_sorted: "sorted_wrt (\<lambda>a b. pos_less (fst a) (fst b)) (number_from seq k rs)"
proof (induction rs arbitrary: k)
  case Nil
  then show ?case by simp
next
  case (Cons r rs)
  have "fst (fst e) = seq \<and> k < snd (fst e)" if "e \<in> set (number_from seq (Suc k) rs)" for e
    using that
  proof (induction rs arbitrary: k)
    case (Cons r rs)
    then show ?case using Suc_lessD by fastforce
  qed simp
  then show ?case using Cons by (auto simp: pos_less_def)
qed

lemma table_numbered_sorted:
  assumes "tbl_inv X M vs v t w"
  shows "sorted_wrt (\<lambda>a b. pos_less (fst a) (fst b)) (table_numbered t vs v)"
proof -
  have gen: "sorted_wrt (\<lambda>a b. pos_less (fst a) (fst b)) (concat (map2 (\<lambda>seq u. number_from seq 0 (snd u)) seqs us))"
    if "length seqs = length us" "sorted_wrt (<) seqs" for seqs and us :: "seg_view list"
    using that
  proof (induction seqs us rule: list_induct2)
    case (Cons seq seqs u us)
    have "fst (fst e) \<in> set seqs" if "e \<in> set (concat (map2 (\<lambda>seq u. number_from seq 0 (snd u)) seqs us))" for e
      using that by (auto dest!: number_from_seq set_zip_leftD)
    moreover have "\<forall>s \<in> set seqs. seq < s" using Cons.prems by simp
    moreover have "\<forall>a \<in> set (number_from seq 0 (snd u)). fst (fst a) = seq" using number_from_seq by blast
    ultimately show ?case using Cons number_from_sorted
      by (auto simp: sorted_wrt_append pos_less_def)
  qed simp
  have "list_all2 (sealed_ok X w (t_dir t)) (t_sealed t) vs" using assms by (simp add: tbl_inv_def)
  then have "length (map fst (t_sealed t) @ [t_active_seq t]) = length (vs @ [v])"
    by (simp add: list_all2_lengthD)
  moreover have "sorted_wrt (<) (map fst (t_sealed t) @ [t_active_seq t])"
    using assms by (auto simp: tbl_inv_def bt_wf_def sorted_wrt_append)
  ultimately show ?thesis unfolding table_numbered_def by (rule gen)
qed

text \<open>The rows after a page are those beyond the position of its last row.\<close>

lemma asked_next_page:
  assumes inv: "tbl_inv X M vs v t w"
    and page: "page = take n (filter (asked desc from to after) (query_order desc (table_numbered t vs v)))"
    and ne: "page \<noteq> []"
  shows "filter (asked desc from to (Some (fst (last page)))) (query_order desc (table_numbered t vs v)) =
     drop n (filter (asked desc from to after) (query_order desc (table_numbered t vs v)))"
proof -
  let ?xs = "query_order desc (table_numbered t vs v)" and ?Q = "asked desc from to after"
  let ?R = "\<lambda>a b :: numbered. if desc then pos_less (fst b) (fst a) else pos_less (fst a) (fst b)"
  let ?p = "last page"
  have "sorted_wrt ?R ?xs"
    using table_numbered_sorted [OF inv] by (simp add: query_order_def sorted_wrt_rev)
  then have sorted: "sorted_wrt ?R (filter ?Q ?xs)" by (rule sorted_wrt_filter)
  have "filter (?R ?p) (filter ?Q ?xs) = drop n (filter ?Q ?xs)"
    unfolding page
    by (rule filter_beyond [OF sorted])
      (use ne page in \<open>auto dest: pos_less_asym split: if_splits\<close>)
  moreover have "?p \<in> set (filter ?Q ?xs)"
    using ne page by (metis in_set_takeD last_in_set)
  then have "?Q ?p" by simp
  then have Q: "asked desc from to (Some (fst ?p)) e \<longleftrightarrow> ?Q e \<and> ?R ?p e" for e
    by (auto simp: asked_def split: option.splits if_splits intro: pos_less_trans)
  have "filter (asked desc from to (Some (fst ?p))) ?xs = filter (?R ?p) (filter ?Q ?xs)"
    unfolding filter_filter by (rule filter_cong [OF refl Q])
  ultimately show ?thesis by simp
qed

end
