(* ===== verification/Table_Verify.thy ===== *)
theory Table_Verify
  imports Table_Read
begin

text \<open>
  Verification of a table's hash chain, chain search, counters, retention by whole segments and
  reopening after a crash.
\<close>

section \<open>Verification\<close>

definition paths_hold :: "ext \<Rightarrow> fs \<Rightarrow> path list \<Rightarrow> seg_view list \<Rightarrow> bool" where
  "paths_hold X w ps vs \<longleftrightarrow> list_all2 (\<lambda>p v. length (fst v) = 32 \<and> (\<forall>r \<in> set (snd v). row_ok r) \<and>
     fget w p = Some (seg_image X (fst v) (snd v))) ps vs"

lemma table_paths_hold:
  assumes inv: "tbl_inv X M vs v t w"
    and c: "fget w (segment_path (t_dir t) (t_active_seq t)) = Some (seg_image X (fst v) (snd v))"
  shows "paths_hold X w (table_paths t) (vs @ [v])"
proof -
  have "list_all2 (sealed_ok X w (t_dir t)) (t_sealed t) vs" using inv by (simp add: tbl_inv_def)
  then have "paths_hold X w (map (ss_path \<circ> snd) (t_sealed t)) vs"
    unfolding paths_hold_def list_all2_map1
    by (rule list.rel_mono_strong) (simp add: sealed_ok_def)
  moreover have "paths_hold X w [seg_path (t_active t)] [v]"
    using c tbl_inv_path [OF inv] tbl_inv_seg [OF inv] by (simp add: paths_hold_def seg_inv_def)
  ultimately show ?thesis
    unfolding table_paths_def paths_hold_def by (rule list_all2_appendI)
qed

text \<open>The first file whose seed is not the previous file's head.\<close>

fun bad_link :: "ext \<Rightarrow> chain_hash option \<Rightarrow> path list \<Rightarrow> seg_view list \<Rightarrow> path option" where
  "bad_link X prev (p # ps) (v # vs) =
     (if prev \<noteq> None \<and> prev \<noteq> Some (fst v) then Some p else bad_link X (Some (view_head X v)) ps vs)"
| "bad_link X prev _ _ = None"

lemma verify_paths_hold:
  assumes "ext_ok X" and "files_fit w" and "paths_hold X w ps vs"
  shows "verify_paths X prev ps w =
     (case bad_link X prev ps vs of None \<Rightarrow> Inr () | Some p \<Rightarrow> Inl (Corrupt p 0 SeedMismatch))"
  using assms(3)
proof (induction ps arbitrary: prev vs)
  case Nil
  then show ?case by simp
next
  case (Cons p ps)
  then obtain v vs' where v: "vs = v # vs'" "length (fst v) = 32" "\<forall>r \<in> set (snd v). row_ok r"
    "fget w p = Some (seg_image X (fst v) (snd v) @ [])" "paths_hold X w ps vs'"
    by (auto simp: paths_hold_def list_all2_Cons1)
  then have "verify_chain X p w = Inr (fst v, view_head X v)"
    using verify_chain_image [OF assms(1) v(2,3) short_tail_Nil v(4)] assms(2)
    by (simp add: files_fit_def view_head_def)
  then show ?case using Cons.IH [OF v(5)] v(1) by simp
qed

lemma bad_link_linked:
  "length ps = length vs \<Longrightarrow> bad_link X prev ps vs = None \<longleftrightarrow>
     linked X vs \<and> (prev = None \<or> vs = [] \<or> prev = Some (fst (hd vs)))"
proof (induction X prev ps vs rule: bad_link.induct)
  case (1 X prev p ps v vs)
  then show ?case by (cases vs) auto
qed auto

lemma table_verify_cases:
  assumes inv: "tbl_inv X M vs v t w" and fit: "files_fit w'"
    and run: "table_verify X (t, w) = (r, (t', w'))"
  obtains (ok) "r = Inr ()" "linked X (vs @ [v])" "tbl_inv X M vs v t' w'"
  | (unlinked) p where "r = Inl (Corrupt p 0 SeedMismatch)" "\<not> linked X (vs @ [v])" "tbl_inv X M vs v t' w'"
  | (fault) i where "r = Inl (Io i)" "\<not> quiet w" "tbl_inv X M vs v t' w'"
proof -
  obtain r1 t1 w1 where m1: "table_flush (t, w) = (r1, (t1, w1))" by (metis surj_pair)
  from inv m1 show ?thesis
  proof (cases rule: table_flush_cases)
    case (fault i)
    then have "r = Inl (Io i)" "t' = t1" "w' = w1"
      using run m1 by (simp_all add: table_verify_def seqE_def)
    then show ?thesis using fault by (intro that(3)) simp_all
  next
    case ok
    have "ext_ok X" using inv by (simp add: tbl_inv_def seg_inv_def)
    moreover have "w' = w1" using run m1 ok(1) by (auto simp: table_verify_def seqE_def)
    then have "files_fit w1" using fit by simp
    moreover have dir: "t_dir t1 = t_dir t" "t_active_seq t1 = t_active_seq t"
      using arg_cong [OF ok(4), of t_dir] arg_cong [OF ok(4), of t_active_seq] by simp_all
    then have hold: "paths_hold X w1 (table_paths t1) (vs @ [v])"
      using table_paths_hold [OF ok(2)] ok(7) by simp
    ultimately have "verify_paths X None (table_paths t1) w1 =
        (case bad_link X None (table_paths t1) (vs @ [v]) of None \<Rightarrow> Inr ()
         | Some p \<Rightarrow> Inl (Corrupt p 0 SeedMismatch))" by (intro verify_paths_hold)
    moreover have "length (table_paths t1) = length (vs @ [v])"
      using hold by (simp only: paths_hold_def list_all2_lengthD)
    note link = bad_link_linked [OF this, of X None]
    moreover have "(verify_paths X None (table_paths t1) w1, (t1, w1)) = (r, (t', w'))"
      using run m1 ok(1) by (auto simp: table_verify_def seqE_def)
    ultimately show ?thesis using ok(2) that by (auto split: option.splits)
  qed
qed

section \<open>Counters and heads\<close>

lemma record_count_view:
  assumes "tbl_inv X M vs v t w"
  shows "record_count t = length (view_rows (vs @ [v]))"
proof -
  have "list_all2 (sealed_ok X w (t_dir t)) (t_sealed t) vs" using assms by (simp add: tbl_inv_def)
  then have "sum_list (map (m_records \<circ> ss_meta \<circ> snd) (t_sealed t)) = length (view_rows vs)"
    by (induction rule: list_all2_induct) (auto simp: sealed_ok_def rows_meta_def view_rows_def)
  moreover have "seg_records (t_active t) = length (snd v)"
    using tbl_inv_seg [OF assms] by (simp add: seg_inv_def seg_books_def)
  ultimately show ?thesis by (simp add: record_count_def)
qed

lemma chain_head_view: "tbl_inv X M vs v t w \<Longrightarrow> chain_head t = view_head X v"
  by (drule tbl_inv_seg) (simp add: seg_inv_def seg_books_def chain_head_def view_head_def)

text \<open>In a linked table the head is the chain over all retained payloads from the oldest seed.\<close>

lemma linked_head:
  "linked X (v # vs) \<Longrightarrow> view_head X (last (v # vs)) = chain_of X (fst v) (map snd (view_rows (v # vs)))"
proof (induction vs arbitrary: v)
  case Nil
  then show ?case by (simp add: view_head_def view_rows_def)
next
  case (Cons u us)
  then show ?case by (simp add: view_head_def view_rows_def)
qed

definition chain_values :: "ext \<Rightarrow> seg_view \<Rightarrow> chain_hash set" where
  "chain_values X v = {chain_of X (fst v) (map snd (take n (snd v))) | n. n \<le> length (snd v)}"

lemma contains_paths_hold:
  assumes "ext_ok X" and "files_fit w" and "paths_hold X w ps vs"
  shows "contains_paths X h ps w = Inr (\<exists>v \<in> set vs. h \<in> chain_values X v)"
  using assms(3)
proof (induction ps arbitrary: vs)
  case Nil
  then show ?case by (simp add: paths_hold_def)
next
  case (Cons p ps)
  then obtain v vs' where v: "vs = v # vs'" "length (fst v) = 32" "\<forall>r \<in> set (snd v). row_ok r"
    "fget w p = Some (seg_image X (fst v) (snd v) @ [])" "paths_hold X w ps vs'"
    by (auto simp: paths_hold_def list_all2_Cons1)
  have fit: "length (seg_image X (fst v) (snd v) @ []) \<le> u64_max_nat"
    using assms(2) v(4) unfolding files_fit_def by blast
  have "chain_contains X p h w = Inr (h \<in> chain_values X v)"
    using chain_contains_image [OF assms(1) v(2,3) short_tail_Nil v(4) fit]
    by (auto simp: chain_values_def)
  then show ?case using Cons.IH [OF v(5)] v(1) by simp
qed

section \<open>Retention\<close>

lemma fs_remove_file_cases:
  assumes "fs_remove_file p w = (r, w')" and "fget w p \<noteq> None"
  obtains (ok) "r = Inr ()" "same_but p w w'" "fget w' p = None"
  | (fault) i where "r = Inl (Io i)" "\<not> quiet w" "same_but p w w'" "fget w' p = fget w p"
proof -
  have run: "fs_op (fdel p) w = (r, w')" using assms by (auto simp: fs_remove_file_def)
  have del: "same_but p w1 (fdel p w1)" for w1 by (simp add: same_but_def)
  from run show ?thesis
  proof (cases rule: fs_op_cases [where p = p])
    case (ok w1)
    then show ?thesis using that(1) same_but_trans [OF _ del] by simp
  next
    case (fault i)
    then show ?thesis using that(2) by simp
  qed
qed

lemma fs_remove_file_same: "same_but p w (snd (fs_remove_file p w))"
proof (cases "fget w p")
  case None
  then show ?thesis by (simp add: fs_remove_file_def)
next
  case (Some c)
  then have ne: "fget w p \<noteq> None" by simp
  obtain r w' where m: "fs_remove_file p w = (r, w')" by (metis surj_pair)
  from m ne show ?thesis using m by (cases rule: fs_remove_file_cases) auto
qed

text \<open>Forgetting one sealed segment: its entry, its file and perhaps its sidecar.\<close>

lemma tbl_inv_forget:
  assumes inv: "tbl_inv X M (us @ u # vs) v t w"
    and t: "t_sealed t = as @ a # bs" "length as = length us"
    and w: "same_but (segment_path (t_dir t) (fst a)) w w1" "fget w1 (segment_path (t_dir t) (fst a)) = None"
      "w' = w1 \<or> same_but (meta_path (t_dir t) (fst a)) w1 w'"
  shows "tbl_inv X M (us @ vs) v (t\<lparr>t_sealed := as @ bs\<rparr>) w'"
proof -
  let ?d = "t_dir t"
  have eq: "fget w' q = fget w q" if "q \<noteq> segment_path ?d (fst a)" "q \<noteq> meta_path ?d (fst a)" for q
    using w(1,3) that unfolding same_but_def by metis
  have bt: "bt_wf (as @ a # bs)" using inv unfolding tbl_inv_def t(1) by blast
  have "distinct (map fst as @ fst a # map fst bs)" using bt_wf_distinct [OF bt] by simp
  then have "fst a \<notin> fst ` set (as @ bs)" by auto
  then have keys: "fst kv \<noteq> fst a" if "kv \<in> set (as @ bs)" for kv
    using that by (metis imageI)
  have lt_all: "\<forall>kv \<in> set (as @ a # bs). fst kv < t_active_seq t"
    and I: "meta_codec_ok M" "seg_inv X (fst v) (snd v) (t_active t) w" "dir_clean t w" "metas_ok M t w"
      "seg_path (t_active t) = segment_path ?d (t_active_seq t)"
    using inv unfolding tbl_inv_def t(1) by blast+
  then have neq: "t_active_seq t \<noteq> fst a" by auto
  have all: "list_all2 (sealed_ok X w ?d) (as @ bs) (us @ vs)"
    using inv t by (simp add: tbl_inv_def list_all2_append)
  then have "list_all2 (sealed_ok X w' ?d) (as @ bs) (us @ vs)"
    by (rule list.rel_mono_strong) (use eq keys in \<open>auto simp: sealed_ok_def\<close>)
  moreover have "bt_wf (as @ bs)" using bt by (simp add: bt_wf_append bt_wf_Cons)
  moreover have "\<forall>kv \<in> set (as @ bs). fst kv < t_active_seq t" using lt_all by simp
  moreover have "seg_inv X (fst v) (snd v) (t_active t) w'"
    using I eq neq by (simp add: seg_inv_def holds_def)
  moreover have "dir_clean (t\<lparr>t_sealed := as @ bs\<rparr>) w'"
    unfolding dir_clean_def
  proof (intro allI impI)
    fix x n assume x: "fget w' (t_dir (t\<lparr>t_sealed := as @ bs\<rparr>) @ [x]) \<noteq> None" "parse_segment_name x = Some n"
    have nm: "?d @ [x] \<noteq> meta_path ?d (fst a)" using x(2) by (auto simp: meta_path_def)
    have gone: "fget w' (segment_path ?d (fst a)) = None"
      using w(2,3) segment_meta_path unfolding same_but_def by metis
    then have ns: "?d @ [x] \<noteq> segment_path ?d (fst a)" using x(1) by auto
    have "fget w (?d @ [x]) \<noteq> None" using x(1) eq nm ns by simp
    then have "x = segment_name n \<and> (n = t_active_seq t \<or> n \<in> fst ` set (t_sealed t))"
      using I(3) x(2) by (simp add: dir_clean_def)
    then show "x = segment_name n \<and> (n = t_active_seq (t\<lparr>t_sealed := as @ bs\<rparr>) \<or>
        n \<in> fst ` set (t_sealed (t\<lparr>t_sealed := as @ bs\<rparr>)))"
      using ns t by (auto simp: segment_path_def)
  qed
  moreover have "metas_ok M (t\<lparr>t_sealed := as @ bs\<rparr>) w'"
  proof -
    have rd: "read_meta M (meta_path ?d n) w' = read_meta M (meta_path ?d n) w" if "n \<noteq> fst a" for n
      using that eq by (simp add: read_meta_def)
    have old: "metas_ok M t w" and lt: "fst a < t_active_seq t" using I lt_all by simp_all
    have "\<forall>kv \<in> set (as @ bs). read_meta M (meta_path ?d (fst kv)) w' \<in> {None, Some (ss_meta (snd kv))}"
      using old t rd keys by (auto simp: metas_ok_def)
    moreover have "\<forall>n \<ge> t_active_seq t. read_meta M (meta_path ?d n) w' = None"
      using old rd lt by (auto simp: metas_ok_def)
    ultimately show ?thesis by (simp add: metas_ok_def)
  qed
  ultimately show ?thesis using I unfolding tbl_inv_def by simp
qed

lemma purge_oldest_sealed_cases:
  assumes inv: "tbl_inv X M vs v t w" and run: "purge_oldest_sealed (t, w) = (r, (t', w'))"
  obtains (none) "r = Inr None" "vs = []" "t' = t" "w' = w"
  | (ok) u us where "vs = u # us" "r = Inr (Some (length (seg_image X (fst u) (snd u))))"
      "tbl_inv X M us v t' w'" "same_outside (t_dir t) w w'" "t_sealed t' = tl (t_sealed t)"
  | (fault) i where "r = Inl (Io i)" "\<not> quiet w" "same_outside (t_dir t) w w'"
proof (cases "t_sealed t")
  case Nil
  then show ?thesis using run inv that(1) by (auto simp: purge_oldest_sealed_def tbl_inv_def)
next
  case (Cons a rest)
  obtain u us where vs: "vs = u # us" and a: "sealed_ok X w (t_dir t) a u"
    using inv Cons by (auto simp: tbl_inv_def list_all2_Cons1)
  then have p: "ss_path (snd a) = segment_path (t_dir t) (fst a)"
    and c: "fget w (segment_path (t_dir t) (fst a)) = Some (seg_image X (fst u) (snd u))"
    by (simp_all add: sealed_ok_def)
  obtain r1 w1 where m: "fs_remove_file (segment_path (t_dir t) (fst a)) w = (r1, w1)" by (metis surj_pair)
  have run': "(r, (t', w')) = (case r1 of Inl e \<Rightarrow> (Inl e, (t\<lparr>t_sealed := rest\<rparr>, w1))
      | Inr _ \<Rightarrow> (Inr (Some (length (seg_image X (fst u) (snd u)))), (t\<lparr>t_sealed := rest\<rparr>, w1)))"
  proof -
    have "purge_oldest_sealed (t, w) =
        seqE (on_disk (fs_remove_file (segment_path (t_dir t) (fst a))))
          (\<lambda>_. retE (Some (length (seg_image X (fst u) (snd u))))) (t\<lparr>t_sealed := rest\<rparr>, w)"
      by (cases a) (use p c in \<open>simp add: purge_oldest_sealed_def Cons\<close>)
    then show ?thesis using run m by (cases r1) (simp_all add: on_disk_def seqE_def)
  qed
  have "fget w (segment_path (t_dir t) (fst a)) \<noteq> None" using c by simp
  with m show ?thesis
  proof (cases rule: fs_remove_file_cases)
    case ok
    have "tbl_inv X M ([] @ us) v (t\<lparr>t_sealed := [] @ rest\<rparr>) w1"
      using inv vs Cons ok by (intro tbl_inv_forget [where us = "[]" and as = "[]" and w = w]) auto
    then show ?thesis using run' ok vs Cons that(2) same_but_seg_outside by simp
  next
    case (fault i)
    then show ?thesis using run' that(3) same_but_seg_outside by simp
  qed
qed

end
