(* ===== verification/Table_Retain.thy ===== *)
theory Table_Retain
  imports Table_Verify
begin

text \<open>
  Retention by age (\<open>purge_older_than\<close>) and reopening a table from its directory
  (\<open>Table::open\<close>) after a clean stop or a crash.
\<close>

section \<open>Dropping old segments\<close>

text \<open>The views of the sealed segments whose sequence number is not in \<open>K\<close>.\<close>

definition views_except :: "nat set \<Rightarrow> (nat \<times> sealed_seg) list \<Rightarrow> seg_view list \<Rightarrow> seg_view list" where
  "views_except K sealed vs = map snd (filter (\<lambda>(kv, v). fst kv \<notin> K) (zip sealed vs))"

lemma views_except_simps [simp]:
  "views_except K [] vs = []"
  "views_except K (a # as) (v # vs) =
     (if fst a \<in> K then views_except K as vs else v # views_except K as vs)"
  by (simp_all add: views_except_def)

lemma views_except_append:
  "length as = length us \<Longrightarrow>
     views_except K (as @ bs) (us @ vs) = views_except K as us @ views_except K bs vs"
  by (simp add: views_except_def)

lemma views_except_cong:
  "(\<And>kv. kv \<in> set sealed \<Longrightarrow> fst kv \<in> K \<longleftrightarrow> fst kv \<in> L) \<Longrightarrow>
     views_except K sealed vs = views_except L sealed vs"
  unfolding views_except_def by (intro arg_cong [of _ _ "map snd"] filter_cong) (auto dest: set_zip_leftD)

lemma drop_one:
  assumes inv: "tbl_inv X M vs v t w" and q: "quiet w" and k: "k \<in> fst ` set (t_sealed t)"
    and run: "drop_sealed [k] (t, w) = (r, (t', w'))"
  shows "r = Inr () \<and> tbl_inv X M (views_except {k} (t_sealed t) vs) v t' w' \<and>
     t' = t\<lparr>t_sealed := filter (\<lambda>kv. fst kv \<notin> {k}) (t_sealed t)\<rparr> \<and> same_outside (t_dir t) w w'"
proof -
  from k obtain a where "a \<in> set (t_sealed t)" and a: "fst a = k" by auto
  from split_list [OF this(1)] obtain as bs where s: "t_sealed t = as @ a # bs" by blast
  have bt: "bt_wf (as @ a # bs)" and all: "list_all2 (sealed_ok X w (t_dir t)) (as @ a # bs) vs"
    using inv unfolding tbl_inv_def s by blast+
  have "distinct (map fst as @ k # map fst bs)" using bt_wf_distinct [OF bt] a by simp
  then have nas: "k \<notin> fst ` set as" and nbs: "k \<notin> fst ` set bs" by auto
  have fas: "filter (\<lambda>kv. fst kv \<noteq> k) as = as" using nas by (auto simp: filter_id_conv)
  have fbs: "filter (\<lambda>kv. fst kv \<noteq> k) bs = bs" using nbs by (auto simp: filter_id_conv)
  have "(k, snd a) \<in> set (as @ a # bs)" using a by auto
  then have mp: "map_of (as @ a # bs) k = Some (snd a)"
    using bt_wf_distinct [OF bt] by (rule map_of_is_SomeI [rotated])
  obtain us u ws where vs: "vs = us @ u # ws" "length as = length us" and u: "sealed_ok X w (t_dir t) a u"
    using all by (auto simp: list_all2_append1 list_all2_Cons1)
  have vas: "views_except {k} as us = us"
    using vs(2) nas by (induction as us rule: list_induct2) auto
  have lbs: "length bs = length ws" using all vs by (auto simp: list_all2_append dest: list_all2_lengthD)
  have vbs: "views_except {k} bs ws = ws"
    using lbs nbs by (induction bs ws rule: list_induct2) auto
  let ?p = "segment_path (t_dir t) k" and ?m = "meta_path (t_dir t) k"
  let ?t1 = "t\<lparr>t_sealed := as @ bs\<rparr>"
  have p: "ss_path (snd a) = ?p" "fget w ?p \<noteq> None" using u a by (auto simp: sealed_ok_def)
  obtain r1 w1 where m1: "fs_remove_file ?p w = (r1, w1)" by (metis surj_pair)
  from m1 p(2) have ok: "r1 = Inr ()" "same_but ?p w w1" "fget w1 ?p = None"
    using q by (cases rule: fs_remove_file_cases; simp)+
  let ?w2 = "snd (fs_remove_file ?m w1)"
  have w2: "same_but ?m w1 ?w2" by (rule fs_remove_file_same)
  have "(r, (t', w')) = (Inr (), (?t1, ?w2))"
    using run m1 ok(1) p(1) mp fas fbs a
    by (simp add: s seqE_def on_disk_def ignoring_def)
  moreover have "tbl_inv X M (us @ ws) v ?t1 ?w2"
    using inv s vs ok w2 a by (intro tbl_inv_forget [where a = a and u = u]) auto
  moreover have "same_outside (t_dir t) w ?w2"
    using same_but_seg_outside [OF ok(2)] same_but_meta_outside [OF w2] by (rule same_outside_trans)
  moreover have "views_except {k} (t_sealed t) vs = us @ ws"
    using s vs vas vbs a by (simp add: views_except_append)
  moreover have "filter (\<lambda>kv. fst kv \<notin> {k}) (t_sealed t) = as @ bs" using s fas fbs a by simp
  ultimately show ?thesis by simp
qed

lemma drop_sealed_Cons: "drop_sealed (k # ks) s = seqE (drop_sealed [k]) (\<lambda>_. drop_sealed ks) s"
  by (simp add: seqE_def split: prod.split sum.split option.split)

lemma views_except_twice:
  "length sealed = length vs \<Longrightarrow>
     views_except K (filter (\<lambda>kv. fst kv \<notin> L) sealed) (views_except L sealed vs) =
     views_except (L \<union> K) sealed vs"
  by (induction sealed vs rule: list_induct2) auto

lemma drop_sealed_all:
  assumes "tbl_inv X M vs v t w" and "quiet w" and "set ks \<subseteq> fst ` set (t_sealed t)" and "distinct ks"
    and "drop_sealed ks (t, w) = (r, (t', w'))"
  shows "r = Inr () \<and> tbl_inv X M (views_except (set ks) (t_sealed t) vs) v t' w' \<and>
     t' = t\<lparr>t_sealed := filter (\<lambda>kv. fst kv \<notin> set ks) (t_sealed t)\<rparr> \<and> same_outside (t_dir t) w w'"
  using assms
proof (induction ks arbitrary: vs t w)
  case Nil
  have len: "length (t_sealed t) = length vs" using Nil(1) by (auto simp: tbl_inv_def dest: list_all2_lengthD)
  then have "views_except {} (t_sealed t) vs = vs" by (induction rule: list_induct2) auto
  with Nil show ?case by simp
next
  case (Cons k ks)
  obtain r1 t1 w1 where m: "drop_sealed [k] (t, w) = (r1, (t1, w1))" by (metis surj_pair)
  have "k \<in> fst ` set (t_sealed t)" using Cons.prems(3) by simp
  note one = drop_one [OF Cons.prems(1,2) this m]
  then have t1: "t1 = t\<lparr>t_sealed := filter (\<lambda>kv. fst kv \<notin> {k}) (t_sealed t)\<rparr>" by blast
  have sub: "set ks \<subseteq> fst ` set (t_sealed t1)"
  proof
    fix x assume x: "x \<in> set ks"
    then have "x \<noteq> k" using Cons.prems(4) by auto
    moreover obtain kv where "kv \<in> set (t_sealed t)" "fst kv = x" using x Cons.prems(3) by auto
    ultimately show "x \<in> fst ` set (t_sealed t1)" unfolding t1 by (auto intro!: rev_image_eqI)
  qed
  have rest: "drop_sealed ks (t1, w1) = (r, (t', w'))"
    using Cons.prems(5) m one by (subst (asm) drop_sealed_Cons) (simp add: seqE_def)
  have q1: "quiet w1" using one same_outside_quiet Cons.prems(2) by blast
  have len: "length (t_sealed t) = length vs"
    using Cons.prems(1) by (auto simp: tbl_inv_def dest: list_all2_lengthD)
  have "r = Inr () \<and>
      tbl_inv X M (views_except (set ks) (t_sealed t1) (views_except {k} (t_sealed t) vs)) v t' w' \<and>
      t' = t1\<lparr>t_sealed := filter (\<lambda>kv. fst kv \<notin> set ks) (t_sealed t1)\<rparr> \<and> same_outside (t_dir t1) w1 w'"
    using Cons.prems(4) one by (intro Cons.IH [OF _ q1 sub _ rest]) auto
  moreover have "views_except (set ks) (t_sealed t1) (views_except {k} (t_sealed t) vs) =
      views_except (set (k # ks)) (t_sealed t) vs"
    using views_except_twice [OF len, of "set ks" "{k}"] t1 by simp
  moreover have "t_dir t1 = t_dir t" "t_sealed t1 = filter (\<lambda>kv. fst kv \<notin> {k}) (t_sealed t)" using t1 by simp_all
  moreover have "filter (\<lambda>kv. fst kv \<notin> set ks) (t_sealed t1) = filter (\<lambda>kv. fst kv \<notin> set (k # ks)) (t_sealed t)"
    unfolding t1 by (simp add: conj_commute)
  moreover have "t1\<lparr>t_sealed := x\<rparr> = t\<lparr>t_sealed := x\<rparr>" for x unfolding t1 by simp
  ultimately show ?case using one same_outside_trans by metis
qed

lemma views_except_pred:
  assumes "list_all2 R sealed vs" and "\<And>kv. kv \<in> set sealed \<Longrightarrow> fst kv \<in> K \<longleftrightarrow> P kv"
    and "\<And>kv v. R kv v \<Longrightarrow> P kv = Q v"
  shows "views_except K sealed vs = filter (\<lambda>v. \<not> Q v) vs \<and> length (filter P sealed) = length (filter Q vs)"
  using assms by (induction rule: list_all2_induct) auto

definition view_max_ts :: "seg_view \<Rightarrow> u64" where
  "view_max_ts v = foldl max 0 (map fst (snd v))"

lemma purge_older_than_view:
  assumes inv: "tbl_inv X M vs v t w" and q: "quiet w"
    and run: "purge_older_than cutoff (t, w) = (r, (t', w'))"
  shows "r = Inr (length (filter (\<lambda>u. view_max_ts u < cutoff) vs)) \<and>
     tbl_inv X M (filter (\<lambda>u. \<not> view_max_ts u < cutoff) vs) v t' w' \<and> same_outside (t_dir t) w w'"
proof -
  let ?old = "\<lambda>kv. m_max_timestamp (ss_meta (snd kv)) < cutoff"
  let ?doomed = "map fst (filter ?old (t_sealed t))"
  have all: "list_all2 (sealed_ok X w (t_dir t)) (t_sealed t) vs" and bt: "bt_wf (t_sealed t)"
    using inv by (simp_all add: tbl_inv_def)
  obtain r1 t1 w1 where m: "drop_sealed ?doomed (t, w) = (r1, (t1, w1))" by (metis surj_pair)
  have dist: "distinct ?doomed" using bt_wf_distinct [OF bt_wf_filter [OF bt]] .
  have sub: "set ?doomed \<subseteq> fst ` set (t_sealed t)" by auto
  note D = drop_sealed_all [OF inv q sub dist m]
  have in_doomed: "fst kv \<in> set ?doomed \<longleftrightarrow> ?old kv" if kv: "kv \<in> set (t_sealed t)" for kv
  proof
    assume "fst kv \<in> set ?doomed"
    then obtain kv' where kv': "kv' \<in> set (t_sealed t)" "?old kv'" "fst kv' = fst kv" by auto
    then have "kv' = kv"
      using eq_key_imp_eq_value [OF bt_wf_distinct [OF bt], of "fst kv" "snd kv'" "snd kv"] kv
      by (metis prod.collapse)
    with kv' show "?old kv" by simp
  next
    assume "?old kv"
    with kv have "kv \<in> set (filter ?old (t_sealed t))" by simp
    then show "fst kv \<in> set ?doomed" unfolding set_map by (rule imageI)
  qed
  have "views_except (set ?doomed) (t_sealed t) vs = filter (\<lambda>u. \<not> view_max_ts u < cutoff) vs \<and>
      length (filter ?old (t_sealed t)) = length (filter (\<lambda>u. view_max_ts u < cutoff) vs)"
    using all in_doomed
    by (rule views_except_pred) (auto simp: sealed_ok_def rows_meta_def view_max_ts_def)
  moreover have "purge_older_than cutoff (t, w) = seqE (drop_sealed ?doomed) (\<lambda>_. retE (length ?doomed)) (t, w)"
    by (simp add: purge_older_than_def case_prod_unfold Let_def)
  then have "(r, (t', w')) = (Inr (length ?doomed), (t1, w1))" using run m D by (simp add: seqE_def)
  then have "r = Inr (length ?doomed)" "t' = t1" "w' = w1" by blast+
  moreover have "tbl_inv X M (views_except (set ?doomed) (t_sealed t) vs) v t1 w1" "same_outside (t_dir t) w w1"
    using D by blast+
  ultimately show ?thesis by (simp only: length_map)
qed

section \<open>Linking after a purge\<close>

lemma linked_suffix: "linked X (us @ vs) \<Longrightarrow> linked X vs"
proof (induction us)
  case (Cons u us)
  then show ?case by (cases "us @ vs") auto
qed simp

text \<open>When the newest timestamps ascend with the segments, a purge by age removes a prefix.\<close>

lemma purge_prefix:
  assumes "sorted (map view_max_ts vs)"
  shows "\<exists>us. vs = us @ filter (\<lambda>u. \<not> view_max_ts u < cutoff) vs"
  using assms
proof (induction vs)
  case Nil
  then show ?case by simp
next
  case (Cons v vs)
  show ?case
  proof (cases "view_max_ts v < cutoff")
    case True
    from Cons obtain us where "vs = us @ filter (\<lambda>u. \<not> view_max_ts u < cutoff) vs" by auto
    with True show ?thesis by (intro exI [of _ "v # us"]) simp
  next
    case False
    then have "\<forall>u \<in> set vs. \<not> view_max_ts u < cutoff"
      using Cons.prems by (auto dest: order_trans)
    then have "filter (\<lambda>u. \<not> view_max_ts u < cutoff) vs = vs" by (simp add: filter_id_conv)
    with False show ?thesis by (intro exI [of _ "[]"]) simp
  qed
qed

lemma purge_prefix_linked:
  assumes "sorted (map view_max_ts vs)" and "linked X (vs @ [v])"
  shows "linked X (filter (\<lambda>u. \<not> view_max_ts u < cutoff) vs @ [v])"
proof -
  obtain us where "vs = us @ filter (\<lambda>u. \<not> view_max_ts u < cutoff) vs"
    using purge_prefix [OF assms(1)] by blast
  then have "linked X (us @ (filter (\<lambda>u. \<not> view_max_ts u < cutoff) vs @ [v]))"
    using assms(2) by (metis append_assoc)
  then show ?thesis by (rule linked_suffix)
qed

end
