(* ===== verification/Table_Reopen.thy ===== *)
theory Table_Reopen
  imports Table_Retain
begin

text \<open>
  Reopening a table from its directory: the sealed segments come back unchanged, whether or not
  their sidecars survived, and the active one with the rows whose frames had reached the disk.
\<close>

lemma tbl_inv_max: "tbl_inv X M vs v (t\<lparr>t_max_segment_bytes := b\<rparr>) w = tbl_inv X M vs v t w"
  by (simp add: tbl_inv_def dir_clean_def metas_ok_def)

lemma list_all2_ex: "list_all2 P xs ys \<Longrightarrow> \<forall>x \<in> set xs. \<exists>y. P x y"
  by (induction rule: list_all2_induct) auto

section \<open>The directory listing\<close>

lemma list_segments_inv:
  assumes inv: "tbl_inv X M vs v t w" and wf: "fs_wf w" and room: "t_active_seq t \<le> u64_max_nat"
  shows "list_segments (t_dir t) w = map fst (t_sealed t) @ [t_active_seq t]"
proof -
  let ?names = "fs_read_dir (t_dir t) w" and ?seqs = "map fst (t_sealed t) @ [t_active_seq t]"
  let ?parsed = "List.map_filter parse_segment_name ?names"
  have clean: "dir_clean t w" and lt: "\<forall>kv \<in> set (t_sealed t). fst kv < t_active_seq t"
    and all: "list_all2 (sealed_ok X w (t_dir t)) (t_sealed t) vs" and bt: "bt_wf (t_sealed t)"
    using inv by (simp_all add: tbl_inv_def)
  have name: "x = segment_name n" if "x \<in> set ?names" "parse_segment_name x = Some n" for x n
    using clean that unfolding set_fs_read_dir dir_clean_def by blast
  have "fget w (segment_path (t_dir t) n) \<noteq> None" if "n \<in> set ?seqs" for n
  proof -
    have "fget w (segment_path (t_dir t) (t_active_seq t)) \<noteq> None"
      using inv by (auto simp: tbl_inv_def seg_inv_def holds_def)
    moreover have "fget w (segment_path (t_dir t) (fst kv)) \<noteq> None" if "kv \<in> set (t_sealed t)" for kv
      using all that by (auto simp: list_all2_conv_all_nth in_set_conv_nth sealed_ok_def)
    ultimately show ?thesis using that by auto
  qed
  then have present: "segment_name n \<in> set ?names" if "n \<in> set ?seqs" for n
    using that by (simp add: set_fs_read_dir segment_path_def)
  have bound: "n \<le> u64_max_nat" if "n \<in> set ?seqs" for n using that lt room by auto
  have "set ?parsed = set ?seqs"
  proof (intro set_eqI iffI)
    fix n assume "n \<in> set ?parsed"
    then obtain x where "x \<in> set ?names" "parse_segment_name x = Some n"
      by (auto simp: List.map_filter_def)
    then show "n \<in> set ?seqs" using clean unfolding set_fs_read_dir dir_clean_def by auto
  next
    fix n assume n: "n \<in> set ?seqs"
    have "parse_segment_name (segment_name n) = Some n" using bound [OF n] by simp
    then show "n \<in> set ?parsed" using present [OF n] by (force simp: List.map_filter_def)
  qed
  moreover have "distinct ?parsed"
  proof -
    have "inj_on (the \<circ> parse_segment_name) (set (filter (\<lambda>x. parse_segment_name x \<noteq> None) ?names))"
    proof (rule inj_onI)
      fix x y assume "x \<in> set (filter (\<lambda>x. parse_segment_name x \<noteq> None) ?names)"
        and "y \<in> set (filter (\<lambda>x. parse_segment_name x \<noteq> None) ?names)"
        and "(the \<circ> parse_segment_name) x = (the \<circ> parse_segment_name) y"
      then show "x = y" using name [of x] name [of y] by auto
    qed
    then show ?thesis
      using distinct_fs_read_dir [OF wf, of "t_dir t"] by (simp add: List.map_filter_def distinct_map)
  qed
  moreover have "sorted_wrt (<) ?seqs" using lt bt by (auto simp: bt_wf_def sorted_wrt_append)
  ultimately show ?thesis unfolding list_segments_def
    by (intro sorted_distinct_set_unique) (simp_all add: strict_sorted_iff)
qed

section \<open>Sidecars\<close>

lemma skim_meta_image: "skim_meta (Some (seg_skim X sd rs)) = rows_meta rs"
  by (simp add: skim_meta_def seg_skim_def rows_meta_def)

lemma load_meta_ok:
  assumes X: "ext_ok X" and M: "meta_codec_ok M" and kv: "sealed_ok X w d kv u"
    and rd: "read_meta M (meta_path d (fst kv)) w \<in> {None, Some (ss_meta (snd kv))}"
  shows "\<exists>w'. load_meta X M d (fst kv) w = (Inr (ss_meta (snd kv)), w') \<and>
     same_but (meta_path d (fst kv)) w w' \<and>
     read_meta M (meta_path d (fst kv)) w' \<in> {None, Some (ss_meta (snd kv))}"
proof (cases "read_meta M (meta_path d (fst kv)) w")
  case (Some m)
  then show ?thesis using rd by (simp add: load_meta_def)
next
  case None
  have "skim_file X (segment_path d (fst kv)) w = Inr (Some (seg_skim X (fst u) (snd u)))"
    using kv skim_bytes_image [OF X, of "fst u" "snd u" "[]"] by (simp add: sealed_ok_def skim_file_def)
  moreover have "skim_meta (Some (seg_skim X (fst u) (snd u))) = ss_meta (snd kv)"
    using kv skim_meta_image by (simp add: sealed_ok_def)
  moreover have "read_meta M (meta_path d (fst kv)) (write_meta M (meta_path d (fst kv)) (ss_meta (snd kv)) w)
      \<in> {None, Some (ss_meta (snd kv))}"
    using read_meta_write_meta [OF M, of "meta_path d (fst kv)" "ss_meta (snd kv)" w] None by auto
  ultimately show ?thesis using None write_meta_same by (simp add: load_meta_def)
qed

text \<open>Everything but the sidecars of \<open>K\<close> is as it was, and those are absent or right.\<close>

definition metas_step :: "seg_meta codec \<Rightarrow> path \<Rightarrow> (nat \<times> sealed_seg) list \<Rightarrow> fs \<Rightarrow> fs \<Rightarrow> bool" where
  "metas_step M d kvs w w' \<longleftrightarrow> same_outside d w w' \<and>
     (\<forall>q. (\<forall>n \<in> fst ` set kvs. q \<noteq> meta_path d n) \<longrightarrow> fget w' q = fget w q) \<and>
     (\<forall>kv \<in> set kvs. read_meta M (meta_path d (fst kv)) w' \<in> {None, Some (ss_meta (snd kv))})"

lemma load_sealed_ok:
  assumes X: "ext_ok X" and M: "meta_codec_ok M"
    and "\<forall>kv \<in> set kvs. \<exists>u. sealed_ok X w d kv u"
    and "\<forall>kv \<in> set kvs. read_meta M (meta_path d (fst kv)) w \<in> {None, Some (ss_meta (snd kv))}"
    and "bt_wf (acc @ kvs)"
  shows "\<exists>w'. load_sealed X M d (map fst kvs) acc w = (Inr (acc @ kvs), w') \<and> metas_step M d kvs w w'"
  using assms(3-5)
proof (induction kvs arbitrary: acc w)
  case Nil
  then show ?case by (simp add: metas_step_def)
next
  case (Cons kv kvs)
  obtain u where u: "sealed_ok X w d kv u" using Cons.prems(1) by auto
  obtain w1 where w1: "load_meta X M d (fst kv) w = (Inr (ss_meta (snd kv)), w1)"
    "same_but (meta_path d (fst kv)) w w1"
    "read_meta M (meta_path d (fst kv)) w1 \<in> {None, Some (ss_meta (snd kv))}"
    using load_meta_ok [OF X M u] Cons.prems(2) by auto
  have wf: "bt_wf (acc @ kv # kvs)" using Cons.prems(3) .
  then have "\<forall>a \<in> set acc. fst a < fst kv" by (simp add: bt_wf_append)
  moreover have kv: "(fst kv, \<lparr>ss_path = segment_path d (fst kv), ss_meta = ss_meta (snd kv)\<rparr>) = kv"
    using u by (cases kv) (simp add: sealed_ok_def)
  ultimately have ins: "bt_insert (fst kv) \<lparr>ss_path = segment_path d (fst kv), ss_meta = ss_meta (snd kv)\<rparr> acc = acc @ [kv]"
    using bt_insert_append [of acc "fst kv"] by metis
  have ne: "fst kv' \<noteq> fst kv" if "kv' \<in> set kvs" for kv'
    using wf that by (auto simp: bt_wf_append bt_wf_Cons)
  have eq: "fget w1 q = fget w q" if "q \<noteq> meta_path d (fst kv)" for q
    using w1(2) that by (simp add: same_but_def)
  have "\<forall>kv \<in> set kvs. \<exists>u. sealed_ok X w1 d kv u"
    using Cons.prems(1) eq by (fastforce simp: sealed_ok_def)
  moreover have "\<forall>kv \<in> set kvs. read_meta M (meta_path d (fst kv)) w1 \<in> {None, Some (ss_meta (snd kv))}"
    using Cons.prems(2) ne eq by (auto simp: read_meta_def)
  moreover have "bt_wf ((acc @ [kv]) @ kvs)" using wf by simp
  ultimately obtain w2 where w2: "load_sealed X M d (map fst kvs) (acc @ [kv]) w1 = (Inr ((acc @ [kv]) @ kvs), w2)"
    "metas_step M d kvs w1 w2" using Cons.IH by blast
  have "fget w2 (meta_path d (fst kv)) = fget w1 (meta_path d (fst kv))"
    using w2(2) ne unfolding metas_step_def by (metis (no_types, lifting) imageE meta_path_inject)
  then have "read_meta M (meta_path d (fst kv)) w2 = read_meta M (meta_path d (fst kv)) w1"
    by (simp add: read_meta_def)
  then have "metas_step M d (kv # kvs) w w2"
    using w2(2) w1(3) eq same_outside_trans [OF same_but_meta_outside [OF w1(2)]]
    by (simp add: metas_step_def)
  then show ?case using w1(1) w2(1) ins by (simp add: seqE_def)
qed

lemma tbl_inv_metas_step:
  assumes inv: "tbl_inv X M vs v t w" and st: "metas_step M (t_dir t) (t_sealed t) w w'"
  shows "tbl_inv X M vs v t w'"
proof -
  let ?d = "t_dir t"
  have seg: "fget w' (segment_path ?d n) = fget w (segment_path ?d n)" for n
    using st by (auto simp: metas_step_def)
  have "sealed_ok X w' ?d = sealed_ok X w ?d" by (intro ext) (simp add: sealed_ok_def seg)
  moreover have "seg_inv X (fst v) (snd v) (t_active t) w'"
    using tbl_inv_seg [OF inv] tbl_inv_path [OF inv] seg by (simp add: seg_inv_def holds_def)
  moreover have "dir_clean t w'"
    unfolding dir_clean_def
  proof (intro allI impI)
    fix x n assume x: "fget w' (?d @ [x]) \<noteq> None" "parse_segment_name x = Some n"
    have "?d @ [x] \<noteq> meta_path ?d m" for m using x(2) by (auto simp: meta_path_def)
    then have "fget w (?d @ [x]) \<noteq> None" using st x(1) by (simp add: metas_step_def)
    then show "x = segment_name n \<and> (n = t_active_seq t \<or> n \<in> fst ` set (t_sealed t))"
      using inv x(2) unfolding tbl_inv_def dir_clean_def by blast
  qed
  moreover have "metas_ok M t w'"
  proof -
    have "read_meta M (meta_path ?d n) w' = read_meta M (meta_path ?d n) w" if "n \<ge> t_active_seq t" for n
    proof -
      have "\<forall>m \<in> fst ` set (t_sealed t). meta_path ?d n \<noteq> meta_path ?d m"
        using inv that by (auto simp: tbl_inv_def)
      then have "fget w' (meta_path ?d n) = fget w (meta_path ?d n)" using st unfolding metas_step_def by blast
      then show ?thesis by (simp add: read_meta_def)
    qed
    then show ?thesis using inv st by (simp add: tbl_inv_def metas_ok_def metas_step_def)
  qed
  ultimately show ?thesis using inv by (simp add: tbl_inv_def)
qed

section \<open>Reopening\<close>

text \<open>
  The active segment after reopening: a file with less than a header is started afresh with the
  zero seed, otherwise the complete frames are kept.
\<close>

definition reopened :: "nat \<Rightarrow> nat \<Rightarrow> seg_view \<Rightarrow> seg_view" where
  "reopened n k v = (if n < 37 then (ZERO_CHAIN, []) else (fst v, take k (snd v)))"

lemma table_open_reopen:
  assumes inv: "tbl_inv X M vs v t w" and q: "quiet w" and wf: "fs_wf w"
    and room: "t_active_seq t \<le> u64_max_nat"
    and c: "fget w (segment_path (t_dir t) (t_active_seq t)) = Some c"
  shows "\<exists>t' w' k. table_open X M (t_dir t) b w = (Inr t', w') \<and> k \<le> length (snd v) \<and>
     tbl_inv X M vs (reopened (length c) k v) t' w' \<and> t_dir t' = t_dir t \<and>
     t_active_seq t' = t_active_seq t \<and> t_max_segment_bytes t' = b \<and> quiet w' \<and>
     (\<forall>j \<le> length (snd v). length (seg_image X (fst v) (take j (snd v))) \<le> length c \<longrightarrow> j \<le> k)"
proof -
  let ?d = "t_dir t" and ?n = "t_active_seq t"
  define w1 where "w1 = (if ?d \<in> set (fs_dirs w) then w else w\<lparr>fs_dirs := ?d # fs_dirs w\<rparr>)"
  have mk: "fs_create_dir_all ?d w = (Inr (), w1)" using q by (simp add: fs_create_dir_all_def w1_def)
  have fw1: "fget w1 p = fget w p" for p by (simp add: w1_def)
  have q1: "quiet w1" and wf1: "fs_wf w1" using q wf by (simp_all add: quiet_def fs_wf_def w1_def)
  have inv1: "tbl_inv X M vs v t w1" using tbl_inv_cong [of w1 t w] fw1 inv by blast
  have X: "ext_ok X" "length (fst v) = 32" "\<forall>r \<in> set (snd v). row_ok r" and M: "meta_codec_ok M"
    and all: "list_all2 (sealed_ok X w1 ?d) (t_sealed t) vs" and bt: "bt_wf ([] @ t_sealed t)"
    and metas: "metas_ok M t w1" and lt: "\<forall>kv \<in> set (t_sealed t). fst kv < ?n"
    using inv1 unfolding tbl_inv_def seg_inv_def by simp_all
  have segs: "list_segments ?d w1 = map fst (t_sealed t) @ [?n]"
    using list_segments_inv [OF inv1 wf1 room] .
  have "\<forall>kv \<in> set (t_sealed t). \<exists>u. sealed_ok X w1 ?d kv u"
    using all by (rule list_all2_ex)
  moreover have "\<forall>kv \<in> set (t_sealed t). read_meta M (meta_path ?d (fst kv)) w1 \<in> {None, Some (ss_meta (snd kv))}"
    using metas unfolding metas_ok_def by blast
  ultimately obtain w2 where w2: "load_sealed X M ?d (map fst (t_sealed t)) [] w1 = (Inr (t_sealed t), w2)"
    "metas_step M ?d (t_sealed t) w1 w2"
    using load_sealed_ok [OF X(1) M _ _ bt] by force
  have q2: "quiet w2" using w2(2) q1 same_outside_quiet unfolding metas_step_def by blast
  have inv2: "tbl_inv X M vs v t w2" using tbl_inv_metas_step [OF inv1 w2(2)] .
  have flt: "filter (\<lambda>s. s \<noteq> ?n) (map fst (t_sealed t)) = map fst (t_sealed t)"
    using lt by (auto simp: filter_id_conv)
  have c2: "fget w2 (segment_path ?d ?n) = Some c"
    using w2(2) c fw1 by (auto simp: metas_step_def)
  obtain c' where "c' @ seg_buf (t_active t) = seg_image X (fst v) (snd v)" "fget w (segment_path ?d ?n) = Some c'"
    using inv by (auto simp: tbl_inv_def seg_inv_def holds_def)
  then have "c = take (length c) (seg_image X (fst v) (snd v))"
    using c by (metis append_eq_conv_conj option.inject)
  then have c3: "fget w2 (segment_path ?d ?n) = Some (take (length c) (seg_image X (fst v) (snd v)))"
    using c2 by simp
  have seqs: "(if (map fst (t_sealed t) @ [?n]) = [] then 0 else last (map fst (t_sealed t) @ [?n])) = ?n" by simp
  have opn: "table_open X M ?d b w =
      seqE (seg_open X (segment_path ?d ?n) ZERO_CHAIN) (\<lambda>active.
        retE \<lparr>t_dir = ?d, t_active = active, t_active_seq = ?n, t_sealed = t_sealed t,
              t_max_segment_bytes = b\<rparr>) w2"
    by (simp add: table_open_def seqE_Inr [where a = "()"] mk segs flt w2(1) Let_def seqE_def)
  have "\<exists>s w' k. seg_open X (segment_path ?d ?n) ZERO_CHAIN w2 = (Inr s, w') \<and> k \<le> length (snd v) \<and>
      seg_inv X (fst (reopened (length c) k v)) (snd (reopened (length c) k v)) s w' \<and>
      same_but (segment_path ?d ?n) w2 w' \<and> seg_path s = segment_path ?d ?n \<and>
      (\<forall>j \<le> length (snd v). length (seg_image X (fst v) (take j (snd v))) \<le> length c \<longrightarrow> j \<le> k)"
  proof (cases "length c < 37")
    case True
    obtain r w' where run: "seg_open X (segment_path ?d ?n) ZERO_CHAIN w2 = (r, w')" by (metis surj_pair)
    have short: "case fget w2 (segment_path ?d ?n) of None \<Rightarrow> True | Some c \<Rightarrow> length c < 37"
      using c2 True by simp
    from X(1) length_ZERO_CHAIN short run obtain s where "r = Inr s" "seg_inv X ZERO_CHAIN [] s w'"
      "seg_path s = segment_path ?d ?n" "same_but (segment_path ?d ?n) w2 w'"
      using q2 by (cases rule: seg_open_fresh_cases) auto
    moreover have "\<not> length (seg_image X (fst v) (take j (snd v))) \<le> length c" for j
      using X True by (simp add: seg_image_def)
    ultimately show ?thesis using run True
      by (intro exI [of _ s] exI [of _ w'] exI [of _ 0]) (simp add: reopened_def)
  next
    case False
    then show ?thesis
      using seg_open_crash_image [OF X q2 c3 False, of ZERO_CHAIN] by (simp add: reopened_def)
  qed
  then obtain s w' k where s: "seg_open X (segment_path ?d ?n) ZERO_CHAIN w2 = (Inr s, w')" "k \<le> length (snd v)"
      "seg_inv X (fst (reopened (length c) k v)) (snd (reopened (length c) k v)) s w'"
      "seg_path s = segment_path ?d ?n" "same_but (segment_path ?d ?n) w2 w'"
      "\<forall>j \<le> length (snd v). length (seg_image X (fst v) (take j (snd v))) \<le> length c \<longrightarrow> j \<le> k"
    by blast
  have "tbl_inv X M vs (reopened (length c) k v) (t\<lparr>t_active := s\<rparr>) w'"
    using inv2 s(3,5,4) by (rule tbl_inv_active)
  then have "tbl_inv X M vs (reopened (length c) k v) (t\<lparr>t_active := s, t_max_segment_bytes := b\<rparr>) w'"
    by (simp only: tbl_inv_max)
  moreover have "table_open X M ?d b w = (Inr (t\<lparr>t_active := s, t_max_segment_bytes := b\<rparr>), w')"
    using opn s(1) by (simp add: seqE_def)
  moreover have "quiet w'" using s(5) q2 by (simp add: same_but_def)
  ultimately show ?thesis using s(2,6)
    by (intro exI [of _ "t\<lparr>t_active := s, t_max_segment_bytes := b\<rparr>"] exI [of _ w'] exI [of _ k]) simp
qed

end
