(* ===== verification/Table_Props.thy ===== *)
theory Table_Props
  imports Table_Reopen Quipu_Prelude Segment_Props
begin

text \<open>
  The properties of tables and scans. A concrete sidecar codec (\<open>demo_meta_codec\<close>: the three
  counters as little-endian words) and an empty table serve the witnesses.
\<close>

section \<open>A concrete instance\<close>

definition demo_meta_codec :: "seg_meta codec" where
  "demo_meta_codec = \<lparr>
     c_ser = (\<lambda>m. if m_records m \<le> u64_max_nat
        then Inr (le64 (m_min_timestamp m) @ le64 (m_max_timestamp m) @ le_bytes 8 (m_records m))
        else Inl (Encode (CodecFailed ''records''))),
     c_de = (\<lambda>b. if length b = 24
        then Inr \<lparr>m_min_timestamp = from_le64 (take 8 b), m_max_timestamp = from_le64 (take 8 (drop 8 b)),
                  m_records = le_nat (drop 16 b)\<rparr>
        else Inl (Encode (CodecFailed ''sidecar'')))\<rparr>"

lemma demo_meta_codec_ok: "meta_codec_ok demo_meta_codec"
proof -
  have "c_de demo_meta_codec b = Inr m" if "c_ser demo_meta_codec m = Inr b" for m b
  proof -
    have "m_records m \<le> u64_max_nat" using that by (auto simp: demo_meta_codec_def split: if_splits)
    then have "m_records m mod 256 ^ 8 = m_records m" by (simp add: u64_max_nat_def)
    then show ?thesis using that
      by (cases m) (auto simp: demo_meta_codec_def le_nat_le_bytes split: if_splits)
  qed
  then show ?thesis
    by (auto simp: meta_codec_ok_def codec_ok_def demo_meta_codec_def split: if_splits)
qed

definition bytes_codec :: "bytes codec" where
  "bytes_codec = \<lparr>c_ser = Inr, c_de = Inr\<rparr>"

definition demo_table :: table where
  "demo_table = \<lparr>t_dir = [''t''],
     t_active = demo_seg\<lparr>seg_path := segment_path [''t''] 0\<rparr>,
     t_active_seq = 0, t_sealed = [], t_max_segment_bytes = 100\<rparr>"

definition demo_table_fs :: fs where
  "demo_table_fs = \<lparr>fs_files = [(segment_path [''t''] 0, [])], fs_dirs = [[''t'']], fs_faults = []\<rparr>"

lemma demo_table_inv: "tbl_inv demo_ext demo_meta_codec [] (ZERO_CHAIN, []) demo_table demo_table_fs"
proof -
  have "seg_inv demo_ext ZERO_CHAIN [] (demo_seg\<lparr>seg_path := segment_path [''t''] 0\<rparr>) demo_table_fs"
    by (simp add: seg_inv_def demo_seg_def demo_table_fs_def holds_def fget_def seg_image_def seg_books_def)
  moreover have "x = segment_name 0" if "fget demo_table_fs ([''t''] @ [x]) \<noteq> None" for x
    using that by (auto simp: fget_def demo_table_fs_def segment_path_def split: if_splits)
  moreover have "read_meta demo_meta_codec (meta_path [''t''] n) demo_table_fs = None" for n
    by (simp add: read_meta_def fget_def demo_table_fs_def)
  moreover have "dir_clean demo_table demo_table_fs"
  proof -
    have "parse_segment_name (segment_name 0) = Some 0" by (rule parse_segment_name) simp
    then show ?thesis using calculation(2) by (fastforce simp: dir_clean_def demo_table_def)
  qed
  ultimately show ?thesis
    using demo_meta_codec_ok by (simp add: tbl_inv_def demo_table_def metas_ok_def)
qed

section \<open>The log contract\<close>

definition table_holds_rows :: "ext \<Rightarrow> seg_meta codec \<Rightarrow> table \<times> fs \<Rightarrow> row list \<Rightarrow> bool" where
  "table_holds_rows X M tw rs \<longleftrightarrow> (\<exists>vs v. tbl_inv X M vs v (fst tw) (snd tw) \<and>
     linked X (vs @ [v]) \<and> view_rows (vs @ [v]) = rs)"

definition seg_holds_rows :: "ext \<Rightarrow> chain_hash \<Rightarrow> segment \<times> fs \<Rightarrow> row list \<Rightarrow> bool" where
  "seg_holds_rows X seed sw rs \<longleftrightarrow> seg_inv X seed rs (fst sw) (snd sw)"

interpretation seg_log: append_log "seg_holds_rows X seed" "\<lambda>(ts, p). seg_append X p ts" id "\<lambda>_. Suc 0"
  for X seed
proof (unfold_locales, goal_cases)
  case (1 s rs x a s')
  obtain ts p where x: "x = (ts, p)" by (cases x)
  obtain s1 w1 s2 w2 where s: "s = (s1, w1)" "s' = (s2, w2)" by (cases s; cases s')
  from 1 have "seg_inv X seed rs s1 w1" "seg_append X p ts (s1, w1) = (Inr a, (s2, w2))"
    using x s by (simp_all add: seg_holds_rows_def)
  then show ?case using x s by (cases rule: seg_append_cases) (auto simp: seg_holds_rows_def)
qed simp

interpretation tbl_log: append_log "table_holds_rows X M"
  "\<lambda>(ts, r). table_append X M bytes_codec r ts" id "\<lambda>(t, w). u64_max_nat - t_active_seq t"
  for X M
proof (unfold_locales, goal_cases)
  case (1 s rs x a s')
  obtain ts p where x: "x = (ts, p)" by (cases x)
  obtain t1 w1 t2 w2 where s: "s = (t1, w1)" "s' = (t2, w2)" by (cases s; cases s')
  from 1(1) s obtain vs v where inv: "tbl_inv X M vs v t1 w1" "linked X (vs @ [v])" "view_rows (vs @ [v]) = rs"
    by (auto simp: table_holds_rows_def)
  have room: "t_active_seq t1 < u64_max_nat" using 1(2) s by simp
  have run: "table_append X M bytes_codec p ts (t1, w1) = (Inr a, (t2, w2))" using 1(3) x s by simp
  from inv(1) room run show ?case
  proof (cases rule: table_append_cases)
    case (ok q vs' v')
    then have "q = p" by (simp add: bytes_codec_def)
    moreover have "linked X (vs' @ [v'])" by (rule view_append_linked [OF ok(4) inv(2)])
    moreover have "view_rows (vs' @ [v']) = rs @ [(ts, q)]" using view_append_rows [OF ok(4)] inv(3) by simp
    ultimately show ?thesis using ok(5) x s unfolding table_holds_rows_def by fastforce
  qed simp_all
next
  case (2 s rs x a s')
  obtain ts p where x: "x = (ts, p)" by (cases x)
  obtain t1 w1 t2 w2 where s: "s = (t1, w1)" "s' = (t2, w2)" by (cases s; cases s')
  from 2(1) s obtain vs v where inv: "tbl_inv X M vs v t1 w1" by (auto simp: table_holds_rows_def)
  have room: "t_active_seq t1 < u64_max_nat" using 2(2) s by simp
  have run: "table_append X M bytes_codec p ts (t1, w1) = (Inr a, (t2, w2))" using 2(3) x s by simp
  from inv room run have "t_active_seq t2 \<le> t_active_seq t1 + 1"
    by (cases rule: table_append_cases) simp_all
  then show ?case using s by simp
qed

section \<open>Appending\<close>



text \<open>
  a batch. A loop of appends that reports success has stored all its rows, in order, behind
  the rows that were there, and the table is still linked.
\<close>

theorem table_append_batch:
  assumes "tbl_inv X M vs v t w" and "linked X (vs @ [v])" and "length rows \<le> u64_max_nat - t_active_seq t"
    and "forE rows (\<lambda>x. seqE (case x of (ts, p) \<Rightarrow> table_append X M bytes_codec p ts) (\<lambda>_. retE ())) (t, w) =
      (Inr (), (t', w'))"
  shows "\<exists>vs' v'. tbl_inv X M vs' v' t' w' \<and> linked X (vs' @ [v']) \<and>
     view_rows (vs' @ [v']) = view_rows (vs @ [v]) @ rows"
proof -
  have "table_holds_rows X M (t, w) (view_rows (vs @ [v]))"
    using assms(1,2) unfolding table_holds_rows_def fst_conv snd_conv by blast
  moreover have "length rows \<le> (case (t, w) of (t, w) \<Rightarrow> u64_max_nat - t_active_seq t)" using assms(3) by simp
  ultimately have "table_holds_rows X M (t', w') (view_rows (vs @ [v]) @ map id rows)"
    using assms(4) by (rule tbl_log.app_all_ok)
  then show ?thesis by (simp only: table_holds_rows_def fst_conv snd_conv list.map_id)
qed

lemma table_append_batch_witness:
  "\<exists>vs' v'. tbl_inv demo_ext demo_meta_codec vs' v' demo_table demo_table_fs \<and>
     linked demo_ext (vs' @ [v']) \<and> view_rows (vs' @ [v']) = view_rows ([] @ [(ZERO_CHAIN, [])]) @ []"
  using table_append_batch [OF demo_table_inv, of "[]" demo_table demo_table_fs] by simp

section \<open>Verification\<close>

text \<open>
  \<open>verify\<close> on a table without disk faults succeeds exactly when each segment's seed is the
  chain head of the segment before it; otherwise it names a segment whose seed does not match.
  It changes neither the rows nor the bookkeeping.
\<close>

theorem table_verify_correct:
  assumes "tbl_inv X M vs v t w" and "quiet w"
    and "table_verify X (t, w) = (r, (t', w'))" and "files_fit w'"
  shows "(if linked X (vs @ [v]) then r = Inr () else \<exists>p. r = Inl (Corrupt p 0 SeedMismatch)) \<and>
     tbl_inv X M vs v t' w'"
  using assms(1,4,3) by (cases rule: table_verify_cases) (use assms(2) in auto)

lemma demo_table_flushed:
  assumes "table_flush (demo_table, demo_table_fs) = (r, (t', w'))"
  shows "files_fit w'"
proof -
  have "w' = fput (segment_path [''t''] 0) (seg_header ZERO_CHAIN) demo_table_fs"
    using assms
    by (simp add: table_flush_def on_active_def seg_flush_def bw_flush_buf_def demo_table_def demo_seg_def
        seg_header_def MAGIC_def fs_append_raw_def next_fault_def demo_table_fs_def fget_def)
  moreover have "length (seg_header ZERO_CHAIN) \<le> u64_max_nat" by (simp add: u64_max_nat_def)
  ultimately show ?thesis by (auto simp: files_fit_def demo_table_fs_def fget_def fput_def split: if_splits)
qed

lemma table_verify_correct_witness:
  "\<exists>t' w'. table_verify demo_ext (demo_table, demo_table_fs) = (Inr (), (t', w'))"
proof -
  obtain r t' w' where run: "table_verify demo_ext (demo_table, demo_table_fs) = (r, (t', w'))"
    by (metis surj_pair)
  obtain r1 t1 w1 where fl: "table_flush (demo_table, demo_table_fs) = (r1, (t1, w1))" by (metis surj_pair)
  have "w' = w1" using run fl by (cases r1) (auto simp: table_verify_def seqE_def)
  then have "files_fit w'" using demo_table_flushed [OF fl] by simp
  moreover have "quiet demo_table_fs" by (simp add: quiet_def demo_table_fs_def)
  ultimately show ?thesis using table_verify_correct [OF demo_table_inv _ run] run by simp
qed

section \<open>Reading\<close>

text \<open>
  a sequential scan over the slices of a snapshot returns every row, decoded, in append
  order, and then ends, also while rows are being appended behind the snapshot.
\<close>

theorem table_scan_correct:
  assumes "tbl_inv X M vs v t w" and "snap_ok X vs v t w'" and "files_fit w'"
    and "\<And>r. r \<in> set (view_rows (vs @ [v])) \<Longrightarrow> c_de C (snd r) = Inr (f (snd r))"
  shows "ts_reads X C w' (scan_over (slices_of t)) (map (f \<circ> snd) (view_rows (vs @ [v])))"
  using scan_over_left [OF assms(1-3)] assms(4) by (rule ts_reads_left)

lemma demo_table_snap: "snap_ok demo_ext [] (ZERO_CHAIN, []) demo_table
    (fput (segment_path [''t''] 0) (seg_header ZERO_CHAIN) demo_table_fs)"
  by (simp add: snap_ok_def demo_table_def seg_image_def)

lemma demo_table_fit: "files_fit (fput (segment_path [''t''] 0) (seg_header ZERO_CHAIN) demo_table_fs)"
proof -
  have "length (seg_header ZERO_CHAIN) \<le> u64_max_nat" by (simp add: u64_max_nat_def)
  then show ?thesis by (auto simp: files_fit_def demo_table_fs_def fget_def fput_def split: if_splits)
qed

lemma table_scan_correct_witness:
  "ts_reads demo_ext bytes_codec (fput (segment_path [''t''] 0) (seg_header ZERO_CHAIN) demo_table_fs)
     (scan_over (slices_of demo_table)) []"
  using table_scan_correct [OF demo_table_inv demo_table_snap demo_table_fit, of bytes_codec id] by simp

text \<open>
  C21: a positional scan returns, within \<open>n\<close> calls, exactly the first \<open>n\<close> rows in query order
  that lie in the closed time range and strictly beyond the cursor; segments skipped because of
  their time bounds or the cursor would not have contributed a row.
\<close>

theorem positioned_scan_correct:
  assumes "tbl_inv X M vs v t w" and "snap_ok X vs v t w'" and "files_fit w'"
  shows "fst (ps_take X C w' n (positioned_new (slices_of t) desc from to after)) =
     decode_rows C (take n (filter (asked desc from to after) (query_order desc (table_numbered t vs v))))"
  using ps_take_todo [OF positioned_scan_todo [OF assms, of desc "from" "to" after], of C n]
  by (simp add: ps_keep_new)

lemma positioned_scan_correct_witness:
  "fst (ps_take demo_ext bytes_codec (fput (segment_path [''t''] 0) (seg_header ZERO_CHAIN) demo_table_fs) 3
     (positioned_new (slices_of demo_table) True (Some 1) None None)) = Inr []"
  using positioned_scan_correct [OF demo_table_inv demo_table_snap demo_table_fit,
      of bytes_codec 3 True "Some 1" None None]
  by (simp add: table_numbered_def demo_table_def query_order_def decode_rows_def)

text \<open>
  pagination. When a query returned a full page and is asked again with the position of
  the page's last row as cursor, it returns exactly the rows that followed the page: none is
  skipped and none is repeated, in both orders.
\<close>

theorem pagination_complete:
  assumes "tbl_inv X M vs v t w" and "snap_ok X vs v t w'" and "files_fit w'"
    and "page = take n (filter (asked desc from to after) (query_order desc (table_numbered t vs v)))"
    and "page \<noteq> []"
  shows "fst (ps_take X C w' n (positioned_new (slices_of t) desc from to after)) = decode_rows C page \<and>
     fst (ps_take X C w' m (positioned_new (slices_of t) desc from to (Some (fst (last page))))) =
       decode_rows C (take m (drop n (filter (asked desc from to after)
         (query_order desc (table_numbered t vs v)))))"
  using ps_take_todo [OF positioned_scan_todo [OF assms(1-3), of desc "from" "to" after], of C n]
    ps_take_todo [OF positioned_scan_todo [OF assms(1-3), of desc "from" "to" "Some (fst (last page))"], of C m]
    asked_next_page [OF assms(1,4,5)] assms(4)
  by (simp add: ps_keep_new)

section \<open>A table with three segments\<close>

text \<open>Two sealed segments, whose newest rows are not in order of time, and an empty active one.\<close>

definition demo_a :: seg_view where "demo_a = (ZERO_CHAIN, [(10, [1])])"
definition demo_b :: seg_view where "demo_b = (view_head demo_ext demo_a, [(1, [2])])"
definition demo_c :: seg_view where "demo_c = (view_head demo_ext demo_b, [])"

definition demo_table3 :: table where
  "demo_table3 = \<lparr>t_dir = [''t''],
     t_active = \<lparr>seg_path = segment_path [''t''] 2, seg_buf = seg_header (fst demo_c), seg_len = 37,
       seg_min_timestamp = u64_MAX, seg_max_timestamp = 0, seg_records = 0, seg_last_chain = fst demo_c\<rparr>,
     t_active_seq = 2,
     t_sealed = [(0, \<lparr>ss_path = segment_path [''t''] 0, ss_meta = rows_meta (snd demo_a)\<rparr>),
                 (1, \<lparr>ss_path = segment_path [''t''] 1, ss_meta = rows_meta (snd demo_b)\<rparr>)],
     t_max_segment_bytes = 80\<rparr>"

definition demo_fs3 :: fs where
  "demo_fs3 = \<lparr>fs_files =
     [(segment_path [''t''] 0, seg_image demo_ext (fst demo_a) (snd demo_a)),
      (segment_path [''t''] 1, seg_image demo_ext (fst demo_b) (snd demo_b)),
      (segment_path [''t''] 2, [])], fs_dirs = [[''t'']], fs_faults = []\<rparr>"

lemma demo_seeds: "length (fst demo_a) = 32" "length (fst demo_b) = 32" "length (fst demo_c) = 32"
  by (simp_all add: demo_a_def demo_b_def demo_c_def view_head_def length_chain_of)

lemma demo_linked: "linked demo_ext ([demo_a, demo_b] @ [demo_c])"
  by (simp add: demo_b_def demo_c_def)

lemma demo_heads: "hd (view_head demo_ext demo_a) = 1" "hd (view_head demo_ext demo_b) = 2"
  "hd ZERO_CHAIN = (0 :: u8)"
  by (simp_all add: view_head_def demo_a_def demo_b_def chain_next_def demo_ext_def ZERO_CHAIN_def hd_replicate)

lemma demo_fs3_names:
  "fget demo_fs3 ([''t''] @ [x]) \<noteq> None \<Longrightarrow> \<exists>n \<in> {0, 1, 2}. x = segment_name n"
  by (auto simp: fget_def demo_fs3_def segment_path_def split: if_splits)

lemma demo_table3_inv: "tbl_inv demo_ext demo_meta_codec [demo_a, demo_b] demo_c demo_table3 demo_fs3"
proof -
  have rows: "row_ok (10, [1])" "row_ok (1, [2])" by (simp_all add: row_ok_def)
  have meta: "read_meta demo_meta_codec (meta_path [''t''] n) demo_fs3 = None" for n
    by (simp add: read_meta_def fget_def demo_fs3_def)
  have "seg_inv demo_ext (fst demo_c) (snd demo_c) (t_active demo_table3) demo_fs3"
    using demo_seeds by (simp add: seg_inv_def demo_table3_def demo_fs3_def holds_def fget_def
        seg_image_def seg_books_def demo_c_def)
  moreover have "dir_clean demo_table3 demo_fs3"
    unfolding dir_clean_def
  proof (intro allI impI)
    fix x n assume "fget demo_fs3 (t_dir demo_table3 @ [x]) \<noteq> None" and p: "parse_segment_name x = Some n"
    then obtain m where m: "m \<in> {0, 1, 2}" "x = segment_name m"
      using demo_fs3_names [of x] by (auto simp: demo_table3_def)
    then have "m \<le> u64_max_nat" by (auto simp: u64_max_nat_def)
    with m p show "x = segment_name n \<and> (n = t_active_seq demo_table3 \<or> n \<in> fst ` set (t_sealed demo_table3))"
      by (auto simp: demo_table3_def)
  qed
  moreover have "metas_ok demo_meta_codec demo_table3 demo_fs3"
    using meta by (simp add: metas_ok_def demo_table3_def)
  moreover have "list_all2 (sealed_ok demo_ext demo_fs3 (t_dir demo_table3)) (t_sealed demo_table3) [demo_a, demo_b]"
    using demo_seeds rows
    by (simp add: sealed_ok_def demo_table3_def demo_fs3_def fget_def) (simp add: demo_a_def demo_b_def)
  moreover have "seg_path (t_active demo_table3) = segment_path (t_dir demo_table3) (t_active_seq demo_table3)"
    by (simp add: demo_table3_def)
  moreover have "bt_wf (t_sealed demo_table3)" by (simp add: bt_wf_def demo_table3_def)
  moreover have "\<forall>kv \<in> set (t_sealed demo_table3). fst kv < t_active_seq demo_table3" by (simp add: demo_table3_def)
  ultimately show ?thesis using demo_meta_codec_ok unfolding tbl_inv_def by blast
qed

lemma quiet_demo3: "quiet demo_fs3"
  by (simp add: quiet_def demo_fs3_def)

lemma demo_fs3_small:
  "length (seg_image demo_ext (fst demo_a) (snd demo_a)) \<le> u64_max_nat"
  "length (seg_image demo_ext (fst demo_b) (snd demo_b)) \<le> u64_max_nat"
  "length (seg_header (fst demo_c)) \<le> u64_max_nat"
  using demo_seeds
  by (simp_all add: demo_a_def demo_b_def seg_image_def length_frame stored_ok_def u64_max_nat_def)

lemma demo_snap3: "snap_ok demo_ext [demo_a, demo_b] demo_c demo_table3 demo_fs3'"
  if "demo_fs3' = fput (segment_path [''t''] 2) (seg_header (fst demo_c)) demo_fs3"
  using demo_table3_inv that
  by (auto simp: snap_ok_def tbl_inv_def demo_table3_def sealed_ok_def seg_image_def demo_c_def)

lemma demo_fit3: "files_fit (fput (segment_path [''t''] 2) (seg_header (fst demo_c)) demo_fs3)"
  using demo_fs3_small
  by (auto simp: files_fit_def fget_def demo_fs3_def fput_def split: if_splits)

lemma pagination_complete_witness:
  "fst (ps_take demo_ext bytes_codec (fput (segment_path [''t''] 2) (seg_header (fst demo_c)) demo_fs3) 1
     (positioned_new (slices_of demo_table3) False None None (Some (0, 0)))) =
   decode_rows bytes_codec [((1, 0), (1, [2]))]"
proof -
  have num: "table_numbered demo_table3 [demo_a, demo_b] demo_c = [((0, 0), (10, [1])), ((1, 0), (1, [2]))]"
    by (simp add: table_numbered_def demo_table3_def demo_a_def demo_b_def demo_c_def)
  have page: "[((0, 0), (10, [1]))] = take 1 (filter (asked False None None None)
      (query_order False (table_numbered demo_table3 [demo_a, demo_b] demo_c)))"
    by (simp add: num query_order_def asked_def)
  have "[((0, 0), (10, [1]))] \<noteq> ([] :: numbered list)" by simp
  then show ?thesis
    using pagination_complete [OF demo_table3_inv demo_snap3 [OF refl] demo_fit3 page, of bytes_codec 1]
    by (simp add: num query_order_def asked_def)
qed

section \<open>Retention\<close>

text \<open>
  \<open>purge_older_than\<close> on a disk without faults removes exactly the sealed segments whose
  newest row is older than the cutoff and returns their number; the active segment and the other
  rows stay. When the segments' newest timestamps ascend, what is removed is a prefix, so a
  linked table stays linked.
\<close>

theorem purge_older_than_correct:
  assumes "tbl_inv X M vs v t w" and "quiet w" and "purge_older_than cutoff (t, w) = (r, (t', w'))"
  shows "r = Inr (length (filter (\<lambda>u. view_max_ts u < cutoff) vs)) \<and>
     tbl_inv X M (filter (\<lambda>u. \<not> view_max_ts u < cutoff) vs) v t' w' \<and> same_outside (t_dir t) w w' \<and>
     (sorted (map view_max_ts vs) \<and> linked X (vs @ [v]) \<longrightarrow>
      linked X (filter (\<lambda>u. \<not> view_max_ts u < cutoff) vs @ [v]))"
  using purge_older_than_view [OF assms] purge_prefix_linked by blast

lemma purge_older_than_correct_witness:
  "\<exists>t' w'. purge_older_than 5 (demo_table3, demo_fs3) = (Inr 1, (t', w')) \<and>
     tbl_inv demo_ext demo_meta_codec [demo_a] demo_c t' w'"
proof -
  obtain r t' w' where run: "purge_older_than 5 (demo_table3, demo_fs3) = (r, (t', w'))" by (metis surj_pair)
  have "view_max_ts demo_a = 10" "view_max_ts demo_b = 1"
    by (simp_all add: view_max_ts_def demo_a_def demo_b_def)
  then show ?thesis
    using purge_older_than_correct [OF demo_table3_inv quiet_demo3 run] run by simp
qed

text \<open>
  rows whose timestamps are not in append order (an event recorded with a past
  \<open>occurred_at\<close>) make \<open>purge_older_than\<close> remove a segment from the middle of the chain: the
  segments before and after it no longer link up, and \<open>verify\<close> reports a removed segment on a
  table nobody has tampered with.
\<close>

theorem purge_can_break_chain:
  assumes inv: "tbl_inv X M [a, b] v t w" and lk: "linked X ([a, b] @ [v])" and q: "quiet w"
    and old: "view_max_ts b < cutoff" and new: "\<not> view_max_ts a < cutoff"
    and heads: "view_head X a \<noteq> view_head X b"
    and purge: "purge_older_than cutoff (t, w) = (r, (t1, w1))"
    and verify: "table_verify X (t1, w1) = (r', (t2, w2))" and fit: "files_fit w2"
  shows "r = Inr 1 \<and> (\<exists>p. r' = Inl (Corrupt p 0 SeedMismatch))"
proof -
  note P = purge_older_than_view [OF inv q purge]
  have rest: "filter (\<lambda>u. \<not> view_max_ts u < cutoff) [a, b] = [a]"
    and gone: "filter (\<lambda>u. view_max_ts u < cutoff) [a, b] = [b]" using old new by simp_all
  have inv1: "tbl_inv X M [a] v t1 w1" using P unfolding rest by blast
  have q1: "quiet w1" using P q same_outside_quiet by blast
  have nl: "\<not> linked X ([a] @ [v])" using lk heads by simp
  from inv1 fit verify have "\<exists>p. r' = Inl (Corrupt p 0 SeedMismatch)"
    by (cases rule: table_verify_cases) (use q1 nl in auto)
  then show ?thesis using P unfolding gone by simp
qed

lemma files_fit_sub:
  assumes "files_fit w" and "\<And>q. fget w' q \<in> {fget w q, None}"
  shows "files_fit w'"
  unfolding files_fit_def
proof (intro allI impI)
  fix p c assume "fget w' p = Some c"
  then have "fget w p = Some c" using assms(2) [of p] by auto
  then show "length c \<le> u64_max_nat" using assms(1) unfolding files_fit_def by blast
qed

lemma purge_can_break_chain_witness:
  "\<exists>t1 w1 t2 w2 p. purge_older_than 5 (demo_table3, demo_fs3) = (Inr 1, (t1, w1)) \<and>
     table_verify demo_ext (t1, w1) = (Inl (Corrupt p 0 SeedMismatch), (t2, w2))"
proof -
  let ?s1 = "(1, \<lparr>ss_path = segment_path [''t''] 1, ss_meta = rows_meta (snd demo_b)\<rparr>)"
  let ?t1 = "demo_table3\<lparr>t_sealed := [(0, \<lparr>ss_path = segment_path [''t''] 0, ss_meta = rows_meta (snd demo_a)\<rparr>)]\<rparr>"
  let ?w1 = "fdel (segment_path [''t''] 1) demo_fs3"
  have old: "view_max_ts demo_b < 5" "\<not> view_max_ts demo_a < 5"
    by (simp_all add: view_max_ts_def demo_a_def demo_b_def)
  have meta: "fget ?w1 (meta_path [''t''] 1) = None" by simp (simp add: fget_def demo_fs3_def)
  have there: "fget demo_fs3 (segment_path [''t''] 1) \<noteq> None" by (simp add: fget_def demo_fs3_def)
  have "filter (\<lambda>(_, s). m_max_timestamp (ss_meta s) < 5) (t_sealed demo_table3) = [?s1]"
    using old by (simp add: demo_table3_def rows_meta_def view_max_ts_def)
  moreover have "fs_remove_file (segment_path [''t''] 1) demo_fs3 = (Inr (), ?w1)"
    using there quiet_demo3 by (auto simp: fs_remove_file_def)
  moreover have "fs_remove_file (meta_path [''t''] 1) ?w1 = (Inl io_not_found, ?w1)"
    using meta by (simp add: fs_remove_file_def)
  ultimately have purge: "purge_older_than 5 (demo_table3, demo_fs3) = (Inr 1, (?t1, ?w1))"
    by (simp add: purge_older_than_def seqE_def on_disk_def ignoring_def demo_table3_def)
  obtain r t2 w2 where verify: "table_verify demo_ext (?t1, ?w1) = (r, (t2, w2))" by (metis surj_pair)
  obtain rf tf wf where fl: "table_flush (?t1, ?w1) = (rf, (tf, wf))" by (metis surj_pair)
  have active: "fget ?w1 (segment_path [''t''] 2) = Some []" by (simp add: fget_def demo_fs3_def fdel_def)
  have "quiet ?w1" using quiet_demo3 by simp
  then have "wf = fput (segment_path [''t''] 2) (seg_header (fst demo_c)) ?w1"
    using fl active by (simp add: table_flush_def on_active_def seg_flush_def bw_flush_buf_def demo_table3_def
        seg_header_def MAGIC_def fs_append_raw_def)
  moreover have "w2 = wf" using verify fl by (cases rf) (auto simp: table_verify_def seqE_def)
  ultimately have "files_fit w2"
    using files_fit_sub [OF demo_fit3, of w2] by auto
  moreover have "view_head demo_ext demo_a \<noteq> view_head demo_ext demo_b" using demo_heads by auto
  ultimately show ?thesis
    using purge_can_break_chain [OF demo_table3_inv demo_linked quiet_demo3 old _ purge verify] purge verify
    by blast
qed

section \<open>Reopening\<close>

text \<open>
  C11: opening a table directory again, after a clean stop or after a crash that lost whatever
  was still buffered. All sealed segments come back with their rows, with or without their
  sidecars; the active segment comes back with every row whose frame had reached the disk; the
  invariant holds for the reopened table.
\<close>

theorem table_reopen_correct:
  assumes "tbl_inv X M vs v t w" and "quiet w" and "fs_wf w" and "t_active_seq t \<le> u64_max_nat"
    and "fget w (segment_path (t_dir t) (t_active_seq t)) = Some c"
  shows "\<exists>t' w' k. table_open X M (t_dir t) b w = (Inr t', w') \<and> k \<le> length (snd v) \<and>
     tbl_inv X M vs (reopened (length c) k v) t' w' \<and>
     (\<forall>j \<le> length (snd v). length (seg_image X (fst v) (take j (snd v))) \<le> length c \<longrightarrow> j \<le> k)"
  using table_open_reopen [OF assms, of b] by blast

lemma demo3_wf: "fs_wf demo_fs3"
  by (simp add: fs_wf_def demo_fs3_def)

lemma demo3_active:
  "fget demo_fs3 (segment_path (t_dir demo_table3) (t_active_seq demo_table3)) = Some []"
  "t_active_seq demo_table3 \<le> u64_max_nat"
  by (simp_all add: fget_def demo_fs3_def demo_table3_def u64_max_nat_def)

lemma table_reopen_correct_witness:
  "\<exists>t' w'. table_open demo_ext demo_meta_codec (t_dir demo_table3) 80 demo_fs3 = (Inr t', w') \<and>
     tbl_inv demo_ext demo_meta_codec [demo_a, demo_b] (ZERO_CHAIN, []) t' w'"
  using table_reopen_correct [OF demo_table3_inv quiet_demo3 demo3_wf demo3_active(2) demo3_active(1), of 80]
  by (auto simp: reopened_def)

text \<open>
  a crash after a roll and before the new segment's header has reached the disk. Reopening
  gives that segment the zero seed instead of the head of its predecessor, so \<open>verify\<close> of the
  reopened table fails with a seed mismatch although no row was lost or altered.
\<close>

theorem crash_after_roll_breaks_chain:
  assumes inv: "tbl_inv X M (vs @ [u]) v t w" and q: "quiet w" and wf: "fs_wf w"
    and room: "t_active_seq t \<le> u64_max_nat"
    and c: "fget w (segment_path (t_dir t) (t_active_seq t)) = Some c" "length c < 37"
    and head: "view_head X u \<noteq> ZERO_CHAIN"
  shows "\<exists>t' w'. table_open X M (t_dir t) b w = (Inr t', w') \<and>
     (\<forall>r t'' w''. table_verify X (t', w') = (r, (t'', w'')) \<and> files_fit w'' \<longrightarrow>
        (\<exists>p. r = Inl (Corrupt p 0 SeedMismatch)))"
proof -
  obtain t' w' k where o': "table_open X M (t_dir t) b w = (Inr t', w')"
    and inv': "tbl_inv X M (vs @ [u]) (reopened (length c) k v) t' w'" and q': "quiet w'"
    using table_open_reopen [OF inv q wf room c(1), of b] by blast
  have nl: "\<not> linked X ((vs @ [u]) @ [reopened (length c) k v])"
    using head c(2) linked_snoc [of X vs u "reopened (length c) k v"] by (simp add: reopened_def)
  have "\<exists>p. r = Inl (Corrupt p 0 SeedMismatch)"
    if run: "table_verify X (t', w') = (r, (t'', w''))" and fit: "files_fit w''" for r t'' w''
    using inv' fit run by (cases rule: table_verify_cases) (use q' nl in auto)
  with o' show ?thesis by blast
qed

lemma crash_after_roll_breaks_chain_witness:
  "\<exists>t' w'. table_open demo_ext demo_meta_codec (t_dir demo_table3) 80 demo_fs3 = (Inr t', w') \<and>
     (\<forall>r t'' w''. table_verify demo_ext (t', w') = (r, (t'', w'')) \<and> files_fit w'' \<longrightarrow>
        (\<exists>p. r = Inl (Corrupt p 0 SeedMismatch)))"
proof -
  have "tbl_inv demo_ext demo_meta_codec ([demo_a] @ [demo_b]) demo_c demo_table3 demo_fs3"
    using demo_table3_inv by simp
  moreover have "view_head demo_ext demo_b \<noteq> ZERO_CHAIN" using demo_heads by auto
  ultimately show ?thesis
    using crash_after_roll_breaks_chain [OF _ quiet_demo3 demo3_wf demo3_active(2,1), of _ _ "[demo_a]" demo_b] by simp
qed

end
