(* ===== verification/Model.thy ===== *)
theory Model
  imports Errors
begin

text \<open>
  The data model: values, stored values, log rows and relation rows (\<open>model.rs\<close>), field and type
  schemas with their builders (\<open>schema.rs\<close>), and the query types (\<open>query.rs\<close>).

  A \<open>serde_json::Value\<close> is represented by its text (\<open>to_string\<close>), a \<open>f64\<close> by its 64 bits with
  the comparison of IEEE 754. The text of a number (\<open>format!("{n}")\<close>), the JSON parser and
  \<open>str::to_lowercase\<close> are parameters, bundled in \<open>textext\<close>. A Uid is its 128-bit number.
\<close>

type_synonym uid = u128

section \<open>Values\<close>

datatype fval = Text string | Number u64 | Json string

datatype value_kind = TextK | NumberK | JsonK

record textext =
  x_fmt_f64 :: "u64 \<Rightarrow> string"
  x_json_parse :: "string \<Rightarrow> string + string" \<comment> \<open>error text, or the text of the parsed fval\<close>
  x_lower :: "string \<Rightarrow> string"

text \<open>\<open>==\<close> on \<open>f64\<close>: a NaN equals nothing, the two zeros are equal.\<close>

definition f64_magnitude :: "u64 \<Rightarrow> nat" where
  "f64_magnitude b = unat b mod 2 ^ 63"

definition f64_is_nan :: "u64 \<Rightarrow> bool" where
  "f64_is_nan b \<longleftrightarrow> f64_magnitude b > 2047 * 2 ^ 52"

definition f64_eq :: "u64 \<Rightarrow> u64 \<Rightarrow> bool" where
  "f64_eq a b \<longleftrightarrow> \<not> f64_is_nan a \<and> \<not> f64_is_nan b \<and>
     (a = b \<or> (f64_magnitude a = 0 \<and> f64_magnitude b = 0))"

text \<open>The derived \<open>PartialEq\<close> of \<open>Value\<close>.\<close>

fun value_eq :: "fval \<Rightarrow> fval \<Rightarrow> bool" where
  "value_eq (Text a) (Text b) = (a = b)"
| "value_eq (Number a) (Number b) = f64_eq a b"
| "value_eq (Json a) (Json b) = (a = b)"
| "value_eq _ _ = False"

fun value_kind_of :: "fval \<Rightarrow> value_kind" where
  "value_kind_of (Text _) = TextK"
| "value_kind_of (Number _) = NumberK"
| "value_kind_of (Json _) = JsonK"

fun canonical_bytes :: "textext \<Rightarrow> fval \<Rightarrow> bytes" where
  "canonical_bytes N (Text s) = as_bytes s"
| "canonical_bytes N (Number n) = as_bytes (x_fmt_f64 N n)"
| "canonical_bytes N (Json j) = as_bytes j"

text \<open>The form a fval has on disk: JSON as a string, parsed again on the way in.\<close>

datatype value_repr = RText string | RNumber u64 | RJson string

fun value_to_repr :: "fval \<Rightarrow> value_repr" where
  "value_to_repr (Text s) = RText s"
| "value_to_repr (Number n) = RNumber n"
| "value_to_repr (Json j) = RJson j"

fun value_of_repr :: "textext \<Rightarrow> value_repr \<Rightarrow> string + fval" where
  "value_of_repr N (RText s) = Inr (Text s)"
| "value_of_repr N (RNumber n) = Inr (Number n)"
| "value_of_repr N (RJson s) = rbind (x_json_parse N s) (\<lambda>j. Inr (Json j))"

datatype stored_value =
    Plain fval
  | Sha256 string
  | Hmac u32 string
  | Rsa u32 string string string \<comment> \<open>key version, wrapped key, nonce, ciphertext\<close>

datatype content = CText string | CJson string

datatype content_repr = CRText string | CRJson string

fun content_to_repr :: "content \<Rightarrow> content_repr" where
  "content_to_repr (CText s) = CRText s"
| "content_to_repr (CJson j) = CRJson j"

fun content_of_repr :: "textext \<Rightarrow> content_repr \<Rightarrow> string + content" where
  "content_of_repr N (CRText s) = Inr (CText s)"
| "content_of_repr N (CRJson s) = rbind (x_json_parse N s) (\<lambda>j. Inr (CJson j))"

section \<open>Rows\<close>

record audit_log =
  al_log_id :: uid
  al_timestamp :: u64
  al_actor :: uid
  al_actor_type :: string
  al_method :: string
  al_url :: string
  al_content :: content
  al_custom :: "(string \<times> fval) list"

record target_relation =
  tr_log_id :: uid
  tr_entity_registry_uid :: uid
  tr_entity_type :: string

section \<open>Schemas\<close>

datatype field_protection = PNone | PSha256 | PHmac | PRsa

datatype field_index = INone | IExact | IPrefix nat | INgram nat

record field_def =
  fd_name :: string
  fd_kind :: value_kind
  fd_protection :: field_protection
  fd_indexed :: bool
  fd_required :: bool
  fd_search :: field_index

definition field_text :: "string \<Rightarrow> field_def" where
  "field_text name = \<lparr>fd_name = name, fd_kind = TextK, fd_protection = PNone,
     fd_indexed = False, fd_required = False, fd_search = INone\<rparr>"

definition field_indexed :: "field_def \<Rightarrow> field_def" where
  "field_indexed f = f\<lparr>fd_indexed := True\<rparr>"

definition field_required :: "field_def \<Rightarrow> field_def" where
  "field_required f = f\<lparr>fd_required := True\<rparr>"

definition field_kind :: "value_kind \<Rightarrow> field_def \<Rightarrow> field_def" where
  "field_kind k f = f\<lparr>fd_kind := k\<rparr>"

definition field_protection_as :: "field_protection \<Rightarrow> field_def \<Rightarrow> field_def" where
  "field_protection_as p f = f\<lparr>fd_protection := p\<rparr>"

definition field_search :: "field_index \<Rightarrow> field_def \<Rightarrow> field_def" where
  "field_search i f = f\<lparr>fd_search := i\<rparr>"

record type_schema =
  sc_type_name :: string
  sc_fields :: "field_def list"

definition schema_field :: "type_schema \<Rightarrow> string \<Rightarrow> field_def option" where
  "schema_field sc name = find (\<lambda>f. fd_name f = name) (sc_fields sc)"

definition default_target_type :: type_schema where
  "default_target_type = \<lparr>sc_type_name = ''default_target'',
     sc_fields = [field_required (field_indexed (field_text ''name'')), field_text ''description'']\<rparr>"

definition default_actor_type :: type_schema where
  "default_actor_type = \<lparr>sc_type_name = ''default_actor'',
     sc_fields = [field_required (field_indexed (field_text ''name'')), field_indexed (field_text ''role'')]\<rparr>"

record custom_column_def =
  cc_name :: string
  cc_kind :: value_kind
  cc_required :: bool
  cc_required_since :: "u64 option"

definition custom_column :: "string \<Rightarrow> value_kind \<Rightarrow> custom_column_def" where
  "custom_column name k = \<lparr>cc_name = name, cc_kind = k, cc_required = False, cc_required_since = None\<rparr>"

definition column_required :: "custom_column_def \<Rightarrow> custom_column_def" where
  "column_required c = c\<lparr>cc_required := True\<rparr>"

section \<open>Queries\<close>

datatype match_mode = Exact | ExactCi | Prefix | Contains

record target_filter =
  tf_entity_type :: string
  tf_field :: string
  tf_value :: "fval"
  tf_include_past :: bool
  tf_mode :: match_mode

definition filter_exact :: "string \<Rightarrow> string \<Rightarrow> fval \<Rightarrow> target_filter" where
  "filter_exact ty f v = \<lparr>tf_entity_type = ty, tf_field = f, tf_value = v, tf_include_past = True, tf_mode = Exact\<rparr>"

definition filter_mode :: "match_mode \<Rightarrow> target_filter \<Rightarrow> target_filter" where
  "filter_mode m f = f\<lparr>tf_mode := m\<rparr>"

definition filter_latest_only :: "target_filter \<Rightarrow> target_filter" where
  "filter_latest_only f = f\<lparr>tf_include_past := False\<rparr>"

datatype sort_order = Asc | Desc

record log_query =
  q_from_micros :: "u64 option"
  q_to_micros :: "u64 option"
  q_method :: "string option"
  q_url_prefix :: "string option"
  q_actor :: "target_filter option"
  q_targets :: "target_filter list"
  q_custom :: "(string \<times> fval) list"
  q_limit :: "nat option"
  q_order :: sort_order
  q_cursor :: "string option"

definition log_query_default :: log_query where
  "log_query_default = \<lparr>q_from_micros = None, q_to_micros = None, q_method = None, q_url_prefix = None,
     q_actor = None, q_targets = [], q_custom = [], q_limit = None, q_order = Desc, q_cursor = None\<rparr>"

record target_snapshot =
  sn_entity_registry_uid :: uid
  sn_entity_type :: string
  sn_entity_id :: string
  sn_version :: u32
  sn_fields :: "(string \<times> stored_value) list"
  sn_deleted :: bool
  sn_missing :: bool

record log_view =
  lv_log_id :: uid
  lv_timestamp_micros :: u64
  lv_timestamp :: string
  lv_actor :: target_snapshot
  lv_method :: string
  lv_url :: string
  lv_content :: content
  lv_targets :: "target_snapshot list"
  lv_custom :: "(string \<times> fval) list"

record query_page =
  qp_logs :: "log_view list"
  qp_next_cursor :: "string option"
  qp_segments_scanned :: nat

section \<open>Facts\<close>

text \<open>What is relied on of the JSON library: its printed values parse back to themselves.\<close>

definition json_ok :: "textext \<Rightarrow> string \<Rightarrow> bool" where
  "json_ok N j \<longleftrightarrow> x_json_parse N j = Inr j"

lemma value_repr_roundtrip:
  "(case v of Json j \<Rightarrow> json_ok N j | _ \<Rightarrow> True) \<Longrightarrow> value_of_repr N (value_to_repr v) = Inr v"
  by (cases v) (simp_all add: json_ok_def)

lemma content_repr_roundtrip:
  "(case c of CJson j \<Rightarrow> json_ok N j | _ \<Rightarrow> True) \<Longrightarrow> content_of_repr N (content_to_repr c) = Inr c"
  by (cases c) (simp_all add: json_ok_def)

lemma value_eq_sym: "value_eq a b = value_eq b a"
  by (induction a b rule: value_eq.induct) (auto simp: f64_eq_def)

lemma value_eq_kind: "value_eq a b \<Longrightarrow> value_kind_of a = value_kind_of b"
  by (induction a b rule: value_eq.induct) auto

lemma schema_field_name: "schema_field sc name = Some f \<Longrightarrow> fd_name f = name \<and> f \<in> set (sc_fields sc)"
  by (auto simp: schema_field_def find_Some_iff)

end
