(* ===== verification/Text_Codec.thy ===== *)
theory Text_Codec
  imports Errors Names
begin

text \<open>
  Text encodings the code implements itself: base64 with padding and lower-case hexadecimal
  (\<open>crates/quipu-core/src/crypto.rs\<close>), \<open>from_str_radix(16)\<close>, and the textual form of a Uid
  (\<open>id.rs\<close>). Shifts of values below \<open>2 ^ 24\<close> are written as multiplication and division; the
  decoder's 32-bit accumulator is reduced modulo \<open>2 ^ 32\<close>.
\<close>

unbundle bit_operations_syntax

section \<open>Base64\<close>

definition ALPHABET :: string where
  "ALPHABET = ''ABCDEFGHIJKLMNOPQRSTUVWXYZabcdefghijklmnopqrstuvwxyz0123456789+/''"

definition b64_char :: "nat \<Rightarrow> char" where
  "b64_char k = ALPHABET ! (k mod 64)"

definition b64_chunk :: "nat \<Rightarrow> nat \<Rightarrow> nat \<Rightarrow> nat" where
  "b64_chunk a b c = a * 65536 + b * 256 + c"

fun b64_encode :: "bytes \<Rightarrow> string" where
  "b64_encode [] = []"
| "b64_encode [a] =
     (let n = b64_chunk (unat a) 0 0
      in [b64_char (n div 262144), b64_char (n div 4096), CHR ''='', CHR ''=''])"
| "b64_encode [a, b] =
     (let n = b64_chunk (unat a) (unat b) 0
      in [b64_char (n div 262144), b64_char (n div 4096), b64_char (n div 64), CHR ''=''])"
| "b64_encode (a # b # c # rest) =
     (let n = b64_chunk (unat a) (unat b) (unat c)
      in [b64_char (n div 262144), b64_char (n div 4096), b64_char (n div 64), b64_char n]
         @ b64_encode rest)"

fun position_of :: "'a \<Rightarrow> 'a list \<Rightarrow> nat option" where
  "position_of x [] = None"
| "position_of x (y # ys) = (if x = y then Some 0 else map_option Suc (position_of x ys))"

fun b64_loop :: "string \<Rightarrow> nat \<Rightarrow> nat \<Rightarrow> bytes \<Rightarrow> bytes option" where
  "b64_loop [] acc bits buf = Some buf"
| "b64_loop (c # cs) acc bits buf =
     (if c = CHR ''='' then Some buf
      else case position_of c ALPHABET of
             None \<Rightarrow> None
           | Some v \<Rightarrow>
               let acc' = (acc * 64 + v) mod 4294967296
               in if bits + 6 \<ge> 8
                  then b64_loop cs acc' (bits - 2) (buf @ [word_of_nat (acc' div 2 ^ (bits - 2))])
                  else b64_loop cs acc' (bits + 6) buf)"

definition b64_decode :: "string \<Rightarrow> bytes option" where
  "b64_decode s = b64_loop s 0 0 []"

lemma position_alphabet: "k < 64 \<Longrightarrow> position_of (ALPHABET ! k) ALPHABET = Some k"
proof -
  have "\<forall>k \<in> set [0..<64]. position_of (ALPHABET ! k) ALPHABET = Some k"
    by (simp add: upt_rec ALPHABET_def)
  then show "k < 64 \<Longrightarrow> position_of (ALPHABET ! k) ALPHABET = Some k" by simp
qed

lemma position_b64_char [simp]: "position_of (b64_char k) ALPHABET = Some (k mod 64)"
  by (simp add: b64_char_def position_alphabet)

lemma b64_char_not_pad [simp]: "b64_char k \<noteq> CHR ''=''"
proof
  assume "b64_char k = CHR ''=''"
  then have "position_of (CHR ''='') ALPHABET = Some (k mod 64)" by (metis position_b64_char)
  then show False by (simp add: ALPHABET_def)
qed

text \<open>The top bits of the accumulator do not reach the byte that is pushed.\<close>

lemma acc_byte:
  "(word_of_nat ((x mod 4294967296) div 2 ^ k) :: u8) = word_of_nat (x div 2 ^ k mod 256)"
  if "k \<le> 24"
proof -
  have "x mod (2 ^ k * 2 ^ (32 - k)) div 2 ^ k = x div 2 ^ k mod 2 ^ (32 - k)"
    by (simp add: mod_mult2_eq)
  moreover have "(2 :: nat) ^ k * 2 ^ (32 - k) = 4294967296"
    using that by (simp flip: power_add)
  ultimately have "x mod 4294967296 div 2 ^ k mod 256 = x div 2 ^ k mod 2 ^ (32 - k) mod 256" by simp
  also have "(256 :: nat) dvd 2 ^ (32 - k)" using that le_imp_power_dvd [of 8 "32 - k" "2 :: nat"] by simp
  then have "x div 2 ^ k mod 2 ^ (32 - k) mod 256 = x div 2 ^ k mod 256" by (rule mod_mod_cancel)
  finally have "x mod 4294967296 div 2 ^ k mod 256 = x div 2 ^ k mod 256" .
  then show ?thesis by (intro word_unat_eq_iff [THEN iffD2]) (simp add: unat_of_nat)
qed

lemma unat_chunk: "unat (a :: u8) < 256"
  by (rule unat_byte_bound)

text \<open>What an accumulator holds in its low bits after one more character.\<close>

lemma acc_step:
  assumes "v < 64" and "64 * m dvd (4294967296 :: nat)"
  shows "(x * 64 + v) mod 4294967296 mod (64 * m) = x mod m * 64 + v"
proof -
  have "(x * 64 + v) mod 4294967296 mod (64 * m) = (x * 64 + v) mod (64 * m)"
    using assms(2) by (rule mod_mod_cancel)
  also have "\<dots> = 64 * ((x * 64 + v) div 64 mod m) + (x * 64 + v) mod 64" by (rule mod_mult2_eq)
  finally show ?thesis using assms(1) by simp
qed

lemma chunk_digits:
  assumes "(n :: nat) < 16777216"
  shows "n div 262144 mod 64 * 64 + n div 4096 mod 64 = n div 4096"
    "n div 4096 * 64 + n div 64 mod 64 = n div 64" "n div 64 * 64 + n mod 64 = n"
proof -
  have q: "n div 4096 < 4096" using assms by (simp add: div_less_iff_less_mult)
  then have "n div 4096 div 64 < 64" by (simp add: div_less_iff_less_mult)
  moreover have "n div 262144 = n div 4096 div 64" using div_mult2_eq [of n 4096 64] by simp
  ultimately show "n div 262144 mod 64 * 64 + n div 4096 mod 64 = n div 4096"
    by (metis div_mult_mod_eq mod_less)
  have "n div 4096 = n div 64 div 64" using div_mult2_eq [of n 64 64] by simp
  then show "n div 4096 * 64 + n div 64 mod 64 = n div 64" by (metis div_mult_mod_eq)
  show "n div 64 * 64 + n mod 64 = n" by (rule div_mult_mod_eq)
qed

definition acc_after :: "nat \<Rightarrow> nat \<Rightarrow> nat" where
  "acc_after acc v = (acc * 64 + v mod 64) mod 4294967296"

lemma b64_loop_char:
  "b64_loop (b64_char k # cs) acc bits buf =
     (if bits + 6 \<ge> 8
      then b64_loop cs (acc_after acc k) (bits - 2) (buf @ [word_of_nat (acc_after acc k div 2 ^ (bits - 2))])
      else b64_loop cs (acc_after acc k) (bits + 6) buf)"
  by (simp add: acc_after_def Let_def)

lemma acc_after_1: "acc_after acc k mod 64 = k mod 64"
  using acc_step [of "k mod 64" 1 acc] by (simp add: acc_after_def)

lemma acc_after_2:
  "acc_after (acc_after acc k) l mod 4096 = k mod 64 * 64 + l mod 64"
  using acc_step [of "l mod 64" 64 "acc_after acc k"] acc_after_1 [of acc k] by (subst acc_after_def) simp

lemma acc_after_3:
  "acc_after (acc_after (acc_after acc k) l) m mod 262144 = (k mod 64 * 64 + l mod 64) * 64 + m mod 64"
  using acc_step [of "m mod 64" 4096 "acc_after (acc_after acc k) l"] acc_after_2 [of acc k l]
  by (subst acc_after_def) simp

lemma acc_after_4:
  "acc_after (acc_after (acc_after (acc_after acc k) l) m) j mod 16777216 =
     ((k mod 64 * 64 + l mod 64) * 64 + m mod 64) * 64 + j mod 64"
  using acc_step [of "j mod 64" 262144 "acc_after (acc_after (acc_after acc k) l) m"] acc_after_3 [of acc k l m]
  by (subst acc_after_def) simp

lemma byte_of_acc:
  "(word_of_nat (x div 2 ^ k) :: u8) = word_of_nat (x mod (256 * 2 ^ k) div 2 ^ k)"
proof -
  have "x mod (2 ^ k * 256) div 2 ^ k = x div 2 ^ k mod 256" by (simp add: mod_mult2_eq)
  then show ?thesis by (intro word_unat_eq_iff [THEN iffD2]) (simp add: unat_of_nat mult.commute)
qed

text \<open>The bytes decoded from the characters of \<open>n < 2 ^ 24\<close>.\<close>

lemma first_byte:
  assumes "n < 16777216"
  shows "(word_of_nat (acc_after (acc_after acc (n div 262144)) (n div 4096) div 16) :: u8) =
    word_of_nat (n div 65536)"
  using byte_of_acc [of "acc_after (acc_after acc (n div 262144)) (n div 4096)" 4]
    acc_after_2 [of acc "n div 262144" "n div 4096"] chunk_digits [OF assms]
    div_mult2_eq [of n 4096 16] by simp

lemma second_byte:
  assumes "n < 16777216"
  shows "(word_of_nat (acc_after (acc_after (acc_after acc (n div 262144)) (n div 4096)) (n div 64) div 4) :: u8) =
    word_of_nat (n div 256 mod 256)"
proof -
  let ?A = "acc_after (acc_after (acc_after acc (n div 262144)) (n div 4096)) (n div 64)"
  have "?A mod 262144 mod 1024 = n div 64 mod 1024"
    using acc_after_3 [of acc "n div 262144" "n div 4096" "n div 64"] chunk_digits [OF assms] by simp
  then have "?A mod 1024 = n div 64 mod 1024" using mod_mod_cancel [of 1024 262144 ?A] by simp
  moreover have "n div 64 mod (4 * 256) div 4 = n div 256 mod 256"
    using div_mult2_eq [of n 64 4] by (simp only: mod_mult2_eq) simp
  ultimately show ?thesis using byte_of_acc [of ?A 2] by simp
qed

lemma third_byte:
  assumes "n < 16777216"
  shows "(word_of_nat (acc_after (acc_after (acc_after (acc_after acc (n div 262144)) (n div 4096)) (n div 64)) n) :: u8) =
    word_of_nat (n mod 256)"
proof -
  let ?A = "acc_after (acc_after (acc_after (acc_after acc (n div 262144)) (n div 4096)) (n div 64)) n"
  have "?A mod 16777216 mod 256 = n mod 256"
    using acc_after_4 [of acc "n div 262144" "n div 4096" "n div 64" n] chunk_digits [OF assms] by simp
  then have "?A mod 256 = n mod 256" using mod_mod_cancel [of 256 16777216 ?A] by simp
  then show ?thesis using byte_of_acc [of ?A 0] by simp
qed

lemma chunk_bytes:
  assumes "a < 256" "b < 256" "c < 256"
  shows "b64_chunk a b c < 16777216" "b64_chunk a b c div 65536 = a"
    "b64_chunk a b c div 256 mod 256 = b" "b64_chunk a b c mod 256 = c"
proof -
  show "b64_chunk a b c < 16777216" using assms by (simp add: b64_chunk_def)
  have *: "b64_chunk a b c = (a * 256 + b) * 256 + c" by (simp add: b64_chunk_def)
  then have "b64_chunk a b c div 256 = a * 256 + b" using assms by simp
  then show "b64_chunk a b c div 65536 = a" "b64_chunk a b c div 256 mod 256 = b"
    using assms div_mult2_eq [of "b64_chunk a b c" 256 256] by simp_all
  show "b64_chunk a b c mod 256 = c" unfolding * mod_mult_self3 using assms by simp
qed

lemma b64_roundtrip_acc: "b64_loop (b64_encode bs) acc 0 buf = Some (buf @ bs)"
proof (induction bs arbitrary: acc buf rule: b64_encode.induct)
  case 1
  then show ?case by simp
next
  case (2 a)
  note n = chunk_bytes [OF unat_byte_bound [of a], of 0 0]
  show ?case
    using first_byte [OF n(1), of acc] n(2) by (simp add: b64_loop_char Let_def del: b64_loop.simps(2)) simp
next
  case (3 a b)
  note n = chunk_bytes [OF unat_byte_bound [of a] unat_byte_bound [of b], of 0]
  show ?case
    using first_byte [OF n(1), of acc] second_byte [OF n(1), of acc] n(2,3)
    by (simp add: b64_loop_char Let_def del: b64_loop.simps(2)) simp
next
  case (4 a b c rest)
  note n = chunk_bytes [OF unat_byte_bound [of a] unat_byte_bound [of b] unat_byte_bound [of c]]
  show ?case
    using first_byte [OF n(1), of acc] second_byte [OF n(1), of acc] third_byte [OF n(1), of acc] n(2-4) 4
    by (simp add: b64_loop_char Let_def del: b64_loop.simps(2))
qed

lemma b64_roundtrip: "b64_decode (b64_encode bs) = Some bs"
  by (simp add: b64_decode_def b64_roundtrip_acc)

section \<open>Hexadecimal\<close>

definition hex_char :: "nat \<Rightarrow> char" where
  "hex_char d = (if d < 10 then char_of (48 + d) else char_of (87 + d))"

definition hex_val :: "char \<Rightarrow> nat option" where
  "hex_val c = (let n = of_char c in
     if 48 \<le> n \<and> n \<le> 57 then Some (n - 48)
     else if 97 \<le> n \<and> n \<le> 102 then Some (n - 87)
     else if 65 \<le> n \<and> n \<le> 70 then Some (n - 55)
     else None)"

lemma hex_val_char [simp]: "d < 16 \<Longrightarrow> hex_val (hex_char d) = Some d"
  by (simp add: hex_val_def hex_char_def Let_def of_char_of)

text \<open>The \<open>k\<close> low hexadecimal digits of \<open>n\<close>, most significant first.\<close>

primrec hex_digits :: "nat \<Rightarrow> nat \<Rightarrow> string" where
  "hex_digits 0 n = []"
| "hex_digits (Suc k) n = hex_digits k (n div 16) @ [hex_char (n mod 16)]"

definition hex :: "bytes \<Rightarrow> string" where
  "hex digest = concat (map (\<lambda>b. hex_digits 2 (unat b)) digest)"

fun radix16_val :: "nat \<Rightarrow> string \<Rightarrow> nat option" where
  "radix16_val acc [] = Some acc"
| "radix16_val acc (c # cs) =
     (case hex_val c of None \<Rightarrow> None | Some d \<Rightarrow> radix16_val (16 * acc + d) cs)"

text \<open>\<open>from_str_radix(s, 16)\<close> of an unsigned type with largest value \<open>mx\<close>: like every \<open>FromStr\<close>
  of an integer it accepts a leading \<open>+\<close>.\<close>

definition from_str_radix16 :: "nat \<Rightarrow> string \<Rightarrow> nat option" where
  "from_str_radix16 mx s =
     (let body = (case s of c # cs \<Rightarrow> if c = CHR ''+'' then cs else s | [] \<Rightarrow> [])
      in if body = [] then None
         else case radix16_val 0 body of
                None \<Rightarrow> None
              | Some n \<Rightarrow> if n \<le> mx then Some n else None)"

fun hex_pairs :: "string \<Rightarrow> bytes option" where
  "hex_pairs (a # b # rest) =
     (case from_str_radix16 255 [a, b] of
        None \<Rightarrow> None
      | Some v \<Rightarrow> map_option (\<lambda>bs. word_of_nat v # bs) (hex_pairs rest))"
| "hex_pairs _ = Some []"

definition hex_decode :: "string \<Rightarrow> bytes option" where
  "hex_decode s = (if \<not> even (length s) then None else hex_pairs s)"

lemma length_hex_digits [simp]: "length (hex_digits k n) = k"
  by (induction k arbitrary: n) auto

lemma radix16_append:
  "radix16_val acc (xs @ ys) = (case radix16_val acc xs of None \<Rightarrow> None | Some a \<Rightarrow> radix16_val a ys)"
  by (induction acc xs rule: radix16_val.induct) (auto split: option.splits)

lemma radix16_hex_digits: "radix16_val 0 (hex_digits k n) = Some (n mod 16 ^ k)"
proof (induction k arbitrary: n)
  case 0
  then show ?case by simp
next
  case (Suc k)
  have "16 * (n div 16 mod 16 ^ k) + n mod 16 = n mod (16 * 16 ^ k)" by (simp only: mod_mult2_eq)
  then show ?case using Suc by (simp add: radix16_append)
qed

lemma hd_hex_digits: "\<exists>d < 16. hd (hex_digits (Suc k) n) = hex_char d"
proof (induction k arbitrary: n)
  case 0
  have "hd (hex_digits (Suc 0) n) = hex_char (n mod 16)" by simp
  then show ?case by (metis mod_less_divisor zero_less_numeral)
next
  case (Suc k)
  have "hex_digits (Suc k) (n div 16) \<noteq> []" by (metis length_hex_digits length_0_conv nat.distinct(1))
  then have "hd (hex_digits (Suc (Suc k)) n) = hd (hex_digits (Suc k) (n div 16))"
    by (subst hex_digits.simps(2)) (rule hd_append2)
  then show ?case using Suc [of "n div 16"] by simp
qed

lemma hex_char_not_plus: "d < 16 \<Longrightarrow> hex_char d \<noteq> CHR ''+''"
proof
  assume "d < 16" and "hex_char d = CHR ''+''"
  then have "hex_val (CHR ''+'') = Some d" by (metis hex_val_char)
  then show False by (simp add: hex_val_def Let_def)
qed

lemma from_radix_hex_digits:
  assumes "0 < k" and "n < 16 ^ k" and "n \<le> mx"
  shows "from_str_radix16 mx (hex_digits k n) = Some n"
proof -
  obtain c cs where cs: "hex_digits k n = c # cs" using assms(1) by (metis length_hex_digits length_0_conv list.exhaust not_less0)
  have "c \<noteq> CHR ''+''" using hd_hex_digits [of "k - 1" n] hex_char_not_plus assms(1) cs
    by (metis list.sel(1) Suc_pred')
  moreover have "radix16_val 0 (c # cs) = Some n" using radix16_hex_digits [of k n] cs assms(2) by simp
  ultimately show ?thesis using assms(3) by (simp add: from_str_radix16_def cs del: radix16_val.simps)
qed

lemma hex_decode_hex: "hex_decode (hex bs) = Some bs"
proof -
  have "even (length (hex bs))" by (induction bs) (simp_all add: hex_def)
  moreover have "hex_pairs (hex bs) = Some bs"
  proof (induction bs)
    case Nil
    then show ?case by (simp add: hex_def)
  next
    case (Cons b bs)
    have "length (hex_digits 2 (unat b)) = 2" by simp
    then obtain x y where xy: "hex_digits 2 (unat b) = [x, y]"
      by (metis (no_types) Suc_1 length_0_conv length_Suc_conv One_nat_def)
    have "from_str_radix16 255 (hex_digits 2 (unat b)) = Some (unat b)"
      using unat_byte_bound [of b] by (intro from_radix_hex_digits) simp_all
    then show ?case using Cons xy by (simp add: hex_def)
  qed
  ultimately show ?thesis by (simp add: hex_decode_def)
qed

section \<open>Uids\<close>

text \<open>
  \<open>Uid::generate\<close> from the clock in microseconds, the process-wide counter and ten random bytes:
  milliseconds in the upper 48 bits, the random part, with the counter folded in, below.
\<close>

definition uid_low :: "nat \<Rightarrow> bytes \<Rightarrow> nat" where
  "uid_low seq rand_part =
     (let r8 = (rand_part ! 8) XOR (word_of_nat (seq div 256)); r9 = (rand_part ! 9) XOR (word_of_nat seq)
      in foldl (\<lambda>low b. low * 256 + unat b) 0 (rand_part[8 := r8, 9 := r9]))"

definition uid_generate :: "u64 \<Rightarrow> nat \<Rightarrow> bytes \<Rightarrow> u128" where
  "uid_generate now_micros seq rand_part =
     push_bit 80 (word_of_nat (unat now_micros div 1000)) OR word_of_nat (uid_low seq rand_part)"

definition uid_timestamp_ms :: "u128 \<Rightarrow> u64" where
  "uid_timestamp_ms u = word_of_nat (unat u div 2 ^ 80)"

definition uid_to_hex :: "u128 \<Rightarrow> string" where
  "uid_to_hex u = hex_digits 32 (unat u)"

definition uid_from_hex :: "string \<Rightarrow> u128 option" where
  "uid_from_hex s = map_option word_of_nat (from_str_radix16 (2 ^ 128 - 1) s)"

lemma uid_hex_roundtrip: "uid_from_hex (uid_to_hex u) = Some u"
proof -
  have "unat u < 2 ^ 128" using unsigned_less [of u] by (simp flip: of_nat_less_iff [where 'a = int])
  then have "from_str_radix16 (2 ^ 128 - 1) (hex_digits 32 (unat u)) = Some (unat u)"
    by (intro from_radix_hex_digits) simp_all
  then show ?thesis by (simp add: uid_from_hex_def uid_to_hex_def)
qed

lemma uid_low_bound:
  assumes "length rand_part = 10"
  shows "uid_low seq rand_part < 2 ^ 80"
proof -
  have fold: "foldl (\<lambda>low b. low * 256 + unat b) a bs < (a + 1) * 256 ^ length bs" for a and bs :: bytes
  proof (induction bs arbitrary: a)
    case (Cons b bs)
    have "foldl (\<lambda>low b. low * 256 + unat b) a (b # bs) < (a * 256 + unat b + 1) * 256 ^ length bs"
      using Cons by simp
    also have "\<dots> \<le> ((a + 1) * 256) * 256 ^ length bs"
      using unat_byte_bound [of b] by (intro mult_le_mono1) simp
    finally show ?case by (simp add: algebra_simps)
  qed simp
  show ?thesis using fold [of 0 "rand_part[8 := _, 9 := _]"] assms by (simp add: uid_low_def Let_def)
qed

lemma uid_generate_value:
  assumes "length rand_part = 10" and "unat now div 1000 < 2 ^ 48"
  shows "unat (uid_generate now seq rand_part) = (unat now div 1000) * 2 ^ 80 + uid_low seq rand_part"
proof -
  let ?ms = "unat now div 1000" and ?low = "uid_low seq rand_part"
  have low: "?low < 2 ^ 80" using uid_low_bound [OF assms(1)] .
  have bound: "?ms * 2 ^ 80 + ?low < 2 ^ 128"
  proof -
    have "?ms * 2 ^ 80 + ?low < (?ms + 1) * 2 ^ 80" using low by simp
    also have "\<dots> \<le> 2 ^ 48 * 2 ^ 80" using assms(2) by (intro mult_le_mono1) simp
    finally show ?thesis by simp
  qed
  let ?a = "push_bit 80 ?ms"
  have tk: "take_bit 80 ?low = ?low" using low by (simp add: take_bit_nat_eq_self)
  have "?a AND ?low = 0"
  proof (rule bit_eqI)
    fix i show "bit (?a AND ?low) i = bit 0 i"
      using arg_cong [OF tk, of "\<lambda>x. bit x i"] by (auto simp: bit_and_iff bit_push_bit_iff bit_take_bit_iff)
  qed
  then have sum: "?a OR ?low = ?a + ?low" by (simp add: disjunctive_add_eq_or)
  have a: "?a = ?ms * 2 ^ 80" by (simp add: push_bit_eq_mult)
  have "?ms < 2 ^ 128" using assms(2) by simp
  then have "unat (word_of_nat ?ms :: u128) = ?ms" by (simp add: unat_of_nat)
  then have 1: "unat (push_bit 80 (word_of_nat ?ms) :: u128) = ?a"
    using bound a by (simp add: unsigned_push_bit_eq take_bit_nat_eq_self)
  have 2: "unat (word_of_nat ?low :: u128) = ?low" using low by (simp add: unat_of_nat)
  show ?thesis unfolding uid_generate_def unsigned_or_eq 1 2 using sum a by simp
qed

lemma uid_generate_timestamp:
  assumes "length rand_part = 10" and "unat now div 1000 < 2 ^ 48"
  shows "uid_timestamp_ms (uid_generate now seq rand_part) = now div 1000"
proof -
  have "unat (uid_generate now seq rand_part) div 2 ^ 80 = unat now div 1000"
    using uid_low_bound [OF assms(1), of seq] by (simp add: uid_generate_value [OF assms])
  then have "uid_timestamp_ms (uid_generate now seq rand_part) = word_of_nat (unat now div 1000)"
    by (simp add: uid_timestamp_ms_def)
  also have "word_of_nat (unat now div 1000) = now div 1000"
  proof -
    have "unat (now div 1000) = unat now div 1000" by (simp add: unat_div_distrib)
    moreover have "word_of_nat (unat (now div 1000)) = now div 1000" by simp
    ultimately show ?thesis by simp
  qed
  finally show ?thesis .
qed

lemma uid_generate_less:
  assumes "length r = 10" and "length r' = 10" and "unat now' div 1000 < 2 ^ 48"
    and "unat now div 1000 < unat now' div 1000"
  shows "uid_generate now seq r < uid_generate now' seq' r'"
proof -
  have b: "unat now div 1000 < 2 ^ 48" using assms by linarith
  have "unat (uid_generate now seq r) < unat (uid_generate now' seq' r')"
  proof -
    have "(unat now div 1000) * 2 ^ 80 + uid_low seq r < (unat now div 1000 + 1) * 2 ^ 80"
      using uid_low_bound [OF assms(1), of seq] by simp
    also have "\<dots> \<le> (unat now' div 1000) * 2 ^ 80" using assms(4) by (intro mult_le_mono1) simp
    finally show ?thesis
      by (simp only: uid_generate_value [OF assms(1) b] uid_generate_value [OF assms(2,3)])
  qed
  then show ?thesis by (simp add: word_less_nat_alt)
qed

section \<open>UTF-8\<close>

text \<open>
  UTF-8 as the standard library reads it: \<open>String::from_utf8\<close> (a check) and
  \<open>String::from_utf8_lossy\<close> (every maximal ill-formed prefix of a character becomes U+FFFD).
\<close>

definition utf8_cont :: "bytes \<Rightarrow> nat \<Rightarrow> u8 \<Rightarrow> u8 \<Rightarrow> bool" where
  "utf8_cont bs i lo hi \<longleftrightarrow> i < length bs \<and> lo \<le> bs ! i \<and> bs ! i \<le> hi"

text \<open>Whether the bytes start with a well-formed character, and the number of bytes read.\<close>

definition utf8_step :: "bytes \<Rightarrow> bool \<times> nat" where
  "utf8_step bs =
     (let b = hd bs in
      if b < 0x80 then (True, 1)
      else if 0xC2 \<le> b \<and> b \<le> 0xDF then
        (if utf8_cont bs 1 0x80 0xBF then (True, 2) else (False, 1))
      else if 0xE0 \<le> b \<and> b \<le> 0xEF then
        (if \<not> utf8_cont bs 1 (if b = 0xE0 then 0xA0 else 0x80) (if b = 0xED then 0x9F else 0xBF) then (False, 1)
         else if \<not> utf8_cont bs 2 0x80 0xBF then (False, 2) else (True, 3))
      else if 0xF0 \<le> b \<and> b \<le> 0xF4 then
        (if \<not> utf8_cont bs 1 (if b = 0xF0 then 0x90 else 0x80) (if b = 0xF4 then 0x8F else 0xBF) then (False, 1)
         else if \<not> utf8_cont bs 2 0x80 0xBF then (False, 2)
         else if \<not> utf8_cont bs 3 0x80 0xBF then (False, 3) else (True, 4))
      else (False, 1))"

fun utf8_valid :: "bytes \<Rightarrow> bool" where
  "utf8_valid [] = True"
| "utf8_valid (b # bs) = (case utf8_step (b # bs) of (ok, n) \<Rightarrow> ok \<and> utf8_valid (drop (n - 1) bs))"

fun utf8_lossy :: "bytes \<Rightarrow> bytes" where
  "utf8_lossy [] = []"
| "utf8_lossy (b # bs) =
     (case utf8_step (b # bs) of (ok, n) \<Rightarrow>
        (if ok then take n (b # bs) else [0xEF, 0xBF, 0xBD]) @ utf8_lossy (drop (n - 1) bs))"

lemma utf8_step_pos: "utf8_step bs = (ok, n) \<Longrightarrow> 1 \<le> n"
  by (auto simp: utf8_step_def Let_def split: if_splits)

lemma utf8_lossy_valid: "utf8_valid bs \<Longrightarrow> utf8_lossy bs = bs"
proof (induction bs rule: utf8_lossy.induct)
  case (2 b bs)
  obtain ok n where s: "utf8_step (b # bs) = (ok, n)" by force
  have n: "1 \<le> n" by (rule utf8_step_pos [OF s])
  have ok and v: "utf8_valid (drop (n - 1) bs)" using 2(2) by (simp_all add: s)
  have "utf8_lossy (drop (n - 1) bs) = drop (n - 1) bs" using 2(1) s v by simp
  then show ?case using n \<open>ok\<close> by (simp add: s) (cases n; simp)
qed simp

definition ascii :: "string \<Rightarrow> bool" where
  "ascii s \<longleftrightarrow> list_all (\<lambda>c. (of_char c :: nat) < 128) s"

lemma ascii_simps [simp]: "ascii []" "ascii (c # s) \<longleftrightarrow> (of_char c :: nat) < 128 \<and> ascii s"
  "ascii (s @ t) \<longleftrightarrow> ascii s \<and> ascii t"
  by (simp_all add: ascii_def)

lemma ascii_concat: "ascii (concat ss) \<longleftrightarrow> list_all ascii ss"
  by (induction ss) simp_all

lemma utf8_valid_ascii: "ascii s \<Longrightarrow> utf8_valid (as_bytes s)"
proof (induction s)
  case (Cons c s)
  have "unat (word_of_nat (of_char c) :: u8) = of_char c"
    by (simp add: unat_of_nat of_char_mod_256)
  then have "(word_of_nat (of_char c) :: u8) < 0x80"
    using Cons.prems by (simp add: word_less_nat_alt)
  then show ?case using Cons by (simp add: as_bytes_def utf8_step_def)
qed (simp add: as_bytes_def)

end
