(* ===== verification/Key_Ring.thy ===== *)
theory Key_Ring
  imports Model Text_Codec
begin

text \<open>
  Key material and field protection (\<open>KeyRing\<close> in \<open>crates/quipu-core/src/crypto.rs\<close>).

  The primitives (crates \<open>sha2\<close>, \<open>hmac\<close>, \<open>rsa\<close>, \<open>aes-gcm\<close>) are the parameters bundled in
  \<open>cryptoext\<close>; keys are the bytes they are parsed to, errors of the libraries are their texts.
  Randomness is an input: \<open>rnd\<close> holds what one call draws.
\<close>

section \<open>External functions\<close>

record cryptoext =
  cx_sha256 :: "bytes \<Rightarrow> bytes"
  cx_hmac :: "bytes \<Rightarrow> bytes \<Rightarrow> bytes"
  cx_parse_public :: "string \<Rightarrow> string + bytes"
  cx_parse_private :: "string \<Rightarrow> string + bytes"
  cx_to_public :: "bytes \<Rightarrow> bytes"
  cx_rsa_encrypt :: "bytes \<Rightarrow> bytes \<Rightarrow> bytes \<Rightarrow> string + bytes" \<comment> \<open>public key, randomness, message\<close>
  cx_rsa_decrypt :: "bytes \<Rightarrow> bytes \<Rightarrow> string + bytes"
  cx_rsa_sign :: "bytes \<Rightarrow> bytes \<Rightarrow> string + bytes"
  cx_rsa_verify :: "bytes \<Rightarrow> bytes \<Rightarrow> bytes \<Rightarrow> string + unit"
  cx_aes_encrypt :: "bytes \<Rightarrow> bytes \<Rightarrow> bytes \<Rightarrow> string + bytes" \<comment> \<open>key, nonce, message\<close>
  cx_aes_decrypt :: "bytes \<Rightarrow> bytes \<Rightarrow> bytes \<Rightarrow> string + bytes"

record rnd =
  rn_dek :: bytes
  rn_nonce :: bytes
  rn_pad :: bytes

definition rnd_ok :: "rnd \<Rightarrow> bool" where
  "rnd_ok r \<longleftrightarrow> length (rn_dek r) = 32 \<and> length (rn_nonce r) = 12"

text \<open>
  What the code relies on: OAEP and AES-GCM decrypt what was encrypted under the matching keys,
  a signature verifies under the public key of its private key.
\<close>

definition crypto_ok :: "cryptoext \<Rightarrow> bool" where
  "crypto_ok K \<longleftrightarrow>
     (\<forall>priv rand m c. cx_rsa_encrypt K (cx_to_public K priv) rand m = Inr c \<longrightarrow> cx_rsa_decrypt K priv c = Inr m) \<and>
     (\<forall>k n m c. cx_aes_encrypt K k n m = Inr c \<longrightarrow> cx_aes_decrypt K k n c = Inr m) \<and>
     (\<forall>priv d s. cx_rsa_sign K priv d = Inr s \<longrightarrow> cx_rsa_verify K (cx_to_public K priv) d s = Inr ())"

text \<open>\<open>map_err(|e| Error::Crypto(e.to_string()))\<close>.\<close>

definition crypto_err :: "string + 'a \<Rightarrow> 'a res" where
  "crypto_err r = (case r of Inl e \<Rightarrow> Inl (Crypto (CryptoLibrary e)) | Inr a \<Rightarrow> Inr a)"

lemma crypto_err_simps [simp]:
  "crypto_err (Inr a) = Inr a" "crypto_err (Inl e) = Inl (Crypto (CryptoLibrary e))"
  by (simp_all add: crypto_err_def)

lemma crypto_err_Inr [simp]: "crypto_err r = Inr a \<longleftrightarrow> r = Inr a"
  by (cases r) auto

definition sha256_hex :: "cryptoext \<Rightarrow> bytes \<Rightarrow> string" where
  "sha256_hex K b = hex (cx_sha256 K b)"

section \<open>The key ring\<close>

definition KEYLESS :: u32 where "KEYLESS = 0"

record rsa_pair =
  rp_public :: "bytes option"
  rp_private :: "bytes option"

definition rsa_pair_default :: rsa_pair where
  "rsa_pair_default = \<lparr>rp_public = None, rp_private = None\<rparr>"

record key_ring =
  kr_rsa :: "(u32 \<times> rsa_pair) list"
  kr_macs :: "(u32 \<times> bytes) list"

definition key_ring_new :: key_ring where
  "key_ring_new = \<lparr>kr_rsa = [], kr_macs = []\<rparr>"

definition check_version :: "u32 \<Rightarrow> unit res" where
  "check_version v = (if v = KEYLESS then Inl (Crypto VersionZero) else Inr ())"

text \<open>\<open>rsa.entry(version).or_default()\<close>.\<close>

definition rsa_entry :: "key_ring \<Rightarrow> u32 \<Rightarrow> rsa_pair" where
  "rsa_entry R v = (case map_of (kr_rsa R) v of None \<Rightarrow> rsa_pair_default | Some p \<Rightarrow> p)"

definition with_public_pem_version :: "cryptoext \<Rightarrow> u32 \<Rightarrow> string \<Rightarrow> key_ring \<Rightarrow> key_ring res" where
  "with_public_pem_version K v pem R =
     rbind (check_version v) (\<lambda>_. rbind (crypto_err (cx_parse_public K pem)) (\<lambda>pub.
       Inr (R\<lparr>kr_rsa := bt_insert v ((rsa_entry R v)\<lparr>rp_public := Some pub\<rparr>) (kr_rsa R)\<rparr>)))"

definition with_private_pem_version :: "cryptoext \<Rightarrow> u32 \<Rightarrow> string \<Rightarrow> key_ring \<Rightarrow> key_ring res" where
  "with_private_pem_version K v pem R =
     rbind (check_version v) (\<lambda>_. rbind (crypto_err (cx_parse_private K pem)) (\<lambda>priv.
       let p = rsa_entry R v;
           pub = (case rp_public p of None \<Rightarrow> Some (cx_to_public K priv) | Some q \<Rightarrow> Some q)
       in Inr (R\<lparr>kr_rsa := bt_insert v \<lparr>rp_public = pub, rp_private = Some priv\<rparr> (kr_rsa R)\<rparr>)))"

definition with_hmac_key_version :: "u32 \<Rightarrow> bytes \<Rightarrow> key_ring \<Rightarrow> key_ring res" where
  "with_hmac_key_version v key R =
     rbind (check_version v) (\<lambda>_. Inr (R\<lparr>kr_macs := bt_insert v key (kr_macs R)\<rparr>))"

definition with_public_pem :: "cryptoext \<Rightarrow> string \<Rightarrow> key_ring \<Rightarrow> key_ring res" where
  "with_public_pem K pem R = with_public_pem_version K 1 pem R"

definition with_private_pem :: "cryptoext \<Rightarrow> string \<Rightarrow> key_ring \<Rightarrow> key_ring res" where
  "with_private_pem K pem R = with_private_pem_version K 1 pem R"

text \<open>\<open>expect\<close>: version 1 is never rejected, so the panic is unreachable.\<close>

definition with_hmac_key :: "bytes \<Rightarrow> key_ring \<Rightarrow> key_ring" where
  "with_hmac_key key R = (case with_hmac_key_version 1 key R of Inr R' \<Rightarrow> R' | Inl _ \<Rightarrow> R)"

text \<open>The generated private key, or the error of the generator, is an input.\<close>

definition with_generated_rsa :: "cryptoext \<Rightarrow> u32 \<Rightarrow> string + bytes \<Rightarrow> key_ring \<Rightarrow> key_ring res" where
  "with_generated_rsa K v gen R =
     rbind (check_version v) (\<lambda>_. rbind (crypto_err gen) (\<lambda>priv.
       Inr (R\<lparr>kr_rsa := bt_insert v \<lparr>rp_public = Some (cx_to_public K priv), rp_private = Some priv\<rparr> (kr_rsa R)\<rparr>)))"

definition with_generated_hmac :: "u32 \<Rightarrow> bytes \<Rightarrow> key_ring \<Rightarrow> key_ring res" where
  "with_generated_hmac v mac R =
     rbind (check_version v) (\<lambda>_. Inr (R\<lparr>kr_macs := bt_insert v mac (kr_macs R)\<rparr>))"

definition generate_ephemeral :: "cryptoext \<Rightarrow> string + bytes \<Rightarrow> bytes \<Rightarrow> key_ring res" where
  "generate_ephemeral K gen mac =
     rbind (with_generated_rsa K 1 gen key_ring_new) (with_generated_hmac 1 mac)"

definition last_key :: "('k \<times> 'v) list \<Rightarrow> 'k option" where
  "last_key kvs = (if kvs = [] then None else Some (fst (last kvs)))"

definition active_hmac_version :: "key_ring \<Rightarrow> u32 option" where
  "active_hmac_version R = last_key (kr_macs R)"

definition active_rsa_version :: "key_ring \<Rightarrow> u32 option" where
  "active_rsa_version R = last_key (kr_rsa R)"

definition hmac_versions :: "key_ring \<Rightarrow> u32 list" where
  "hmac_versions R = rev (map fst (kr_macs R))"

definition has_rsa_private :: "key_ring \<Rightarrow> u32 \<Rightarrow> bool" where
  "has_rsa_private R v =
     (case map_of (kr_rsa R) v of None \<Rightarrow> False | Some p \<Rightarrow> rp_private p \<noteq> None)"

definition mac_of :: "key_ring \<Rightarrow> u32 \<Rightarrow> bytes res" where
  "mac_of R v = ok_or (Crypto (HmacKeyMissing v)) (map_of (kr_macs R) v)"

definition rsa_public_of :: "key_ring \<Rightarrow> u32 \<Rightarrow> bytes res" where
  "rsa_public_of R v = ok_or (Crypto (RsaPublicMissing v)) (Option.bind (map_of (kr_rsa R) v) rp_public)"

definition rsa_private_of :: "key_ring \<Rightarrow> u32 \<Rightarrow> bytes res" where
  "rsa_private_of R v = ok_or (Crypto (RsaPrivateMissing v)) (Option.bind (map_of (kr_rsa R) v) rp_private)"

section \<open>Digests\<close>

definition hmac_hex_with :: "cryptoext \<Rightarrow> key_ring \<Rightarrow> u32 \<Rightarrow> bytes \<Rightarrow> string res" where
  "hmac_hex_with K R v data = rbind (mac_of R v) (\<lambda>key. Inr (hex (cx_hmac K key data)))"

definition hmac_hex :: "cryptoext \<Rightarrow> key_ring \<Rightarrow> bytes \<Rightarrow> (u32 \<times> string) res" where
  "hmac_hex K R data =
     rbind (ok_or (Crypto NoHmacKey) (active_hmac_version R)) (\<lambda>v.
     rbind (hmac_hex_with K R v data) (\<lambda>d. Inr (v, d)))"

text \<open>The digested data of an index token: \<open>"idx:" + field + NUL + token\<close>.\<close>

definition token_data :: "string \<Rightarrow> string \<Rightarrow> bytes" where
  "token_data field token = as_bytes ''idx:'' @ as_bytes field @ [0] @ as_bytes token"

definition index_token_digest_with ::
  "cryptoext \<Rightarrow> key_ring \<Rightarrow> u32 \<Rightarrow> string \<Rightarrow> field_protection \<Rightarrow> string \<Rightarrow> string res" where
  "index_token_digest_with K R v field protection token =
     (let data = token_data field token
      in if protection \<in> {PNone, PSha256} then Inr (sha256_hex K data) else hmac_hex_with K R v data)"

definition index_token_digest ::
  "cryptoext \<Rightarrow> key_ring \<Rightarrow> string \<Rightarrow> field_protection \<Rightarrow> string \<Rightarrow> (u32 \<times> string) res" where
  "index_token_digest K R field protection token =
     (if protection \<in> {PNone, PSha256}
      then rbind (index_token_digest_with K R KEYLESS field protection token) (\<lambda>d. Inr (KEYLESS, d))
      else rbind (ok_or (Crypto NoHmacKey) (active_hmac_version R)) (\<lambda>v.
           rbind (index_token_digest_with K R v field protection token) (\<lambda>d. Inr (v, d))))"

section \<open>Protection\<close>

fun protect :: "cryptoext \<Rightarrow> textext \<Rightarrow> key_ring \<Rightarrow> rnd \<Rightarrow> fval \<Rightarrow> field_protection \<Rightarrow> stored_value res" where
  "protect K N R r v PNone = Inr (Plain v)"
| "protect K N R r v PSha256 = Inr (Sha256 (sha256_hex K (canonical_bytes N v)))"
| "protect K N R r v PHmac =
     rbind (hmac_hex K R (canonical_bytes N v)) (\<lambda>(version, digest). Inr (Hmac version digest))"
| "protect K N R r v PRsa =
     rbind (ok_or (Crypto NoRsaKey) (active_rsa_version R)) (\<lambda>version.
     rbind (rsa_public_of R version) (\<lambda>key.
     rbind (crypto_err (cx_aes_encrypt K (rn_dek r) (rn_nonce r) (canonical_bytes N v))) (\<lambda>ciphertext.
     rbind (crypto_err (cx_rsa_encrypt K key (rn_pad r) (rn_dek r))) (\<lambda>wrapped.
     Inr (Rsa version (b64_encode wrapped) (b64_encode (rn_nonce r)) (b64_encode ciphertext))))))"

definition b64_bytes :: "string \<Rightarrow> bytes res" where
  "b64_bytes s = ok_or (Crypto BadBase64) (b64_decode s)"

text \<open>\<open>Aes256Gcm::new_from_slice\<close> accepts 32 bytes.\<close>

fun decrypt :: "cryptoext \<Rightarrow> key_ring \<Rightarrow> stored_value \<Rightarrow> bytes res" where
  "decrypt K R (Rsa version wrapped nonce ciphertext) =
     rbind (rsa_private_of R version) (\<lambda>key.
     rbind (b64_bytes wrapped) (\<lambda>wk.
     rbind (crypto_err (cx_rsa_decrypt K key wk)) (\<lambda>dek.
     rbind (if length dek = 32 then Inr () else Inl (Crypto (CryptoLibrary ''Invalid Length''))) (\<lambda>_.
     rbind (b64_bytes nonce) (\<lambda>n.
     if length n \<noteq> 12 then Inl (Crypto BadNonceLength)
     else rbind (b64_bytes ciphertext) (\<lambda>c. crypto_err (cx_aes_decrypt K dek n c)))))))"
| "decrypt K R _ = Inl (Crypto NotRsaEncrypted)"

fun rewrap :: "cryptoext \<Rightarrow> key_ring \<Rightarrow> bytes \<Rightarrow> stored_value \<Rightarrow> stored_value res" where
  "rewrap K R pad (Rsa version wrapped nonce ciphertext) =
     rbind (ok_or (Crypto NoRewrapKey) (active_rsa_version R)) (\<lambda>active.
     if version = active then Inr (Rsa version wrapped nonce ciphertext)
     else rbind (rsa_private_of R version) (\<lambda>old.
          rbind (b64_bytes wrapped) (\<lambda>wk.
          rbind (crypto_err (cx_rsa_decrypt K old wk)) (\<lambda>dek.
          rbind (rsa_public_of R active) (\<lambda>key.
          rbind (crypto_err (cx_rsa_encrypt K key pad dek)) (\<lambda>w.
          Inr (Rsa active (b64_encode w) nonce ciphertext)))))))"
| "rewrap K R pad _ = Inl (Crypto NotRsaEncrypted)"

section \<open>Signatures\<close>

definition can_sign :: "key_ring \<Rightarrow> bool" where
  "can_sign R = (case active_rsa_version R of None \<Rightarrow> False | Some v \<Rightarrow> has_rsa_private R v)"

definition sign_data :: "cryptoext \<Rightarrow> key_ring \<Rightarrow> bytes \<Rightarrow> (u32 \<times> bytes) res" where
  "sign_data K R data =
     rbind (ok_or (Crypto NoSigningKey) (active_rsa_version R)) (\<lambda>version.
     rbind (rsa_private_of R version) (\<lambda>key.
     rbind (crypto_err (cx_rsa_sign K key (cx_sha256 K data))) (\<lambda>sig. Inr (version, sig))))"

definition verify_signature :: "cryptoext \<Rightarrow> key_ring \<Rightarrow> u32 \<Rightarrow> bytes \<Rightarrow> bytes \<Rightarrow> unit res" where
  "verify_signature K R version data signature =
     rbind (rsa_public_of R version) (\<lambda>key. crypto_err (cx_rsa_verify K key (cx_sha256 K data) signature))"

section \<open>Facts\<close>

text \<open>The pairs of a ring belong together, and its versions ascend and are not the keyless one.\<close>

definition ring_ok :: "cryptoext \<Rightarrow> key_ring \<Rightarrow> bool" where
  "ring_ok K R \<longleftrightarrow> bt_wf (kr_rsa R) \<and> bt_wf (kr_macs R) \<and>
     KEYLESS \<notin> fst ` set (kr_rsa R) \<and> KEYLESS \<notin> fst ` set (kr_macs R) \<and>
     (\<forall>v p priv. map_of (kr_rsa R) v = Some p \<longrightarrow> rp_private p = Some priv \<longrightarrow>
        rp_public p = Some (cx_to_public K priv))"

text \<open>A ring that holds every key of another one, as after a rotation.\<close>

definition ring_extends :: "key_ring \<Rightarrow> key_ring \<Rightarrow> bool" where
  "ring_extends R R' \<longleftrightarrow> map_of (kr_macs R) \<subseteq>\<^sub>m map_of (kr_macs R') \<and> map_of (kr_rsa R) \<subseteq>\<^sub>m map_of (kr_rsa R')"

lemma last_key_max:
  assumes "bt_wf kvs" and "last_key kvs = Some v"
  shows "v \<in> fst ` set kvs \<and> (\<forall>x \<in> fst ` set kvs. x \<le> v)"
proof -
  from assms(2) obtain kv us where k: "kvs = us @ [kv]" "v = fst kv"
    by (cases kvs rule: rev_cases) (auto simp: last_key_def)
  have "\<forall>x \<in> set us. fst x < v" using assms(1) unfolding k bt_wf_append by simp
  then show ?thesis unfolding k by (auto intro: less_imp_le)
qed

lemma last_key_map_of: "last_key kvs = Some v \<Longrightarrow> bt_wf kvs \<Longrightarrow> \<exists>x. map_of kvs v = Some x"
  using last_key_max [of kvs v] by (auto dest: weak_map_of_SomeI)

lemma b64_bytes_encode [simp]: "b64_bytes (b64_encode b) = Inr b"
  by (simp add: b64_bytes_def b64_roundtrip)

lemma decrypt_protect:
  assumes K: "crypto_ok K" and ok: "ring_ok K R" and r: "rnd_ok r"
    and p: "protect K N R r v PRsa = Inr s" and ext: "ring_extends R R'"
    and priv: "active_rsa_version R = Some ver" "has_rsa_private R ver"
  shows "decrypt K R' s = Inr (canonical_bytes N v)"
proof -
  from p priv obtain key c w where
    key: "rsa_public_of R ver = Inr key" and c: "cx_aes_encrypt K (rn_dek r) (rn_nonce r) (canonical_bytes N v) = Inr c"
    and w: "cx_rsa_encrypt K key (rn_pad r) (rn_dek r) = Inr w"
    and s: "s = Rsa ver (b64_encode w) (b64_encode (rn_nonce r)) (b64_encode c)"
    by (auto simp: rbind_Inr_iff)
  from priv(2) obtain pr q where q: "map_of (kr_rsa R) ver = Some q" "rp_private q = Some pr"
    by (auto simp: has_rsa_private_def split: option.splits)
  have "rp_public q = Some (cx_to_public K pr)" using ok q by (auto simp: ring_ok_def)
  then have "key = cx_to_public K pr" using key q by (simp add: rsa_public_of_def)
  then have d: "cx_rsa_decrypt K pr w = Inr (rn_dek r)" using K w by (auto simp: crypto_ok_def)
  have "cx_aes_decrypt K (rn_dek r) (rn_nonce r) c = Inr (canonical_bytes N v)"
    using K c by (auto simp: crypto_ok_def)
  moreover have "map_of (kr_rsa R') ver = Some q" using ext q by (simp add: ring_extends_def map_le_def dom_def)
  ultimately show ?thesis using d r q by (simp add: s rsa_private_of_def rnd_ok_def)
qed

lemma rewrap_decrypt:
  assumes K: "crypto_ok K" and ok: "ring_ok K R" and rw: "rewrap K R pad s = Inr s'"
    and d: "decrypt K R s = Inr m" and sign: "can_sign R"
  shows "decrypt K R s' = Inr m"
proof -
  obtain ver wr n c where s: "s = Rsa ver wr n c" using d by (cases s) auto
  obtain a where a: "active_rsa_version R = Some a" "has_rsa_private R a"
    using sign by (auto simp: can_sign_def split: option.splits)
  show ?thesis
  proof (cases "ver = a")
    case True
    then show ?thesis using rw s a d by simp
  next
    case False
    from a(2) obtain pr q where q: "map_of (kr_rsa R) a = Some q" "rp_private q = Some pr"
      by (auto simp: has_rsa_private_def split: option.splits)
    have pub: "rp_public q = Some (cx_to_public K pr)" using ok q by (auto simp: ring_ok_def)
    from rw s a(1) False obtain old wk dek key w where
      o1: "rsa_private_of R ver = Inr old" "b64_bytes wr = Inr wk" "cx_rsa_decrypt K old wk = Inr dek"
      and k: "rsa_public_of R a = Inr key" "cx_rsa_encrypt K key pad dek = Inr w"
      and s': "s' = Rsa a (b64_encode w) n c"
      by (auto simp: rbind_Inr_iff)
    have "key = cx_to_public K pr" using k(1) q pub by (simp add: rsa_public_of_def)
    then have "cx_rsa_decrypt K pr w = Inr dek" using K k(2) by (auto simp: crypto_ok_def)
    then show ?thesis using d s o1 q by (simp add: s' rsa_private_of_def)
  qed
qed

lemma rewrap_active_version:
  assumes "rewrap K R pad (Rsa ver wr n c) = Inr s'"
  shows "\<exists>wr'. active_rsa_version R \<noteq> None \<and> s' = Rsa (the (active_rsa_version R)) wr' n c"
  using assms by (auto simp: rbind_Inr_iff ok_or_def split: option.splits if_splits)

lemma sign_verify:
  assumes "crypto_ok K" and "ring_ok K R" and "sign_data K R data = Inr (ver, sig)" and "ring_extends R R'"
  shows "verify_signature K R' ver data sig = Inr ()"
proof -
  from assms(3) obtain key where
    key: "rsa_private_of R ver = Inr key" and s: "cx_rsa_sign K key (cx_sha256 K data) = Inr sig"
    by (auto simp: sign_data_def rbind_Inr_iff)
  then obtain q where q: "map_of (kr_rsa R) ver = Some q" "rp_private q = Some key"
    by (auto simp: rsa_private_of_def ok_or_def split: option.splits bind_splits)
  have "rp_public q = Some (cx_to_public K key)" using assms(2) q by (auto simp: ring_ok_def)
  moreover have "map_of (kr_rsa R') ver = Some q" using assms(4) q by (simp add: ring_extends_def map_le_def dom_def)
  ultimately show ?thesis using assms(1) s
    by (simp add: verify_signature_def rsa_public_of_def crypto_ok_def)
qed

lemma can_sign_signs:
  "can_sign R \<Longrightarrow> (\<And>priv d. \<exists>s. cx_rsa_sign K priv d = Inr s) \<Longrightarrow> \<exists>ver sig. sign_data K R data = Inr (ver, sig)"
proof -
  assume a: "can_sign R" and t: "\<And>priv d. \<exists>s. cx_rsa_sign K priv d = Inr s"
  then obtain ver q pr where "active_rsa_version R = Some ver" "map_of (kr_rsa R) ver = Some q" "rp_private q = Some pr"
    by (auto simp: can_sign_def has_rsa_private_def split: option.splits)
  moreover obtain s where "cx_rsa_sign K pr (cx_sha256 K data) = Inr s" using t by blast
  ultimately show ?thesis by (simp add: sign_data_def rsa_private_of_def)
qed

lemma hmac_probe_finds:
  assumes "hmac_hex K R data = Inr (ver, d)" and "ring_extends R R'"
  shows "hmac_hex_with K R' ver data = Inr d \<and> ver \<in> set (hmac_versions R')"
proof -
  from assms(1) obtain key where "map_of (kr_macs R) ver = Some key" and d: "d = hex (cx_hmac K key data)"
    by (auto simp: hmac_hex_def hmac_hex_with_def mac_of_def rbind_Inr_iff ok_or_def split: option.splits)
  then have m: "map_of (kr_macs R') ver = Some key"
    using assms(2) by (simp add: ring_extends_def map_le_def dom_def)
  then have "(ver, key) \<in> set (kr_macs R')" by (rule map_of_SomeD)
  then show ?thesis using m d by (force simp: hmac_hex_with_def mac_of_def hmac_versions_def)
qed

lemma token_data_inject: "0 \<notin> set (as_bytes field) \<Longrightarrow> 0 \<notin> set (as_bytes field') \<Longrightarrow>
    token_data field token = token_data field' token' \<longleftrightarrow> field = field' \<and> token = token'"
proof
  assume z: "0 \<notin> set (as_bytes field)" "0 \<notin> set (as_bytes field')"
    and "token_data field token = token_data field' token'"
  then have e: "as_bytes field @ 0 # as_bytes token = as_bytes field' @ 0 # as_bytes token'"
    by (simp add: token_data_def)
  have "takeWhile (\<lambda>b. b \<noteq> 0) (as_bytes f @ 0 # t) = as_bytes f" if "0 \<notin> set (as_bytes f)" for f t
  proof -
    have "\<And>b. b \<in> set (as_bytes f) \<Longrightarrow> b \<noteq> 0" using that by metis
    then show ?thesis by (simp add: takeWhile_append2)
  qed
  then have "as_bytes field = as_bytes field'" using arg_cong [OF e, of "takeWhile (\<lambda>b. b \<noteq> 0)"] z by metis
  then show "field = field' \<and> token = token'" using e by simp
qed simp

end
