(* ===== verification/Tokens.thy ===== *)
theory Tokens
  imports Model
begin

text \<open>
  Blind-index tokens (\<open>crates/quipu-core/src/tokens.rs\<close>): the tokens of a stored value and of a
  search probe, over the characters of the lower-cased text. A \<open>char\<close> of the Rust code is the
  group of UTF-8 bytes that encodes it.
\<close>

section \<open>Characters\<close>

text \<open>\<open>str::chars\<close>: a byte \<open>10xxxxxx\<close> continues the character before it.\<close>

definition is_cont :: "char \<Rightarrow> bool" where
  "is_cont c \<longleftrightarrow> (of_char c :: nat) div 64 = 2"

fun chars :: "string \<Rightarrow> string list" where
  "chars [] = []"
| "chars (c # cs) = (case cs of
     [] \<Rightarrow> [[c]]
   | d # _ \<Rightarrow> if is_cont d then (c # hd (chars cs)) # tl (chars cs) else [c] # chars cs)"

text \<open>The character lists that \<open>chars\<close> produces: characters, and no boundary before a continuation byte.\<close>

definition char_ok :: "string \<Rightarrow> bool" where
  "char_ok c \<longleftrightarrow> c \<noteq> [] \<and> list_all is_cont (tl c)"

definition chars_ok :: "string list \<Rightarrow> bool" where
  "chars_ok cs \<longleftrightarrow> list_all char_ok cs \<and> list_all (\<lambda>c. \<not> is_cont (hd c)) (tl cs)"

declare chars.simps(2) [simp del]

lemma chars_one [simp]: "chars [c] = [[c]]"
  by (simp add: chars.simps)

lemma chars_Nil_iff [simp]: "chars s = [] \<longleftrightarrow> s = []"
  by (cases s) (auto simp: chars.simps(2) split: list.splits)

lemma concat_chars: "concat (chars s) = s"
proof (induction s rule: chars.induct)
  case (2 c cs)
  show ?case
  proof (cases cs)
    case (Cons d ds)
    then have "chars cs \<noteq> []" by simp
    then obtain x xs where "chars cs = x # xs" by (meson neq_Nil_conv)
    then show ?thesis using 2 Cons by (auto simp: chars.simps(2) [of c "d # ds"])
  qed simp
qed simp

lemma chars_single: "c \<noteq> [] \<Longrightarrow> list_all is_cont (tl c) \<Longrightarrow> (s = [] \<or> \<not> is_cont (hd s)) \<Longrightarrow> chars (c @ s) = c # chars s"
proof (induction c)
  case (Cons a c)
  show ?case
  proof (cases c)
    case Nil
    then show ?thesis using Cons.prems by (cases s) (auto simp: chars.simps(2) [of a])
  next
    case (Cons d ds)
    have "chars (c @ s) = c # chars s" using Cons.IH Cons.prems Cons by simp
    then show ?thesis using Cons Cons.prems by (simp add: chars.simps(2) [of a])
  qed
qed simp

lemma chars_concat: "chars_ok cs \<Longrightarrow> chars (concat cs) = cs"
proof (induction cs)
  case (Cons c cs)
  then have ok: "chars_ok cs" by (cases cs) (auto simp: chars_ok_def)
  have "concat cs = [] \<or> \<not> is_cont (hd (concat cs))"
    using Cons.prems by (cases cs) (auto simp: chars_ok_def char_ok_def)
  then show ?case using chars_single [of c "concat cs"] Cons.prems Cons.IH [OF ok]
    by (simp add: chars_ok_def char_ok_def)
qed simp

lemma chars_ok_chars: "chars_ok (chars s)"
proof (induction s rule: chars.induct)
  case (2 c cs)
  show ?case
  proof (cases cs)
    case Nil
    then show ?thesis by (simp add: chars_ok_def char_ok_def)
  next
    case (Cons d ds)
    then obtain x xs where x: "chars cs = x # xs" by (meson chars_Nil_iff list.distinct(1) neq_Nil_conv)
    then have "concat (x # xs) = d # ds" using concat_chars [of cs] Cons by simp
    moreover have "x \<noteq> []" using 2 Cons x by (cases "is_cont d") (auto simp: chars_ok_def char_ok_def)
    ultimately have hd: "hd x = d" by (cases x) auto
    have ih: "chars_ok (x # xs)" using 2 Cons x by (cases "is_cont d") auto
    show ?thesis
    proof (cases "is_cont d")
      case True
      then have "chars (c # cs) = (c # x) # xs" using Cons x by (simp add: chars.simps(2) [of c])
      then show ?thesis using ih hd True \<open>x \<noteq> []\<close> by (cases x) (auto simp: chars_ok_def char_ok_def)
    next
      case False
      then have "chars (c # cs) = [c] # x # xs" using Cons x by (simp add: chars.simps(2) [of c])
      then show ?thesis using ih hd False by (simp add: chars_ok_def char_ok_def)
    qed
  qed
qed (simp add: chars_ok_def)

lemma chars_ok_take: "chars_ok cs \<Longrightarrow> chars_ok (take k cs)"
  by (cases cs; cases k) (auto simp: chars_ok_def list_all_iff dest: in_set_takeD)

lemma chars_ok_drop: "chars_ok cs \<Longrightarrow> chars_ok (drop k cs)"
proof (induction k arbitrary: cs)
  case (Suc k)
  show ?case
  proof (cases cs)
    case (Cons c cs')
    then have "chars_ok cs'" using Suc.prems by (cases cs') (auto simp: chars_ok_def)
    then show ?thesis using Suc.IH Cons by simp
  qed (use Suc in simp)
qed simp

section \<open>Tokens\<close>

definition normalize_str :: "textext \<Rightarrow> string \<Rightarrow> string" where
  "normalize_str N s = x_lower N s"

text \<open>A \<open>BTreeSet\<close> collected into a \<open>Vec\<close>.\<close>

definition bset :: "string list \<Rightarrow> string list" where
  "bset xs = sort (remdups xs)"

lemma set_bset [simp]: "set (bset xs) = set xs"
  by (simp add: bset_def)

text \<open>\<open>slice::windows(n)\<close> for \<open>n \<ge> 1\<close>.\<close>

definition windows :: "nat \<Rightarrow> 'a list \<Rightarrow> 'a list list" where
  "windows n cs = map (\<lambda>i. take n (drop i cs)) [0..<length cs + 1 - n]"

fun value_tokens :: "textext \<Rightarrow> string \<Rightarrow> field_index \<Rightarrow> string list" where
  "value_tokens N text INone = []"
| "value_tokens N text IExact = [normalize_str N text]"
| "value_tokens N text (IPrefix n) =
     (let cs = chars (normalize_str N text)
      in bset (map (\<lambda>len. concat (take len cs)) [1..<Suc (min n (length cs))]))"
| "value_tokens N text (INgram n) =
     (let norm = normalize_str N text; cs = chars norm
      in if length cs < n then (if cs \<noteq> [] then [norm] else [])
         else bset (map concat (windows n cs)))"

definition ngram_probe_tokens :: "textext \<Rightarrow> string \<Rightarrow> nat \<Rightarrow> string list option" where
  "ngram_probe_tokens N probe n =
     (let cs = chars (normalize_str N probe)
      in if length cs < n then None else Some (bset (map concat (windows n cs))))"

lemma windows_append:
  "length ys \<ge> n \<Longrightarrow> set (windows n ys) \<subseteq> set (windows n (xs @ ys @ zs))"
proof
  fix t assume l: "length ys \<ge> n" and "t \<in> set (windows n ys)"
  then obtain i where i: "i < length ys + 1 - n" and t: "t = take n (drop i ys)"
    by (auto simp: windows_def)
  have "t = take n (drop (length xs + i) (xs @ ys @ zs))" using t i l by simp
  then show "t \<in> set (windows n (xs @ ys @ zs))"
    unfolding windows_def using i by (simp, intro image_eqI [of _ _ "length xs + i"]) auto
qed

text \<open>Characters of a text that contains another one at a character boundary.\<close>

lemma chars_infix:
  assumes "chars u = xs @ chars t @ zs"
  shows "u = concat xs @ t @ concat zs"
  using concat_chars [of u] concat_chars [of t] assms by simp

lemma ngram_tokens_cover:
  assumes "chars (normalize_str N text) = xs @ chars (normalize_str N probe) @ zs"
    and "ngram_probe_tokens N probe n = Some ts"
  shows "set ts \<subseteq> set (value_tokens N text (INgram n))"
proof -
  have n: "n \<le> length (chars (normalize_str N probe))" and ts: "set ts = concat ` set (windows n (chars (normalize_str N probe)))"
    using assms(2) by (auto simp: ngram_probe_tokens_def Let_def split: if_splits)
  then have "\<not> length (chars (normalize_str N text)) < n" using assms(1) by simp
  then have "set (value_tokens N text (INgram n)) = concat ` set (windows n (chars (normalize_str N text)))"
    by (simp add: Let_def)
  then show ?thesis using image_mono [OF windows_append [OF n, of xs zs], of concat] ts
    by (simp only: assms(1))
qed

lemma prefix_tokens_exact:
  assumes "chars (normalize_str N probe) \<noteq> []" and "length (chars (normalize_str N probe)) \<le> n"
  shows "normalize_str N probe \<in> set (value_tokens N text (IPrefix n)) \<longleftrightarrow>
    prefix (chars (normalize_str N probe)) (chars (normalize_str N text))"
proof
  let ?p = "normalize_str N probe" and ?cs = "chars (normalize_str N text)"
  assume "?p \<in> set (value_tokens N text (IPrefix n))"
  then obtain len where "?p = concat (take len ?cs)" by (auto simp: Let_def)
  then have "chars ?p = take len ?cs" by (simp add: chars_concat chars_ok_take chars_ok_chars)
  then show "prefix (chars ?p) ?cs" by (simp add: take_is_prefix)
next
  let ?p = "normalize_str N probe" and ?cs = "chars (normalize_str N text)"
  assume "prefix (chars ?p) ?cs"
  then have t: "chars ?p = take (length (chars ?p)) ?cs" and l: "length (chars ?p) \<le> length ?cs"
    by (auto simp: prefix_def)
  have "?p = concat (take (length (chars ?p)) ?cs)" using t concat_chars [of ?p] by simp
  moreover have "length (chars ?p) \<in> {1..<Suc (min n (length ?cs))}"
    using l assms by (cases "chars ?p") auto
  ultimately have "?p \<in> (\<lambda>len. concat (take len ?cs)) ` {1..<Suc (min n (length ?cs))}" by (rule image_eqI)
  then show "?p \<in> set (value_tokens N text (IPrefix n))" by (simp only: value_tokens.simps Let_def set_bset set_map set_upt)
qed

end
