(* ===== verification/Registry_Index.thy ===== *)
theory Registry_Index
  imports Key_Ring Tokens
begin

text \<open>
  The in-memory side of one type's registry: \<open>EntityInput\<close>, \<open>RegistryRecord\<close> and
  \<open>RegistryIndex\<close> with its searches (\<open>crates/quipu-core/src/registry.rs\<close>).

  The maps that are iterated (\<open>versions\<close>, \<open>by_uid\<close>, \<open>held\<close>) are association lists; a hash map's
  iteration order is not observable, because every search sorts its result. The nested hash maps
  that are only looked up (\<open>index\<close>, \<open>token_index\<close>) are functions into the list of entity ids, empty
  where the code has no entry. \<open>by_uid[uid]\<close> panics in the code when the uid is absent; the model
  returns an option there, and \<open>idx_uids_present\<close> below shows it is never \<open>None\<close>.
\<close>

section \<open>Records\<close>

record entity_input =
  en_entity_id :: string
  en_fields :: "(string \<times> fval) list"

definition entity_new :: "string \<Rightarrow> entity_input" where
  "entity_new eid = \<lparr>en_entity_id = eid, en_fields = []\<rparr>"

definition entity_field :: "string \<Rightarrow> fval \<Rightarrow> entity_input \<Rightarrow> entity_input" where
  "entity_field name v i = i\<lparr>en_fields := bt_insert name v (en_fields i)\<rparr>"

record field_tokens =
  ft_key_version :: u32
  ft_digests :: "string list"

record registry_record =
  rr_uid :: uid
  rr_entity_id :: string
  rr_entity_type :: string
  rr_version :: u32
  rr_recorded_at :: u64
  rr_deleted :: bool
  rr_fields :: "(string \<times> stored_value) list"
  rr_tokens :: "(string \<times> field_tokens) list"

record registry_index =
  ri_schema :: type_schema
  ri_versions :: "(string \<times> uid list) list"
  ri_by_uid :: "(uid \<times> registry_record) list"
  ri_index :: "string \<Rightarrow> bytes \<Rightarrow> string list"
  ri_token_index :: "string \<Rightarrow> string \<Rightarrow> string list"
  ri_held :: "((uid \<times> string) \<times> bytes) list"
  ri_cache_plaintexts :: bool

definition registry_index_new :: "type_schema \<Rightarrow> bool \<Rightarrow> registry_index" where
  "registry_index_new sc cache = \<lparr>ri_schema = sc, ri_versions = [], ri_by_uid = [],
     ri_index = (\<lambda>_ _. []), ri_token_index = (\<lambda>_ _. []), ri_held = [], ri_cache_plaintexts = cache\<rparr>"

section \<open>Absorbing a record\<close>

text \<open>The search key of a stored value: RSA values have none.\<close>

fun index_key :: "textext \<Rightarrow> stored_value \<Rightarrow> bytes option" where
  "index_key N (Plain v) = Some (canonical_bytes N v)"
| "index_key N (Sha256 h) = Some (as_bytes h)"
| "index_key N (Hmac _ d) = Some (as_bytes d)"
| "index_key N (Rsa _ _ _ _) = None"

definition schema_indexed :: "type_schema \<Rightarrow> string \<Rightarrow> bool" where
  "schema_indexed sc name = (case schema_field sc name of None \<Rightarrow> False | Some f \<Rightarrow> fd_indexed f)"

definition add_posting :: "'a \<Rightarrow> 'b \<Rightarrow> 'c \<Rightarrow> ('a \<Rightarrow> 'b \<Rightarrow> 'c list) \<Rightarrow> 'a \<Rightarrow> 'b \<Rightarrow> 'c list" where
  "add_posting a b c ix = ix(a := (ix a)(b := List.insert c (ix a b)))"

fun absorb_fields ::
  "textext \<Rightarrow> type_schema \<Rightarrow> string \<Rightarrow> (string \<times> stored_value) list
     \<Rightarrow> (string \<Rightarrow> bytes \<Rightarrow> string list) \<Rightarrow> string \<Rightarrow> bytes \<Rightarrow> string list" where
  "absorb_fields N sc eid [] ix = ix"
| "absorb_fields N sc eid ((name, stored) # rest) ix =
     absorb_fields N sc eid rest
       (if \<not> schema_indexed sc name then ix
        else case index_key N stored of None \<Rightarrow> ix | Some key \<Rightarrow> add_posting name key eid ix)"

definition absorb_digests ::
  "string \<Rightarrow> string \<Rightarrow> string list \<Rightarrow> (string \<Rightarrow> string \<Rightarrow> string list) \<Rightarrow> string \<Rightarrow> string \<Rightarrow> string list" where
  "absorb_digests eid field ds ix = fold (\<lambda>d. add_posting field d eid) ds ix"

definition absorb_tokens ::
  "string \<Rightarrow> (string \<times> field_tokens) list \<Rightarrow> (string \<Rightarrow> string \<Rightarrow> string list)
     \<Rightarrow> string \<Rightarrow> string \<Rightarrow> string list" where
  "absorb_tokens eid toks ix = fold (\<lambda>(field, t). absorb_digests eid field (ft_digests t)) toks ix"

definition versions_of :: "registry_index \<Rightarrow> string \<Rightarrow> uid list" where
  "versions_of ri eid = (case map_of (ri_versions ri) eid of None \<Rightarrow> [] | Some us \<Rightarrow> us)"

definition absorb :: "textext \<Rightarrow> registry_index \<Rightarrow> registry_record \<Rightarrow> registry_index" where
  "absorb N ri rec = ri\<lparr>
     ri_index := absorb_fields N (ri_schema ri) (rr_entity_id rec) (rr_fields rec) (ri_index ri),
     ri_token_index := absorb_tokens (rr_entity_id rec) (rr_tokens rec) (ri_token_index ri),
     ri_versions := AList.update (rr_entity_id rec) (versions_of ri (rr_entity_id rec) @ [rr_uid rec]) (ri_versions ri),
     ri_by_uid := AList.update (rr_uid rec) rec (ri_by_uid ri)\<rparr>"

section \<open>Lookups\<close>

definition latest_uid :: "registry_index \<Rightarrow> string \<Rightarrow> uid option" where
  "latest_uid ri eid =
     (case map_of (ri_versions ri) eid of None \<Rightarrow> None | Some us \<Rightarrow> if us = [] then None else Some (last us))"

definition reg_version :: "registry_index \<Rightarrow> uid \<Rightarrow> registry_record option" where
  "reg_version ri u = map_of (ri_by_uid ri) u"

definition latest :: "registry_index \<Rightarrow> string \<Rightarrow> registry_record option" where
  "latest ri eid = Option.bind (latest_uid ri eid) (reg_version ri)"

definition entity_ids :: "registry_index \<Rightarrow> string list" where
  "entity_ids ri = map fst (ri_versions ri)"

section \<open>Searching\<close>

definition bytes_contains :: "bytes \<Rightarrow> bytes \<Rightarrow> bool" where
  "bytes_contains hay pat \<longleftrightarrow> pat = [] \<or> pat \<in> set (windows (length pat) hay)"

definition probe_text :: "textext \<Rightarrow> fval \<Rightarrow> string" where
  "probe_text N v = from_bytes (canonical_bytes N v)"

text \<open>\<open>plaintext_of\<close> caches what it decrypts.\<close>

definition plaintext_of ::
  "cryptoext \<Rightarrow> textext \<Rightarrow> key_ring \<Rightarrow> uid \<Rightarrow> string \<Rightarrow> (registry_index, error, bytes option) sop" where
  "plaintext_of K N R u field ri =
     (case Option.bind (reg_version ri u) (\<lambda>rec. map_of (rr_fields rec) field) of
        None \<Rightarrow> (Inr None, ri)
      | Some (Plain v) \<Rightarrow> (Inr (Some (canonical_bytes N v)), ri)
      | Some (Sha256 _) \<Rightarrow> (Inr (map_of (ri_held ri) (u, field)), ri)
      | Some (Hmac _ _) \<Rightarrow> (Inr (map_of (ri_held ri) (u, field)), ri)
      | Some (Rsa a b c d) \<Rightarrow>
          (case map_of (ri_held ri) (u, field) of
             Some pt \<Rightarrow> (Inr (Some pt), ri)
           | None \<Rightarrow>
               (case decrypt K R (Rsa a b c d) of
                  Inl e \<Rightarrow> (Inl e, ri)
                | Inr pt \<Rightarrow> (Inr (Some pt), ri\<lparr>ri_held := AList.update (u, field) pt (ri_held ri)\<rparr>))))"

fun scan_uids ::
  "cryptoext \<Rightarrow> textext \<Rightarrow> key_ring \<Rightarrow> string \<Rightarrow> (bytes \<Rightarrow> bool) \<Rightarrow> uid list \<Rightarrow> string list
     \<Rightarrow> (registry_index, error, string list) sop" where
  "scan_uids K N R field pred [] hits = retE hits"
| "scan_uids K N R field pred (u # us) hits =
     seqE (plaintext_of K N R u field) (\<lambda>h ri.
       scan_uids K N R field pred us
         (case (h, reg_version ri u) of
            (Some hay, Some rec) \<Rightarrow> if pred hay then List.insert (rr_entity_id rec) hits else hits
          | _ \<Rightarrow> hits) ri)"

definition alive :: "registry_index \<Rightarrow> uid \<Rightarrow> bool" where
  "alive ri u = (case reg_version ri u of None \<Rightarrow> False | Some rec \<Rightarrow> \<not> rr_deleted rec)"

definition latest_alive :: "registry_index \<Rightarrow> uid list \<Rightarrow> uid list" where
  "latest_alive ri us = (if us \<noteq> [] \<and> alive ri (last us) then [last us] else [])"

definition scan_range :: "registry_index \<Rightarrow> bool \<Rightarrow> string list option \<Rightarrow> uid list" where
  "scan_range ri include_past restrict =
     (case restrict of
        Some ids \<Rightarrow> concat (map (\<lambda>us. if include_past then us else latest_alive ri us)
                               (List.map_filter (map_of (ri_versions ri)) ids))
      | None \<Rightarrow> if include_past then map fst (ri_by_uid ri)
                else concat (map (latest_alive ri \<circ> snd) (ri_versions ri)))"

definition scan_matching ::
  "cryptoext \<Rightarrow> textext \<Rightarrow> key_ring \<Rightarrow> string \<Rightarrow> field_def \<Rightarrow> bool \<Rightarrow> string list option \<Rightarrow> (bytes \<Rightarrow> bool)
     \<Rightarrow> (registry_index, error, string list) sop" where
  "scan_matching K N R field def include_past restrict pred ri =
     (if fd_protection def \<noteq> PNone \<and> \<not> ri_cache_plaintexts ri
      then (Inl (Schema (PlaintextCacheDisabled field)), ri)
      else seqE (scan_uids K N R field pred (scan_range ri include_past restrict) [])
             (\<lambda>hits. retE (sort hits)) ri)"

text \<open>\<open>carries_all\<close>: one version's own tokens cover all digests.\<close>

definition carries_all :: "registry_index \<Rightarrow> string \<Rightarrow> string list \<Rightarrow> uid \<Rightarrow> bool" where
  "carries_all ri field digests u =
     (case Option.bind (reg_version ri u) (\<lambda>rec. map_of (rr_tokens rec) field) of
        None \<Rightarrow> False
      | Some t \<Rightarrow> list_all (\<lambda>d. d \<in> set (ft_digests t)) digests)"

definition token_candidates :: "registry_index \<Rightarrow> string \<Rightarrow> string list \<Rightarrow> bool \<Rightarrow> string list" where
  "token_candidates ri field digests include_past =
     (case digests of
        [] \<Rightarrow> []
      | d # ds \<Rightarrow>
          let ids = filter (\<lambda>i. list_all (\<lambda>d. i \<in> set (ri_token_index ri field d)) ds) (ri_token_index ri field d)
          in sort (filter (\<lambda>i.
               let us = versions_of ri i
               in if include_past then list_ex (carries_all ri field digests) us
                  else us \<noteq> [] \<and> alive ri (last us) \<and> carries_all ri field digests (last us)) ids))"

text \<open>\<open>Vec::dedup\<close> after sorting.\<close>

definition sort_dedup :: "string list \<Rightarrow> string list" where
  "sort_dedup xs = remdups_adj (sort xs)"

definition probe_digest_sets ::
  "cryptoext \<Rightarrow> key_ring \<Rightarrow> field_def \<Rightarrow> string list \<Rightarrow> string list list res" where
  "probe_digest_sets K R def toks =
     (if fd_protection def \<in> {PNone, PSha256}
      then rbind (collect_res (map (index_token_digest_with K R KEYLESS (fd_name def) (fd_protection def)) toks))
             (\<lambda>ds. Inr [ds])
      else if hmac_versions R = [] then Inl (Crypto NoHmacKey)
      else collect_res (map (\<lambda>v. collect_res
             (map (index_token_digest_with K R v (fd_name def) (fd_protection def)) toks)) (hmac_versions R)))"

definition token_match ::
  "cryptoext \<Rightarrow> key_ring \<Rightarrow> registry_index \<Rightarrow> field_def \<Rightarrow> string list \<Rightarrow> bool \<Rightarrow> string list res" where
  "token_match K R ri def toks include_past =
     rbind (probe_digest_sets K R def toks) (\<lambda>sets.
       Inr (sort_dedup (concat (map (\<lambda>ds. token_candidates ri (fd_name def) ds include_past) sets))))"

text \<open>
  The probe keys of an exact search; RSA fields are rejected when the registry is opened, so the
  last branch is not reached.
\<close>

definition exact_probe_keys :: "cryptoext \<Rightarrow> textext \<Rightarrow> key_ring \<Rightarrow> field_def \<Rightarrow> fval \<Rightarrow> bytes list res" where
  "exact_probe_keys K N R def probe =
     (let b = canonical_bytes N probe
      in case fd_protection def of
           PNone \<Rightarrow> Inr [b]
         | PSha256 \<Rightarrow> Inr [as_bytes (sha256_hex K b)]
         | PHmac \<Rightarrow>
             if hmac_versions R = [] then Inl (Crypto NoHmacKey)
             else collect_res (map (\<lambda>v. rbind (hmac_hex_with K R v b) (\<lambda>d. Inr (as_bytes d))) (hmac_versions R))
         | PRsa \<Rightarrow> Inr [])"

definition exact_latest :: "textext \<Rightarrow> registry_index \<Rightarrow> string \<Rightarrow> bytes list \<Rightarrow> string \<Rightarrow> bool" where
  "exact_latest N ri field keys eid =
     (case latest ri eid of
        None \<Rightarrow> False
      | Some rec \<Rightarrow> \<not> rr_deleted rec \<and>
          (case Option.bind (map_of (rr_fields rec) field) (index_key N) of None \<Rightarrow> False | Some k \<Rightarrow> k \<in> set keys))"

definition search_exact ::
  "cryptoext \<Rightarrow> textext \<Rightarrow> key_ring \<Rightarrow> registry_index \<Rightarrow> field_def \<Rightarrow> string \<Rightarrow> fval \<Rightarrow> bool \<Rightarrow> string list res" where
  "search_exact K N R ri def field probe include_past =
     (if \<not> fd_indexed def then Inl (Schema (FieldNotIndexed field))
      else rbind (exact_probe_keys K N R def probe) (\<lambda>keys.
        let hits = remdups (concat (map (ri_index ri field) keys))
        in Inr (sort (if include_past then hits else filter (exact_latest N ri field keys) hits))))"

definition search_contains ::
  "cryptoext \<Rightarrow> textext \<Rightarrow> key_ring \<Rightarrow> field_def \<Rightarrow> string \<Rightarrow> fval \<Rightarrow> bool \<Rightarrow> (registry_index, error, string list) sop" where
  "search_contains K N R def field probe include_past ri =
     (let fallback = scan_matching K N R field def include_past None
            (\<lambda>hay. bytes_contains hay (canonical_bytes N probe))
      in case fd_search def of
           INgram n \<Rightarrow>
             (case ngram_probe_tokens N (probe_text N probe) n of
                None \<Rightarrow> fallback ri
              | Some toks \<Rightarrow>
                  (case token_match K R ri def toks include_past of
                     Inl e \<Rightarrow> (Inl e, ri)
                   | Inr candidates \<Rightarrow>
                       if fd_protection def \<in> {PNone, PRsa}
                       then scan_matching K N R field def include_past (Some candidates)
                              (\<lambda>hay. bytes_contains (as_bytes (normalize_str N (from_bytes (utf8_lossy hay))))
                                       (as_bytes (normalize_str N (probe_text N probe)))) ri
                       else (Inr candidates, ri)))
         | _ \<Rightarrow> fallback ri)"

definition search_exact_ci ::
  "cryptoext \<Rightarrow> textext \<Rightarrow> key_ring \<Rightarrow> field_def \<Rightarrow> string \<Rightarrow> fval \<Rightarrow> bool \<Rightarrow> (registry_index, error, string list) sop" where
  "search_exact_ci K N R def field probe include_past ri =
     (let norm = normalize_str N (probe_text N probe)
      in if fd_search def = IExact then (token_match K R ri def [norm] include_past, ri)
         else scan_matching K N R field def include_past None
                (\<lambda>hay. normalize_str N (from_bytes (utf8_lossy hay)) = norm) ri)"

definition search_prefix ::
  "cryptoext \<Rightarrow> textext \<Rightarrow> key_ring \<Rightarrow> field_def \<Rightarrow> string \<Rightarrow> fval \<Rightarrow> bool \<Rightarrow> (registry_index, error, string list) sop" where
  "search_prefix K N R def field probe include_past ri =
     (let norm = normalize_str N (probe_text N probe);
          covered = (case fd_search def of
             IPrefix n \<Rightarrow> 1 \<le> length (chars norm) \<and> length (chars norm) \<le> n
           | _ \<Rightarrow> False)
      in if covered then (token_match K R ri def [norm] include_past, ri)
         else scan_matching K N R field def include_past None
                (\<lambda>hay. prefix norm (normalize_str N (from_bytes (utf8_lossy hay)))) ri)"

definition idx_search ::
  "cryptoext \<Rightarrow> textext \<Rightarrow> key_ring \<Rightarrow> string \<Rightarrow> fval \<Rightarrow> bool \<Rightarrow> match_mode \<Rightarrow> (registry_index, error, string list) sop" where
  "idx_search K N R field probe include_past mode ri =
     (case schema_field (ri_schema ri) field of
        None \<Rightarrow> (Inl (Schema (UnknownField field)), ri)
      | Some def \<Rightarrow>
          (case mode of
             Exact \<Rightarrow> (search_exact K N R ri def field probe include_past, ri)
           | ExactCi \<Rightarrow> search_exact_ci K N R def field probe include_past ri
           | Prefix \<Rightarrow> search_prefix K N R def field probe include_past ri
           | Contains \<Rightarrow> search_contains K N R def field probe include_past ri))"

end
