(* ===== verification/Registry_Facts.thy ===== *)
theory Registry_Facts
  imports Registry_Index
begin

text \<open>
  The registry index against the list of records it absorbed: \<open>idx_ok\<close> says what every map of the
  index holds in terms of the records, is preserved by \<open>absorb\<close>, and turns each search into a
  statement about the records.
\<close>

section \<open>The index represents the records\<close>

definition recs_of :: "string \<Rightarrow> registry_record list \<Rightarrow> registry_record list" where
  "recs_of eid recs = filter (\<lambda>r. rr_entity_id r = eid) recs"

definition has_key :: "textext \<Rightarrow> type_schema \<Rightarrow> string \<Rightarrow> bytes \<Rightarrow> registry_record \<Rightarrow> bool" where
  "has_key N sc f k r \<longleftrightarrow> schema_indexed sc f \<and> (\<exists>st. (f, st) \<in> set (rr_fields r) \<and> index_key N st = Some k)"

definition has_digest :: "string \<Rightarrow> string \<Rightarrow> registry_record \<Rightarrow> bool" where
  "has_digest f d r \<longleftrightarrow> (\<exists>t. (f, t) \<in> set (rr_tokens r) \<and> d \<in> set (ft_digests t))"

definition idx_ok :: "textext \<Rightarrow> registry_record list \<Rightarrow> registry_index \<Rightarrow> bool" where
  "idx_ok N recs ri \<longleftrightarrow>
     distinct (map rr_uid recs) \<and>
     (\<forall>eid. versions_of ri eid = map rr_uid (recs_of eid recs)) \<and>
     (\<forall>u. reg_version ri u = find (\<lambda>r. rr_uid r = u) recs) \<and>
     distinct (map fst (ri_versions ri)) \<and> fst ` set (ri_versions ri) = rr_entity_id ` set recs \<and>
     distinct (map fst (ri_by_uid ri)) \<and>
     (\<forall>f k. distinct (ri_index ri f k) \<and>
        set (ri_index ri f k) = rr_entity_id ` {r \<in> set recs. has_key N (ri_schema ri) f k r}) \<and>
     (\<forall>f d. distinct (ri_token_index ri f d) \<and>
        set (ri_token_index ri f d) = rr_entity_id ` {r \<in> set recs. has_digest f d r})"

lemma idx_okD:
  assumes "idx_ok N recs ri"
  shows "distinct (map rr_uid recs)" "versions_of ri eid = map rr_uid (recs_of eid recs)"
    "reg_version ri u = find (\<lambda>r. rr_uid r = u) recs"
    "distinct (map fst (ri_versions ri))" "fst ` set (ri_versions ri) = rr_entity_id ` set recs"
    "distinct (map fst (ri_by_uid ri))"
    "distinct (ri_index ri f k)"
    "set (ri_index ri f k) = rr_entity_id ` {r \<in> set recs. has_key N (ri_schema ri) f k r}"
    "distinct (ri_token_index ri f d)"
    "set (ri_token_index ri f d) = rr_entity_id ` {r \<in> set recs. has_digest f d r}"
  using assms by (simp_all add: idx_ok_def)

lemma idx_ok_held: "idx_ok N recs ri \<Longrightarrow> idx_ok N recs (ri\<lparr>ri_held := h\<rparr>)"
  by (simp add: idx_ok_def versions_of_def reg_version_def)

lemma idx_ok_new: "idx_ok N [] (registry_index_new sc cache)"
  by (simp add: idx_ok_def registry_index_new_def versions_of_def recs_of_def reg_version_def)

subsection \<open>Postings\<close>

lemma add_posting_set:
  "set (add_posting a b c ix x y) = set (ix x y) \<union> (if x = a \<and> y = b then {c} else {})"
  by (auto simp: add_posting_def)

lemma add_posting_distinct:
  "(\<And>x y. distinct (ix x y)) \<Longrightarrow> distinct (add_posting a b c ix x y)"
  by (auto simp: add_posting_def)

lemma absorb_fields_set:
  "set (absorb_fields N sc eid fs ix f k) = set (ix f k) \<union>
     (if schema_indexed sc f \<and> (\<exists>st. (f, st) \<in> set fs \<and> index_key N st = Some k) then {eid} else {})"
proof (induction N sc eid fs ix rule: absorb_fields.induct)
  case (2 N sc eid name stored rest ix)
  then show ?case
    by (cases "schema_indexed sc name"; cases "index_key N stored") (auto simp: add_posting_set split: if_splits)
qed simp

lemma absorb_fields_distinct:
  "(\<And>x y. distinct (ix x y)) \<Longrightarrow> distinct (absorb_fields N sc eid fs ix f k)"
proof (induction N sc eid fs ix rule: absorb_fields.induct)
  case (2 N sc eid name stored rest ix)
  then show ?case by (auto simp: add_posting_distinct split: option.splits)
qed simp

lemma absorb_digests_set:
  "set (absorb_digests eid field ds ix f d) = set (ix f d) \<union> (if f = field \<and> d \<in> set ds then {eid} else {})"
  unfolding absorb_digests_def
  by (induction ds arbitrary: ix) (auto simp: add_posting_set split: if_splits)

lemma absorb_digests_distinct:
  "(\<And>x y. distinct (ix x y)) \<Longrightarrow> distinct (absorb_digests eid field ds ix f d)"
  unfolding absorb_digests_def by (induction ds arbitrary: ix) (auto simp: add_posting_distinct)

lemma absorb_tokens_set:
  "set (absorb_tokens eid toks ix f d) = set (ix f d) \<union>
     (if \<exists>t. (f, t) \<in> set toks \<and> d \<in> set (ft_digests t) then {eid} else {})"
  unfolding absorb_tokens_def
proof (induction toks arbitrary: ix)
  case (Cons a toks)
  obtain g t where "a = (g, t)" by (cases a)
  then show ?case using Cons by (auto simp: absorb_digests_set split: if_splits)
qed simp

lemma absorb_tokens_distinct:
  "(\<And>x y. distinct (ix x y)) \<Longrightarrow> distinct (absorb_tokens eid toks ix f d)"
  unfolding absorb_tokens_def
proof (induction toks arbitrary: ix)
  case (Cons a toks)
  obtain g t where "a = (g, t)" by (cases a)
  then show ?case using Cons by (simp add: absorb_digests_distinct)
qed simp

subsection \<open>Absorbing a fresh record\<close>

lemma find_append: "find P (xs @ ys) = (case find P xs of None \<Rightarrow> find P ys | Some x \<Rightarrow> Some x)"
  by (induction xs) auto

lemma find_uid_None: "find (\<lambda>r. rr_uid r = u) recs = None \<longleftrightarrow> u \<notin> rr_uid ` set recs"
  by (auto simp: find_None_iff)

lemma absorb_ok:
  assumes ok: "idx_ok N recs ri" and fresh: "rr_uid rec \<notin> rr_uid ` set recs"
  shows "idx_ok N (recs @ [rec]) (absorb N ri rec)"
proof -
  note D = idx_okD [OF ok]
  let ?ri = "absorb N ri rec"
  have v: "versions_of ?ri eid = map rr_uid (recs_of eid (recs @ [rec]))" for eid
  proof (cases "eid = rr_entity_id rec")
    case True
    then show ?thesis using D(2) [of eid] by (simp add: absorb_def versions_of_def update_conv' recs_of_def)
  next
    case False
    then show ?thesis using D(2) [of eid] by (simp add: absorb_def versions_of_def update_conv' recs_of_def)
  qed
  have b: "reg_version ?ri u = find (\<lambda>r. rr_uid r = u) (recs @ [rec])" for u
  proof (cases "u = rr_uid rec")
    case True
    then show ?thesis using fresh find_uid_None [of u recs]
      by (simp add: absorb_def reg_version_def update_conv' find_append)
  next
    case False
    then show ?thesis using D(3) [of u]
      by (auto simp: absorb_def reg_version_def update_conv' find_append split: option.splits)
  qed
  have i: "distinct (ri_index ?ri f k) \<and>
      set (ri_index ?ri f k) = rr_entity_id ` {r \<in> set (recs @ [rec]). has_key N (ri_schema ?ri) f k r}" for f k
    using D(7) D(8) [of f k]
    by (auto simp: absorb_def absorb_fields_set has_key_def intro!: absorb_fields_distinct split: if_splits)
  have t: "distinct (ri_token_index ?ri f d) \<and>
      set (ri_token_index ?ri f d) = rr_entity_id ` {r \<in> set (recs @ [rec]). has_digest f d r}" for f d
    using D(9) D(10) [of f d]
    by (auto simp: absorb_def absorb_tokens_set has_digest_def intro!: absorb_tokens_distinct split: if_splits)
  have s: "distinct (map fst (ri_versions ?ri))" "distinct (map fst (ri_by_uid ?ri))"
    "fst ` set (ri_versions ?ri) = rr_entity_id ` set (recs @ [rec])"
    using D(4,5,6) by (simp_all add: absorb_def distinct_update dom_update)
  show ?thesis unfolding idx_ok_def using D(1) fresh v b i t s by simp
qed

definition index_of :: "textext \<Rightarrow> type_schema \<Rightarrow> bool \<Rightarrow> registry_record list \<Rightarrow> registry_index" where
  "index_of N sc cache recs = foldl (absorb N) (registry_index_new sc cache) recs"

lemma index_of_ok: "distinct (map rr_uid recs) \<Longrightarrow> idx_ok N recs (index_of N sc cache recs)"
proof (induction recs rule: rev_induct)
  case (snoc r recs)
  then show ?case by (auto simp: index_of_def intro!: absorb_ok)
qed (simp add: index_of_def idx_ok_new)

lemma absorb_fields_schema [simp]: "ri_schema (absorb N ri r) = ri_schema ri"
  "ri_cache_plaintexts (absorb N ri r) = ri_cache_plaintexts ri" "ri_held (absorb N ri r) = ri_held ri"
  by (simp_all add: absorb_def)

lemma index_of_schema [simp]: "ri_schema (index_of N sc cache recs) = sc"
  "ri_cache_plaintexts (index_of N sc cache recs) = cache"
  by (induction recs rule: rev_induct) (simp_all add: index_of_def registry_index_new_def)

subsection \<open>Lookups\<close>

lemma reg_version_rec:
  "idx_ok N recs ri \<Longrightarrow> r \<in> set recs \<Longrightarrow> reg_version ri (rr_uid r) = Some r"
proof -
  assume ok: "idx_ok N recs ri" and r: "r \<in> set recs"
  have "find (\<lambda>x. rr_uid x = rr_uid r) recs = Some r"
    using idx_okD(1) [OF ok] r
  proof (induction recs)
    case (Cons a recs)
    then show ?case by (cases "a = r") (auto simp: image_iff)
  qed simp
  then show ?thesis using idx_okD(3) [OF ok] by simp
qed

lemma reg_version_in: "idx_ok N recs ri \<Longrightarrow> reg_version ri u = Some r \<Longrightarrow> r \<in> set recs \<and> rr_uid r = u"
  by (auto simp: idx_okD(3) find_Some_iff)

lemma versions_empty:
  assumes "idx_ok N recs ri" and "map_of (ri_versions ri) eid = Some us"
  shows "us \<noteq> []"
proof -
  have "eid \<in> fst ` set (ri_versions ri)" using map_of_SomeD [OF assms(2)] by force
  then have "recs_of eid recs \<noteq> []" using idx_okD(5) [OF assms(1)] by (auto simp: recs_of_def filter_empty_conv)
  then show ?thesis using idx_okD(2) [OF assms(1), of eid] assms(2) by (simp add: versions_of_def)
qed

lemma latest_uid_rec:
  assumes "idx_ok N recs ri"
  shows "latest_uid ri eid = (if recs_of eid recs = [] then None else Some (rr_uid (last (recs_of eid recs))))"
  using idx_okD(2) [OF assms, of eid] versions_empty [OF assms]
  by (auto simp: latest_uid_def versions_of_def last_map split: option.splits)

lemma latest_rec:
  assumes "idx_ok N recs ri"
  shows "latest ri eid = (if recs_of eid recs = [] then None else Some (last (recs_of eid recs)))"
proof (cases "recs_of eid recs = []")
  case False
  then have "last (recs_of eid recs) \<in> set recs" using last_in_set [OF False] by (auto simp: recs_of_def)
  then show ?thesis using False reg_version_rec [OF assms] latest_uid_rec [OF assms] by (simp add: latest_def)
qed (simp add: latest_def latest_uid_rec [OF assms])

text \<open>\<open>by_uid[uid]\<close> never panics.\<close>

lemma idx_uids_present:
  assumes "idx_ok N recs ri" and "u \<in> set (versions_of ri eid)"
  shows "\<exists>r. reg_version ri u = Some r \<and> rr_entity_id r = eid"
proof -
  obtain r where "r \<in> set recs" "rr_uid r = u" "rr_entity_id r = eid"
    using assms(2) idx_okD(2) [OF assms(1), of eid] by (auto simp: recs_of_def)
  then show ?thesis using reg_version_rec [OF assms(1)] by blast
qed

section \<open>Exact search\<close>

lemma search_exact_past:
  assumes ok: "idx_ok N recs ri" and "fd_indexed def" and "exact_probe_keys K N R def probe = Inr keys"
  shows "\<exists>out. search_exact K N R ri def field probe True = Inr out \<and> sorted out \<and> distinct out \<and>
    set out = rr_entity_id ` {r \<in> set recs. \<exists>k \<in> set keys. has_key N (ri_schema ri) field k r}"
  using assms idx_okD(8) [OF ok, of field] by (auto simp: search_exact_def Let_def)

lemma search_exact_latest:
  assumes ok: "idx_ok N recs ri" and "fd_indexed def" and "exact_probe_keys K N R def probe = Inr keys"
  shows "\<exists>out. search_exact K N R ri def field probe False = Inr out \<and> sorted out \<and> distinct out \<and>
    set out = {eid. (\<exists>r \<in> set recs. rr_entity_id r = eid \<and> (\<exists>k \<in> set keys. has_key N (ri_schema ri) field k r)) \<and>
      (\<exists>st k. recs_of eid recs \<noteq> [] \<and> \<not> rr_deleted (last (recs_of eid recs)) \<and>
         map_of (rr_fields (last (recs_of eid recs))) field = Some st \<and> index_key N st = Some k \<and> k \<in> set keys)}"
proof -
  have l: "exact_latest N ri field keys eid \<longleftrightarrow>
      (\<exists>st k. recs_of eid recs \<noteq> [] \<and> \<not> rr_deleted (last (recs_of eid recs)) \<and>
         map_of (rr_fields (last (recs_of eid recs))) field = Some st \<and> index_key N st = Some k \<and> k \<in> set keys)" for eid
    by (auto simp: exact_latest_def latest_rec [OF ok] split: option.splits bind_splits)
  show ?thesis using assms idx_okD(8) [OF ok, of field] by (auto simp: search_exact_def Let_def l)
qed

section \<open>Token search\<close>

definition covers :: "string \<Rightarrow> string list \<Rightarrow> registry_record \<Rightarrow> bool" where
  "covers f ds r \<longleftrightarrow> (\<exists>t. map_of (rr_tokens r) f = Some t \<and> set ds \<subseteq> set (ft_digests t))"

lemma carries_all_rec:
  "idx_ok N recs ri \<Longrightarrow> r \<in> set recs \<Longrightarrow> carries_all ri f ds (rr_uid r) \<longleftrightarrow> covers f ds r"
  by (auto simp: carries_all_def reg_version_rec covers_def list_all_iff split: option.splits)

lemma alive_rec: "idx_ok N recs ri \<Longrightarrow> r \<in> set recs \<Longrightarrow> alive ri (rr_uid r) \<longleftrightarrow> \<not> rr_deleted r"
  by (simp add: alive_def reg_version_rec)

lemma covers_digest: "covers f ds r \<Longrightarrow> d \<in> set ds \<Longrightarrow> has_digest f d r"
  by (auto simp: covers_def has_digest_def dest!: map_of_SomeD)

definition hit :: "bool \<Rightarrow> (registry_record \<Rightarrow> bool) \<Rightarrow> registry_record list \<Rightarrow> string \<Rightarrow> bool" where
  "hit include_past P recs eid \<longleftrightarrow>
     (if include_past then \<exists>r \<in> set recs. rr_entity_id r = eid \<and> P r
      else recs_of eid recs \<noteq> [] \<and> \<not> rr_deleted (last (recs_of eid recs)) \<and> P (last (recs_of eid recs)))"

lemma hit_cong: "(\<And>r. r \<in> set recs \<Longrightarrow> P r = Q r) \<Longrightarrow> hit b P recs eid = hit b Q recs eid"
proof -
  assume a: "\<And>r. r \<in> set recs \<Longrightarrow> P r = Q r"
  have "recs_of eid recs \<noteq> [] \<Longrightarrow> last (recs_of eid recs) \<in> set recs"
    using last_in_set [of "recs_of eid recs"] by (auto simp: recs_of_def)
  then show ?thesis using a by (auto simp: hit_def)
qed

lemma token_candidates_rec:
  assumes ok: "idx_ok N recs ri" and ds: "ds \<noteq> []"
  shows "sorted (token_candidates ri f ds past) \<and> distinct (token_candidates ri f ds past) \<and>
    set (token_candidates ri f ds past) = {eid. hit past (covers f ds) recs eid}"
proof -
  obtain d ds' where d: "ds = d # ds'" using ds by (cases ds) auto
  let ?ids = "filter (\<lambda>i. list_all (\<lambda>d. i \<in> set (ri_token_index ri f d)) ds') (ri_token_index ri f d)"
  let ?P = "\<lambda>i. if past then list_ex (carries_all ri f ds) (versions_of ri i)
    else versions_of ri i \<noteq> [] \<and> alive ri (last (versions_of ri i)) \<and> carries_all ri f ds (last (versions_of ri i))"
  have out: "token_candidates ri f ds past = sort (filter ?P ?ids)"
    by (simp add: token_candidates_def d Let_def)
  have P: "?P i \<longleftrightarrow> hit past (covers f ds) recs i" for i
  proof (cases past)
    case True
    have "list_ex (carries_all ri f ds) (versions_of ri i) \<longleftrightarrow>
        (\<exists>r \<in> set recs. rr_entity_id r = i \<and> carries_all ri f ds (rr_uid r))"
      by (auto simp: idx_okD(2) [OF ok] list_ex_iff recs_of_def)
    then show ?thesis using True carries_all_rec [OF ok] by (simp add: hit_def cong: conj_cong)
  next
    case False
    show ?thesis
    proof (cases "recs_of i recs = []")
      case True
      then show ?thesis using False by (simp add: hit_def idx_okD(2) [OF ok])
    next
      case ne: False
      then have m: "last (recs_of i recs) \<in> set recs" using last_in_set [OF ne] by (auto simp: recs_of_def)
      show ?thesis using False ne carries_all_rec [OF ok m] alive_rec [OF ok m]
        by (simp add: hit_def idx_okD(2) [OF ok] last_map)
    qed
  qed
  have sub: "hit past (covers f ds) recs i \<Longrightarrow> i \<in> set ?ids" for i
  proof -
    assume h: "hit past (covers f ds) recs i"
    obtain r where r: "r \<in> set recs" "rr_entity_id r = i" "covers f ds r"
    proof (cases past)
      case True
      then show ?thesis using h that by (auto simp: hit_def)
    next
      case False
      then have ne: "recs_of i recs \<noteq> []" and c: "covers f ds (last (recs_of i recs))" using h by (auto simp: hit_def)
      then show ?thesis using that [of "last (recs_of i recs)"] last_in_set [OF ne] by (auto simp: recs_of_def)
    qed
    then have "i \<in> set (ri_token_index ri f x)" if "x \<in> set ds" for x
      using covers_digest [OF r(3) that] by (auto simp: idx_okD(10) [OF ok])
    then show ?thesis by (simp add: d list_all_iff)
  qed
  show ?thesis unfolding out using P sub idx_okD(9) [OF ok] by auto
qed

lemma token_candidates_Nil [simp]: "token_candidates ri f [] past = []"
  by (simp add: token_candidates_def)

lemma sort_dedup_spec: "sorted (sort_dedup xs) \<and> distinct (sort_dedup xs) \<and> set (sort_dedup xs) = set xs"
proof -
  have "distinct (remdups_adj ys)" if "sorted ys" for ys :: "string list"
    using that by (induction ys rule: remdups_adj.induct) auto
  then show ?thesis by (simp add: sort_dedup_def sorted_remdups_adj)
qed

section \<open>Scans over plaintexts\<close>

lemma plaintext_of_keeps:
  assumes "plaintext_of K N R u f ri = (r, ri')"
  shows "\<exists>h. ri' = ri\<lparr>ri_held := h\<rparr>"
proof -
  have "ri' = ri \<or> (\<exists>h. ri' = ri\<lparr>ri_held := h\<rparr>)"
    using assms by (auto simp: plaintext_of_def split: option.splits stored_value.splits sum.splits)
  then show ?thesis by (metis registry_index.surjective registry_index.update_convs(6))
qed

lemma scan_uids_keeps:
  "scan_uids K N R f P us hits ri = (r, ri') \<Longrightarrow> \<exists>h. ri' = ri\<lparr>ri_held := h\<rparr>"
proof (induction us arbitrary: hits ri)
  case Nil
  then have "ri' = ri" by (auto simp: retE_def)
  then show ?case by (metis registry_index.surjective registry_index.update_convs(6))
next
  case (Cons u us)
  obtain r1 ri1 where p: "plaintext_of K N R u f ri = (r1, ri1)" by (metis surj_pair)
  then obtain h where h: "ri1 = ri\<lparr>ri_held := h\<rparr>" using plaintext_of_keeps by blast
  show ?case
  proof (cases r1)
    case (Inl e)
    then show ?thesis using Cons.prems p h by (auto simp: seqE_def)
  next
    case (Inr a)
    then obtain hits' where "scan_uids K N R f P us hits' ri1 = (r, ri')"
      using Cons.prems p by (auto simp: seqE_def)
    then obtain h' where "ri' = ri1\<lparr>ri_held := h'\<rparr>" using Cons.IH by blast
    then show ?thesis using h by auto
  qed
qed

end
