(* ===== verification/Scan_Loop.thy ===== *)
theory Scan_Loop
  imports Table_Reopen
begin

text \<open>
  Loops over a positional scan: \<open>while let Some(row) = scan.next_row()? { ... }\<close> with a body that
  updates an accumulator and may break. Every call that returns a row makes progress, so the loop
  ends; over the snapshot of a table it is the same loop over the list of rows the query keeps.
\<close>

section \<open>Progress\<close>

definition ps_measure :: "positioned_scan \<Rightarrow> nat \<times> nat" where
  "ps_measure s = (length (ps_slices s) - ps_slice_idx s,
     (case ps_current s of None \<Rightarrow> 0 | Some (_, _, r) \<Rightarrow> 1 + reader_left r) + length (ps_buffered s))"

abbreviation ps_less :: "(positioned_scan \<times> positioned_scan) set" where
  "ps_less \<equiv> inv_image (less_than <*lex*> less_than) ps_measure"

lemma ps_less_trans: "(a, b) \<in> ps_less \<Longrightarrow> (b, c) \<in> ps_less \<Longrightarrow> (a, c) \<in> ps_less"
  unfolding in_inv_image by (rule transD [OF trans_lex_prod [OF trans_less_than trans_less_than]])

lemma ps_less_slices:
  "length (ps_slices s') - ps_slice_idx s' < length (ps_slices s) - ps_slice_idx s \<Longrightarrow> (s', s) \<in> ps_less"
  by (simp add: ps_measure_def)

lemma ps_next_asc_progress:
  "ps_next_asc X C w s = (Inr (Some row), s') \<Longrightarrow> (s', s) \<in> ps_less"
proof (induction X C w s rule: ps_next_asc.induct)
  case (1 X C w s)
  show ?case
  proof (cases "ps_current s")
    case None
    obtain o1 s1 where n: "ps_next_slice s = (o1, s1)" by (metis surj_pair)
    then obtain sl where o1: "o1 = Some sl" using "1.prems" None
      by (subst (asm) ps_next_asc.simps) (auto split: option.splits)
    from n o1 "1.prems" None obtain r where r: "open_bounded (sl_path sl) (sl_bound sl) w = Inr r"
      and rec: "ps_next_asc X C w (s1\<lparr>ps_current := Some (sl_seq sl, 0, r)\<rparr>) = (Inr (Some row), s')"
      by (subst (asm) ps_next_asc.simps) (auto split: sum.splits)
    have "(s', s1\<lparr>ps_current := Some (sl_seq sl, 0, r)\<rparr>) \<in> ps_less"
      using "1.IH"(1) [OF None n [symmetric] o1 r rec] .
    moreover have "(s1\<lparr>ps_current := Some (sl_seq sl, 0, r)\<rparr>, s) \<in> ps_less"
      using ps_next_slice_idx [of s sl s1] n o1 by (intro ps_less_slices) auto
    ultimately show ?thesis by (rule ps_less_trans)
  next
    case (Some cur)
    obtain seq idx r where cur: "cur = (seq, idx, r)" by (cases cur)
    obtain o1 r1 where nr: "next_record X r = Inr (o1, r1)"
      using "1.prems" Some cur by (subst (asm) ps_next_asc.simps) (auto split: sum.splits)
    show ?thesis
    proof (cases o1)
      case None
      then have rec: "ps_next_asc X C w (s\<lparr>ps_current := None\<rparr>) = (Inr (Some row), s')"
        using "1.prems" Some cur nr by (subst (asm) ps_next_asc.simps) simp
      have "(s', s\<lparr>ps_current := None\<rparr>) \<in> ps_less"
        using "1.IH"(2) [OF Some cur [symmetric] refl nr refl None rec] .
      then show ?thesis using Some cur by (auto simp: ps_measure_def)
    next
      case (Some tp)
      obtain ts p where tp: "tp = (ts, p)" by (cases tp)
      let ?s1 = "s\<lparr>ps_current := Some (seq, idx + 1, r1)\<rparr>"
      have less: "(?s1, s) \<in> ps_less"
        using next_record_left [of X r tp r1] nr Some \<open>ps_current s = Some cur\<close> cur by (simp add: ps_measure_def)
      show ?thesis
      proof (cases "ps_in_range s ts \<and> ps_past_cursor s (seq, idx)")
        case True
        then have "s' = ?s1" using "1.prems" Some \<open>ps_current s = Some cur\<close> cur nr tp
          by (subst (asm) ps_next_asc.simps) (auto simp: Let_def split: sum.splits)
        then show ?thesis using less by simp
      next
        case False
        then have rec: "ps_next_asc X C w ?s1 = (Inr (Some row), s')"
          using "1.prems" Some \<open>ps_current s = Some cur\<close> cur nr tp
          by (subst (asm) ps_next_asc.simps) (simp add: Let_def if_not_P [OF False])
        have "(s', ?s1) \<in> ps_less"
          using "1.IH"(3) [OF \<open>ps_current s = Some cur\<close> cur [symmetric] refl nr refl Some tp [symmetric] refl False rec] .
        then show ?thesis using less by (rule ps_less_trans)
      qed
    qed
  qed
qed

lemma buffer_loop_current:
  "buffer_loop X s seq idx r = (res, s') \<Longrightarrow> ps_current s' = ps_current s"
proof (induction X s seq idx r rule: buffer_loop.induct)
  case (1 X s seq idx r)
  then show ?case
    by (subst (asm) (2) buffer_loop.simps) (auto split: sum.splits prod.splits option.splits if_splits)
qed

lemma ps_next_desc_progress:
  "ps_next_desc X C w s = (Inr (Some row), s') \<Longrightarrow> (s', s) \<in> ps_less"
proof (induction X C w s rule: ps_next_desc.induct)
  case (1 X C w s)
  show ?case
  proof (cases "ps_buffered s = []")
    case False
    then have "s' = s\<lparr>ps_buffered := butlast (ps_buffered s)\<rparr>"
      using "1.prems" by (subst (asm) ps_next_desc.simps) (auto simp: Let_def split: sum.splits prod.splits)
    then show ?thesis using False by (simp add: ps_measure_def)
  next
    case True
    obtain o1 s1 where n: "ps_next_slice s = (o1, s1)" by (metis surj_pair)
    then obtain sl where o1: "o1 = Some sl" using "1.prems" True
      by (subst (asm) ps_next_desc.simps) (auto split: option.splits)
    from n o1 "1.prems" True obtain r where r: "open_bounded (sl_path sl) (sl_bound sl) w = Inr r"
      by (subst (asm) ps_next_desc.simps) (auto split: sum.splits)
    obtain b s2 where bl: "buffer_loop X s1 (sl_seq sl) 0 r = (b, s2)" by (metis surj_pair)
    then have b: "b = Inr ()" and rec: "ps_next_desc X C w s2 = (Inr (Some row), s')"
      using n o1 r "1.prems" True by (subst (asm) ps_next_desc.simps, simp split: sum.splits)+
    have "(s', s2) \<in> ps_less"
      using "1.IH" [OF _ n [symmetric] o1 r bl [symmetric] b rec] True by simp
    moreover have "(s2, s) \<in> ps_less"
      using ps_next_slice_idx [of s sl s1] n o1 buffer_loop_fields [OF bl] by (intro ps_less_slices) auto
    ultimately show ?thesis by (rule ps_less_trans)
  qed
qed

lemma ps_next_row_progress:
  "ps_next_row X C w s = (Inr (Some row), s') \<Longrightarrow> (s', s) \<in> ps_less"
  unfolding ps_next_row_def using ps_next_asc_progress [of X C w s row s'] ps_next_desc_progress [of X C w s row s']
  by (cases "ps_desc s") simp_all

section \<open>The loop\<close>

text \<open>The body returns the new accumulator and whether to go on.\<close>

function ps_loop ::
  "ext \<Rightarrow> 'r codec \<Rightarrow> fs \<Rightarrow> (position \<times> 'r \<Rightarrow> 'a \<Rightarrow> 'a \<times> bool) \<Rightarrow> positioned_scan \<Rightarrow> 'a
     \<Rightarrow> 'a res \<times> positioned_scan" where
  "ps_loop X C w body s acc =
     (case ps_next_row X C w s of
        (Inl e, s') \<Rightarrow> (Inl e, s')
      | (Inr None, s') \<Rightarrow> (Inr acc, s')
      | (Inr (Some x), s') \<Rightarrow>
          (case body x acc of (acc', go) \<Rightarrow>
             if go then ps_loop X C w body s' acc' else (Inr acc', s')))"
  by pat_completeness auto
termination
  by (relation "inv_image ps_less (\<lambda>(X, C, w, body, s, acc). s)")
    (auto simp del: in_inv_image simp: in_inv_image [of _ _ ps_less] dest!: ps_next_row_progress [OF sym])

declare ps_loop.simps [simp del]

fun list_loop :: "('x \<Rightarrow> 'a \<Rightarrow> 'a \<times> bool) \<Rightarrow> 'x list \<Rightarrow> 'a \<Rightarrow> 'a" where
  "list_loop body [] acc = acc"
| "list_loop body (x # xs) acc = (case body x acc of (acc', go) \<Rightarrow> if go then list_loop body xs acc' else acc')"

lemma ps_loop_rows:
  assumes "ps_todo X w s todo" and "decode_rows C (filter (ps_keep s) todo) = Inr rows"
  shows "\<exists>s'. ps_loop X C w body s acc = (Inr (list_loop body rows acc), s')"
  using assms
proof (induction rows arbitrary: s todo acc)
  case Nil
  then have F: "filter (ps_keep s) todo = []"
    by (cases "filter (ps_keep s) todo") (auto simp: decode_rows_def rbind_Inr_iff)
  show ?case using ps_next_row_step [OF Nil(1), of C]
    by (subst ps_loop.simps) (auto simp: scan_step_def row_result_def F)
next
  case (Cons x rows)
  obtain e F where F: "filter (ps_keep s) todo = e # F"
    using Cons.prems(2) by (cases "filter (ps_keep s) todo") (auto simp: decode_rows_def)
  have x: "decode_row C e = Inr (Some x)" and rows: "decode_rows C F = Inr rows"
    using Cons.prems(2) unfolding F decode_rows_def decode_row_def by (auto simp: rbind_Inr_iff)
  obtain s' todo' where s': "same_query s s'" "ps_todo X w s' todo'" "filter (ps_keep s) todo' = F"
    and nxt: "ps_next_row X C w s = (Inr (Some x), s')"
    using ps_next_row_step [OF Cons.prems(1), of C] x unfolding scan_step_def F row_result_def by auto
  have "decode_rows C (filter (ps_keep s') todo') = Inr rows"
    using s'(3) rows same_query_keep [OF s'(1)] by simp
  then have "\<exists>s''. ps_loop X C w body s' (fst (body x acc)) = (Inr (list_loop body rows (fst (body x acc))), s'')"
    using Cons.IH [OF s'(2)] by blast
  then show ?case by (subst ps_loop.simps) (auto simp: nxt split: prod.splits)
qed

text \<open>Over the snapshot of a table.\<close>

lemma table_loop:
  assumes "tbl_inv X M vs v t w" and "snap_ok X vs v t w'" and "files_fit w'"
    and "decode_rows C (filter (asked desc from to after) (query_order desc (table_numbered t vs v))) = Inr rows"
  shows "\<exists>s'. ps_loop X C w' body (positioned_new (slices_of t) desc from to after) acc = (Inr (list_loop body rows acc), s')"
  using ps_loop_rows [OF positioned_scan_todo [OF assms(1-3), of desc "from" to after]] assms(4)
  by (simp add: ps_keep_new)


section \<open>Collecting a scan\<close>

text \<open>
  \<open>table.scan()?.collect::<Result<Vec<_>>>()\<close>: \<open>next_row\<close> until the end or the first error
  (\<open>impl Iterator for TableScan\<close> in \<open>crates/quipu-core/src/storage/table.rs\<close>). Every call of
  \<open>next_row\<close> that returns a row moves the reader forward, so the loop ends.
\<close>


definition ts_measure :: "table_scan \<Rightarrow> nat \<times> nat" where
  "ts_measure s = (length (ts_slices s) - ts_idx s,
     case ts_current s of None \<Rightarrow> 0 | Some r \<Rightarrow> rd_end r - rd_offset r)"

lemma ts_next_row_progress:
  "ts_next_row X C w s = (Inr (Some row), s') \<Longrightarrow> (ts_measure s', ts_measure s) \<in> less_than <*lex*> less_than"
proof (induction X C w s rule: ts_next_row.induct)
  case (1 X C w s)
  show ?case
  proof (cases "ts_current s")
    case None
    show ?thesis
    proof (cases "ts_idx s \<ge> length (ts_slices s)")
      case True
      then show ?thesis using "1.prems" None by (subst (asm) ts_next_row.simps) simp
    next
      case False
      let ?sl = "ts_slices s ! ts_idx s" and ?s1 = "s\<lparr>ts_idx := ts_idx s + 1\<rparr>"
      show ?thesis
      proof (cases "open_bounded (sl_path ?sl) (sl_bound ?sl) w")
        case (Inl e)
        then have "io_vanished e" and n: "ts_next_row X C w ?s1 = (Inr (Some row), s')"
          using "1.prems" None False by (subst (asm) ts_next_row.simps, simp add: Let_def split: if_splits)+
        then have "(ts_measure s', ts_measure ?s1) \<in> less_than <*lex*> less_than"
          using "1.IH"(1) [OF None _ refl refl Inl] False by simp
        then show ?thesis using False None by (auto simp: ts_measure_def)
      next
        case (Inr r)
        then have n: "ts_next_row X C w (?s1\<lparr>ts_current := Some r\<rparr>) = (Inr (Some row), s')"
          using "1.prems" None False by (subst (asm) ts_next_row.simps) (simp add: Let_def)
        then have "(ts_measure s', ts_measure (?s1\<lparr>ts_current := Some r\<rparr>)) \<in> less_than <*lex*> less_than"
          using "1.IH"(2) [OF None _ refl refl Inr] False by simp
        then show ?thesis using False None by (auto simp: ts_measure_def)
      qed
    qed
  next
    case (Some r)
    show ?thesis
    proof (cases "next_record X r")
      case (Inl e)
      then show ?thesis using "1.prems" Some by (subst (asm) ts_next_row.simps) simp
    next
      case (Inr a)
      obtain o' r' where a: "a = (o', r')" by (cases a)
      show ?thesis
      proof (cases o')
        case None
        then have n: "ts_next_row X C w (s\<lparr>ts_current := None\<rparr>) = (Inr (Some row), s')"
          using "1.prems" Some Inr a by (subst (asm) ts_next_row.simps) simp
        then have "(ts_measure s', ts_measure (s\<lparr>ts_current := None\<rparr>)) \<in> less_than <*lex*> less_than"
          using "1.IH"(3) [OF Some Inr a [symmetric] None] by simp
        then show ?thesis using Some by (auto simp: ts_measure_def)
      next
        case (Some tp)
        obtain ts p where tp: "tp = (ts, p)" by (cases tp)
        have off: "rd_end r' - rd_offset r' < rd_end r - rd_offset r"
          using Inr a Some tp by (intro next_record_offset) simp
        have "s' = s\<lparr>ts_current := Some r'\<rparr>"
          using "1.prems" \<open>ts_current s = Some r\<close> Inr a Some tp
          by (subst (asm) ts_next_row.simps) (simp split: sum.splits)
        then show ?thesis using off \<open>ts_current s = Some r\<close> by (auto simp: ts_measure_def)
      qed
    qed
  qed
qed

function ts_collect :: "ext \<Rightarrow> 'r codec \<Rightarrow> fs \<Rightarrow> table_scan \<Rightarrow> 'r list res" where
  "ts_collect X C w s =
     (case ts_next_row X C w s of
        (Inl e, _) \<Rightarrow> Inl e
      | (Inr None, _) \<Rightarrow> Inr []
      | (Inr (Some row), s') \<Rightarrow> rbind (ts_collect X C w s') (\<lambda>rows. Inr (row # rows)))"
  by pat_completeness auto
termination
  by (relation "inv_image (less_than <*lex*> less_than) (\<lambda>(X, C, w, s). ts_measure s)")
    (auto simp del: in_lex_prod dest!: ts_next_row_progress [OF sym])

declare ts_collect.simps [simp del]

definition table_scan_all :: "ext \<Rightarrow> 'r codec \<Rightarrow> 'r list top" where
  "table_scan_all X C = seqE table_slices (\<lambda>sls (t, w). (ts_collect X C w (scan_over sls), (t, w)))"

lemma ts_collect_reads: "ts_reads X C w s rows \<Longrightarrow> ts_collect X C w s = Inr rows"
  by (induction rule: ts_reads.induct) (simp_all add: ts_collect.simps)

lemma table_scan_all_rows:
  assumes inv: "tbl_inv X M vs v t w" and q: "quiet w"
    and run: "table_scan_all X C (t, w) = (r, (t', w'))" and fit: "files_fit w'"
    and de: "\<And>r. r \<in> set (view_rows (vs @ [v])) \<Longrightarrow> c_de C (snd r) = Inr (f (snd r))"
  shows "r = Inr (map (f \<circ> snd) (view_rows (vs @ [v]))) \<and> tbl_inv X M vs v t' w' \<and> quiet w' \<and>
    same_outside (t_dir t) w w' \<and> t' = t\<lparr>t_active := t_active t'\<rparr>"
proof -
  obtain r1 t1 w1 where fl: "table_flush (t, w) = (r1, (t1, w1))" by (metis surj_pair)
  from inv fl show ?thesis
  proof (cases rule: table_flush_cases)
    case ok
    have w': "w' = w1" "t' = t1" and r: "r = ts_collect X C w1 (scan_over (slices_of t1))"
      using run fl ok(1) by (auto simp: table_scan_all_def table_slices_def seqE_def)
    have e: "t_dir t1 = t_dir t" "t_active_seq t1 = t_active_seq t" "t_sealed t1 = t_sealed t"
      by (subst ok(4), simp)+
    have "snap_ok X vs v t1 w1"
      using ok(2,7) by (auto simp: snap_ok_def tbl_inv_def e)
    then have "ts_left X w1 (scan_over (slices_of t1)) (view_rows (vs @ [v]))"
      using scan_over_left [OF ok(2)] fit w' by simp
    then have "ts_reads X C w1 (scan_over (slices_of t1)) (map (f \<circ> snd) (view_rows (vs @ [v])))"
      using de by (rule ts_reads_left)
    then show ?thesis using ts_collect_reads r ok w' same_outside_quiet [OF ok(3) q] by simp
  next
    case (fault i)
    then show ?thesis using q by simp
  qed
qed

end
