(* ===== verification/Registry.thy ===== *)
theory Registry
  imports Registry_Facts Scan_Loop
begin

text \<open>
  The registry of one entity type: a table of versions on disk and the index over it
  (\<open>TypeRegistry\<close> in \<open>crates/quipu-core/src/registry.rs\<close>). \<open>bincode\<close>'s encoding of the records is a
  codec parameter; the uid and the clock of one call, and the randomness of each of its
  encryptions, are inputs.
\<close>

record type_registry =
  tg_table :: table
  tg_idx :: registry_index
  tg_fingerprints :: "(string \<times> string) list"

type_synonym 'a rop = "(type_registry \<times> fs, error, 'a) sop"

text \<open>What a registry works with: the crypto and text libraries, and the codecs.\<close>

record renv =
  re_ext :: ext
  re_meta :: "seg_meta codec"
  re_codec :: "registry_record codec"
  re_crypto :: cryptoext
  re_text :: textext

definition on_tg_table :: "'a top \<Rightarrow> 'a rop" where
  "on_tg_table m = (\<lambda>(g, w). case m (tg_table g, w) of (r, (t, w')) \<Rightarrow> (r, (g\<lparr>tg_table := t\<rparr>, w')))"

definition on_tg_idx :: "(registry_index, error, 'a) sop \<Rightarrow> 'a rop" where
  "on_tg_idx m = (\<lambda>(g, w). case m (tg_idx g) of (r, ri) \<Rightarrow> (r, (g\<lparr>tg_idx := ri\<rparr>, w)))"

section \<open>Opening\<close>

fun check_field :: "type_schema \<Rightarrow> field_def \<Rightarrow> unit res" where
  "check_field sc f =
     (if fd_indexed f \<and> fd_protection f = PRsa
      then Inl (Schema (RsaFieldIndexed (fd_name f) (sc_type_name sc)))
      else case fd_search f of
             INone \<Rightarrow> Inr ()
           | IExact \<Rightarrow> if fd_kind f \<noteq> TextK then Inl (Schema (FieldIndexNeedsText (fd_name f) (sc_type_name sc))) else Inr ()
           | IPrefix n \<Rightarrow>
               if n = 0 then Inl (Schema (FieldIndexSizeZero (fd_name f) (sc_type_name sc)))
               else if fd_kind f \<noteq> TextK then Inl (Schema (FieldIndexNeedsText (fd_name f) (sc_type_name sc))) else Inr ()
           | INgram n \<Rightarrow>
               if n = 0 then Inl (Schema (FieldIndexSizeZero (fd_name f) (sc_type_name sc)))
               else if fd_kind f \<noteq> TextK then Inl (Schema (FieldIndexNeedsText (fd_name f) (sc_type_name sc))) else Inr ())"

fun check_fields :: "type_schema \<Rightarrow> field_def list \<Rightarrow> unit res" where
  "check_fields sc [] = Inr ()"
| "check_fields sc (f # fs) = rbind (check_field sc f) (\<lambda>_. check_fields sc fs)"

text \<open>An error while reading the records drops the table that was just opened.\<close>

definition reg_open :: "renv \<Rightarrow> path \<Rightarrow> type_schema \<Rightarrow> nat \<Rightarrow> bool \<Rightarrow> (fs, error, type_registry) sop" where
  "reg_open E dir sc max_bytes cache =
     seqE (liftE (check_fields sc (sc_fields sc))) (\<lambda>_.
     seqE (table_open (re_ext E) (re_meta E) dir max_bytes) (\<lambda>t w.
       case table_scan_all (re_ext E) (re_codec E) (t, w) of
         (Inl e, (t', w')) \<Rightarrow> (Inl e, table_drop t' w')
       | (Inr recs, (t', w')) \<Rightarrow>
           (Inr \<lparr>tg_table = t', tg_idx = index_of (re_text E) sc cache recs, tg_fingerprints = []\<rparr>, w')))"

section \<open>Validation and fingerprints\<close>

fun validate_fields :: "field_def list \<Rightarrow> (string \<times> fval) list \<Rightarrow> unit res" where
  "validate_fields [] vals = Inr ()"
| "validate_fields (f # fs) vals =
     (case map_of vals (fd_name f) of
        Some v \<Rightarrow> if value_kind_of v \<noteq> fd_kind f then Inl (Schema (FieldKindMismatch (fd_name f)))
                  else validate_fields fs vals
      | None \<Rightarrow> if fd_required f then Inl (Schema (MissingRequiredField (fd_name f))) else validate_fields fs vals)"

fun validate_names :: "type_schema \<Rightarrow> string list \<Rightarrow> unit res" where
  "validate_names sc [] = Inr ()"
| "validate_names sc (n # ns) =
     (if schema_field sc n = None then Inl (Schema (UnknownFieldForType n (sc_type_name sc))) else validate_names sc ns)"

definition reg_validate :: "type_schema \<Rightarrow> entity_input \<Rightarrow> unit res" where
  "reg_validate sc input =
     rbind (validate_fields (sc_fields sc) (en_fields input)) (\<lambda>_. validate_names sc (map fst (en_fields input)))"

definition fingerprint_data :: "textext \<Rightarrow> entity_input \<Rightarrow> bytes" where
  "fingerprint_data N input =
     concat (map (\<lambda>(k, v). as_bytes k @ [0] @ canonical_bytes N v @ [0]) (en_fields input))"

definition fingerprint :: "cryptoext \<Rightarrow> textext \<Rightarrow> entity_input \<Rightarrow> string" where
  "fingerprint K N input = sha256_hex K (fingerprint_data N input)"

section \<open>Upsert and delete\<close>

text \<open>The tokens of one value: all digested under the active key.\<close>

fun digest_tokens ::
  "cryptoext \<Rightarrow> key_ring \<Rightarrow> field_def \<Rightarrow> string list \<Rightarrow> u32 \<Rightarrow> string list \<Rightarrow> field_tokens res" where
  "digest_tokens K R def [] kv ds = Inr \<lparr>ft_key_version = kv, ft_digests = ds\<rparr>"
| "digest_tokens K R def (t # ts) kv ds =
     rbind (index_token_digest K R (fd_name def) (fd_protection def) t) (\<lambda>(v, d).
       digest_tokens K R def ts v (ds @ [d]))"

definition field_tokens_of ::
  "cryptoext \<Rightarrow> textext \<Rightarrow> key_ring \<Rightarrow> field_def \<Rightarrow> fval \<Rightarrow> field_tokens option res" where
  "field_tokens_of K N R def v =
     (if fd_search def = INone then Inr None
      else case v of
             Text s \<Rightarrow> rbind (digest_tokens K R def (value_tokens N s (fd_search def)) KEYLESS []) (\<lambda>t. Inr (Some t))
           | _ \<Rightarrow> Inr None)"

text \<open>
  The loop over the schema's fields. Plaintexts held for fields that were already processed stay
  in the cache when a later field fails. \<open>rs i\<close> is the randomness of the \<open>i\<close>-th field.
\<close>

fun upsert_fields ::
  "cryptoext \<Rightarrow> textext \<Rightarrow> key_ring \<Rightarrow> uid \<Rightarrow> (nat \<Rightarrow> rnd) \<Rightarrow> (string \<times> fval) list \<Rightarrow> nat \<Rightarrow> field_def list
     \<Rightarrow> (string \<times> stored_value) list \<Rightarrow> (string \<times> field_tokens) list
     \<Rightarrow> (registry_index, error, (string \<times> stored_value) list \<times> (string \<times> field_tokens) list) sop" where
  "upsert_fields K N R u rs vals i [] flds toks = retE (flds, toks)"
| "upsert_fields K N R u rs vals i (def # defs) flds toks =
     (case map_of vals (fd_name def) of
        None \<Rightarrow> upsert_fields K N R u rs vals (Suc i) defs flds toks
      | Some v \<Rightarrow>
          seqE (liftE (protect K N R (rs i) v (fd_protection def))) (\<lambda>st.
          seqE (liftE (field_tokens_of K N R def v)) (\<lambda>ft ri.
            upsert_fields K N R u rs vals (Suc i) defs (bt_insert (fd_name def) st flds)
              (case ft of None \<Rightarrow> toks | Some t \<Rightarrow> bt_insert (fd_name def) t toks)
              (if ri_cache_plaintexts ri \<and> fd_protection def \<noteq> PNone
               then ri\<lparr>ri_held := AList.update (u, fd_name def) (canonical_bytes N v) (ri_held ri)\<rparr>
               else ri))))"

text \<open>Appending a record to the table, flushing it, and absorbing it.\<close>

definition reg_store_record :: "renv \<Rightarrow> registry_record \<Rightarrow> unit rop" where
  "reg_store_record E rec =
     seqE (on_tg_table (table_append (re_ext E) (re_meta E) (re_codec E) rec (rr_recorded_at rec))) (\<lambda>_.
     seqE (on_tg_table table_flush) (\<lambda>_.
     on_tg_idx (\<lambda>ri. (Inr (), absorb (re_text E) ri rec))))"

definition unchanged_uid :: "type_registry \<Rightarrow> entity_input \<Rightarrow> string \<Rightarrow> uid option" where
  "unchanged_uid g input fp =
     (if map_of (tg_fingerprints g) (en_entity_id input) = Some fp
      then (case latest_uid (tg_idx g) (en_entity_id input) of
              None \<Rightarrow> None
            | Some u \<Rightarrow> if alive (tg_idx g) u then Some u else None)
      else None)"

definition set_fingerprint :: "string \<Rightarrow> string \<Rightarrow> unit rop" where
  "set_fingerprint eid fp = (\<lambda>(g, w). (Inr (), (g\<lparr>tg_fingerprints := AList.update eid fp (tg_fingerprints g)\<rparr>, w)))"

definition upsert :: "renv \<Rightarrow> key_ring \<Rightarrow> uid \<Rightarrow> u64 \<Rightarrow> (nat \<Rightarrow> rnd) \<Rightarrow> entity_input \<Rightarrow> uid rop" where
  "upsert E R u now rs input = (\<lambda>(g, w).
     case reg_validate (ri_schema (tg_idx g)) input of
       Inl e \<Rightarrow> (Inl e, (g, w))
     | Inr _ \<Rightarrow>
         let fp = fingerprint (re_crypto E) (re_text E) input
         in (case unchanged_uid g input fp of
               Some u0 \<Rightarrow> (Inr u0, (g, w))
             | None \<Rightarrow>
                 seqE (on_tg_idx (upsert_fields (re_crypto E) (re_text E) R u rs (en_fields input) 0
                        (sc_fields (ri_schema (tg_idx g))) [] [])) (\<lambda>(flds, toks) (g1, w1).
                   seqE (reg_store_record E
                     \<lparr>rr_uid = u, rr_entity_id = en_entity_id input,
                      rr_entity_type = sc_type_name (ri_schema (tg_idx g)),
                      rr_version = word_of_nat (length (versions_of (tg_idx g1) (en_entity_id input))),
                      rr_recorded_at = now, rr_deleted = False, rr_fields = flds, rr_tokens = toks\<rparr>) (\<lambda>_.
                   seqE (set_fingerprint (en_entity_id input) fp) (\<lambda>_. retE u)) (g1, w1)) (g, w)))"

definition reg_delete :: "renv \<Rightarrow> uid \<Rightarrow> u64 \<Rightarrow> string \<Rightarrow> uid rop" where
  "reg_delete E u now eid = (\<lambda>(g, w).
     case latest (tg_idx g) eid of
       None \<Rightarrow> (Inl (NotFound eid), (g, w))
     | Some l \<Rightarrow>
         seqE (reg_store_record E (l\<lparr>rr_uid := u, rr_version := rr_version l + 1, rr_recorded_at := now, rr_deleted := True\<rparr>)) (\<lambda>_.
         seqE (\<lambda>(g, w). (Inr (), (g\<lparr>tg_fingerprints := AList.delete eid (tg_fingerprints g)\<rparr>, w))) (\<lambda>_. retE u)) (g, w))"

section \<open>The remaining operations\<close>

definition reg_search :: "renv \<Rightarrow> key_ring \<Rightarrow> string \<Rightarrow> fval \<Rightarrow> bool \<Rightarrow> match_mode \<Rightarrow> string list rop" where
  "reg_search E R field probe include_past mode =
     on_tg_idx (idx_search (re_crypto E) (re_text E) R field probe include_past mode)"

definition reg_sync :: "unit rop" where
  "reg_sync = on_tg_table table_sync"

definition reg_verify :: "renv \<Rightarrow> unit rop" where
  "reg_verify E = on_tg_table (table_verify (re_ext E))"

definition reg_contains_chain_value :: "renv \<Rightarrow> chain_hash \<Rightarrow> bool rop" where
  "reg_contains_chain_value E target = on_tg_table (contains_chain_value (re_ext E) target)"

end
