(* ===== verification/Registry_Laws.thy ===== *)
theory Registry_Laws
  imports Registry
begin

text \<open>
  What the registry operations do, in terms of the list of records: \<open>reg_inv\<close> ties the table's
  rows and the index to one list, \<open>upsert\<close> and \<open>delete\<close> append exactly one record to it or leave
  it alone, and opening the directory again rebuilds an index of the same list.
\<close>

definition rows_encode :: "'r codec \<Rightarrow> 'r list \<Rightarrow> row list \<Rightarrow> bool" where
  "rows_encode C recs rows \<longleftrightarrow> list_all2 (\<lambda>r row. c_ser C r = Inr (snd row)) recs rows"

text \<open>Versions of an entity are numbered from zero, without gaps.\<close>

definition versions_ok :: "registry_record list \<Rightarrow> bool" where
  "versions_ok recs \<longleftrightarrow> (\<forall>xs r ys. recs = xs @ r # ys \<longrightarrow>
     rr_version r = word_of_nat (length (recs_of (rr_entity_id r) xs)))"

definition reg_inv :: "renv \<Rightarrow> registry_record list \<Rightarrow> type_registry \<Rightarrow> fs \<Rightarrow> bool" where
  "reg_inv E recs g w \<longleftrightarrow>
     (\<exists>vs v. tbl_inv (re_ext E) (re_meta E) vs v (tg_table g) w \<and> linked (re_ext E) (vs @ [v]) \<and>
        rows_encode (re_codec E) recs (view_rows (vs @ [v]))) \<and>
     idx_ok (re_text E) recs (tg_idx g) \<and> versions_ok recs"

lemma rows_encode_snoc:
  "rows_encode C (recs @ [r]) (rows @ [row]) \<longleftrightarrow> rows_encode C recs rows \<and> c_ser C r = Inr (snd row)"
  unfolding rows_encode_def by (subst list_all2_rev [symmetric]) (auto simp: list_all2_rev)

lemma versions_ok_snoc:
  "versions_ok (recs @ [r]) \<longleftrightarrow> versions_ok recs \<and> rr_version r = word_of_nat (length (recs_of (rr_entity_id r) recs))"
proof
  assume a: "versions_ok (recs @ [r])"
  then have "rr_version r = word_of_nat (length (recs_of (rr_entity_id r) recs))"
    unfolding versions_ok_def by (metis append.right_neutral append_Nil2)
  moreover have "versions_ok recs" unfolding versions_ok_def
  proof (intro allI impI)
    fix xs q ys assume "recs = xs @ q # ys"
    then have "recs @ [r] = xs @ q # (ys @ [r])" by simp
    then show "rr_version q = word_of_nat (length (recs_of (rr_entity_id q) xs))"
      using a unfolding versions_ok_def by blast
  qed
  ultimately show "versions_ok recs \<and> rr_version r = word_of_nat (length (recs_of (rr_entity_id r) recs))" by simp
next
  assume a: "versions_ok recs \<and> rr_version r = word_of_nat (length (recs_of (rr_entity_id r) recs))"
  show "versions_ok (recs @ [r])" unfolding versions_ok_def
  proof (intro allI impI)
    fix xs q ys assume e: "recs @ [r] = xs @ q # ys"
    show "rr_version q = word_of_nat (length (recs_of (rr_entity_id q) xs))"
    proof (cases ys rule: rev_cases)
      case Nil
      then show ?thesis using a e by simp
    next
      case (snoc zs z)
      then have "recs = xs @ q # zs" using e by simp
      then show ?thesis using a unfolding versions_ok_def by blast
    qed
  qed
qed

lemma reg_invD: "reg_inv E recs g w \<Longrightarrow> idx_ok (re_text E) recs (tg_idx g) \<and> versions_ok recs"
  by (simp add: reg_inv_def)

lemma reg_inv_idx: "reg_inv E recs g w \<Longrightarrow> idx_ok (re_text E) recs ri \<Longrightarrow> reg_inv E recs (g\<lparr>tg_idx := ri\<rparr>) w"
  by (simp add: reg_inv_def)

lemma reg_inv_fp: "reg_inv E recs (g\<lparr>tg_fingerprints := f\<rparr>) w = reg_inv E recs g w"
  by (simp add: reg_inv_def)

lemma latest_version_number:
  assumes "versions_ok recs" and "recs_of eid recs \<noteq> []"
  shows "rr_version (last (recs_of eid recs)) + 1 = word_of_nat (length (recs_of eid recs))"
  using assms
proof (induction recs rule: rev_induct)
  case Nil
  then show ?case by (simp add: recs_of_def)
next
  case (snoc r recs)
  then show ?case by (cases "rr_entity_id r = eid") (auto simp: recs_of_def versions_ok_snoc)
qed

section \<open>Storing a record\<close>

lemma on_tg_table_run:
  assumes "on_tg_table m (g, w) = (r, (g', w'))"
  obtains t' where "m (tg_table g, w) = (r, (t', w'))" "g' = g\<lparr>tg_table := t'\<rparr>"
  using assms by (cases "m (tg_table g, w)") (auto simp: on_tg_table_def)

lemma reg_store_record_cases:
  assumes inv: "reg_inv E recs g w" and fresh: "rr_uid rec \<notin> rr_uid ` set recs"
    and ver: "rr_version rec = word_of_nat (length (recs_of (rr_entity_id rec) recs))"
    and room: "t_active_seq (tg_table g) < u64_max_nat"
    and run: "reg_store_record E rec (g, w) = (r, (g', w'))"
  obtains (ok) "r = Inr ()" "reg_inv E (recs @ [rec]) g' w'" "tg_idx g' = absorb (re_text E) (tg_idx g) rec"
      "tg_fingerprints g' = tg_fingerprints g" "seg_buf (t_active (tg_table g')) = []"
  | (error) e where "r = Inl e" "reg_inv E recs g' w'" "tg_idx g' = tg_idx g" "tg_fingerprints g' = tg_fingerprints g"
      "\<forall>i. e \<noteq> Io i \<or> c_ser (re_codec E) rec = Inl e"
  | (fault) i where "r = Inl (Io i)" "\<not> quiet w" "tg_idx g' = tg_idx g" "tg_fingerprints g' = tg_fingerprints g"
proof -
  let ?X = "re_ext E" and ?M = "re_meta E" and ?C = "re_codec E"
  obtain vs v where tv: "tbl_inv ?X ?M vs v (tg_table g) w" "linked ?X (vs @ [v])"
    and enc: "rows_encode ?C recs (view_rows (vs @ [v]))" using inv unfolding reg_inv_def by blast
  have idx: "idx_ok (re_text E) recs (tg_idx g)" "versions_ok recs" using reg_invD [OF inv] by simp_all
  obtain r1 g1 w1 where a: "on_tg_table (table_append ?X ?M ?C rec (rr_recorded_at rec)) (g, w) = (r1, (g1, w1))"
    by (metis surj_pair)
  then obtain t1 where ta: "table_append ?X ?M ?C rec (rr_recorded_at rec) (tg_table g, w) = (r1, (t1, w1))"
    and g1: "g1 = g\<lparr>tg_table := t1\<rparr>" by (rule on_tg_table_run)
  have stop: "r1 = Inl e \<Longrightarrow> r = Inl e \<and> g' = g1 \<and> w' = w1" for e
    using run a by (simp add: reg_store_record_def seqE_def)
  from tv(1) room ta show ?thesis
  proof (cases rule: table_append_cases)
    case (ok p vs' v')
    have lk: "linked ?X (vs' @ [v'])" using view_append_linked [OF ok(4) tv(2)] .
    have rows: "view_rows (vs' @ [v']) = view_rows (vs @ [v]) @ [(rr_recorded_at rec, p)]"
      using view_append_rows [OF ok(4)] .
    obtain r2 g2 w2 where b: "on_tg_table table_flush (g1, w1) = (r2, (g2, w2))" by (metis surj_pair)
    then obtain t2 where fl: "table_flush (t1, w1) = (r2, (t2, w2))" and g2: "g2 = g1\<lparr>tg_table := t2\<rparr>"
      by (rule on_tg_table_run) (use g1 in simp)
    from ok(5) fl show ?thesis
    proof (cases rule: table_flush_cases)
      case ok2: ok
      have "r = Inr ()" "w' = w2" and g': "g' = g2\<lparr>tg_idx := absorb (re_text E) (tg_idx g) rec\<rparr>"
        using run a b ok(1) ok2(1) g1 g2 by (simp_all add: reg_store_record_def seqE_def on_tg_idx_def)
      moreover have "reg_inv E (recs @ [rec]) g' w2"
      proof -
        have "rows_encode ?C (recs @ [rec]) (view_rows (vs' @ [v']))"
          unfolding rows rows_encode_snoc using enc ok(2) by simp
        moreover have "tbl_inv ?X ?M vs' v' (tg_table g') w2" using ok2(2) g' g2 by simp
        moreover have "idx_ok (re_text E) (recs @ [rec]) (tg_idx g')" using absorb_ok [OF idx(1) fresh] g' by simp
        ultimately show ?thesis using lk idx(2) ver unfolding reg_inv_def versions_ok_snoc by blast
      qed
      ultimately show ?thesis using that(1) g' g1 g2 ok2(8) by simp
    next
      case (fault i)
      then have "r = Inl (Io i)" "g' = g2" using run a b ok(1) by (simp_all add: reg_store_record_def seqE_def)
      moreover have "\<not> quiet w" using fault(2) same_outside_quiet [OF ok(6)] by blast
      ultimately show ?thesis using that(3) g1 g2 by simp
    qed
  next
    case (codec e)
    then have "r = Inl e \<and> g' = g \<and> w' = w" using stop g1 by simp
    then show ?thesis using that(2) [of e] inv codec by simp
  next
    case (large p vs' v')
    have lk: "linked ?X (vs' @ [v'])" and rows: "view_rows (vs' @ [v']) = view_rows (vs @ [v])"
      using large(4) tv(2) by (auto simp: linked_snoc view_head_def split: if_splits)
    have res: "r = Inl (Encode (RecordTooLarge (length p))) \<and> g' = g1 \<and> w' = w1" using stop large(1) by simp
    have "tbl_inv ?X ?M vs' v' (tg_table g1) w1" using large(5) g1 by simp
    moreover have "rows_encode ?C recs (view_rows (vs' @ [v']))" using enc rows by simp
    moreover have "idx_ok (re_text E) recs (tg_idx g1)" using idx(1) g1 by simp
    ultimately have "reg_inv E recs g1 w1" using lk idx(2) unfolding reg_inv_def by blast
    then show ?thesis using that(2) [of "Encode (RecordTooLarge (length p))"] res g1 by simp
  next
    case (fault i)
    then have "r = Inl (Io i) \<and> g' = g1 \<and> w' = w1" using stop by simp
    then show ?thesis using that(3) [of i] fault(2) g1 by simp
  qed
qed

section \<open>Upsert\<close>

lemma upsert_fields_keeps:
  "upsert_fields K N R u rs vals i defs flds toks ri = (r, ri') \<Longrightarrow> \<exists>h. ri' = ri\<lparr>ri_held := h\<rparr>"
proof (induction defs arbitrary: i flds toks ri)
  case Nil
  then have "ri' = ri" by (auto simp: retE_def)
  then show ?case by (metis registry_index.surjective registry_index.update_convs(6))
next
  case (Cons def defs)
  show ?case
  proof (cases "map_of vals (fd_name def)")
    case None
    then show ?thesis using Cons by simp
  next
    case (Some v)
    show ?thesis
    proof (cases "protect K N R (rs i) v (fd_protection def)")
      case (Inl e)
      then have "ri' = ri" using Cons.prems Some by (simp add: seqE_def)
      then show ?thesis by (metis registry_index.surjective registry_index.update_convs(6))
    next
      case p: (Inr st)
      show ?thesis
      proof (cases "field_tokens_of K N R def v")
        case (Inl e)
        then have "ri' = ri" using Cons.prems Some p by (simp add: seqE_def)
        then show ?thesis by (metis registry_index.surjective registry_index.update_convs(6))
      next
        case (Inr ft)
        let ?ri1 = "if ri_cache_plaintexts ri \<and> fd_protection def \<noteq> PNone
               then ri\<lparr>ri_held := AList.update (u, fd_name def) (canonical_bytes N v) (ri_held ri)\<rparr> else ri"
        obtain flds1 toks1 where run1: "upsert_fields K N R u rs vals (Suc i) defs flds1 toks1 ?ri1 = (r, ri')"
          using Cons.prems Some p Inr by (simp add: seqE_def)
        obtain h1 where h1: "?ri1 = ri\<lparr>ri_held := h1\<rparr>"
        proof (cases "ri_cache_plaintexts ri \<and> fd_protection def \<noteq> PNone")
          case True
          then show ?thesis using that by simp
        next
          case False
          then have "?ri1 = ri\<lparr>ri_held := ri_held ri\<rparr>" by (subst if_not_P) simp_all
          then show ?thesis by (rule that)
        qed
        obtain h2 where "ri' = ?ri1\<lparr>ri_held := h2\<rparr>" using Cons.IH [OF run1] by blast
        then have "ri' = ri\<lparr>ri_held := h2\<rparr>" unfolding h1 by simp
        then show ?thesis by blast
      qed
    qed
  qed
qed

text \<open>The stored fields: each schema field that has a value, protected as the schema says, and its tokens.\<close>

definition stored_as ::
  "cryptoext \<Rightarrow> textext \<Rightarrow> key_ring \<Rightarrow> (nat \<Rightarrow> rnd) \<Rightarrow> (string \<times> stored_value) list \<Rightarrow> (string \<times> field_tokens) list
     \<Rightarrow> field_def \<Rightarrow> fval \<Rightarrow> bool" where
  "stored_as K N R rs flds toks def v \<longleftrightarrow>
     (\<exists>i st. protect K N R (rs i) v (fd_protection def) = Inr st \<and> map_of flds (fd_name def) = Some st) \<and>
     (\<exists>ft. field_tokens_of K N R def v = Inr ft \<and> (ft \<noteq> None \<longrightarrow> map_of toks (fd_name def) = ft))"

lemma upsert_fields_values:
  assumes "upsert_fields K N R u rs vals i defs flds toks ri = (Inr (flds', toks'), ri')"
    and "distinct (map fd_name defs)" and "bt_wf flds" and "bt_wf toks"
  shows "bt_wf flds' \<and> bt_wf toks' \<and>
    (\<forall>f. f \<notin> fd_name ` set defs \<longrightarrow> map_of flds' f = map_of flds f \<and> map_of toks' f = map_of toks f) \<and>
    (\<forall>d \<in> set defs. case map_of vals (fd_name d) of
        None \<Rightarrow> map_of flds' (fd_name d) = map_of flds (fd_name d)
      | Some v \<Rightarrow> stored_as K N R rs flds' toks' d v)"
  using assms
proof (induction defs arbitrary: i flds toks ri)
  case Nil
  then show ?case by (simp add: retE_def)
next
  case (Cons def defs)
  show ?case
  proof (cases "map_of vals (fd_name def)")
    case None
    then show ?thesis using Cons by simp
  next
    case (Some v)
    obtain st where p: "protect K N R (rs i) v (fd_protection def) = Inr st"
      using Cons.prems(1) Some by (cases "protect K N R (rs i) v (fd_protection def)") (simp_all add: seqE_def)
    obtain ft where t: "field_tokens_of K N R def v = Inr ft"
      using Cons.prems(1) Some p by (cases "field_tokens_of K N R def v") (simp_all add: seqE_def)
    let ?flds = "bt_insert (fd_name def) st flds"
    let ?toks = "case ft of None \<Rightarrow> toks | Some t \<Rightarrow> bt_insert (fd_name def) t toks"
    obtain ri1 where r: "upsert_fields K N R u rs vals (Suc i) defs ?flds ?toks ri1 = (Inr (flds', toks'), ri')"
      using Cons.prems(1) Some p t by (simp add: seqE_def)
    have wf: "bt_wf ?flds" "bt_wf ?toks"
      using Cons.prems(3,4) by (auto simp: bt_wf_insert split: option.splits)
    note IH = Cons.IH [OF r _ wf]
    have new: "fd_name def \<notin> fd_name ` set defs" and d: "distinct (map fd_name defs)" using Cons.prems(2) by auto
    have tk: "ft \<noteq> None \<longrightarrow> map_of ?toks (fd_name def) = ft" by (cases ft) simp_all
    have "stored_as K N R rs flds' toks' def v"
      using IH [OF d] new p t tk unfolding stored_as_def by (cases ft) auto
    moreover have "f \<noteq> fd_name def \<Longrightarrow> map_of ?toks f = map_of toks f" for f by (cases ft) simp_all
    moreover have "\<forall>d \<in> set defs. fd_name d \<noteq> fd_name def" using new by (metis image_eqI)
    ultimately show ?thesis using IH [OF d] Some by (auto split: option.splits)
  qed
qed

text \<open>
  What the record written by an upsert holds, and the only other way to succeed: the latest
  version is alive and its remembered fingerprint is that of the input.
\<close>

definition upserted :: "renv \<Rightarrow> key_ring \<Rightarrow> type_schema \<Rightarrow> entity_input \<Rightarrow> registry_record list \<Rightarrow> uid \<Rightarrow> u64 \<Rightarrow> (nat \<Rightarrow> rnd)
     \<Rightarrow> registry_record \<Rightarrow> bool" where
  "upserted E R sc input recs u now rs rec \<longleftrightarrow>
     rr_uid rec = u \<and> rr_entity_id rec = en_entity_id input \<and> rr_entity_type rec = sc_type_name sc \<and>
     rr_version rec = word_of_nat (length (recs_of (en_entity_id input) recs)) \<and> rr_recorded_at rec = now \<and>
     \<not> rr_deleted rec \<and> bt_wf (rr_fields rec) \<and> bt_wf (rr_tokens rec) \<and>
     (distinct (map fd_name (sc_fields sc)) \<longrightarrow>
        (\<forall>d \<in> set (sc_fields sc). case map_of (en_fields input) (fd_name d) of
           None \<Rightarrow> map_of (rr_fields rec) (fd_name d) = None
         | Some v \<Rightarrow> stored_as (re_crypto E) (re_text E) R rs (rr_fields rec) (rr_tokens rec) d v))"

lemma upsert_cases:
  assumes inv: "reg_inv E recs g w" and fresh: "u \<notin> rr_uid ` set recs"
    and names: "distinct (map fd_name (sc_fields (ri_schema (tg_idx g))))"
    and room: "t_active_seq (tg_table g) < u64_max_nat"
    and run: "upsert E R u now rs input (g, w) = (r, (g', w'))"
  obtains (invalid) e where "reg_validate (ri_schema (tg_idx g)) input = Inl e" "r = Inl e" "g' = g" "w' = w"
  | (unchanged) u0 where "r = Inr u0" "g' = g" "w' = w" "reg_validate (ri_schema (tg_idx g)) input = Inr ()"
      "map_of (tg_fingerprints g) (en_entity_id input) = Some (fingerprint (re_crypto E) (re_text E) input)"
      "\<exists>l. latest (tg_idx g) (en_entity_id input) = Some l \<and> rr_uid l = u0 \<and> \<not> rr_deleted l"
  | (written) rec h where "r = Inr u" "reg_validate (ri_schema (tg_idx g)) input = Inr ()"
      "upserted E R (ri_schema (tg_idx g)) input recs u now rs rec"
      "reg_inv E (recs @ [rec]) g' w'" "tg_idx g' = absorb (re_text E) ((tg_idx g)\<lparr>ri_held := h\<rparr>) rec"
      "tg_fingerprints g' = AList.update (en_entity_id input) (fingerprint (re_crypto E) (re_text E) input) (tg_fingerprints g)"
      "seg_buf (t_active (tg_table g')) = []"
  | (error) e h where "r = Inl e" "reg_validate (ri_schema (tg_idx g)) input = Inr ()"
      "reg_inv E recs g' w'" "tg_idx g' = (tg_idx g)\<lparr>ri_held := h\<rparr>" "tg_fingerprints g' = tg_fingerprints g"
  | (fault) i where "r = Inl (Io i)" "\<not> quiet w" "tg_fingerprints g' = tg_fingerprints g"
proof -
  let ?sc = "ri_schema (tg_idx g)" and ?K = "re_crypto E" and ?N = "re_text E"
  let ?fp = "fingerprint ?K ?N input" and ?eid = "en_entity_id input"
  have idx: "idx_ok ?N recs (tg_idx g)" using reg_invD [OF inv] by simp
  show ?thesis
  proof (cases "reg_validate ?sc input")
    case (Inl e)
    then have "upsert E R u now rs input (g, w) = (Inl e, (g, w))" by (simp only: upsert_def prod.case sum.case)
    then have "r = Inl e" "g' = g" "w' = w" using run by simp_all
    then show ?thesis using invalid [OF Inl] by blast
  next
    case val: (Inr un)
    show ?thesis
    proof (cases "unchanged_uid g input ?fp")
      case (Some u0)
      then have m: "map_of (tg_fingerprints g) ?eid = Some ?fp" and l: "latest_uid (tg_idx g) ?eid = Some u0"
        and al: "alive (tg_idx g) u0"
        by (auto simp: unchanged_uid_def split: if_splits option.splits)
      obtain q where q: "reg_version (tg_idx g) u0 = Some q" "\<not> rr_deleted q"
        using al by (auto simp: alive_def split: option.splits)
      have "rr_uid q = u0" using reg_version_in [OF idx q(1)] by simp
      then have "\<exists>l. latest (tg_idx g) ?eid = Some l \<and> rr_uid l = u0 \<and> \<not> rr_deleted l"
        using l q by (simp add: latest_def)
      moreover have "r = Inr u0" "g' = g" "w' = w" using run val Some by (simp_all add: upsert_def)
      ultimately show ?thesis using unchanged val m by simp
    next
      case None
      obtain r1 ri1 where uf: "upsert_fields ?K ?N R u rs (en_fields input) 0 (sc_fields ?sc) [] [] (tg_idx g) = (r1, ri1)"
        by (metis surj_pair)
      obtain h where h: "ri1 = (tg_idx g)\<lparr>ri_held := h\<rparr>" using upsert_fields_keeps [OF uf] by blast
      let ?g1 = "g\<lparr>tg_idx := ri1\<rparr>"
      have on: "on_tg_idx (upsert_fields ?K ?N R u rs (en_fields input) 0 (sc_fields ?sc) [] []) (g, w) = (r1, (?g1, w))"
        by (simp add: on_tg_idx_def uf)
      have inv1: "reg_inv E recs ?g1 w" using reg_inv_idx [OF inv idx_ok_held [OF idx]] h by simp
      show ?thesis
      proof (cases r1)
        case (Inl e)
        then have "r = Inl e \<and> g' = ?g1 \<and> w' = w" using run val None on by (simp add: upsert_def Let_def seqE_def)
        then show ?thesis using error [of e h] val inv1 h by simp
      next
        case (Inr ft)
        obtain flds toks where ft: "ft = (flds, toks)" by (cases ft)
        define rec where "rec = \<lparr>rr_uid = u, rr_entity_id = ?eid, rr_entity_type = sc_type_name ?sc,
          rr_version = word_of_nat (length (versions_of ri1 ?eid)),
          rr_recorded_at = now, rr_deleted = False, rr_fields = flds, rr_tokens = toks\<rparr>"
        obtain r2 g2 w2 where st: "reg_store_record E rec (?g1, w) = (r2, (g2, w2))" by (metis surj_pair)
        have run2: "(r, (g', w')) = (case (r2, (g2, w2)) of
            (Inl e, s') \<Rightarrow> (Inl e, s')
          | (Inr a, s') \<Rightarrow> (Inr u, ((fst s')\<lparr>tg_fingerprints := AList.update ?eid ?fp (tg_fingerprints (fst s'))\<rparr>, snd s')))"
          using run val None on Inr ft st rec_def
          by (cases r2) (simp_all add: upsert_def Let_def seqE_def set_fingerprint_def)
        have ver: "rr_version rec = word_of_nat (length (recs_of (rr_entity_id rec) recs))"
          using idx_okD(2) [OF idx, of ?eid] by (simp add: rec_def h versions_of_def)
        have "u \<notin> rr_uid ` set recs \<Longrightarrow> rr_uid rec \<notin> rr_uid ` set recs" by (simp add: rec_def)
        note fr = this [OF fresh]
        have room1: "t_active_seq (tg_table ?g1) < u64_max_nat" using room by simp
        have up: "upserted E R ?sc input recs u now rs rec"
          using upsert_fields_values [OF uf [unfolded Inr ft] names] ver
          by (auto simp: upserted_def rec_def split: option.splits)
        from inv1 fr ver room1 st show ?thesis
        proof (cases rule: reg_store_record_cases)
          case ok
          then have "r = Inr u" "w' = w2" "g' = g2\<lparr>tg_fingerprints := AList.update ?eid ?fp (tg_fingerprints g2)\<rparr>"
            using run2 by simp_all
          then show ?thesis using written [of rec h] val up ok h by (simp add: reg_inv_fp)
        next
          case (error e)
          then have "r = Inl e" "g' = g2" "w' = w2" using run2 by simp_all
          then show ?thesis using that(4) [of e h] val error h by simp
        next
          case (fault i)
          then have "r = Inl (Io i)" "g' = g2" using run2 by simp_all
          then show ?thesis using that(5) [of i] fault by simp
        qed
      qed
    qed
  qed
qed

section \<open>Delete\<close>

lemma delete_cases:
  assumes inv: "reg_inv E recs g w" and fresh: "u \<notin> rr_uid ` set recs"
    and room: "t_active_seq (tg_table g) < u64_max_nat"
    and run: "reg_delete E u now eid (g, w) = (r, (g', w'))"
  obtains (absent) "recs_of eid recs = []" "r = Inl (NotFound eid)" "g' = g" "w' = w"
  | (deleted) rec where "recs_of eid recs \<noteq> []" "r = Inr u"
      "rec = (last (recs_of eid recs))\<lparr>rr_uid := u, rr_version := word_of_nat (length (recs_of eid recs)),
         rr_recorded_at := now, rr_deleted := True\<rparr>"
      "reg_inv E (recs @ [rec]) g' w'" "map_of (tg_fingerprints g') eid = None"
      "ri_schema (tg_idx g') = ri_schema (tg_idx g)"
  | (error) e where "r = Inl e" "recs_of eid recs \<noteq> []" "reg_inv E recs g' w'" "tg_idx g' = tg_idx g"
  | (fault) i where "r = Inl (Io i)" "\<not> quiet w"
proof -
  have idx: "idx_ok (re_text E) recs (tg_idx g)" "versions_ok recs" using reg_invD [OF inv] by simp_all
  show ?thesis
  proof (cases "recs_of eid recs = []")
    case True
    then show ?thesis using run absent by (simp add: reg_delete_def latest_rec [OF idx(1)])
  next
    case False
    let ?l = "last (recs_of eid recs)"
    define rec where "rec = ?l\<lparr>rr_uid := u, rr_version := rr_version ?l + 1, rr_recorded_at := now, rr_deleted := True\<rparr>"
    have e: "rr_entity_id ?l = eid" using last_in_set [OF False] by (simp add: recs_of_def)
    have ver: "rr_version rec = word_of_nat (length (recs_of (rr_entity_id rec) recs))"
      using latest_version_number [OF idx(2) False] e by (simp add: rec_def)
    have rec: "rec = ?l\<lparr>rr_uid := u, rr_version := word_of_nat (length (recs_of eid recs)),
         rr_recorded_at := now, rr_deleted := True\<rparr>"
      using latest_version_number [OF idx(2) False] by (simp add: rec_def)
    have fr: "rr_uid rec \<notin> rr_uid ` set recs" using fresh by (simp add: rec_def)
    obtain r2 g2 w2 where st: "reg_store_record E rec (g, w) = (r2, (g2, w2))" by (metis surj_pair)
    have run2: "(r, (g', w')) = (case (r2, (g2, w2)) of
        (Inl e, s') \<Rightarrow> (Inl e, s')
      | (Inr a, s') \<Rightarrow> (Inr u, ((fst s')\<lparr>tg_fingerprints := AList.delete eid (tg_fingerprints (fst s'))\<rparr>, snd s')))"
      using run False st rec_def by (cases r2) (simp_all add: reg_delete_def latest_rec [OF idx(1)] seqE_def)
    from inv fr ver room st show ?thesis
    proof (cases rule: reg_store_record_cases)
      case ok
      then have "r = Inr u" "w' = w2" "g' = g2\<lparr>tg_fingerprints := AList.delete eid (tg_fingerprints g2)\<rparr>"
        using run2 by simp_all
      then show ?thesis using deleted [OF False _ rec] ok by (simp add: reg_inv_fp delete_conv')
    next
      case (error e)
      then show ?thesis using that(3) [of e] False run2 by simp
    next
      case (fault i)
      then show ?thesis using that(4) [of i] run2 by simp
    qed
  qed
qed

end
