(* ===== verification/Registry_Search.thy ===== *)
theory Registry_Search
  imports Registry_Laws
begin

text \<open>
  Writing and searching agree: a value stored by an upsert is found by the searches that the
  schema supports, also with a key ring that has been rotated since, and opening the registry
  again gives an index of the same records.
\<close>

lemma collect_res_all:
  assumes "\<forall>x \<in> set xs. \<exists>y. f x = Inr y"
  shows "\<exists>ys. collect_res (map f xs) = Inr ys \<and> list_all2 (\<lambda>x y. f x = Inr y) xs ys"
  using assms by (induction xs) auto

lemma hmac_versions_held: "v \<in> set (hmac_versions R) \<Longrightarrow> \<exists>key. map_of (kr_macs R) v = Some key"
  by (auto simp: hmac_versions_def dest: weak_map_of_SomeI)

lemma list_all2_image: "list_all2 (\<lambda>x y. f x = Inr y) xs ys \<Longrightarrow> x \<in> set xs \<Longrightarrow> \<exists>y \<in> set ys. f x = Inr y"
  by (induction rule: list_all2_induct) auto

lemma list_all2_preimage: "list_all2 (\<lambda>x y. f x = Inr y) xs ys \<Longrightarrow> y \<in> set ys \<Longrightarrow> \<exists>x \<in> set xs. f x = Inr y"
  by (induction rule: list_all2_induct) auto

section \<open>Exact search\<close>

lemma exact_probe_key:
  assumes p: "protect K N R r v (fd_protection def) = Inr st" and nr: "fd_protection def \<noteq> PRsa"
    and ext: "ring_extends R R'"
  shows "\<exists>keys k. exact_probe_keys K N R' def v = Inr keys \<and> index_key N st = Some k \<and> k \<in> set keys"
proof (cases "fd_protection def")
  case PHmac
  then obtain ver d where h: "hmac_hex K R (canonical_bytes N v) = Inr (ver, d)" and st: "st = Hmac ver d"
    using p by (auto simp: rbind_Inr_iff)
  let ?f = "\<lambda>ver. rbind (hmac_hex_with K R' ver (canonical_bytes N v)) (\<lambda>d. Inr (as_bytes d))"
  note probe = hmac_probe_finds [OF h ext]
  have "\<exists>y. ?f u = Inr y" if "u \<in> set (hmac_versions R')" for u
    using hmac_versions_held [OF that] by (auto simp: hmac_hex_with_def mac_of_def)
  then obtain ys where ys: "collect_res (map ?f (hmac_versions R')) = Inr ys"
    "list_all2 (\<lambda>x y. ?f x = Inr y) (hmac_versions R') ys" using collect_res_all [of _ ?f] by blast
  obtain y where "y \<in> set ys" "?f ver = Inr y" using list_all2_image [OF ys(2)] probe by blast
  then have "as_bytes d \<in> set ys" using probe by simp
  moreover have "hmac_versions R' \<noteq> []" using probe by auto
  ultimately show ?thesis using PHmac st ys(1) by (simp add: exact_probe_keys_def Let_def)
qed (use p nr in \<open>auto simp: exact_probe_keys_def Let_def\<close>)

lemma exact_search_finds_entity:
  assumes ok: "idx_ok N recs ri" and r: "rec \<in> set recs" and def: "schema_field (ri_schema ri) f = Some def"
    and ind: "fd_indexed def" and nr: "fd_protection def \<noteq> PRsa"
    and st: "stored_as K N R rs (rr_fields rec) toks def v" and ext: "ring_extends R R'"
  shows "\<exists>out. idx_search K N R' f v True Exact ri = (Inr out, ri) \<and> sorted out \<and> distinct out \<and>
    rr_entity_id rec \<in> set out \<and>
    (fd_protection def = PNone \<longrightarrow> (\<forall>e \<in> set out. \<exists>q \<in> set recs. rr_entity_id q = e \<and>
       (\<exists>x. (f, x) \<in> set (rr_fields q) \<and> index_key N x = Some (canonical_bytes N v))))"
proof -
  obtain i x where p: "protect K N R (rs i) v (fd_protection def) = Inr x" and m: "map_of (rr_fields rec) (fd_name def) = Some x"
    using st unfolding stored_as_def by blast
  have fn: "fd_name def = f" using schema_field_name [OF def] by simp
  obtain keys k where k: "exact_probe_keys K N R' def v = Inr keys" "index_key N x = Some k" "k \<in> set keys"
    using exact_probe_key [OF p nr ext] by blast
  obtain out where out: "search_exact K N R' ri def f v True = Inr out" "sorted out" "distinct out"
    "set out = rr_entity_id ` {r \<in> set recs. \<exists>k \<in> set keys. has_key N (ri_schema ri) f k r}"
    using search_exact_past [OF ok ind k(1)] by blast
  have "has_key N (ri_schema ri) f k rec"
    using k(2) map_of_SomeD [OF m] fn ind def by (auto simp: has_key_def schema_indexed_def)
  then have "rr_entity_id rec \<in> set out" using r k(3) out(4) by blast
  moreover have "fd_protection def = PNone \<Longrightarrow> keys = [canonical_bytes N v]"
    using k(1) by (simp add: exact_probe_keys_def Let_def)
  ultimately show ?thesis using out def by (auto simp: idx_search_def has_key_def)
qed

section \<open>Token search\<close>

lemma token_digest_rotation:
  assumes "index_token_digest K R f p t = Inr (ver, d)" and "ring_extends R R'"
  shows "index_token_digest_with K R' ver f p t = Inr d \<and>
    (if p \<in> {PNone, PSha256} then ver = KEYLESS
     else active_hmac_version R = Some ver \<and> ver \<in> set (hmac_versions R'))"
proof (cases "p \<in> {PNone, PSha256}")
  case True
  then show ?thesis using assms by (auto simp: index_token_digest_def index_token_digest_with_def Let_def)
next
  case False
  then have a: "active_hmac_version R = Some ver" and w: "hmac_hex_with K R ver (token_data f t) = Inr d"
    using assms(1) by (auto simp: index_token_digest_def index_token_digest_with_def Let_def rbind_Inr_iff ok_or_def
        split: option.splits)
  have "hmac_hex K R (token_data f t) = Inr (ver, d)" using a w by (simp add: hmac_hex_def)
  then show ?thesis using hmac_probe_finds [OF _ assms(2)] a False
    by (auto simp: index_token_digest_with_def Let_def)
qed

lemma digest_tokens_all:
  "digest_tokens K R def ts kv ds = Inr t \<Longrightarrow> set ds \<subseteq> set (ft_digests t) \<and>
     (\<forall>tok \<in> set ts. \<exists>ver d. index_token_digest K R (fd_name def) (fd_protection def) tok = Inr (ver, d) \<and>
        d \<in> set (ft_digests t))"
proof (induction ts arbitrary: kv ds)
  case (Cons a ts)
  then obtain ver d where a: "index_token_digest K R (fd_name def) (fd_protection def) a = Inr (ver, d)"
    "digest_tokens K R def ts ver (ds @ [d]) = Inr t" by (auto simp: rbind_Inr_iff)
  then show ?case using Cons.IH [OF a(2)] by auto
qed auto

text \<open>A probe whose tokens are among the tokens of a stored value is covered by the stored digests.\<close>

lemma token_match_finds:
  assumes ok: "idx_ok N recs ri" and r: "rec \<in> set recs"
    and tk: "field_tokens_of K N R def (Text s) = Inr (Some t)" and m: "map_of (rr_tokens rec) (fd_name def) = Some t"
    and sub: "set toks \<subseteq> set (value_tokens N s (fd_search def))" and ne: "toks \<noteq> []" and ext: "ring_extends R R'"
  shows "\<exists>out. token_match K R' ri def toks True = Inr out \<and> sorted out \<and> distinct out \<and> rr_entity_id rec \<in> set out"
proof -
  let ?p = "fd_protection def" and ?f = "fd_name def"
  have dt: "digest_tokens K R def (value_tokens N s (fd_search def)) KEYLESS [] = Inr t"
    using tk by (auto simp: field_tokens_of_def rbind_Inr_iff split: if_splits)
  have each: "\<exists>ver d. index_token_digest K R ?f ?p tok = Inr (ver, d) \<and> d \<in> set (ft_digests t)" if "tok \<in> set toks" for tok
    using digest_tokens_all [OF dt] sub that by blast
  obtain t0 where t0: "t0 \<in> set toks" using ne by (cases toks) auto
  obtain ver d0 where v0: "index_token_digest K R ?f ?p t0 = Inr (ver, d0)" using each [OF t0] by blast
  note rot0 = token_digest_rotation [OF v0 ext]
  have same: "\<exists>d \<in> set (ft_digests t). index_token_digest_with K R' ver ?f ?p tok = Inr d" if tok: "tok \<in> set toks" for tok
  proof -
    obtain v d where v: "index_token_digest K R ?f ?p tok = Inr (v, d)" "d \<in> set (ft_digests t)" using each [OF tok] by blast
    then have "v = ver" using token_digest_rotation [OF v(1) ext] rot0 by (auto split: if_splits)
    then show ?thesis using token_digest_rotation [OF v(1) ext] v(2) by blast
  qed
  let ?F = "\<lambda>v. collect_res (map (index_token_digest_with K R' v ?f ?p) toks)"
  obtain ds where ds: "?F ver = Inr ds" "list_all2 (\<lambda>x y. index_token_digest_with K R' ver ?f ?p x = Inr y) toks ds"
    using collect_res_all [of toks "index_token_digest_with K R' ver ?f ?p"] same by blast
  have dsub: "set ds \<subseteq> set (ft_digests t)"
  proof
    fix d assume "d \<in> set ds"
    then obtain x where "x \<in> set toks" "index_token_digest_with K R' ver ?f ?p x = Inr d"
      using list_all2_preimage [OF ds(2)] by blast
    then show "d \<in> set (ft_digests t)" using same by force
  qed
  have dne: "ds \<noteq> []" using ds(2) ne by auto
  have sets: "\<exists>sets. probe_digest_sets K R' def toks = Inr sets \<and> ds \<in> set sets"
  proof (cases "?p \<in> {PNone, PSha256}")
    case True
    then show ?thesis using rot0 ds(1) by (auto simp: probe_digest_sets_def)
  next
    case False
    then have vin: "ver \<in> set (hmac_versions R')" using rot0 by auto
    have "\<exists>y. index_token_digest_with K R' v ?f ?p tok = Inr y" if "v \<in> set (hmac_versions R')" for v tok
      using hmac_versions_held [OF that] False
      by (auto simp: index_token_digest_with_def Let_def hmac_hex_with_def mac_of_def)
    then have "\<forall>v \<in> set (hmac_versions R'). \<exists>y. ?F v = Inr y"
      using collect_res_all by (metis (no_types))
    then obtain ys where ys: "collect_res (map ?F (hmac_versions R')) = Inr ys"
      "list_all2 (\<lambda>x y. ?F x = Inr y) (hmac_versions R') ys" using collect_res_all [of _ ?F] by blast
    obtain y where "y \<in> set ys" "?F ver = Inr y" using list_all2_image [OF ys(2) vin] by blast
    then have "ds \<in> set ys" using ds(1) by simp
    moreover have "hmac_versions R' \<noteq> []" using vin by auto
    ultimately show ?thesis using False ys(1) by (auto simp: probe_digest_sets_def)
  qed
  then obtain sets where s: "probe_digest_sets K R' def toks = Inr sets" "ds \<in> set sets" by blast
  have "covers ?f ds rec" using m dsub by (simp add: covers_def)
  then have "hit True (covers ?f ds) recs (rr_entity_id rec)" using r by (auto simp: hit_def)
  then have "rr_entity_id rec \<in> set (token_candidates ri ?f ds True)"
    using token_candidates_rec [OF ok dne, of ?f True] by blast
  then have "rr_entity_id rec \<in> set (concat (map (\<lambda>ds. token_candidates ri ?f ds True) sets))" using s(2) by auto
  then show ?thesis using s(1) sort_dedup_spec by (simp add: token_match_def)
qed

lemma ngram_search_finds_entity:
  assumes ok: "idx_ok N recs ri" and r: "rec \<in> set recs" and def: "schema_field (ri_schema ri) f = Some def"
    and idx: "fd_search def = INgram n" "0 < n" and p: "fd_protection def \<in> {PSha256, PHmac}"
    and st: "stored_as K N R rs (rr_fields rec) (rr_tokens rec) def (Text s)" and ext: "ring_extends R R'"
    and sub: "chars (normalize_str N s) = xs @ chars (normalize_str N (probe_text N probe)) @ zs"
    and len: "n \<le> length (chars (normalize_str N (probe_text N probe)))"
  shows "\<exists>out. idx_search K N R' f probe True Contains ri = (Inr out, ri) \<and> sorted out \<and> distinct out \<and>
    rr_entity_id rec \<in> set out"
proof -
  obtain toks where toks: "ngram_probe_tokens N (probe_text N probe) n = Some toks"
    using len by (auto simp: ngram_probe_tokens_def Let_def)
  have cover: "set toks \<subseteq> set (value_tokens N s (fd_search def))"
    using ngram_tokens_cover [OF sub toks] idx(1) by simp
  have ne: "toks \<noteq> []"
  proof -
    have "windows n (chars (normalize_str N (probe_text N probe))) \<noteq> []" using len by (simp add: windows_def)
    then have "set toks \<noteq> {}" using toks using set_bset [of "map concat (windows n (chars (normalize_str N (probe_text N probe))))"] len
      by (auto simp: ngram_probe_tokens_def Let_def simp del: set_bset)
    then show ?thesis by auto
  qed
  obtain ft where ft: "field_tokens_of K N R def (Text s) = Inr ft" "ft \<noteq> None \<longrightarrow> map_of (rr_tokens rec) (fd_name def) = ft"
    using st unfolding stored_as_def by blast
  then obtain t where t: "ft = Some t" using idx(1) by (auto simp: field_tokens_of_def rbind_Inr_iff)
  then have tk: "field_tokens_of K N R def (Text s) = Inr (Some t)" "map_of (rr_tokens rec) (fd_name def) = Some t"
    using ft by simp_all
  obtain out where "token_match K R' ri def toks True = Inr out" "sorted out" "distinct out" "rr_entity_id rec \<in> set out"
    using token_match_finds [OF ok r tk cover ne ext] by blast
  then show ?thesis using def idx toks p by (auto simp: idx_search_def search_contains_def Let_def)
qed

section \<open>Reopening\<close>

lemma rows_decode:
  assumes "codec_ok C" and "rows_encode C recs rows"
  shows "map (\<lambda>row. c_de C (snd row)) rows = map Inr recs"
  using assms(2) unfolding rows_encode_def
  by (induction rule: list_all2_induct) (use assms(1) in \<open>auto simp: codec_ok_def\<close>)

lemma table_scan_all_flushed:
  assumes inv: "tbl_inv X M vs v t w" and q: "quiet w"
    and run: "table_scan_all X C (t, w) = (r, (t', w'))"
  shows "seg_buf (t_active t') = []"
proof -
  obtain r1 t1 w1 where fl: "table_flush (t, w) = (r1, (t1, w1))" by (metis surj_pair)
  from inv fl show ?thesis
  proof (cases rule: table_flush_cases)
    case ok
    have "t' = t1" using run fl ok(1) by (auto simp: table_scan_all_def table_slices_def seqE_def)
    then show ?thesis using ok(8) by simp
  qed (use q in simp)
qed

lemma reg_open_reopen:
  assumes inv: "reg_inv E recs g w" and q: "quiet w" "fs_wf w" and room: "t_active_seq (tg_table g) \<le> u64_max_nat"
    and fl: "seg_buf (t_active (tg_table g)) = []" and C: "codec_ok (re_codec E)"
    and chk: "check_fields sc (sc_fields sc) = Inr ()"
    and run: "reg_open E (t_dir (tg_table g)) sc b cache w = (r, w')" and fit: "files_fit w'"
  shows "\<exists>g'. r = Inr g' \<and> reg_inv E recs g' w' \<and> tg_idx g' = index_of (re_text E) sc cache recs \<and>
     tg_fingerprints g' = [] \<and> quiet w'"
proof -
  let ?X = "re_ext E" and ?M = "re_meta E" and ?C = "re_codec E" and ?t = "tg_table g"
  obtain vs v where tv: "tbl_inv ?X ?M vs v ?t w" "linked ?X (vs @ [v])"
    and enc: "rows_encode ?C recs (view_rows (vs @ [v]))" using inv unfolding reg_inv_def by blast
  have idx: "distinct (map rr_uid recs)" "versions_ok recs"
    using reg_invD [OF inv] by (simp_all add: idx_ok_def)
  have c: "fget w (segment_path (t_dir ?t) (t_active_seq ?t)) = Some (seg_image ?X (fst v) (snd v))"
    using tv(1) fl by (auto simp: tbl_inv_def seg_inv_def holds_def)
  have X: "ext_ok ?X" "length (fst v) = 32" using tv(1) by (simp_all add: tbl_inv_def seg_inv_def)
  obtain t1 w1 k where o1: "table_open ?X ?M (t_dir ?t) b w = (Inr t1, w1)" "k \<le> length (snd v)"
    "tbl_inv ?X ?M vs (reopened (length (seg_image ?X (fst v) (snd v))) k v) t1 w1" "quiet w1"
    "\<forall>j \<le> length (snd v). length (seg_image ?X (fst v) (take j (snd v))) \<le> length (seg_image ?X (fst v) (snd v)) \<longrightarrow> j \<le> k"
    using table_open_reopen [OF tv(1) q room c, of b] by blast
  have "k = length (snd v)" using o1(2,5) by (metis le_refl take_all le_antisym)
  moreover have "\<not> length (seg_image ?X (fst v) (snd v)) < 37" using X by (simp add: seg_image_def)
  ultimately have inv1: "tbl_inv ?X ?M vs v t1 w1" using o1(3) by (simp add: reopened_def)
  obtain r2 t2 w2 where sc: "table_scan_all ?X ?C (t1, w1) = (r2, (t2, w2))" by (metis surj_pair)
  have fit2: "files_fit w2"
  proof (cases r2)
    case (Inl e)
    then have "w' = table_drop t2 w2" using run chk o1(1) sc by (simp add: reg_open_def seqE_def)
    moreover have "table_drop t2 w2 = w2"
      using table_scan_all_flushed [OF inv1 o1(4) sc] by (simp add: table_drop_def seg_drop_empty)
    ultimately show ?thesis using fit by simp
  next
    case (Inr rs)
    then have "w' = w2" using run chk o1(1) sc by (simp add: reg_open_def seqE_def)
    then show ?thesis using fit by simp
  qed
  have dec: "c_de ?C (snd row) = Inr ((\<lambda>b. case c_de ?C b of Inr x \<Rightarrow> x) (snd row))" if "row \<in> set (view_rows (vs @ [v]))" for row
  proof -
    have "c_de ?C (snd row) \<in> set (map Inr recs)"
      using rows_decode [OF C enc] that by (metis (no_types, lifting) image_eqI list.set_map)
    then show ?thesis by auto
  qed
  note S = table_scan_all_rows [OF inv1 o1(4) sc fit2 dec]
  have "map ((\<lambda>b. case c_de ?C b of Inr x \<Rightarrow> x) \<circ> snd) (view_rows (vs @ [v])) = recs"
  proof -
    have "map (\<lambda>x. case x of Inr y \<Rightarrow> y) (map (\<lambda>row. c_de ?C (snd row)) (view_rows (vs @ [v]))) = recs"
      unfolding rows_decode [OF C enc] by (simp add: comp_def)
    then show ?thesis by (simp add: comp_def)
  qed
  then have r2: "r2 = Inr recs" and inv2: "tbl_inv ?X ?M vs v t2 w2" "quiet w2" using S by simp_all
  have res: "r = Inr \<lparr>tg_table = t2, tg_idx = index_of (re_text E) sc cache recs, tg_fingerprints = []\<rparr>" "w' = w2"
    using run chk o1(1) sc r2 by (simp_all add: reg_open_def seqE_def)
  have "reg_inv E recs \<lparr>tg_table = t2, tg_idx = index_of (re_text E) sc cache recs, tg_fingerprints = []\<rparr> w2"
    unfolding reg_inv_def type_registry.simps using inv2(1) tv(2) enc index_of_ok [OF idx(1)] idx(2) by blast
  then show ?thesis using res inv2(2) by simp
qed

end
