(* ===== verification/Registry_Props.thy ===== *)
theory Registry_Props
  imports Registry_Search Table_Props
begin

text \<open>
  The properties of entity registries, with a small concrete environment for their witnesses.
\<close>

section \<open>A concrete instance\<close>

definition demo_crypto :: cryptoext where
  "demo_crypto = \<lparr>cx_sha256 = (\<lambda>b. b), cx_hmac = (\<lambda>k d. k @ d),
     cx_parse_public = (\<lambda>s. Inr (as_bytes s)), cx_parse_private = (\<lambda>s. Inr (as_bytes s)), cx_to_public = (\<lambda>k. k),
     cx_rsa_encrypt = (\<lambda>k r m. Inr m), cx_rsa_decrypt = (\<lambda>k c. Inr c),
     cx_rsa_sign = (\<lambda>k d. Inr (k @ d)), cx_rsa_verify = (\<lambda>k d s. if s = k @ d then Inr () else Inl ''bad signature''),
     cx_aes_encrypt = (\<lambda>k n m. Inr m), cx_aes_decrypt = (\<lambda>k n c. Inr c)\<rparr>"

lemma demo_crypto_ok: "crypto_ok demo_crypto"
  by (simp add: crypto_ok_def demo_crypto_def)

definition demo_text :: textext where
  "demo_text = \<lparr>x_fmt_f64 = (\<lambda>_. ''0''), x_json_parse = Inr, x_lower = (\<lambda>s. s)\<rparr>"

definition demo_ring :: key_ring where
  "demo_ring = \<lparr>kr_rsa = [(1, \<lparr>rp_public = Some [9], rp_private = Some [9]\<rparr>)], kr_macs = [(1, [7])]\<rparr>"

lemma demo_ring_ok: "ring_ok demo_crypto demo_ring"
  by (auto simp: ring_ok_def demo_ring_def demo_crypto_def bt_wf_Cons KEYLESS_def split: if_splits)

definition demo_field :: field_def where
  "demo_field = field_search (INgram 2) (field_protection_as PHmac (field_indexed (field_text ''name'')))"

definition demo_schema :: type_schema where
  "demo_schema = \<lparr>sc_type_name = ''user'', sc_fields = [demo_field]\<rparr>"

definition demo_input :: entity_input where
  "demo_input = entity_field ''name'' (Text ''abc'') (entity_new ''u1'')"

definition demo_rec :: registry_record where
  "demo_rec = \<lparr>rr_uid = 5, rr_entity_id = ''u1'', rr_entity_type = ''user'', rr_version = 0, rr_recorded_at = 9,
     rr_deleted = False, rr_fields = [(''name'', Hmac 1 (hex ([7] @ as_bytes ''abc'')))],
     rr_tokens = [(''name'', \<lparr>ft_key_version = 1,
        ft_digests = [hex ([7] @ token_data ''name'' ''ab''), hex ([7] @ token_data ''name'' ''bc'')]\<rparr>)]\<rparr>"

text \<open>A codec of the one record of the instance.\<close>

definition demo_rec_codec :: "registry_record codec" where
  "demo_rec_codec = \<lparr>c_ser = (\<lambda>r. if r = demo_rec then Inr [1] else Inl (Encode (CodecFailed ''record''))),
     c_de = (\<lambda>b. if b = [1] then Inr demo_rec else Inl (Encode (CodecFailed ''record'')))\<rparr>"

lemma demo_rec_codec_ok: "codec_ok demo_rec_codec"
  by (simp add: codec_ok_def demo_rec_codec_def)

definition demo_env :: renv where
  "demo_env = \<lparr>re_ext = demo_ext, re_meta = demo_meta_codec, re_codec = demo_rec_codec,
     re_crypto = demo_crypto, re_text = demo_text\<rparr>"

definition demo_reg :: type_registry where
  "demo_reg = \<lparr>tg_table = demo_table, tg_idx = registry_index_new demo_schema False, tg_fingerprints = []\<rparr>"

definition demo_rnd :: "nat \<Rightarrow> rnd" where
  "demo_rnd i = \<lparr>rn_dek = replicate 32 1, rn_nonce = replicate 12 2, rn_pad = []\<rparr>"

lemma demo_reg_inv: "reg_inv demo_env [] demo_reg demo_table_fs"
proof -
  have "tbl_inv demo_ext demo_meta_codec [] (ZERO_CHAIN, []) demo_table demo_table_fs" by (rule demo_table_inv)
  then show ?thesis unfolding reg_inv_def demo_env_def demo_reg_def renv.simps type_registry.simps
    using idx_ok_new by (force simp: rows_encode_def versions_ok_def)
qed

lemma demo_reg_room: "t_active_seq (tg_table demo_reg) < u64_max_nat"
  by (simp add: demo_reg_def demo_table_def u64_max_nat_def)

lemma demo_stored: "stored_as demo_crypto demo_text demo_ring demo_rnd (rr_fields demo_rec) (rr_tokens demo_rec)
    demo_field (Text ''abc'')"
proof -
  have c: "chars ''abc'' = [''a'', ''b'', ''c'']" by (simp add: chars.simps is_cont_def)
  have "value_tokens demo_text ''abc'' (INgram 2) = [''ab'', ''bc'']"
    by (simp add: normalize_str_def demo_text_def c windows_def bset_def upt_rec Let_def)
  then show ?thesis
    by (simp add: stored_as_def demo_field_def field_search_def field_protection_as_def field_indexed_def field_text_def
        demo_rec_def demo_ring_def demo_crypto_def demo_text_def hmac_hex_def hmac_hex_with_def active_hmac_version_def
        last_key_def mac_of_def field_tokens_of_def index_token_digest_def index_token_digest_with_def Let_def)
qed

lemma demo_index_ok: "idx_ok demo_text [demo_rec] (index_of demo_text demo_schema False [demo_rec])"
  by (rule index_of_ok) simp

lemma demo_schema_field: "schema_field (ri_schema (index_of demo_text demo_schema False [demo_rec])) ''name'' = Some demo_field"
  by (simp add: schema_field_def demo_schema_def demo_field_def field_search_def field_protection_as_def
      field_indexed_def field_text_def)

lemma demo_field_simps: "fd_indexed demo_field" "fd_protection demo_field = PHmac" "fd_search demo_field = INgram 2"
  "fd_name demo_field = ''name''"
  by (simp_all add: demo_field_def field_search_def field_protection_as_def field_indexed_def field_text_def)

lemma ring_extends_refl: "ring_extends R R"
  by (simp add: ring_extends_def)

section \<open>Writing\<close>



text \<open>
  delete. An entity without versions is not found; otherwise a successful delete appends one
  record with the last version's fields and the next version number, after which an exact search
  over latest versions does not return the entity, and an exact search over all versions returns
  exactly the entities it returned before.
\<close>

theorem delete_correct:
  assumes "reg_inv E recs g w" and "u \<notin> rr_uid ` set recs" and "t_active_seq (tg_table g) < u64_max_nat"
    and "reg_delete E u now eid (g, w) = (r, (g', w'))" and "quiet w"
  shows "(recs_of eid recs = [] \<longrightarrow> r = Inl (NotFound eid) \<and> g' = g \<and> w' = w) \<and>
    (case r of
       Inl e \<Rightarrow> reg_inv E recs g' w'
     | Inr u' \<Rightarrow> u' = u \<and> (\<exists>rec. rr_deleted rec \<and> rr_uid rec = u \<and> rr_fields rec = rr_fields (last (recs_of eid recs)) \<and>
         reg_inv E (recs @ [rec]) g' w') \<and>
         (\<forall>K N R f def probe. N = re_text E \<longrightarrow> fd_indexed def \<longrightarrow>
           (\<forall>out. search_exact K N R (tg_idx g') def f probe False = Inr out \<longrightarrow> eid \<notin> set out) \<and>
           (\<forall>out out'. search_exact K N R (tg_idx g) def f probe True = Inr out \<longrightarrow>
              search_exact K N R (tg_idx g') def f probe True = Inr out' \<longrightarrow> set out' = set out)))"
  using assms(1-4)
proof (cases rule: delete_cases)
  case (deleted rec)
  let ?N = "re_text E"
  have idx: "idx_ok ?N recs (tg_idx g)" using reg_invD [OF assms(1)] by simp
  have idx': "idx_ok ?N (recs @ [rec]) (tg_idx g')" using reg_invD [OF deleted(4)] by simp
  let ?l = "last (recs_of eid recs)"
  have l: "?l \<in> set recs" "rr_entity_id ?l = eid" using last_in_set [OF deleted(1)] by (auto simp: recs_of_def)
  have rec: "rr_deleted rec" "rr_uid rec = u" "rr_fields rec = rr_fields ?l" "rr_entity_id rec = eid"
    using deleted(3) l by simp_all
  have "search_exact K ?N R (tg_idx g') def f probe False = Inr out \<Longrightarrow> fd_indexed def \<Longrightarrow> eid \<notin> set out"
    for K R f def probe out
  proof -
    assume a: "search_exact K ?N R (tg_idx g') def f probe False = Inr out" and i: "fd_indexed def"
    then obtain keys where k: "exact_probe_keys K ?N R def probe = Inr keys"
      by (auto simp: search_exact_def rbind_Inr_iff)
    have "last (recs_of eid (recs @ [rec])) = rec" using rec by (simp add: recs_of_def)
    then show ?thesis using search_exact_latest [OF idx' i k, of f] a rec(1) by auto
  qed
  moreover have "search_exact K ?N R (tg_idx g) def f probe True = Inr out \<Longrightarrow>
      search_exact K ?N R (tg_idx g') def f probe True = Inr out' \<Longrightarrow> fd_indexed def \<Longrightarrow> set out' = set out"
    for K R f def probe out out'
  proof -
    assume a: "search_exact K ?N R (tg_idx g) def f probe True = Inr out"
      "search_exact K ?N R (tg_idx g') def f probe True = Inr out'" and i: "fd_indexed def"
    then obtain keys where k: "exact_probe_keys K ?N R def probe = Inr keys"
      by (auto simp: search_exact_def rbind_Inr_iff)
    have s: "set out = rr_entity_id ` {r \<in> set recs. \<exists>k \<in> set keys. has_key ?N (ri_schema (tg_idx g)) f k r}"
      using search_exact_past [OF idx i k, of f] a by auto
    have s': "set out' = rr_entity_id ` {r \<in> set (recs @ [rec]). \<exists>k \<in> set keys. has_key ?N (ri_schema (tg_idx g)) f k r}"
      using search_exact_past [OF idx' i k, of f] a deleted(6) by auto
    have "has_key ?N (ri_schema (tg_idx g)) f k rec = has_key ?N (ri_schema (tg_idx g)) f k ?l" for k
      using rec(3) by (simp add: has_key_def)
    then have "(\<exists>k \<in> set keys. has_key ?N (ri_schema (tg_idx g)) f k rec) \<longleftrightarrow>
        (\<exists>k \<in> set keys. has_key ?N (ri_schema (tg_idx g)) f k ?l)" by simp
    then have "{r \<in> set (recs @ [rec]). \<exists>k \<in> set keys. has_key ?N (ri_schema (tg_idx g)) f k r} =
        {r \<in> set recs. \<exists>k \<in> set keys. has_key ?N (ri_schema (tg_idx g)) f k r} \<union>
        (if \<exists>k \<in> set keys. has_key ?N (ri_schema (tg_idx g)) f k ?l then {rec} else {})" by auto
    moreover have "rr_entity_id rec = rr_entity_id ?l" using l rec(4) by simp
    ultimately show ?thesis unfolding s s' using l(1) by (simp add: insert_absorb image_iff)
  qed
  ultimately show ?thesis using deleted(1,2,4) rec by auto
qed (use assms(1,5) in auto)

lemma delete_correct_witness:
  "fst (reg_delete demo_env 6 9 ''u1'' (demo_reg, demo_table_fs)) = Inl (NotFound ''u1'')"
proof -
  obtain r g' w' where run: "reg_delete demo_env 6 9 ''u1'' (demo_reg, demo_table_fs) = (r, (g', w'))"
    by (metis surj_pair)
  have "quiet demo_table_fs" by (simp add: quiet_def demo_table_fs_def)
  moreover have "latest (tg_idx demo_reg) ''u1'' = None"
    using latest_rec [OF conjunct1 [OF reg_invD [OF demo_reg_inv]]] by (simp add: recs_of_def)
  then have "g' = demo_reg" using run by (simp add: reg_delete_def)
  ultimately show ?thesis using delete_correct [OF demo_reg_inv _ demo_reg_room run] run by (simp add: recs_of_def)
qed

section \<open>Searching\<close>

text \<open>
  C7: exact search across key rotations. An entity stored with value \<open>v\<close> in an indexed field,
  under any protection that can be indexed, is returned by the exact search for \<open>v\<close> over all
  versions with every later key ring that still holds the old keys. On an unprotected field the
  result is exact: every entity returned has a record with the same canonical bytes.
\<close>

theorem exact_search_complete:
  assumes "idx_ok N recs ri" and "rec \<in> set recs" and "schema_field (ri_schema ri) f = Some def"
    and "fd_indexed def" and "fd_protection def \<noteq> PRsa"
    and "stored_as K N R rs (rr_fields rec) (rr_tokens rec) def v" and "ring_extends R R'"
  shows "\<exists>out. idx_search K N R' f v True Exact ri = (Inr out, ri) \<and> sorted out \<and> distinct out \<and>
    rr_entity_id rec \<in> set out \<and>
    (fd_protection def = PNone \<longrightarrow> (\<forall>e \<in> set out. \<exists>q \<in> set recs. rr_entity_id q = e \<and>
       (\<exists>x. (f, x) \<in> set (rr_fields q) \<and> index_key N x = Some (canonical_bytes N v))))"
  by (rule exact_search_finds_entity [OF assms])

definition demo_ring2 :: key_ring where
  "demo_ring2 = demo_ring\<lparr>kr_macs := [(1, [7]), (2, [8])]\<rparr>"

lemma demo_ring_extends: "ring_extends demo_ring demo_ring2"
  by (simp add: ring_extends_def demo_ring_def demo_ring2_def map_le_def)

lemma exact_search_complete_witness:
  "\<exists>out. idx_search demo_crypto demo_text demo_ring2 ''name'' (Text ''abc'') True Exact
      (index_of demo_text demo_schema False [demo_rec]) =
    (Inr out, index_of demo_text demo_schema False [demo_rec]) \<and> ''u1'' \<in> set out"
proof -
  have "demo_rec \<in> set [demo_rec]" by simp
  moreover have "fd_protection demo_field \<noteq> PRsa" by (simp add: demo_field_simps)
  moreover have "rr_entity_id demo_rec = ''u1''" by (simp add: demo_rec_def)
  ultimately show ?thesis
    using exact_search_complete [OF demo_index_ok _ demo_schema_field demo_field_simps(1) _ demo_stored demo_ring_extends]
    by metis
qed



section \<open>Reopening\<close>

text \<open>
  C23: opening a registry's directory again, without disk faults, succeeds and rebuilds an index
  of exactly the records that were written before, so every search has the answers it had; the
  remembered fingerprints are gone.
\<close>

theorem registry_reopen_correct:
  assumes "reg_inv E recs g w" and "quiet w" and "fs_wf w" and "t_active_seq (tg_table g) \<le> u64_max_nat"
    and "seg_buf (t_active (tg_table g)) = []" and "codec_ok (re_codec E)"
    and "check_fields sc (sc_fields sc) = Inr ()"
    and "reg_open E (t_dir (tg_table g)) sc b cache w = (r, w')" and "files_fit w'"
  shows "\<exists>g'. r = Inr g' \<and> reg_inv E recs g' w' \<and> tg_idx g' = index_of (re_text E) sc cache recs \<and>
     tg_fingerprints g' = [] \<and> quiet w'"
  by (rule reg_open_reopen [OF assms])

definition demo_open_fs :: fs where
  "demo_open_fs = fput (segment_path [''t''] 0) (seg_image demo_ext ZERO_CHAIN []) demo_table_fs"

definition demo_open_reg :: type_registry where
  "demo_open_reg = demo_reg\<lparr>tg_table := demo_table\<lparr>t_active := (t_active demo_table)\<lparr>seg_buf := []\<rparr>\<rparr>\<rparr>"

lemma demo_open_table: "tbl_inv demo_ext demo_meta_codec [] (ZERO_CHAIN, [])
    (demo_table\<lparr>t_active := (t_active demo_table)\<lparr>seg_buf := []\<rparr>\<rparr>) demo_open_fs"
proof (rule tbl_inv_active [OF demo_table_inv])
  show "seg_inv demo_ext (fst (ZERO_CHAIN, [])) (snd (ZERO_CHAIN, [])) ((t_active demo_table)\<lparr>seg_buf := []\<rparr>) demo_open_fs"
    by (simp add: seg_inv_def demo_seg_def demo_open_fs_def holds_def seg_books_def demo_table_def) (simp add: seg_image_def)
  show "same_but (segment_path (t_dir demo_table) (t_active_seq demo_table)) demo_table_fs demo_open_fs"
    by (simp add: demo_open_fs_def same_but_def demo_table_def)
  show "seg_path ((t_active demo_table)\<lparr>seg_buf := []\<rparr>) = segment_path (t_dir demo_table) (t_active_seq demo_table)"
    by (simp add: demo_table_def)
qed

lemma demo_open_inv: "reg_inv demo_env [] demo_open_reg demo_open_fs"
proof -
  have "idx_ok demo_text [] (tg_idx demo_open_reg)"
    by (simp add: demo_open_reg_def demo_reg_def idx_ok_new)
  then show ?thesis unfolding reg_inv_def demo_env_def demo_open_reg_def renv.simps type_registry.simps
    using demo_open_table by (force simp: rows_encode_def versions_ok_def)
qed

lemma demo_open_facts: "quiet demo_open_fs" "fs_wf demo_open_fs"
  by (simp_all add: demo_open_fs_def demo_table_fs_def quiet_def fs_wf_def fput_def)

text \<open>The only file stays the active segment, whose image is 37 bytes long.\<close>

lemma demo_open_fit:
  assumes "reg_open demo_env [''t''] demo_schema 100 False demo_open_fs = (r, w')"
  shows "files_fit w'"
proof -
  let ?p = "segment_path [''t''] 0" and ?img = "seg_image demo_ext ZERO_CHAIN []"
  have len: "length ?img = 37" by (simp add: seg_image_def)
  have small: "files_fit w" if "\<forall>q. q \<noteq> ?p \<longrightarrow> fget w q = None" "\<exists>c. fget w ?p = Some c \<and> length c \<le> 37" for w
    unfolding files_fit_def
  proof (intro allI impI)
    fix q c assume "fget w q = Some c"
    then have "length c \<le> 37" using that by (cases "q = ?p") auto
    then show "length c \<le> u64_max_nat" by (simp add: u64_max_nat_def)
  qed
  have none: "q \<noteq> ?p \<Longrightarrow> fget demo_open_fs q = None" for q
    by (simp add: demo_open_fs_def) (simp add: demo_table_fs_def fget_def)
  have segs: "list_segments [''t''] demo_open_fs = [0]"
    using list_segments_inv [OF demo_open_table demo_open_facts(2)] by (simp add: demo_table_def)
  have dir: "fs_create_dir_all [''t''] demo_open_fs = (Inr (), demo_open_fs)"
    using demo_open_facts by (simp add: fs_create_dir_all_def demo_open_fs_def demo_table_fs_def fput_def)
  have img: "fget demo_open_fs ?p = Some (take (length ?img) ?img)" by (simp add: demo_open_fs_def)
  obtain s w1 k where s: "seg_open demo_ext ?p ZERO_CHAIN demo_open_fs = (Inr s, w1)"
    "seg_inv demo_ext ZERO_CHAIN (take k []) s w1" "same_but ?p demo_open_fs w1" "seg_path s = ?p"
    using seg_open_crash_image [OF ext_ok_demo length_ZERO_CHAIN _ demo_open_facts(1) img, of ZERO_CHAIN] len by auto
  let ?t = "\<lparr>t_dir = [''t''], t_active = s, t_active_seq = 0, t_sealed = [], t_max_segment_bytes = 100\<rparr>"
  have opn: "table_open demo_ext demo_meta_codec [''t''] 100 demo_open_fs = (Inr ?t, w1)"
    by (simp add: table_open_def seqE_def dir segs s(1) Let_def)
  have q1: "quiet w1" using s(3) demo_open_facts by (simp add: same_but_def)
  obtain r2 t2 w2 where fl: "table_flush (?t, w1) = (r2, (t2, w2))" by (metis surj_pair)
  then obtain s2 where sf: "seg_flush (s, w1) = (r2, (s2, w2))" and t2: "t2 = ?t\<lparr>t_active := s2\<rparr>"
    unfolding table_flush_def by (rule on_active_run) simp
  have w2: "r2 = Inr ()" "same_but ?p w1 w2" "fget w2 ?p = Some ?img" "seg_buf s2 = []"
  proof -
    from s(2) sf show "r2 = Inr ()" "same_but ?p w1 w2" "fget w2 ?p = Some ?img" "seg_buf s2 = []"
      by (cases rule: seg_flush_cases; use q1 s(4) in \<open>auto dest!: buf_stepD\<close>)+
  qed
  have "files_fit w2" using small [of w2] w2(2,3) s(3) none len by (auto simp: same_but_def)
  moreover have "w' = w2"
  proof -
    obtain x where x: "table_scan_all demo_ext demo_rec_codec (?t, w1) = (x, (t2, w2))"
      using fl w2(1) by (simp add: table_scan_all_def table_slices_def seqE_def)
    have "table_drop t2 w2 = w2" using w2(4) t2 by (simp add: table_drop_def seg_drop_empty)
    moreover have "check_fields demo_schema (sc_fields demo_schema) = Inr ()"
      by (simp add: demo_schema_def demo_field_simps)
        (simp add: demo_field_def field_search_def field_protection_as_def field_indexed_def field_text_def)
    ultimately show ?thesis using assms opn x by (cases x) (simp_all add: reg_open_def seqE_def demo_env_def)
  qed
  ultimately show ?thesis by simp
qed

lemma registry_reopen_correct_witness:
  "\<exists>g' w'. reg_open demo_env [''t''] demo_schema 100 False demo_open_fs = (Inr g', w') \<and>
     tg_idx g' = index_of demo_text demo_schema False []"
proof -
  obtain r w' where run: "reg_open demo_env [''t''] demo_schema 100 False demo_open_fs = (r, w')" by (metis surj_pair)
  have "t_dir (tg_table demo_open_reg) = [''t'']" "seg_buf (t_active (tg_table demo_open_reg)) = []"
    "t_active_seq (tg_table demo_open_reg) \<le> u64_max_nat"
    by (simp_all add: demo_open_reg_def demo_reg_def demo_table_def)
  moreover have "codec_ok (re_codec demo_env)" "re_text demo_env = demo_text"
    using demo_rec_codec_ok by (simp_all add: demo_env_def)
  moreover have "check_fields demo_schema (sc_fields demo_schema) = Inr ()"
    by (simp add: demo_schema_def demo_field_simps)
      (simp add: demo_field_def field_search_def field_protection_as_def field_indexed_def field_text_def)
  ultimately show ?thesis
    using registry_reopen_correct [OF demo_open_inv demo_open_facts _ _ _ _ _ demo_open_fit [OF run]] run by metis
qed

section \<open>Fingerprints\<close>

text \<open>Two inputs whose fields are joined to the same bytes: the second one's only value contains the separators.\<close>

definition split_input :: entity_input where
  "split_input = \<lparr>en_entity_id = ''u1'', en_fields = [(''a'', Text ''x''), (''b'', Text ''y'')]\<rparr>"

definition joined_input :: entity_input where
  "joined_input = \<lparr>en_entity_id = ''u1'',
     en_fields = [(''a'', Text (''x'' @ [CHR 0x00] @ ''b'' @ [CHR 0x00] @ ''y''))]\<rparr>"

definition ab_schema :: type_schema where
  "ab_schema = \<lparr>sc_type_name = ''user'', sc_fields = [field_text ''a'', field_text ''b'']\<rparr>"

text \<open>
  the fingerprint that lets upsert skip unchanged entities is not injective, whatever the hash
  function: after \<open>split_input\<close> was written, an upsert of the different, equally valid
  \<open>joined_input\<close> returns the old version's uid and records nothing.
\<close>

theorem fingerprint_skips_changed_input:
  "en_fields split_input \<noteq> en_fields joined_input \<and>
   reg_validate ab_schema split_input = Inr () \<and> reg_validate ab_schema joined_input = Inr () \<and>
   (ri_schema (tg_idx g) = ab_schema \<and>
    map_of (tg_fingerprints g) ''u1'' = Some (fingerprint (re_crypto E) (re_text E) split_input) \<and>
    latest_uid (tg_idx g) ''u1'' = Some cur \<and> alive (tg_idx g) cur \<longrightarrow>
      upsert E R u now rs joined_input (g, w) = (Inr cur, (g, w)))"
proof -
  have v: "reg_validate ab_schema split_input = Inr ()" "reg_validate ab_schema joined_input = Inr ()"
    by (simp_all add: reg_validate_def ab_schema_def split_input_def joined_input_def field_text_def schema_field_def)
  have "fingerprint_data N split_input = fingerprint_data N joined_input" for N
    by (simp add: fingerprint_data_def split_input_def joined_input_def as_bytes_def)
  then have "fingerprint K N split_input = fingerprint K N joined_input" for K N by (simp add: fingerprint_def)
  then show ?thesis using v
    by (auto simp: upsert_def unchanged_uid_def Let_def split_input_def joined_input_def)
qed

lemma fingerprint_skips_changed_input_witness:
  "upsert demo_env demo_ring 6 9 demo_rnd joined_input
     (\<lparr>tg_table = demo_table, tg_idx = index_of demo_text ab_schema False [demo_rec],
       tg_fingerprints = [(''u1'', fingerprint demo_crypto demo_text split_input)]\<rparr>, demo_table_fs) =
   (Inr 5, (\<lparr>tg_table = demo_table, tg_idx = index_of demo_text ab_schema False [demo_rec],
       tg_fingerprints = [(''u1'', fingerprint demo_crypto demo_text split_input)]\<rparr>, demo_table_fs))"
proof -
  have ok: "idx_ok demo_text [demo_rec] (index_of demo_text ab_schema False [demo_rec])" by (rule index_of_ok) simp
  have "latest_uid (index_of demo_text ab_schema False [demo_rec]) ''u1'' = Some 5"
    using latest_uid_rec [OF ok, of "''u1''"] by (simp add: recs_of_def demo_rec_def)
  moreover have "alive (index_of demo_text ab_schema False [demo_rec]) 5"
    using alive_rec [OF ok, of demo_rec] by (simp add: demo_rec_def)
  ultimately show ?thesis
    using fingerprint_skips_changed_input [where E = demo_env and cur = 5 and w = demo_table_fs and R = demo_ring
        and u = 6 and now = 9 and rs = demo_rnd and
        g = "\<lparr>tg_table = demo_table, tg_idx = index_of demo_text ab_schema False [demo_rec],
       tg_fingerprints = [(''u1'', fingerprint demo_crypto demo_text split_input)]\<rparr>"]
    by (simp add: demo_env_def)
qed

end
