(* ===== verification/Civil_Time.thy ===== *)
theory Civil_Time
  imports Text_Codec
begin

text \<open>
  UTC timestamps as text (\<open>crates/quipu-core/src/time.rs\<close>): the civil-from-days conversion and
  the RFC 3339 rendering, with the day count \<open>days_from_civil\<close> of a civil date as the
  specification of the conversion. \<open>i64\<close> arithmetic never overflows for 64-bit microseconds, so
  it is written on \<^typ>\<open>int\<close>, where \<open>div\<close> and \<open>mod\<close> by a positive number are \<open>div_euclid\<close> and
  \<open>rem_euclid\<close> (and \<open>/\<close> too, on the non-negative operands it is used on).
\<close>

definition civil_from_days :: "int \<Rightarrow> int \<times> nat \<times> nat" where
  "civil_from_days z0 =
     (let z = z0 + 719468;
          era = z div 146097;
          doe = z mod 146097;
          yoe = (doe - doe div 1460 + doe div 36524 - doe div 146096) div 365;
          y = yoe + era * 400;
          doy = doe - (365 * yoe + yoe div 4 - yoe div 100);
          mp = (5 * doy + 2) div 153;
          d = nat (doy - (153 * mp + 2) div 5 + 1);
          m = nat (if mp < 10 then mp + 3 else mp - 9)
      in (if m \<le> 2 then y + 1 else y, m, d))"

text \<open>\<open>{n:0w}\<close>: decimal, zero-padded to the given width.\<close>

definition pad_dec :: "nat \<Rightarrow> nat \<Rightarrow> string" where
  "pad_dec w n = replicate (w - length (dec n)) CHR ''0'' @ dec n"

definition format_rfc3339 :: "u64 \<Rightarrow> string" where
  "format_rfc3339 micros =
     (let secs = unat micros div 1000000;
          sub = unat micros mod 1000000;
          days = int (secs div 86400);
          secs_of_day = secs mod 86400
      in case civil_from_days days of (y, m, d) \<Rightarrow>
           pad_dec 4 (nat y) @ ''-'' @ pad_dec 2 m @ ''-'' @ pad_dec 2 d @ ''T''
           @ pad_dec 2 (secs_of_day div 3600) @ '':'' @ pad_dec 2 (secs_of_day div 60 mod 60) @ '':''
           @ pad_dec 2 (secs_of_day mod 60) @ ''.'' @ pad_dec 6 sub @ ''Z'')"

section \<open>Specification: the day number of a civil date\<close>

definition is_leap :: "int \<Rightarrow> bool" where
  "is_leap y \<longleftrightarrow> y mod 4 = 0 \<and> (y mod 100 \<noteq> 0 \<or> y mod 400 = 0)"

definition days_in_month :: "int \<Rightarrow> nat \<Rightarrow> nat" where
  "days_in_month y m = (if m = 2 then (if is_leap y then 29 else 28)
     else if m \<in> {4, 6, 9, 11} then 30 else 31)"

text \<open>The calendar's own successor: the next day, the first of the next month, or New Year.\<close>

definition next_day :: "int \<times> nat \<times> nat \<Rightarrow> int \<times> nat \<times> nat" where
  "next_day ymd = (case ymd of (y, m, d) \<Rightarrow>
     if d < days_in_month y m then (y, m, d + 1)
     else if m < 12 then (y, m + 1, 1) else (y + 1, 1, 1))"

section \<open>The conversion steps from each day to the next\<close>

text \<open>
  A 400-year era of 146097 days starts on 1 March; \<open>year_start\<close> is the first day of its years and
  \<open>yoe_of\<close> the code's year of era. The four closed formulas are checked at the boundaries of the
  400 years and of the 366 days, monotonicity covers the days between.
\<close>

definition year_start :: "nat \<Rightarrow> nat" where
  "year_start y = 365 * y + y div 4 - y div 100 + y div 400"

definition yoe_raw :: "nat \<Rightarrow> nat" where
  "yoe_raw d = d - d div 1460 + d div 36524 - d div 146096"

definition month_day :: "nat \<Rightarrow> nat \<times> nat" where
  "month_day doy = (let mp = (5 * doy + 2) div 153
     in (if mp < 10 then mp + 3 else mp - 9, doy - (153 * mp + 2) div 5 + 1))"

lemma yoe_raw_Suc: "yoe_raw d \<le> yoe_raw (Suc d)"
proof -
  define a b x where "a = d div 1460" and "b = d div 36524" and "x = b div 4"
  have a: "a \<le> d" and A: "Suc d div 1460 \<le> Suc a" unfolding a_def by (simp_all add: div_Suc)
  have x: "x \<le> b" unfolding x_def by simp
  have q: "e div 146096 = e div 36524 div 4" for e :: nat by (simp add: div_mult2_eq [symmetric])
  consider "Suc d div 36524 = b" | "Suc d div 36524 = Suc b" unfolding b_def by (cases "Suc d mod 36524 = 0") (simp_all add: div_Suc)
  then show ?thesis
  proof cases
    case 1
    then show ?thesis unfolding yoe_raw_def q 1 a_def [symmetric] b_def [symmetric] x_def [symmetric]
      using a A x by linarith
  next
    case 2
    have "Suc b div 4 \<le> Suc x" unfolding x_def by (simp add: div_Suc)
    then show ?thesis unfolding yoe_raw_def q 2 a_def [symmetric] b_def [symmetric] x_def [symmetric]
      using a A x by linarith
  qed
qed

lemma yoe_raw_mono: "d \<le> e \<Longrightarrow> yoe_raw d \<le> yoe_raw e"
  using yoe_raw_Suc lift_Suc_mono_le by blast

lemma month_day_at:
  assumes "153 * mp \<le> 5 * doy + 2" and "5 * doy + 2 < 153 * Suc mp"
  shows "month_day doy = (if mp < 10 then mp + 3 else mp - 9, doy - (153 * mp + 2) div 5 + 1)"
proof -
  have "(5 * doy + 2) div 153 = mp" using assms by (intro div_nat_eqI) (simp_all add: mult.commute)
  then show ?thesis by (simp add: month_day_def)
qed

lemma month_step:
  assumes "doy < 365"
  shows "month_day (Suc doy) =
     (case month_day doy of (m, k) \<Rightarrow>
        if k < (if m = 2 then 29 else days_in_month 1 m) then (m, Suc k)
        else if m < 12 then (Suc m, 1) else (1, 1))"
proof -
  define mp where "mp = (5 * doy + 2) div 153"
  have lo: "153 * mp \<le> 5 * doy + 2" and hi: "5 * doy + 2 < 153 * Suc mp"
    unfolding mp_def using times_div_less_eq_dividend dividend_less_times_div [of 153 "5 * doy + 2"]
    by (simp_all add: mult.commute)
  have "mp \<le> 11" using lo assms by linarith
  then have "mp = 0 \<or> mp = 1 \<or> mp = 2 \<or> mp = 3 \<or> mp = 4 \<or> mp = 5 \<or> mp = 6 \<or> mp = 7 \<or> mp = 8 \<or> mp = 9 \<or> mp = 10 \<or> mp = 11"
    by presburger
  then consider "mp = 0" | "mp = 1" | "mp = 2" | "mp = 3" | "mp = 4" | "mp = 5" | "mp = 6" | "mp = 7"
    | "mp = 8" | "mp = 9" | "mp = 10" | "mp = 11" by blast
  note cs = this
  note D = month_day_at [OF lo hi]
  show ?thesis
  proof (cases "5 * doy + 7 < 153 * Suc mp")
    case True
    have S: "month_day (Suc doy) = (if mp < 10 then mp + 3 else mp - 9, Suc doy - (153 * mp + 2) div 5 + 1)"
      using month_day_at [of mp "Suc doy"] lo True by simp
    show ?thesis unfolding D S using lo True assms
      by (cases rule: cs) (simp_all add: days_in_month_def is_leap_def, arith+)
  next
    case False
    have S: "month_day (Suc doy) = (if Suc mp < 10 then Suc mp + 3 else Suc mp - 9, Suc doy - (153 * Suc mp + 2) div 5 + 1)"
      using month_day_at [of "Suc mp" "Suc doy"] hi False by simp
    show ?thesis unfolding D S using hi False assms by (cases rule: cs) (simp_all add: days_in_month_def is_leap_def)
  qed
qed

lemma is_leap_int: "is_leap (int n) \<longleftrightarrow> n mod 4 = 0 \<and> (n mod 100 \<noteq> 0 \<or> n mod 400 = 0)"
proof -
  have "int n mod int k = 0 \<longleftrightarrow> n mod k = 0" for k by (simp flip: zmod_int)
  from this [of 4] this [of 100] this [of 400] show ?thesis by (simp add: is_leap_def)
qed

lemma year_length:
  "year_start (Suc y) = year_start y + (if is_leap (int (Suc y)) then 366 else 365)"
proof -
  have 1: "Suc y mod 100 = 0 \<Longrightarrow> Suc y mod 4 = 0" and 2: "Suc y mod 400 = 0 \<Longrightarrow> Suc y mod 100 = 0"
    using mod_mod_cancel [of 4 100 "Suc y"] mod_mod_cancel [of 100 400 "Suc y"] by simp_all
  have e: "year_start x + x div 100 = 365 * x + x div 4 + x div 400" for x
  proof -
    have "x div 100 \<le> x" by simp
    then show ?thesis unfolding year_start_def by linarith
  qed
  have d: "Suc y div k = y div k + (if Suc y mod k = 0 then 1 else 0)" for k by (simp add: div_Suc)
  show ?thesis using e [of y] e [of "Suc y"] unfolding is_leap_int d [of 4] d [of 100] d [of 400]
    using 1 2 by (cases "Suc y mod 4 = 0"; cases "Suc y mod 100 = 0"; cases "Suc y mod 400 = 0") simp_all
qed

lemma year_of_day:
  assumes "y < 400" and "year_start y \<le> n" and "n < year_start (Suc y)"
  shows "yoe_raw n div 365 = y"
proof -
  define c q r where "c = y div 100" and "q = y mod 100 div 4" and "r = y mod 4"
  have "y mod 100 mod 4 = r" unfolding r_def by (simp add: mod_mod_cancel)
  then have y: "y = 100 * c + 4 * q + r"
    unfolding c_def q_def by (metis mult_div_mod_eq add.assoc)
  have b: "q < 25" "r < 4" "c < 4" unfolding c_def q_def r_def using assms(1) by (simp_all add: less_mult_imp_div_less)
  have d4: "y div 4 = 25 * c + q" and d100: "y div 100 = c" unfolding y using b by (auto intro!: div_nat_eqI)
  have ys: "year_start y = 36524 * c + 1461 * q + 365 * r"
    unfolding year_start_def d4 d100 using y b assms(1) by simp
  obtain d where n: "n = 36524 * c + 1461 * q + 365 * r + d" using assms(2) ys le_Suc_ex by metis
  have d: "d < 366" using assms(2,3) n ys year_length [of y] by (auto split: if_splits)
  have leap: "is_leap (int (Suc y)) \<Longrightarrow> r = 3 \<and> (q = 24 \<longrightarrow> c = 3)"
  proof
    assume L: "is_leap (int (Suc y))"
    then have "Suc y mod 4 = 0" unfolding is_leap_int by blast
    then show r: "r = 3" unfolding r_def by presburger
    show "q = 24 \<longrightarrow> c = 3"
    proof
      assume "q = 24"
      then have S: "Suc y = 100 * Suc c" using y r by simp
      moreover have "100 * Suc c mod 100 = 0" by simp
      ultimately have "100 * Suc c mod (100 * 4) = 0" using L unfolding is_leap_int S by simp
      then have "Suc c mod 4 = 0" unfolding mod_mult_mult1 by simp
      then show "c = 3" using b(3) by presburger
    qed
  qed
  have d365: "d = 365 \<Longrightarrow> r = 3 \<and> (q = 24 \<longrightarrow> c = 3)"
    using leap assms(3) n ys year_length [of y] by (auto split: if_splits)
  show ?thesis
  proof (cases "n = 146096")
    case True
    then have "c = 3" using n b d by linarith
    then have "q = 24" using n b d True by linarith
    then have "r = 3" using n b d True \<open>c = 3\<close> by linarith
    then show ?thesis using True y \<open>c = 3\<close> \<open>q = 24\<close> by (simp add: yoe_raw_def)
  next
    case False
    have t: "1461 * q + 365 * r + d < 36524"
    proof (cases "d = 365 \<and> q = 24")
      case True
      then show ?thesis using d365 False n by simp
    next
      case F: False
      show ?thesis
      proof (cases "q = 24")
        case True
        then have "d < 365" using F d by linarith
        then show ?thesis using True b by linarith
      next
        case False
        then show ?thesis using b d by linarith
      qed
    qed
    then have 2: "n div 36524 = c" unfolding n by (intro div_nat_eqI) simp_all
    have 3: "n div 146096 = 0" using n t b by simp
    define m where "m = 24 * c + q + 365 * r + d"
    have n': "n = 1460 * (25 * c + q) + m" unfolding n m_def by simp
    show ?thesis
    proof (cases "m < 1460")
      case True
      then have 1: "n div 1460 = 25 * c + q" unfolding n' by (intro div_nat_eqI) simp_all
      have "d < 365 \<or> r = 3" using d365 d by linarith
      then have "d < 365" using True b unfolding m_def by linarith
      then show ?thesis unfolding yoe_raw_def 1 2 3 using n y by (intro div_nat_eqI) simp_all
    next
      case False
      have "m < 2920" unfolding m_def using b d by linarith
      then have 1: "n div 1460 = 25 * c + q + 1" unfolding n' using False by (intro div_nat_eqI) simp_all
      have "1 \<le> d" using False b unfolding m_def by linarith
      then show ?thesis unfolding yoe_raw_def 1 2 3 using n y d by (intro div_nat_eqI) simp_all
    qed
  qed
qed

lemma year_exists:
  assumes "n < 146097"
  shows "\<exists>y < 400. year_start y \<le> n \<and> n < year_start (Suc y)"
proof -
  have "n < year_start (Suc y) \<Longrightarrow> \<exists>y' \<le> y. year_start y' \<le> n \<and> n < year_start (Suc y')" for y
  proof (induction y)
    case 0
    then show ?case by (simp add: year_start_def)
  next
    case (Suc y)
    show ?case
    proof (cases "n < year_start (Suc y)")
      case True
      then show ?thesis using Suc.IH by (meson le_Suc_eq)
    next
      case False
      then show ?thesis using Suc.prems by (intro exI [of _ "Suc y"]) simp
    qed
  qed
  from this [of 399] assms obtain y' where "y' \<le> 399" "year_start y' \<le> n" "n < year_start (Suc y')"
    by (auto simp: year_start_def)
  then show ?thesis by (intro exI [of _ y']) simp
qed

lemma is_leap_era: "is_leap (int y + era * 400 + 1) = is_leap (int (Suc y))"
proof -
  have "(int y + 1 + (era * k) * m) mod m = (int y + 1) mod m" for k m by (rule mod_mult_self1)
  from this [of 100 4] this [of 4 100] this [of 1 400] show ?thesis
    by (simp add: is_leap_def algebra_simps)
qed

lemma civil_split:
  assumes z: "z + 719468 = era * 146097 + int n" and n: "n < 146097"
    and y: "y < 400" "year_start y \<le> n" "n < year_start (Suc y)"
  shows "civil_from_days z =
    (case month_day (n - year_start y) of (m, d) \<Rightarrow>
       (if m \<le> 2 then int y + era * 400 + 1 else int y + era * 400, m, d))"
proof -
  have era: "(z + 719468) div 146097 = era" and doe: "(z + 719468) mod 146097 = int n"
    unfolding z using n by simp_all
  have "(int n - int n div 1460 + int n div 36524 - int n div 146096) = int (yoe_raw n)"
  proof -
    have "n div 1460 \<le> n" and "n div 146096 \<le> n div 36524"
      by (simp_all add: div_le_mono2)
    then show ?thesis by (simp add: yoe_raw_def of_nat_diff zdiv_int)
  qed
  then have yoe: "(int n - int n div 1460 + int n div 36524 - int n div 146096) div 365 = int y"
    using year_of_day [OF y] by (simp flip: zdiv_int)
  have doy: "int n - (365 * int y + int y div 4 - int y div 100) = int (n - year_start y)"
  proof -
    have "y div 100 \<le> y" by simp
    then show ?thesis using y(1,2) by (simp add: year_start_def of_nat_diff zdiv_int)
  qed
  define dy mp where "dy = n - year_start y" and "mp = (5 * dy + 2) div 153"
  have mp: "(5 * int dy + 2) div 153 = int mp" by (simp add: zdiv_int mp_def)
  have le: "(153 * mp + 2) div 5 \<le> dy"
  proof -
    have "153 * mp \<le> 5 * dy + 2" unfolding mp_def by simp
    then have "(153 * mp + 2) div 5 \<le> (5 * dy + 4) div 5" by (intro div_le_mono) simp
    also have "\<dots> = dy" by simp
    finally show ?thesis .
  qed
  have "(153 * int mp + 2) div 5 = int ((153 * mp + 2) div 5)" by (simp add: zdiv_int)
  then have d: "nat (int dy - (153 * int mp + 2) div 5 + 1) = dy - (153 * mp + 2) div 5 + 1"
    using le by linarith
  have m: "nat (if int mp < 10 then int mp + 3 else int mp - 9) = (if mp < 10 then mp + 3 else mp - 9)"
    by (cases "mp < 10") simp_all
  have md: "month_day dy = (if mp < 10 then mp + 3 else mp - 9, dy - (153 * mp + 2) div 5 + 1)"
    by (simp add: month_day_def mp_def Let_def)
  show ?thesis
    unfolding civil_from_days_def Let_def era doe yoe doy dy_def [symmetric] mp d m md prod.case ..
qed

lemma month_day_edges: "month_day 0 = (3, 1)" "month_day 364 = (2, 28)" "month_day 365 = (2, 29)"
  by (simp_all add: month_day_def)

lemma month_day_february:
  assumes "d < 364" and "month_day d = (m, k)" and "m = 2"
  shows "k < 28"
proof -
  define mp where "mp = (5 * d + 2) div 153"
  have m: "(if mp < 10 then mp + 3 else mp - 9) = 2" and k: "k = d - (153 * mp + 2) div 5 + 1"
    using assms(2,3) unfolding month_day_def Let_def mp_def [symmetric] by auto
  have "mp \<ge> 10" using m by (cases "mp < 10") simp_all
  then have "mp = 11" using m by simp
  then show ?thesis using k assms(1) by simp
qed

lemma year_start_mono: "x \<le> y \<Longrightarrow> year_start x \<le> year_start y"
  using lift_Suc_mono_le [of year_start x y] year_length by simp

lemma year_start_le: "y \<le> 400 \<Longrightarrow> year_start y \<le> 146097"
  using year_start_mono [of y 400] by (simp add: year_start_def)

lemma civil_next: "civil_from_days (z + 1) = next_day (civil_from_days z)"
proof -
  define era n where "era = (z + 719468) div 146097" and "n = nat ((z + 719468) mod 146097)"
  have z: "z + 719468 = era * 146097 + int n" and n: "n < 146097"
    unfolding era_def n_def by simp_all
  obtain y where y: "y < 400" "year_start y \<le> n" "n < year_start (Suc y)" using year_exists [OF n] by blast
  define d Y where "d = n - year_start y" and "Y = int y + era * 400"
  obtain m k where mk: "month_day d = (m, k)" by force
  have now: "civil_from_days z = (if m \<le> 2 then Y + 1 else Y, m, k)"
    using civil_split [OF z n y] by (simp only: d_def [symmetric] Y_def [symmetric] mk prod.case)
  have leap: "is_leap (Y + 1) = is_leap (int (Suc y))" unfolding Y_def by (rule is_leap_era)
  have bound: "d < (if is_leap (Y + 1) then 366 else 365)"
    using y year_length [of y] unfolding leap d_def by (auto split: if_splits)
  show ?thesis
  proof (cases "Suc n < year_start (Suc y)")
    case True
    have z': "z + 1 + 719468 = era * 146097 + int (Suc n)" using z by simp
    have dS: "Suc n - year_start y = Suc d" unfolding d_def using y by simp
    have d: "d < 365" "d = 364 \<Longrightarrow> is_leap (Y + 1)"
      using True y year_length [of y] unfolding leap d_def by (auto split: if_splits)
    have "Suc n < 146097" using True y(1) year_start_le [of "Suc y"] by simp
    then have "civil_from_days (z + 1) = (case month_day (Suc d) of (m, k) \<Rightarrow> (if m \<le> 2 then Y + 1 else Y, m, k))"
      using civil_split [OF z' _ y(1) _ True] y dS by (simp only: Y_def)
    moreover have "k < (if m = 2 then 29 else days_in_month 1 m) \<longleftrightarrow> k < days_in_month (if m \<le> 2 then Y + 1 else Y) m"
    proof (cases "m = 2")
      case True
      then show ?thesis
        using month_day_february [OF _ mk] d month_day_edges(2) mk by (cases "d = 364") (auto simp: days_in_month_def)
    next
      case False
      then show ?thesis by (simp add: days_in_month_def)
    qed
    moreover have "m = 2 \<Longrightarrow> k < 29"
      using month_day_february [OF _ mk] d(1) month_day_edges(2) mk by (cases "d = 364") auto
    ultimately show ?thesis unfolding now next_day_def month_step [OF d(1)] mk by (auto split: if_splits)
  next
    case False
    then have d: "d = (if is_leap (Y + 1) then 365 else 364)"
      using y year_length [of y] unfolding leap d_def by (auto split: if_splits)
    then have now': "civil_from_days z = (Y + 1, 2, if is_leap (Y + 1) then 29 else 28)"
      using now mk month_day_edges by (auto split: if_splits)
    have "civil_from_days (z + 1) = (Y + 1, 3, 1)"
    proof (cases "y = 399")
      case True
      then have "n = 146096" using False y by (simp add: year_start_def)
      then have z': "z + 1 + 719468 = (era + 1) * 146097 + int 0" using z by simp
      show ?thesis using civil_split [OF z', of 0] True unfolding Y_def
        by (simp add: year_start_def month_day_edges)
    next
      case F: False
      have sS: "Suc n = year_start (Suc y)" using False y by simp
      have z': "z + 1 + 719468 = era * 146097 + int (year_start (Suc y))" using z sS by simp
      have "year_start (Suc y) < year_start (Suc (Suc y))" using year_length [of "Suc y"] by simp
      moreover have "Suc y < 400" using F y(1) by simp
      moreover have "year_start (Suc y) < 146097"
        using calculation year_start_le [of "Suc (Suc y)"] by simp
      ultimately show ?thesis using civil_split [OF z', of "Suc y"] unfolding Y_def by (simp add: month_day_edges)
    qed
    then show ?thesis unfolding now' next_day_def by (simp add: days_in_month_def)
  qed
qed

end
