(* ===== verification/Core_Props.thy ===== *)
theory Core_Props
  imports Registry_Props Civil_Time Query_Cursor
begin

text \<open>
  Properties of the building blocks: timestamps, uids, cursors and the key ring.
\<close>

section \<open>Timestamps and uids\<close>

text \<open>
  the civil-from-days conversion is the Gregorian calendar: day 0 is 1 January 1970, and the
  date of every following day is the calendar's next date, over all integers.
\<close>

theorem civil_from_days_correct:
  "civil_from_days 0 = (1970, 1, 1) \<and> civil_from_days (z + 1) = next_day (civil_from_days z)"
proof -
  have "month_day (135080 - year_start 369) = (1, 1)" by (simp add: month_day_def year_start_def)
  then have "civil_from_days 0 = (1970, 1, 1)"
    using civil_split [of 0 4 135080 369] by (simp add: year_start_def)
  then show ?thesis using civil_next by blast
qed

text \<open>
  uids sort by creation time. Two uids generated in different milliseconds compare as their
  clocks do, whatever the counters and the random parts; the embedded millisecond and the
  hexadecimal text read back exactly.
\<close>

theorem uid_order_correct:
  assumes "length r = 10" and "length r' = 10" and "unat now div 1000 < unat now' div 1000"
    and "unat now' div 1000 < 2 ^ 48"
  shows "uid_generate now seq r < uid_generate now' seq' r' \<and>
    uid_timestamp_ms (uid_generate now' seq' r') = now' div 1000 \<and>
    uid_from_hex (uid_to_hex (uid_generate now' seq' r')) = Some (uid_generate now' seq' r')"
  using uid_generate_less [OF assms(1,2,4,3)] uid_generate_timestamp [OF assms(2,4)] uid_hex_roundtrip
  by blast

lemma uid_order_correct_witness:
  "uid_generate 1000 7 (replicate 10 255) < uid_generate 2000 3 (replicate 10 0) \<and>
   uid_timestamp_ms (uid_generate 2000 3 (replicate 10 0)) = 2"
  using uid_order_correct [of "replicate 10 255" "replicate 10 0" 1000 2000 7 3] by simp

section \<open>Cursors\<close>

text \<open>
  a pagination cursor decodes, under the order it was issued for, to the position it encodes;
  under the opposite order it is rejected; and no text decodes to a position outside 64 bits.
\<close>

theorem cursor_roundtrip:
  assumes "textcodec_ok U" and "fst pos < 2 ^ 64" and "snd pos < 2 ^ 64"
  shows "decode_cursor U (encode_cursor U order pos) order' =
      (if order' = order then Inr pos else Inl (InvalidCursor OppositeSortOrder)) \<and>
    (\<forall>cursor pos'. decode_cursor U cursor order = Inr pos' \<longrightarrow> fst pos' < 2 ^ 64 \<and> snd pos' < 2 ^ 64)"
  using decode_encode_cursor [OF assms] decode_cursor_position by blast

definition demo_textcodec :: textcodec where
  "demo_textcodec = \<lparr>u_encode = from_bytes, u_decode = (\<lambda>s. Some (as_bytes s))\<rparr>"

lemma cursor_roundtrip_witness:
  "decode_cursor demo_textcodec (encode_cursor demo_textcodec Desc (3, 41)) Desc = Inr (3, 41)"
proof -
  have "textcodec_ok demo_textcodec" by (simp add: textcodec_ok_def demo_textcodec_def)
  then show ?thesis using cursor_roundtrip [of demo_textcodec "(3, 41)" Desc Desc] by simp
qed

section \<open>Key rotation\<close>

text \<open>
  C24: a value encrypted under the active RSA key stays readable after any rotation that keeps the
  old keys: decryption under the later ring recovers its canonical bytes. After \<open>rewrap\<close> it is
  bound to the active version, with nonce and ciphertext untouched, and still decrypts to the same
  bytes.
\<close>

theorem encryption_survives_rotation:
  assumes "crypto_ok K" and "ring_ok K R" and "ring_ok K R'" and "ring_extends R R'" and "rnd_ok r"
    and "protect K N R r v PRsa = Inr s" and "can_sign R" and "can_sign R'"
    and "rewrap K R' pad s = Inr s'"
  shows "decrypt K R' s = Inr (canonical_bytes N v) \<and> decrypt K R' s' = Inr (canonical_bytes N v) \<and>
    (\<exists>wr wr' n c ver. s = Rsa ver wr n c \<and> s' = Rsa (the (active_rsa_version R')) wr' n c)"
proof -
  obtain ver where ver: "active_rsa_version R = Some ver" "has_rsa_private R ver"
    using assms(7) by (auto simp: can_sign_def split: option.splits)
  have d: "decrypt K R' s = Inr (canonical_bytes N v)"
    using decrypt_protect [OF assms(1,2,5,6,4) ver] .
  obtain v0 wr n c where s: "s = Rsa v0 wr n c" using d by (cases s) auto
  then show ?thesis
    using d rewrap_decrypt [OF assms(1,3,9) d assms(8)] rewrap_active_version [of K R' pad v0 wr n c s'] assms(9)
    by auto
qed

definition demo_ring3 :: key_ring where
  "demo_ring3 = demo_ring\<lparr>kr_rsa := [(1, \<lparr>rp_public = Some [9], rp_private = Some [9]\<rparr>),
     (2, \<lparr>rp_public = Some [8], rp_private = Some [8]\<rparr>)]\<rparr>"

lemma demo_ring3_facts: "ring_ok demo_crypto demo_ring3" "ring_extends demo_ring demo_ring3"
  "can_sign demo_ring" "can_sign demo_ring3"
  by (auto simp: ring_ok_def demo_ring_def demo_ring3_def demo_crypto_def bt_wf_Cons KEYLESS_def ring_extends_def
      map_le_def can_sign_def active_rsa_version_def last_key_def has_rsa_private_def split: if_splits)

lemma encryption_survives_rotation_witness:
  "\<exists>s s'. protect demo_crypto demo_text demo_ring (demo_rnd 0) (Text ''abc'') PRsa = Inr s \<and>
     rewrap demo_crypto demo_ring3 [] s = Inr s' \<and> decrypt demo_crypto demo_ring3 s' = Inr (as_bytes ''abc'')"
proof -
  let ?s = "Rsa 1 (b64_encode (replicate 32 1)) (b64_encode (replicate 12 2)) (b64_encode (as_bytes ''abc''))"
  let ?s' = "Rsa 2 (b64_encode (replicate 32 1)) (b64_encode (replicate 12 2)) (b64_encode (as_bytes ''abc''))"
  have p: "protect demo_crypto demo_text demo_ring (demo_rnd 0) (Text ''abc'') PRsa = Inr ?s"
    by (simp add: active_rsa_version_def last_key_def demo_ring_def rsa_public_of_def demo_crypto_def demo_rnd_def)
  have w: "rewrap demo_crypto demo_ring3 [] ?s = Inr ?s'"
    by (simp add: active_rsa_version_def last_key_def demo_ring_def demo_ring3_def rsa_public_of_def rsa_private_of_def
        demo_crypto_def)
  have "rnd_ok (demo_rnd 0)" by (simp add: rnd_ok_def demo_rnd_def)
  then show ?thesis
    using encryption_survives_rotation [OF demo_crypto_ok demo_ring_ok demo_ring3_facts(1,2) _ p demo_ring3_facts(3,4) w] p w
    by (metis canonical_bytes.simps(1))
qed

end
