(* ===== verification/Checkpoint.thy ===== *)
theory Checkpoint
  imports Key_Ring Segment
begin

text \<open>
  Signed integrity checkpoints and their file (\<open>crates/quipu-core/src/checkpoint.rs\<close>). The JSON
  text of one line (crate \<open>serde_json\<close>) is a codec parameter.
\<close>

definition CHECKPOINT_FILE :: string where "CHECKPOINT_FILE = ''checkpoints.log''"
definition WIRE_VERSION :: nat where "WIRE_VERSION = 1"
definition SIGNING_DOMAIN :: bytes where "SIGNING_DOMAIN = as_bytes ''quipu-checkpoint-v1'' @ [0]"

record checkpoint =
  cp_created_at :: u64
  cp_segment_seq :: nat
  cp_record_count :: nat
  cp_chain_head :: chain_hash
  cp_key_version :: u32
  cp_signature :: bytes

definition signing_bytes :: "u64 \<Rightarrow> nat \<Rightarrow> nat \<Rightarrow> chain_hash \<Rightarrow> bytes" where
  "signing_bytes created_at segment_seq record_count chain_head =
     SIGNING_DOMAIN @ le64 created_at @ le_bytes 8 segment_seq @ le_bytes 8 record_count @ chain_head"

definition checkpoint_sign ::
  "cryptoext \<Rightarrow> key_ring \<Rightarrow> u64 \<Rightarrow> nat \<Rightarrow> nat \<Rightarrow> chain_hash \<Rightarrow> checkpoint res" where
  "checkpoint_sign K R created_at segment_seq record_count chain_head =
     rbind (sign_data K R (signing_bytes created_at segment_seq record_count chain_head)) (\<lambda>(kv, sig).
       Inr \<lparr>cp_created_at = created_at, cp_segment_seq = segment_seq, cp_record_count = record_count,
            cp_chain_head = chain_head, cp_key_version = kv, cp_signature = sig\<rparr>)"

definition checkpoint_bytes :: "checkpoint \<Rightarrow> bytes" where
  "checkpoint_bytes cp =
     signing_bytes (cp_created_at cp) (cp_segment_seq cp) (cp_record_count cp) (cp_chain_head cp)"

definition checkpoint_verify :: "cryptoext \<Rightarrow> key_ring \<Rightarrow> checkpoint \<Rightarrow> unit res" where
  "checkpoint_verify K R cp =
     (case verify_signature K R (cp_key_version cp) (checkpoint_bytes cp) (cp_signature cp) of
        Inl e \<Rightarrow> Inl (Crypto CheckpointSignatureInvalid)
      | Inr u \<Rightarrow> Inr u)"

definition chain_head_hex :: "checkpoint \<Rightarrow> string" where
  "chain_head_hex cp = hex (cp_chain_head cp)"

section \<open>The line format\<close>

record wire =
  wi_v :: nat
  wi_created_at :: u64
  wi_segment_seq :: nat
  wi_record_count :: nat
  wi_chain_head :: string
  wi_key_version :: u32
  wi_signature :: string

text \<open>
  \<open>serde_json::to_string\<close> and \<open>from_str\<close> for \<open>Wire\<close>, the default of a missing \<open>key_version\<close>
  included.
\<close>

record wire_codec =
  wc_ser :: "wire \<Rightarrow> string res"
  wc_de :: "string \<Rightarrow> wire option"

definition newline :: char where "newline = CHR 0x0A"
definition carriage :: char where "carriage = CHR 0x0D"

text \<open>
  Documented facts: JSON is printed without line breaks and with no character of its own outside
  ASCII, and it parses back.
\<close>

definition wire_codec_ok :: "wire_codec \<Rightarrow> bool" where
  "wire_codec_ok J \<longleftrightarrow> (\<forall>w s. wc_ser J w = Inr s \<longrightarrow>
     wc_de J s = Some w \<and> s \<noteq> [] \<and> newline \<notin> set s \<and> carriage \<notin> set s \<and>
     (ascii (wi_chain_head w) \<and> ascii (wi_signature w) \<longrightarrow> ascii s))"

definition to_wire :: "checkpoint \<Rightarrow> wire" where
  "to_wire cp = \<lparr>wi_v = WIRE_VERSION, wi_created_at = cp_created_at cp, wi_segment_seq = cp_segment_seq cp,
     wi_record_count = cp_record_count cp, wi_chain_head = hex (cp_chain_head cp),
     wi_key_version = cp_key_version cp, wi_signature = b64_encode (cp_signature cp)\<rparr>"

definition parse_line :: "wire_codec \<Rightarrow> string \<Rightarrow> checkpoint option" where
  "parse_line J line =
     (case wc_de J line of
        None \<Rightarrow> None
      | Some wi \<Rightarrow>
          if wi_v wi \<noteq> WIRE_VERSION then None
          else case hex_decode (wi_chain_head wi) of
                 None \<Rightarrow> None
               | Some head \<Rightarrow>
                   if length head \<noteq> 32 then None
                   else map_option (\<lambda>sig.
                     \<lparr>cp_created_at = wi_created_at wi, cp_segment_seq = wi_segment_seq wi,
                      cp_record_count = wi_record_count wi, cp_chain_head = head,
                      cp_key_version = wi_key_version wi, cp_signature = sig\<rparr>) (b64_decode (wi_signature wi)))"

section \<open>The checkpoint file\<close>

text \<open>\<open>str::lines\<close>.\<close>

definition strip_cr :: "string \<Rightarrow> string" where
  "strip_cr l = (if l \<noteq> [] \<and> last l = carriage then butlast l else l)"

fun lines_go :: "string \<Rightarrow> string \<Rightarrow> string list" where
  "lines_go cur [] = (if cur = [] then [] else [cur])"
| "lines_go cur (c # cs) =
     (if c = newline then strip_cr cur # lines_go [] cs else lines_go (cur @ [c]) cs)"

definition lines_of :: "string \<Rightarrow> string list" where
  "lines_of s = lines_go [] s"

definition checkpoint_path :: "path \<Rightarrow> path" where
  "checkpoint_path root = root @ [CHECKPOINT_FILE]"

definition checkpoint_append :: "wire_codec \<Rightarrow> path \<Rightarrow> checkpoint \<Rightarrow> (fs, error, unit) sop" where
  "checkpoint_append J root cp =
     seqE (liftE (wc_ser J (to_wire cp))) (\<lambda>line.
     seqE (fs_open_create (checkpoint_path root)) (\<lambda>_.
     seqE (fs_append_all (checkpoint_path root) (as_bytes (line @ [newline]))) (\<lambda>_.
     fs_sync (checkpoint_path root))))"

fun read_lines :: "wire_codec \<Rightarrow> path \<Rightarrow> nat \<Rightarrow> string list \<Rightarrow> checkpoint list res" where
  "read_lines J p i [] = Inr []"
| "read_lines J p i (l # ls) =
     (case parse_line J l of
        Some cp \<Rightarrow> rbind (read_lines J p (Suc i) ls) (\<lambda>cps. Inr (cp # cps))
      | None \<Rightarrow> if ls = [] then Inr [] else Inl (Corrupt p i BadCheckpointLine))"

definition checkpoint_read_all :: "wire_codec \<Rightarrow> path \<Rightarrow> fs \<Rightarrow> checkpoint list res" where
  "checkpoint_read_all J root w =
     (case fget w (checkpoint_path root) of
        None \<Rightarrow> Inr []
      | Some bs \<Rightarrow>
          if utf8_valid bs then read_lines J (checkpoint_path root) 0 (lines_of (from_bytes bs))
          else Inl (Io (IoError KInvalidData None)))"

section \<open>Facts\<close>

lemma signing_bytes_inject:
  assumes "signing_bytes a b c h = signing_bytes a' b' c' h'"
    and "b < 2 ^ 64" "c < 2 ^ 64" "b' < 2 ^ 64" "c' < 2 ^ 64"
  shows "a = a' \<and> b = b' \<and> c = c' \<and> h = h'"
proof -
  have e: "le64 a @ le_bytes 8 b @ le_bytes 8 c @ h = le64 a' @ le_bytes 8 b' @ le_bytes 8 c' @ h'"
    using assms(1) by (simp add: signing_bytes_def)
  then have 1: "le64 a = le64 a'" and "le_bytes 8 b @ le_bytes 8 c @ h = le_bytes 8 b' @ le_bytes 8 c' @ h'"
    by (simp_all add: append_eq_append_conv)
  then have 2: "le_bytes 8 b = le_bytes 8 b'" "le_bytes 8 c = le_bytes 8 c'" "h = h'"
    by (simp_all add: append_eq_append_conv)
  have "b mod 256 ^ 8 = b' mod 256 ^ 8" "c mod 256 ^ 8 = c' mod 256 ^ 8"
    using 2(1,2) by (metis le_nat_le_bytes)+
  then show ?thesis using 1 2(3) assms(2-5) by simp
qed

lemma ascii_ALPHABET: "ascii ALPHABET"
  by (simp add: ALPHABET_def)

lemma ascii_b64_char: "(of_char (b64_char k) :: nat) < 128"
proof -
  have "k mod 64 < length ALPHABET" by (simp add: ALPHABET_def)
  then show ?thesis using ascii_ALPHABET by (simp add: ascii_def list_all_length b64_char_def)
qed

lemma ascii_b64: "ascii (b64_encode bs)"
  by (induction bs rule: b64_encode.induct) (simp_all add: Let_def ascii_b64_char)

lemma ascii_hex: "ascii (hex bs)"
proof -
  have c: "n < 16 \<Longrightarrow> (of_char (hex_char n) :: nat) < 128" for n
    by (simp add: hex_char_def of_char_of)
  have "ascii (hex_digits k n)" for k n
    by (induction k arbitrary: n) (simp_all add: c)
  then show ?thesis by (simp add: hex_def ascii_concat list_all_iff)
qed

lemma parse_to_wire:
  assumes "wire_codec_ok J" and "wc_ser J (to_wire cp) = Inr l" and "length (cp_chain_head cp) = 32"
  shows "parse_line J l = Some cp"
  using assms by (simp add: parse_line_def wire_codec_ok_def) (simp add: to_wire_def hex_decode_hex b64_roundtrip)

definition cp_line :: "wire_codec \<Rightarrow> checkpoint \<Rightarrow> string \<Rightarrow> bool" where
  "cp_line J cp l \<longleftrightarrow> wc_ser J (to_wire cp) = Inr l \<and> length (cp_chain_head cp) = 32"

definition cp_text :: "string list \<Rightarrow> string" where
  "cp_text ls = concat (map (\<lambda>l. l @ [newline]) ls)"

lemma lines_go_text:
  "newline \<notin> set l \<Longrightarrow> lines_go cur (l @ s) = lines_go (cur @ l) s"
  by (induction l arbitrary: cur) auto

lemma lines_go_line:
  "newline \<notin> set l \<Longrightarrow> carriage \<notin> set l \<Longrightarrow> lines_go [] (l @ newline # s) = l # lines_go [] s"
proof -
  assume a: "newline \<notin> set l" "carriage \<notin> set l"
  have "l \<noteq> [] \<Longrightarrow> last l \<noteq> carriage" using a(2) last_in_set by metis
  then have "strip_cr l = l" by (auto simp: strip_cr_def)
  then show ?thesis using lines_go_text [OF a(1), of "[]"] by simp
qed

lemma lines_of_text:
  assumes "\<forall>l \<in> set ls. newline \<notin> set l \<and> carriage \<notin> set l" and "newline \<notin> set t"
  shows "lines_of (cp_text ls @ t) = ls @ (if t = [] then [] else [t])"
  using assms(1)
proof (induction ls)
  case Nil
  then show ?case using lines_go_text [OF assms(2), of "[]" "[]"] by (simp add: lines_of_def cp_text_def)
next
  case (Cons l ls)
  then show ?case by (simp add: lines_of_def cp_text_def lines_go_line)
qed

lemma read_lines_cps:
  assumes "wire_codec_ok J" and "list_all2 (cp_line J) cps ls" and "rest = [] \<or> (\<exists>t. rest = [t] \<and> parse_line J t = None)"
  shows "read_lines J p i (ls @ rest) = Inr cps"
  using assms(2)
proof (induction arbitrary: i rule: list_all2_induct)
  case Nil
  then show ?case using assms(3) by auto
next
  case (Cons cp cps l ls)
  then have "parse_line J l = Some cp" using parse_to_wire [OF assms(1)] by (simp add: cp_line_def)
  then show ?case using Cons by simp
qed

lemma read_lines_bad_middle:
  assumes "wire_codec_ok J" and "list_all2 (cp_line J) cps ls" and "parse_line J t = None" and "rest \<noteq> []"
  shows "read_lines J p i (ls @ t # rest) = Inl (Corrupt p (i + length ls) BadCheckpointLine)"
  using assms(2)
proof (induction arbitrary: i rule: list_all2_induct)
  case Nil
  then show ?case using assms(3,4) by simp
next
  case (Cons cp cps l ls)
  then have "parse_line J l = Some cp" using parse_to_wire [OF assms(1)] by (simp add: cp_line_def)
  then show ?case using Cons by simp
qed

lemma cp_line_ascii: "wire_codec_ok J \<Longrightarrow> cp_line J cp l \<Longrightarrow> ascii l"
  using ascii_hex [of "cp_chain_head cp"] ascii_b64 [of "cp_signature cp"]
  by (auto simp: cp_line_def wire_codec_ok_def to_wire_def)

lemma cp_text_ascii:
  assumes "wire_codec_ok J" and "list_all2 (cp_line J) cps ls"
  shows "ascii (cp_text ls)"
proof -
  have "list_all ascii ls"
    using assms(2) cp_line_ascii [OF assms(1)] by (auto simp: list_all2_conv_all_nth list_all_length)
  then show ?thesis by (simp add: cp_text_def ascii_concat list_all_iff newline_def)
qed

text \<open>The file holds the lines of \<open>cps\<close> and, after a crash, a torn tail.\<close>

definition cp_file :: "wire_codec \<Rightarrow> path \<Rightarrow> checkpoint list \<Rightarrow> string \<Rightarrow> fs \<Rightarrow> bool" where
  "cp_file J root cps t w \<longleftrightarrow> (\<exists>ls. list_all2 (cp_line J) cps ls \<and> newline \<notin> set t \<and> carriage \<notin> set t \<and> ascii t \<and>
     (fget w (checkpoint_path root) = Some (as_bytes (cp_text ls @ t)) \<or>
      (fget w (checkpoint_path root) = None \<and> cps = [] \<and> t = [])))"

lemma cp_lines_plain: "wire_codec_ok J \<Longrightarrow> list_all2 (cp_line J) cps ls \<Longrightarrow>
    \<forall>l \<in> set ls. newline \<notin> set l \<and> carriage \<notin> set l"
  by (auto simp: list_all2_conv_all_nth in_set_conv_nth cp_line_def wire_codec_ok_def) blast+

lemma cp_file_read:
  assumes J: "wire_codec_ok J" and f: "cp_file J root cps t w" and t: "t = [] \<or> parse_line J t = None"
  shows "checkpoint_read_all J root w = Inr cps"
proof -
  obtain ls where ls: "list_all2 (cp_line J) cps ls" "newline \<notin> set t" "ascii t" and
    c: "fget w (checkpoint_path root) = Some (as_bytes (cp_text ls @ t)) \<or>
      (fget w (checkpoint_path root) = None \<and> cps = [] \<and> t = [])" using f unfolding cp_file_def by blast
  have "read_lines J (checkpoint_path root) 0 (ls @ (if t = [] then [] else [t])) = Inr cps"
    by (rule read_lines_cps [OF J ls(1)]) (use t in auto)
  moreover have "utf8_valid (as_bytes (cp_text ls @ t))"
    using cp_text_ascii [OF J ls(1)] ls(3) by (intro utf8_valid_ascii) simp
  ultimately show ?thesis using c lines_of_text [OF cp_lines_plain [OF J ls(1)] ls(2)]
    by (auto simp: checkpoint_read_all_def)
qed

lemma checkpoint_append_quiet:
  assumes q: "quiet w" and l: "wc_ser J (to_wire cp) = Inr l"
  shows "checkpoint_append J root cp w = (Inr (), fput (checkpoint_path root)
     ((case fget w (checkpoint_path root) of None \<Rightarrow> [] | Some c \<Rightarrow> c) @ as_bytes (l @ [newline])) 
       (case fget w (checkpoint_path root) of None \<Rightarrow> fput (checkpoint_path root) [] w | Some c \<Rightarrow> w))"
  using q by (auto simp: checkpoint_append_def l seqE_def fs_open_create_def fs_append_all_def fs_append_raw_quiet
      fs_sync_def split: option.splits)

lemma cp_text_snoc: "cp_text (ls @ [l]) = cp_text ls @ l @ [newline]"
  by (simp add: cp_text_def)

lemma cp_file_append:
  assumes J: "wire_codec_ok J" and q: "quiet w" and f: "cp_file J root cps [] w"
    and len: "length (cp_chain_head cp) = 32" and run: "checkpoint_append J root cp w = (r, w')"
  shows "case r of Inl e \<Rightarrow> wc_ser J (to_wire cp) = Inl e \<and> w' = w
    | Inr _ \<Rightarrow> cp_file J root (cps @ [cp]) [] w' \<and> quiet w'"
proof (cases "wc_ser J (to_wire cp)")
  case (Inl e)
  then show ?thesis using run by (simp add: checkpoint_append_def seqE_def) auto
next
  case (Inr l)
  obtain ls where ls: "list_all2 (cp_line J) cps ls" and
    c: "fget w (checkpoint_path root) = Some (as_bytes (cp_text ls)) \<or>
      (fget w (checkpoint_path root) = None \<and> cps = [])" using f unfolding cp_file_def by auto
  have all: "list_all2 (cp_line J) (cps @ [cp]) (ls @ [l])"
    using ls Inr len by (simp add: list_all2_appendI cp_line_def)
  note A = checkpoint_append_quiet [OF q Inr, of root]
  have "fget w' (checkpoint_path root) = Some (as_bytes (cp_text (ls @ [l])))"
    using c ls run A by (auto simp: cp_text_snoc as_bytes_append) (auto simp: cp_text_def as_bytes_def)
  then have "cp_file J root (cps @ [cp]) [] w'" using all unfolding cp_file_def by auto
  moreover have "quiet w'" using A run q by (auto split: option.splits)
  ultimately show ?thesis using A run by auto
qed

text \<open>Appending behind a torn tail glues the new line to it.\<close>

lemma cp_file_append_torn:
  assumes q: "quiet w" and ls: "list_all2 (cp_line J) cps ls"
    and c: "fget w (checkpoint_path root) = Some (as_bytes (cp_text ls @ t))"
    and l: "wc_ser J (to_wire cp) = Inr l"
  shows "\<exists>w'. checkpoint_append J root cp w = (Inr (), w') \<and> quiet w' \<and>
    fget w' (checkpoint_path root) = Some (as_bytes (cp_text (ls @ [t @ l])))"
  using q c checkpoint_append_quiet [OF q l, of root]
  by (simp add: cp_text_snoc as_bytes_append)

text \<open>A crash in the middle of a later append leaves a torn tail, which \<open>read_all\<close> skips.\<close>

lemma cp_file_torn_read:
  assumes J: "wire_codec_ok J" and f: "cp_file J root cps [] w"
    and t: "newline \<notin> set t" "carriage \<notin> set t" "ascii t" "parse_line J t = None"
    and c: "fget w (checkpoint_path root) = Some bs"
  shows "checkpoint_read_all J root (fput (checkpoint_path root) (bs @ as_bytes t) w) = Inr cps"
proof -
  obtain ls where "list_all2 (cp_line J) cps ls" "bs = as_bytes (cp_text ls)"
    using f c unfolding cp_file_def by auto
  then have "cp_file J root cps t (fput (checkpoint_path root) (bs @ as_bytes t) w)"
    using t unfolding cp_file_def by (auto simp: as_bytes_append)
  then show ?thesis using cp_file_read [OF J] t(4) by blast
qed

lemma checkpoint_torn_append:
  assumes J: "wire_codec_ok J" and q: "quiet w" and f: "cp_file J root cps t w" and t: "t \<noteq> []"
    and l: "cp_line J cp l" "cp_line J cp2 l2" and bad: "wc_de J (t @ l) = None"
  shows "\<exists>w1 w2. checkpoint_append J root cp w = (Inr (), w1) \<and> checkpoint_read_all J root w1 = Inr cps \<and>
    checkpoint_append J root cp2 w1 = (Inr (), w2) \<and>
    checkpoint_read_all J root w2 = Inl (Corrupt (checkpoint_path root) (length cps) BadCheckpointLine)"
proof -
  obtain ls where ls: "list_all2 (cp_line J) cps ls" "newline \<notin> set t" "carriage \<notin> set t" "ascii t"
    and c: "fget w (checkpoint_path root) = Some (as_bytes (cp_text ls @ t))"
    using f t unfolding cp_file_def by auto
  have ser: "wc_ser J (to_wire cp) = Inr l" "wc_ser J (to_wire cp2) = Inr l2"
    using l by (simp_all add: cp_line_def)
  have plain: "newline \<notin> set x \<and> carriage \<notin> set x \<and> ascii x" if "cp_line J y x" for x y
    using that J cp_line_ascii [OF J that] by (auto simp: cp_line_def wire_codec_ok_def)
  obtain w1 where w1: "checkpoint_append J root cp w = (Inr (), w1)" "quiet w1"
    "fget w1 (checkpoint_path root) = Some (as_bytes (cp_text (ls @ [t @ l])))"
    using cp_file_append_torn [OF q ls(1) c ser(1)] by blast
  obtain w2 where w2: "checkpoint_append J root cp2 w1 = (Inr (), w2)"
    "fget w2 (checkpoint_path root) = Some (as_bytes (cp_text (ls @ [t @ l] @ [l2])))"
    using checkpoint_append_quiet [OF w1(2) ser(2), of root] w1(3) by (simp add: cp_text_def as_bytes_def)
  have pl: "parse_line J (t @ l) = None" using bad by (simp add: parse_line_def)
  have flat: "\<forall>x \<in> set (ls @ [t @ l] @ [l2]). newline \<notin> set x \<and> carriage \<notin> set x"
    using cp_lines_plain [OF J ls(1)] plain [OF l(1)] plain [OF l(2)] ls(2,3) by auto
  have asc: "ascii (cp_text (ls @ [t @ l] @ [l2]))"
    using cp_text_ascii [OF J ls(1)] plain [OF l(1)] plain [OF l(2)] ls(4)
    by (simp add: cp_text_def newline_def)
  have "lines_of (cp_text (ls @ [t @ l])) = ls @ [t @ l]" and "lines_of (cp_text (ls @ [t @ l] @ [l2])) = ls @ [t @ l] @ [l2]"
    using lines_of_text [of "ls @ [t @ l]" "[]"] lines_of_text [of "ls @ [t @ l] @ [l2]" "[]"] flat by simp_all
  moreover have "utf8_valid (as_bytes (cp_text (ls @ [t @ l])))" "utf8_valid (as_bytes (cp_text (ls @ [t @ l] @ [l2])))"
    using asc by (auto intro!: utf8_valid_ascii simp: cp_text_def)
  moreover have "read_lines J (checkpoint_path root) 0 (ls @ [t @ l]) = Inr cps"
    using read_lines_cps [OF J ls(1)] pl by blast
  moreover have "read_lines J (checkpoint_path root) 0 (ls @ [t @ l] @ [l2])
      = Inl (Corrupt (checkpoint_path root) (length cps) BadCheckpointLine)"
    using read_lines_bad_middle [OF J ls(1) pl, of "[l2]"] list_all2_lengthD [OF ls(1)] by simp
  ultimately show ?thesis using w1 w2 by (simp add: checkpoint_read_all_def)
qed

end
