(* ===== verification/Retention_Policy.thy ===== *)
theory Retention_Policy
  imports Quipu_Prelude
begin

text \<open>
  Retention limits (\<open>crates/quipu-core/src/retention.rs\<close>). A \<open>Duration\<close> is its number of
  microseconds (a natural number, up to about \<open>2 ^ 84\<close>); \<open>as_micros() as u64\<close> cuts it to 64 bits.
\<close>

record retention_policy =
  rt_max_age :: "nat option"
  rt_max_bytes :: "nat option"

definition keep_forever :: retention_policy where
  "keep_forever = \<lparr>rt_max_age = None, rt_max_bytes = None\<rparr>"

definition keep_for :: "nat \<Rightarrow> retention_policy" where
  "keep_for d = \<lparr>rt_max_age = Some d, rt_max_bytes = None\<rparr>"

text \<open>\<open>days * 86_400\<close> in \<open>u64\<close>: wraps in a release build.\<close>

definition keep_days :: "u64 \<Rightarrow> retention_policy" where
  "keep_days days = keep_for (unat (days * 86400) * 1000000)"

definition with_max_bytes :: "nat \<Rightarrow> retention_policy \<Rightarrow> retention_policy" where
  "with_max_bytes n p = p\<lparr>rt_max_bytes := Some n\<rparr>"

definition saturating_sub :: "u64 \<Rightarrow> u64 \<Rightarrow> u64" where
  "saturating_sub a b = (if b \<le> a then a - b else 0)"

definition cutoff_micros :: "retention_policy \<Rightarrow> u64 \<Rightarrow> u64 option" where
  "cutoff_micros p now = map_option (\<lambda>d. saturating_sub now (word_of_nat d)) (rt_max_age p)"

lemma unat_saturating_sub: "unat (saturating_sub a b) = unat a - unat b"
  by (simp add: saturating_sub_def unat_sub_if_size word_le_nat_alt)

lemma cutoff_in_range:
  assumes "rt_max_age p = Some d" and "d < 2 ^ 64"
  shows "\<exists>c. cutoff_micros p now = Some c \<and> unat c = unat now - d"
  using assms by (simp add: cutoff_micros_def unat_saturating_sub unat_of_nat)

text \<open>A duration that is a multiple of \<open>2 ^ 64\<close> microseconds is cut to nothing: everything is too old.\<close>

lemma cutoff_wraps:
  assumes "rt_max_age p = Some (k * 2 ^ 64)"
  shows "cutoff_micros p now = Some now"
proof -
  have "(word_of_nat (k * 2 ^ 64) :: u64) = 0"
    by (subst word_of_nat_eq_0_iff) simp
  then show ?thesis using assms by (simp add: cutoff_micros_def saturating_sub_def)
qed

lemma cutoff_general:
  "cutoff_micros p now = map_option (\<lambda>d. word_of_nat (unat now - d mod 2 ^ 64)) (rt_max_age p)"
proof (cases "rt_max_age p")
  case (Some d)
  have "saturating_sub now (word_of_nat d) = word_of_nat (unat (saturating_sub now (word_of_nat d)))" by simp
  also have "\<dots> = word_of_nat (unat now - d mod 2 ^ 64)" by (simp only: unat_saturating_sub) (simp add: unat_of_nat)
  finally show ?thesis using Some by (simp add: cutoff_micros_def)
qed (simp add: cutoff_micros_def)

lemma cutoff_days:
  assumes "unat days \<le> 213503982"
  shows "cutoff_micros (keep_days days) now = Some (word_of_nat (unat now - unat days * 86400000000))"
proof -
  have "unat (days * 86400) = unat days * 86400"
    using assms by (simp add: unat_word_ariths)
  then have d: "unat (days * 86400) * 1000000 = unat days * 86400000000" by simp
  have "unat days * 86400000000 < 2 ^ 64" using assms by simp
  then have "unat days * 86400000000 mod 2 ^ 64 = unat days * 86400000000" by (rule mod_less)
  then show ?thesis using cutoff_general [of "keep_days days" now] d
    by (simp only: keep_days_def keep_for_def retention_policy.simps option.map)
qed

end
