(* ===== verification/Access_Log.thy ===== *)
theory Access_Log
  imports Model
begin

text \<open>
  The access log's rows, filter and query summaries (\<open>crates/quipu-core/src/access.rs\<close>).
  A summary is built as a JSON object (an ordered map); printing it (\<open>serde_json\<close>) is a parameter.
\<close>

definition RESERVED_TYPE_PREFIX :: string where "RESERVED_TYPE_PREFIX = ''quipu_''"
definition ACCESS_TYPE :: string where "ACCESS_TYPE = ''quipu_access''"

record access_record =
  ac_id :: uid
  ac_timestamp :: u64
  ac_actor :: string
  ac_operation :: string
  ac_params :: string
  ac_result_count :: "nat option"

definition access_new :: "uid \<Rightarrow> u64 \<Rightarrow> string \<Rightarrow> string \<Rightarrow> string \<Rightarrow> nat option \<Rightarrow> access_record" where
  "access_new u now actor operation params count =
     \<lparr>ac_id = u, ac_timestamp = now, ac_actor = actor, ac_operation = operation, ac_params = params,
      ac_result_count = count\<rparr>"

definition access_at :: "u64 \<Rightarrow> access_record \<Rightarrow> access_record" where
  "access_at t rec = rec\<lparr>ac_timestamp := t\<rparr>"

record access_query =
  aq_from_micros :: "u64 option"
  aq_to_micros :: "u64 option"
  aq_actor :: "string option"
  aq_operation :: "string option"
  aq_limit :: "nat option"

definition access_matches :: "access_query \<Rightarrow> access_record \<Rightarrow> bool" where
  "access_matches q rec =
     (if (case aq_from_micros q of Some a \<Rightarrow> ac_timestamp rec < a | None \<Rightarrow> False) then False
      else if (case aq_to_micros q of Some b \<Rightarrow> ac_timestamp rec > b | None \<Rightarrow> False) then False
      else if (case aq_actor q of Some a \<Rightarrow> a \<noteq> ac_actor rec | None \<Rightarrow> False) then False
      else if (case aq_operation q of Some a \<Rightarrow> a \<noteq> ac_operation rec | None \<Rightarrow> False) then False
      else True)"

section \<open>Summaries\<close>

text \<open>\<open>serde_json::Value\<close>; a parsed document is \<open>JValue\<close> of its text.\<close>

datatype json = JNull | JString string | JNumber nat | JBool bool | JMode match_mode | JArray "json list"
  | JObject "(string \<times> json) list" | JValue string

definition json_insert :: "string \<Rightarrow> json option \<Rightarrow> (string \<times> json) list \<Rightarrow> (string \<times> json) list" where
  "json_insert k v m = (case v of None \<Rightarrow> m | Some j \<Rightarrow> bt_insert k j m)"

definition filter_shape :: "target_filter \<Rightarrow> json" where
  "filter_shape f = JObject [(''entity_type'', JString (tf_entity_type f)), (''field'', JString (tf_field f)),
     (''include_past'', JBool (tf_include_past f)), (''mode'', JMode (tf_mode f))]"

definition summary_fields :: "log_query \<Rightarrow> (string \<times> json) list" where
  "summary_fields q =
     json_insert ''limit'' (map_option JNumber (q_limit q))
     (json_insert ''custom_keys'' (if q_custom q = [] then None else Some (JArray (map (JString \<circ> fst) (q_custom q))))
     (json_insert ''target_filters'' (if q_targets q = [] then None else Some (JArray (map filter_shape (q_targets q))))
     (json_insert ''actor_filter'' (map_option filter_shape (q_actor q))
     (json_insert ''url_prefix'' (map_option JString (q_url_prefix q))
     (json_insert ''method'' (map_option JString (q_method q))
     (json_insert ''to_micros'' (map_option (JNumber \<circ> unat) (q_to_micros q))
     (json_insert ''from_micros'' (map_option (JNumber \<circ> unat) (q_from_micros q)) [])))))))"

definition summarize_log_query :: "(json \<Rightarrow> string) \<Rightarrow> log_query \<Rightarrow> string" where
  "summarize_log_query pr q = pr (JObject (summary_fields q))"

definition access_summary_fields :: "access_query \<Rightarrow> (string \<times> json) list" where
  "access_summary_fields q =
     json_insert ''limit'' (map_option JNumber (aq_limit q))
     (json_insert ''operation'' (map_option JString (aq_operation q))
     (json_insert ''actor'' (map_option JString (aq_actor q))
     (json_insert ''to_micros'' (map_option (JNumber \<circ> unat) (aq_to_micros q))
     (json_insert ''from_micros'' (map_option (JNumber \<circ> unat) (aq_from_micros q)) []))))"

definition summarize_access_query :: "(json \<Rightarrow> string) \<Rightarrow> access_query \<Rightarrow> string" where
  "summarize_access_query pr q = pr (JObject (access_summary_fields q))"

section \<open>Facts\<close>

lemma access_matches_iff:
  "access_matches q rec \<longleftrightarrow>
     (\<forall>a. aq_from_micros q = Some a \<longrightarrow> a \<le> ac_timestamp rec) \<and>
     (\<forall>b. aq_to_micros q = Some b \<longrightarrow> ac_timestamp rec \<le> b) \<and>
     (\<forall>a. aq_actor q = Some a \<longrightarrow> a = ac_actor rec) \<and>
     (\<forall>a. aq_operation q = Some a \<longrightarrow> a = ac_operation rec)"
  by (auto simp: access_matches_def not_less split: option.splits)

text \<open>Queries that differ only in what they probe for: filter values and custom-column values.\<close>

definition same_filter_shape :: "target_filter \<Rightarrow> target_filter \<Rightarrow> bool" where
  "same_filter_shape f g \<longleftrightarrow> f\<lparr>tf_value := Text []\<rparr> = g\<lparr>tf_value := Text []\<rparr>"

definition same_query_shape :: "log_query \<Rightarrow> log_query \<Rightarrow> bool" where
  "same_query_shape q p \<longleftrightarrow>
     q_from_micros q = q_from_micros p \<and> q_to_micros q = q_to_micros p \<and> q_method q = q_method p \<and>
     q_url_prefix q = q_url_prefix p \<and> q_limit q = q_limit p \<and>
     rel_option same_filter_shape (q_actor q) (q_actor p) \<and>
     list_all2 same_filter_shape (q_targets q) (q_targets p) \<and>
     map fst (q_custom q) = map fst (q_custom p)"

lemma filter_shape_eq: "same_filter_shape f g \<Longrightarrow> filter_shape f = filter_shape g"
  by (cases f; cases g) (simp add: same_filter_shape_def filter_shape_def)

lemma summary_shape:
  assumes "same_query_shape q p"
  shows "summary_fields q = summary_fields p"
proof -
  have a: "map_option filter_shape (q_actor q) = map_option filter_shape (q_actor p)"
    using assms by (auto simp: same_query_shape_def option_rel_Some1 rel_option_iff filter_shape_eq split: option.splits)
  have l2: "list_all2 same_filter_shape (q_targets q) (q_targets p)" using assms by (simp add: same_query_shape_def)
  then have t: "map filter_shape (q_targets q) = map filter_shape (q_targets p)"
    by (induction rule: list_all2_induct) (simp_all add: filter_shape_eq)
  have e: "q_targets q = [] \<longleftrightarrow> q_targets p = []" using l2 by auto
  have c: "map (JString \<circ> fst) (q_custom q) = map (JString \<circ> fst) (q_custom p)"
    using assms unfolding same_query_shape_def by (metis map_map)
  have ce: "q_custom q = [] \<longleftrightarrow> q_custom p = []" using assms unfolding same_query_shape_def by (metis map_is_Nil_conv)
  show ?thesis using assms unfolding summary_fields_def a t c e ce by (simp add: same_query_shape_def)
qed

section \<open>What the code uses of HTTP and JSON\<close>

text \<open>
  What the code uses of the crates \<open>http\<close> and \<open>serde_json\<close>: the lookup in a header map, the text of a
  header value, the path of a URI, parsing and printing JSON. They are parameters of the model.
\<close>

type_synonym headers = "(string \<times> bytes) list"

record httpext =
  hx_get :: "headers \<Rightarrow> string \<Rightarrow> bytes option" \<comment> \<open>\<open>HeaderMap::get\<close>\<close>
  hx_to_str :: "bytes \<Rightarrow> string option" \<comment> \<open>\<open>HeaderValue::to_str\<close>\<close>
  hx_path :: "string \<Rightarrow> string" \<comment> \<open>\<open>Uri::path\<close>\<close>
  hx_json_parse :: "bytes \<Rightarrow> json option" \<comment> \<open>\<open>serde_json::from_slice\<close>\<close>
  hx_json_print :: "json \<Rightarrow> string"

text \<open>The text of a header, when it is there and is text.\<close>

definition header_str :: "httpext \<Rightarrow> headers \<Rightarrow> string \<Rightarrow> string option" where
  "header_str H hs name = Option.bind (hx_get H hs name) (hx_to_str H)"

end
