(* ===== verification/Audit_Props.thy ===== *)
theory Audit_Props
  imports Core_Props Checkpoint Retention_Policy Access_Log
begin

text \<open>
  Properties of checkpoints, retention limits and the access log's summaries.
\<close>

section \<open>Checkpoints\<close>


definition demo_cp :: checkpoint where
  "demo_cp = \<lparr>cp_created_at = 1, cp_segment_seq = 2, cp_record_count = 3, cp_chain_head = replicate 32 7,
     cp_key_version = 1, cp_signature = [9] @ signing_bytes 1 2 3 (replicate 32 7)\<rparr>"

definition demo_wire_codec :: wire_codec where
  "demo_wire_codec = \<lparr>wc_ser = (\<lambda>x. if x = to_wire demo_cp then Inr ''a'' else Inl (Encode (CodecFailed ''wire''))),
     wc_de = (\<lambda>s. if s = ''a'' then Some (to_wire demo_cp) else None)\<rparr>"

definition empty_fs :: fs where
  "empty_fs = \<lparr>fs_files = [], fs_dirs = [], fs_faults = []\<rparr>"

lemma demo_wire_codec_ok: "wire_codec_ok demo_wire_codec"
  by (simp add: wire_codec_ok_def demo_wire_codec_def newline_def carriage_def)

lemma demo_cp_signed: "checkpoint_sign demo_crypto demo_ring 1 2 3 (replicate 32 7) = Inr demo_cp"
  by (simp add: checkpoint_sign_def sign_data_def active_rsa_version_def last_key_def demo_ring_def rsa_private_of_def
      demo_crypto_def demo_cp_def)

lemma empty_cp_file: "cp_file J root [] [] empty_fs" "quiet empty_fs"
  by (simp_all add: cp_file_def empty_fs_def fget_def quiet_def)


text \<open>
  a checkpoint appended after a crash that left a torn last line is lost, although \<open>append\<close>
  succeeds and syncs: the new line is glued to the torn one. \<open>read_all\<close> skips it as a torn tail, and
  once one more checkpoint is appended, \<open>read_all\<close> fails with a corruption error.
\<close>

theorem checkpoint_after_torn_tail_is_lost:
  assumes "wire_codec_ok J" and "quiet w" and "cp_file J root cps t w" and "t \<noteq> []"
    and "length (cp_chain_head cp) = 32" and "length (cp_chain_head cp2) = 32" and "wc_ser J (to_wire cp) = Inr l" and "wc_ser J (to_wire cp2) = Inr l2"
    and "wc_de J (t @ l) = None"
  shows "\<exists>w1 w2. checkpoint_append J root cp w = (Inr (), w1) \<and> checkpoint_read_all J root w1 = Inr cps \<and>
    checkpoint_append J root cp2 w1 = (Inr (), w2) \<and>
    checkpoint_read_all J root w2 = Inl (Corrupt (checkpoint_path root) (length cps) BadCheckpointLine)"
  using checkpoint_torn_append [OF assms(1-4) _ _ assms(9), of cp cp2 l2] assms(5-8) by (simp add: cp_line_def)

lemma checkpoint_after_torn_tail_is_lost_witness:
  "\<exists>w1 w2. checkpoint_append demo_wire_codec [''s''] demo_cp (fput [''s'', ''checkpoints.log''] (as_bytes ''b'') empty_fs) = (Inr (), w1) \<and>
     checkpoint_read_all demo_wire_codec [''s''] w1 = Inr [] \<and>
     checkpoint_append demo_wire_codec [''s''] demo_cp w1 = (Inr (), w2) \<and>
     checkpoint_read_all demo_wire_codec [''s''] w2 = Inl (Corrupt [''s'', ''checkpoints.log''] 0 BadCheckpointLine)"
proof -
  let ?w = "fput [''s'', ''checkpoints.log''] (as_bytes ''b'') empty_fs"
  have f: "cp_file demo_wire_codec [''s''] [] ''b'' ?w"
    by (simp add: cp_file_def cp_text_def checkpoint_path_def CHECKPOINT_FILE_def newline_def carriage_def)
  have q: "quiet ?w" using empty_cp_file(2) by simp
  have "wc_ser demo_wire_codec (to_wire demo_cp) = Inr ''a''" "wc_de demo_wire_codec (''b'' @ ''a'') = None"
    "length (cp_chain_head demo_cp) = 32"
    by (simp_all add: demo_wire_codec_def demo_cp_def)
  then show ?thesis
    using checkpoint_after_torn_tail_is_lost [OF demo_wire_codec_ok q f, of demo_cp demo_cp "''a''" "''a''"]
    by (simp add: checkpoint_path_def CHECKPOINT_FILE_def)
qed

section \<open>Retention limits\<close>

text \<open>
  the age limit's cutoff is \<open>now\<close> less the duration in microseconds modulo \<open>2 ^ 64\<close>, never
  below zero. A limit in days is therefore exact up to 213503982 days; the next day wraps to a
  window of less than a day, and a duration of \<open>2 ^ 64\<close> microseconds (or a multiple) makes every
  record older than now eligible for purging.
\<close>

theorem retention_cutoff_bounds:
  "cutoff_micros p now = map_option (\<lambda>d. word_of_nat (unat now - d mod 2 ^ 64)) (rt_max_age p) \<and>
   cutoff_micros (keep_for (k * 2 ^ 64)) now = Some now \<and>
   (unat days \<le> 213503982 \<longrightarrow>
     cutoff_micros (keep_days days) now = Some (word_of_nat (unat now - unat days * 86400000000))) \<and>
   cutoff_micros (keep_days 213503983) now = Some (word_of_nat (unat now - 57490448384))"
  using cutoff_general cutoff_wraps [of "keep_for (k * 2 ^ 64)" k now] cutoff_days [of days now]
    cutoff_general [of "keep_days 213503983" now] by (simp add: keep_for_def keep_days_def)

lemma retention_cutoff_bounds_witness:
  "cutoff_micros (keep_days 1) 86400000005 = Some 5 \<and> cutoff_micros (keep_for (2 ^ 64)) 7 = Some 7"
  using retention_cutoff_bounds [of "keep_days 1" 86400000005 1 1] retention_cutoff_bounds [of keep_forever 7 1 1]
  by (simp add: keep_for_def keep_days_def cutoff_micros_def saturating_sub_def)

section \<open>What a recorded query reveals\<close>

text \<open>
  the access log does not learn what a query probes for: two queries that differ only in the
  values of their target and actor filters and of their custom-column filters have the same
  summary, whatever the printer.
\<close>

theorem access_summary_hides_values:
  assumes "same_query_shape q p"
  shows "summarize_log_query pr q = summarize_log_query pr p"
  using summary_shape [OF assms] by (simp add: summarize_log_query_def)

definition demo_probe :: "string \<Rightarrow> log_query" where
  "demo_probe v = log_query_default\<lparr>q_targets := [filter_exact ''user'' ''email'' (Text v)]\<rparr>"

lemma access_summary_hides_values_witness:
  "summarize_log_query (\<lambda>j. if j = JObject [] then ''{}'' else ''shape'') (demo_probe ''a'') =
   summarize_log_query (\<lambda>j. if j = JObject [] then ''{}'' else ''shape'') (demo_probe ''b'')"
proof -
  have "same_query_shape (demo_probe ''a'') (demo_probe ''b'')"
    by (simp add: same_query_shape_def demo_probe_def same_filter_shape_def filter_exact_def log_query_default_def)
  then show ?thesis by (rule access_summary_hides_values)
qed

end
