(* ===== verification/Store_State.thy ===== *)
theory Store_State
  imports Registry Checkpoint Retention_Policy Access_Log Query_Cursor
begin

text \<open>
  The audit store (\<open>crates/quipu-core/src/store.rs\<close>): configuration, meta events, the store's
  state, and the way its operations reach the tables it owns.

  \<open>HashMap\<close>s that are iterated are association lists in an arbitrary order. The operations run on
  a pair of the store and the disk. Uids, clock readings and the randomness of encryptions that a
  call draws are the argument \<open>draws\<close>: the \<open>i\<close>-th registry write of the call uses the entries
  at \<open>i\<close>, the entries after the last registry write are those of the call itself.
\<close>

section \<open>Configuration\<close>

datatype sync_policy = Always | EveryN u32 | OsManaged

record store_config =
  cf_root :: path
  cf_max_segment_bytes :: nat
  cf_sync_policy :: sync_policy
  cf_retention :: retention_policy
  cf_keys :: key_ring
  cf_plaintext_cache :: bool
  cf_anchor :: bool \<comment> \<open>whether a hook is registered\<close>
  cf_access_log :: bool
  cf_access_retention :: retention_policy

definition config_new :: "path \<Rightarrow> store_config" where
  "config_new root = \<lparr>cf_root = root, cf_max_segment_bytes = 64 * 1024 * 1024, cf_sync_policy = EveryN 64,
     cf_retention = keep_forever, cf_keys = key_ring_new, cf_plaintext_cache = False, cf_anchor = False,
     cf_access_log = False, cf_access_retention = keep_forever\<rparr>"

text \<open>The builders. Of the anchor hook the model keeps that there is one.\<close>

definition config_access_log :: "bool \<Rightarrow> store_config \<Rightarrow> store_config" where
  "config_access_log enabled c = c\<lparr>cf_access_log := enabled\<rparr>"

definition config_access_retention :: "retention_policy \<Rightarrow> store_config \<Rightarrow> store_config" where
  "config_access_retention r c = c\<lparr>cf_access_retention := r\<rparr>"

definition config_anchor :: "store_config \<Rightarrow> store_config" where
  "config_anchor c = c\<lparr>cf_anchor := True\<rparr>"

definition config_plaintext_cache :: "bool \<Rightarrow> store_config \<Rightarrow> store_config" where
  "config_plaintext_cache enabled c = c\<lparr>cf_plaintext_cache := enabled\<rparr>"

definition config_retention :: "retention_policy \<Rightarrow> store_config \<Rightarrow> store_config" where
  "config_retention r c = c\<lparr>cf_retention := r\<rparr>"

definition config_sync_policy :: "sync_policy \<Rightarrow> store_config \<Rightarrow> store_config" where
  "config_sync_policy p c = c\<lparr>cf_sync_policy := p\<rparr>"

definition config_keys :: "key_ring \<Rightarrow> store_config \<Rightarrow> store_config" where
  "config_keys k c = c\<lparr>cf_keys := k\<rparr>"

definition config_max_segment_bytes :: "nat \<Rightarrow> store_config \<Rightarrow> store_config" where
  "config_max_segment_bytes n c = c\<lparr>cf_max_segment_bytes := n\<rparr>"

section \<open>Meta events\<close>

record rekeyed_table =
  rt_type_name :: string
  rt_records :: nat
  rt_old_chain_head :: string
  rt_new_chain_head :: string

record rekey_event =
  re_occurred_at :: u64
  re_rsa_version :: u32
  re_hmac_version :: u32
  re_tables :: "rekeyed_table list"
  re_signing_key_version :: u32
  re_signature :: bytes

datatype meta_event =
    TypeDefined type_schema
  | CustomColumnDefined custom_column_def
  | Rekeyed rekey_event

definition REKEY_SIGNING_DOMAIN :: bytes where "REKEY_SIGNING_DOMAIN = as_bytes ''quipu-rekey-v1'' @ [0]"

definition rekeyed_table_bytes :: "rekeyed_table \<Rightarrow> bytes" where
  "rekeyed_table_bytes t = as_bytes (rt_type_name t) @ [0] @ le_bytes 8 (rt_records t) @
     as_bytes (rt_old_chain_head t) @ [0] @ as_bytes (rt_new_chain_head t) @ [0]"

definition rekey_signing_bytes :: "u64 \<Rightarrow> u32 \<Rightarrow> u32 \<Rightarrow> rekeyed_table list \<Rightarrow> bytes" where
  "rekey_signing_bytes occurred_at rsa_version hmac_version tables =
     REKEY_SIGNING_DOMAIN @ le64 occurred_at @ le32 rsa_version @ le32 hmac_version @
     concat (map rekeyed_table_bytes tables)"

section \<open>State\<close>

text \<open>
  \<open>_lock\<close> is a handle without content. The checkpoint log is only its path, which is the root's.
  \<open>st_anchored\<close> is what the anchor hook has been called with.
\<close>

record audit_store =
  st_cfg :: store_config
  st_meta :: table
  st_logs :: table
  st_relations :: table
  st_access :: "table option"
  st_registries :: "(string \<times> type_registry) list"
  st_custom_columns :: "(string \<times> custom_column_def) list"
  st_appends_since_sync :: u32
  st_anchored :: "checkpoint list"

type_synonym 'a stop = "(audit_store \<times> fs, error, 'a) sop"

record draws =
  dr_uid :: "nat \<Rightarrow> uid"
  dr_now :: "nat \<Rightarrow> u64"
  dr_rnd :: "nat \<Rightarrow> nat \<Rightarrow> rnd"

text \<open>The libraries and codecs a store works with.\<close>

record senv =
  se_ext :: ext
  se_meta :: "seg_meta codec"
  se_crypto :: cryptoext
  se_text :: textext
  se_records :: "registry_record codec"
  se_events :: "meta_event codec"
  se_logs :: "audit_log codec"
  se_relations :: "target_relation codec"
  se_access :: "access_record codec"
  se_wire :: wire_codec
  se_cursor :: textcodec
  se_json :: "json \<Rightarrow> string"

definition renv_of :: "senv \<Rightarrow> renv" where
  "renv_of E = \<lparr>re_ext = se_ext E, re_meta = se_meta E, re_codec = se_records E, re_crypto = se_crypto E,
     re_text = se_text E\<rparr>"

lemma renv_of_simps [simp]:
  "re_ext (renv_of E) = se_ext E" "re_meta (renv_of E) = se_meta E" "re_codec (renv_of E) = se_records E"
  "re_crypto (renv_of E) = se_crypto E" "re_text (renv_of E) = se_text E"
  by (simp_all add: renv_of_def)

section \<open>Reaching the tables\<close>

definition on_meta :: "'a top \<Rightarrow> 'a stop" where
  "on_meta m = (\<lambda>(s, w). case m (st_meta s, w) of (r, (t, w')) \<Rightarrow> (r, (s\<lparr>st_meta := t\<rparr>, w')))"

definition on_logs :: "'a top \<Rightarrow> 'a stop" where
  "on_logs m = (\<lambda>(s, w). case m (st_logs s, w) of (r, (t, w')) \<Rightarrow> (r, (s\<lparr>st_logs := t\<rparr>, w')))"

definition on_relations :: "'a top \<Rightarrow> 'a stop" where
  "on_relations m = (\<lambda>(s, w). case m (st_relations s, w) of (r, (t, w')) \<Rightarrow> (r, (s\<lparr>st_relations := t\<rparr>, w')))"

text \<open>\<open>if let Some(access) = self.access.as_mut()\<close>, with the value when there is none.\<close>

definition on_access :: "'a res \<Rightarrow> 'a top \<Rightarrow> 'a stop" where
  "on_access none m = (\<lambda>(s, w). case st_access s of
     None \<Rightarrow> (none, (s, w))
   | Some t \<Rightarrow> (case m (t, w) of (r, (t', w')) \<Rightarrow> (r, (s\<lparr>st_access := Some t'\<rparr>, w'))))"

text \<open>\<open>AuditStore::registry\<close>.\<close>

definition on_registry :: "string \<Rightarrow> 'a rop \<Rightarrow> 'a stop" where
  "on_registry type_name m = (\<lambda>(s, w). case map_of (st_registries s) type_name of
     None \<Rightarrow> (Inl (Schema (NoRegistryTable type_name)), (s, w))
   | Some g \<Rightarrow> (case m (g, w) of (r, (g', w')) \<Rightarrow>
       (r, (s\<lparr>st_registries := AList.update type_name g' (st_registries s)\<rparr>, w'))))"

text \<open>
  \<open>Path::join\<close> of a relative path, with the operating system's reading of \<open>.\<close> and \<open>..\<close>; an
  absolute path replaces the base.
\<close>

fun split_slash :: "string \<Rightarrow> string list" where
  "split_slash [] = [[]]"
| "split_slash (c # cs) =
     (if c = CHR ''/'' then [] # split_slash cs
      else (c # hd (split_slash cs)) # tl (split_slash cs))"

definition path_step :: "path \<Rightarrow> string \<Rightarrow> path" where
  "path_step p c = (if c = [] \<or> c = ''.'' then p else if c = ''..'' then butlast p else p @ [c])"

definition path_join :: "path \<Rightarrow> string \<Rightarrow> path" where
  "path_join base s =
     foldl path_step (if s \<noteq> [] \<and> hd s = CHR ''/'' then [] else base) (split_slash s)"

definition registry_dir :: "path \<Rightarrow> string \<Rightarrow> path" where
  "registry_dir root type_name = path_join (root @ [''registry'']) type_name"

text \<open>A type name that is one path component.\<close>

definition plain_name :: "string \<Rightarrow> bool" where
  "plain_name s \<longleftrightarrow> s \<noteq> [] \<and> CHR ''/'' \<notin> set s \<and> s \<noteq> ''.'' \<and> s \<noteq> ''..''"

lemma split_slash_plain: "CHR ''/'' \<notin> set s \<Longrightarrow> split_slash s = [s]"
  by (induction s) auto

lemma registry_dir_plain: "plain_name s \<Longrightarrow> registry_dir root s = root @ [''registry'', s]"
  by (cases s) (auto simp: plain_name_def registry_dir_def path_join_def path_step_def split_slash_plain)

end
