(* ===== verification/Store.thy ===== *)
theory Store
  imports Store_State
begin

text \<open>
  The operations of the audit store that define schemas, write, verify and maintain
  (\<open>AuditStore\<close> in \<open>crates/quipu-core/src/store.rs\<close>); reading is in \<open>Store_Query\<close>.
\<close>

section \<open>Opening\<close>

text \<open>The operating system's answer to \<open>try_lock\<close> on the lock file.\<close>

datatype lock_answer = LockGranted | LockHeld | LockFailed io_error

definition lock_path :: "path \<Rightarrow> path" where
  "lock_path root = root @ [''LOCK'']"

definition drop_registries :: "(string \<times> type_registry) list \<Rightarrow> fs \<Rightarrow> fs" where
  "drop_registries gs w = fold (\<lambda>(_, g). table_drop (tg_table g)) gs w"

text \<open>\<open>HashMap::insert\<close>: a registry that is replaced is dropped.\<close>

definition insert_registry ::
  "string \<Rightarrow> type_registry \<Rightarrow> (string \<times> type_registry) list \<Rightarrow> fs \<Rightarrow> (string \<times> type_registry) list \<times> fs" where
  "insert_registry name g gs w =
     (AList.update name g gs, case map_of gs name of None \<Rightarrow> w | Some old \<Rightarrow> table_drop (tg_table old) w)"

fun replay_events ::
  "senv \<Rightarrow> store_config \<Rightarrow> meta_event list \<Rightarrow> (string \<times> type_registry) list \<Rightarrow> (string \<times> custom_column_def) list
     \<Rightarrow> (fs, error, (string \<times> type_registry) list \<times> (string \<times> custom_column_def) list) sop" where
  "replay_events E cfg [] gs cols w = (Inr (gs, cols), w)"
| "replay_events E cfg (TypeDefined sc # evs) gs cols w =
     (case reg_open (renv_of E) (registry_dir (cf_root cfg) (sc_type_name sc)) sc (cf_max_segment_bytes cfg)
             (cf_plaintext_cache cfg) w of
        (Inl e, w1) \<Rightarrow> (Inl e, drop_registries gs w1)
      | (Inr g, w1) \<Rightarrow>
          (case insert_registry (sc_type_name sc) g gs w1 of (gs', w2) \<Rightarrow> replay_events E cfg evs gs' cols w2))"
| "replay_events E cfg (CustomColumnDefined d # evs) gs cols w =
     replay_events E cfg evs gs (AList.update (cc_name d) d cols) w"
| "replay_events E cfg (Rekeyed ev # evs) gs cols w = replay_events E cfg evs gs cols w"

text \<open>On an error, the tables opened so far are dropped, the last one first.\<close>

definition open_access :: "senv \<Rightarrow> store_config \<Rightarrow> (fs, error, table option) sop" where
  "open_access E cfg =
     (if cf_access_log cfg
      then seqE (table_open (se_ext E) (se_meta E) (cf_root cfg @ [''access'']) (cf_max_segment_bytes cfg)) (\<lambda>t. retE (Some t))
      else retE None)"

definition drop_access :: "table option \<Rightarrow> fs \<Rightarrow> fs" where
  "drop_access a w = (case a of None \<Rightarrow> w | Some t \<Rightarrow> table_drop t w)"

definition load_store ::
  "senv \<Rightarrow> store_config \<Rightarrow> table \<Rightarrow> table \<Rightarrow> table \<Rightarrow> table option \<Rightarrow> (fs, error, audit_store) sop" where
  "load_store E cfg meta logs relations access w =
     (let dropped = (\<lambda>meta w. table_drop meta (table_drop logs (table_drop relations (drop_access access w))))
      in case table_scan_all (se_ext E) (se_events E) (meta, w) of
           (Inl e, (meta1, w1)) \<Rightarrow> (Inl e, dropped meta1 w1)
         | (Inr events, (meta1, w1)) \<Rightarrow>
             (case replay_events E cfg events [] [] w1 of
                (Inl e, w2) \<Rightarrow> (Inl e, dropped meta1 w2)
              | (Inr (gs, cols), w2) \<Rightarrow>
                  (Inr \<lparr>st_cfg = cfg, st_meta = meta1, st_logs = logs, st_relations = relations, st_access = access,
                     st_registries = gs, st_custom_columns = cols, st_appends_since_sync = 0, st_anchored = []\<rparr>, w2)))"

definition store_open :: "senv \<Rightarrow> store_config \<Rightarrow> lock_answer \<Rightarrow> (fs, error, audit_store) sop" where
  "store_open E cfg lock =
     (let topen = (\<lambda>name. table_open (se_ext E) (se_meta E) (cf_root cfg @ [name]) (cf_max_segment_bytes cfg))
      in seqE (fs_create_dir_all (cf_root cfg)) (\<lambda>_.
         seqE (fs_open_create (lock_path (cf_root cfg))) (\<lambda>_.
         seqE (liftE (case lock of
                  LockGranted \<Rightarrow> Inr ()
                | LockHeld \<Rightarrow> Inl (Locked (cf_root cfg))
                | LockFailed e \<Rightarrow> Inl (Io e))) (\<lambda>_.
         seqE (topen ''meta'') (\<lambda>meta w.
         case topen ''logs'' w of
           (Inl e, w1) \<Rightarrow> (Inl e, table_drop meta w1)
         | (Inr logs, w1) \<Rightarrow>
           (case topen ''relations'' w1 of
              (Inl e, w2) \<Rightarrow> (Inl e, table_drop meta (table_drop logs w2))
            | (Inr relations, w2) \<Rightarrow>
              (case open_access E cfg w2 of
                 (Inl e, w3) \<Rightarrow> (Inl e, table_drop meta (table_drop logs (table_drop relations w3)))
               | (Inr access, w3) \<Rightarrow> load_store E cfg meta logs relations access w3)))))))"

section \<open>Schemas\<close>

text \<open>Redefinition is additive: the check of the existing fields.\<close>

fun additive_fields :: "type_schema \<Rightarrow> field_def list \<Rightarrow> unit res" where
  "additive_fields sc [] = Inr ()"
| "additive_fields sc (old # olds) =
     (case schema_field sc (fd_name old) of
        None \<Rightarrow> Inl (Schema (FieldRemoved (sc_type_name sc) (fd_name old)))
      | Some new \<Rightarrow>
          if fd_kind new \<noteq> fd_kind old \<or> fd_protection new \<noteq> fd_protection old
          then Inl (Schema (FieldKindOrProtectionChanged (sc_type_name sc) (fd_name old)))
          else if fd_search new \<noteq> fd_search old
          then Inl (Schema (FieldIndexChanged (sc_type_name sc) (fd_name old)))
          else additive_fields sc olds)"

definition reg_schema :: "type_registry \<Rightarrow> type_schema" where
  "reg_schema g = ri_schema (tg_idx g)"

definition check_redefinition :: "audit_store \<Rightarrow> type_schema \<Rightarrow> unit res" where
  "check_redefinition s sc =
     (if prefix RESERVED_TYPE_PREFIX (sc_type_name sc) then Inl (Schema (ReservedTypePrefix (sc_type_name sc)))
      else case map_of (st_registries s) (sc_type_name sc) of
             None \<Rightarrow> Inr ()
           | Some g \<Rightarrow> additive_fields sc (sc_fields (reg_schema g)))"

definition append_meta :: "senv \<Rightarrow> meta_event \<Rightarrow> u64 \<Rightarrow> unit stop" where
  "append_meta E ev now = seqE (on_meta (table_append (se_ext E) (se_meta E) (se_events E) ev now)) (\<lambda>_. on_meta table_sync)"

text \<open>When the event cannot be stored, the registry that was opened is dropped.\<close>

definition define_type :: "senv \<Rightarrow> u64 \<Rightarrow> type_schema \<Rightarrow> unit stop" where
  "define_type E now sc = (\<lambda>(s, w).
     case check_redefinition s sc of
       Inl e \<Rightarrow> (Inl e, (s, w))
     | Inr _ \<Rightarrow>
         (case reg_open (renv_of E) (registry_dir (cf_root (st_cfg s)) (sc_type_name sc)) sc
                 (cf_max_segment_bytes (st_cfg s)) (cf_plaintext_cache (st_cfg s)) w of
            (Inl e, w1) \<Rightarrow> (Inl e, (s, w1))
          | (Inr g, w1) \<Rightarrow>
              (case append_meta E (TypeDefined sc) now (s, w1) of
                 (Inl e, (s2, w2)) \<Rightarrow> (Inl e, (s2, table_drop (tg_table g) w2))
               | (Inr _, (s2, w2)) \<Rightarrow>
                   (case insert_registry (sc_type_name sc) g (st_registries s2) w2 of
                      (gs, w3) \<Rightarrow> (Inr (), (s2\<lparr>st_registries := gs\<rparr>, w3))))))"

definition has_type :: "audit_store \<Rightarrow> string \<Rightarrow> bool" where
  "has_type s type_name \<longleftrightarrow> map_of (st_registries s) type_name \<noteq> None"

definition define_custom_column :: "senv \<Rightarrow> u64 \<Rightarrow> u64 \<Rightarrow> custom_column_def \<Rightarrow> unit stop" where
  "define_custom_column E now now' def0 =
     (let def = (if cc_required def0 \<and> cc_required_since def0 = None then def0\<lparr>cc_required_since := Some now\<rparr> else def0)
      in seqE (append_meta E (CustomColumnDefined def) now') (\<lambda>_ (s, w).
           (Inr (), (s\<lparr>st_custom_columns := AList.update (cc_name def) def (st_custom_columns s)\<rparr>, w))))"

section \<open>Entities\<close>

definition register_entity ::
  "senv \<Rightarrow> uid \<Rightarrow> u64 \<Rightarrow> (nat \<Rightarrow> rnd) \<Rightarrow> string \<Rightarrow> entity_input \<Rightarrow> uid stop" where
  "register_entity E u now rs type_name input = (\<lambda>(s, w).
     on_registry type_name (upsert (renv_of E) (cf_keys (st_cfg s)) u now rs input) (s, w))"

definition delete_entity :: "senv \<Rightarrow> uid \<Rightarrow> u64 \<Rightarrow> string \<Rightarrow> string \<Rightarrow> uid stop" where
  "delete_entity E u now type_name entity_id = on_registry type_name (reg_delete (renv_of E) u now entity_id)"

definition entity_latest :: "audit_store \<Rightarrow> string \<Rightarrow> string \<Rightarrow> registry_record option" where
  "entity_latest s type_name entity_id =
     Option.bind (map_of (st_registries s) type_name) (\<lambda>g. latest (tg_idx g) entity_id)"

section \<open>Durability\<close>

definition sync_registries :: "unit stop" where
  "sync_registries = (\<lambda>(s, w). forE (map fst (st_registries s)) (\<lambda>name. on_registry name reg_sync) (s, w))"

text \<open>Registries first: a log row is never durable before the versions it refers to.\<close>

definition sync_all :: "unit stop" where
  "sync_all =
     seqE sync_registries (\<lambda>_.
     seqE (on_logs table_sync) (\<lambda>_.
     seqE (on_relations table_sync) (\<lambda>_ (s, w).
     (Inr (), (s\<lparr>st_appends_since_sync := 0\<rparr>, w)))))"

definition flush_rows :: "unit stop" where
  "flush_rows = seqE (on_logs table_flush) (\<lambda>_. on_relations table_flush)"

definition apply_sync_policy :: "unit stop" where
  "apply_sync_policy = (\<lambda>(s, w).
     case cf_sync_policy (st_cfg s) of
       Always \<Rightarrow> sync_all (s, w)
     | EveryN n \<Rightarrow>
         let s1 = s\<lparr>st_appends_since_sync := st_appends_since_sync s + 1\<rparr>
         in if st_appends_since_sync s1 \<ge> n then sync_all (s1, w) else flush_rows (s1, w)
     | OsManaged \<Rightarrow> flush_rows (s, w))"

definition store_sync :: "unit stop" where
  "store_sync = seqE sync_all (\<lambda>_. seqE (on_meta table_sync) (\<lambda>_. on_access (Inr ()) table_sync))"

section \<open>Integrity checkpoints\<close>

definition write_checkpoint :: "senv \<Rightarrow> u64 \<Rightarrow> checkpoint option stop" where
  "write_checkpoint E now = (\<lambda>(s, w).
     if \<not> can_sign (cf_keys (st_cfg s)) then (Inr None, (s, w))
     else seqE (on_logs table_sync) (\<lambda>_ (s, w).
       case checkpoint_sign (se_crypto E) (cf_keys (st_cfg s)) now (t_active_seq (st_logs s))
              (record_count (st_logs s)) (chain_head (st_logs s)) of
         Inl e \<Rightarrow> (Inl e, (s, w))
       | Inr cp \<Rightarrow>
           (case checkpoint_append (se_wire E) (cf_root (st_cfg s)) cp w of
              (Inl e, w1) \<Rightarrow> (Inl e, (s, w1))
            | (Inr _, w1) \<Rightarrow>
                (Inr (Some cp),
                 (if cf_anchor (st_cfg s) then s\<lparr>st_anchored := st_anchored s @ [cp]\<rparr> else s, w1)))) (s, w))"

definition store_checkpoints :: "senv \<Rightarrow> checkpoint list stop" where
  "store_checkpoints E = (\<lambda>(s, w). (checkpoint_read_all (se_wire E) (cf_root (st_cfg s)) w, (s, w)))"

fun verify_all_checkpoints :: "cryptoext \<Rightarrow> key_ring \<Rightarrow> checkpoint list \<Rightarrow> unit res" where
  "verify_all_checkpoints K R [] = Inr ()"
| "verify_all_checkpoints K R (cp # cps) = rbind (checkpoint_verify K R cp) (\<lambda>_. verify_all_checkpoints K R cps)"

definition verify_checkpoints :: "senv \<Rightarrow> unit stop" where
  "verify_checkpoints E =
     seqE (store_checkpoints E) (\<lambda>cps (s, w).
       if cps = [] then (Inr (), (s, w))
       else seqE (liftE (verify_all_checkpoints (se_crypto E) (cf_keys (st_cfg s)) cps)) (\<lambda>_.
            seqE (on_logs (contains_chain_value (se_ext E) (cp_chain_head (last cps)))) (\<lambda>found.
              if found then retE ()
              else raiseE (Corrupt (checkpoint_path (cf_root (st_cfg s))) 0 CheckpointHeadAbsent))) (s, w))"

section \<open>Writing logs\<close>

fun validate_custom_values :: "(string \<times> custom_column_def) list \<Rightarrow> (string \<times> fval) list \<Rightarrow> unit res" where
  "validate_custom_values cols [] = Inr ()"
| "validate_custom_values cols ((name, v) # rest) =
     (case map_of cols name of
        None \<Rightarrow> Inl (Schema (CustomColumnUnregistered name))
      | Some d \<Rightarrow>
          if value_kind_of v \<noteq> cc_kind d then Inl (Schema (CustomColumnKind name))
          else validate_custom_values cols rest)"

definition in_force :: "custom_column_def \<Rightarrow> u64 \<Rightarrow> bool" where
  "in_force d occurred_at = (case cc_required_since d of None \<Rightarrow> True | Some since \<Rightarrow> occurred_at \<ge> since)"

fun validate_required :: "(string \<times> custom_column_def) list \<Rightarrow> (string \<times> fval) list \<Rightarrow> u64 \<Rightarrow> unit res" where
  "validate_required [] custom occurred_at = Inr ()"
| "validate_required ((_, d) # rest) custom occurred_at =
     (if cc_required d \<and> in_force d occurred_at \<and> map_of custom (cc_name d) = None
      then Inl (Schema (CustomColumnMissing (cc_name d)))
      else validate_required rest custom occurred_at)"

definition validate_custom :: "audit_store \<Rightarrow> (string \<times> fval) list \<Rightarrow> u64 \<Rightarrow> unit res" where
  "validate_custom s custom occurred_at =
     rbind (validate_custom_values (st_custom_columns s) custom) (\<lambda>_.
       validate_required (st_custom_columns s) custom occurred_at)"

definition append_relations :: "senv \<Rightarrow> uid \<Rightarrow> u64 \<Rightarrow> (string \<times> uid) list \<Rightarrow> unit stop" where
  "append_relations E log_id timestamp targets =
     forE targets (\<lambda>(entity_type, u).
       on_relations (table_append (se_ext E) (se_meta E) (se_relations E)
         \<lparr>tr_log_id = log_id, tr_entity_registry_uid = u, tr_entity_type = entity_type\<rparr> timestamp))"

text \<open>\<open>log_id\<close> is the generated uid, \<open>now\<close> the clock of a checkpoint that may follow.\<close>

definition append_resolved_at ::
  "senv \<Rightarrow> uid \<Rightarrow> u64 \<Rightarrow> u64 \<Rightarrow> string \<Rightarrow> uid \<Rightarrow> string \<Rightarrow> string \<Rightarrow> content \<Rightarrow> (string \<times> uid) list
     \<Rightarrow> (string \<times> fval) list \<Rightarrow> uid stop" where
  "append_resolved_at E log_id now occurred_at actor_type actor_uid meth url cont targets custom = (\<lambda>(s, w).
     case validate_custom s custom occurred_at of
       Inl e \<Rightarrow> (Inl e, (s, w))
     | Inr _ \<Rightarrow>
         let log = \<lparr>al_log_id = log_id, al_timestamp = occurred_at, al_actor = actor_uid, al_actor_type = actor_type,
                    al_method = meth, al_url = url, al_content = cont, al_custom = custom\<rparr>;
             seq_before = t_active_seq (st_logs s)
         in seqE (on_logs (table_append (se_ext E) (se_meta E) (se_logs E) log occurred_at)) (\<lambda>_ (s1, w1).
            let sealed_a_segment = (t_active_seq (st_logs s1) \<noteq> seq_before)
            in seqE (append_relations E log_id occurred_at targets) (\<lambda>_.
               seqE apply_sync_policy (\<lambda>_.
               seqE (if sealed_a_segment then write_checkpoint E now else retE None) (\<lambda>_.
               retE log_id))) (s1, w1)) (s, w))"

fun register_targets ::
  "senv \<Rightarrow> draws \<Rightarrow> nat \<Rightarrow> (string \<times> entity_input) list \<Rightarrow> (string \<times> uid) list stop" where
  "register_targets E D i [] = retE []"
| "register_targets E D i ((ty, input) # rest) =
     seqE (register_entity E (dr_uid D i) (dr_now D i) (dr_rnd D i) ty input) (\<lambda>u.
     seqE (register_targets E D (Suc i) rest) (\<lambda>refs. retE ((ty, u) # refs)))"

definition append_at ::
  "senv \<Rightarrow> draws \<Rightarrow> u64 \<Rightarrow> string \<Rightarrow> entity_input \<Rightarrow> string \<Rightarrow> string \<Rightarrow> content \<Rightarrow> (string \<times> entity_input) list
     \<Rightarrow> (string \<times> fval) list \<Rightarrow> uid stop" where
  "append_at E D occurred_at actor_type actor meth url cont targets custom = (\<lambda>(s, w).
     case validate_custom s custom occurred_at of
       Inl e \<Rightarrow> (Inl e, (s, w))
     | Inr _ \<Rightarrow>
         seqE (register_entity E (dr_uid D 0) (dr_now D 0) (dr_rnd D 0) actor_type actor) (\<lambda>actor_uid.
         seqE (register_targets E D 1 targets) (\<lambda>refs.
           append_resolved_at E (dr_uid D (length targets + 1)) (dr_now D (length targets + 1)) occurred_at
             actor_type actor_uid meth url cont refs custom)) (s, w))"

text \<open>\<open>append\<close> and \<open>append_resolved\<close> read the clock first.\<close>

definition store_append ::
  "senv \<Rightarrow> draws \<Rightarrow> u64 \<Rightarrow> string \<Rightarrow> entity_input \<Rightarrow> string \<Rightarrow> string \<Rightarrow> content \<Rightarrow> (string \<times> entity_input) list
     \<Rightarrow> (string \<times> fval) list \<Rightarrow> uid stop" where
  "store_append E D now actor_type actor meth url cont targets custom =
     append_at E D now actor_type actor meth url cont targets custom"

definition append_resolved ::
  "senv \<Rightarrow> uid \<Rightarrow> u64 \<Rightarrow> u64 \<Rightarrow> string \<Rightarrow> uid \<Rightarrow> string \<Rightarrow> string \<Rightarrow> content \<Rightarrow> (string \<times> uid) list
     \<Rightarrow> (string \<times> fval) list \<Rightarrow> uid stop" where
  "append_resolved E log_id now' now actor_type actor_uid meth url cont targets custom =
     append_resolved_at E log_id now' now actor_type actor_uid meth url cont targets custom"

end
