(* ===== verification/Store_Maintain.thy ===== *)
theory Store_Maintain
  imports Store
begin

text \<open>
  Maintenance of the audit store: integrity verification, re-keying, retention and the access log
  (\<open>AuditStore\<close> in \<open>crates/quipu-core/src/store.rs\<close>).
\<close>

section \<open>Re-keying\<close>

text \<open>
  \<open>rekey_record\<close>: the counter numbers the RSA values of a pass, \<open>pads i\<close> is the randomness of the
  \<open>i\<close>-th re-wrapping.
\<close>

definition rsa_names :: "registry_record \<Rightarrow> string list" where
  "rsa_names rec = map fst (filter (\<lambda>(_, v). case v of Rsa _ _ _ _ \<Rightarrow> True | _ \<Rightarrow> False) (rr_fields rec))"

definition rekey_tokens ::
  "cryptoext \<Rightarrow> textext \<Rightarrow> key_ring \<Rightarrow> type_schema \<Rightarrow> string \<Rightarrow> stored_value \<Rightarrow> field_tokens option res" where
  "rekey_tokens K N R sc name rewrapped =
     (case schema_field sc name of
        None \<Rightarrow> Inr None
      | Some def \<Rightarrow>
          if fd_search def = INone then Inr None
          else rbind (decrypt K R rewrapped) (\<lambda>plaintext.
               rbind (digest_tokens K R def (value_tokens N (from_bytes (utf8_lossy plaintext)) (fd_search def)) KEYLESS [])
                 (\<lambda>t. Inr (Some t))))"

fun rekey_fields ::
  "cryptoext \<Rightarrow> textext \<Rightarrow> key_ring \<Rightarrow> type_schema \<Rightarrow> (nat \<Rightarrow> bytes) \<Rightarrow> nat \<Rightarrow> string list \<Rightarrow> registry_record
     \<Rightarrow> registry_record res \<times> nat" where
  "rekey_fields K N R sc pads i [] rec = (Inr rec, i)"
| "rekey_fields K N R sc pads i (name # names) rec =
     (case rewrap K R (pads i) (the (map_of (rr_fields rec) name)) of
        Inl e \<Rightarrow> (Inl e, Suc i)
      | Inr rewrapped \<Rightarrow>
          (case rekey_tokens K N R sc name rewrapped of
             Inl e \<Rightarrow> (Inl e, Suc i)
           | Inr ft \<Rightarrow>
               rekey_fields K N R sc pads (Suc i) names
                 (rec\<lparr>rr_tokens := (case ft of None \<Rightarrow> rr_tokens rec | Some t \<Rightarrow> bt_insert name t (rr_tokens rec)),
                      rr_fields := bt_insert name rewrapped (rr_fields rec)\<rparr>)))"

definition rekey_record ::
  "cryptoext \<Rightarrow> textext \<Rightarrow> key_ring \<Rightarrow> type_schema \<Rightarrow> (nat \<Rightarrow> bytes) \<Rightarrow> nat \<Rightarrow> registry_record
     \<Rightarrow> registry_record res \<times> nat" where
  "rekey_record K N R sc pads i rec = rekey_fields K N R sc pads i (rsa_names rec) rec"

text \<open>
  One registry: taken out of the map and closed, rewritten on disk, opened again. After an error it
  stays out of the map.
\<close>

definition rekey_table ::
  "senv \<Rightarrow> (nat \<Rightarrow> bytes) \<Rightarrow> nat \<Rightarrow> string \<Rightarrow> (rekeyed_table \<times> nat) stop" where
  "rekey_table E pads i name = (\<lambda>(s, w).
     case map_of (st_registries s) name of
       None \<Rightarrow> (Inl (Schema (NoRegistryTable name)), (s, w))
     | Some g \<Rightarrow>
         let sc = reg_schema g; cfg = st_cfg s; dir = registry_dir (cf_root cfg) name;
             s1 = s\<lparr>st_registries := AList.delete name (st_registries s)\<rparr>
         in (case rewrite_table (se_ext E) (se_meta E) (se_records E)
                    (rekey_record (se_crypto E) (se_text E) (cf_keys cfg) sc pads) dir (cf_max_segment_bytes cfg) i
                    (table_drop (tg_table g) w) of
               (Inl e, w1) \<Rightarrow> (Inl e, (s1, w1))
             | (Inr (stats, i'), w1) \<Rightarrow>
                 (case reg_open (renv_of E) dir sc (cf_max_segment_bytes cfg) (cf_plaintext_cache cfg) w1 of
                    (Inl e, w2) \<Rightarrow> (Inl e, (s1, w2))
                  | (Inr g', w2) \<Rightarrow>
                      (Inr (\<lparr>rt_type_name = name, rt_records = rw_records stats,
                             rt_old_chain_head = hex (rw_old_chain_head stats),
                             rt_new_chain_head = hex (rw_new_chain_head stats)\<rparr>, i'),
                       (s1\<lparr>st_registries := AList.update name g' (st_registries s1)\<rparr>, w2)))))"

fun rekey_tables :: "senv \<Rightarrow> (nat \<Rightarrow> bytes) \<Rightarrow> nat \<Rightarrow> string list \<Rightarrow> rekeyed_table list stop" where
  "rekey_tables E pads i [] = retE []"
| "rekey_tables E pads i (name # names) =
     seqE (rekey_table E pads i name) (\<lambda>(t, i').
     seqE (rekey_tables E pads i' names) (\<lambda>ts. retE (t # ts)))"

definition store_rekey :: "senv \<Rightarrow> (nat \<Rightarrow> bytes) \<Rightarrow> u64 \<Rightarrow> rekey_event stop" where
  "store_rekey E pads now = (\<lambda>(s, w).
     let R = cf_keys (st_cfg s)
     in case active_rsa_version R of
          None \<Rightarrow> (Inl (Crypto RekeyNoRsaKey), (s, w))
        | Some rsa_version \<Rightarrow>
            if \<not> can_sign R then (Inl (Crypto RekeyNoPrivateKey), (s, w))
            else
              let hmac_version = (case active_hmac_version R of None \<Rightarrow> KEYLESS | Some v \<Rightarrow> v)
              in seqE (rekey_tables E pads 0 (sort (map fst (st_registries s)))) (\<lambda>tables.
                 seqE (liftE (sign_data (se_crypto E) R (rekey_signing_bytes now rsa_version hmac_version tables)))
                   (\<lambda>(kv, sig).
                 let ev = \<lparr>re_occurred_at = now, re_rsa_version = rsa_version, re_hmac_version = hmac_version,
                           re_tables = tables, re_signing_key_version = kv, re_signature = sig\<rparr>
                 in seqE (append_meta E (Rekeyed ev) now) (\<lambda>_. retE ev))) (s, w))"

fun rekeyed_of :: "meta_event list \<Rightarrow> rekey_event list" where
  "rekeyed_of [] = []"
| "rekeyed_of (Rekeyed r # evs) = r # rekeyed_of evs"
| "rekeyed_of (TypeDefined _ # evs) = rekeyed_of evs"
| "rekeyed_of (CustomColumnDefined _ # evs) = rekeyed_of evs"

definition rekey_events :: "senv \<Rightarrow> rekey_event list stop" where
  "rekey_events E = seqE (on_meta (table_scan_all (se_ext E) (se_events E))) (\<lambda>evs. retE (rekeyed_of evs))"

text \<open>\<open>latest_heads\<close>: the last event that names a type wins.\<close>

fun rekey_heads :: "rekeyed_table list \<Rightarrow> (string \<times> chain_hash) list \<Rightarrow> (string \<times> chain_hash) list res" where
  "rekey_heads [] heads = Inr heads"
| "rekey_heads (t # ts) heads =
     (case Option.bind (hex_decode (rt_new_chain_head t)) (\<lambda>v. if length v = 32 then Some v else None) of
        None \<Rightarrow> Inl (Corrupt [''meta'', rt_type_name t] 0 MalformedRekeyHead)
      | Some head \<Rightarrow> rekey_heads ts (AList.update (rt_type_name t) head heads))"

fun verify_rekey_signatures ::
  "cryptoext \<Rightarrow> key_ring \<Rightarrow> rekey_event list \<Rightarrow> (string \<times> chain_hash) list \<Rightarrow> (string \<times> chain_hash) list res" where
  "verify_rekey_signatures K R [] heads = Inr heads"
| "verify_rekey_signatures K R (ev # evs) heads =
     (case verify_signature K R (re_signing_key_version ev)
             (rekey_signing_bytes (re_occurred_at ev) (re_rsa_version ev) (re_hmac_version ev) (re_tables ev))
             (re_signature ev) of
        Inl _ \<Rightarrow> Inl (Crypto RekeySignatureInvalid)
      | Inr _ \<Rightarrow> rbind (rekey_heads (re_tables ev) heads) (\<lambda>heads'. verify_rekey_signatures K R evs heads'))"

definition verify_rekey_head :: "senv \<Rightarrow> string \<Rightarrow> chain_hash \<Rightarrow> unit stop" where
  "verify_rekey_head E name head = (\<lambda>(s, w).
     if map_of (st_registries s) name = None then (Inr (), (s, w))
     else seqE (on_registry name (reg_contains_chain_value (renv_of E) head)) (\<lambda>found.
            if found then retE () else raiseE (Corrupt [''registry'', name] 0 RekeyHeadAbsent)) (s, w))"

definition verify_rekey_events :: "senv \<Rightarrow> unit stop" where
  "verify_rekey_events E =
     seqE (rekey_events E) (\<lambda>evs (s, w).
     seqE (liftE (verify_rekey_signatures (se_crypto E) (cf_keys (st_cfg s)) evs [])) (\<lambda>heads.
       forE heads (\<lambda>(name, head). verify_rekey_head E name head)) (s, w))"

section \<open>Integrity\<close>

definition verify_registries :: "senv \<Rightarrow> unit stop" where
  "verify_registries E = (\<lambda>(s, w).
     forE (map fst (st_registries s)) (\<lambda>name. on_registry name (reg_verify (renv_of E))) (s, w))"

definition verify_integrity :: "senv \<Rightarrow> unit stop" where
  "verify_integrity E =
     seqE (on_logs (table_verify (se_ext E))) (\<lambda>_.
     seqE (on_relations (table_verify (se_ext E))) (\<lambda>_.
     seqE (on_meta (table_verify (se_ext E))) (\<lambda>_.
     seqE (on_access (Inr ()) (table_verify (se_ext E))) (\<lambda>_.
     seqE (verify_registries E) (\<lambda>_.
     seqE (verify_checkpoints E) (\<lambda>_.
     verify_rekey_events E))))))"

section \<open>Retention\<close>

text \<open>
  The loop drops the oldest sealed segment of either table. \<open>saturating_sub\<close> on the total is the
  subtraction of natural numbers.
\<close>

definition oldest_is_log :: "audit_store \<Rightarrow> bool option" where
  "oldest_is_log s =
     (case (oldest_sealed_max_ts (st_logs s), oldest_sealed_max_ts (st_relations s)) of
        (Some l, Some r) \<Rightarrow> Some (l \<le> r)
      | (Some _, None) \<Rightarrow> Some True
      | (None, Some _) \<Rightarrow> Some False
      | (None, None) \<Rightarrow> None)"

definition sealed_left :: "audit_store \<Rightarrow> nat" where
  "sealed_left s = length (t_sealed (st_logs s)) + length (t_sealed (st_relations s))"

lemma purge_oldest_sealed_less:
  "purge_oldest_sealed (t, w) = (Inr (Some b), (t', w')) \<Longrightarrow> length (t_sealed t') < length (t_sealed t)"
  by (auto simp: purge_oldest_sealed_def seqE_def on_disk_def Let_def split: list.splits prod.splits sum.splits)

definition purge_one :: "bool \<Rightarrow> nat option stop" where
  "purge_one from_logs = (if from_logs then on_logs purge_oldest_sealed else on_relations purge_oldest_sealed)"

lemma purge_one_less:
  "purge_one l (s, w) = (Inr (Some b), (s', w')) \<Longrightarrow> sealed_left s' < sealed_left s"
  by (auto simp: purge_one_def on_logs_def on_relations_def sealed_left_def dest!: purge_oldest_sealed_less
      split: if_splits prod.splits)

function purge_loop :: "nat \<Rightarrow> nat \<Rightarrow> nat \<Rightarrow> nat stop" where
  "purge_loop budget sz dropped (s, w) =
     (if sz \<le> budget then (Inr dropped, (s, w))
      else case oldest_is_log s of
             None \<Rightarrow> (Inr dropped, (s, w))
           | Some from_logs \<Rightarrow>
               (case purge_one from_logs (s, w) of
                  (Inl e, (s', w')) \<Rightarrow> (Inl e, (s', w'))
                | (Inr None, (s', w')) \<Rightarrow> (Inr dropped, (s', w'))
                | (Inr (Some freed), (s', w')) \<Rightarrow> purge_loop budget (sz - freed) (dropped + 1) (s', w')))"
  by pat_completeness auto
termination
  by (relation "measure (\<lambda>(budget, sz, dropped, s, w). sealed_left s)") (auto dest!: purge_one_less [OF sym])

declare purge_loop.simps [simp del]

definition retained_bytes :: "nat stop" where
  "retained_bytes =
     seqE (on_logs table_total_bytes) (\<lambda>l. seqE (on_relations table_total_bytes) (\<lambda>r. retE (l + r)))"

definition purge_to_byte_budget :: "nat \<Rightarrow> nat stop" where
  "purge_to_byte_budget budget = seqE retained_bytes (\<lambda>n. purge_loop budget n 0)"

definition purge_by_age :: "u64 option \<Rightarrow> nat stop" where
  "purge_by_age cutoff =
     (case cutoff of
        None \<Rightarrow> retE 0
      | Some c \<Rightarrow>
          seqE (on_logs (purge_older_than c)) (\<lambda>l. seqE (on_relations (purge_older_than c)) (\<lambda>r. retE (l + r))))"

text \<open>\<open>now\<close> is the clock of the run, \<open>now'\<close> that of the checkpoint.\<close>

definition apply_retention :: "senv \<Rightarrow> u64 \<Rightarrow> u64 \<Rightarrow> nat stop" where
  "apply_retention E now now' = (\<lambda>(s, w).
     let p = cf_retention (st_cfg s); pa = cf_access_retention (st_cfg s)
     in seqE (purge_by_age (cutoff_micros p now)) (\<lambda>aged.
        seqE (case rt_max_bytes p of None \<Rightarrow> retE 0 | Some budget \<Rightarrow> purge_to_byte_budget budget) (\<lambda>sized.
        seqE (if aged + sized > 0 then write_checkpoint E now' else retE None) (\<lambda>_.
        seqE (case cutoff_micros pa now of None \<Rightarrow> retE 0 | Some c \<Rightarrow> on_access (Inr 0) (purge_older_than c)) (\<lambda>acc.
        retE (aged + sized + acc))))) (s, w))"

section \<open>The access log\<close>

definition record_access :: "senv \<Rightarrow> access_record \<Rightarrow> unit stop" where
  "record_access E rec =
     on_access (Inr ())
       (seqE (table_append (se_ext E) (se_meta E) (se_access E) rec (ac_timestamp rec)) (\<lambda>_. table_flush))"

text \<open>The loop over the scan stops when the limit is reached after a push.\<close>

function access_loop ::
  "ext \<Rightarrow> access_record codec \<Rightarrow> access_query \<Rightarrow> fs \<Rightarrow> table_scan \<Rightarrow> access_record list \<Rightarrow> access_record list res" where
  "access_loop X C q w sc out =
     (case ts_next_row X C w sc of
        (Inl e, _) \<Rightarrow> Inl e
      | (Inr None, _) \<Rightarrow> Inr out
      | (Inr (Some rec), sc') \<Rightarrow>
          if \<not> access_matches q rec then access_loop X C q w sc' out
          else
            let out' = out @ [rec]
            in if (case aq_limit q of None \<Rightarrow> False | Some n \<Rightarrow> length out' \<ge> n) then Inr out'
               else access_loop X C q w sc' out')"
  by pat_completeness auto
termination
  by (relation "inv_image (less_than <*lex*> less_than) (\<lambda>(X, C, q, w, sc, out). ts_measure sc)")
    (auto simp del: in_lex_prod dest!: ts_next_row_progress [OF sym])

declare access_loop.simps [simp del]

definition access_records :: "senv \<Rightarrow> access_query \<Rightarrow> access_record list stop" where
  "access_records E q =
     on_access (Inl (Schema AccessLogDisabled))
       (seqE table_slices (\<lambda>sls (t, w). (access_loop (se_ext E) (se_access E) q w (scan_over sls) [], (t, w))))"

end
