(* ===== verification/Store_Query.thy ===== *)
theory Store_Query
  imports Store_Maintain Scan_Loop Civil_Time
begin

text \<open>
  Reading the audit store: browsing registries, point-in-time snapshots, and queries on a snapshot
  (\<open>AuditStore\<close> and \<open>ReadSnapshot\<close> in \<open>crates/quipu-core/src/store.rs\<close>). A snapshot reads the disk
  and changes only the plaintext caches of its copies of the registry indexes.
\<close>

section \<open>Entities\<close>

definition snapshot_of :: "registry_record \<Rightarrow> target_snapshot" where
  "snapshot_of rec = \<lparr>sn_entity_registry_uid = rr_uid rec, sn_entity_type = rr_entity_type rec,
     sn_entity_id = rr_entity_id rec, sn_version = rr_version rec, sn_fields = rr_fields rec,
     sn_deleted = rr_deleted rec, sn_missing = False\<rparr>"

definition missing_snapshot :: "string \<Rightarrow> uid \<Rightarrow> target_snapshot" where
  "missing_snapshot entity_type u = \<lparr>sn_entity_registry_uid = u, sn_entity_type = entity_type, sn_entity_id = [],
     sn_version = 0, sn_fields = [], sn_deleted = False, sn_missing = True\<rparr>"

definition type_schemas :: "audit_store \<Rightarrow> type_schema list" where
  "type_schemas s = sort_key sc_type_name (map (reg_schema \<circ> snd) (st_registries s))"

definition list_entities :: "audit_store \<Rightarrow> string \<Rightarrow> bool \<Rightarrow> target_snapshot list res" where
  "list_entities s type_name include_deleted =
     (case map_of (st_registries s) type_name of
        None \<Rightarrow> Inl (Schema (NoRegistryTable type_name))
      | Some g \<Rightarrow> Inr (map snapshot_of (filter (\<lambda>rec. include_deleted \<or> \<not> rr_deleted rec)
          (List.map_filter (latest (tg_idx g)) (sort (entity_ids (tg_idx g)))))))"

definition entity_history :: "audit_store \<Rightarrow> string \<Rightarrow> string \<Rightarrow> target_snapshot list res" where
  "entity_history s type_name entity_id =
     (case map_of (st_registries s) type_name of
        None \<Rightarrow> Inl (Schema (NoRegistryTable type_name))
      | Some g \<Rightarrow>
          let uids = versions_of (tg_idx g) entity_id
          in if uids = [] then Inl (NotFound entity_id)
             else Inr (map (\<lambda>u. case reg_version (tg_idx g) u of
                              Some rec \<Rightarrow> snapshot_of rec
                            | None \<Rightarrow> missing_snapshot type_name u) uids))"

definition store_decrypt :: "senv \<Rightarrow> audit_store \<Rightarrow> stored_value \<Rightarrow> bytes res" where
  "store_decrypt E s v = decrypt (se_crypto E) (cf_keys (st_cfg s)) v"

section \<open>Snapshots\<close>

record read_snapshot =
  rs_keys :: key_ring
  rs_registries :: "(string \<times> registry_index) list"
  rs_logs :: "segment_slice list"
  rs_relations :: "segment_slice list"

definition store_snapshot :: "read_snapshot stop" where
  "store_snapshot =
     seqE (on_logs table_slices) (\<lambda>logs.
     seqE (on_relations table_slices) (\<lambda>relations (s, w).
       (Inr \<lparr>rs_keys = cf_keys (st_cfg s), rs_registries = map (\<lambda>(k, g). (k, tg_idx g)) (st_registries s),
             rs_logs = logs, rs_relations = relations\<rparr>, (s, w))))"

type_synonym 'a qop = "(read_snapshot, error, 'a) sop"

record resolved_filters =
  rf_allowed_by_target :: "uid set option"
  rf_allowed_actor_uids :: "uid set option"

text \<open>\<open>str::eq_ignore_ascii_case\<close>.\<close>

definition ascii_lower :: "char \<Rightarrow> char" where
  "ascii_lower c = (let n = of_char c :: nat in if 65 \<le> n \<and> n \<le> 90 then char_of (n + 32) else c)"

definition eq_ignore_ascii_case :: "string \<Rightarrow> string \<Rightarrow> bool" where
  "eq_ignore_ascii_case a b \<longleftrightarrow> map ascii_lower a = map ascii_lower b"

definition custom_matches :: "(string \<times> fval) list \<Rightarrow> (string \<times> fval) list \<Rightarrow> bool" where
  "custom_matches wanted custom =
     list_all (\<lambda>(k, v). case map_of custom k of None \<Rightarrow> False | Some x \<Rightarrow> value_eq x v) wanted"

definition filters_match :: "resolved_filters \<Rightarrow> log_query \<Rightarrow> audit_log \<Rightarrow> bool" where
  "filters_match fl q log =
     (if (case q_method q of Some m \<Rightarrow> \<not> eq_ignore_ascii_case (al_method log) m | None \<Rightarrow> False) then False
      else if (case q_url_prefix q of Some p \<Rightarrow> \<not> prefix p (al_url log) | None \<Rightarrow> False) then False
      else if (case rf_allowed_by_target fl of Some ids \<Rightarrow> al_log_id log \<notin> ids | None \<Rightarrow> False) then False
      else if (case rf_allowed_actor_uids fl of Some us \<Rightarrow> al_actor log \<notin> us | None \<Rightarrow> False) then False
      else custom_matches (q_custom q) (al_custom log))"

section \<open>Resolving filters\<close>

definition version_uids_for_filter :: "senv \<Rightarrow> target_filter \<Rightarrow> uid set qop" where
  "version_uids_for_filter E f sn =
     (case map_of (rs_registries sn) (tf_entity_type f) of
        None \<Rightarrow> (Inl (Schema (NoRegistryTable (tf_entity_type f))), sn)
      | Some ri \<Rightarrow>
          (case idx_search (se_crypto E) (se_text E) (rs_keys sn) (tf_field f) (tf_value f) (tf_include_past f)
                  (tf_mode f) ri of
             (r, ri') \<Rightarrow>
               (rbind r (\<lambda>ids. Inr (set (concat (map (versions_of ri') ids)))),
                sn\<lparr>rs_registries := AList.update (tf_entity_type f) ri' (rs_registries sn)\<rparr>)))"

definition collect_log_ids :: "uid set \<Rightarrow> position \<times> target_relation \<Rightarrow> uid set \<Rightarrow> uid set \<times> bool" where
  "collect_log_ids uids = (\<lambda>(_, rel) out.
     (if tr_entity_registry_uid rel \<in> uids then insert (tr_log_id rel) out else out, True))"

definition log_ids_for_filter ::
  "senv \<Rightarrow> fs \<Rightarrow> target_filter \<Rightarrow> u64 option \<Rightarrow> u64 option \<Rightarrow> uid set qop" where
  "log_ids_for_filter E w f from to =
     seqE (version_uids_for_filter E f) (\<lambda>uids sn.
       (fst (ps_loop (se_ext E) (se_relations E) w (collect_log_ids uids)
               (positioned_new (rs_relations sn) False from to None) {}), sn))"

fun target_log_ids ::
  "senv \<Rightarrow> fs \<Rightarrow> u64 option \<Rightarrow> u64 option \<Rightarrow> target_filter list \<Rightarrow> uid set option \<Rightarrow> uid set option qop" where
  "target_log_ids E w from to [] allowed = retE allowed"
| "target_log_ids E w from to (f # fs) allowed =
     seqE (log_ids_for_filter E w f from to) (\<lambda>ids.
       target_log_ids E w from to fs (Some (case allowed of Some prev \<Rightarrow> prev \<inter> ids | None \<Rightarrow> ids)))"

definition resolve_filters :: "senv \<Rightarrow> fs \<Rightarrow> log_query \<Rightarrow> resolved_filters qop" where
  "resolve_filters E w q =
     seqE (target_log_ids E w (q_from_micros q) (q_to_micros q) (q_targets q) None) (\<lambda>ids.
     seqE (case q_actor q of
             Some f \<Rightarrow> seqE (version_uids_for_filter E f) (\<lambda>uids. retE (Some uids))
           | None \<Rightarrow> retE None) (\<lambda>uids.
     retE \<lparr>rf_allowed_by_target = ids, rf_allowed_actor_uids = uids\<rparr>))"

definition query_after :: "senv \<Rightarrow> log_query \<Rightarrow> position option res" where
  "query_after E q =
     (case q_cursor q of
        Some c \<Rightarrow> rbind (decode_cursor (se_cursor E) c (q_order q)) (\<lambda>p. Inr (Some p))
      | None \<Rightarrow> Inr None)"

definition log_scan :: "senv \<Rightarrow> log_query \<Rightarrow> read_snapshot \<Rightarrow> positioned_scan res" where
  "log_scan E q sn =
     rbind (query_after E q) (\<lambda>after.
     Inr (positioned_new (rs_logs sn) (q_order q = Desc) (q_from_micros q) (q_to_micros q) after))"

section \<open>Pages\<close>

text \<open>The loop body of \<open>query_page\<close>: the hits so far and whether one more match exists.\<close>

definition page_step ::
  "resolved_filters \<Rightarrow> log_query \<Rightarrow> position \<times> audit_log \<Rightarrow> (position \<times> audit_log) list \<times> bool
     \<Rightarrow> ((position \<times> audit_log) list \<times> bool) \<times> bool" where
  "page_step fl q = (\<lambda>(pos, log) (hits, further).
     if \<not> filters_match fl q log then ((hits, further), True)
     else if (case q_limit q of None \<Rightarrow> False | Some limit \<Rightarrow> length hits \<ge> limit) then ((hits, True), False)
     else ((hits @ [(pos, log)], further), True))"

definition collect_rels ::
  "uid set \<Rightarrow> position \<times> target_relation \<Rightarrow> (uid \<Rightarrow> target_relation list) \<Rightarrow> (uid \<Rightarrow> target_relation list) \<times> bool" where
  "collect_rels wanted = (\<lambda>(_, rel) m.
     (if tr_log_id rel \<in> wanted then m(tr_log_id rel := m (tr_log_id rel) @ [rel]) else m, True))"

definition resolve_version :: "read_snapshot \<Rightarrow> string \<Rightarrow> uid \<Rightarrow> target_snapshot" where
  "resolve_version sn entity_type u =
     (case Option.bind (map_of (rs_registries sn) entity_type) (\<lambda>ri. reg_version ri u) of
        Some rec \<Rightarrow> snapshot_of rec
      | None \<Rightarrow> missing_snapshot entity_type u)"

definition render :: "read_snapshot \<Rightarrow> audit_log \<Rightarrow> (uid \<Rightarrow> target_relation list) \<Rightarrow> log_view" where
  "render sn log rels = \<lparr>lv_log_id = al_log_id log, lv_timestamp_micros = al_timestamp log,
     lv_timestamp = format_rfc3339 (al_timestamp log), lv_actor = resolve_version sn (al_actor_type log) (al_actor log),
     lv_method = al_method log, lv_url = al_url log, lv_content = al_content log,
     lv_targets = map (\<lambda>rel. resolve_version sn (tr_entity_type rel) (tr_entity_registry_uid rel)) (rels (al_log_id log)),
     lv_custom = al_custom log\<rparr>"

definition page_relations ::
  "senv \<Rightarrow> fs \<Rightarrow> log_query \<Rightarrow> read_snapshot \<Rightarrow> uid set \<Rightarrow> (uid \<Rightarrow> target_relation list) res" where
  "page_relations E w q sn wanted =
     (if wanted = {} then Inr (\<lambda>_. [])
      else fst (ps_loop (se_ext E) (se_relations E) w (collect_rels wanted)
                  (positioned_new (rs_relations sn) False (q_from_micros q) (q_to_micros q) None) (\<lambda>_. [])))"

definition snapshot_query_page :: "senv \<Rightarrow> fs \<Rightarrow> log_query \<Rightarrow> query_page qop" where
  "snapshot_query_page E w q =
     seqE (resolve_filters E w q) (\<lambda>fl sn.
       (rbind (log_scan E q sn) (\<lambda>scan.
        case ps_loop (se_ext E) (se_logs E) w (page_step fl q) scan ([], False) of
          (Inl e, _) \<Rightarrow> Inl e
        | (Inr (hits, further), scan') \<Rightarrow>
            rbind (page_relations E w q sn (set (map (al_log_id \<circ> snd) hits))) (\<lambda>rels.
            Inr \<lparr>qp_logs = map (\<lambda>(_, log). render sn log rels) hits,
                 qp_next_cursor = (if further \<and> hits \<noteq> [] then Some (encode_cursor (se_cursor E) (q_order q) (fst (last hits)))
                                   else None),
                 qp_segments_scanned = ps_opened scan'\<rparr>)), sn))"

definition snapshot_query :: "senv \<Rightarrow> fs \<Rightarrow> log_query \<Rightarrow> log_view list qop" where
  "snapshot_query E w q = seqE (snapshot_query_page E w q) (\<lambda>page. retE (qp_logs page))"

definition count_step :: "resolved_filters \<Rightarrow> log_query \<Rightarrow> position \<times> audit_log \<Rightarrow> nat \<Rightarrow> nat \<times> bool" where
  "count_step fl q = (\<lambda>(_, log) n. (if filters_match fl q log then n + 1 else n, True))"

definition snapshot_count :: "senv \<Rightarrow> fs \<Rightarrow> log_query \<Rightarrow> nat qop" where
  "snapshot_count E w q =
     seqE (resolve_filters E w q) (\<lambda>fl sn.
       let q' = q\<lparr>q_cursor := None, q_order := Asc\<rparr>
       in (rbind (log_scan E q' sn) (\<lambda>scan.
             fst (ps_loop (se_ext E) (se_logs E) w (count_step fl q') scan 0)), sn))"

section \<open>Queries on the store\<close>

definition with_snapshot :: "(fs \<Rightarrow> 'a qop) \<Rightarrow> 'a stop" where
  "with_snapshot m = seqE store_snapshot (\<lambda>sn (s, w). (fst (m w sn), (s, w)))"

text \<open>\<open>u\<close> and \<open>now\<close> belong to the access record.\<close>

definition query_as :: "senv \<Rightarrow> uid \<Rightarrow> u64 \<Rightarrow> string \<Rightarrow> log_query \<Rightarrow> log_view list stop" where
  "query_as E u now actor q =
     seqE (with_snapshot (\<lambda>w. snapshot_query E w q)) (\<lambda>hits.
     seqE (record_access E
             (access_new u now actor ''query_logs'' (summarize_log_query (se_json E) q) (Some (length hits)))) (\<lambda>_.
     retE hits))"

definition store_query :: "senv \<Rightarrow> uid \<Rightarrow> u64 \<Rightarrow> log_query \<Rightarrow> log_view list stop" where
  "store_query E u now q = query_as E u now ''local'' q"

definition store_query_page :: "senv \<Rightarrow> log_query \<Rightarrow> query_page stop" where
  "store_query_page E q = with_snapshot (\<lambda>w. snapshot_query_page E w q)"

definition store_count :: "senv \<Rightarrow> log_query \<Rightarrow> nat stop" where
  "store_count E q = with_snapshot (\<lambda>w. snapshot_count E w q)"

end
