(* ===== verification/Query_Facts.thy ===== *)
theory Query_Facts
  imports Store_Query
begin

text \<open>
  What queries return, stated over the decoded rows of the log and relation tables: the loops of
  \<open>query_page\<close>, \<open>count\<close> and the filter resolution are filters and prefixes of those lists.
\<close>

section \<open>Decoded rows\<close>

type_synonym 'r prow = "position \<times> u64 \<times> 'r"

definition decoded :: "'r codec \<Rightarrow> numbered list \<Rightarrow> 'r prow list \<Rightarrow> bool" where
  "decoded C = list_all2 (\<lambda>(pos, ts, p) (pos', ts', r). pos = pos' \<and> ts = ts' \<and> c_de C p = Inr r)"

text \<open>The time range and the cursor, on decoded rows.\<close>

definition wanted_row ::
  "bool \<Rightarrow> u64 option \<Rightarrow> u64 option \<Rightarrow> position option \<Rightarrow> 'r prow \<Rightarrow> bool" where
  "wanted_row desc from to after r \<longleftrightarrow>
     (case from of None \<Rightarrow> True | Some a \<Rightarrow> a \<le> fst (snd r)) \<and>
     (case to of None \<Rightarrow> True | Some b \<Rightarrow> fst (snd r) \<le> b) \<and>
     (case after of None \<Rightarrow> True | Some p \<Rightarrow> if desc then pos_less (fst r) p else pos_less p (fst r))"

definition row_part :: "'r prow \<Rightarrow> position \<times> 'r" where
  "row_part r = (fst r, snd (snd r))"

lemma decoded_rows:
  assumes "decoded C es rs"
  shows "decode_rows C (filter (asked desc from to after) es) = Inr (map row_part (filter (wanted_row desc from to after) rs))"
  using assms unfolding decoded_def
proof (induction rule: list_all2_induct)
  case Nil
  then show ?case by (simp add: decode_rows_def)
next
  case (Cons e es r rs)
  obtain pos ts p x where e: "e = (pos, ts, p)" "r = (pos, ts, x)" "c_de C p = Inr x"
    using Cons(1) by (cases e; cases r) auto
  have "asked desc from to after e = wanted_row desc from to after r"
    by (simp add: e asked_def wanted_row_def split: option.splits)
  then show ?case using Cons e by (simp add: decode_rows_def row_part_def)
qed

lemma decoded_order: "decoded C es rs \<Longrightarrow> decoded C (query_order d es) (query_order d rs)"
  by (simp add: decoded_def query_order_def list_all2_rev)

text \<open>A table whose snapshot is on the disk, with its rows decoded.\<close>

definition table_rows ::
  "ext \<Rightarrow> seg_meta codec \<Rightarrow> 'r codec \<Rightarrow> table \<Rightarrow> fs \<Rightarrow> 'r prow list \<Rightarrow> bool" where
  "table_rows X M C t w rs \<longleftrightarrow> files_fit w \<and> (\<exists>vs v w0. tbl_inv X M vs v t w0 \<and> snap_ok X vs v t w \<and>
     decoded C (table_numbered t vs v) rs)"

lemma table_rows_loop:
  assumes "table_rows X M C t w rs"
  shows "\<exists>s'. ps_loop X C w body (positioned_new (slices_of t) desc from to after) acc =
    (Inr (list_loop body (map row_part (filter (wanted_row desc from to after) (query_order desc rs))) acc), s')"
proof -
  obtain vs v w0 where t: "tbl_inv X M vs v t w0" "snap_ok X vs v t w" "files_fit w"
    and d: "decoded C (table_numbered t vs v) rs" using assms by (auto simp: table_rows_def)
  show ?thesis using table_loop [OF t decoded_rows [OF decoded_order [OF d]]] .
qed

lemma table_rows_sorted:
  assumes "table_rows X M C t w rs"
  shows "sorted_wrt (\<lambda>a b. pos_less (fst a) (fst b)) rs"
proof -
  obtain vs v w0 where t: "tbl_inv X M vs v t w0" and d: "decoded C (table_numbered t vs v) rs"
    using assms by (auto simp: table_rows_def)
  have "map fst rs = map fst (table_numbered t vs v)"
    using d unfolding decoded_def by (induction rule: list_all2_induct) auto
  then show ?thesis using table_numbered_sorted [OF t]
    by (metis sorted_wrt_map)
qed

section \<open>The loop bodies\<close>

lemma page_loop:
  "list_loop (page_step fl q) rows (hits, False) =
     (let m = filter (filters_match fl q \<circ> snd) rows in
      case q_limit q of
        None \<Rightarrow> (hits @ m, False)
      | Some n \<Rightarrow> (hits @ take (n - length hits) m, length m > n - length hits))"
proof (induction rows arbitrary: hits)
  case Nil
  then show ?case by (simp split: option.splits)
next
  case (Cons x rows)
  obtain pos log where x: "x = (pos, log)" by (cases x)
  show ?case
  proof (cases "filters_match fl q log")
    case False
    then show ?thesis using Cons by (simp add: x page_step_def)
  next
    case True
    show ?thesis
    proof (cases "q_limit q")
      case None
      then show ?thesis using True Cons by (simp add: x page_step_def)
    next
      case (Some n)
      show ?thesis
      proof (cases "n \<le> length hits")
        case True
        then show ?thesis using \<open>filters_match fl q log\<close> Some by (simp add: x page_step_def)
      next
        case False
        then have "n - length hits = Suc (n - Suc (length hits))" by simp
        then show ?thesis using True Some False Cons by (simp add: x page_step_def Let_def)
      qed
    qed
  qed
qed

lemma count_loop: "list_loop (count_step fl q) rows n = n + length (filter (filters_match fl q \<circ> snd) rows)"
  by (induction rows arbitrary: n) (auto simp: count_step_def)

lemma log_ids_loop: "list_loop (collect_log_ids uids) rows out =
    out \<union> {tr_log_id rel |rel. rel \<in> snd ` set rows \<and> tr_entity_registry_uid rel \<in> uids}"
proof (induction rows arbitrary: out)
  case (Cons x rows)
  then show ?case by (cases x) (auto simp: collect_log_ids_def)
qed simp

lemma rels_loop: "list_loop (collect_rels wanted) rows m =
    (\<lambda>i. m i @ (if i \<in> wanted then filter (\<lambda>rel. tr_log_id rel = i) (map snd rows) else []))"
proof (induction rows arbitrary: m)
  case (Cons x rows)
  then show ?case by (cases x) (auto simp: collect_rels_def fun_eq_iff)
qed (auto simp: fun_eq_iff)

section \<open>Queries on a snapshot\<close>

text \<open>
  A snapshot of two tables whose files are still on the disk: \<open>L\<close> are the log rows, \<open>Rs\<close> the
  relation rows.
\<close>

definition snapshot_holds ::
  "senv \<Rightarrow> fs \<Rightarrow> audit_log prow list \<Rightarrow> target_relation prow list \<Rightarrow> read_snapshot \<Rightarrow> bool" where
  "snapshot_holds E w L Rs sn \<longleftrightarrow>
     (\<exists>t. rs_logs sn = slices_of t \<and> table_rows (se_ext E) (se_meta E) (se_logs E) t w L) \<and>
     (\<exists>t. rs_relations sn = slices_of t \<and> table_rows (se_ext E) (se_meta E) (se_relations E) t w Rs)"

text \<open>What a filter stands for, given the versions it accepts.\<close>

definition touched_logs :: "u64 option \<Rightarrow> u64 option \<Rightarrow> target_relation prow list \<Rightarrow> uid set \<Rightarrow> uid set" where
  "touched_logs from to Rs uids =
     {tr_log_id (snd (snd r)) |r. r \<in> set Rs \<and> wanted_row False from to None r \<and> tr_entity_registry_uid (snd (snd r)) \<in> uids}"

definition matching :: "resolved_filters \<Rightarrow> log_query \<Rightarrow> position option \<Rightarrow> audit_log prow list \<Rightarrow> audit_log prow list" where
  "matching fl q after L =
     filter (\<lambda>r. wanted_row (q_order q = Desc) (q_from_micros q) (q_to_micros q) after r \<and> filters_match fl q (snd (snd r)))
       (query_order (q_order q = Desc) L)"

definition relations_of :: "log_query \<Rightarrow> target_relation prow list \<Rightarrow> uid \<Rightarrow> target_relation list" where
  "relations_of q Rs i =
     filter (\<lambda>rel. tr_log_id rel = i) (map (snd \<circ> snd) (filter (wanted_row False (q_from_micros q) (q_to_micros q) None) Rs))"

lemma rels_scan:
  assumes "snapshot_holds E w L Rs sn"
  shows "\<exists>s'. ps_loop (se_ext E) (se_relations E) w body (positioned_new (rs_relations sn) False from to None) acc =
    (Inr (list_loop body (map row_part (filter (wanted_row False from to None) Rs)) acc), s')"
proof -
  obtain t where t: "rs_relations sn = slices_of t" "table_rows (se_ext E) (se_meta E) (se_relations E) t w Rs"
    using assms by (auto simp: snapshot_holds_def)
  show ?thesis using table_rows_loop [OF t(2), of body False "from" to None acc] by (simp add: t(1) query_order_def)
qed

lemma logs_scan:
  assumes "snapshot_holds E w L Rs sn" and "log_scan E q sn = Inr scan"
    and "query_after E q = Inr after"
  shows "\<exists>s'. ps_loop (se_ext E) (se_logs E) w body scan acc =
    (Inr (list_loop body (map row_part (filter (wanted_row (q_order q = Desc) (q_from_micros q) (q_to_micros q) after)
       (query_order (q_order q = Desc) L))) acc), s')"
proof -
  obtain t where t: "rs_logs sn = slices_of t" "table_rows (se_ext E) (se_meta E) (se_logs E) t w L"
    using assms(1) by (auto simp: snapshot_holds_def)
  have "scan = positioned_new (slices_of t) (q_order q = Desc) (q_from_micros q) (q_to_micros q) after"
    using assms(2,3) t(1) by (simp add: log_scan_def)
  then show ?thesis using table_rows_loop [OF t(2)] by simp
qed

lemma log_ids_for_filter_set:
  assumes "snapshot_holds E w L Rs sn'" and "version_uids_for_filter E f sn = (Inr uids, sn')"
  shows "log_ids_for_filter E w f from to sn = (Inr (touched_logs from to Rs uids), sn')"
proof -
  obtain s' where "ps_loop (se_ext E) (se_relations E) w (collect_log_ids uids)
      (positioned_new (rs_relations sn') False from to None) {} =
      (Inr (list_loop (collect_log_ids uids) (map row_part (filter (wanted_row False from to None) Rs)) {}), s')"
    using rels_scan [OF assms(1), of "collect_log_ids uids" "from" to "{}"] by blast
  moreover have "{tr_log_id rel |rel. rel \<in> snd ` set (map row_part (filter (wanted_row False from to None) Rs)) \<and>
      tr_entity_registry_uid rel \<in> uids} = touched_logs from to Rs uids"
    by (auto simp only: touched_logs_def row_part_def set_map set_filter image_image snd_conv)
  ultimately show ?thesis using assms(2) by (simp add: log_ids_for_filter_def seqE_def log_ids_loop)
qed

text \<open>One page: the first matches, their relations, and the cursor when there are more.\<close>

definition page_of ::
  "senv \<Rightarrow> read_snapshot \<Rightarrow> log_query \<Rightarrow> target_relation prow list \<Rightarrow> audit_log prow list \<Rightarrow> nat \<Rightarrow> query_page" where
  "page_of E sn q Rs m opened =
     (let hits = (case q_limit q of None \<Rightarrow> m | Some n \<Rightarrow> take n m)
      in \<lparr>qp_logs = map (\<lambda>r. render sn (snd (snd r)) (relations_of q Rs)) hits,
          qp_next_cursor = (if hits \<noteq> [] \<and> length hits < length m
                            then Some (encode_cursor (se_cursor E) (q_order q) (fst (last hits))) else None),
          qp_segments_scanned = opened\<rparr>)"

lemma query_page_rows:
  assumes h: "snapshot_holds E w L Rs sn'" and fl: "resolve_filters E w q sn = (Inr fl, sn')"
    and cur: "query_after E q = Inr after"
  shows "\<exists>opened. snapshot_query_page E w q sn = (Inr (page_of E sn' q Rs (matching fl q after L) opened), sn')"
proof -
  obtain scan where scan: "log_scan E q sn' = Inr scan"
    using cur by (simp add: log_scan_def)
  let ?rows = "map row_part (filter (wanted_row (q_order q = Desc) (q_from_micros q) (q_to_micros q) after)
       (query_order (q_order q = Desc) L))"
  let ?m = "filter (filters_match fl q \<circ> snd) ?rows"
  have m: "?m = map row_part (matching fl q after L)"
    by (simp add: matching_def filter_map comp_def row_part_def conj_commute)
  obtain s' where loop: "ps_loop (se_ext E) (se_logs E) w (page_step fl q) scan ([], False) =
      (Inr (list_loop (page_step fl q) ?rows ([], False)), s')"
    using logs_scan [OF h scan cur, of "page_step fl q" "([], False)"] by blast
  define hits where "hits = (case q_limit q of None \<Rightarrow> matching fl q after L | Some n \<Rightarrow> take n (matching fl q after L))"
  have ll: "list_loop (page_step fl q) ?rows ([], False) =
      (map row_part hits, length hits < length (matching fl q after L))"
    unfolding page_loop Let_def m by (auto simp: hits_def take_map split: option.splits)
  let ?wanted = "set (map (al_log_id \<circ> snd) (map row_part hits))"
  have rels: "\<exists>f. page_relations E w q sn' ?wanted = Inr f \<and> (\<forall>i \<in> ?wanted. f i = relations_of q Rs i)"
  proof (cases "?wanted = {}")
    case True
    then show ?thesis by (simp add: page_relations_def)
  next
    case False
    obtain s2 where "ps_loop (se_ext E) (se_relations E) w (collect_rels ?wanted)
        (positioned_new (rs_relations sn') False (q_from_micros q) (q_to_micros q) None) (\<lambda>_. []) =
        (Inr (list_loop (collect_rels ?wanted)
           (map row_part (filter (wanted_row False (q_from_micros q) (q_to_micros q) None) Rs)) (\<lambda>_. [])), s2)"
      using rels_scan [OF h, of "collect_rels ?wanted" "q_from_micros q" "q_to_micros q" "\<lambda>_. []"] by blast
    then show ?thesis using False
      by (simp only: page_relations_def if_False rels_loop fst_conv)
        (simp add: relations_of_def comp_def row_part_def)
  qed
  then obtain f where f: "page_relations E w q sn' ?wanted = Inr f" "\<forall>i \<in> ?wanted. f i = relations_of q Rs i" by blast
  have r: "map (\<lambda>(_, log). render sn' log f) (map row_part hits) = map (\<lambda>r. render sn' (snd (snd r)) (relations_of q Rs)) hits"
    using f(2) by (auto simp: render_def row_part_def)
  have last: "hits \<noteq> [] \<Longrightarrow> fst (last (map row_part hits)) = fst (last hits)" by (simp add: last_map row_part_def)
  have "snapshot_query_page E w q sn = (Inr \<lparr>qp_logs = map (\<lambda>(_, log). render sn' log f) (map row_part hits),
      qp_next_cursor = (if hits \<noteq> [] \<and> length hits < length (matching fl q after L)
         then Some (encode_cursor (se_cursor E) (q_order q) (fst (last hits))) else None),
      qp_segments_scanned = ps_opened s'\<rparr>, sn')"
    using fl scan loop f(1) last unfolding ll
    by (cases "hits = []") (simp_all add: snapshot_query_page_def seqE_def image_image)
  then show ?thesis unfolding r by (auto simp: page_of_def hits_def Let_def)
qed

lemma count_rows:
  assumes h: "snapshot_holds E w L Rs sn'" and fl: "resolve_filters E w q sn = (Inr fl, sn')"
  shows "snapshot_count E w q sn = (Inr (length (matching fl (q\<lparr>q_cursor := None, q_order := Asc\<rparr>) None L)), sn')"
proof -
  let ?q = "q\<lparr>q_cursor := None, q_order := Asc\<rparr>"
  obtain scan where scan: "log_scan E ?q sn' = Inr scan" by (simp add: log_scan_def query_after_def)
  let ?rows = "map row_part (filter (wanted_row (q_order ?q = Desc) (q_from_micros ?q) (q_to_micros ?q) None)
       (query_order (q_order ?q = Desc) L))"
  obtain s' where loop: "ps_loop (se_ext E) (se_logs E) w (count_step fl ?q) scan 0 =
      (Inr (list_loop (count_step fl ?q) ?rows 0), s')"
    using logs_scan [OF h scan, of None "count_step fl ?q" 0] by (auto simp: query_after_def)
  have "filter (filters_match fl ?q \<circ> snd) ?rows = map row_part (matching fl ?q None L)"
    by (simp add: matching_def filter_map comp_def row_part_def conj_commute)
  then have "list_loop (count_step fl ?q) ?rows 0 = length (matching fl ?q None L)"
    unfolding count_loop by simp
  then show ?thesis using fl scan loop by (simp add: snapshot_count_def seqE_def Let_def)
qed

end
