(* ===== verification/Kept_Table.thy ===== *)
theory Kept_Table
  imports Registry_Laws Query_Facts
begin

text \<open>
  Tables as a store sees them: a table keeps a list of time-stamped values, and nothing outside its
  directory matters to it. The second fact is a contract of its own, shared by tables and
  registries, from which the components of a store stay valid while one of them changes.
\<close>

section \<open>Components that live in a directory\<close>

locale local_state =
  fixes holds :: "'v \<Rightarrow> 'c \<Rightarrow> fs \<Rightarrow> bool" and dir_of :: "'c \<Rightarrow> path"
  assumes local: "same_outside d w w' \<Longrightarrow> dir_of c \<noteq> d \<Longrightarrow> holds v c w \<Longrightarrow> holds v c w'"
begin

definition all_hold :: "('k \<Rightarrow> 'v) \<Rightarrow> ('k \<times> 'c) list \<Rightarrow> fs \<Rightarrow> bool" where
  "all_hold V cs w \<longleftrightarrow> (\<forall>(k, c) \<in> set cs. holds (V k) c w)"

definition apart :: "path \<Rightarrow> ('k \<times> 'c) list \<Rightarrow> bool" where
  "apart d cs \<longleftrightarrow> (\<forall>(k, c) \<in> set cs. dir_of c \<noteq> d)"

lemma all_local: "all_hold V cs w \<Longrightarrow> apart d cs \<Longrightarrow> same_outside d w w' \<Longrightarrow> all_hold V cs w'"
  unfolding all_hold_def apart_def using local by fast

text \<open>One component changes within its directory, the others live elsewhere.\<close>

lemma all_update:
  assumes all: "all_hold V cs w" and d: "distinct (map fst cs)" and one: "map_of cs k = Some c"
    and others: "\<And>k' e. (k', e) \<in> set cs \<Longrightarrow> k' \<noteq> k \<Longrightarrow> dir_of e \<noteq> dir_of c"
    and out: "same_outside (dir_of c) w w'" and new: "holds v c' w'"
  shows "all_hold (V(k := v)) (AList.update k c' cs) w'"
proof -
  have "holds ((V(k := v)) k') e w'" if "(k', e) \<in> set (AList.update k c' cs)" for k' e
  proof (cases "k' = k")
    case True
    have "distinct (map fst (AList.update k c' cs))" using d by (rule distinct_update)
    then have "map_of (AList.update k c' cs) k' = Some e" using that by (simp add: map_of_is_SomeI)
    then show ?thesis using True new by (simp add: update_conv')
  next
    case False
    have "distinct (map fst (AList.update k c' cs))" using d by (rule distinct_update)
    then have "map_of (AList.update k c' cs) k' = Some e" using that by (simp add: map_of_is_SomeI)
    then have m: "(k', e) \<in> set cs" using False by (simp add: update_conv' map_of_SomeD)
    then have "holds (V k') e w" using all by (auto simp: all_hold_def)
    then show ?thesis using local [OF out others [OF m False]] False by simp
  qed
  then show ?thesis by (auto simp: all_hold_def)
qed

end

section \<open>Tables\<close>

text \<open>The rows of the table are the encodings of \<open>xs\<close> with their timestamps.\<close>

definition rows_keep :: "'r codec \<Rightarrow> (u64 \<times> 'r) list \<Rightarrow> row list \<Rightarrow> bool" where
  "rows_keep C xs rows \<longleftrightarrow> list_all2 (\<lambda>(ts, x) row. fst row = ts \<and> c_ser C x = Inr (snd row)) xs rows"

lemma rows_keep_snoc: "rows_keep C xs rows \<Longrightarrow> c_ser C x = Inr p \<Longrightarrow> rows_keep C (xs @ [(ts, x)]) (rows @ [(ts, p)])"
  unfolding rows_keep_def by (intro list_all2_appendI) simp_all

definition keeps :: "ext \<Rightarrow> seg_meta codec \<Rightarrow> 'r codec \<Rightarrow> (u64 \<times> 'r) list \<Rightarrow> table \<Rightarrow> fs \<Rightarrow> bool" where
  "keeps X M C xs t w \<longleftrightarrow> (\<exists>vs v. tbl_inv X M vs v t w \<and> linked X (vs @ [v]) \<and>
     rows_keep C xs (view_rows (vs @ [v])))"

lemma keepsI:
  "tbl_inv X M vs v t w \<Longrightarrow> linked X (vs @ [v]) \<Longrightarrow> rows_keep C xs (view_rows (vs @ [v])) \<Longrightarrow> keeps X M C xs t w"
  unfolding keeps_def by blast

lemma keepsE:
  assumes "keeps X M C xs t w"
  obtains vs v where "tbl_inv X M vs v t w" "linked X (vs @ [v])" "rows_keep C xs (view_rows (vs @ [v]))"
  using assms unfolding keeps_def by blast

interpretation kept_table: local_state "keeps X M C" t_dir for X M C
  by unfold_locales (auto simp: keeps_def tbl_inv_other)

interpretation kept_registry: local_state "reg_inv E" "\<lambda>g. t_dir (tg_table g)" for E
  by unfold_locales (auto simp: reg_inv_def tbl_inv_other)

text \<open>What a step of a table leaves alone.\<close>

definition table_step :: "nat \<Rightarrow> table \<Rightarrow> fs \<Rightarrow> table \<Rightarrow> fs \<Rightarrow> bool" where
  "table_step n t w t' w' \<longleftrightarrow> same_outside (t_dir t) w w' \<and> t_dir t' = t_dir t \<and>
     t_max_segment_bytes t' = t_max_segment_bytes t \<and> t_active_seq t' \<le> t_active_seq t + n"

lemma table_step_active:
  "same_outside (t_dir t) w w' \<Longrightarrow> t' = t\<lparr>t_active := t_active t'\<rparr> \<Longrightarrow> table_step 0 t w t' w'"
proof -
  assume s: "same_outside (t_dir t) w w'" and t: "t' = t\<lparr>t_active := t_active t'\<rparr>"
  have "t_dir t' = t_dir t" "t_max_segment_bytes t' = t_max_segment_bytes t" "t_active_seq t' = t_active_seq t"
    by (subst t, simp)+
  then show ?thesis using s by (simp add: table_step_def)
qed

lemma table_step_trans:
  "table_step n t w t1 w1 \<Longrightarrow> table_step m t1 w1 t2 w2 \<Longrightarrow> table_step (n + m) t w t2 w2"
  unfolding table_step_def by (auto intro: same_outside_trans)

lemma table_step_refl: "table_step 0 t w t w"
  by (simp add: table_step_def)

lemma table_step_quiet: "table_step n t w t' w' \<Longrightarrow> quiet w \<Longrightarrow> quiet w'"
  by (simp add: table_step_def same_outside_def)

lemma table_step_Suc: "table_step 0 t w t' w' \<Longrightarrow> table_step (Suc 0) t w t' w'"
  by (simp add: table_step_def)

lemma keeps_append:
  assumes k: "keeps X M C xs t w" and q: "quiet w" and room: "t_active_seq t < u64_max_nat"
    and run: "table_append X M C x ts (t, w) = (r, (t', w'))"
  shows "table_step 1 t w t' w' \<and>
    (case r of Inr _ \<Rightarrow> keeps X M C (xs @ [(ts, x)]) t' w' | Inl e \<Rightarrow> keeps X M C xs t' w')"
proof -
  from k obtain vs v where inv: "tbl_inv X M vs v t w" and lk: "linked X (vs @ [v])"
    and enc: "rows_keep C xs (view_rows (vs @ [v]))" by (rule keepsE)
  from inv room run show ?thesis
  proof (cases rule: table_append_cases)
    case (ok p vs' v')
    have "rows_keep C (xs @ [(ts, x)]) (view_rows (vs' @ [v']))"
      unfolding view_append_rows [OF ok(4)] using enc ok(2) by (rule rows_keep_snoc)
    then have "keeps X M C (xs @ [(ts, x)]) t' w'"
      using ok(5) view_append_linked [OF ok(4) lk] by (intro keepsI)
    then show ?thesis using ok by (simp add: table_step_def)
  next
    case (codec e)
    then show ?thesis using k by (simp add: table_step_def)
  next
    case (large p vs' v')
    have "view_rows (vs' @ [v']) = view_rows (vs @ [v])" "linked X (vs' @ [v'])"
      using large(4) lk by (auto simp: linked_snoc split: if_splits)
    then have "keeps X M C xs t' w'" using keepsI [OF large(5), of C xs] enc by simp
    then show ?thesis using large by (simp add: table_step_def)
  next
    case (fault i)
    then show ?thesis using q by simp
  qed
qed

lemma keeps_flush:
  assumes k: "keeps X M C xs t w" and q: "quiet w" and run: "table_flush (t, w) = (r, (t', w'))"
  shows "r = Inr () \<and> keeps X M C xs t' w' \<and> table_step 0 t w t' w' \<and> slices_of t' = slices_of t \<and>
    seg_buf (t_active t') = []"
proof -
  from k obtain vs v where inv: "tbl_inv X M vs v t w" "linked X (vs @ [v])" "rows_keep C xs (view_rows (vs @ [v]))"
    by (rule keepsE)
  from inv(1) run show ?thesis
  proof (cases rule: table_flush_cases)
    case ok
    then show ?thesis using keepsI [OF ok(2) inv(2,3)] table_step_active [OF ok(3,4)] by simp
  qed (use q in simp)
qed

lemma keeps_sync:
  assumes k: "keeps X M C xs t w" and q: "quiet w" and run: "table_sync (t, w) = (r, (t', w'))"
  shows "r = Inr () \<and> keeps X M C xs t' w' \<and> table_step 0 t w t' w'"
proof -
  from k obtain vs v where inv: "tbl_inv X M vs v t w" "linked X (vs @ [v])" "rows_keep C xs (view_rows (vs @ [v]))"
    by (rule keepsE)
  from inv(1) run show ?thesis
  proof (cases rule: table_sync_cases)
    case ok
    then show ?thesis using keepsI [OF ok(2) inv(2,3)] table_step_active [OF ok(3,4)] by simp
  qed (use q in simp)
qed

text \<open>A snapshot of the table reads back the values, with ascending positions.\<close>

lemma numbered_rows: "map snd (table_numbered t vs v) = view_rows (vs @ [v])" if "length (t_sealed t) = length vs"
proof -
  have "map snd (concat (map2 (\<lambda>seq u. number_from seq 0 (snd u)) seqs us)) = concat (map snd us)"
    if "length seqs = length us" for seqs and us :: "seg_view list"
    using that by (induction seqs us rule: list_induct2) (simp_all add: number_from_def)
  then show ?thesis using that by (simp add: table_numbered_def view_rows_def number_from_def)
qed

lemma decoded_exists:
  assumes C: "codec_ok C" and k: "rows_keep C xs (map snd es)"
  shows "\<exists>rs. decoded C es rs \<and> map snd rs = xs"
  using k unfolding rows_keep_def
proof (induction es arbitrary: xs)
  case Nil
  then show ?case by (intro exI [of _ "[]"]) (simp add: decoded_def)
next
  case (Cons e es)
  obtain ts x xs' where xs: "xs = (ts, x) # xs'" using Cons.prems by (cases xs) auto
  obtain pos p where e: "e = (pos, ts, p)" "c_ser C x = Inr p" using Cons.prems xs by (cases e) auto
  obtain rs where rs: "decoded C es rs" "map snd rs = xs'" using Cons xs by auto
  have "c_de C p = Inr x" using C e(2) by (simp add: codec_ok_def)
  then show ?case using rs e(1) xs by (intro exI [of _ "(pos, ts, x) # rs"]) (simp add: decoded_def)
qed

definition table_view ::
  "ext \<Rightarrow> seg_meta codec \<Rightarrow> 'r codec \<Rightarrow> table \<Rightarrow> fs \<Rightarrow> 'r prow list \<Rightarrow> bool" where
  "table_view X M C t w rs \<longleftrightarrow> (\<exists>vs v w0. tbl_inv X M vs v t w0 \<and> snap_ok X vs v t w \<and>
     decoded C (table_numbered t vs v) rs)"

lemma table_view_rows: "files_fit w \<Longrightarrow> table_view X M C t w rs \<Longrightarrow> table_rows X M C t w rs"
  by (simp add: table_rows_def table_view_def)

lemma table_view_local:
  assumes "same_outside d w w'" and "t_dir t \<noteq> d" and "table_view X M C t w rs"
  shows "table_view X M C t w' rs"
proof -
  have f: "fget w' (t_dir t @ [x]) = fget w (t_dir t @ [x])" for x using assms(1,2) by (simp add: same_outside_def)
  have "sealed_ok X w' (t_dir t) = sealed_ok X w (t_dir t)" by (intro ext) (simp add: sealed_ok_def segment_path_def f)
  then have "snap_ok X vs v t w' = snap_ok X vs v t w" for vs v by (simp add: snap_ok_def segment_path_def f)
  then show ?thesis using assms(3) by (simp add: table_view_def)
qed

lemma keeps_slices:
  assumes k: "keeps X M C xs t w" and q: "quiet w" and C: "codec_ok C"
    and run: "table_slices (t, w) = (r, (t', w'))"
  shows "r = Inr (slices_of t') \<and> (\<exists>rs. table_view X M C t' w' rs \<and> map snd rs = xs) \<and>
    keeps X M C xs t' w' \<and> table_step 0 t w t' w'"
proof -
  from k obtain vs v where inv: "tbl_inv X M vs v t w" "linked X (vs @ [v])" "rows_keep C xs (view_rows (vs @ [v]))"
    by (rule keepsE)
  obtain r1 t1 w1 where fl: "table_flush (t, w) = (r1, (t1, w1))" by (metis surj_pair)
  from inv(1) fl show ?thesis
  proof (cases rule: table_flush_cases)
    case ok
    have w': "w' = w1" "t' = t1" "r = Inr (slices_of t')"
      using run fl ok(1) by (auto simp: table_slices_def seqE_def)
    have e: "t_dir t1 = t_dir t" "t_active_seq t1 = t_active_seq t" "t_sealed t1 = t_sealed t"
      by (subst ok(4), simp)+
    have snap: "snap_ok X vs v t1 w1" using ok(2,7) by (auto simp: snap_ok_def tbl_inv_def e)
    have "length (t_sealed t1) = length vs" using ok(2) by (auto simp: tbl_inv_def dest: list_all2_lengthD)
    then obtain rs where "decoded C (table_numbered t1 vs v) rs" "map snd rs = xs"
      using decoded_exists [OF C, of xs "table_numbered t1 vs v"] inv(3) numbered_rows by metis
    then show ?thesis using w' snap ok(2) keepsI [OF ok(2) inv(2,3)] table_step_active [OF ok(3,4)]
      unfolding table_view_def by blast
  qed (use q in simp)
qed

end
