(* ===== verification/Store_Inv.thy ===== *)
theory Store_Inv
  imports Kept_Table Registry_Search
begin

text \<open>
  The invariant of the audit store, on a disk without faults: every table keeps the rows of a ghost
  list in its own directory, every registry its records. The operations that write keep it; the
  contract \<open>local_state\<close> says why the components they do not touch stay valid.
\<close>

lemma mem_alist_update:
  assumes "distinct (map fst xs)"
  shows "(k', e) \<in> set (AList.update k v xs) \<longleftrightarrow> (if k' = k then e = v else (k', e) \<in> set xs)"
proof -
  have "distinct (map fst (AList.update k v xs))" using assms by (rule distinct_update)
  then have "(k', e) \<in> set (AList.update k v xs) \<longleftrightarrow> map_of (AList.update k v xs) k' = Some e"
    by (rule map_of_eq_Some_iff [symmetric])
  then show ?thesis using map_of_eq_Some_iff [OF assms, of k' e] by (auto simp: update_conv')
qed

section \<open>Registry steps are local\<close>

lemma on_tg_table_step:
  assumes "on_tg_table m (g, w) = (r, (g', w'))"
  shows "m (tg_table g, w) = (r, (tg_table g', w')) \<and> g' = g\<lparr>tg_table := tg_table g'\<rparr>"
  using assms by (auto simp: on_tg_table_def split: prod.splits)

lemma rows_encode_keep: "rows_encode C recs rows \<Longrightarrow> rows_keep C (zip (map fst rows) recs) rows"
  unfolding rows_keep_def rows_encode_def by (induction rule: list_all2_induct) simp_all

lemma reg_inv_table:
  assumes "reg_inv E recs g w"
  obtains xs where "keeps (re_ext E) (re_meta E) (re_codec E) xs (tg_table g) w"
proof -
  obtain vs v where t: "tbl_inv (re_ext E) (re_meta E) vs v (tg_table g) w" "linked (re_ext E) (vs @ [v])"
    and e: "rows_encode (re_codec E) recs (view_rows (vs @ [v]))" using assms unfolding reg_inv_def by blast
  show ?thesis using that keepsI [OF t rows_encode_keep [OF e]] by blast
qed

lemma reg_store_record_step:
  assumes k: "keeps (re_ext E) (re_meta E) (re_codec E) xs (tg_table g) w" and q: "quiet w" and room: "t_active_seq (tg_table g) < u64_max_nat"
    and run: "reg_store_record E rec (g, w) = (r, (g', w'))"
  shows "table_step 1 (tg_table g) w (tg_table g') w'"
proof -
  obtain r1 g1 w1 where a: "on_tg_table (table_append (re_ext E) (re_meta E) (re_codec E) rec (rr_recorded_at rec)) (g, w)
      = (r1, (g1, w1))" by (metis surj_pair)
  have A: "table_step 1 (tg_table g) w (tg_table g1) w1 \<and>
      (case r1 of Inr _ \<Rightarrow> keeps (re_ext E) (re_meta E) (re_codec E) (xs @ [(rr_recorded_at rec, rec)]) (tg_table g1) w1
       | Inl e \<Rightarrow> keeps (re_ext E) (re_meta E) (re_codec E) xs (tg_table g1) w1)"
    using keeps_append [OF k q room conjunct1 [OF on_tg_table_step [OF a]]] .
  show ?thesis
  proof (cases r1)
    case (Inl e)
    then show ?thesis using A run a by (simp add: reg_store_record_def seqE_def)
  next
    case (Inr u)
    obtain r2 g2 w2 where b: "on_tg_table table_flush (g1, w1) = (r2, (g2, w2))" by (metis surj_pair)
    have "quiet w1" using A table_step_quiet q by blast
    then have B: "r2 = Inr () \<and> table_step 0 (tg_table g1) w1 (tg_table g2) w2"
      using keeps_flush [OF _ _ conjunct1 [OF on_tg_table_step [OF b]]] A Inr by fastforce
    then have "tg_table g' = tg_table g2 \<and> w' = w2"
      using run a b Inr by (auto simp: reg_store_record_def seqE_def on_tg_idx_def)
    then show ?thesis using table_step_trans [of 1 _ _ _ _ 0] A B by fastforce
  qed
qed

lemma upsert_step:
  assumes inv: "reg_inv E recs g w" and q: "quiet w" and room: "t_active_seq (tg_table g) < u64_max_nat"
    and run: "upsert E R u now rs input (g, w) = (r, (g', w'))"
  shows "table_step 1 (tg_table g) w (tg_table g') w'"
proof -
  have same: "table_step 1 (tg_table g) w (tg_table g) w" by (rule table_step_Suc [OF table_step_refl, folded One_nat_def])
  show ?thesis
  proof (cases "reg_validate (ri_schema (tg_idx g)) input")
    case (Inl e)
    then show ?thesis using run same by (simp add: upsert_def)
  next
    case (Inr x)
    show ?thesis
    proof (cases "unchanged_uid g input (fingerprint (re_crypto E) (re_text E) input)")
      case (Some u0)
      then show ?thesis using run Inr same by (simp add: upsert_def)
    next
      case None
      let ?uf = "upsert_fields (re_crypto E) (re_text E) R u rs (en_fields input) 0 (sc_fields (ri_schema (tg_idx g))) [] []"
      obtain r1 ri where uf: "?uf (tg_idx g) = (r1, ri)" by (metis surj_pair)
      let ?g1 = "g\<lparr>tg_idx := ri\<rparr>"
      have on: "on_tg_idx ?uf (g, w) = (r1, (?g1, w))" using uf by (simp add: on_tg_idx_def)
      show ?thesis
      proof (cases r1)
        case (Inl e)
        then show ?thesis using run Inr None on same by (auto simp: upsert_def Let_def seqE_def)
      next
        case ft: (Inr ft)
        obtain flds toks where f: "ft = (flds, toks)" by (cases ft)
        define rec where "rec = \<lparr>rr_uid = u, rr_entity_id = en_entity_id input,
            rr_entity_type = sc_type_name (ri_schema (tg_idx g)),
            rr_version = word_of_nat (length (versions_of ri (en_entity_id input))), rr_recorded_at = now,
            rr_deleted = False, rr_fields = flds, rr_tokens = toks\<rparr>"
        obtain r2 g2 w2 where st: "reg_store_record E rec (?g1, w) = (r2, (g2, w2))" by (metis surj_pair)
        have "tg_table g' = tg_table g2 \<and> w' = w2"
          using run Inr None on ft f st
          by (cases r2) (auto simp: upsert_def Let_def seqE_def set_fingerprint_def rec_def)
        moreover have "table_step 1 (tg_table ?g1) w (tg_table g2) w2"
        proof -
          obtain xs where "keeps (re_ext E) (re_meta E) (re_codec E) xs (tg_table g) w" using reg_inv_table [OF inv] .
          then show ?thesis by (intro reg_store_record_step [OF _ q _ st]) (use room in auto)
        qed
        ultimately show ?thesis by simp
      qed
    qed
  qed
qed

section \<open>The invariant\<close>

text \<open>
  The rows of every table, the records of every registry, and a disk that tells how everything
  that is not the store's looks.
\<close>

record store_rows =
  sr_meta :: "(u64 \<times> meta_event) list"
  sr_logs :: "(u64 \<times> audit_log) list"
  sr_relations :: "(u64 \<times> target_relation) list"
  sr_access :: "(u64 \<times> access_record) list"
  sr_registries :: "string \<Rightarrow> registry_record list"
  sr_else :: fs

text \<open>A directory that is not one of the store's, and what the store leaves alone.\<close>

definition foreign_dir :: "path \<Rightarrow> path \<Rightarrow> bool" where
  "foreign_dir root d \<longleftrightarrow> d \<noteq> root \<and> (\<forall>x \<in> {''meta'', ''logs'', ''relations'', ''access''}. d \<noteq> root @ [x]) \<and>
     (\<forall>x. d \<noteq> root @ [''registry'', x])"

definition foreign_same :: "path \<Rightarrow> fs \<Rightarrow> fs \<Rightarrow> bool" where
  "foreign_same root w w' \<longleftrightarrow> (\<forall>d x. foreign_dir root d \<longrightarrow> fget w' (d @ [x]) = fget w (d @ [x])) \<and>
     (\<forall>d. foreign_dir root d \<longrightarrow> (dir_exists d w' \<longleftrightarrow> dir_exists d w)) \<and> (fs_wf w \<longrightarrow> fs_wf w')"

lemma foreign_same_refl [simp]: "foreign_same root w w"
  by (simp add: foreign_same_def)

lemma foreign_step: "foreign_same root w0 w \<Longrightarrow> same_outside d w w' \<Longrightarrow> \<not> foreign_dir root d \<Longrightarrow> foreign_same root w0 w'"
  unfolding foreign_same_def same_outside_def dir_exists_def by (metis butlast_snoc)

lemma own_dirs [simp]: "\<not> foreign_dir root root" "\<not> foreign_dir root (root @ [''meta''])"
  "\<not> foreign_dir root (root @ [''logs''])" "\<not> foreign_dir root (root @ [''relations''])"
  "\<not> foreign_dir root (root @ [''access''])" "\<not> foreign_dir root (root @ [''registry'', x])"
  by (simp_all add: foreign_dir_def)

definition store_dirs :: "audit_store \<Rightarrow> bool" where
  "store_dirs s \<longleftrightarrow>
     t_dir (st_meta s) = cf_root (st_cfg s) @ [''meta''] \<and> t_dir (st_logs s) = cf_root (st_cfg s) @ [''logs''] \<and>
     t_dir (st_relations s) = cf_root (st_cfg s) @ [''relations''] \<and>
     (\<forall>t. st_access s = Some t \<longrightarrow> t_dir t = cf_root (st_cfg s) @ [''access'']) \<and>
     distinct (map fst (st_registries s)) \<and>
     (\<forall>(name, g) \<in> set (st_registries s). plain_name name \<and>
        t_dir (tg_table g) = registry_dir (cf_root (st_cfg s)) name \<and> sc_type_name (reg_schema g) = name \<and>
        distinct (map fd_name (sc_fields (reg_schema g))))"

definition store_inv :: "senv \<Rightarrow> store_rows \<Rightarrow> audit_store \<Rightarrow> fs \<Rightarrow> bool" where
  "store_inv E G s w \<longleftrightarrow> quiet w \<and> store_dirs s \<and> foreign_same (cf_root (st_cfg s)) (sr_else G) w \<and>
     keeps (se_ext E) (se_meta E) (se_events E) (sr_meta G) (st_meta s) w \<and>
     keeps (se_ext E) (se_meta E) (se_logs E) (sr_logs G) (st_logs s) w \<and>
     keeps (se_ext E) (se_meta E) (se_relations E) (sr_relations G) (st_relations s) w \<and>
     (\<forall>t. st_access s = Some t \<longrightarrow> keeps (se_ext E) (se_meta E) (se_access E) (sr_access G) t w) \<and>
     kept_registry.all_hold (renv_of E) (sr_registries G) (st_registries s) w"

text \<open>Room for \<open>n\<close> more segments in every table.\<close>

definition store_room :: "nat \<Rightarrow> audit_store \<Rightarrow> bool" where
  "store_room n s \<longleftrightarrow> t_active_seq (st_meta s) + n \<le> u64_max_nat \<and> t_active_seq (st_logs s) + n \<le> u64_max_nat \<and>
     t_active_seq (st_relations s) + n \<le> u64_max_nat \<and>
     (\<forall>t. st_access s = Some t \<longrightarrow> t_active_seq t + n \<le> u64_max_nat) \<and>
     (\<forall>(name, g) \<in> set (st_registries s). t_active_seq (tg_table g) + n \<le> u64_max_nat)"

lemma store_room_mono: "store_room n s \<Longrightarrow> m \<le> n \<Longrightarrow> store_room m s"
  by (fastforce simp: store_room_def)

lemma registries_apart:
  assumes "store_dirs s" and "d = cf_root (st_cfg s) @ [x] \<or> d = cf_root (st_cfg s)"
  shows "kept_registry.apart d (st_registries s)"
  using assms by (auto simp: kept_registry.apart_def store_dirs_def registry_dir_plain)

text \<open>A change outside every table's directory.\<close>

lemma store_inv_root:
  assumes "store_inv E G s w" and "same_outside (cf_root (st_cfg s)) w w'"
  shows "store_inv E G s w'"
  using assms registries_apart [of s "cf_root (st_cfg s)"] same_outside_quiet [OF assms(2)]
    foreign_step [of "cf_root (st_cfg s)" "sr_else G", OF _ assms(2)]
  by (auto simp: store_inv_def store_dirs_def intro: kept_table.local kept_registry.all_local)

lemma store_inv_logs:
  assumes i: "store_inv E G s w" and k: "keeps (se_ext E) (se_meta E) (se_logs E) xs t w'" and t: "table_step n (st_logs s) w t w'"
  shows "store_inv E (G\<lparr>sr_logs := xs\<rparr>) (s\<lparr>st_logs := t\<rparr>) w'"
proof -
  have d: "t_dir (st_logs s) = cf_root (st_cfg s) @ [''logs'']" using i by (simp add: store_inv_def store_dirs_def)
  then have o: "same_outside (cf_root (st_cfg s) @ [''logs'']) w w'" "t_dir t = cf_root (st_cfg s) @ [''logs'']"
    using t by (simp_all add: table_step_def)
  show ?thesis using i k o d registries_apart [of s "cf_root (st_cfg s) @ [''logs'']" "''logs''"] same_outside_quiet [OF o(1)]
      foreign_step [of "cf_root (st_cfg s)" "sr_else G", OF _ o(1)]
    by (auto simp: store_inv_def store_dirs_def intro: kept_table.local [OF o(1)] kept_registry.all_local [OF _ _ o(1)])
qed

lemma store_inv_relations:
  assumes i: "store_inv E G s w" and k: "keeps (se_ext E) (se_meta E) (se_relations E) xs t w'"
    and t: "table_step n (st_relations s) w t w'"
  shows "store_inv E (G\<lparr>sr_relations := xs\<rparr>) (s\<lparr>st_relations := t\<rparr>) w'"
proof -
  have d: "t_dir (st_relations s) = cf_root (st_cfg s) @ [''relations'']" using i by (simp add: store_inv_def store_dirs_def)
  then have o: "same_outside (cf_root (st_cfg s) @ [''relations'']) w w'" "t_dir t = cf_root (st_cfg s) @ [''relations'']"
    using t by (simp_all add: table_step_def)
  show ?thesis using i k o d registries_apart [of s "cf_root (st_cfg s) @ [''relations'']" "''relations''"] same_outside_quiet [OF o(1)]
      foreign_step [of "cf_root (st_cfg s)" "sr_else G", OF _ o(1)]
    by (auto simp: store_inv_def store_dirs_def intro: kept_table.local [OF o(1)] kept_registry.all_local [OF _ _ o(1)])
qed

lemma store_inv_meta:
  assumes i: "store_inv E G s w" and k: "keeps (se_ext E) (se_meta E) (se_events E) xs t w'" and t: "table_step n (st_meta s) w t w'"
  shows "store_inv E (G\<lparr>sr_meta := xs\<rparr>) (s\<lparr>st_meta := t\<rparr>) w'"
proof -
  have d: "t_dir (st_meta s) = cf_root (st_cfg s) @ [''meta'']" using i by (simp add: store_inv_def store_dirs_def)
  then have o: "same_outside (cf_root (st_cfg s) @ [''meta'']) w w'" "t_dir t = cf_root (st_cfg s) @ [''meta'']"
    using t by (simp_all add: table_step_def)
  show ?thesis using i k o d registries_apart [of s "cf_root (st_cfg s) @ [''meta'']" "''meta''"] same_outside_quiet [OF o(1)]
      foreign_step [of "cf_root (st_cfg s)" "sr_else G", OF _ o(1)]
    by (auto simp: store_inv_def store_dirs_def intro: kept_table.local [OF o(1)] kept_registry.all_local [OF _ _ o(1)])
qed

lemma store_inv_access:
  assumes i: "store_inv E G s w" and a: "st_access s = Some t0" and k: "keeps (se_ext E) (se_meta E) (se_access E) xs t w'"
    and t: "table_step n t0 w t w'"
  shows "store_inv E (G\<lparr>sr_access := xs\<rparr>) (s\<lparr>st_access := Some t\<rparr>) w'"
proof -
  have d: "t_dir t0 = cf_root (st_cfg s) @ [''access'']" using i a by (simp add: store_inv_def store_dirs_def)
  then have o: "same_outside (cf_root (st_cfg s) @ [''access'']) w w'" "t_dir t = cf_root (st_cfg s) @ [''access'']"
    using t by (simp_all add: table_step_def)
  show ?thesis using i k o d registries_apart [of s "cf_root (st_cfg s) @ [''access'']" "''access''"] same_outside_quiet [OF o(1)]
      foreign_step [of "cf_root (st_cfg s)" "sr_else G", OF _ o(1)]
    by (auto simp: store_inv_def store_dirs_def intro: kept_table.local [OF o(1)] kept_registry.all_local [OF _ _ o(1)])
qed

lemma store_inv_registry:
  assumes i: "store_inv E G s w" and g: "map_of (st_registries s) name = Some g"
    and k: "reg_inv (renv_of E) recs g' w'" and t: "table_step n (tg_table g) w (tg_table g') w'"
    and sc: "reg_schema g' = reg_schema g"
  shows "store_inv E (G\<lparr>sr_registries := (sr_registries G)(name := recs)\<rparr>)
    (s\<lparr>st_registries := AList.update name g' (st_registries s)\<rparr>) w'"
proof -
  have mem: "(name, g) \<in> set (st_registries s)" using g by (rule map_of_SomeD)
  have sd: "store_dirs s" using i by (simp add: store_inv_def)
  then have d: "t_dir (tg_table g) = cf_root (st_cfg s) @ [''registry'', name]" "plain_name name"
    using mem by (auto simp: store_dirs_def registry_dir_plain)
  then have o: "same_outside (cf_root (st_cfg s) @ [''registry'', name]) w w'" "t_dir (tg_table g') = t_dir (tg_table g)"
    using t by (simp_all add: table_step_def)
  have dist: "distinct (map fst (st_registries s))" using sd by (simp add: store_dirs_def)
  have "store_dirs (s\<lparr>st_registries := AList.update name g' (st_registries s)\<rparr>)"
  proof -
    have "distinct (map fst (AList.update name g' (st_registries s)))"
      using sd by (intro distinct_update) (simp add: store_dirs_def)
    moreover have "plain_name k \<and> t_dir (tg_table e) = registry_dir (cf_root (st_cfg s)) k \<and>
        sc_type_name (reg_schema e) = k \<and> distinct (map fd_name (sc_fields (reg_schema e)))"
      if "(k, e) \<in> set (AList.update name g' (st_registries s))" for k e
    proof (cases "k = name")
      case True
      have "plain_name name \<and> t_dir (tg_table g) = registry_dir (cf_root (st_cfg s)) name \<and>
        sc_type_name (reg_schema g) = name \<and> distinct (map fd_name (sc_fields (reg_schema g)))"
        using sd mem unfolding store_dirs_def by fast
      then show ?thesis using True that o(2) sc by (simp add: mem_alist_update [OF dist])
    next
      case False
      then have "(k, e) \<in> set (st_registries s)" using that by (simp add: mem_alist_update [OF dist])
      then show ?thesis using sd unfolding store_dirs_def by fast
    qed
    ultimately show ?thesis using sd unfolding store_dirs_def by simp blast
  qed
  moreover have "kept_registry.all_hold (renv_of E) ((sr_registries G)(name := recs)) (AList.update name g' (st_registries s)) w'"
  proof (rule kept_registry.all_update [OF _ _ g _ _ k])
    show "kept_registry.all_hold (renv_of E) (sr_registries G) (st_registries s) w" using i by (simp add: store_inv_def)
    show "distinct (map fst (st_registries s))" using sd by (simp add: store_dirs_def)
    show "t_dir (tg_table e) \<noteq> t_dir (tg_table g)" if "(k', e) \<in> set (st_registries s)" "k' \<noteq> name" for k' e
      using sd that d by (auto simp: store_dirs_def registry_dir_plain)
    show "same_outside (t_dir (tg_table g)) w w'" using t by (simp add: table_step_def)
  qed
  ultimately show ?thesis using i sd same_outside_quiet [OF o(1)]
      foreign_step [of "cf_root (st_cfg s)" "sr_else G", OF _ o(1)]
    by (auto simp: store_inv_def store_dirs_def intro: kept_table.local [OF o(1)])
qed

section \<open>Registering entities\<close>

text \<open>What a successful registration returns: the entity's latest version, alive.\<close>

definition current_version :: "registry_record list \<Rightarrow> string \<Rightarrow> uid \<Rightarrow> bool" where
  "current_version recs eid u \<longleftrightarrow> recs_of eid recs \<noteq> [] \<and> rr_uid (last (recs_of eid recs)) = u \<and>
     \<not> rr_deleted (last (recs_of eid recs))"

definition only_registries :: "audit_store \<Rightarrow> audit_store \<Rightarrow> bool" where
  "only_registries s s' \<longleftrightarrow> s' = s\<lparr>st_registries := st_registries s'\<rparr>"

lemma only_registries_trans: "only_registries s s1 \<Longrightarrow> only_registries s1 s2 \<Longrightarrow> only_registries s s2"
  unfolding only_registries_def by (metis (no_types, lifting) audit_store.surjective audit_store.update_convs(6))

lemma on_registry_run:
  assumes "on_registry name m (s, w) = (r, (s', w'))"
  obtains (none) "map_of (st_registries s) name = None" "r = Inl (Schema (NoRegistryTable name))" "s' = s" "w' = w"
  | (run) g g' where "map_of (st_registries s) name = Some g" "m (g, w) = (r, (g', w'))"
      "s' = s\<lparr>st_registries := AList.update name g' (st_registries s)\<rparr>"
  using assms by (auto simp: on_registry_def split: option.splits prod.splits)

lemma store_room_registry:
  assumes "store_room (Suc n) s" and "distinct (map fst (st_registries s))" and "map_of (st_registries s) name = Some g"
    and "table_step 1 (tg_table g) w (tg_table g') w'"
  shows "store_room n (s\<lparr>st_registries := AList.update name g' (st_registries s)\<rparr>)"
proof -
  have "t_active_seq (tg_table e) + n \<le> u64_max_nat" if "(k, e) \<in> set (AList.update name g' (st_registries s))" for k e
  proof (cases "k = name")
    case True
    have "t_active_seq (tg_table g) + Suc n \<le> u64_max_nat"
      using assms(1) map_of_SomeD [OF assms(3)] by (auto simp: store_room_def)
    then show ?thesis using True that assms(4) by (simp add: mem_alist_update [OF assms(2)] table_step_def)
  next
    case False
    then have "(k, e) \<in> set (st_registries s)" using that by (simp add: mem_alist_update [OF assms(2)])
    then show ?thesis using assms(1) by (auto simp: store_room_def)
  qed
  then show ?thesis using assms(1) by (auto simp: store_room_def)
qed

text \<open>The common part of the store's registry writes.\<close>

lemma store_inv_registry_facts:
  assumes "store_inv E G s w" and "map_of (st_registries s) name = Some g"
  shows "reg_inv (renv_of E) (sr_registries G name) g w" and "distinct (map fd_name (sc_fields (reg_schema g)))"
    and "distinct (map fst (st_registries s))" and "sc_type_name (reg_schema g) = name" and "quiet w"
  using assms map_of_SomeD [OF assms(2)]
  by (auto simp: store_inv_def kept_registry.all_hold_def store_dirs_def)

definition add_records :: "string \<Rightarrow> registry_record list \<Rightarrow> store_rows \<Rightarrow> store_rows" where
  "add_records name recs G = G\<lparr>sr_registries := (sr_registries G)(name := sr_registries G name @ recs)\<rparr>"

lemma add_records_simps [simp]:
  "sr_meta (add_records n rs G) = sr_meta G" "sr_logs (add_records n rs G) = sr_logs G"
  "sr_relations (add_records n rs G) = sr_relations G" "sr_access (add_records n rs G) = sr_access G"
  "sr_else (add_records n rs G) = sr_else G"
  "sr_registries (add_records n rs G) k = sr_registries G k @ (if k = n then rs else [])"
  by (simp_all add: add_records_def)

lemma add_no_records [simp]: "add_records n [] G = G"
  by (simp add: add_records_def)

lemma register_entity_inv:
  assumes inv: "store_inv E G s w" and room: "store_room (Suc n) s" and fresh: "\<And>k. u \<notin> rr_uid ` set (sr_registries G k)"
    and run: "register_entity E u now rs ty input (s, w) = (r, (s', w'))"
  shows "\<exists>recs. store_inv E (add_records ty recs G) s' w' \<and> store_room n s' \<and> only_registries s s' \<and>
    rr_uid ` set recs \<subseteq> {u} \<and>
    (case r of Inl e \<Rightarrow> recs = [] | Inr u' \<Rightarrow> current_version (sr_registries G ty @ recs) (en_entity_id input) u')"
proof -
  have run': "on_registry ty (upsert (renv_of E) (cf_keys (st_cfg s)) u now rs input) (s, w) = (r, (s', w'))"
    using run by (simp add: register_entity_def)
  then show ?thesis
  proof (cases rule: on_registry_run)
    case none
    then show ?thesis using inv store_room_mono [OF room, of n]
      by (intro exI [of _ "[]"]) (simp add: only_registries_def)
  next
    case ran: (run g g')
    note F = store_inv_registry_facts [OF inv ran(1)]
    have groom: "t_active_seq (tg_table g) < u64_max_nat"
      using room map_of_SomeD [OF ran(1)] by (auto simp: store_room_def)
    have step: "table_step 1 (tg_table g) w (tg_table g') w'" by (rule upsert_step [OF F(1,5) groom ran(2)])
    have names: "distinct (map fd_name (sc_fields (ri_schema (tg_idx g))))" using F(2) by (simp add: reg_schema_def)
    have room': "store_room n s'" unfolding ran(3) by (rule store_room_registry [OF room F(3) ran(1) step])
    have only: "only_registries s s'" by (simp add: only_registries_def ran(3))
    have keep: "store_inv E (add_records ty recs G) s' w'"
      if "reg_inv (renv_of E) (sr_registries G ty @ recs) g' w'" "reg_schema g' = reg_schema g" for recs
      unfolding ran(3) add_records_def by (rule store_inv_registry [OF inv ran(1) that(1) step that(2)])
    from F(1) fresh [of ty] names groom ran(2) show ?thesis
    proof (cases rule: upsert_cases)
      case (invalid e)
      then show ?thesis using keep [of "[]"] F(1) room' only by (intro exI [of _ "[]"]) simp
    next
      case (unchanged u0)
      have "latest (tg_idx g) (en_entity_id input) =
          (if recs_of (en_entity_id input) (sr_registries G ty) = [] then None
           else Some (last (recs_of (en_entity_id input) (sr_registries G ty))))"
        using latest_rec [OF conjunct1 [OF reg_invD [OF F(1)]]] by simp
      then have "current_version (sr_registries G ty) (en_entity_id input) u0"
        using unchanged(6) by (auto simp: current_version_def split: if_splits)
      then show ?thesis using keep [of "[]"] F(1) unchanged room' only by (intro exI [of _ "[]"]) simp
    next
      case (written rec h)
      have "reg_schema g' = reg_schema g" using written(5) by (simp add: reg_schema_def absorb_def)
      moreover have "current_version (sr_registries G ty @ [rec]) (en_entity_id input) u"
        using written(3) by (simp add: upserted_def current_version_def recs_of_def)
      ultimately show ?thesis using keep [of "[rec]"] written(1,3,4) room' only
        by (intro exI [of _ "[rec]"]) (simp add: upserted_def)
    next
      case (error e h)
      have "reg_schema g' = reg_schema g" using error(4) by (simp add: reg_schema_def)
      then show ?thesis using keep [of "[]"] error(1,3) room' only by (intro exI [of _ "[]"]) simp
    next
      case (fault i)
      then show ?thesis using F(5) by simp
    qed
  qed
qed

end
