(* ===== verification/Store_Write.thy ===== *)
theory Store_Write
  imports Store_Inv
begin

text \<open>
  The write path of the store keeps the invariant: flushing and syncing change no row, an append
  adds one log row and one relation row per target, a checkpoint only its own file.
\<close>

section \<open>Flush and sync\<close>

definition harmless :: "ext \<Rightarrow> seg_meta codec \<Rightarrow> 'r codec \<Rightarrow> unit top \<Rightarrow> bool" where
  "harmless X M C m \<longleftrightarrow> (\<forall>xs t w r t' w'. keeps X M C xs t w \<longrightarrow> quiet w \<longrightarrow> m (t, w) = (r, (t', w')) \<longrightarrow>
     r = Inr () \<and> keeps X M C xs t' w' \<and> table_step 0 t w t' w')"

lemma harmless_flush: "harmless X M C table_flush" and harmless_sync: "harmless X M C table_sync"
  unfolding harmless_def using keeps_flush keeps_sync by blast+

lemma harmlessD:
  "harmless X M C m \<Longrightarrow> keeps X M C xs t w \<Longrightarrow> quiet w \<Longrightarrow> m (t, w) = (r, (t', w')) \<Longrightarrow>
     r = Inr () \<and> keeps X M C xs t' w' \<and> table_step 0 t w t' w'"
  unfolding harmless_def by blast

text \<open>A step that keeps all rows.\<close>

definition still :: "senv \<Rightarrow> store_rows \<Rightarrow> nat \<Rightarrow> audit_store \<Rightarrow> audit_store \<Rightarrow> fs \<Rightarrow> bool" where
  "still E G n s s' w' \<longleftrightarrow> store_inv E G s' w' \<and> store_room n s' \<and> st_cfg s' = st_cfg s \<and>
     st_custom_columns s' = st_custom_columns s \<and> map fst (st_registries s') = map fst (st_registries s)"

lemma still_trans: "still E G n s s1 w1 \<Longrightarrow> still E G' n' s1 s2 w2 \<Longrightarrow> still E G' n' s s2 w2"
  by (simp add: still_def)

lemma store_inv_quiet: "store_inv E G s w \<Longrightarrow> quiet w"
  by (simp add: store_inv_def)

lemma on_logs_harmless:
  assumes h: "harmless (se_ext E) (se_meta E) (se_logs E) m" and i: "store_inv E G s w" and room: "store_room n s"
    and run: "on_logs m (s, w) = (r, (s', w'))"
  shows "r = Inr () \<and> still E G n s s' w'"
proof -
  obtain t where m: "m (st_logs s, w) = (r, (t, w'))" and s': "s' = s\<lparr>st_logs := t\<rparr>"
    using run by (auto simp: on_logs_def split: prod.splits)
  have k: "keeps (se_ext E) (se_meta E) (se_logs E) (sr_logs G) (st_logs s) w" using i by (simp add: store_inv_def)
  note H = harmlessD [OF h k store_inv_quiet [OF i] m]
  show ?thesis using H store_inv_logs [OF i conjunct1 [OF conjunct2 [OF H]] conjunct2 [OF conjunct2 [OF H]]] room
    by (auto simp: still_def s' store_room_def table_step_def)
qed

lemma on_relations_harmless:
  assumes h: "harmless (se_ext E) (se_meta E) (se_relations E) m" and i: "store_inv E G s w" and room: "store_room n s"
    and run: "on_relations m (s, w) = (r, (s', w'))"
  shows "r = Inr () \<and> still E G n s s' w'"
proof -
  obtain t where m: "m (st_relations s, w) = (r, (t, w'))" and s': "s' = s\<lparr>st_relations := t\<rparr>"
    using run by (auto simp: on_relations_def split: prod.splits)
  have k: "keeps (se_ext E) (se_meta E) (se_relations E) (sr_relations G) (st_relations s) w"
    using i by (simp add: store_inv_def)
  note H = harmlessD [OF h k store_inv_quiet [OF i] m]
  show ?thesis using H store_inv_relations [OF i conjunct1 [OF conjunct2 [OF H]] conjunct2 [OF conjunct2 [OF H]]] room
    by (auto simp: still_def s' store_room_def table_step_def)
qed

lemma reg_sync_inv:
  assumes inv: "reg_inv E recs g w" and q: "quiet w" and run: "reg_sync (g, w) = (r, (g', w'))"
  shows "r = Inr () \<and> reg_inv E recs g' w' \<and> table_step 0 (tg_table g) w (tg_table g') w' \<and> tg_idx g' = tg_idx g"
proof -
  obtain vs v where t: "tbl_inv (re_ext E) (re_meta E) vs v (tg_table g) w" "linked (re_ext E) (vs @ [v])"
    "rows_encode (re_codec E) recs (view_rows (vs @ [v]))" using inv unfolding reg_inv_def by blast
  have run': "table_sync (tg_table g, w) = (r, (tg_table g', w'))" and g': "g' = g\<lparr>tg_table := tg_table g'\<rparr>"
    using run on_tg_table_step unfolding reg_sync_def by blast+
  have idx: "tg_idx g' = tg_idx g" by (subst g') simp
  from t(1) run' show ?thesis
  proof (cases rule: table_sync_cases)
    case ok
    have "reg_inv E recs g' w'" using ok(2) t(2,3) reg_invD [OF inv] unfolding reg_inv_def idx by blast
    then show ?thesis using ok(1) idx table_step_active [OF ok(3,4)] by simp
  qed (use q in simp)
qed

lemma sync_one_registry:
  assumes i: "store_inv E G s w" and room: "store_room n s" and name: "name \<in> fst ` set (st_registries s)"
    and run: "on_registry name reg_sync (s, w) = (r, (s', w'))"
  shows "r = Inr () \<and> still E G n s s' w'"
  using run
proof (cases rule: on_registry_run)
  case none
  then show ?thesis using name by (simp add: map_of_eq_None_iff)
next
  case ran: (run g g')
  note F = store_inv_registry_facts [OF i ran(1)]
  have S: "r = Inr ()" "reg_inv (renv_of E) (sr_registries G name) g' w'"
    "table_step 0 (tg_table g) w (tg_table g') w'" "tg_idx g' = tg_idx g"
    using reg_sync_inv [OF F(1,5) ran(2)] by blast+
  have "store_inv E (G\<lparr>sr_registries := (sr_registries G)(name := sr_registries G name)\<rparr>) s' w'"
    unfolding ran(3) by (rule store_inv_registry [OF i ran(1) S(2,3)]) (simp add: reg_schema_def S(4))
  moreover have "map fst (AList.update name g' (st_registries s)) = map fst (st_registries s)"
    using name by (simp add: update_keys)
  moreover have "store_room n s'"
  proof -
    have "t_active_seq (tg_table e) + n \<le> u64_max_nat" if "(k, e) \<in> set (AList.update name g' (st_registries s))" for k e
      using that room S(3) map_of_SomeD [OF ran(1)]
      by (auto simp: mem_alist_update [OF F(3)] store_room_def table_step_def split: if_splits)
    then show ?thesis using room by (auto simp: store_room_def ran(3))
  qed
  ultimately show ?thesis using S(1) by (simp add: still_def ran(3))
qed

lemma sync_registries_still:
  assumes "store_inv E G s w" and "store_room n s" and "sync_registries (s, w) = (r, (s', w'))"
  shows "r = Inr () \<and> still E G n s s' w'"
proof -
  have gen: "set names \<subseteq> fst ` set (st_registries s) \<Longrightarrow> store_inv E G s w \<Longrightarrow> store_room n s \<Longrightarrow>
      forE names (\<lambda>name. on_registry name reg_sync) (s, w) = (r, (s', w')) \<Longrightarrow> r = Inr () \<and> still E G n s s' w'" for names
  proof (induction names arbitrary: s w)
    case Nil
    then show ?case by (simp add: still_def)
  next
    case (Cons name names)
    obtain r1 s1 w1 where a: "on_registry name reg_sync (s, w) = (r1, (s1, w1))" by (metis surj_pair)
    have A: "r1 = Inr ()" "still E G n s s1 w1"
      using sync_one_registry [OF Cons.prems(2,3) _ a] Cons.prems(1) by auto
    have "forE names (\<lambda>name. on_registry name reg_sync) (s1, w1) = (r, (s', w'))"
      using Cons.prems(4) a A(1) by (simp add: seqE_def)
    moreover have "set names \<subseteq> fst ` set (st_registries s1)"
      using Cons.prems(1) A(2) unfolding still_def by (metis list.set_map list.set_intros(2) subset_code(1))
    ultimately have "r = Inr () \<and> still E G n s1 s' w'"
      using Cons.IH A(2) unfolding still_def by blast
    then show ?case using still_trans [OF A(2)] by blast
  qed
  show ?thesis using gen [of "map fst (st_registries s)"] assms by (simp add: sync_registries_def)
qed

lemma seqE_unit_run:
  assumes "seqE m k s = (r, s')" and "\<And>r1 s1. m s = (r1, s1) \<Longrightarrow> r1 = Inr ()"
  obtains s1 where "m s = (Inr (), s1)" "k () s1 = (r, s')"
proof -
  obtain r1 s1 where "m s = (r1, s1)" by (metis surj_pair)
  then show ?thesis using assms that by (auto simp: seqE_def)
qed

lemma sync_count_simps [simp]:
  "store_inv E G (s\<lparr>st_appends_since_sync := k\<rparr>) w = store_inv E G s w"
  "store_room n (s\<lparr>st_appends_since_sync := k\<rparr>) = store_room n s"
  by (simp_all add: store_inv_def store_dirs_def store_room_def)

lemma still_field: "still E G n s s1 w1 \<Longrightarrow> still E G n s (s1\<lparr>st_appends_since_sync := k\<rparr>) w1"
  by (simp add: still_def)

lemma sync_all_still:
  assumes i: "store_inv E G s w" and room: "store_room n s" and run: "sync_all (s, w) = (r, (s', w'))"
  shows "r = Inr () \<and> still E G n s s' w' \<and> st_appends_since_sync s' = 0"
proof -
  obtain r1 s1 w1 where a: "sync_registries (s, w) = (r1, (s1, w1))" by (metis surj_pair)
  have A: "r1 = Inr ()" "still E G n s s1 w1" using sync_registries_still [OF i room a] by simp_all
  obtain r2 s2 w2 where b: "on_logs table_sync (s1, w1) = (r2, (s2, w2))" by (metis surj_pair)
  have B: "r2 = Inr ()" "still E G n s1 s2 w2"
    using on_logs_harmless [OF harmless_sync _ _ b] A(2) unfolding still_def by blast+
  obtain r3 s3 w3 where c: "on_relations table_sync (s2, w2) = (r3, (s3, w3))" by (metis surj_pair)
  have C: "r3 = Inr ()" "still E G n s2 s3 w3"
    using on_relations_harmless [OF harmless_sync _ _ c] B(2) unfolding still_def by blast+
  have "r = Inr ()" "s' = s3\<lparr>st_appends_since_sync := 0\<rparr>" "w' = w3"
    using run a b c A(1) B(1) C(1) by (simp_all add: sync_all_def seqE_def)
  then show ?thesis using still_field [OF still_trans [OF A(2) still_trans [OF B(2) C(2)]]] by simp
qed

lemma flush_rows_still:
  assumes i: "store_inv E G s w" and room: "store_room n s" and run: "flush_rows (s, w) = (r, (s', w'))"
  shows "r = Inr () \<and> still E G n s s' w' \<and> st_appends_since_sync s' = st_appends_since_sync s"
proof -
  obtain r2 s2 w2 where b: "on_logs table_flush (s, w) = (r2, (s2, w2))" by (metis surj_pair)
  have B: "r2 = Inr ()" "still E G n s s2 w2"
    using on_logs_harmless [OF harmless_flush i room b] by blast+
  obtain r3 s3 w3 where c: "on_relations table_flush (s2, w2) = (r3, (s3, w3))" by (metis surj_pair)
  have C: "r3 = Inr ()" "still E G n s2 s3 w3"
    using on_relations_harmless [OF harmless_flush _ _ c] B(2) unfolding still_def by blast+
  have "r = Inr ()" "s' = s3" "w' = w3"
    using run b c B(1) C(1) by (simp_all add: flush_rows_def seqE_def)
  moreover have "st_appends_since_sync s3 = st_appends_since_sync s"
    using b c by (auto simp: on_logs_def on_relations_def split: prod.splits)
  ultimately show ?thesis using still_trans [OF B(2) C(2)] by simp
qed

lemma apply_sync_policy_still:
  assumes i: "store_inv E G s w" and room: "store_room n s" and run: "apply_sync_policy (s, w) = (r, (s', w'))"
  shows "r = Inr () \<and> still E G n s s' w'"
proof -
  have bump: "store_inv E G (s\<lparr>st_appends_since_sync := k\<rparr>) w" "store_room n (s\<lparr>st_appends_since_sync := k\<rparr>)" for k
    using i room by simp_all
  have unbump: "still E G n (s\<lparr>st_appends_since_sync := k\<rparr>) s' w' \<Longrightarrow> still E G n s s' w'" for k
    by (simp add: still_def)
  show ?thesis
  proof (cases "cf_sync_policy (st_cfg s)")
    case Always
    then have "sync_all (s, w) = (r, (s', w'))" using run by (simp add: apply_sync_policy_def)
    then show ?thesis using sync_all_still [OF i room] by blast
  next
    case (EveryN m)
    let ?k = "st_appends_since_sync s + 1" and ?s = "s\<lparr>st_appends_since_sync := st_appends_since_sync s + 1\<rparr>"
    show ?thesis
    proof (cases "?k \<ge> m")
      case True
      then have "sync_all (?s, w) = (r, (s', w'))" using run EveryN by (simp add: apply_sync_policy_def)
      then show ?thesis using sync_all_still [OF bump] unbump by blast
    next
      case False
      then have "flush_rows (?s, w) = (r, (s', w'))" using run EveryN by (simp add: apply_sync_policy_def)
      then show ?thesis using flush_rows_still [OF bump] unbump by blast
    qed
  next
    case OsManaged
    then have "flush_rows (s, w) = (r, (s', w'))" using run by (simp add: apply_sync_policy_def)
    then show ?thesis using flush_rows_still [OF i room] by blast
  qed
qed

section \<open>Checkpoints\<close>

lemma same_outside_fput: "same_outside d w (fput (d @ [x]) bs w)"
  by (simp add: same_outside_def)

lemma checkpoint_append_root:
  assumes "quiet w" and "checkpoint_append J root cp w = (r, w')"
  shows "same_outside root w w'"
proof (cases "wc_ser J (to_wire cp)")
  case (Inl e)
  then show ?thesis using assms(2) by (simp add: checkpoint_append_def seqE_def)
next
  case (Inr l)
  have "w' = fput (checkpoint_path root)
     ((case fget w (checkpoint_path root) of None \<Rightarrow> [] | Some c \<Rightarrow> c) @ as_bytes (l @ [newline])) 
       (case fget w (checkpoint_path root) of None \<Rightarrow> fput (checkpoint_path root) [] w | Some c \<Rightarrow> w)"
    using assms(2) unfolding checkpoint_append_quiet [OF assms(1) Inr] by simp
  moreover have "same_outside root w (case fget w (checkpoint_path root) of
      None \<Rightarrow> fput (checkpoint_path root) [] w | Some c \<Rightarrow> w)"
    by (simp add: checkpoint_path_def same_outside_fput split: option.splits)
  ultimately show ?thesis
    by (metis checkpoint_path_def same_outside_fput same_outside_trans)
qed

lemma anchored_simps [simp]:
  "store_inv E G (s\<lparr>st_anchored := k\<rparr>) w = store_inv E G s w"
  "store_room n (s\<lparr>st_anchored := k\<rparr>) = store_room n s"
  by (simp_all add: store_inv_def store_dirs_def store_room_def)

lemma write_checkpoint_still:
  assumes i: "store_inv E G s w" and room: "store_room n s" and run: "write_checkpoint E now (s, w) = (r, (s', w'))"
  shows "still E G n s s' w'"
proof (cases "can_sign (cf_keys (st_cfg s))")
  case False
  then show ?thesis using run i room by (auto simp: write_checkpoint_def still_def)
next
  case True
  obtain r1 s1 w1 where a: "on_logs table_sync (s, w) = (r1, (s1, w1))" by (metis surj_pair)
  have A: "r1 = Inr ()" "still E G n s s1 w1" using on_logs_harmless [OF harmless_sync i room a] by blast+
  have q: "quiet w1" using A(2) by (simp add: still_def store_inv_def)
  let ?sg = "checkpoint_sign (se_crypto E) (cf_keys (st_cfg s1)) now (t_active_seq (st_logs s1))
      (record_count (st_logs s1)) (chain_head (st_logs s1))"
  show ?thesis
  proof (cases ?sg)
    case (Inl e)
    then show ?thesis using run True a A by (simp add: write_checkpoint_def seqE_def)
  next
    case (Inr cp)
    obtain r2 w2 where b: "checkpoint_append (se_wire E) (cf_root (st_cfg s1)) cp w1 = (r2, w2)" by (metis surj_pair)
    have "store_inv E G s1 w2"
      using store_inv_root [OF _ checkpoint_append_root [OF q b]] A(2) by (simp add: still_def)
    moreover have "w' = w2" and s': "s' = s1 \<or> s' = s1\<lparr>st_anchored := st_anchored s1 @ [cp]\<rparr>"
      using run True a A(1) Inr b by (auto simp: write_checkpoint_def seqE_def split: sum.splits if_splits)
    ultimately show ?thesis using A(2) s' by (auto simp: still_def)
  qed
qed

section \<open>Rows\<close>

lemma on_logs_append:
  assumes i: "store_inv E G s w" and room: "store_room (Suc n) s"
    and run: "on_logs (table_append (se_ext E) (se_meta E) (se_logs E) x ts) (s, w) = (r, (s', w'))"
  shows "still E (case r of Inr _ \<Rightarrow> G\<lparr>sr_logs := sr_logs G @ [(ts, x)]\<rparr> | Inl e \<Rightarrow> G) n s s' w'"
proof -
  obtain t where m: "table_append (se_ext E) (se_meta E) (se_logs E) x ts (st_logs s, w) = (r, (t, w'))"
    and s': "s' = s\<lparr>st_logs := t\<rparr>" using run by (auto simp: on_logs_def split: prod.splits)
  have k: "keeps (se_ext E) (se_meta E) (se_logs E) (sr_logs G) (st_logs s) w" using i by (simp add: store_inv_def)
  have rm: "t_active_seq (st_logs s) < u64_max_nat" using room by (simp add: store_room_def)
  have st: "table_step 1 (st_logs s) w t w'" and kk: "case r of
      Inr _ \<Rightarrow> keeps (se_ext E) (se_meta E) (se_logs E) (sr_logs G @ [(ts, x)]) t w'
    | Inl e \<Rightarrow> keeps (se_ext E) (se_meta E) (se_logs E) (sr_logs G) t w'"
    using keeps_append [OF k store_inv_quiet [OF i] rm m] by blast+
  have "store_room n s'" using room st by (auto simp: store_room_def s' table_step_def)
  then show ?thesis using kk store_inv_logs [OF i _ st, of "sr_logs G"] store_inv_logs [OF i _ st, of "sr_logs G @ [(ts, x)]"]
    by (cases r) (auto simp: still_def s')
qed

lemma on_relations_append:
  assumes i: "store_inv E G s w" and room: "store_room (Suc n) s"
    and run: "on_relations (table_append (se_ext E) (se_meta E) (se_relations E) x ts) (s, w) = (r, (s', w'))"
  shows "still E (case r of Inr _ \<Rightarrow> G\<lparr>sr_relations := sr_relations G @ [(ts, x)]\<rparr> | Inl e \<Rightarrow> G) n s s' w'"
proof -
  obtain t where m: "table_append (se_ext E) (se_meta E) (se_relations E) x ts (st_relations s, w) = (r, (t, w'))"
    and s': "s' = s\<lparr>st_relations := t\<rparr>" using run by (auto simp: on_relations_def split: prod.splits)
  have k: "keeps (se_ext E) (se_meta E) (se_relations E) (sr_relations G) (st_relations s) w"
    using i by (simp add: store_inv_def)
  have rm: "t_active_seq (st_relations s) < u64_max_nat" using room by (simp add: store_room_def)
  have st: "table_step 1 (st_relations s) w t w'" and kk: "case r of
      Inr _ \<Rightarrow> keeps (se_ext E) (se_meta E) (se_relations E) (sr_relations G @ [(ts, x)]) t w'
    | Inl e \<Rightarrow> keeps (se_ext E) (se_meta E) (se_relations E) (sr_relations G) t w'"
    using keeps_append [OF k store_inv_quiet [OF i] rm m] by blast+
  have "store_room n s'" using room st by (auto simp: store_room_def s' table_step_def)
  then show ?thesis using kk store_inv_relations [OF i _ st, of "sr_relations G"]
      store_inv_relations [OF i _ st, of "sr_relations G @ [(ts, x)]"]
    by (cases r) (auto simp: still_def s')
qed

definition relation_row :: "uid \<Rightarrow> u64 \<Rightarrow> string \<times> uid \<Rightarrow> u64 \<times> target_relation" where
  "relation_row log_id ts tu = (ts, \<lparr>tr_log_id = log_id, tr_entity_registry_uid = snd tu, tr_entity_type = fst tu\<rparr>)"

definition add_relations :: "(u64 \<times> target_relation) list \<Rightarrow> store_rows \<Rightarrow> store_rows" where
  "add_relations xs G = G\<lparr>sr_relations := sr_relations G @ xs\<rparr>"

lemma append_relations_still:
  assumes "store_inv E G s w" and "store_room (length targets + n) s"
    and "append_relations E log_id ts targets (s, w) = (r, (s', w'))"
  shows "\<exists>k. still E (add_relations (map (relation_row log_id ts) (take k targets)) G) n s s' w' \<and>
    (r = Inr () \<longrightarrow> k = length targets)"
  using assms
proof (induction targets arbitrary: G s w)
  case Nil
  then show ?case by (auto simp: append_relations_def still_def add_relations_def)
next
  case (Cons tu targets)
  let ?row = "relation_row log_id ts tu"
  obtain r1 s1 w1 where a: "on_relations (table_append (se_ext E) (se_meta E) (se_relations E) (snd ?row) ts) (s, w)
      = (r1, (s1, w1))" by (metis surj_pair)
  have room: "store_room (Suc (length targets + n)) s" using Cons.prems(2) by simp
  have A: "still E (case r1 of Inr _ \<Rightarrow> G\<lparr>sr_relations := sr_relations G @ [(ts, snd ?row)]\<rparr> | Inl e \<Rightarrow> G)
      (length targets + n) s s1 w1" using on_relations_append [OF Cons.prems(1) room a] .
  have step: "append_relations E log_id ts (tu # targets) (s, w) =
      (case r1 of Inl e \<Rightarrow> (Inl e, (s1, w1)) | Inr _ \<Rightarrow> append_relations E log_id ts targets (s1, w1))"
    using a by (simp add: append_relations_def seqE_def relation_row_def case_prod_unfold split: sum.splits)
  show ?case
  proof (cases r1)
    case (Inl e)
    then have "still E G n s s' w'" "r = Inl e"
      using A Cons.prems(3) step store_room_mono [of "length targets + n" s1 n] by (auto simp: still_def)
    then show ?thesis by (intro exI [of _ 0]) (simp add: add_relations_def)
  next
    case (Inr u)
    let ?G = "G\<lparr>sr_relations := sr_relations G @ [(ts, snd ?row)]\<rparr>"
    have run: "append_relations E log_id ts targets (s1, w1) = (r, (s', w'))" using Cons.prems(3) step Inr by simp
    have i1: "store_inv E ?G s1 w1" "store_room (length targets + n) s1" using A Inr by (simp_all add: still_def)
    obtain k where k: "still E (add_relations (map (relation_row log_id ts) (take k targets)) ?G) n s1 s' w'"
      "r = Inr () \<longrightarrow> k = length targets" using Cons.IH [OF i1 run] by blast
    have "add_relations (map (relation_row log_id ts) (take k targets)) ?G =
        add_relations (map (relation_row log_id ts) (take (Suc k) (tu # targets))) G"
      by (simp add: add_relations_def relation_row_def)
    then show ?thesis using k still_trans [OF A k(1)] by (intro exI [of _ "Suc k"]) simp
  qed
qed

end
