(* ===== verification/Store_Append.thy ===== *)
theory Store_Append
  imports Store_Write
begin

text \<open>
  \<open>append_at\<close> end to end: the actor and the targets are registered, one log row and one relation row
  per target are added, and each of them refers to a stored version of its entity.
\<close>

section \<open>Registering targets\<close>

definition grows :: "store_rows \<Rightarrow> store_rows \<Rightarrow> bool" where
  "grows G G' \<longleftrightarrow> G' = G\<lparr>sr_registries := sr_registries G'\<rparr> \<and> (\<forall>k. prefix (sr_registries G k) (sr_registries G' k))"

lemma grows_refl [simp]: "grows G G"
  by (simp add: grows_def)

lemma grows_fields: "grows G G' \<Longrightarrow> sr_meta G' = sr_meta G \<and> sr_logs G' = sr_logs G \<and>
    sr_relations G' = sr_relations G \<and> sr_access G' = sr_access G \<and> sr_else G' = sr_else G"
  unfolding grows_def by (metis store_rows.ext_inject store_rows.surjective store_rows.update_convs(5))

lemma grows_trans:
  assumes "grows G G1" and "grows G1 G2"
  shows "grows G G2"
proof -
  have p: "prefix (sr_registries G k) (sr_registries G2 k)" for k
    using assms prefix_order.trans unfolding grows_def by blast
  have G1: "G1 = G\<lparr>sr_registries := sr_registries G1\<rparr>" using assms(1) by (simp add: grows_def)
  have "G2 = G1\<lparr>sr_registries := sr_registries G2\<rparr>" using assms(2) by (simp add: grows_def)
  also have "\<dots> = G\<lparr>sr_registries := sr_registries G2\<rparr>" by (subst G1) simp
  finally show ?thesis using p by (simp add: grows_def)
qed

lemma grows_add: "grows G (add_records k recs G)"
  by (simp add: grows_def add_records_def)

lemma only_registries_cfg: "only_registries s s' \<Longrightarrow> st_cfg s' = st_cfg s"
  unfolding only_registries_def by (metis audit_store.select_convs(1) audit_store.surjective audit_store.update_convs(6))

definition registered :: "registry_record list \<Rightarrow> string \<Rightarrow> uid \<Rightarrow> bool" where
  "registered recs eid u \<longleftrightarrow> (\<exists>rec \<in> set recs. rr_uid rec = u \<and> rr_entity_id rec = eid \<and> \<not> rr_deleted rec)"

lemma current_registered: "current_version recs eid u \<Longrightarrow> registered recs eid u"
  unfolding current_version_def registered_def
  by (metis (mono_tags, lifting) last_in_set mem_Collect_eq recs_of_def set_filter)

lemma registered_grows: "registered (sr_registries G k) eid u \<Longrightarrow> grows G G' \<Longrightarrow> registered (sr_registries G' k) eid u"
  unfolding registered_def grows_def by (meson set_mono_prefix subsetD)

definition new_uids :: "store_rows \<Rightarrow> store_rows \<Rightarrow> uid set \<Rightarrow> bool" where
  "new_uids G G' U \<longleftrightarrow> (\<forall>k. rr_uid ` set (sr_registries G' k) \<subseteq> rr_uid ` set (sr_registries G k) \<union> U)"

lemma new_uids_trans: "new_uids G G1 U \<Longrightarrow> new_uids G1 G2 V \<Longrightarrow> new_uids G G2 (U \<union> V)"
  unfolding new_uids_def by blast

text \<open>The \<open>n\<close> uids drawn from position \<open>i\<close> on are distinct and not in use.\<close>

definition unused :: "draws \<Rightarrow> nat \<Rightarrow> nat \<Rightarrow> store_rows \<Rightarrow> bool" where
  "unused D i n G \<longleftrightarrow> inj_on (dr_uid D) {i..<i + n} \<and>
     (\<forall>j \<in> {i..<i + n}. \<forall>k. dr_uid D j \<notin> rr_uid ` set (sr_registries G k))"

lemma unused_Suc:
  assumes u: "unused D i (Suc n) G" and g: "new_uids G G' {dr_uid D i}"
  shows "unused D (Suc i) n G'"
proof -
  have inj: "inj_on (dr_uid D) {i..<i + Suc n}" using u by (simp add: unused_def)
  then have "inj_on (dr_uid D) {Suc i..<Suc i + n}" by (rule inj_on_subset) auto
  moreover have "dr_uid D j \<notin> rr_uid ` set (sr_registries G' k)" if j: "j \<in> {Suc i..<Suc i + n}" for j k
  proof -
    have "dr_uid D j \<noteq> dr_uid D i" using inj_onD [OF inj, of j i] j by auto
    moreover have "dr_uid D j \<notin> rr_uid ` set (sr_registries G k)" using u j by (simp add: unused_def)
    moreover have "rr_uid ` set (sr_registries G' k) \<subseteq> rr_uid ` set (sr_registries G k) \<union> {dr_uid D i}"
      using g by (simp add: new_uids_def)
    ultimately show ?thesis by blast
  qed
  ultimately show ?thesis unfolding unused_def by blast
qed

lemma register_draw:
  assumes "store_inv E G s w" and "store_room (Suc n) s" and "unused D i (Suc m) G"
    and "register_entity E (dr_uid D i) (dr_now D i) (dr_rnd D i) ty input (s, w) = (r, (s', w'))"
  shows "\<exists>G'. store_inv E G' s' w' \<and> store_room n s' \<and> only_registries s s' \<and> grows G G' \<and> unused D (Suc i) m G' \<and>
    new_uids G G' {dr_uid D i} \<and> (\<forall>u. r = Inr u \<longrightarrow> registered (sr_registries G' ty) (en_entity_id input) u)"
proof -
  have fresh: "dr_uid D i \<notin> rr_uid ` set (sr_registries G k)" for k using assms(3) by (auto simp: unused_def)
  obtain recs where R: "store_inv E (add_records ty recs G) s' w'" "store_room n s'" "only_registries s s'"
    "rr_uid ` set recs \<subseteq> {dr_uid D i}"
    "case r of Inl e \<Rightarrow> recs = [] | Inr u' \<Rightarrow> current_version (sr_registries G ty @ recs) (en_entity_id input) u'"
    using register_entity_inv [OF assms(1,2) fresh assms(4)] by blast
  have new: "new_uids G (add_records ty recs G) {dr_uid D i}" using R(4) by (auto simp: new_uids_def)
  then have "unused D (Suc i) m (add_records ty recs G)" by (rule unused_Suc [OF assms(3)])
  moreover have "\<forall>u. r = Inr u \<longrightarrow> registered (sr_registries (add_records ty recs G) ty) (en_entity_id input) u"
    using R(5) current_registered by (auto simp: add_records_def)
  ultimately show ?thesis using R(1-3) new grows_add [of G ty recs] by (intro exI [of _ "add_records ty recs G"]) simp
qed

text \<open>The references that the registrations returned.\<close>

definition refs_registered :: "store_rows \<Rightarrow> (string \<times> entity_input) list \<Rightarrow> (string \<times> uid) list \<Rightarrow> bool" where
  "refs_registered G = list_all2 (\<lambda>(ty, input) (ty', u). ty' = ty \<and> registered (sr_registries G ty) (en_entity_id input) u)"

lemma register_targets_inv:
  assumes "store_inv E G s w" and "store_room (length targets + n) s" and "unused D i (length targets) G"
    and "register_targets E D i targets (s, w) = (r, (s', w'))"
  shows "\<exists>G'. store_inv E G' s' w' \<and> store_room n s' \<and> only_registries s s' \<and> grows G G' \<and>
    new_uids G G' (dr_uid D ` {i..<i + length targets}) \<and> (\<forall>refs. r = Inr refs \<longrightarrow> refs_registered G' targets refs)"
  using assms
proof (induction targets arbitrary: i G s w r s' w')
  case Nil
  then show ?case by (intro exI [of _ G]) (auto simp: only_registries_def refs_registered_def new_uids_def)
next
  case (Cons t targets)
  obtain ty input where t: "t = (ty, input)" by (cases t)
  obtain r1 s1 w1 where a: "register_entity E (dr_uid D i) (dr_now D i) (dr_rnd D i) ty input (s, w) = (r1, (s1, w1))"
    by (metis surj_pair)
  have room: "store_room (Suc (length targets + n)) s" using Cons.prems(2) by simp
  obtain G1 where G1: "store_inv E G1 s1 w1" "store_room (length targets + n) s1" "only_registries s s1" "grows G G1"
    "unused D (Suc i) (length targets) G1" "\<forall>u. r1 = Inr u \<longrightarrow> registered (sr_registries G1 ty) (en_entity_id input) u"
    "new_uids G G1 {dr_uid D i}"
    using register_draw [OF Cons.prems(1) room Cons.prems(3) [unfolded list.size add_0_right add_Suc_right] a] by blast
  have sub: "new_uids G H (dr_uid D ` {i..<i + length (t # targets)})" if "new_uids G H U" "U \<subseteq> dr_uid D ` {i..<i + length (t # targets)}"
    for H U using that unfolding new_uids_def by blast
  have sub1: "{dr_uid D i} \<subseteq> dr_uid D ` {i..<i + length (t # targets)}" by simp
  show ?case
  proof (cases r1)
    case (Inl e)
    then have "r = Inl e" "s' = s1" "w' = w1" using Cons.prems(4) a t by (simp_all add: seqE_def)
    then show ?thesis using sub [OF G1(7) sub1] G1 store_room_mono [OF G1(2), of n] by (intro exI [of _ G1]) simp
  next
    case (Inr u)
    obtain r2 s2 w2 where b: "register_targets E D (Suc i) targets (s1, w1) = (r2, (s2, w2))" by (metis surj_pair)
    have e: "s' = s2" "w' = w2" "r = rbind r2 (\<lambda>refs. Inr ((ty, u) # refs))"
      using Cons.prems(4) a b t Inr by (auto simp: seqE_def split: sum.splits)
    obtain G2 where G2: "store_inv E G2 s2 w2" "store_room n s2" "only_registries s1 s2" "grows G1 G2"
      "new_uids G1 G2 (dr_uid D ` {Suc i..<Suc i + length targets})"
      "\<forall>refs. r2 = Inr refs \<longrightarrow> refs_registered G2 targets refs"
      using Cons.IH [OF G1(1,2,5) b] by blast
    have "{dr_uid D i} \<union> dr_uid D ` {Suc i..<Suc i + length targets} \<subseteq> dr_uid D ` {i..<i + length (t # targets)}" by auto
    note new = sub [OF new_uids_trans [OF G1(7) G2(5)] this]
    have "registered (sr_registries G2 ty) (en_entity_id input) u" using registered_grows G1(6) G2(4) Inr by blast
    then have "\<forall>refs. r = Inr refs \<longrightarrow> refs_registered G2 (t # targets) refs"
      using G2(6) e(3) t by (auto simp: refs_registered_def rbind_Inr_iff)
    then show ?thesis using new G2 e only_registries_trans [OF G1(3) G2(3)] grows_trans [OF G1(4) G2(4)]
      by (intro exI [of _ G2]) simp
  qed
qed

section \<open>Appending\<close>

definition add_log :: "audit_log \<Rightarrow> store_rows \<Rightarrow> store_rows" where
  "add_log log G = G\<lparr>sr_logs := sr_logs G @ [(al_timestamp log, log)]\<rparr>"

definition log_row ::
  "uid \<Rightarrow> u64 \<Rightarrow> string \<Rightarrow> uid \<Rightarrow> string \<Rightarrow> string \<Rightarrow> content \<Rightarrow> (string \<times> fval) list \<Rightarrow> audit_log" where
  "log_row log_id ts actor_type actor_uid meth url cont custom =
     \<lparr>al_log_id = log_id, al_timestamp = ts, al_actor = actor_uid, al_actor_type = actor_type,
      al_method = meth, al_url = url, al_content = cont, al_custom = custom\<rparr>"

lemma append_resolved_inv:
  assumes i: "store_inv E G s w" and room: "store_room (Suc (length targets + n)) s"
    and run: "append_resolved_at E log_id now ts actor_type actor_uid meth url cont targets custom (s, w) = (r, (s', w'))"
  shows "\<exists>k. (still E G n s s' w' \<or>
      still E (add_relations (map (relation_row log_id ts) (take k targets))
        (add_log (log_row log_id ts actor_type actor_uid meth url cont custom) G)) n s s' w') \<and>
    (\<forall>id. r = Inr id \<longrightarrow> id = log_id \<and> validate_custom s custom ts = Inr () \<and>
      still E (add_relations (map (relation_row log_id ts) targets)
        (add_log (log_row log_id ts actor_type actor_uid meth url cont custom) G)) n s s' w')"
proof (cases "validate_custom s custom ts")
  case (Inl e)
  then show ?thesis using run i store_room_mono [OF room, of n] by (auto simp: append_resolved_at_def still_def)
next
  case (Inr u)
  let ?log = "log_row log_id ts actor_type actor_uid meth url cont custom"
  obtain r1 s1 w1 where a: "on_logs (table_append (se_ext E) (se_meta E) (se_logs E) ?log ts) (s, w) = (r1, (s1, w1))"
    by (metis surj_pair)
  have A: "still E (case r1 of Inr _ \<Rightarrow> G\<lparr>sr_logs := sr_logs G @ [(ts, ?log)]\<rparr> | Inl e \<Rightarrow> G) (length targets + n) s s1 w1"
    using on_logs_append [OF i room a] .
  show ?thesis
  proof (cases r1)
    case (Inl e)
    then have "r = Inl e" "s' = s1" "w' = w1"
      using run Inr a by (simp_all add: append_resolved_at_def log_row_def seqE_def Let_def)
    moreover have "still E G n s s1 w1"
      using A Inl store_room_mono [of "length targets + n" s1 n] by (simp add: still_def)
    ultimately show ?thesis by simp
  next
    case r1: (Inr u1)
    have A1: "still E (add_log ?log G) (length targets + n) s s1 w1"
      using A r1 by (simp add: add_log_def log_row_def)
    obtain r2 s2 w2 where b: "append_relations E log_id ts targets (s1, w1) = (r2, (s2, w2))" by (metis surj_pair)
    obtain k where B: "still E (add_relations (map (relation_row log_id ts) (take k targets)) (add_log ?log G)) n s1 s2 w2"
      "r2 = Inr () \<longrightarrow> k = length targets"
      using append_relations_still [OF _ _ b] A1 unfolding still_def by blast
    let ?G = "add_relations (map (relation_row log_id ts) (take k targets)) (add_log ?log G)"
    show ?thesis
    proof (cases r2)
      case (Inl e)
      then have "r = Inl e" "s' = s2" "w' = w2"
        using run Inr a r1 b by (simp_all add: append_resolved_at_def log_row_def seqE_def Let_def)
      then show ?thesis using still_trans [OF A1 B(1)] by blast
    next
      case (Inr u2)
      then have k: "k = length targets" using B(2) by simp
      obtain r3 s3 w3 where c: "apply_sync_policy (s2, w2) = (r3, (s3, w3))" by (metis surj_pair)
      have C: "r3 = Inr ()" "still E ?G n s2 s3 w3"
        using apply_sync_policy_still [OF _ _ c] B(1) unfolding still_def by blast+
      let ?cp = "if t_active_seq (st_logs s1) \<noteq> t_active_seq (st_logs s) then write_checkpoint E now else retE None"
      obtain r4 s4 w4 where d: "?cp (s3, w3) = (r4, (s4, w4))" by (metis surj_pair)
      have "still E ?G n s3 s3 w3" using C(2) by (simp add: still_def)
      then have D: "still E ?G n s3 s4 w4"
        using d write_checkpoint_still [of E ?G s3 w3 n now r4 s4 w4] C(2)
        by (auto simp: still_def split: if_splits)
      have "s' = s4" "w' = w4" "r = rbind r4 (\<lambda>_. Inr log_id)"
        using run \<open>validate_custom s custom ts = Inr u\<close> a r1 b Inr c C(1) d
        by (cases r4; simp add: append_resolved_at_def log_row_def seqE_def Let_def)+
      moreover have "still E ?G n s s4 w4"
        using still_trans [OF A1 still_trans [OF B(1) still_trans [OF C(2) D]]] .
      ultimately show ?thesis using k \<open>validate_custom s custom ts = Inr u\<close>
        by (intro exI [of _ "length targets"]) (auto simp: rbind_Inr_iff)
    qed
  qed
qed

text \<open>Rows are only added, at most one of them a log.\<close>

definition extends :: "store_rows \<Rightarrow> store_rows \<Rightarrow> bool" where
  "extends G G' \<longleftrightarrow> sr_else G' = sr_else G \<and> sr_meta G' = sr_meta G \<and> sr_access G' = sr_access G \<and> prefix (sr_logs G) (sr_logs G') \<and>
     length (sr_logs G') \<le> Suc (length (sr_logs G)) \<and> prefix (sr_relations G) (sr_relations G') \<and>
     (\<forall>k. prefix (sr_registries G k) (sr_registries G' k))"

lemma grows_extends: "grows G G' \<Longrightarrow> extends G G'"
  using grows_fields [of G G'] by (simp add: extends_def grows_def)

lemma add_rows_extends: "grows G H \<Longrightarrow> extends G (add_relations rels (add_log log H))"
  using grows_fields [of G H] by (simp add: extends_def grows_def add_relations_def add_log_def)

text \<open>What an \<open>append_at\<close> that returned its log id has left in the store.\<close>

definition appended ::
  "senv \<Rightarrow> draws \<Rightarrow> u64 \<Rightarrow> string \<Rightarrow> entity_input \<Rightarrow> string \<Rightarrow> string \<Rightarrow> content \<Rightarrow> (string \<times> entity_input) list
     \<Rightarrow> (string \<times> fval) list \<Rightarrow> store_rows \<Rightarrow> store_rows \<Rightarrow> bool" where
  "appended E D ts actor_type actor meth url cont targets custom G G' \<longleftrightarrow>
     (\<exists>H actor_uid refs. grows G H \<and> registered (sr_registries H actor_type) (en_entity_id actor) actor_uid \<and>
        refs_registered H targets refs \<and>
        G' = add_relations (map (relation_row (dr_uid D (length targets + 1)) ts) refs)
               (add_log (log_row (dr_uid D (length targets + 1)) ts actor_type actor_uid meth url cont custom) H))"

lemma append_at_inv:
  assumes i: "store_inv E G s w" and room: "store_room (Suc (length targets + Suc (length targets + n))) s"
    and fresh: "unused D 0 (Suc (length targets)) G"
    and run: "append_at E D ts actor_type actor meth url cont targets custom (s, w) = (r, (s', w'))"
  shows "\<exists>G'. store_inv E G' s' w' \<and> store_room n s' \<and> extends G G' \<and> st_cfg s' = st_cfg s \<and>
    new_uids G G' (dr_uid D ` {0..<Suc (length targets)}) \<and>
    (\<forall>id. r = Inr id \<longrightarrow> id = dr_uid D (length targets + 1) \<and> validate_custom s custom ts = Inr () \<and>
      appended E D ts actor_type actor meth url cont targets custom G G')"
proof (cases "validate_custom s custom ts")
  case (Inl e)
  then show ?thesis using run i store_room_mono [OF room, of n] grows_extends [OF grows_refl, of G]
    by (auto simp: append_at_def new_uids_def)
next
  case v: (Inr u)
  obtain r1 s1 w1 where
    a: "register_entity E (dr_uid D 0) (dr_now D 0) (dr_rnd D 0) actor_type actor (s, w) = (r1, (s1, w1))"
    by (metis surj_pair)
  obtain G1 where G1: "store_inv E G1 s1 w1" "store_room (length targets + Suc (length targets + n)) s1"
    "only_registries s s1" "grows G G1" "unused D (Suc 0) (length targets) G1"
    "\<forall>u. r1 = Inr u \<longrightarrow> registered (sr_registries G1 actor_type) (en_entity_id actor) u" "new_uids G G1 {dr_uid D 0}"
    using register_draw [OF i room fresh a] by blast
  have sub: "new_uids G H (dr_uid D ` {0..<Suc (length targets)})" if "new_uids G H U" "U \<subseteq> dr_uid D ` {0..<Suc (length targets)}"
    for H U using that unfolding new_uids_def by blast
  have sub1: "{dr_uid D 0} \<subseteq> dr_uid D ` {0..<Suc (length targets)}" by simp
  have cfg1: "st_cfg s1 = st_cfg s" using G1(3) by (rule only_registries_cfg)
  show ?thesis
  proof (cases r1)
    case (Inl e)
    then have "r = Inl e" "s' = s1" "w' = w1" using run v a by (simp_all add: append_at_def seqE_def)
    then show ?thesis using G1(1) store_room_mono [OF G1(2), of n] grows_extends [OF G1(4)] sub [OF G1(7) sub1] cfg1
      by (intro exI [of _ G1]) simp
  next
    case r1: (Inr actor_uid)
    obtain r2 s2 w2 where b: "register_targets E D 1 targets (s1, w1) = (r2, (s2, w2))" by (metis surj_pair)
    obtain G2 where G2: "store_inv E G2 s2 w2" "store_room (Suc (length targets + n)) s2" "only_registries s1 s2"
      "grows G1 G2" "\<forall>refs. r2 = Inr refs \<longrightarrow> refs_registered G2 targets refs"
      "new_uids G1 G2 (dr_uid D ` {1..<1 + length targets})"
      using register_targets_inv [OF G1(1,2) _ b] G1(5) by auto
    have "{dr_uid D 0} \<union> dr_uid D ` {1..<1 + length targets} \<subseteq> dr_uid D ` {0..<Suc (length targets)}" by auto
    note new = sub [OF new_uids_trans [OF G1(7) G2(6)] this]
    have cfg2: "st_cfg s2 = st_cfg s" using only_registries_cfg [OF G2(3)] cfg1 by simp
    show ?thesis
    proof (cases r2)
      case (Inl e)
      then have "r = Inl e" "s' = s2" "w' = w2" using run v a r1 b by (simp_all add: append_at_def seqE_def)
      then show ?thesis using G2(1) store_room_mono [OF G2(2), of n] grows_extends [OF grows_trans [OF G1(4) G2(4)]]
          new cfg2 by (intro exI [of _ G2]) simp
    next
      case r2: (Inr refs)
      let ?id = "dr_uid D (length targets + 1)"
      have ok: "refs_registered G2 targets refs" using G2(5) r2 by simp
      have len: "length refs = length targets" using ok by (simp add: refs_registered_def list_all2_lengthD)
      have c: "append_resolved_at E ?id (dr_now D (length targets + 1)) ts actor_type actor_uid meth url cont refs custom
        (s2, w2) = (r, (s', w'))" using run v a r1 b r2 by (simp add: append_at_def seqE_def)
      have room2: "store_room (Suc (length refs + n)) s2" using G2(2) len by simp
      have "registered (sr_registries G2 actor_type) (en_entity_id actor) actor_uid"
        using G1(6) r1 registered_grows G2(4) by blast
      moreover have "grows G G2" using grows_trans [OF G1(4) G2(4)] .
      moreover obtain G' where G': "still E G' n s2 s' w'" "extends G G'" "sr_registries G' = sr_registries G2" "\<forall>id. r = Inr id \<longrightarrow> id = ?id \<and> G' =
          add_relations (map (relation_row ?id ts) refs)
            (add_log (log_row ?id ts actor_type actor_uid meth url cont custom) G2)"
        using append_resolved_inv [OF G2(1) room2 c] grows_extends [OF grows_trans [OF G1(4) G2(4)]]
          add_rows_extends [OF grows_trans [OF G1(4) G2(4)]] by (cases r) (auto simp: add_relations_def add_log_def)
      ultimately have "\<forall>id. r = Inr id \<longrightarrow> id = ?id \<and> appended E D ts actor_type actor meth url cont targets custom G G'"
        using ok unfolding appended_def by blast
      moreover have "new_uids G G' (dr_uid D ` {0..<Suc (length targets)})" using new G'(3) by (simp add: new_uids_def)
      ultimately show ?thesis using G'(1,2) v cfg2 by (intro exI [of _ G']) (simp add: still_def)
    qed
  qed
qed

end
