(* ===== verification/Store_Demo.thy ===== *)
theory Store_Demo
  imports Store_Append Audit_Props
begin

text \<open>
  A small concrete store for witnesses: fresh tables under \<open>/s\<close>, one registry \<open>user\<close>, codecs that
  know the few rows that are written, and a key ring that can sign.
\<close>

section \<open>Tables of one segment\<close>

definition loaded_table :: "path \<Rightarrow> row list \<Rightarrow> table" where
  "loaded_table d rows = \<lparr>t_dir = d,
     t_active = \<lparr>seg_path = segment_path d 0, seg_buf = [], seg_len = length (seg_image demo_ext ZERO_CHAIN rows),
       seg_min_timestamp = foldl min u64_MAX (map fst rows), seg_max_timestamp = foldl max 0 (map fst rows),
       seg_records = length rows, seg_last_chain = chain_of demo_ext ZERO_CHAIN (map snd rows)\<rparr>,
     t_active_seq = 0, t_sealed = [], t_max_segment_bytes = 1000\<rparr>"

lemma loaded_table_simps [simp]:
  "t_dir (loaded_table d rows) = d" "t_active_seq (loaded_table d rows) = 0" "t_sealed (loaded_table d rows) = []"
  "seg_buf (t_active (loaded_table d rows)) = []" "seg_path (t_active (loaded_table d rows)) = segment_path d 0"
  by (simp_all add: loaded_table_def)

lemma loaded_table_inv:
  assumes seg: "fget w (segment_path d 0) = Some (seg_image demo_ext ZERO_CHAIN rows)"
    and only: "\<And>x. fget w (d @ [x]) \<noteq> None \<Longrightarrow> x = segment_name 0" and ok: "\<forall>r \<in> set rows. row_ok r"
  shows "tbl_inv demo_ext demo_meta_codec [] (ZERO_CHAIN, rows) (loaded_table d rows) w"
proof -
  have "seg_inv demo_ext ZERO_CHAIN rows (t_active (loaded_table d rows)) w"
    using seg ok by (simp add: seg_inv_def loaded_table_def holds_def seg_books_def)
  moreover have "read_meta demo_meta_codec (meta_path d n) w = None" for n
    using only [of "meta_name n"] last_names(1) [of 0] last_names(2) [of n]
    by (auto simp: read_meta_def meta_path_def split: option.splits)
  moreover have "dir_clean (loaded_table d rows) w"
  proof -
    have "parse_segment_name (segment_name 0) = Some 0" by (rule parse_segment_name) simp
    then show ?thesis using only by (fastforce simp: dir_clean_def)
  qed
  ultimately show ?thesis using demo_meta_codec_ok by (simp add: tbl_inv_def metas_ok_def)
qed

lemma loaded_table_keeps:
  assumes "fget w (segment_path d 0) = Some (seg_image demo_ext ZERO_CHAIN rows)"
    and "\<And>x. fget w (d @ [x]) \<noteq> None \<Longrightarrow> x = segment_name 0" and "\<forall>r \<in> set rows. row_ok r"
    and "rows_keep C xs rows"
  shows "keeps demo_ext demo_meta_codec C xs (loaded_table d rows) w"
  by (rule keepsI [OF loaded_table_inv [OF assms(1-3)]]) (use assms(4) in \<open>simp_all add: view_rows_def\<close>)

lemma loaded_table_flush: "table_flush (loaded_table d rows, w) = (Inr (), (loaded_table d rows, w))"
  by (simp add: table_flush_def on_active_def seg_flush_def bw_flush_buf_def loaded_table_def)

section \<open>The store\<close>

definition demo_root :: path where "demo_root = [''s'']"

definition demo_dirs :: "path list" where
  "demo_dirs = map (\<lambda>x. demo_root @ x) [[''meta''], [''logs''], [''relations''], [''registry'', ''user'']]"

text \<open>The disk and the store with the given rows in every table.\<close>

definition demo_fs_with :: "(path \<Rightarrow> row list) \<Rightarrow> fs" where
  "demo_fs_with f = \<lparr>fs_files = map (\<lambda>d. (segment_path d 0, seg_image demo_ext ZERO_CHAIN (f d))) demo_dirs,
     fs_dirs = demo_root # demo_dirs, fs_faults = []\<rparr>"

definition demo_cfg :: store_config where
  "demo_cfg = config_keys demo_ring (config_new demo_root)"

definition demo_store_with :: "(path \<Rightarrow> row list) \<Rightarrow> registry_record list \<Rightarrow> audit_store" where
  "demo_store_with f recs =
     (let table = (\<lambda>x. loaded_table (demo_root @ x) (f (demo_root @ x)))
      in \<lparr>st_cfg = demo_cfg, st_meta = table [''meta''], st_logs = table [''logs''],
          st_relations = table [''relations''], st_access = None,
          st_registries = [(''user'', \<lparr>tg_table = table [''registry'', ''user''],
            tg_idx = index_of demo_text demo_schema False recs, tg_fingerprints = []\<rparr>)],
          st_custom_columns = [], st_appends_since_sync = 0, st_anchored = []\<rparr>)"

definition demo_log :: audit_log where
  "demo_log = \<lparr>al_log_id = 77, al_timestamp = 3, al_actor = 5, al_actor_type = ''user'', al_method = ''GET'',
     al_url = ''u'', al_content = CText ''hi'', al_custom = []\<rparr>"

definition demo_log2 :: audit_log where "demo_log2 = demo_log\<lparr>al_log_id := 78, al_timestamp := 4\<rparr>"

definition demo_rel :: target_relation where
  "demo_rel = \<lparr>tr_log_id = 77, tr_entity_registry_uid = 5, tr_entity_type = ''user''\<rparr>"

text \<open>A codec that knows one value.\<close>

definition one_codec :: "'r \<Rightarrow> 'r codec" where
  "one_codec x = \<lparr>c_ser = (\<lambda>r. if r = x then Inr [1] else Inl (Encode (CodecFailed ''value''))),
     c_de = (\<lambda>b. if b = [1] then Inr x else Inl (Encode (CodecFailed ''value'')))\<rparr>"

lemma one_codec_ok: "codec_ok (one_codec x)"
  by (simp add: codec_ok_def one_codec_def)

definition demo_log_codec :: "audit_log codec" where
  "demo_log_codec = \<lparr>c_ser = (\<lambda>r. if r = demo_log then Inr [1] else if r = demo_log2 then Inr [2]
       else Inl (Encode (CodecFailed ''log''))),
     c_de = (\<lambda>b. if b = [1] then Inr demo_log else if b = [2] then Inr demo_log2
       else Inl (Encode (CodecFailed ''log'')))\<rparr>"

lemma demo_log2_other: "demo_log2 \<noteq> demo_log"
  by (simp add: demo_log2_def demo_log_def)

lemma demo_log_codec_ok: "codec_ok demo_log_codec"
  using demo_log2_other by (simp add: codec_ok_def demo_log_codec_def)

definition demo_senv :: senv where
  "demo_senv = \<lparr>se_ext = demo_ext, se_meta = demo_meta_codec, se_crypto = demo_crypto, se_text = demo_text,
     se_records = demo_rec_codec, se_events = one_codec (TypeDefined demo_schema), se_logs = demo_log_codec,
     se_relations = one_codec demo_rel, se_access = one_codec (access_new 1 2 [] [] [] None),
     se_wire = demo_wire_codec, se_cursor = demo_textcodec, se_json = (\<lambda>_. ''{}'')\<rparr>"

lemma demo_files:
  assumes "d \<in> set demo_dirs"
  shows "fget (demo_fs_with f) (segment_path d 0) = Some (seg_image demo_ext ZERO_CHAIN (f d))"
    and "\<And>x. fget (demo_fs_with f) (d @ [x]) \<noteq> None \<Longrightarrow> x = segment_name 0"
  using assms by (auto simp: fget_def demo_fs_with_def demo_dirs_def demo_root_def segment_path_def split: if_splits)

lemma demo_with_inv:
  assumes ok: "\<And>d. \<forall>r \<in> set (f d). row_ok r"
    and rows: "rows_keep (se_events demo_senv) (sr_meta G) (f (demo_root @ [''meta'']))"
      "rows_keep (se_logs demo_senv) (sr_logs G) (f (demo_root @ [''logs'']))"
      "rows_keep (se_relations demo_senv) (sr_relations G) (f (demo_root @ [''relations'']))"
    and recs: "rows_encode demo_rec_codec recs (f (demo_root @ [''registry'', ''user'']))"
      "distinct (map rr_uid recs)" "versions_ok recs" "sr_registries G ''user'' = recs"
    and other: "sr_else G = demo_fs_with f"
  shows "store_inv demo_senv G (demo_store_with f recs) (demo_fs_with f)"
proof -
  have d: "demo_root @ [''meta''] \<in> set demo_dirs" "demo_root @ [''logs''] \<in> set demo_dirs"
    "demo_root @ [''relations''] \<in> set demo_dirs" "demo_root @ [''registry'', ''user''] \<in> set demo_dirs"
    by (simp_all add: demo_dirs_def)
  have k: "keeps demo_ext demo_meta_codec C xs (loaded_table d (f d)) (demo_fs_with f)"
    if "d \<in> set demo_dirs" "rows_keep C xs (f d)" for d C and xs :: "(u64 \<times> 'r) list"
    using that demo_files [of d f] ok by (intro loaded_table_keeps) blast+
  let ?g = "\<lparr>tg_table = loaded_table (demo_root @ [''registry'', ''user'']) (f (demo_root @ [''registry'', ''user''])),
      tg_idx = index_of demo_text demo_schema False recs, tg_fingerprints = []\<rparr>"
  have r: "reg_inv (renv_of demo_senv) recs ?g (demo_fs_with f)"
    unfolding reg_inv_def renv_of_def demo_senv_def renv.simps senv.simps type_registry.simps
    using loaded_table_inv [OF demo_files(1) [OF d(4), of f] demo_files(2) [OF d(4), of f] ok [of "demo_root @ [''registry'', ''user'']"]] recs(1,3) index_of_ok [OF recs(2)]
    by (intro conjI exI [of _ "[]"] exI [of _ "(ZERO_CHAIN, f (demo_root @ [''registry'', ''user'']))"])
      (auto simp: view_rows_def)
  have p: "plain_name ''user''" by (simp add: plain_name_def)
  have t: "store_dirs (demo_store_with f recs)"
    by (simp add: store_dirs_def demo_store_with_def Let_def demo_cfg_def config_keys_def config_new_def p
        registry_dir_plain reg_schema_def) (simp add: demo_schema_def)
  show ?thesis
    using k [OF d(1) rows(1)] k [OF d(2) rows(2)] k [OF d(3) rows(3)] r t recs(4) other
    by (simp add: store_inv_def demo_store_with_def Let_def demo_senv_def kept_registry.all_hold_def quiet_def demo_fs_with_def)
qed

lemma demo_with_room: "n \<le> 100 \<Longrightarrow> store_room n (demo_store_with f recs)"
  by (simp add: store_room_def demo_store_with_def Let_def u64_max_nat_def)

section \<open>Two stores\<close>

definition no_rows :: store_rows where
  "no_rows = \<lparr>sr_meta = [], sr_logs = [], sr_relations = [], sr_access = [], sr_registries = (\<lambda>_. []),
     sr_else = demo_fs_with (\<lambda>_. [])\<rparr>"

definition demo_store :: audit_store where "demo_store = demo_store_with (\<lambda>_. []) []"

definition demo_store_fs :: fs where "demo_store_fs = demo_fs_with (\<lambda>_. [])"

lemma demo_store_inv: "store_inv demo_senv no_rows demo_store demo_store_fs"
  unfolding demo_store_def demo_store_fs_def
  by (rule demo_with_inv) (simp_all add: no_rows_def rows_keep_def rows_encode_def versions_ok_def)

lemma demo_store_room: "n \<le> 100 \<Longrightarrow> store_room n demo_store"
  unfolding demo_store_def by (rule demo_with_room)

definition demo_draws :: draws where
  "demo_draws = \<lparr>dr_uid = (\<lambda>i. if i = 0 then 5 else 77), dr_now = (\<lambda>_. 9), dr_rnd = (\<lambda>_. demo_rnd)\<rparr>"

lemma demo_draws_unused: "unused demo_draws 0 1 no_rows"
  by (simp add: unused_def no_rows_def)

text \<open>A store with an entity, two logs, and the relation of the first to the entity.\<close>

definition one_row :: "path \<Rightarrow> row list" where
  "one_row d = (if d = demo_root @ [''meta''] then [] else if d = demo_root @ [''registry'', ''user''] then [(9, [1])]
     else if d = demo_root @ [''logs''] then [(3, [1]), (4, [2])] else [(3, [1])])"

definition one_rows :: store_rows where
  "one_rows = \<lparr>sr_meta = [], sr_logs = [(3, demo_log), (4, demo_log2)], sr_relations = [(3, demo_rel)], sr_access = [],
     sr_registries = (\<lambda>_. [demo_rec]), sr_else = demo_fs_with one_row\<rparr>"

definition full_store :: audit_store where "full_store = demo_store_with one_row [demo_rec]"

definition full_fs :: fs where "full_fs = demo_fs_with one_row"

lemma full_store_inv: "store_inv demo_senv one_rows full_store full_fs"
  unfolding full_store_def full_fs_def
proof (rule demo_with_inv)
  show "versions_ok [demo_rec]" by (simp add: versions_ok_def Cons_eq_append_conv recs_of_def demo_rec_def)
qed (simp_all add: one_rows_def one_row_def demo_root_def rows_keep_def rows_encode_def demo_senv_def one_codec_def
    demo_log_codec_def demo_log2_other demo_rec_codec_def row_ok_def demo_rec_def)

lemma one_image_length: "length (seg_image demo_ext ZERO_CHAIN (one_row d)) \<le> 1000"
  by (simp add: one_row_def seg_image_def length_frame stored_ok_def)

lemma full_fs_fit: "files_fit full_fs"
proof -
  have "length c \<le> 1000" if "fget full_fs p = Some c" for p c
    using map_of_SomeD [OF that [unfolded fget_def]] one_image_length by (auto simp: full_fs_def demo_fs_with_def)
  then show ?thesis by (fastforce simp: files_fit_def u64_max_nat_def)
qed

text \<open>Its tables are flushed, so that a snapshot leaves the store and the disk as they are.\<close>

lemma full_snapshot: "snd (with_snapshot m (full_store, full_fs)) = (full_store, full_fs)"
proof -
  have "on_logs table_slices (full_store, full_fs) = (Inr (slices_of (st_logs full_store)), (full_store, full_fs))"
    "on_relations table_slices (full_store, full_fs) = (Inr (slices_of (st_relations full_store)), (full_store, full_fs))"
    by (simp_all add: on_logs_def on_relations_def table_slices_def seqE_def full_store_def demo_store_with_def Let_def
        loaded_table_flush)
  then show ?thesis by (simp add: with_snapshot_def store_snapshot_def seqE_def)
qed

lemma full_snapshot_run: "with_snapshot m (full_store, full_fs) = (fst (with_snapshot m (full_store, full_fs)), (full_store, full_fs))"
  using full_snapshot [of m] by (metis prod.collapse)

lemma demo_codecs_ok: "codec_ok (se_logs demo_senv)" "codec_ok (se_relations demo_senv)"
  by (simp_all add: demo_senv_def demo_log_codec_ok one_codec_ok)

end
