(* ===== verification/Store_Read.thy ===== *)
theory Store_Read
  imports Store_Write Core_Props
begin

text \<open>
  Queries on a store, told on its rows: a snapshot decodes to the rows of the logs and of the
  relations, a page is a prefix of the rows that match, its views carry the relations of their log,
  and a cursor continues where the page ended.
\<close>

section \<open>Snapshots of a store\<close>

lemma snapshot_of_store:
  assumes i: "store_inv E G s w" and C: "codec_ok (se_logs E)" "codec_ok (se_relations E)"
    and run: "store_snapshot (s, w) = (r, (s', w'))" and fit: "files_fit w'"
  shows "\<exists>L Rs sn. r = Inr sn \<and> snapshot_holds E w' L Rs sn \<and> map snd L = sr_logs G \<and> map snd Rs = sr_relations G \<and>
    store_inv E G s' w' \<and> rs_registries sn = map (\<lambda>(k, g). (k, tg_idx g)) (st_registries s) \<and>
    rs_keys sn = cf_keys (st_cfg s) \<and> st_cfg s' = st_cfg s \<and> st_registries s' = st_registries s"
proof -
  note q = store_inv_quiet [OF i]
  have d: "t_dir (st_logs s) = cf_root (st_cfg s) @ [''logs'']" "t_dir (st_relations s) = cf_root (st_cfg s) @ [''relations'']"
    using i by (simp_all add: store_inv_def store_dirs_def)
  obtain r1 t1 w1 where a: "table_slices (st_logs s, w) = (r1, (t1, w1))" by (metis surj_pair)
  have k: "keeps (se_ext E) (se_meta E) (se_logs E) (sr_logs G) (st_logs s) w" using i by (simp add: store_inv_def)
  obtain L where L: "r1 = Inr (slices_of t1)" "table_view (se_ext E) (se_meta E) (se_logs E) t1 w1 L" "map snd L = sr_logs G"
    "keeps (se_ext E) (se_meta E) (se_logs E) (sr_logs G) t1 w1" "table_step 0 (st_logs s) w t1 w1"
    using keeps_slices [OF k q C(1) a] by blast
  have d1: "t_dir t1 = cf_root (st_cfg s) @ [''logs'']" using L(5) d(1) by (simp add: table_step_def)
  have i1: "store_inv E G (s\<lparr>st_logs := t1\<rparr>) w1" using store_inv_logs [OF i L(4,5)] by simp
  obtain r2 t2 w2 where b: "table_slices (st_relations s, w1) = (r2, (t2, w2))" by (metis surj_pair)
  have k2: "keeps (se_ext E) (se_meta E) (se_relations E) (sr_relations G) (st_relations s) w1"
    using i1 by (simp add: store_inv_def)
  obtain Rs where R: "r2 = Inr (slices_of t2)" "table_view (se_ext E) (se_meta E) (se_relations E) t2 w2 Rs"
    "map snd Rs = sr_relations G" "keeps (se_ext E) (se_meta E) (se_relations E) (sr_relations G) t2 w2"
    "table_step 0 (st_relations s) w1 t2 w2"
    using keeps_slices [OF k2 store_inv_quiet [OF i1] C(2) b] by blast
  have i2: "store_inv E G (s\<lparr>st_logs := t1, st_relations := t2\<rparr>) w2"
    using store_inv_relations [OF i1, of "sr_relations G" t2 w2 0] R(4,5) by simp
  let ?sn = "\<lparr>rs_keys = cf_keys (st_cfg s), rs_registries = map (\<lambda>(k, g). (k, tg_idx g)) (st_registries s),
             rs_logs = slices_of t1, rs_relations = slices_of t2\<rparr>"
  have e: "r = Inr ?sn" "s' = s\<lparr>st_logs := t1, st_relations := t2\<rparr>" "w' = w2"
    using run a b L(1) R(1) by (simp_all add: store_snapshot_def on_logs_def on_relations_def seqE_def)
  have out: "same_outside (cf_root (st_cfg s) @ [''relations'']) w1 w2" using R(5) d(2) by (simp add: table_step_def)
  have "table_view (se_ext E) (se_meta E) (se_logs E) t1 w2 L" using table_view_local [OF out _ L(2)] d1 by simp
  then have "table_rows (se_ext E) (se_meta E) (se_logs E) t1 w2 L" by (rule table_view_rows [OF fit [unfolded e(3)]])
  moreover have "table_rows (se_ext E) (se_meta E) (se_relations E) t2 w2 Rs"
    using R(2) by (rule table_view_rows [OF fit [unfolded e(3)]])
  ultimately have "snapshot_holds E w2 L Rs ?sn"
    unfolding snapshot_holds_def read_snapshot.simps by blast
  then show ?thesis using e i2 L(3) R(3) by (intro exI [of _ L] exI [of _ Rs] exI [of _ ?sn]) simp
qed

lemma with_snapshot_run:
  assumes "store_inv E G s w" and "codec_ok (se_logs E)" "codec_ok (se_relations E)"
    and run: "with_snapshot m (s, w) = (r, (s', w'))" and fit: "files_fit w'"
  obtains L Rs sn where "snapshot_holds E w' L Rs sn" "map snd L = sr_logs G" "map snd Rs = sr_relations G"
    "store_inv E G s' w'" "rs_registries sn = map (\<lambda>(k, g). (k, tg_idx g)) (st_registries s)"
    "rs_keys sn = cf_keys (st_cfg s)" "r = fst (m w' sn)"
proof -
  obtain r1 s1 w1 where a: "store_snapshot (s, w) = (r1, (s1, w1))" by (metis surj_pair)
  have e: "s' = s1" "w' = w1" "\<And>sn. r1 = Inr sn \<Longrightarrow> r = fst (m w1 sn)"
    using run a by (cases r1; simp add: with_snapshot_def seqE_def)+
  show ?thesis using snapshot_of_store [OF assms(1-3) a fit [unfolded e(2)]] e that by blast
qed

section \<open>Matching rows\<close>

text \<open>The rows a query keeps, without a cursor; \<open>ids\<close> and \<open>us\<close> are what its filters allow.\<close>

definition in_range :: "log_query \<Rightarrow> u64 \<Rightarrow> bool" where
  "in_range q ts \<longleftrightarrow> (case q_from_micros q of None \<Rightarrow> True | Some a \<Rightarrow> a \<le> ts) \<and>
     (case q_to_micros q of None \<Rightarrow> True | Some b \<Rightarrow> ts \<le> b)"

definition rows_matching :: "resolved_filters \<Rightarrow> log_query \<Rightarrow> (u64 \<times> audit_log) list \<Rightarrow> audit_log list" where
  "rows_matching fl q rows =
     map snd (filter (\<lambda>(ts, log). in_range q ts \<and> filters_match fl q log) (query_order (q_order q = Desc) rows))"

definition relations_matching :: "log_query \<Rightarrow> (u64 \<times> target_relation) list \<Rightarrow> uid \<Rightarrow> target_relation list" where
  "relations_matching q rows i = map snd (filter (\<lambda>(ts, rel). in_range q ts \<and> tr_log_id rel = i) rows)"

lemma wanted_row_range: "wanted_row d (q_from_micros q) (q_to_micros q) None r \<longleftrightarrow> in_range q (fst (snd r))"
  by (simp add: wanted_row_def in_range_def)

lemma query_order_map: "map f (query_order d xs) = query_order d (map f xs)"
  by (simp add: query_order_def rev_map)

lemma matching_rows:
  assumes "map snd L = rows"
  shows "map (snd \<circ> snd) (matching fl q None L) = rows_matching fl q rows"
proof -
  have "query_order (q_order q = Desc) rows = map snd (query_order (q_order q = Desc) L)"
    using assms by (simp add: query_order_map)
  then show ?thesis
    by (simp add: matching_def rows_matching_def wanted_row_range filter_map comp_def case_prod_unfold)
qed

lemma relations_rows:
  assumes "map snd Rs = rows"
  shows "relations_of q Rs i = relations_matching q rows i"
proof -
  have "relations_matching q (map snd Rs) i =
      map (snd \<circ> snd) (filter (\<lambda>r. in_range q (fst (snd r)) \<and> tr_log_id (snd (snd r)) = i) Rs)"
    by (simp add: relations_matching_def filter_map comp_def case_prod_unfold)
  also have "\<dots> = relations_of q Rs i"
    by (simp add: relations_of_def wanted_row_range filter_map comp_def conj_commute)
  finally show ?thesis using assms by simp
qed

text \<open>The page of a query on a snapshot that stands for the rows \<open>G\<close>.\<close>

definition first_rows :: "log_query \<Rightarrow> 'a list \<Rightarrow> 'a list" where
  "first_rows q xs = (case q_limit q of None \<Rightarrow> xs | Some n \<Rightarrow> take n xs)"

lemma page_of_rows:
  assumes "map snd L = logs" and "map snd Rs = rels"
  shows "qp_logs (page_of E sn q Rs (matching fl q None L) opened) =
    map (\<lambda>log. render sn log (relations_matching q rels)) (first_rows q (rows_matching fl q logs))"
proof -
  have "relations_of q Rs = relations_matching q rels" using relations_rows [OF assms(2)] by blast
  moreover have m: "map (snd \<circ> snd) (first_rows q (matching fl q None L)) = first_rows q (rows_matching fl q logs)"
    using matching_rows [OF assms(1), of fl q, symmetric] by (simp add: first_rows_def take_map split: option.splits)
  moreover have "qp_logs (page_of E sn q Rs (matching fl q None L) opened) =
      map (\<lambda>log. render sn log (relations_of q Rs)) (map (snd \<circ> snd) (first_rows q (matching fl q None L)))"
    by (simp add: page_of_def Let_def first_rows_def)
  ultimately show ?thesis by simp
qed

lemma page_of_cursor:
  assumes "map snd L = logs"
  shows "qp_next_cursor (page_of E sn q Rs (matching fl q None L) opened) = None \<longleftrightarrow>
    q_limit q = Some 0 \<or> first_rows q (rows_matching fl q logs) = rows_matching fl q logs"
proof -
  have "length (rows_matching fl q logs) = length (matching fl q None L)"
    using matching_rows [OF assms, of fl q] by (metis length_map)
  then show ?thesis by (auto simp: page_of_def Let_def first_rows_def split: option.splits)
qed

section \<open>The next page\<close>

definition beyond :: "bool \<Rightarrow> position \<Rightarrow> position \<Rightarrow> bool" where
  "beyond d p x \<longleftrightarrow> (if d then pos_less x p else pos_less p x)"

lemma beyond_trans: "beyond d p x \<Longrightarrow> beyond d x y \<Longrightarrow> beyond d p y"
  by (auto simp: beyond_def pos_less_def split: if_splits)

lemma beyond_asym: "beyond d p x \<Longrightarrow> \<not> beyond d x p"
  by (auto simp: beyond_def pos_less_def split: if_splits)

lemma wanted_row_after:
  "wanted_row d a b after r \<longleftrightarrow> wanted_row d a b None r \<and> (case after of None \<Rightarrow> True | Some p \<Rightarrow> beyond d p (fst r))"
  by (auto simp: wanted_row_def beyond_def split: option.splits)

lemma matching_sorted:
  assumes "sorted_wrt (\<lambda>a b. pos_less (fst a) (fst b)) L"
  shows "sorted_wrt (\<lambda>a b. beyond (q_order q = Desc) (fst a) (fst b)) (matching fl q after L)"
proof -
  have "sorted_wrt (\<lambda>a b. beyond (q_order q = Desc) (fst a) (fst b)) (query_order (q_order q = Desc) L)"
    using assms by (simp add: query_order_def beyond_def sorted_wrt_rev)
  then show ?thesis unfolding matching_def by (rule sorted_wrt_filter)
qed

lemma matching_next:
  assumes L: "sorted_wrt (\<lambda>a b. pos_less (fst a) (fst b)) L" and ne: "take n (matching fl q after L) \<noteq> []"
  shows "matching fl q (Some (fst (last (take n (matching fl q after L))))) L = drop n (matching fl q after L)"
proof -
  let ?d = "q_order q = Desc" and ?m = "matching fl q after L"
  let ?p = "fst (last (take n ?m))"
  have "last (take n ?m) \<in> set ?m" using last_in_set [OF ne] in_set_takeD by fast
  moreover have "wanted_row ?d (q_from_micros q) (q_to_micros q) after r" if "r \<in> set ?m" for r
    using that by (simp add: matching_def)
  ultimately have p: "case after of None \<Rightarrow> True | Some p' \<Rightarrow> beyond ?d p' ?p"
    using wanted_row_after [of ?d _ _ after "last (take n ?m)"] by blast
  have "wanted_row ?d a b (Some ?p) r \<longleftrightarrow> wanted_row ?d a b after r \<and> beyond ?d ?p (fst r)" for a b and r :: "audit_log prow"
    using p beyond_trans [of ?d _ ?p "fst r"]
    unfolding wanted_row_after [of _ _ _ after] wanted_row_after [of _ _ _ "Some ?p"] by (cases after) auto
  then have "matching fl q (Some ?p) L = filter (\<lambda>r. beyond ?d ?p (fst r)) ?m"
    unfolding matching_def filter_filter by (intro filter_cong) auto
  also have "\<dots> = drop n ?m"
    using filter_beyond [OF matching_sorted [OF L, of q fl after] beyond_asym ne] .
  finally show ?thesis .
qed

text \<open>Positions that fit in a cursor.\<close>

definition positions_fit :: "'r prow list \<Rightarrow> bool" where
  "positions_fit L \<longleftrightarrow> (\<forall>r \<in> set L. fst (fst r) < 2 ^ 64 \<and> snd (fst r) < 2 ^ 64)"

lemma resolve_filters_page: "resolve_filters E w (q\<lparr>q_cursor := c, q_limit := l\<rparr>) = resolve_filters E w q"
  by (simp add: resolve_filters_def)

lemma matching_page: "matching fl (q\<lparr>q_cursor := c, q_limit := l\<rparr>) after L = matching fl q after L"
  by (simp add: matching_def filters_match_def cong: if_cong)

lemma relations_of_page: "relations_of (q\<lparr>q_cursor := c, q_limit := l\<rparr>) Rs = relations_of q Rs"
  by (simp add: relations_of_def fun_eq_iff)

definition views_of :: "read_snapshot \<Rightarrow> log_query \<Rightarrow> target_relation prow list \<Rightarrow> audit_log prow list \<Rightarrow> log_view list" where
  "views_of sn q Rs m = map (\<lambda>r. render sn (snd (snd r)) (relations_of q Rs)) m"

lemma page_of_simps:
  "qp_logs (page_of E sn q Rs m opened) = views_of sn q Rs (first_rows q m)"
  "qp_next_cursor (page_of E sn q Rs m opened) =
     (if first_rows q m \<noteq> [] \<and> length (first_rows q m) < length m
      then Some (encode_cursor (se_cursor E) (q_order q) (fst (last (first_rows q m)))) else None)"
  by (simp_all add: page_of_def views_of_def first_rows_def Let_def)

text \<open>The page that a cursor asks for, and the whole answer.\<close>

lemma next_page:
  assumes h: "snapshot_holds E w L Rs sn" and fl: "resolve_filters E w q sn = (Inr fl, sn)"
    and cur: "query_after E q = Inr after" and U: "textcodec_ok (se_cursor E)" and fit: "positions_fit L"
    and one: "snapshot_query_page E w q sn = (Inr p1, sn)" and c: "qp_next_cursor p1 = Some c"
  defines "m \<equiv> matching fl q after L"
  shows "\<exists>n p2 p. q_limit q = Some n \<and> 0 < n \<and> qp_logs p1 = views_of sn q Rs (take n m) \<and>
    snapshot_query_page E w (q\<lparr>q_cursor := Some c, q_limit := l\<rparr>) sn = (Inr p2, sn) \<and>
    snapshot_query_page E w (q\<lparr>q_limit := None\<rparr>) sn = (Inr p, sn) \<and>
    qp_logs p2 = views_of sn q Rs (case l of None \<Rightarrow> drop n m | Some k \<Rightarrow> take k (drop n m)) \<and>
    qp_logs p = views_of sn q Rs m \<and> n < length m"
proof -
  obtain o1 where p1: "p1 = page_of E sn q Rs m o1"
    using query_page_rows [OF h fl cur] one m_def by auto
  obtain n where n: "q_limit q = Some n" "take n m \<noteq> []" "n < length m" "0 < n"
    and c': "c = encode_cursor (se_cursor E) (q_order q) (fst (last (take n m)))"
    using c unfolding p1 page_of_simps first_rows_def by (cases "q_limit q") (auto split: if_splits)
  let ?p = "fst (last (take n m))"
  have "last (take n m) \<in> set L" using last_in_set [OF n(2)] in_set_takeD
    unfolding m_def matching_def by (fastforce simp: query_order_def split: if_splits)
  then have "fst ?p < 2 ^ 64" "snd ?p < 2 ^ 64" using fit by (auto simp: positions_fit_def)
  then have dec: "decode_cursor (se_cursor E) c (q_order q) = Inr ?p" using decode_encode_cursor [OF U, of ?p] c' by simp
  let ?q2 = "q\<lparr>q_cursor := Some c, q_limit := l\<rparr>" and ?q = "q\<lparr>q_limit := None\<rparr>"
  obtain t where t: "table_rows (se_ext E) (se_meta E) (se_logs E) t w L" using h by (auto simp: snapshot_holds_def)
  have m2: "matching fl ?q2 (Some ?p) L = drop n m"
    unfolding matching_page using matching_next [OF table_rows_sorted [OF t]] n(2) m_def by blast
  have "query_after E ?q2 = Inr (Some ?p)" using dec by (simp add: query_after_def)
  then obtain o2 where two: "snapshot_query_page E w ?q2 sn = (Inr (page_of E sn ?q2 Rs (drop n m) o2), sn)"
    using query_page_rows [OF h, of ?q2 sn fl "Some ?p"] fl m2 by (auto simp: resolve_filters_page)
  have q: "?q = q\<lparr>q_cursor := q_cursor q, q_limit := None\<rparr>" by simp
  have "query_after E ?q = Inr after" using cur by (simp add: query_after_def cong: option.case_cong)
  then obtain o3 where three: "snapshot_query_page E w ?q sn = (Inr (page_of E sn ?q Rs m o3), sn)"
    using query_page_rows [OF h, of ?q sn fl "after"] fl matching_page [where q = q and c = "q_cursor q" and l = None]
      resolve_filters_page [where q = q and c = "q_cursor q" and l = None]
      m_def by (auto simp flip: q)
  have v: "views_of sn (q\<lparr>q_cursor := c', q_limit := l'\<rparr>) Rs = views_of sn q Rs" for c' l'
    by (simp add: views_of_def fun_eq_iff relations_of_page)
  have "qp_logs (page_of E sn ?q2 Rs (drop n m) o2) =
      views_of sn q Rs (case l of None \<Rightarrow> drop n m | Some k \<Rightarrow> take k (drop n m))"
    unfolding page_of_simps v by (simp add: first_rows_def)
  moreover have "qp_logs (page_of E sn ?q Rs m o3) = views_of sn q Rs m"
    unfolding page_of_simps using v [of None "q_cursor q"] by (simp add: first_rows_def)
  moreover have "qp_logs p1 = views_of sn q Rs (take n m)" unfolding p1 page_of_simps by (simp add: first_rows_def n(1))
  ultimately show ?thesis using n two three by blast
qed

section \<open>One exact target filter\<close>

lemma update_same: "map_of xs k = Some v \<Longrightarrow> map_of (AList.update k v xs) = map_of xs"
  by (simp add: update_conv' fun_upd_idem)

text \<open>A filter that its registry answers without touching the index.\<close>

lemma target_filter_resolved:
  assumes h: "snapshot_holds E w L Rs sn" and ri: "map_of (rs_registries sn) (tf_entity_type f) = Some ri"
    and s: "idx_search (se_crypto E) (se_text E) (rs_keys sn) (tf_field f) (tf_value f) (tf_include_past f) (tf_mode f) ri =
      (Inr out, ri)"
    and q: "q_targets q = [f]" "q_actor q = None"
  shows "\<exists>sn'. resolve_filters E w q sn = (Inr \<lparr>rf_allowed_by_target =
        Some (touched_logs (q_from_micros q) (q_to_micros q) Rs (set (concat (map (versions_of ri) out)))),
        rf_allowed_actor_uids = None\<rparr>, sn') \<and>
    snapshot_holds E w L Rs sn' \<and> (\<forall>ty u. resolve_version sn' ty u = resolve_version sn ty u)"
proof -
  let ?sn = "sn\<lparr>rs_registries := AList.update (tf_entity_type f) ri (rs_registries sn)\<rparr>"
  have v: "version_uids_for_filter E f sn = (Inr (set (concat (map (versions_of ri) out))), ?sn)"
    using ri s by (simp add: version_uids_for_filter_def)
  have h': "snapshot_holds E w L Rs ?sn" using h by (simp add: snapshot_holds_def)
  have "resolve_version ?sn ty u = resolve_version sn ty u" for ty u
    using update_same [OF ri] by (simp add: resolve_version_def)
  moreover have "resolve_filters E w q sn = (Inr \<lparr>rf_allowed_by_target =
        Some (touched_logs (q_from_micros q) (q_to_micros q) Rs (set (concat (map (versions_of ri) out)))),
        rf_allowed_actor_uids = None\<rparr>, ?sn)"
    using log_ids_for_filter_set [OF h' v] q by (simp add: resolve_filters_def seqE_def)
  ultimately show ?thesis using h' by blast
qed

lemma version_uids: "idx_ok N recs ri \<Longrightarrow> r \<in> set recs \<Longrightarrow> rr_entity_id r \<in> set out \<Longrightarrow>
    rr_uid r \<in> set (concat (map (versions_of ri) out))"
  by (auto simp: idx_okD(2) recs_of_def)

lemma touched_in:
  assumes "map snd Rs = rels" and "(ts, rel) \<in> set rels" and "in_range q ts" and "tr_entity_registry_uid rel \<in> uids"
  shows "tr_log_id rel \<in> touched_logs (q_from_micros q) (q_to_micros q) Rs uids"
proof -
  obtain r where "r \<in> set Rs" "snd r = (ts, rel)" using assms(1,2) by auto
  then show ?thesis using assms(3,4) unfolding touched_logs_def by (intro CollectI exI [of _ r]) (simp add: wanted_row_range)
qed

lemma rows_matching_in:
  assumes "(ts, log) \<in> set logs" and "in_range q ts" and "filters_match fl q log"
  shows "log \<in> set (rows_matching fl q logs)"
  using assms by (force simp: rows_matching_def query_order_def)

lemma filters_match_target:
  "filters_match \<lparr>rf_allowed_by_target = Some ids, rf_allowed_actor_uids = None\<rparr> q log \<longleftrightarrow>
     al_log_id log \<in> ids \<and> filters_match \<lparr>rf_allowed_by_target = None, rf_allowed_actor_uids = None\<rparr> q log"
  by (simp add: filters_match_def)

end
