(* ===== verification/Store_Retain.thy ===== *)
theory Store_Retain
  imports Store_Write Store_Maintain
begin

text \<open>
  Retention by size on a disk without faults: the accounting of bytes is exact, every round of the
  loop drops the oldest sealed segment of one of the two tables, and the loop ends at the budget or
  when only the active segments are left.
\<close>

section \<open>Bytes of a table\<close>

definition file_bytes :: "fs \<Rightarrow> path \<Rightarrow> nat" where
  "file_bytes w p = (case fget w p of None \<Rightarrow> 0 | Some c \<Rightarrow> length c)"

definition table_bytes :: "table \<Rightarrow> fs \<Rightarrow> nat" where
  "table_bytes t w = seg_len (t_active t) + sum_list (map (\<lambda>(_, s). file_bytes w (ss_path s)) (t_sealed t))"

lemma sealed_in_dir:
  assumes "tbl_inv X M vs v t w" and "kv \<in> set (t_sealed t)"
  shows "ss_path (snd kv) = segment_path (t_dir t) (fst kv) \<and> fget w (ss_path (snd kv)) \<noteq> None"
proof -
  have "list_all2 (sealed_ok X w (t_dir t)) (t_sealed t) vs" using assms(1) by (simp add: tbl_inv_def)
  then show ?thesis using assms(2) by (induction rule: list_all2_induct) (auto simp: sealed_ok_def)
qed

lemma table_bytes_local:
  assumes "same_outside d w w'" and "t_dir t \<noteq> d" and "tbl_inv X M vs v t w"
  shows "table_bytes t w' = table_bytes t w"
proof -
  have "file_bytes w' (ss_path (snd kv)) = file_bytes w (ss_path (snd kv))" if "kv \<in> set (t_sealed t)" for kv
    using sealed_in_dir [OF assms(3) that] assms(1,2) by (simp add: file_bytes_def same_outside_def segment_path_def)
  then show ?thesis by (simp add: table_bytes_def case_prod_unfold cong: map_cong)
qed

lemma keeps_bytes_local:
  "same_outside d w w' \<Longrightarrow> t_dir t \<noteq> d \<Longrightarrow> keeps X M C xs t w \<Longrightarrow> table_bytes t w' = table_bytes t w"
  by (elim keepsE) (rule table_bytes_local)

lemma total_bytes_run:
  assumes k: "keeps X M C xs t w" and q: "quiet w" and run: "table_total_bytes (t, w) = (r, (t', w'))"
  shows "r = Inr (table_bytes t' w') \<and> keeps X M C xs t' w' \<and> table_step 0 t w t' w' \<and> t_sealed t' = t_sealed t"
proof -
  from k obtain vs v where inv: "tbl_inv X M vs v t w" "linked X (vs @ [v])" "rows_keep C xs (view_rows (vs @ [v]))"
    by (rule keepsE)
  obtain r1 t1 w1 where fl: "table_flush (t, w) = (r1, (t1, w1))" by (metis surj_pair)
  from inv(1) fl show ?thesis
  proof (cases rule: table_flush_cases)
    case ok
    have "(\<lambda>(_, s). file_len (ss_path s) w1) kv = Inr ((\<lambda>(_, s). file_bytes w1 (ss_path s)) kv)"
      if "kv \<in> set (t_sealed t1)" for kv
      using sealed_in_dir [OF ok(2) that] by (cases kv) (auto simp: file_len_def fs_read_def ok_or_def file_bytes_def split: option.splits)
    then have c: "collect_res (map (\<lambda>(_, s). file_len (ss_path s) w1) (t_sealed t1)) =
        Inr (map (\<lambda>(_, s). file_bytes w1 (ss_path s)) (t_sealed t1))" by (rule collect_res_map_Inr)
    have "t_sealed t1 = t_sealed t" by (subst ok(4)) simp
    then show ?thesis using run fl ok(1) c keepsI [OF ok(2) inv(2,3)] table_step_active [OF ok(3,4)]
      by (auto simp: table_total_bytes_def seqE_def table_bytes_def)
  qed (use q in simp)
qed

section \<open>Dropping the oldest segment\<close>

lemma rows_keep_drop: "rows_keep C xs (us @ rows) \<Longrightarrow> rows_keep C (drop (length us) xs) rows"
  unfolding rows_keep_def by (auto simp: list_all2_append2 dest: list_all2_lengthD)

lemma purge_oldest_run:
  assumes k: "keeps X M C xs t w" and q: "quiet w" and s: "t_sealed t = a # rest"
    and run: "purge_oldest_sealed (t, w) = (r, (t', w'))"
  shows "\<exists>b n. r = Inr (Some b) \<and> keeps X M C (drop n xs) t' w' \<and> table_step 0 t w t' w' \<and>
    t_sealed t' = rest \<and> table_bytes t w = table_bytes t' w' + b"
proof -
  from k obtain vs v where inv: "tbl_inv X M vs v t w" and lk: "linked X (vs @ [v])"
    and rk: "rows_keep C xs (view_rows (vs @ [v]))" by (rule keepsE)
  have "list_all2 (sealed_ok X w (t_dir t)) (a # rest) vs" using inv by (simp add: tbl_inv_def s)
  then obtain u ws where vs: "vs = u # ws" by (auto simp: list_all2_Cons1)
  let ?p = "segment_path (t_dir t) (fst a)"
  have p: "ss_path (snd a) = ?p" "fget w ?p \<noteq> None" using sealed_in_dir [OF inv, of a] s by auto
  obtain r1 w1 where m: "fs_remove_file ?p w = (r1, w1)" by (metis surj_pair)
  from m p(2) have ok: "r1 = Inr ()" "same_but ?p w w1" "fget w1 ?p = None"
    using q by (cases rule: fs_remove_file_cases; simp)+
  let ?t1 = "t\<lparr>t_sealed := rest\<rparr>"
  have e: "r = Inr (Some (file_bytes w ?p))" "t' = ?t1" "w' = w1"
    using run m ok(1) p(1) by (cases a; auto simp: purge_oldest_sealed_def s seqE_def on_disk_def Let_def file_bytes_def)+
  have inv1: "tbl_inv X M ws v ?t1 w1"
    using tbl_inv_forget [of X M "[]" u ws v t w "[]" a rest w1 w1] inv s vs ok by simp
  have "linked X (ws @ [v])" using lk vs linked_suffix [of X "[u]"] by simp
  moreover have "rows_keep C (drop (length (snd u)) xs) (view_rows (ws @ [v]))"
    using rk vs rows_keep_drop by (simp add: view_rows_def)
  ultimately have kp: "keeps X M C (drop (length (snd u)) xs) ?t1 w1" using keepsI [OF inv1] by blast
  have "bt_wf (a # rest)" using inv by (simp add: tbl_inv_def s)
  then have "distinct (map fst (a # rest))" by (rule bt_wf_distinct)
  then have "file_bytes w1 (ss_path (snd kv)) = file_bytes w (ss_path (snd kv))" if "kv \<in> set rest" for kv
    using that sealed_in_dir [OF inv, of kv] s ok(2)
    by (auto simp: file_bytes_def same_but_def image_iff)
  then have "table_bytes t w = table_bytes ?t1 w1 + file_bytes w ?p"
    using p(1) by (cases a) (simp add: table_bytes_def s case_prod_unfold cong: map_cong)
  moreover have "table_step 0 t w ?t1 w1" using same_but_seg_outside [OF ok(2)] by (simp add: table_step_def)
  ultimately show ?thesis using e kp by auto
qed

section \<open>The loop\<close>

definition disk_bytes :: "audit_store \<Rightarrow> fs \<Rightarrow> nat" where
  "disk_bytes s w = table_bytes (st_logs s) w + table_bytes (st_relations s) w"

text \<open>Rows are only dropped from the front of the two tables.\<close>

definition rows_dropped :: "store_rows \<Rightarrow> store_rows \<Rightarrow> bool" where
  "rows_dropped G G' \<longleftrightarrow> (\<exists>k l. G' = G\<lparr>sr_logs := drop k (sr_logs G), sr_relations := drop l (sr_relations G)\<rparr>)"

lemma rows_dropped_refl: "rows_dropped G G"
  unfolding rows_dropped_def by (intro exI [of _ 0]) simp

lemma rows_dropped_trans: "rows_dropped G G1 \<Longrightarrow> rows_dropped G1 G2 \<Longrightarrow> rows_dropped G G2"
  unfolding rows_dropped_def by (elim exE) (simp add: add.commute, blast)

lemma store_dirs_apart: "store_inv E G s w \<Longrightarrow> t_dir (st_logs s) \<noteq> t_dir (st_relations s)"
  by (simp add: store_inv_def store_dirs_def)

lemma purge_one_run:
  assumes i: "store_inv E G s w" and which: "oldest_is_log s = Some l"
    and run: "purge_one l (s, w) = (r, (s', w'))"
  shows "\<exists>b G'. r = Inr (Some b) \<and> store_inv E G' s' w' \<and> rows_dropped G G' \<and> disk_bytes s w = disk_bytes s' w' + b \<and>
    sealed_left s = Suc (sealed_left s')"
proof (cases l)
  case True
  then obtain t where m: "purge_oldest_sealed (st_logs s, w) = (r, (t, w'))" and s': "s' = s\<lparr>st_logs := t\<rparr>"
    using run by (auto simp: purge_one_def on_logs_def split: prod.splits)
  obtain a rest where a: "t_sealed (st_logs s) = a # rest"
    using which True by (auto simp: oldest_is_log_def oldest_sealed_max_ts_def split: option.splits list.splits)
  have k: "keeps (se_ext E) (se_meta E) (se_logs E) (sr_logs G) (st_logs s) w"
    "keeps (se_ext E) (se_meta E) (se_relations E) (sr_relations G) (st_relations s) w"
    using i by (simp_all add: store_inv_def)
  obtain b n where P: "r = Inr (Some b)" "keeps (se_ext E) (se_meta E) (se_logs E) (drop n (sr_logs G)) t w'"
    "table_step 0 (st_logs s) w t w'" "t_sealed t = rest" "table_bytes (st_logs s) w = table_bytes t w' + b"
    using purge_oldest_run [OF k(1) store_inv_quiet [OF i] a m] by blast
  have "same_outside (t_dir (st_logs s)) w w'" using P(3) by (simp add: table_step_def)
  then have "table_bytes (st_relations s) w' = table_bytes (st_relations s) w"
    using keeps_bytes_local k(2) store_dirs_apart [OF i] by metis
  moreover have "rows_dropped G (G\<lparr>sr_logs := drop n (sr_logs G)\<rparr>)"
    unfolding rows_dropped_def by (intro exI [of _ n] exI [of _ 0]) simp
  ultimately show ?thesis using P(1,4,5) store_inv_logs [OF i P(2,3)] a
    by (intro exI [of _ b] exI [of _ "G\<lparr>sr_logs := drop n (sr_logs G)\<rparr>"]) (simp add: s' disk_bytes_def sealed_left_def)
next
  case False
  then obtain t where m: "purge_oldest_sealed (st_relations s, w) = (r, (t, w'))" and s': "s' = s\<lparr>st_relations := t\<rparr>"
    using run by (auto simp: purge_one_def on_relations_def split: prod.splits)
  obtain a rest where a: "t_sealed (st_relations s) = a # rest"
    using which False by (auto simp: oldest_is_log_def oldest_sealed_max_ts_def split: option.splits list.splits)
  have k: "keeps (se_ext E) (se_meta E) (se_logs E) (sr_logs G) (st_logs s) w"
    "keeps (se_ext E) (se_meta E) (se_relations E) (sr_relations G) (st_relations s) w"
    using i by (simp_all add: store_inv_def)
  obtain b n where P: "r = Inr (Some b)" "keeps (se_ext E) (se_meta E) (se_relations E) (drop n (sr_relations G)) t w'"
    "table_step 0 (st_relations s) w t w'" "t_sealed t = rest" "table_bytes (st_relations s) w = table_bytes t w' + b"
    using purge_oldest_run [OF k(2) store_inv_quiet [OF i] a m] by blast
  have "same_outside (t_dir (st_relations s)) w w'" using P(3) by (simp add: table_step_def)
  then have "table_bytes (st_logs s) w' = table_bytes (st_logs s) w"
    using keeps_bytes_local k(1) store_dirs_apart [OF i] by metis
  moreover have "rows_dropped G (G\<lparr>sr_relations := drop n (sr_relations G)\<rparr>)"
    unfolding rows_dropped_def by (intro exI [of _ 0] exI [of _ n]) simp
  ultimately show ?thesis using P(1,4,5) store_inv_relations [OF i P(2,3)] a
    by (intro exI [of _ b] exI [of _ "G\<lparr>sr_relations := drop n (sr_relations G)\<rparr>"])
      (simp add: s' disk_bytes_def sealed_left_def)
qed

lemma oldest_none: "oldest_is_log s = None \<longleftrightarrow> sealed_left s = 0"
  by (auto simp: oldest_is_log_def oldest_sealed_max_ts_def sealed_left_def split: option.splits list.splits)

lemma purge_loop_run:
  assumes "store_inv E G s w" and "sz = disk_bytes s w" and "purge_loop budget sz dropped (s, w) = (r, (s', w'))"
  shows "\<exists>G'. r = Inr (dropped + (sealed_left s - sealed_left s')) \<and> sealed_left s' \<le> sealed_left s \<and>
    store_inv E G' s' w' \<and> rows_dropped G G' \<and> (disk_bytes s' w' \<le> budget \<or> sealed_left s' = 0) \<and>
    (disk_bytes s w \<le> budget \<longrightarrow> s' = s \<and> w' = w)"
  using assms
proof (induction "sealed_left s" arbitrary: sz dropped s w G)
  case 0
  then have "oldest_is_log s = None" by (simp add: oldest_none)
  then have "r = Inr dropped" "s' = s" "w' = w" using "0.prems"(3) by (auto simp: purge_loop.simps [of budget sz] split: if_splits)
  then show ?case using 0 rows_dropped_refl by auto
next
  case (Suc n)
  show ?case
  proof (cases "sz \<le> budget")
    case True
    then have "r = Inr dropped" "s' = s" "w' = w" using Suc.prems(3) by (simp_all add: purge_loop.simps [of budget sz])
    then show ?thesis using Suc.prems True rows_dropped_refl by auto
  next
    case False
    obtain l where l: "oldest_is_log s = Some l" using Suc.hyps(2) oldest_none [of s] by (cases "oldest_is_log s") auto
    obtain r1 s1 w1 where p: "purge_one l (s, w) = (r1, (s1, w1))" by (metis surj_pair)
    obtain b G1 where P: "r1 = Inr (Some b)" "store_inv E G1 s1 w1" "rows_dropped G G1" "disk_bytes s w = disk_bytes s1 w1 + b"
      "sealed_left s = Suc (sealed_left s1)"
      using purge_one_run [OF Suc.prems(1) l p] by blast
    have run: "purge_loop budget (sz - b) (dropped + 1) (s1, w1) = (r, (s', w'))"
      using Suc.prems(3) False l p P(1) by (simp add: purge_loop.simps [of budget sz])
    have "n = sealed_left s1" using Suc.hyps(2) P(5) by simp
    moreover have "sz - b = disk_bytes s1 w1" using Suc.prems(2) P(4) by simp
    ultimately obtain G' where G': "r = Inr (dropped + 1 + (sealed_left s1 - sealed_left s'))" "sealed_left s' \<le> sealed_left s1"
      "store_inv E G' s' w'" "rows_dropped G1 G'" "disk_bytes s' w' \<le> budget \<or> sealed_left s' = 0"
      using Suc.hyps(1) [OF _ P(2) _ run] by blast
    then show ?thesis using rows_dropped_trans [OF P(3) G'(4)] P(5) False Suc.prems(2) by (intro exI [of _ G']) auto
  qed
qed

lemma retained_bytes_run:
  assumes i: "store_inv E G s w" and run: "retained_bytes (s, w) = (r, (s', w'))"
  shows "r = Inr (disk_bytes s' w') \<and> store_inv E G s' w' \<and> sealed_left s' = sealed_left s"
proof -
  have k: "keeps (se_ext E) (se_meta E) (se_logs E) (sr_logs G) (st_logs s) w" using i by (simp add: store_inv_def)
  obtain r1 t1 w1 where a: "table_total_bytes (st_logs s, w) = (r1, (t1, w1))" by (metis surj_pair)
  note A = total_bytes_run [OF k store_inv_quiet [OF i] a]
  have i1: "store_inv E G (s\<lparr>st_logs := t1\<rparr>) w1" using store_inv_logs [OF i, of "sr_logs G" t1 w1 0] A by simp
  have k2: "keeps (se_ext E) (se_meta E) (se_relations E) (sr_relations G) (st_relations s) w1"
    using i1 by (simp add: store_inv_def)
  obtain r2 t2 w2 where b: "table_total_bytes (st_relations s, w1) = (r2, (t2, w2))" by (metis surj_pair)
  note B = total_bytes_run [OF k2 store_inv_quiet [OF i1] b]
  have i2: "store_inv E G (s\<lparr>st_logs := t1, st_relations := t2\<rparr>) w2"
    using store_inv_relations [OF i1, of "sr_relations G" t2 w2 0] B by simp
  have "same_outside (t_dir (st_relations s)) w1 w2" using B by (simp add: table_step_def)
  then have "table_bytes t1 w2 = table_bytes t1 w1"
    using keeps_bytes_local [OF _ _ conjunct1 [OF conjunct2 [OF A]]] store_dirs_apart [OF i1] by (simp add: eq_commute)
  then show ?thesis using run a b A B i2
    by (auto simp: retained_bytes_def on_logs_def on_relations_def seqE_def disk_bytes_def sealed_left_def)
qed

end
