(* ===== verification/Store_Schema.thy ===== *)
theory Store_Schema
  imports Store_Maintain
begin

text \<open>
  Schema evolution and re-keying: a redefinition only adds, and a re-wrapped record is the same
  record under the active keys.
\<close>

section \<open>Redefinition\<close>

lemma additive_fields_ok:
  "additive_fields sc olds = Inr () \<longleftrightarrow>
     (\<forall>old \<in> set olds. \<exists>new. schema_field sc (fd_name old) = Some new \<and>
        fd_kind new = fd_kind old \<and> fd_protection new = fd_protection old \<and> fd_search new = fd_search old)"
  by (induction olds) (auto split: option.splits)

lemma reg_open_schema: "reg_open E dir sc b cache w = (Inr g, w') \<Longrightarrow> reg_schema g = sc"
  by (auto simp: reg_open_def reg_schema_def index_of_schema seqE_def split: sum.splits prod.splits)

lemma append_meta_registries: "append_meta E ev now (s, w) = (r, (s', w')) \<Longrightarrow> s' = s\<lparr>st_meta := st_meta s'\<rparr>"
  by (auto simp: append_meta_def on_meta_def seqE_def split: sum.splits prod.splits)

lemma define_type_run:
  assumes "define_type E now sc (s, w) = (Inr (), (s', w'))"
  obtains g where "check_redefinition s sc = Inr ()" "reg_schema g = sc"
    "st_registries s' = AList.update (sc_type_name sc) g (st_registries s)"
proof -
  have c: "check_redefinition s sc = Inr ()"
    using assms by (auto simp: define_type_def split: sum.splits)
  obtain r1 w1 where o: "reg_open (renv_of E) (registry_dir (cf_root (st_cfg s)) (sc_type_name sc)) sc
      (cf_max_segment_bytes (st_cfg s)) (cf_plaintext_cache (st_cfg s)) w = (r1, w1)" by (metis surj_pair)
  obtain g where g: "r1 = Inr g" using assms c o by (cases r1) (auto simp: define_type_def)
  obtain r2 s2 w2 where a: "append_meta E (TypeDefined sc) now (s, w1) = (r2, (s2, w2))" by (metis surj_pair)
  have r2: "r2 = Inr ()" using assms c o g a by (cases r2) (auto simp: define_type_def)
  have "st_registries s2 = st_registries s" by (subst append_meta_registries [OF a]) simp
  then have "st_registries s' = AList.update (sc_type_name sc) g (st_registries s)"
    using assms c o g a r2 by (auto simp: define_type_def insert_registry_def split: prod.splits)
  then show ?thesis using that c reg_open_schema o g by blast
qed

lemma define_type_failed:
  assumes "define_type E now sc (s, w) = (Inl e, (s', w'))"
  shows "st_registries s' = st_registries s \<and> (\<forall>e'. check_redefinition s sc = Inl e' \<longrightarrow> e = e' \<and> s' = s \<and> w' = w)"
proof -
  obtain r1 w1 where o: "reg_open (renv_of E) (registry_dir (cf_root (st_cfg s)) (sc_type_name sc)) sc
      (cf_max_segment_bytes (st_cfg s)) (cf_plaintext_cache (st_cfg s)) w = (r1, w1)" by (metis surj_pair)
  obtain r2 s2 w2 where a: "append_meta E (TypeDefined sc) now (s, w1) = (r2, (s2, w2))" by (metis surj_pair)
  have "st_registries s2 = st_registries s" by (subst append_meta_registries [OF a]) simp
  then show ?thesis using assms o a
    by (cases r1; cases r2) (auto simp: define_type_def insert_registry_def split: sum.splits)
qed

section \<open>Re-wrapping a record\<close>

text \<open>What a re-wrapped value shares with the old one.\<close>

definition rewrapped :: "cryptoext \<Rightarrow> key_ring \<Rightarrow> stored_value \<Rightarrow> stored_value \<Rightarrow> bool" where
  "rewrapped K R v v' \<longleftrightarrow> (\<forall>m. decrypt K R v = Inr m \<longrightarrow> decrypt K R v' = Inr m) \<and>
     (\<forall>ver wr n c. v = Rsa ver wr n c \<longrightarrow> (\<exists>wr'. v' = Rsa (the (active_rsa_version R)) wr' n c))"

lemma rewrap_rewrapped:
  assumes "crypto_ok K" and "ring_ok K R" and "can_sign R" and "rewrap K R pad v = Inr v'"
  shows "rewrapped K R v v'"
  using rewrap_decrypt [OF assms(1,2,4) _ assms(3)] rewrap_active_version assms(4) unfolding rewrapped_def by blast

lemma rekey_fields_run:
  assumes K: "crypto_ok K" "ring_ok K R" "can_sign R"
    and run: "rekey_fields K N R sc pads i names rec = (Inr rec', j)" and d: "distinct names"
    and sub: "set names \<subseteq> fst ` set (rr_fields rec)" and wf: "bt_wf (rr_fields rec)"
  shows "rec' = rec\<lparr>rr_fields := rr_fields rec', rr_tokens := rr_tokens rec'\<rparr> \<and>
    fst ` set (rr_fields rec') = fst ` set (rr_fields rec) \<and> bt_wf (rr_fields rec') \<and>
    (\<forall>name v. map_of (rr_fields rec) name = Some v \<longrightarrow> (\<exists>v'. map_of (rr_fields rec') name = Some v' \<and>
       (if name \<in> set names then rewrapped K R v v' else v' = v))) \<and>
    (\<forall>name. name \<notin> set names \<longrightarrow> map_of (rr_tokens rec') name = map_of (rr_tokens rec) name) \<and>
    j = i + length names"
  using run d sub wf
proof (induction names arbitrary: i rec)
  case Nil
  then show ?case by simp
next
  case (Cons name names)
  obtain v where v: "map_of (rr_fields rec) name = Some v"
    using Cons.prems(3) by (metis image_eqI list.set_intros(1) map_of_eq_None_iff not_None_eq subsetD)
  obtain v1 where v1: "rewrap K R (pads i) v = Inr v1" using Cons.prems(1) v by (auto split: sum.splits)
  obtain ft where ft: "rekey_tokens K N R sc name v1 = Inr ft" using Cons.prems(1) v v1 by (auto split: sum.splits)
  let ?rec = "rec\<lparr>rr_tokens := (case ft of None \<Rightarrow> rr_tokens rec | Some t \<Rightarrow> bt_insert name t (rr_tokens rec)),
      rr_fields := bt_insert name v1 (rr_fields rec)\<rparr>"
  have run: "rekey_fields K N R sc pads (Suc i) names ?rec = (Inr rec', j)" using Cons.prems(1) v v1 ft by simp
  have f: "map_of (rr_fields ?rec) = (map_of (rr_fields rec))(name \<mapsto> v1)" by simp
  have n: "name \<in> fst ` set (rr_fields rec)" "name \<notin> set names" "set names \<subseteq> fst ` set (rr_fields ?rec)"
    using Cons.prems(2,3) by auto
  have w: "bt_wf (rr_fields ?rec)" using bt_wf_insert [OF Cons.prems(4)] by simp
  have IH: "rec' = ?rec\<lparr>rr_fields := rr_fields rec', rr_tokens := rr_tokens rec'\<rparr>"
    "fst ` set (rr_fields rec') = fst ` set (rr_fields ?rec)" "bt_wf (rr_fields rec')"
    "\<And>k x. map_of (rr_fields ?rec) k = Some x \<Longrightarrow> \<exists>v'. map_of (rr_fields rec') k = Some v' \<and>
       (if k \<in> set names then rewrapped K R x v' else v' = x)"
    "\<And>k. k \<notin> set names \<Longrightarrow> map_of (rr_tokens rec') k = map_of (rr_tokens ?rec) k" "j = Suc i + length names"
    using Cons.IH [OF run _ n(3) w] Cons.prems(2) by auto
  have "rec' = rec\<lparr>rr_fields := rr_fields rec', rr_tokens := rr_tokens rec'\<rparr>" by (subst IH(1)) simp
  moreover have "\<exists>v'. map_of (rr_fields rec') k = Some v' \<and>
      (if k \<in> set (name # names) then rewrapped K R x v' else v' = x)" if "map_of (rr_fields rec) k = Some x" for k x
  proof (cases "k = name")
    case True
    then show ?thesis using IH(4) [of name v1] n(2) f that v rewrap_rewrapped [OF K v1] by simp
  next
    case False
    then show ?thesis using IH(4) [of k x] f that by simp
  qed
  moreover have "map_of (rr_tokens rec') k = map_of (rr_tokens rec) k" if "k \<notin> set (name # names)" for k
    using IH(5) [of k] that by (simp split: option.splits)
  ultimately show ?case using IH(2,3,6) n(1) by (simp add: insert_absorb)
qed

lemma rsa_names_iff:
  assumes d: "distinct (map fst (rr_fields rec))" and v: "map_of (rr_fields rec) name = Some v"
  shows "name \<in> set (rsa_names rec) \<longleftrightarrow> (\<exists>ver wr n c. v = Rsa ver wr n c)"
proof -
  have "(name, x) \<in> set (rr_fields rec) \<longleftrightarrow> x = v" for x
    using map_of_eq_Some_iff [OF d, of name x] v by auto
  then have "name \<in> set (rsa_names rec) \<longleftrightarrow> (case v of Rsa _ _ _ _ \<Rightarrow> True | _ \<Rightarrow> False)"
    by (force simp: rsa_names_def image_iff)
  then show ?thesis by (cases v) simp_all
qed

end
