(* ===== verification/Store_Props.thy ===== *)
theory Store_Props
  imports Store_Demo Store_Read Store_Retain Store_Schema
begin

text \<open>
  The properties of the audit store.
\<close>

section \<open>Appending\<close>

text \<open>
  C1: \<open>append_at\<close> on a disk without faults keeps the invariant of the whole store whatever it
  returns: existing rows of no table change and at most one log is added. When it returns an id, the
  custom values passed validation, the actor and every target are registered in the registry of
  their type under a record that is not deleted, one log row refers to the actor's record, and one
  relation row per target, in order, refers to the target's record.
\<close>

theorem append_at_correct:
  assumes "store_inv E G s w" and "store_room (2 * length targets + 2) s"
    and "unused D 0 (length targets + 1) G"
    and "append_at E D ts actor_type actor meth url cont targets custom (s, w) = (r, (s', w'))"
  shows "\<exists>G'. store_inv E G' s' w' \<and> extends G G' \<and>
    (\<forall>id. r = Inr id \<longrightarrow> id = dr_uid D (length targets + 1) \<and> validate_custom s custom ts = Inr () \<and>
      appended E D ts actor_type actor meth url cont targets custom G G')"
proof -
  have room: "store_room (Suc (length targets + Suc (length targets + 0))) s"
    using store_room_mono [OF assms(2)] by simp
  show ?thesis using append_at_inv [OF assms(1) room _ assms(4)] assms(3) by auto
qed

lemma append_at_correct_witness:
  "\<exists>r s' w' G'. append_at demo_senv demo_draws 3 ''user'' demo_input ''GET'' ''u'' (CText ''hi'') [] [] (demo_store, demo_store_fs) =
     (r, (s', w')) \<and> store_inv demo_senv G' s' w' \<and> extends no_rows G'"
proof -
  obtain r s' w' where run: "append_at demo_senv demo_draws 3 ''user'' demo_input ''GET'' ''u'' (CText ''hi'') [] []
      (demo_store, demo_store_fs) = (r, (s', w'))" by (metis surj_pair)
  have "store_room (2 * length ([] :: (string \<times> entity_input) list) + 2) demo_store" by (rule demo_store_room) simp
  moreover have "unused demo_draws 0 (length ([] :: (string \<times> entity_input) list) + 1) no_rows"
    using demo_draws_unused by simp
  ultimately show ?thesis using append_at_correct [OF demo_store_inv _ _ run] run by blast
qed

section \<open>Querying\<close>



text \<open>
  C18: pages. When a page carries a cursor, asking the same snapshot again with the cursor returns
  exactly the views that follow: the two pages together are a prefix of the whole answer, and all
  of it when the second page has no limit. No log is skipped and none is repeated.
\<close>

theorem query_pages_continue:
  assumes "snapshot_holds E w L Rs sn" and "resolve_filters E w q sn = (Inr fl, sn)"
    and "query_after E q = Inr after" and "textcodec_ok (se_cursor E)" and "positions_fit L"
    and "snapshot_query_page E w q sn = (Inr p1, sn)" and "qp_next_cursor p1 = Some c"
  shows "\<exists>n p2 p. q_limit q = Some n \<and> length (qp_logs p1) = n \<and> 0 < n \<and>
    snapshot_query_page E w (q\<lparr>q_cursor := Some c, q_limit := l\<rparr>) sn = (Inr p2, sn) \<and>
    snapshot_query_page E w (q\<lparr>q_limit := None\<rparr>) sn = (Inr p, sn) \<and>
    qp_logs p = qp_logs p1 @ drop n (qp_logs p) \<and>
    qp_logs p2 = (case l of None \<Rightarrow> drop n (qp_logs p) | Some k \<Rightarrow> take k (drop n (qp_logs p)))"
proof -
  obtain n p2 p where N: "q_limit q = Some n" "0 < n" "n < length (matching fl q after L)"
    "qp_logs p1 = views_of sn q Rs (take n (matching fl q after L))"
    "snapshot_query_page E w (q\<lparr>q_cursor := Some c, q_limit := l\<rparr>) sn = (Inr p2, sn)"
    "snapshot_query_page E w (q\<lparr>q_limit := None\<rparr>) sn = (Inr p, sn)"
    "qp_logs p2 = views_of sn q Rs (case l of None \<Rightarrow> drop n (matching fl q after L)
       | Some k \<Rightarrow> take k (drop n (matching fl q after L)))"
    "qp_logs p = views_of sn q Rs (matching fl q after L)"
    using next_page [OF assms, of l] by blast
  have "qp_logs p1 = take n (qp_logs p)" using N(4,8) by (simp add: views_of_def take_map)
  moreover have "qp_logs p2 = (case l of None \<Rightarrow> drop n (qp_logs p) | Some k \<Rightarrow> take k (drop n (qp_logs p)))"
    using N(7,8) by (simp add: views_of_def take_map drop_map split: option.splits)
  moreover have "length (qp_logs p1) = n" using N(3,4) by (simp add: views_of_def)
  ultimately show ?thesis using N(1,2,5,6) by (metis append_take_drop_id)
qed

definition full_logs :: "audit_log prow list" where "full_logs = [((0, 0), 3, demo_log), ((0, 1), 4, demo_log2)]"

definition full_sn :: read_snapshot where
  "full_sn = \<lparr>rs_keys = demo_ring, rs_registries = [], rs_logs = slices_of (st_logs full_store),
     rs_relations = slices_of (st_relations full_store)\<rparr>"

lemma full_sn_holds: "snapshot_holds demo_senv full_fs full_logs [((0, 0), 3, demo_rel)] full_sn"
proof -
  have rows: "table_rows (se_ext demo_senv) (se_meta demo_senv) C (loaded_table d (one_row d)) full_fs rs"
    if "d \<in> set demo_dirs" "decoded C (number_from 0 0 (one_row d)) rs" for d C and rs :: "'r prow list"
  proof -
    have "\<forall>r \<in> set (one_row d). row_ok r" by (simp add: one_row_def row_ok_def)
    then have "tbl_inv demo_ext demo_meta_codec [] (ZERO_CHAIN, one_row d) (loaded_table d (one_row d)) full_fs"
      unfolding full_fs_def using demo_files [OF that(1)] by (intro loaded_table_inv) blast+
    moreover have "snap_ok demo_ext [] (ZERO_CHAIN, one_row d) (loaded_table d (one_row d)) full_fs"
      using demo_files(1) [OF that(1)] by (simp add: snap_ok_def full_fs_def)
    moreover have "decoded C (table_numbered (loaded_table d (one_row d)) [] (ZERO_CHAIN, one_row d)) rs"
      using that(2) by (simp add: table_numbered_def)
    ultimately show ?thesis using full_fs_fit
      unfolding table_rows_def demo_senv_def senv.simps by (intro conjI exI; assumption?)
  qed
  have "table_rows (se_ext demo_senv) (se_meta demo_senv) (se_logs demo_senv) (st_logs full_store) full_fs full_logs"
    using rows [of "demo_root @ [''logs'']" "se_logs demo_senv" full_logs]
    by (simp add: full_store_def demo_store_with_def Let_def demo_dirs_def one_row_def demo_root_def number_from_def
        decoded_def full_logs_def demo_senv_def demo_log_codec_def)
  moreover have "table_rows (se_ext demo_senv) (se_meta demo_senv) (se_relations demo_senv) (st_relations full_store) full_fs
      [((0, 0), 3, demo_rel)]"
    using rows [of "demo_root @ [''relations'']" "se_relations demo_senv" "[((0, 0), 3, demo_rel)]"]
    by (simp add: full_store_def demo_store_with_def Let_def demo_dirs_def one_row_def demo_root_def number_from_def
        decoded_def demo_senv_def one_codec_def)
  ultimately show ?thesis unfolding snapshot_holds_def full_sn_def read_snapshot.simps by blast
qed

lemma query_pages_continue_witness:
  "\<exists>p1 c p2. fst (snapshot_query_page demo_senv full_fs (log_query_default\<lparr>q_limit := Some 1\<rparr>) full_sn) = Inr p1 \<and>
     map lv_log_id (qp_logs p1) = [78] \<and> qp_next_cursor p1 = Some c \<and>
     fst (snapshot_query_page demo_senv full_fs (log_query_default\<lparr>q_cursor := Some c, q_limit := None\<rparr>) full_sn) = Inr p2 \<and>
     map lv_log_id (qp_logs p2) = [77]"
proof -
  let ?q = "log_query_default\<lparr>q_limit := Some 1\<rparr>" and ?fl = "\<lparr>rf_allowed_by_target = None, rf_allowed_actor_uids = None\<rparr>"
  have fl: "resolve_filters demo_senv full_fs ?q full_sn = (Inr ?fl, full_sn)"
    by (simp add: resolve_filters_def seqE_def log_query_default_def)
  have cur: "query_after demo_senv ?q = Inr None" by (simp add: query_after_def log_query_default_def)
  have m: "matching ?fl ?q None full_logs = [((0, 1), 4, demo_log2), ((0, 0), 3, demo_log)]"
    by (simp add: matching_def full_logs_def wanted_row_def filters_match_def custom_matches_def log_query_default_def query_order_def)
  obtain opened where one: "snapshot_query_page demo_senv full_fs ?q full_sn =
      (Inr (page_of demo_senv full_sn ?q [((0, 0), 3, demo_rel)] (matching ?fl ?q None full_logs) opened), full_sn)"
    using query_page_rows [OF full_sn_holds fl cur] by blast
  let ?p1 = "page_of demo_senv full_sn ?q [((0, 0), 3, demo_rel)] (matching ?fl ?q None full_logs) opened"
  obtain c where c: "qp_next_cursor ?p1 = Some c"
    unfolding m page_of_simps by (simp add: first_rows_def log_query_default_def)
  have p1: "map lv_log_id (qp_logs ?p1) = [78]"
    unfolding m page_of_simps by (simp add: views_of_def first_rows_def log_query_default_def render_def demo_log2_def)
  have U: "textcodec_ok (se_cursor demo_senv)" by (simp add: demo_senv_def textcodec_ok_def demo_textcodec_def)
  have fit: "positions_fit full_logs" by (simp add: positions_fit_def full_logs_def)
  obtain n p2 p where N: "q_limit ?q = Some n"
    "snapshot_query_page demo_senv full_fs (?q\<lparr>q_cursor := Some c, q_limit := None\<rparr>) full_sn = (Inr p2, full_sn)"
    "snapshot_query_page demo_senv full_fs (?q\<lparr>q_limit := None\<rparr>) full_sn = (Inr p, full_sn)"
    "qp_logs p2 = drop n (qp_logs p)"
    using query_pages_continue [OF full_sn_holds fl cur U fit one c, of None] by auto
  have "n = 1" using N(1) by simp
  let ?q' = "?q\<lparr>q_limit := None\<rparr>"
  have fl': "resolve_filters demo_senv full_fs ?q' full_sn = (Inr ?fl, full_sn)"
    by (simp add: resolve_filters_def seqE_def log_query_default_def)
  have cur': "query_after demo_senv ?q' = Inr None" by (simp add: query_after_def log_query_default_def)
  have m': "matching ?fl ?q' None full_logs = [((0, 1), 4, demo_log2), ((0, 0), 3, demo_log)]"
    by (simp add: matching_def full_logs_def wanted_row_def filters_match_def custom_matches_def log_query_default_def query_order_def)
  have "map lv_log_id (qp_logs p) = [78, 77]"
    using query_page_rows [OF full_sn_holds fl' cur'] N(3) unfolding m'
    by (auto simp: page_of_simps views_of_def first_rows_def render_def demo_log2_def demo_log_def)
  then have "map lv_log_id (qp_logs p2) = [77]" using N(4) \<open>n = 1\<close> by (metis drop_map drop_Suc_Cons drop_0 One_nat_def)
  moreover have "?q\<lparr>q_cursor := Some c, q_limit := None\<rparr> = log_query_default\<lparr>q_cursor := Some c, q_limit := None\<rparr>" by simp
  ultimately show ?thesis using one c p1 N(2) by (metis fst_conv)
qed

text \<open>
  C17: an exact target filter finds every log it should. When some version of an entity was stored
  with value \<open>v\<close> in an indexed field, under any protection that can be indexed and any key ring
  whose keys the store still has, a log that was appended with any version of that entity as a
  target, and that passes the other conditions of the query, is in the answer to the query for
  \<open>v\<close>, with that version among its targets.
\<close>

theorem query_finds_target:
  assumes "store_inv E G s w" and "codec_ok (se_logs E)" and "codec_ok (se_relations E)"
    and "map_of (st_registries s) ty = Some g" and "schema_field (reg_schema g) f = Some def"
    and "fd_indexed def" and "fd_protection def \<noteq> PRsa"
    and "old \<in> set (sr_registries G ty)" and "stored_as (se_crypto E) (se_text E) R rs (rr_fields old) toks def v"
    and "ring_extends R (cf_keys (st_cfg s))"
    and "rec \<in> set (sr_registries G ty)" and "rr_entity_id rec = rr_entity_id old"
    and "(tsr, rel) \<in> set (sr_relations G)" and "tr_entity_registry_uid rel = rr_uid rec" and "tr_entity_type rel = ty"
    and "(ts, log) \<in> set (sr_logs G)" and "al_log_id log = tr_log_id rel"
    and "q_targets q = [filter_exact ty f v]" and "q_actor q = None" and "q_cursor q = None" and "q_limit q = None"
    and "in_range q ts" and "in_range q tsr"
    and "filters_match \<lparr>rf_allowed_by_target = None, rf_allowed_actor_uids = None\<rparr> q log"
    and "store_query_page E q (s, w) = (r, (s', w'))" and "files_fit w'"
  shows "\<exists>page view. r = Inr page \<and> view \<in> set (qp_logs page) \<and> lv_log_id view = al_log_id log \<and>
    snapshot_of rec \<in> set (lv_targets view)"
proof -
  obtain L Rs sn where S: "snapshot_holds E w' L Rs sn" "map snd L = sr_logs G" "map snd Rs = sr_relations G"
    "rs_registries sn = map (\<lambda>(k, g). (k, tg_idx g)) (st_registries s)" "rs_keys sn = cf_keys (st_cfg s)"
    "r = fst (snapshot_query_page E w' q sn)"
    using with_snapshot_run [OF assms(1-3) assms(25) [unfolded store_query_page_def] assms(26)] by metis
  have idx: "idx_ok (se_text E) (sr_registries G ty) (tg_idx g)"
    using reg_invD [OF store_inv_registry_facts(1) [OF assms(1,4)]] by simp
  have ri: "map_of (rs_registries sn) ty = Some (tg_idx g)" using assms(4) S(4) by (simp add: map_of_map)
  obtain out where out: "idx_search (se_crypto E) (se_text E) (cf_keys (st_cfg s)) f v True Exact (tg_idx g) = (Inr out, tg_idx g)"
    "rr_entity_id old \<in> set out"
    using exact_search_finds_entity [OF idx assms(8) assms(5) [unfolded reg_schema_def] assms(6,7,9,10)] by blast
  let ?ids = "touched_logs (q_from_micros q) (q_to_micros q) Rs (set (concat (map (versions_of (tg_idx g)) out)))"
  let ?fl = "\<lparr>rf_allowed_by_target = Some ?ids, rf_allowed_actor_uids = None\<rparr>"
  obtain sn' where F: "resolve_filters E w' q sn = (Inr ?fl, sn')" "snapshot_holds E w' L Rs sn'"
    "\<And>ty u. resolve_version sn' ty u = resolve_version sn ty u"
    using target_filter_resolved [OF S(1), of "filter_exact ty f v" "tg_idx g" out q] ri out(1) S(5) assms(18,19)
    by (auto simp: filter_exact_def)
  have "query_after E q = Inr None" using assms(20) by (simp add: query_after_def)
  then obtain opened where page: "r = Inr (page_of E sn' q Rs (matching ?fl q None L) opened)"
    using query_page_rows [OF F(2,1)] S(6) by force
  have "rr_uid rec \<in> set (concat (map (versions_of (tg_idx g)) out))"
    using version_uids [OF idx assms(11)] out(2) assms(12) by simp
  then have "al_log_id log \<in> ?ids" using touched_in [OF S(3) assms(13,23)] assms(14,17) by simp
  then have "log \<in> set (rows_matching ?fl q (sr_logs G))"
    using rows_matching_in [OF assms(16,22)] assms(24) by (simp add: filters_match_target)
  define view where "view = render sn' log (relations_matching q (sr_relations G))"
  have "view \<in> set (qp_logs (page_of E sn' q Rs (matching ?fl q None L) opened))"
    using \<open>log \<in> _\<close> assms(21) unfolding page_of_rows [OF S(2,3)] view_def by (simp add: first_rows_def)
  have "rel \<in> set (relations_matching q (sr_relations G) (al_log_id log))"
    using assms(13,17,23) by (force simp: relations_matching_def)
  moreover have "resolve_version sn' ty (rr_uid rec) = snapshot_of rec"
    using F(3) [of ty "rr_uid rec"] reg_version_rec [OF idx assms(11)] ri by (simp add: resolve_version_def [of sn])
  ultimately have "snapshot_of rec \<in> set (lv_targets view)"
    using assms(14,15) by (auto simp: view_def render_def intro!: rev_image_eqI [of rel])
  moreover have "lv_log_id view = al_log_id log" by (simp add: view_def render_def)
  ultimately show ?thesis using page \<open>view \<in> _\<close> by blast
qed

lemma query_finds_target_witness:
  "\<exists>page view. fst (store_query_page demo_senv
       (log_query_default\<lparr>q_targets := [filter_exact ''user'' ''name'' (Text ''abc'')]\<rparr>) (full_store, full_fs)) = Inr page \<and>
     view \<in> set (qp_logs page) \<and> lv_log_id view = 77 \<and> snapshot_of demo_rec \<in> set (lv_targets view)"
proof -
  let ?q = "log_query_default\<lparr>q_targets := [filter_exact ''user'' ''name'' (Text ''abc'')]\<rparr>"
  have run: "store_query_page demo_senv ?q (full_store, full_fs) =
      (fst (store_query_page demo_senv ?q (full_store, full_fs)), (full_store, full_fs))"
    unfolding store_query_page_def by (rule full_snapshot_run)
  obtain g where g: "map_of (st_registries full_store) ''user'' = Some g" "tg_idx g = index_of demo_text demo_schema False [demo_rec]"
    by (simp add: full_store_def demo_store_with_def Let_def)
  have f: "schema_field (reg_schema g) ''name'' = Some demo_field" "fd_protection demo_field \<noteq> PRsa"
    using demo_schema_field g(2) by (simp_all add: reg_schema_def demo_field_simps)
  have st: "stored_as (se_crypto demo_senv) (se_text demo_senv) demo_ring demo_rnd (rr_fields demo_rec) (rr_tokens demo_rec)
      demo_field (Text ''abc'')" using demo_stored by (simp add: demo_senv_def)
  have R: "ring_extends demo_ring (cf_keys (st_cfg full_store))"
    by (simp add: ring_extends_def full_store_def demo_store_with_def Let_def demo_cfg_def config_keys_def)
  have rows: "demo_rec \<in> set (sr_registries one_rows ''user'')" "(3, demo_rel) \<in> set (sr_relations one_rows)"
    "(3, demo_log) \<in> set (sr_logs one_rows)" "tr_entity_registry_uid demo_rel = rr_uid demo_rec"
    "tr_entity_type demo_rel = ''user''" "al_log_id demo_log = tr_log_id demo_rel" "al_log_id demo_log = 77"
    by (simp_all add: one_rows_def demo_rel_def demo_rec_def demo_log_def)
  have q: "q_targets ?q = [filter_exact ''user'' ''name'' (Text ''abc'')]" "q_actor ?q = None" "q_cursor ?q = None"
    "q_limit ?q = None" "in_range ?q 3"
    "filters_match \<lparr>rf_allowed_by_target = None, rf_allowed_actor_uids = None\<rparr> ?q demo_log"
    by (simp_all add: log_query_default_def in_range_def filters_match_def custom_matches_def)
  show ?thesis
    using query_finds_target [OF full_store_inv demo_codecs_ok g(1) f(1) demo_field_simps(1) f(2) rows(1) st R rows(1) refl
        rows(2,4,5,3,6) q(1-5,5,6) run full_fs_fit] rows(7) by simp
qed

section \<open>Maintenance\<close>





text \<open>
  re-keying a record. A successful \<open>rekey_record\<close> changes nothing but the RSA-protected fields
  and their blind-index tokens; each RSA value is wrapped under the active version, keeps its nonce
  and ciphertext, and decrypts to the plaintext it had; every other value stays as it is.
\<close>

theorem rekey_record_correct:
  assumes "crypto_ok K" and "ring_ok K R" and "can_sign R" and "bt_wf (rr_fields rec)"
    and "rekey_record K N R sc pads i rec = (Inr rec', j)"
  shows "rec' = rec\<lparr>rr_fields := rr_fields rec', rr_tokens := rr_tokens rec'\<rparr> \<and>
    fst ` set (rr_fields rec') = fst ` set (rr_fields rec) \<and> bt_wf (rr_fields rec') \<and>
    (\<forall>name v. map_of (rr_fields rec) name = Some v \<longrightarrow> (\<exists>v'. map_of (rr_fields rec') name = Some v' \<and>
       (case v of
          Rsa ver wr n c \<Rightarrow> (\<exists>wr'. v' = Rsa (the (active_rsa_version R)) wr' n c) \<and>
            (\<forall>m. decrypt K R v = Inr m \<longrightarrow> decrypt K R v' = Inr m)
        | _ \<Rightarrow> v' = v \<and> map_of (rr_tokens rec') name = map_of (rr_tokens rec) name)))"
proof -
  have d: "distinct (map fst (rr_fields rec))" using assms(4) by (rule bt_wf_distinct)
  then have "distinct (rsa_names rec)" by (simp add: rsa_names_def distinct_map_filter)
  moreover have "set (rsa_names rec) \<subseteq> fst ` set (rr_fields rec)" by (auto simp: rsa_names_def)
  ultimately have all: "rec' = rec\<lparr>rr_fields := rr_fields rec', rr_tokens := rr_tokens rec'\<rparr> \<and>
    fst ` set (rr_fields rec') = fst ` set (rr_fields rec) \<and> bt_wf (rr_fields rec') \<and>
    (\<forall>name v. map_of (rr_fields rec) name = Some v \<longrightarrow> (\<exists>v'. map_of (rr_fields rec') name = Some v' \<and>
       (if name \<in> set (rsa_names rec) then rewrapped K R v v' else v' = v))) \<and>
    (\<forall>name. name \<notin> set (rsa_names rec) \<longrightarrow> map_of (rr_tokens rec') name = map_of (rr_tokens rec) name) \<and>
    j = i + length (rsa_names rec)"
    by (rule rekey_fields_run [OF assms(1-3) assms(5) [unfolded rekey_record_def] _ _ assms(4)])
  note names = rsa_names_iff [OF d]
  note R = conjunct1 [OF all] conjunct1 [OF conjunct2 [OF all]] conjunct1 [OF conjunct2 [OF conjunct2 [OF all]]]
    conjunct1 [OF conjunct2 [OF conjunct2 [OF conjunct2 [OF all]]], rule_format]
    conjunct1 [OF conjunct2 [OF conjunct2 [OF conjunct2 [OF conjunct2 [OF all]]]], rule_format]
  have "\<exists>v'. map_of (rr_fields rec') name = Some v' \<and> (case v of
          Rsa ver wr n c \<Rightarrow> (\<exists>wr'. v' = Rsa (the (active_rsa_version R)) wr' n c) \<and>
            (\<forall>m. decrypt K R v = Inr m \<longrightarrow> decrypt K R v' = Inr m)
        | _ \<Rightarrow> v' = v \<and> map_of (rr_tokens rec') name = map_of (rr_tokens rec) name)"
    if v: "map_of (rr_fields rec) name = Some v" for name v
  proof (cases "name \<in> set (rsa_names rec)")
    case True
    then obtain ver wr n c where e: "v = Rsa ver wr n c" using names [OF v] by auto
    obtain v' where "map_of (rr_fields rec') name = Some v'" "rewrapped K R v v'"
      using R(4) [OF v] True by (metis (no_types))
    then show ?thesis unfolding e rewrapped_def by (intro exI [of _ v']) simp
  next
    case False
    then have "\<nexists>ver wr n c. v = Rsa ver wr n c" using names [OF v] by simp
    then show ?thesis using R(4) [OF v] R(5) [OF False] False by (cases v) simp_all
  qed
  then show ?thesis by (intro conjI R(1-3) allI impI)
qed

lemma rekey_record_correct_witness:
  "\<exists>rec'. fst (rekey_record demo_crypto demo_text demo_ring3 demo_schema (\<lambda>_. []) 0
       (demo_rec\<lparr>rr_fields := [(''secret'', Rsa 1 (b64_encode (replicate 32 1)) (b64_encode (replicate 12 2))
          (b64_encode (as_bytes ''abc'')))]\<rparr>)) = Inr rec' \<and>
     (\<exists>v'. map_of (rr_fields rec') ''secret'' = Some v' \<and> decrypt demo_crypto demo_ring3 v' = Inr (as_bytes ''abc''))"
proof -
  let ?v = "Rsa 1 (b64_encode (replicate 32 1)) (b64_encode (replicate 12 2)) (b64_encode (as_bytes ''abc''))"
  let ?v' = "Rsa 2 (b64_encode (replicate 32 1)) (b64_encode (replicate 12 2)) (b64_encode (as_bytes ''abc''))"
  let ?rec = "demo_rec\<lparr>rr_fields := [(''secret'', ?v)]\<rparr>"
  have w: "rewrap demo_crypto demo_ring3 [] ?v = Inr ?v'"
    by (simp add: active_rsa_version_def last_key_def demo_ring_def demo_ring3_def rsa_public_of_def rsa_private_of_def
        demo_crypto_def)
  have d: "decrypt demo_crypto demo_ring3 ?v = Inr (as_bytes ''abc'')"
    by (simp add: demo_ring_def demo_ring3_def rsa_private_of_def demo_crypto_def rbind_Inr_iff)
  obtain rec' j where run: "rekey_record demo_crypto demo_text demo_ring3 demo_schema (\<lambda>_. []) 0 ?rec = (Inr rec', j)"
    using w by (simp add: rekey_record_def rsa_names_def rekey_tokens_def schema_field_def demo_schema_def demo_field_simps)
  have "bt_wf (rr_fields ?rec)" by (simp add: bt_wf_Cons)
  note all = rekey_record_correct [OF demo_crypto_ok demo_ring3_facts(1,4) this run]
  have "\<exists>v'. map_of (rr_fields rec') ''secret'' = Some v' \<and> decrypt demo_crypto demo_ring3 v' = Inr (as_bytes ''abc'')"
    using conjunct2 [OF conjunct2 [OF conjunct2 [OF all]], rule_format, of "''secret''" ?v] d by auto
  then show ?thesis using run by (intro exI [of _ rec'] conjI) simp
qed

end
