(* ===== verification/Audit_Event.thy ===== *)
theory Audit_Event
  imports Store
begin

text \<open>
  The unit the host hands to the middleware (\<open>crates/quipu-middleware/src/event.rs\<close>).
\<close>

record target_spec =
  tsp_entity_type :: string
  tsp_input :: entity_input

record audit_event =
  ev_occurred_at :: u64
  ev_actor_type :: string
  ev_actor :: entity_input
  ev_method :: string
  ev_url :: string
  ev_content :: content
  ev_targets :: "target_spec list"
  ev_custom :: "(string \<times> fval) list"

definition target_spec_new :: "string \<Rightarrow> entity_input \<Rightarrow> target_spec" where
  "target_spec_new entity_type input = \<lparr>tsp_entity_type = entity_type, tsp_input = input\<rparr>"

text \<open>\<open>now\<close> is the clock.\<close>

definition event_new ::
  "u64 \<Rightarrow> string \<Rightarrow> entity_input \<Rightarrow> string \<Rightarrow> string \<Rightarrow> content \<Rightarrow> audit_event" where
  "event_new now actor_type actor meth url cont =
     \<lparr>ev_occurred_at = now, ev_actor_type = actor_type, ev_actor = actor, ev_method = meth, ev_url = url,
      ev_content = cont, ev_targets = [], ev_custom = []\<rparr>"

definition event_target :: "target_spec \<Rightarrow> audit_event \<Rightarrow> audit_event" where
  "event_target t ev = ev\<lparr>ev_targets := ev_targets ev @ [t]\<rparr>"

definition event_custom :: "string \<Rightarrow> fval \<Rightarrow> audit_event \<Rightarrow> audit_event" where
  "event_custom name v ev = ev\<lparr>ev_custom := bt_insert name v (ev_custom ev)\<rparr>"

end
