(* ===== verification/Pipeline_Metrics.thy ===== *)
theory Pipeline_Metrics
  imports Quipu_Prelude
begin

text \<open>
  The counters of the pipeline (\<open>crates/quipu-middleware/src/metrics.rs\<close>).

  The 64-bit counters are natural numbers (they count events of one run). The queue gauge is
  signed. A latency is a number of nanoseconds; the bucket bounds are the code's, in nanoseconds:
  they are the values \<open>Duration::as_secs_f64\<close> rounds to the listed floats, and rounding is monotone,
  so the comparison of floats is the comparison of nanoseconds.
\<close>

definition LATENCY_BUCKETS_NANOS :: "nat list" where
  "LATENCY_BUCKETS_NANOS =
     [500000, 1000000, 5000000, 10000000, 25000000, 50000000, 100000000, 500000000, 1000000000]"

record pipeline_metrics =
  pm_queue_depth :: int
  pm_dlq_entries :: nat
  pm_writes_ok :: nat
  pm_write_retries :: nat
  pm_writes_parked :: nat
  pm_events_lost :: nat
  pm_rejected_queue_full :: nat
  pm_rejected_disk_full :: nat
  pm_latency_buckets :: "nat list"
  pm_latency_count :: nat
  pm_latency_sum_micros :: nat

definition metrics_default :: pipeline_metrics where
  "metrics_default = \<lparr>pm_queue_depth = 0, pm_dlq_entries = 0, pm_writes_ok = 0, pm_write_retries = 0,
     pm_writes_parked = 0, pm_events_lost = 0, pm_rejected_queue_full = 0, pm_rejected_disk_full = 0,
     pm_latency_buckets = map (\<lambda>_. 0) LATENCY_BUCKETS_NANOS, pm_latency_count = 0, pm_latency_sum_micros = 0\<rparr>"

definition m_queue_inc :: "pipeline_metrics \<Rightarrow> pipeline_metrics" where
  "m_queue_inc m = m\<lparr>pm_queue_depth := pm_queue_depth m + 1\<rparr>"

definition m_queue_dec :: "pipeline_metrics \<Rightarrow> pipeline_metrics" where
  "m_queue_dec m = m\<lparr>pm_queue_depth := pm_queue_depth m - 1\<rparr>"

definition m_set_dlq_entries :: "nat \<Rightarrow> pipeline_metrics \<Rightarrow> pipeline_metrics" where
  "m_set_dlq_entries n m = m\<lparr>pm_dlq_entries := n\<rparr>"

definition m_dlq_inc :: "pipeline_metrics \<Rightarrow> pipeline_metrics" where
  "m_dlq_inc m = m\<lparr>pm_dlq_entries := pm_dlq_entries m + 1\<rparr>"

definition count_buckets :: "nat \<Rightarrow> nat list \<Rightarrow> nat list" where
  "count_buckets nanos bs =
     map2 (\<lambda>bound n. if nanos \<le> bound then n + 1 else n) LATENCY_BUCKETS_NANOS bs"

definition m_write_ok :: "nat \<Rightarrow> pipeline_metrics \<Rightarrow> pipeline_metrics" where
  "m_write_ok nanos m =
     m\<lparr>pm_writes_ok := pm_writes_ok m + 1,
       pm_latency_buckets := count_buckets nanos (pm_latency_buckets m),
       pm_latency_count := pm_latency_count m + 1,
       pm_latency_sum_micros := pm_latency_sum_micros m + nanos div 1000\<rparr>"

definition m_retry :: "pipeline_metrics \<Rightarrow> pipeline_metrics" where
  "m_retry m = m\<lparr>pm_write_retries := pm_write_retries m + 1\<rparr>"

definition m_parked :: "pipeline_metrics \<Rightarrow> pipeline_metrics" where
  "m_parked m = m\<lparr>pm_writes_parked := pm_writes_parked m + 1\<rparr>"

definition m_lost :: "pipeline_metrics \<Rightarrow> pipeline_metrics" where
  "m_lost m = m\<lparr>pm_events_lost := pm_events_lost m + 1\<rparr>"

definition m_rejected_queue_full :: "pipeline_metrics \<Rightarrow> pipeline_metrics" where
  "m_rejected_queue_full m = m\<lparr>pm_rejected_queue_full := pm_rejected_queue_full m + 1\<rparr>"

definition m_rejected_disk_full :: "pipeline_metrics \<Rightarrow> pipeline_metrics" where
  "m_rejected_disk_full m = m\<lparr>pm_rejected_disk_full := pm_rejected_disk_full m + 1\<rparr>"

lemmas metrics_defs = m_queue_inc_def m_queue_dec_def m_set_dlq_entries_def m_dlq_inc_def m_write_ok_def
  m_retry_def m_parked_def m_lost_def m_rejected_queue_full_def m_rejected_disk_full_def

text \<open>\<open>snapshot\<close>: a negative gauge reads as zero. The latency sum stays in microseconds.\<close>

record metrics_snapshot =
  ms_queue_depth :: nat
  ms_dlq_entries :: nat
  ms_writes_ok :: nat
  ms_write_retries :: nat
  ms_writes_parked :: nat
  ms_events_lost :: nat
  ms_rejected_queue_full :: nat
  ms_rejected_disk_full :: nat
  ms_buckets :: "(nat \<times> nat) list"
  ms_latency_count :: nat
  ms_latency_sum_micros :: nat

definition m_snapshot :: "pipeline_metrics \<Rightarrow> metrics_snapshot" where
  "m_snapshot m = \<lparr>ms_queue_depth = nat (max (pm_queue_depth m) 0), ms_dlq_entries = pm_dlq_entries m,
     ms_writes_ok = pm_writes_ok m, ms_write_retries = pm_write_retries m, ms_writes_parked = pm_writes_parked m,
     ms_events_lost = pm_events_lost m, ms_rejected_queue_full = pm_rejected_queue_full m,
     ms_rejected_disk_full = pm_rejected_disk_full m,
     ms_buckets = zip LATENCY_BUCKETS_NANOS (pm_latency_buckets m),
     ms_latency_count = pm_latency_count m, ms_latency_sum_micros = pm_latency_sum_micros m\<rparr>"

text \<open>The histogram is cumulative: the buckets of any sequence of writes count the writes up to
  their bound.\<close>

lemma latency_buckets_correct:
  "length ns = 9 \<Longrightarrow> fold count_buckets ds ns =
     map2 (\<lambda>bound n. n + length (filter (\<lambda>d. d \<le> bound) ds)) LATENCY_BUCKETS_NANOS ns"
proof (induction ds arbitrary: ns)
  case Nil
  then show ?case by (auto simp: LATENCY_BUCKETS_NANOS_def intro!: nth_equalityI)
next
  case (Cons d ds)
  have "length (count_buckets d ns) = 9" using Cons.prems by (simp add: count_buckets_def LATENCY_BUCKETS_NANOS_def)
  from Cons.IH [OF this] show ?case using Cons.prems
    by (auto simp: count_buckets_def LATENCY_BUCKETS_NANOS_def intro!: nth_equalityI)
qed

end
