(* ===== verification/Pipeline_Health.thy ===== *)
theory Pipeline_Health
  imports Complex_Main Errors
begin

text \<open>
  Health of the pipeline: writer liveness, the disk-full latch and the low-disk warning
  (\<open>crates/quipu-middleware/src/health.rs\<close>).

  Floats: a nonnegative finite \<open>f64\<close> in the normal range is the rational it denotes. \<open>f64_round\<close>
  rounds to 53 significant bits, ties to even, which is what the conversion of a \<open>u64\<close> and a division
  do. The configured ratio is a finite nonnegative float.
\<close>

section \<open>Floats\<close>

text \<open>The exponent: how often the value has to be halved or doubled to lie in \<open>[2^52, 2^53)\<close>. The
  fuel covers every exponent of a quotient of two \<open>u64\<close>.\<close>

fun f64_scale :: "nat \<Rightarrow> rat \<Rightarrow> int" where
  "f64_scale 0 q = 0"
| "f64_scale (Suc n) q =
     (if q \<ge> 2 ^ 53 then 1 + f64_scale n (q / 2)
      else if q < 2 ^ 52 then f64_scale n (q * 2) - 1
      else 0)"

definition pow2 :: "int \<Rightarrow> rat" where
  "pow2 e = (if e \<ge> 0 then 2 ^ nat e else 1 / 2 ^ nat (- e))"

definition round_even :: "rat \<Rightarrow> int" where
  "round_even q =
     (let n = \<lfloor>q\<rfloor>; r = q - of_int n
      in if r < 1 / 2 then n else if r > 1 / 2 then n + 1 else if even n then n else n + 1)"

definition f64_round :: "rat \<Rightarrow> rat" where
  "f64_round q = (if q = 0 then 0 else let e = f64_scale 200 q in of_int (round_even (q / pow2 e)) * pow2 e)"

section \<open>Disk usage\<close>

record disk_usage =
  du_free_bytes :: u64
  du_total_bytes :: u64

text \<open>The fields of \<open>statvfs\<close> that are read; the call itself is the operating system's.\<close>

record statvfs =
  sv_frsize :: u64
  sv_bsize :: u64
  sv_bavail :: u64
  sv_blocks :: u64

definition usage_of_statvfs :: "statvfs \<Rightarrow> disk_usage" where
  "usage_of_statvfs st =
     (let frsize = (if sv_frsize st > 0 then sv_frsize st else sv_bsize st)
      in \<lparr>du_free_bytes = sv_bavail st * frsize, du_total_bytes = sv_blocks st * frsize\<rparr>)"

definition measure_disk :: "io_error + statvfs \<Rightarrow> io_error + disk_usage" where
  "measure_disk answer = rbind answer (\<lambda>st. Inr (usage_of_statvfs st))"

definition free_ratio :: "disk_usage \<Rightarrow> rat" where
  "free_ratio u =
     (if du_total_bytes u = 0 then 0
      else f64_round (f64_round (of_nat (unat (du_free_bytes u))) / f64_round (of_nat (unat (du_total_bytes u)))))"

record disk_thresholds =
  dt_min_free_bytes :: u64
  dt_min_free_ratio :: rat

definition thresholds_default :: disk_thresholds where
  "thresholds_default = \<lparr>dt_min_free_bytes = 1024 * 1024 * 1024, dt_min_free_ratio = f64_round (1 / 10)\<rparr>"

definition is_low :: "disk_thresholds \<Rightarrow> disk_usage \<Rightarrow> bool" where
  "is_low t u \<longleftrightarrow> du_free_bytes u < dt_min_free_bytes t \<or> free_ratio u < dt_min_free_ratio t"

section \<open>The flags\<close>

record health_state =
  hs_writer_alive :: bool
  hs_disk_full :: bool
  hs_low_disk :: bool
  hs_thresholds :: disk_thresholds

definition health_new :: "disk_thresholds \<Rightarrow> health_state" where
  "health_new t = \<lparr>hs_writer_alive = True, hs_disk_full = False, hs_low_disk = False, hs_thresholds = t\<rparr>"

definition set_writer_alive :: "bool \<Rightarrow> health_state \<Rightarrow> health_state" where
  "set_writer_alive b h = h\<lparr>hs_writer_alive := b\<rparr>"

text \<open>\<open>swap\<close>: the previous value and the new state.\<close>

definition set_disk_full :: "bool \<Rightarrow> health_state \<Rightarrow> bool \<times> health_state" where
  "set_disk_full b h = (hs_disk_full h, h\<lparr>hs_disk_full := b\<rparr>)"

definition set_low_disk :: "bool \<Rightarrow> health_state \<Rightarrow> bool \<times> health_state" where
  "set_low_disk b h = (hs_low_disk h, h\<lparr>hs_low_disk := b\<rparr>)"

text \<open>\<open>HealthSnapshot\<close> has the same four fields.\<close>

definition h_snapshot :: "health_state \<Rightarrow> health_state" where
  "h_snapshot h = \<lparr>hs_writer_alive = hs_writer_alive h, hs_disk_full = hs_disk_full h,
     hs_low_disk = hs_low_disk h, hs_thresholds = hs_thresholds h\<rparr>"

end
