(* ===== verification/Pipeline_Worker.thy ===== *)
theory Pipeline_Worker
  imports Audit_Event Pipeline_Metrics Pipeline_Health Store_Maintain
begin

text \<open>
  The writer thread's state and what it does with one event
  (\<open>Worker\<close> in \<open>crates/quipu-middleware/src/pipeline.rs\<close>): the write with its retries, and parking
  in the dead-letter queue.

  An error that is formatted into a \<open>String\<close> stays the data it is formatted from. The hooks are
  foreign code: the model keeps what they are called with. A panic of the sink is caught by the
  code; the fallback hook is taken to return.
\<close>

section \<open>Data\<close>

datatype error_text = NoText | ErrorText error | BothText error_text error | MsgText string

record dlq_entry =
  de_event :: audit_event
  de_error :: error_text
  de_failed_at :: u64

record pipeline_config =
  pc_queue_capacity :: nat
  pc_max_retries :: u32
  pc_retry_backoff_millis :: nat
  pc_housekeeping_secs :: nat
  pc_dlq_dir :: "path option"
  pc_disk_thresholds :: disk_thresholds
  pc_reject_emit_when_disk_full :: bool
  pc_sink :: bool \<comment> \<open>whether there is one\<close>

definition pipeline_config_default :: pipeline_config where
  "pipeline_config_default = \<lparr>pc_queue_capacity = 4096, pc_max_retries = 3, pc_retry_backoff_millis = 20,
     pc_housekeeping_secs = 30, pc_dlq_dir = None, pc_disk_thresholds = thresholds_default,
     pc_reject_emit_when_disk_full = False, pc_sink = False\<rparr>"

definition DLQ_SEGMENT_BYTES :: nat where "DLQ_SEGMENT_BYTES = 16 * 1024 * 1024"

text \<open>
  \<open>wk_sleeps\<close> counts the back-offs the worker has slept through; the last two fields are what the
  fallback hook and the sink have been called with.
\<close>

record worker =
  wk_store :: audit_store
  wk_store_root :: path
  wk_dlq :: "table option"
  wk_dlq_dir :: path
  wk_cfg :: pipeline_config
  wk_fallback :: bool
  wk_metrics :: pipeline_metrics
  wk_health :: health_state
  wk_sleeps :: nat
  wk_fallback_calls :: "(audit_event \<times> error_text) list"
  wk_sink_calls :: "(audit_event \<times> uid) list"

text \<open>The libraries and codecs: the store's, and that of the entries of the dead-letter queue.\<close>

record penv =
  pe_store :: senv
  pe_entries :: "dlq_entry codec"

type_synonym 'a wop = "(worker \<times> fs, error, 'a) sop"

definition on_store :: "'a stop \<Rightarrow> 'a wop" where
  "on_store m = (\<lambda>(k, w). case m (wk_store k, w) of (r, (s, w')) \<Rightarrow> (r, (k\<lparr>wk_store := s\<rparr>, w')))"

definition upd_metrics :: "(pipeline_metrics \<Rightarrow> pipeline_metrics) \<Rightarrow> worker \<Rightarrow> worker" where
  "upd_metrics f k = k\<lparr>wk_metrics := f (wk_metrics k)\<rparr>"

definition latch_disk_full :: "bool \<Rightarrow> worker \<Rightarrow> worker" where
  "latch_disk_full b k = k\<lparr>wk_health := snd (set_disk_full b (wk_health k))\<rparr>"

definition call_fallback :: "audit_event \<Rightarrow> error_text \<Rightarrow> worker \<Rightarrow> worker" where
  "call_fallback ev t k =
     (if wk_fallback k then k\<lparr>wk_fallback_calls := wk_fallback_calls k @ [(ev, t)]\<rparr> else k)"

definition call_sink :: "audit_event \<Rightarrow> uid \<Rightarrow> worker \<Rightarrow> worker" where
  "call_sink ev log_id k =
     (if pc_sink (wk_cfg k) then k\<lparr>wk_sink_calls := wk_sink_calls k @ [(ev, log_id)]\<rparr> else k)"

section \<open>The dead-letter queue's table\<close>

text \<open>\<open>Worker::dlq\<close>: opened lazily.\<close>

definition open_dlq :: "penv \<Rightarrow> unit wop" where
  "open_dlq P = (\<lambda>(k, w). case wk_dlq k of
     Some _ \<Rightarrow> (Inr (), (k, w))
   | None \<Rightarrow>
       (case table_open (se_ext (pe_store P)) (se_meta (pe_store P)) (wk_dlq_dir k) DLQ_SEGMENT_BYTES w of
          (Inl e, w1) \<Rightarrow> (Inl e, (k, w1))
        | (Inr t, w1) \<Rightarrow> (Inr (), (k\<lparr>wk_dlq := Some t\<rparr>, w1))))"

definition on_dlq :: "penv \<Rightarrow> 'a top \<Rightarrow> 'a wop" where
  "on_dlq P m = seqE (open_dlq P) (\<lambda>_ (k, w).
     case m (the (wk_dlq k), w) of (r, (t, w')) \<Rightarrow> (r, (k\<lparr>wk_dlq := Some t\<rparr>, w')))"

definition dlq_append :: "penv \<Rightarrow> dlq_entry \<Rightarrow> unit top" where
  "dlq_append P entry =
     table_append (se_ext (pe_store P)) (se_meta (pe_store P)) (pe_entries P) entry (de_failed_at entry)"

section \<open>Writing one event\<close>

definition try_write :: "penv \<Rightarrow> draws \<Rightarrow> audit_event \<Rightarrow> uid wop" where
  "try_write P D ev =
     on_store (append_at (pe_store P) D (ev_occurred_at ev) (ev_actor_type ev) (ev_actor ev) (ev_method ev)
       (ev_url ev) (ev_content ev) (map (\<lambda>t. (tsp_entity_type t, tsp_input t)) (ev_targets ev)) (ev_custom ev))"

text \<open>What a write takes from outside: the draws of every attempt, the clock and the elapsed time.\<close>

record write_inputs =
  wi_draws :: "nat \<Rightarrow> draws"
  wi_latency_nanos :: nat
  wi_failed_at :: u64

definition after_write :: "write_inputs \<Rightarrow> audit_event \<Rightarrow> uid \<Rightarrow> worker \<Rightarrow> worker" where
  "after_write I ev log_id k =
     call_sink ev log_id (latch_disk_full False (upd_metrics (m_write_ok (wi_latency_nanos I)) k))"

definition after_failure :: "nat \<Rightarrow> worker \<Rightarrow> worker" where
  "after_failure attempt k =
     (if attempt < unat (pc_max_retries (wk_cfg k)) then (upd_metrics m_retry k)\<lparr>wk_sleeps := wk_sleeps k + 1\<rparr> else k)"

text \<open>
  The loop \<open>for attempt in 0..=max_retries\<close>; \<open>last_err\<close> is its variable. The result is the log id,
  or the error the event is parked with.
\<close>

function write_attempts ::
  "penv \<Rightarrow> write_inputs \<Rightarrow> audit_event \<Rightarrow> nat \<Rightarrow> nat \<Rightarrow> error_text \<Rightarrow> worker \<times> fs \<Rightarrow> (error_text + uid) \<times> worker \<times> fs" where
  "write_attempts P I ev max_retries attempt last_err (k, w) =
     (if attempt > max_retries then (Inl last_err, (k, w))
      else case try_write P (wi_draws I attempt) ev (k, w) of
        (Inr log_id, (k1, w1)) \<Rightarrow> (Inr log_id, (after_write I ev log_id k1, w1))
      | (Inl e, (k1, w1)) \<Rightarrow>
          if is_storage_full e then (Inl (ErrorText e), (latch_disk_full True k1, w1))
          else write_attempts P I ev max_retries (attempt + 1) (ErrorText e) (after_failure attempt k1, w1))"
  by pat_completeness auto
termination
  by (relation "measure (\<lambda>(P, I, ev, max_retries, attempt, last_err, k, w). Suc max_retries - attempt)") auto

declare write_attempts.simps [simp del]

section \<open>Parking\<close>

definition park :: "penv \<Rightarrow> audit_event \<Rightarrow> error_text \<Rightarrow> u64 \<Rightarrow> worker \<times> fs \<Rightarrow> worker \<times> fs" where
  "park P ev err now = (\<lambda>(k, w).
     let k0 = upd_metrics m_parked k;
         entry = \<lparr>de_event = ev, de_error = err, de_failed_at = now\<rparr>
     in case on_dlq P (seqE (dlq_append P entry) (\<lambda>_. table_sync)) (k0, w) of
          (Inr _, (k1, w1)) \<Rightarrow> (call_fallback ev err (upd_metrics m_dlq_inc k1), w1)
        | (Inl e, (k1, w1)) \<Rightarrow>
            let k2 = upd_metrics m_lost k1;
                k3 = (if is_storage_full e then latch_disk_full True k2 else k2)
            in (call_fallback ev (BothText err e) k3, w1))"

definition write_event :: "penv \<Rightarrow> write_inputs \<Rightarrow> audit_event \<Rightarrow> worker \<times> fs \<Rightarrow> worker \<times> fs" where
  "write_event P I ev = (\<lambda>(k, w).
     case write_attempts P I ev (unat (pc_max_retries (wk_cfg k))) 0 NoText (k, w) of
       (Inr _, kw) \<Rightarrow> kw
     | (Inl err, kw) \<Rightarrow> park P ev err (wi_failed_at I) kw)"

end
