(* ===== verification/Pipeline_Redrive.thy ===== *)
theory Pipeline_Redrive
  imports Pipeline_Worker Fs
begin

text \<open>
  Reading the dead-letter queue past corruption, quarantine, and the redrive with its directory
  swap (\<open>read_dlq\<close>, \<open>Worker::quarantine\<close>, \<open>Worker::redrive\<close> in
  \<open>crates/quipu-middleware/src/pipeline.rs\<close>).
\<close>

section \<open>Sibling directories\<close>

definition redrive_staging_dir :: "path \<Rightarrow> path" where
  "redrive_staging_dir dlq_dir = with_extension dlq_dir ''redrive''"

section \<open>Reading past corruption\<close>

record dlq_read =
  dr_entries :: "dlq_entry list"
  dr_corrupt_payloads :: "bytes list"
  dr_corrupt_segments :: "path list"

definition dlq_read_default :: dlq_read where
  "dlq_read_default = \<lparr>dr_entries = [], dr_corrupt_payloads = [], dr_corrupt_segments = []\<rparr>"

definition add_corrupt_segment :: "path \<Rightarrow> dlq_read \<Rightarrow> dlq_read" where
  "add_corrupt_segment p out = out\<lparr>dr_corrupt_segments := dr_corrupt_segments out @ [p]\<rparr>"

definition add_payload :: "dlq_entry codec \<Rightarrow> bytes \<Rightarrow> dlq_read \<Rightarrow> dlq_read" where
  "add_payload C payload out =
     (case c_de C payload of
        Inr entry \<Rightarrow> out\<lparr>dr_entries := dr_entries out @ [entry]\<rparr>
      | Inl _ \<Rightarrow> out\<lparr>dr_corrupt_payloads := dr_corrupt_payloads out @ [payload]\<rparr>)"

function read_dlq_segment :: "ext \<Rightarrow> dlq_entry codec \<Rightarrow> path \<Rightarrow> segment_reader \<Rightarrow> dlq_read \<Rightarrow> dlq_read" where
  "read_dlq_segment X C p r out =
     (case next_record X r of
        Inr (None, _) \<Rightarrow> out
      | Inr (Some (_, payload), r') \<Rightarrow> read_dlq_segment X C p r' (add_payload C payload out)
      | Inl _ \<Rightarrow> add_corrupt_segment p out)"
  by pat_completeness auto
termination
  by (relation "measure (\<lambda>(X, C, p, r, out). rd_end r - rd_offset r)") (auto dest!: next_record_offset)

declare read_dlq_segment.simps [simp del]

fun read_dlq_slices :: "ext \<Rightarrow> dlq_entry codec \<Rightarrow> fs \<Rightarrow> segment_slice list \<Rightarrow> dlq_read \<Rightarrow> dlq_read" where
  "read_dlq_slices X C w [] out = out"
| "read_dlq_slices X C w (sl # sls) out =
     (case open_bounded (sl_path sl) (sl_bound sl) w of
        Inl _ \<Rightarrow> read_dlq_slices X C w sls (add_corrupt_segment (sl_path sl) out)
      | Inr r \<Rightarrow> read_dlq_slices X C w sls (read_dlq_segment X C (sl_path sl) r out))"

definition read_dlq :: "penv \<Rightarrow> segment_slice list \<Rightarrow> fs \<Rightarrow> dlq_read" where
  "read_dlq P sls w = read_dlq_slices (se_ext (pe_store P)) (pe_entries P) w sls dlq_read_default"

section \<open>Quarantine\<close>

record redrive_report =
  rp_replayed :: nat
  rp_requeued :: nat
  rp_quarantined_entries :: nat
  rp_quarantined_segments :: nat

definition report_default :: redrive_report where
  "report_default = \<lparr>rp_replayed = 0, rp_requeued = 0, rp_quarantined_entries = 0, rp_quarantined_segments = 0\<rparr>"

definition entry_file :: "u64 \<Rightarrow> nat \<Rightarrow> string" where
  "entry_file stamp i = ''entry-'' @ dec (unat stamp) @ ''-'' @ dec i @ ''.bin''"

definition segment_copy :: "u64 \<Rightarrow> path \<Rightarrow> string" where
  "segment_copy stamp p = ''segment-'' @ dec (unat stamp) @ ''-'' @ (if p = [] then ''segment'' else last p)"

text \<open>\<open>fs::copy\<close>.\<close>

definition fs_copy :: "path \<Rightarrow> path \<Rightarrow> (fs, error, unit) sop" where
  "fs_copy a b w = (case fs_read a w of Inl e \<Rightarrow> (Inl e, w) | Inr bs \<Rightarrow> fs_write_file b bs w)"

definition quarantine :: "path \<Rightarrow> u64 \<Rightarrow> dlq_read \<Rightarrow> (fs, error, redrive_report) sop" where
  "quarantine dlq_dir stamp rd =
     (let dir = with_extension dlq_dir ''quarantine''; bad = dr_corrupt_payloads rd; segs = dr_corrupt_segments rd
      in seqE (fs_create_dir_all dir) (\<lambda>_.
         seqE (forE (zip [0..<length bad] bad) (\<lambda>(i, payload). fs_write_file (dir @ [entry_file stamp i]) payload)) (\<lambda>_.
         seqE (forE segs (\<lambda>seg. fs_copy seg (dir @ [segment_copy stamp seg]))) (\<lambda>_.
         retE (report_default\<lparr>rp_quarantined_entries := length bad, rp_quarantined_segments := length segs\<rparr>)))))"

section \<open>Redrive\<close>

text \<open>What a redrive takes from outside; the \<open>i\<close>-th entry uses the draws and the clock at \<open>i\<close>.\<close>

record redrive_inputs =
  ri_draws :: "nat \<Rightarrow> draws"
  ri_failed_at :: "nat \<Rightarrow> u64"
  ri_stamp :: u64

text \<open>Replay the entries; failures go to the staging table. An early return drops that table.\<close>

fun redrive_entries ::
  "penv \<Rightarrow> redrive_inputs \<Rightarrow> nat \<Rightarrow> dlq_entry list \<Rightarrow> redrive_report \<Rightarrow> (worker \<times> table) \<times> fs
     \<Rightarrow> (error + redrive_report) \<times> (worker \<times> table) \<times> fs" where
  "redrive_entries P I i [] rep kw = (Inr rep, kw)"
| "redrive_entries P I i (entry # entries) rep ((k, st), w) =
     (case try_write P (ri_draws I i) (de_event entry) (k, w) of
        (Inr _, (k1, w1)) \<Rightarrow>
          redrive_entries P I (Suc i) entries (rep\<lparr>rp_replayed := rp_replayed rep + 1\<rparr>) ((k1, st), w1)
      | (Inl e, (k1, w1)) \<Rightarrow>
          (case dlq_append P \<lparr>de_event = de_event entry, de_error = ErrorText e, de_failed_at = ri_failed_at I i\<rparr> (st, w1) of
             (Inl e', (st2, w2)) \<Rightarrow> (Inl e', ((k1, st2), w2))
           | (Inr _, (st2, w2)) \<Rightarrow>
               redrive_entries P I (Suc i) entries (rep\<lparr>rp_requeued := rp_requeued rep + 1\<rparr>)
                 ((call_fallback (de_event entry) (ErrorText e) k1, st2), w2)))"

text \<open>Close our handle, remove the old directory, move the staging directory to its place.\<close>

definition close_dlq :: "unit wop" where
  "close_dlq = (\<lambda>(k, w).
     (Inr (), (k\<lparr>wk_dlq := None\<rparr>, case wk_dlq k of None \<Rightarrow> w | Some t \<Rightarrow> table_drop t w)))"

definition wk_disk :: "(fs, error, 'a) sop \<Rightarrow> 'a wop" where
  "wk_disk m = (\<lambda>(k, w). case m w of (r, w') \<Rightarrow> (r, (k, w')))"

definition swap_dirs :: "path \<Rightarrow> (fs, error, unit) sop" where
  "swap_dirs dlq_dir =
     seqE (fs_remove_dir_all dlq_dir) (\<lambda>_. fs_rename_dir (redrive_staging_dir dlq_dir) dlq_dir)"

definition finish_redrive :: "penv \<Rightarrow> redrive_report \<Rightarrow> redrive_report wop" where
  "finish_redrive P rep =
     seqE close_dlq (\<lambda>_ (k, w).
     seqE (wk_disk (swap_dirs (wk_dlq_dir k))) (\<lambda>_.
     seqE (open_dlq P) (\<lambda>_ (k, w).
       (Inr rep, (upd_metrics (m_set_dlq_entries (rp_requeued rep)) k, w)))) (k, w))"

definition replay :: "penv \<Rightarrow> redrive_inputs \<Rightarrow> dlq_entry list \<Rightarrow> redrive_report \<Rightarrow> redrive_report wop" where
  "replay P I entries rep0 = (\<lambda>(k, w).
     let staging_dir = redrive_staging_dir (wk_dlq_dir k)
     in seqE (wk_disk (remove_stale staging_dir)) (\<lambda>_ (k, w).
          case table_open (se_ext (pe_store P)) (se_meta (pe_store P)) staging_dir DLQ_SEGMENT_BYTES w of
            (Inl e, w1) \<Rightarrow> (Inl e, (k, w1))
          | (Inr st, w1) \<Rightarrow>
              (case redrive_entries P I 0 entries rep0 ((k, st), w1) of
                 (Inl e, ((k2, st2), w2)) \<Rightarrow> (Inl e, (k2, table_drop st2 w2))
               | (Inr rep, ((k2, st2), w2)) \<Rightarrow>
                   (case on_store store_sync (k2, w2) of
                      (Inl e, (k3, w3)) \<Rightarrow> (Inl e, (k3, table_drop st2 w3))
                    | (Inr _, (k3, w3)) \<Rightarrow>
                        (case table_sync (st2, w3) of
                           (Inl e, (st4, w4)) \<Rightarrow> (Inl e, (k3, table_drop st4 w4))
                         | (Inr _, (st4, w4)) \<Rightarrow> finish_redrive P rep (k3, table_drop st4 w4))))) (k, w))"

definition redrive :: "penv \<Rightarrow> redrive_inputs \<Rightarrow> redrive_report wop" where
  "redrive P I =
     seqE (on_dlq P table_slices) (\<lambda>slices (k, w).
       let rd = read_dlq P slices w;
           corrupt = (dr_corrupt_payloads rd \<noteq> [] \<or> dr_corrupt_segments rd \<noteq> [])
       in seqE (if corrupt then wk_disk (quarantine (wk_dlq_dir k) (ri_stamp I) rd) else retE report_default) (\<lambda>rep.
            if dr_entries rd = [] \<and> rp_quarantined_entries rep = 0 \<and> rp_quarantined_segments rep = 0 then retE rep
            else replay P I (dr_entries rd) rep) (k, w))"

section \<open>Recovery at the start\<close>

text \<open>A rebuilt directory next to the old one is discarded; alone, it takes the old one's place.\<close>

definition recover_swap :: "path \<Rightarrow> (fs, error, unit) sop" where
  "recover_swap dlq_dir w =
     (let staging = redrive_staging_dir dlq_dir
      in if dir_exists staging w
         then if dir_exists dlq_dir w then fs_remove_dir_all staging w else fs_rename_dir staging dlq_dir w
         else (Inr (), w))"

end
