(* ===== verification/Permissions.thy ===== *)
theory Permissions
  imports Quipu_Prelude
begin

text \<open>
  Who may do what with the audit subsystem (\<open>crates/quipu-middleware/src/permissions.rs\<close>).
\<close>

datatype action = AEmit | AQuery | AAdminister

type_synonym role = string \<comment> \<open>\<open>Role(pub String)\<close>\<close>

record permission_policy =
  pp_grants :: "(role \<times> action list) list"
  pp_default_allow :: bool

definition allow_all :: permission_policy where
  "allow_all = \<lparr>pp_grants = [], pp_default_allow = True\<rparr>"

definition deny_by_default :: permission_policy where
  "deny_by_default = \<lparr>pp_grants = [], pp_default_allow = False\<rparr>"

text \<open>\<open>entry(role).or_default().extend(actions)\<close>, on a list that is read as a set.\<close>

definition pp_grant :: "role \<Rightarrow> action list \<Rightarrow> permission_policy \<Rightarrow> permission_policy" where
  "pp_grant role actions p =
     (let held = (case map_of (pp_grants p) role of None \<Rightarrow> [] | Some as \<Rightarrow> as)
      in p\<lparr>pp_grants := AList.update role (held @ actions) (pp_grants p)\<rparr>)"

definition is_allowed :: "permission_policy \<Rightarrow> role \<Rightarrow> action \<Rightarrow> bool" where
  "is_allowed p role a =
     (case map_of (pp_grants p) role of
        Some actions \<Rightarrow> a \<in> set actions
      | None \<Rightarrow> pp_default_allow p)"

text \<open>A role that is named in a policy has what was granted to it and nothing else, even when the
  policy allows everything by default.\<close>

lemma is_allowed_grant:
  "is_allowed (pp_grant role actions p) r a \<longleftrightarrow>
     (if r = role then a \<in> set actions \<or> (map_of (pp_grants p) role \<noteq> None \<and> is_allowed p role a)
      else is_allowed p r a)"
  by (auto simp: is_allowed_def pp_grant_def Let_def update_conv' split: option.splits)

lemma is_allowed_fresh [simp]: "is_allowed allow_all r a" "\<not> is_allowed deny_by_default r a"
  by (simp_all add: is_allowed_def allow_all_def deny_by_default_def)

end
