(* ===== verification/Pipeline.thy ===== *)
theory Pipeline
  imports Pipeline_Redrive Permissions Store_Query
begin

text \<open>
  The commands of the writer thread, its loop, the start and the stop of the pipeline
  (\<open>crates/quipu-middleware/src/pipeline.rs\<close>).
\<close>

section \<open>Verification\<close>

record verify_report =
  vr_ok :: bool
  vr_segments_checked :: nat
  vr_log_records :: nat
  vr_problems :: "error list"

definition segment_file :: "path \<Rightarrow> bool" where
  "segment_file p \<longleftrightarrow> p \<noteq> [] \<and> prefix ''seg-'' (last p) \<and> suffix ''.log'' (last p)"

text \<open>The recursion over the tree below \<open>base\<close>, on the list of all files: a file counts unless the
  walk to it passes through the queue's directory or its staging twin.\<close>

definition skipped_dir :: "path \<Rightarrow> path \<Rightarrow> path \<Rightarrow> bool" where
  "skipped_dir base p d \<longleftrightarrow> strict_prefix base d \<and> strict_prefix d p"

definition collect_segment_files :: "path \<Rightarrow> path \<Rightarrow> fs \<Rightarrow> path list" where
  "collect_segment_files base dlq_dir w =
     filter (\<lambda>p. strict_prefix base p \<and> \<not> skipped_dir base p dlq_dir \<and>
       \<not> skipped_dir base p (redrive_staging_dir dlq_dir) \<and> segment_file p) (map fst (fs_files w))"

text \<open>\<open>map_while(|r| r.ok()).count()\<close>.\<close>

function count_ok_rows :: "ext \<Rightarrow> 'r codec \<Rightarrow> fs \<Rightarrow> table_scan \<Rightarrow> nat" where
  "count_ok_rows X C w sc =
     (case ts_next_row X C w sc of
        (Inr (Some _), sc') \<Rightarrow> Suc (count_ok_rows X C w sc')
      | (Inr None, _) \<Rightarrow> 0
      | (Inl _, _) \<Rightarrow> 0)"
  by pat_completeness auto
termination
  by (relation "inv_image (less_than <*lex*> less_than) (\<lambda>(X, C, w, sc). ts_measure sc)")
    (auto simp del: in_lex_prod dest!: ts_next_row_progress [OF sym])

declare count_ok_rows.simps [simp del]

definition full_slices :: "path list \<Rightarrow> segment_slice list" where
  "full_slices ps =
     map (\<lambda>(i, p). \<lparr>sl_path = p, sl_bound = u64_max_nat, sl_seq = i, sl_min_ts = 0, sl_max_ts = u64_MAX\<rparr>)
       (zip [0..<length ps] ps)"

definition count_log_records :: "penv \<Rightarrow> path \<Rightarrow> fs \<Rightarrow> nat" where
  "count_log_records P base w =
     (let dir = base @ [''logs''];
          names = filter (\<lambda>n. segment_file (dir @ [n])) (fs_read_dir dir w)
      in count_ok_rows (se_ext (pe_store P)) (se_logs (pe_store P)) w
           (scan_over (full_slices (map (\<lambda>n. dir @ [n]) (sort names)))))"

definition worker_verify :: "penv \<Rightarrow> worker \<times> fs \<Rightarrow> verify_report \<times> worker \<times> fs" where
  "worker_verify P = (\<lambda>(k, w).
     case on_store (verify_integrity (pe_store P)) (k, w) of (r, (k1, w1)) \<Rightarrow>
       let problems = (case r of Inr _ \<Rightarrow> [] | Inl e \<Rightarrow> [e])
       in (\<lparr>vr_ok = (problems = []),
            vr_segments_checked = length (collect_segment_files (wk_store_root k1) (wk_dlq_dir k1) w1),
            vr_log_records = count_log_records P (wk_store_root k1) w1, vr_problems = problems\<rparr>, (k1, w1)))"

section \<open>Housekeeping\<close>

text \<open>\<open>now\<close> is the clock of the synthetic alert.\<close>

definition low_disk_msg :: "disk_usage \<Rightarrow> string" where
  "low_disk_msg u = ''disk space low under audit store root: '' @ dec (unat (du_free_bytes u)) @ '' free of '' @
     dec (unat (du_total_bytes u)) @ '' bytes''"

definition disk_alert :: "u64 \<Rightarrow> string \<Rightarrow> audit_event" where
  "disk_alert now msg = event_new now ''system'' (entity_new ''quipu-pipeline'') ''ALERT'' ''quipu://disk-space-low''
     (CText msg)"

definition check_disk :: "u64 \<Rightarrow> io_error + statvfs \<Rightarrow> worker \<Rightarrow> worker" where
  "check_disk now answer k =
     (case measure_disk answer of
        Inl _ \<Rightarrow> k
      | Inr usage \<Rightarrow>
          let low = is_low (hs_thresholds (wk_health k)) usage;
              (was_low, h) = set_low_disk low (wk_health k);
              k1 = k\<lparr>wk_health := h\<rparr>;
              k2 = (if low \<and> \<not> was_low
                    then call_fallback (disk_alert now (low_disk_msg usage)) (MsgText (low_disk_msg usage)) k1
                    else k1)
          in if \<not> low \<and> hs_disk_full (wk_health k2) then latch_disk_full False k2 else k2)"

definition housekeeping :: "penv \<Rightarrow> u64 \<Rightarrow> u64 \<Rightarrow> u64 \<Rightarrow> io_error + statvfs \<Rightarrow> worker \<times> fs \<Rightarrow> worker \<times> fs" where
  "housekeeping P now now' now'' answer kw =
     (let (_, kw1) = on_store store_sync kw;
          (_, (k2, w2)) = on_store (apply_retention (pe_store P) now now') kw1
      in (check_disk now'' answer k2, w2))"

section \<open>Commands\<close>

datatype mw_error =
    QueueFull audit_event
  | PermissionDenied role action
  | WorkerGone
  | DiskFull audit_event
  | Core error

type_synonym 'a mres = "mw_error + 'a"

definition core :: "'a res \<Rightarrow> 'a mres" where
  "core r = (case r of Inl e \<Rightarrow> Inl (Core e) | Inr a \<Rightarrow> Inr a)"

text \<open>A command's reply channel is not part of the data: the reply is what \<open>handle\<close> returns.\<close>

datatype command =
    CEmit audit_event
  | CShutdown
  | CSnapshot
  | CEntityTypes
  | CListEntities string bool
  | CEntityHistory string string
  | CDefineType type_schema
  | CDefineCustomColumn custom_column_def
  | CFlush
  | CRedriveDlq
  | CApplyRetention
  | CDlqLen
  | CVerifyIntegrity
  | CRecordAccess access_record
  | CQueryAccess string access_query

datatype reply =
    RpSnapshot "read_snapshot mres"
  | RpTypes "type_schema list mres"
  | RpSnaps "target_snapshot list mres"
  | RpUnit "unit mres"
  | RpRedrive "redrive_report mres"
  | RpCount "nat mres"
  | RpVerify "verify_report mres"
  | RpAccess "access_record list mres"

record cmd_inputs =
  ci_write :: write_inputs
  ci_redrive :: redrive_inputs
  ci_now :: u64
  ci_now' :: u64
  ci_uid :: uid

definition replying :: "('a mres \<Rightarrow> reply) \<Rightarrow> 'a wop \<Rightarrow> worker \<times> fs \<Rightarrow> reply option \<times> worker \<times> fs" where
  "replying f m kw = (case m kw of (r, kw') \<Rightarrow> (Some (f (core r)), kw'))"

definition dlq_len :: "penv \<Rightarrow> nat wop" where
  "dlq_len P =
     seqE (on_dlq P table_slices) (\<lambda>slices (k, w).
       let n = length (dr_entries (read_dlq P slices w)) in (Inr n, (upd_metrics (m_set_dlq_entries n) k, w)))"

text \<open>The read of the access log is recorded by a direct append, whose failure is only logged.\<close>

definition worker_query_access :: "penv \<Rightarrow> cmd_inputs \<Rightarrow> string \<Rightarrow> access_query \<Rightarrow> access_record list wop" where
  "worker_query_access P I actor q kw =
     (case on_store (access_records (pe_store P) q) kw of
        (Inl e, kw1) \<Rightarrow> (Inl e, kw1)
      | (Inr records, kw1) \<Rightarrow>
          let rec = access_new (ci_uid I) (ci_now I) actor ''query_access''
                (summarize_access_query (se_json (pe_store P)) q) (Some (length records))
          in (Inr records, snd (on_store (record_access (pe_store P) rec) kw1)))"

definition handle :: "penv \<Rightarrow> cmd_inputs \<Rightarrow> command \<Rightarrow> worker \<times> fs \<Rightarrow> reply option \<times> worker \<times> fs" where
  "handle P I cmd = (\<lambda>(k, w).
     case cmd of
       CEmit ev \<Rightarrow> (None, write_event P (ci_write I) ev (upd_metrics m_queue_dec k, w))
     | CShutdown \<Rightarrow> (None, (k, w))
     | CSnapshot \<Rightarrow> replying RpSnapshot (on_store store_snapshot) (k, w)
     | CEntityTypes \<Rightarrow> (Some (RpTypes (Inr (type_schemas (wk_store k)))), (k, w))
     | CListEntities type_name include_deleted \<Rightarrow>
         (Some (RpSnaps (core (list_entities (wk_store k) type_name include_deleted))), (k, w))
     | CEntityHistory type_name entity_id \<Rightarrow>
         (Some (RpSnaps (core (entity_history (wk_store k) type_name entity_id))), (k, w))
     | CDefineType schema \<Rightarrow> replying RpUnit (on_store (define_type (pe_store P) (ci_now I) schema)) (k, w)
     | CDefineCustomColumn d \<Rightarrow>
         replying RpUnit (on_store (define_custom_column (pe_store P) (ci_now I) (ci_now' I) d)) (k, w)
     | CFlush \<Rightarrow> replying RpUnit (on_store store_sync) (k, w)
     | CRedriveDlq \<Rightarrow> replying RpRedrive (redrive P (ci_redrive I)) (k, w)
     | CApplyRetention \<Rightarrow> replying RpCount (on_store (apply_retention (pe_store P) (ci_now I) (ci_now' I))) (k, w)
     | CDlqLen \<Rightarrow> replying RpCount (dlq_len P) (k, w)
     | CVerifyIntegrity \<Rightarrow> (case worker_verify P (k, w) of (rep, kw) \<Rightarrow> (Some (RpVerify (Inr rep)), kw))
     | CRecordAccess rec \<Rightarrow> (None, snd (on_store (record_access (pe_store P) rec) (k, w)))
     | CQueryAccess actor q \<Rightarrow> replying RpAccess (worker_query_access P I actor q) (k, w))"

end
