(* ===== verification/Pipeline_Start.thy ===== *)
theory Pipeline_Start
  imports Pipeline
begin

text \<open>
  Starting the pipeline (\<open>AuditPipeline::start\<close> in \<open>crates/quipu-middleware/src/pipeline.rs\<close>).

  The start counts the parked entries with \<open>dlq.scan()?.filter(|r| r.is_ok()).count()\<close>: it keeps
  asking a scan for rows after the scan has returned an error. What a reader does then depends on
  how far it had got in the file when it failed, so the reader is modelled here with its position
  after an error: the bytes \<open>rd_rest\<close> it has not yet taken move on, the offset does not. The count
  is a \<open>partial_function\<close>, so that not returning is a value.
\<close>

section \<open>Reading on after an error\<close>

definition unexpected_eof :: error where
  "unexpected_eof = Io (IoError KUnexpectedEof None)"

definition reader_next :: "ext \<Rightarrow> segment_reader \<Rightarrow> (u64 \<times> bytes) option res \<times> segment_reader" where
  "reader_next X r =
     (if rd_end r - rd_offset r < FRAME_HEADER then (Inr None, r)
      else if length (rd_rest r) < FRAME_HEADER then (Inl unexpected_eof, r\<lparr>rd_rest := []\<rparr>)
      else
        let (len, crc, ts, chain) = frame_fields (take FRAME_HEADER (rd_rest r));
            body = drop FRAME_HEADER (rd_rest r)
        in if unat len > MAX_RECORD \<or> rd_end r - rd_offset r - FRAME_HEADER < unat len
           then (Inr None, r\<lparr>rd_rest := body\<rparr>)
           else if length body < unat len then (Inl unexpected_eof, r\<lparr>rd_rest := []\<rparr>)
           else if x_crc32 X (take (unat len) body) \<noteq> crc
           then (Inl (Corrupt (rd_path r) (rd_offset r) CrcMismatch), r\<lparr>rd_rest := drop (unat len) body\<rparr>)
           else (Inr (Some (ts, take (unat len) body)),
                 r\<lparr>rd_offset := rd_offset r + (FRAME_HEADER + unat len), rd_rest := drop (unat len) body\<rparr>))"

text \<open>Until the first error this is \<open>next_record\<close>.\<close>

lemma reader_next_record:
  assumes "rd_end r - rd_offset r \<le> length (rd_rest r)"
  shows "fst (reader_next X r) = (case next_record X r of Inl e \<Rightarrow> Inl e | Inr (o', _) \<Rightarrow> Inr o')"
    and "next_record X r = Inr (Some t, r') \<Longrightarrow> snd (reader_next X r) = r'"
  using assms
  by (auto simp: reader_next_def next_record_def next_record_raw_def rbind_def Let_def split: prod.splits if_splits)

text \<open>\<open>TableScan::next\<close>: the slices left, the current reader, the answer.\<close>

record live_scan =
  ls_left :: "segment_slice list"
  ls_current :: "segment_reader option"

function scan_next :: "ext \<Rightarrow> 'r codec \<Rightarrow> fs \<Rightarrow> live_scan \<Rightarrow> 'r option res \<times> live_scan" where
  "scan_next X C w s =
     (case ls_current s of
        None \<Rightarrow>
          (case ls_left s of
             [] \<Rightarrow> (Inr None, s)
           | sl # sls \<Rightarrow>
               (case open_bounded (sl_path sl) (sl_bound sl) w of
                  Inr r \<Rightarrow> scan_next X C w (s\<lparr>ls_left := sls, ls_current := Some r\<rparr>)
                | Inl e \<Rightarrow>
                    if io_vanished e then scan_next X C w (s\<lparr>ls_left := sls\<rparr>) else (Inl e, s\<lparr>ls_left := sls\<rparr>)))
      | Some r \<Rightarrow>
          (case reader_next X r of
             (Inl e, r') \<Rightarrow> (Inl e, s\<lparr>ls_current := Some r'\<rparr>)
           | (Inr None, r') \<Rightarrow> scan_next X C w (s\<lparr>ls_current := None\<rparr>)
           | (Inr (Some (ts, p)), r') \<Rightarrow>
               ((case c_de C p of Inl e \<Rightarrow> Inl e | Inr row \<Rightarrow> Inr (Some row)), s\<lparr>ls_current := Some r'\<rparr>)))"
  by pat_completeness auto
termination
  by (relation "measure (\<lambda>(X, C, w, s). 2 * length (ls_left s) + (if ls_current s = None then 0 else 1))") auto

declare scan_next.simps [simp del]

partial_function (option) count_ok ::
  "ext \<Rightarrow> 'r codec \<Rightarrow> fs \<Rightarrow> live_scan \<Rightarrow> nat \<Rightarrow> nat option" where
  "count_ok X C w s n =
     (case scan_next X C w s of
        (Inr None, _) \<Rightarrow> Some n
      | (Inr (Some _), s') \<Rightarrow> count_ok X C w s' (n + 1)
      | (Inl _, s') \<Rightarrow> count_ok X C w s' n)"

section \<open>The start\<close>

text \<open>Dropping a store drops its tables, in the order of the fields.\<close>

definition drop_store :: "audit_store \<Rightarrow> fs \<Rightarrow> fs" where
  "drop_store s w = drop_registries (st_registries s) (drop_access (st_access s)
     (table_drop (st_relations s) (table_drop (st_logs s) (table_drop (st_meta s) w))))"

text \<open>The result is \<open>None\<close> when the start does not return.\<close>

definition start_worker ::
  "audit_store \<Rightarrow> path \<Rightarrow> path \<Rightarrow> table \<Rightarrow> pipeline_config \<Rightarrow> bool \<Rightarrow> nat \<Rightarrow> worker" where
  "start_worker s store_root dlq_dir dlq cfg fallback parked =
     \<lparr>wk_store = s, wk_store_root = store_root, wk_dlq = Some dlq, wk_dlq_dir = dlq_dir, wk_cfg = cfg,
      wk_fallback = fallback, wk_metrics = m_set_dlq_entries parked metrics_default,
      wk_health = health_new (pc_disk_thresholds cfg), wk_sleeps = 0, wk_fallback_calls = [], wk_sink_calls = []\<rparr>"

definition dlq_dir_of :: "path \<Rightarrow> pipeline_config \<Rightarrow> path" where
  "dlq_dir_of store_root cfg = (case pc_dlq_dir cfg of Some d \<Rightarrow> d | None \<Rightarrow> store_root @ [''dlq''])"

definition pipeline_start ::
  "penv \<Rightarrow> audit_store \<Rightarrow> path \<Rightarrow> pipeline_config \<Rightarrow> bool \<Rightarrow> fs \<Rightarrow> ((error + worker) \<times> fs) option" where
  "pipeline_start P s store_root cfg fallback w =
     (let dlq_dir = dlq_dir_of store_root cfg; X = se_ext (pe_store P)
      in case seqE (recover_swap dlq_dir) (\<lambda>_. table_open X (se_meta (pe_store P)) dlq_dir DLQ_SEGMENT_BYTES) w of
           (Inl e, w1) \<Rightarrow> Some (Inl e, drop_store s w1)
         | (Inr dlq, w1) \<Rightarrow>
             (case table_slices (dlq, w1) of
                (Inl e, (dlq2, w2)) \<Rightarrow> Some (Inl e, drop_store s (table_drop dlq2 w2))
              | (Inr sls, (dlq2, w2)) \<Rightarrow>
                  (case count_ok X (pe_entries P) w2 \<lparr>ls_left = sls, ls_current = None\<rparr> 0 of
                     None \<Rightarrow> None
                   | Some parked \<Rightarrow> Some (Inr (start_worker s store_root dlq_dir dlq2 cfg fallback parked), w2))))"

section \<open>A reader that has lost a frame\<close>

lemma reader_next_frame:
  assumes "rd_rest r = frame X' (ts, c, p) @ rest" and ok: "stored_ok (ts, c, p)"
    and "48 + length p \<le> rd_end r - rd_offset r"
  shows "reader_next X r =
    (if x_crc32 X p \<noteq> x_crc32 X' p then (Inl (Corrupt (rd_path r) (rd_offset r) CrcMismatch), r\<lparr>rd_rest := rest\<rparr>)
     else (Inr (Some (ts, p)), r\<lparr>rd_offset := rd_offset r + (48 + length p), rd_rest := rest\<rparr>))"
proof -
  have p: "unat (word_of_nat (length p) :: u32) = length p" "length p \<le> MAX_RECORD"
    using ok by (auto simp: stored_ok_def unat_length32)
  have l: "\<not> length (rd_rest r) < 48" using length_frame [OF ok, of X'] assms(1) by simp
  show ?thesis
    unfolding reader_next_def header_sizes
    using assms(3) l p frame_fields_frame [OF ok, of X' rest] by (simp add: assms(1) Let_def)
qed

text \<open>The reader lags: the offset promises more than what is left of the file.\<close>

definition lagging :: "ext \<Rightarrow> segment_reader \<Rightarrow> bool" where
  "lagging X r \<longleftrightarrow> (\<exists>us. rd_rest r = frames X us \<and> (\<forall>t \<in> set us. stored_ok t) \<and>
     length (rd_rest r) + 48 \<le> rd_end r - rd_offset r)"

text \<open>A frame with the checksum \<open>crc\<close>, and a segment in which it is the wrong one.\<close>

definition frame_with_crc :: "ext \<Rightarrow> u32 \<Rightarrow> stored \<Rightarrow> bytes" where
  "frame_with_crc X crc t = frame (X\<lparr>x_crc32 := \<lambda>_. crc\<rparr>) t"

definition spoiled_rows :: "ext \<Rightarrow> bytes \<Rightarrow> bool" where
  "spoiled_rows X bs \<longleftrightarrow> (\<exists>us ts c p crc vs. bs = frames X us @ frame_with_crc X crc (ts, c, p) @ frames X vs \<and>
     crc \<noteq> x_crc32 X p \<and> (\<forall>t \<in> set us. stored_ok t) \<and> stored_ok (ts, c, p) \<and> (\<forall>t \<in> set vs. stored_ok t))"

definition doomed :: "ext \<Rightarrow> segment_reader \<Rightarrow> bool" where
  "doomed X r \<longleftrightarrow> lagging X r \<or> (spoiled_rows X (rd_rest r) \<and> length (rd_rest r) = rd_end r - rd_offset r)"

lemma lagging_next:
  assumes "lagging X r"
  shows "fst (reader_next X r) \<noteq> Inr None \<and> lagging X (snd (reader_next X r))"
proof -
  obtain us where us: "rd_rest r = frames X us" "\<forall>t \<in> set us. stored_ok t"
    "length (rd_rest r) + 48 \<le> rd_end r - rd_offset r" using assms unfolding lagging_def by blast
  show ?thesis
  proof (cases us)
    case Nil
    then have "reader_next X r = (Inl unexpected_eof, r\<lparr>rd_rest := []\<rparr>)"
      using us unfolding reader_next_def header_sizes by simp
    then show ?thesis using us(3) by (auto simp: lagging_def intro!: exI [of _ "[]"])
  next
    case (Cons t us')
    obtain ts c p where t: "t = (ts, c, p)" by (cases t)
    have ok: "stored_ok (ts, c, p)" "\<forall>t \<in> set us'. stored_ok t" using us(2) Cons t by simp_all
    have rest: "rd_rest r = frame X (ts, c, p) @ frames X us'" using us(1) Cons t by simp
    have len: "length (rd_rest r) = 48 + length p + length (frames X us')" using rest length_frame [OF ok(1), of X] by simp
    show ?thesis using reader_next_frame [OF rest ok(1), of X] len us(3) ok(2)
      by (auto simp: lagging_def intro!: exI [of _ us'])
  qed
qed

lemma doomed_next:
  assumes "doomed X r"
  shows "fst (reader_next X r) \<noteq> Inr None \<and> doomed X (snd (reader_next X r))"
proof (cases "lagging X r")
  case True
  then show ?thesis using lagging_next by (auto simp: doomed_def)
next
  case False
  then obtain us ts c p crc vs where s: "rd_rest r = frames X us @ frame_with_crc X crc (ts, c, p) @ frames X vs"
    "crc \<noteq> x_crc32 X p" "\<forall>t \<in> set us. stored_ok t" "stored_ok (ts, c, p)" "\<forall>t \<in> set vs. stored_ok t"
    and len: "length (rd_rest r) = rd_end r - rd_offset r"
    using assms unfolding doomed_def spoiled_rows_def by blast
  have bad: "length (frame_with_crc X crc (ts, c, p)) = 48 + length p"
    using length_frame [OF s(4)] by (simp add: frame_with_crc_def)
  show ?thesis
  proof (cases us)
    case Nil
    have rest: "rd_rest r = frame (X\<lparr>x_crc32 := \<lambda>_. crc\<rparr>) (ts, c, p) @ frames X vs"
      using s(1) Nil by (simp add: frame_with_crc_def)
    have "reader_next X r = (Inl (Corrupt (rd_path r) (rd_offset r) CrcMismatch), r\<lparr>rd_rest := frames X vs\<rparr>)"
      using reader_next_frame [OF rest s(4), of X] s(1,2) Nil bad len by simp
    moreover have "length (frames X vs) + 48 \<le> rd_end r - rd_offset r" using s(1) Nil bad len by simp
    ultimately show ?thesis using s(5) by (auto simp: doomed_def lagging_def)
  next
    case (Cons t us')
    obtain a d q where t: "t = (a, d, q)" by (cases t)
    let ?more = "frames X us' @ frame_with_crc X crc (ts, c, p) @ frames X vs"
    have ok: "stored_ok (a, d, q)" "\<forall>t \<in> set us'. stored_ok t" using s(3) Cons t by simp_all
    have rest: "rd_rest r = frame X (a, d, q) @ ?more" using s(1) Cons t by simp
    have l: "length (rd_rest r) = 48 + length q + length ?more" using rest length_frame [OF ok(1), of X] by simp
    have "reader_next X r = (Inr (Some (a, q)), r\<lparr>rd_offset := rd_offset r + (48 + length q), rd_rest := ?more\<rparr>)"
      using reader_next_frame [OF rest ok(1), of X] l len by simp
    moreover have "spoiled_rows X ?more" unfolding spoiled_rows_def using s ok(2) by blast
    moreover have "length ?more = rd_end r - (rd_offset r + (48 + length q))" using l len by linarith
    ultimately show ?thesis by (simp add: doomed_def)
  qed
qed

text \<open>A scan that has such a segment ahead of it or open never comes to its end.\<close>

definition endless :: "ext \<Rightarrow> fs \<Rightarrow> live_scan \<Rightarrow> bool" where
  "endless X w s \<longleftrightarrow> (\<exists>r. ls_current s = Some r \<and> doomed X r) \<or>
     (\<exists>sl \<in> set (ls_left s). \<exists>r. open_bounded (sl_path sl) (sl_bound sl) w = Inr r \<and> doomed X r)"

lemma endless_next: "endless X w s \<Longrightarrow> fst (scan_next X C w s) \<noteq> Inr None \<and> endless X w (snd (scan_next X C w s))"
proof (induction X C w s rule: scan_next.induct)
  case (1 X C w s)
  note step = scan_next.simps [of X C w s]
  show ?case
  proof (cases "ls_current s")
    case None
    then obtain sl sls where left: "ls_left s = sl # sls" using "1.prems" by (cases "ls_left s") (auto simp: endless_def)
    show ?thesis
    proof (cases "open_bounded (sl_path sl) (sl_bound sl) w")
      case (Inl e)
      then have "endless X w (s\<lparr>ls_left := sls\<rparr>)" using "1.prems" None left by (auto simp: endless_def)
      then show ?thesis using "1.IH"(1) [OF None left Inl] None left Inl
        by (simp add: step)
    next
      case (Inr r)
      then have "endless X w (s\<lparr>ls_left := sls, ls_current := Some r\<rparr>)"
        using "1.prems" None left by (auto simp: endless_def)
      then show ?thesis using "1.IH"(2) [OF None left Inr] None left Inr
        by (simp add: step)
    qed
  next
    case (Some r)
    obtain res r' where nx: "reader_next X r = (res, r')" by (cases "reader_next X r")
    show ?thesis
    proof (cases "doomed X r")
      case True
      then have "res \<noteq> Inr None" "doomed X r'" using doomed_next [of X r] nx by simp_all
      then show ?thesis using Some nx
        by (auto simp: step endless_def split: sum.splits option.splits)
    next
      case False
      then obtain sl t where ahead: "sl \<in> set (ls_left s)" "open_bounded (sl_path sl) (sl_bound sl) w = Inr t" "doomed X t"
        using "1.prems" Some by (auto simp: endless_def)
      then have still: "endless X w (s\<lparr>ls_current := x\<rparr>)" for x by (auto simp: endless_def)
      show ?thesis
      proof (cases "res = Inr None")
        case True
        then show ?thesis using "1.IH"(3) [OF Some, of res r' None] nx still Some
          by (simp add: step)
      next
        case False
        then show ?thesis using Some nx still
          by (auto simp: step split: sum.splits option.splits)
      qed
    qed
  qed
qed

lemma count_ok_endless:
  assumes "endless X w s"
  shows "count_ok X C w s n = None"
proof (cases "count_ok X C w s n")
  case (Some m)
  have "\<not> endless X w s"
  proof (rule count_ok.raw_induct [where P = "\<lambda>X C w s n m. \<not> endless X w s", OF _ Some])
    fix f and X :: ext and C :: "'a codec" and w :: fs and s :: live_scan and n m :: nat
    assume IH: "\<And>X C w s n m. f X C w s n = Some m \<Longrightarrow> \<not> endless X w s"
      and run: "(case scan_next X C w s of (Inl xa, x) \<Rightarrow> f X C w x n | (Inr None, x) \<Rightarrow> Some n
        | (Inr (Some xa), x) \<Rightarrow> f X C w x (n + 1)) = Some m"
    show "\<not> endless X w s"
    proof
      assume e: "endless X w s"
      obtain res s' where nx: "scan_next X C w s = (res, s')" by (cases "scan_next X C w s")
      have "res \<noteq> Inr None" "endless X w s'" using endless_next [OF e, of C] nx by simp_all
      then show False using run IH unfolding nx by (auto split: sum.splits option.splits)
    qed
  qed
  with assms show ?thesis by contradiction
qed simp

end
