(* ===== verification/Pipeline_System.thy ===== *)
theory Pipeline_System
  imports Pipeline_Start "HOL-Library.Multiset"
begin

text \<open>
  The running pipeline (\<open>crates/quipu-middleware/src/pipeline.rs\<close>): handles on any number of
  threads that emit and send commands, the bounded channel between them and the writer thread, and
  the loop of that thread with its shutdown, as a labelled step relation. Every step is one access
  to shared state: an emit is a check of the disk-full latch, an increment of the queue gauge, the
  \<open>try_send\<close>, and, when that fails, the decrement with the counter of the rejection.
\<close>

section \<open>State\<close>

text \<open>\<open>Stopping\<close> is the stretch between the end of the shutdown's drain (or the loss of every handle)
  and the drop of the receiver; the channel still accepts commands then.\<close>

datatype phase = Running | Draining | Stopping | Stopped

text \<open>
  \<open>pi_current\<close> is the command being handled. \<open>pi_inflight\<close> are the emits that have incremented the
  gauge and not yet called \<open>try_send\<close>, \<open>pi_bounced\<close> those whose \<open>try_send\<close> has failed and that have
  not yet undone the increment.
\<close>

record pipe =
  pi_queue :: "command list"
  pi_phase :: phase
  pi_current :: "command option"
  pi_inflight :: "audit_event multiset"
  pi_bounced :: "mw_error multiset"
  pi_handles :: bool
  pi_worker :: worker
  pi_fs :: fs

definition pipe_of :: "worker \<Rightarrow> fs \<Rightarrow> pipe" where
  "pipe_of k w = \<lparr>pi_queue = [], pi_phase = Running, pi_current = None, pi_inflight = {#}, pi_bounced = {#},
     pi_handles = True, pi_worker = k, pi_fs = w\<rparr>"

section \<open>The channel\<close>

text \<open>\<open>sync_channel(n)\<close> buffers \<open>n\<close> messages; with \<open>n = 0\<close> a \<open>try_send\<close> only succeeds while the receiver
  waits. The receiver is there until the thread has stopped.\<close>

definition has_room :: "pipe \<Rightarrow> bool" where
  "has_room p \<longleftrightarrow>
     (let n = pc_queue_capacity (wk_cfg (pi_worker p))
      in length (pi_queue p) < n \<or> (n = 0 \<and> pi_queue p = [] \<and> pi_phase p = Running \<and> pi_current p = None))"

definition enqueue :: "command \<Rightarrow> pipe \<Rightarrow> pipe" where
  "enqueue c p = p\<lparr>pi_queue := pi_queue p @ [c]\<rparr>"

definition on_metrics :: "(pipeline_metrics \<Rightarrow> pipeline_metrics) \<Rightarrow> pipe \<Rightarrow> pipe" where
  "on_metrics f p = p\<lparr>pi_worker := upd_metrics f (pi_worker p)\<rparr>"

section \<open>Emitting\<close>

text \<open>\<open>emit_unchecked\<close> up to the increment: the rejection of the latch, or the emit in flight.\<close>

definition rejects_full :: "pipe \<Rightarrow> bool" where
  "rejects_full p \<longleftrightarrow> pc_reject_emit_when_disk_full (wk_cfg (pi_worker p)) \<and> hs_disk_full (wk_health (pi_worker p))"

definition emit_begin :: "audit_event \<Rightarrow> pipe \<Rightarrow> mw_error option \<times> pipe" where
  "emit_begin ev p =
     (if rejects_full p then (Some (DiskFull ev), on_metrics m_rejected_disk_full p)
      else (None, (on_metrics m_queue_inc p)\<lparr>pi_inflight := add_mset ev (pi_inflight p)\<rparr>))"

definition emit_send :: "audit_event \<Rightarrow> pipe \<Rightarrow> mw_error option \<times> pipe" where
  "emit_send ev p =
     (let p1 = p\<lparr>pi_inflight := pi_inflight p - {#ev#}\<rparr>
      in if pi_phase p = Stopped then (Some WorkerGone, p1\<lparr>pi_bounced := add_mset WorkerGone (pi_bounced p)\<rparr>)
         else if has_room p then (None, enqueue (CEmit ev) p1)
         else (Some (QueueFull ev), p1\<lparr>pi_bounced := add_mset (QueueFull ev) (pi_bounced p)\<rparr>))"

definition is_queue_full :: "mw_error \<Rightarrow> bool" where
  "is_queue_full e = (case e of QueueFull _ \<Rightarrow> True | _ \<Rightarrow> False)"

definition emit_undo :: "mw_error \<Rightarrow> pipe \<Rightarrow> pipe" where
  "emit_undo e p =
     (on_metrics (\<lambda>m. if is_queue_full e then m_rejected_queue_full (m_queue_dec m) else m_queue_dec m) p)
       \<lparr>pi_bounced := pi_bounced p - {#e#}\<rparr>"

text \<open>The whole call, when nothing comes between its steps.\<close>

definition emit_unchecked :: "audit_event \<Rightarrow> pipe \<Rightarrow> unit mres \<times> pipe" where
  "emit_unchecked ev p =
     (case emit_begin ev p of
        (Some e, p1) \<Rightarrow> (Inl e, p1)
      | (None, p1) \<Rightarrow>
          (case emit_send ev p1 of
             (Some e, p2) \<Rightarrow> (Inl e, emit_undo e p2)
           | (None, p2) \<Rightarrow> (Inr (), p2)))"

definition handle_check :: "permission_policy \<Rightarrow> role \<Rightarrow> action \<Rightarrow> unit mres" where
  "handle_check pol r a = (if is_allowed pol r a then Inr () else Inl (PermissionDenied r a))"

definition handle_emit :: "permission_policy \<Rightarrow> role \<Rightarrow> audit_event \<Rightarrow> pipe \<Rightarrow> unit mres \<times> pipe" where
  "handle_emit pol r ev p =
     (case handle_check pol r AEmit of
        Inl e \<Rightarrow> (Inl e, p)
      | Inr _ \<Rightarrow> emit_unchecked ev p)"

text \<open>\<open>record_access\<close> of the handle: the record is dropped when the channel has no room.\<close>

definition handle_record_access :: "access_record \<Rightarrow> pipe \<Rightarrow> pipe" where
  "handle_record_access rec p =
     (if pi_phase p \<noteq> Stopped \<and> has_room p then enqueue (CRecordAccess rec) p else p)"

section \<open>Steps\<close>

text \<open>What the steps show to the outside. \<open>Stop\<close> carries the commands the receiver is dropped with.\<close>

datatype label =
    Rejected audit_event
  | Begun audit_event
  | Accepted audit_event
  | Failed audit_event mw_error
  | Undone
  | Sent command
  | Received command
  | Handled command "reply option"
  | Housekept
  | ShutdownReceived
  | Drained
  | HandlesGone
  | Stop "command list"

definition final_sync :: "worker \<times> fs \<Rightarrow> worker \<times> fs" where
  "final_sync = (\<lambda>kw.
     case on_store store_sync kw of (_, (k, w)) \<Rightarrow>
       (case wk_dlq k of
          None \<Rightarrow> (k, w)
        | Some t \<Rightarrow> (case table_sync (t, w) of (_, (t', w')) \<Rightarrow> (k\<lparr>wk_dlq := Some t'\<rparr>, w'))))"

text \<open>\<open>self\<close> is dropped with the thread.\<close>

definition drop_worker :: "worker \<times> fs \<Rightarrow> worker \<times> fs" where
  "drop_worker = (\<lambda>(k, w).
     (k\<lparr>wk_health := set_writer_alive False (wk_health k), wk_dlq := None\<rparr>,
      case wk_dlq k of None \<Rightarrow> drop_store (wk_store k) w | Some t \<Rightarrow> table_drop t (drop_store (wk_store k) w)))"

inductive pipe_step :: "penv \<Rightarrow> pipe \<Rightarrow> label \<Rightarrow> pipe \<Rightarrow> bool" for P where
  reject: "pi_handles p \<Longrightarrow> emit_begin ev p = (Some e, p') \<Longrightarrow> pipe_step P p (Rejected ev) p'"
| start: "pi_handles p \<Longrightarrow> emit_begin ev p = (None, p') \<Longrightarrow> pipe_step P p (Begun ev) p'"
| accept: "ev \<in># pi_inflight p \<Longrightarrow> emit_send ev p = (None, p') \<Longrightarrow> pipe_step P p (Accepted ev) p'"
| fail: "ev \<in># pi_inflight p \<Longrightarrow> emit_send ev p = (Some e, p') \<Longrightarrow> pipe_step P p (Failed ev e) p'"
| undo: "e \<in># pi_bounced p \<Longrightarrow> pipe_step P p Undone (emit_undo e p)"
| send: "pi_handles p \<Longrightarrow> pi_phase p \<noteq> Stopped \<Longrightarrow> has_room p \<Longrightarrow> (\<And>ev. c \<noteq> CEmit ev) \<Longrightarrow>
    pipe_step P p (Sent c) (enqueue c p)"
| recv: "pi_phase p = Running \<Longrightarrow> pi_current p = None \<Longrightarrow> pi_queue p = c # cs \<Longrightarrow> c \<noteq> CShutdown \<Longrightarrow>
    pipe_step P p (Received c) (p\<lparr>pi_queue := cs, pi_current := Some c\<rparr>)"
| handle: "pi_current p = Some c \<Longrightarrow> handle P I c (pi_worker p, pi_fs p) = (r, (k, w)) \<Longrightarrow>
    pipe_step P p (Handled c r) (p\<lparr>pi_current := None, pi_worker := k, pi_fs := w\<rparr>)"
| housekeep: "pi_phase p = Running \<Longrightarrow> pi_current p = None \<Longrightarrow> pi_queue p = [] \<Longrightarrow>
    housekeeping P n1 n2 n3 answer (pi_worker p, pi_fs p) = (k, w) \<Longrightarrow>
    pipe_step P p Housekept (p\<lparr>pi_worker := k, pi_fs := w\<rparr>)"
| shutdown: "pi_phase p = Running \<Longrightarrow> pi_current p = None \<Longrightarrow> pi_queue p = CShutdown # cs \<Longrightarrow>
    pipe_step P p ShutdownReceived (p\<lparr>pi_queue := cs, pi_phase := Draining\<rparr>)"
| drain: "pi_phase p = Draining \<Longrightarrow> pi_current p = None \<Longrightarrow> pi_queue p = c # cs \<Longrightarrow>
    pipe_step P p (Received c) (p\<lparr>pi_queue := cs, pi_current := (if c = CShutdown then None else Some c)\<rparr>)"
| drained: "pi_phase p = Draining \<Longrightarrow> pi_current p = None \<Longrightarrow> pi_queue p = [] \<Longrightarrow>
    pipe_step P p Drained (p\<lparr>pi_phase := Stopping\<rparr>)"
| forget: "pi_handles p \<Longrightarrow> pi_inflight p = {#} \<Longrightarrow> pi_bounced p = {#} \<Longrightarrow>
    pipe_step P p HandlesGone (p\<lparr>pi_handles := False\<rparr>)"
| disconnected: "pi_phase p = Running \<Longrightarrow> pi_current p = None \<Longrightarrow> pi_queue p = [] \<Longrightarrow> \<not> pi_handles p \<Longrightarrow>
    pipe_step P p Drained (p\<lparr>pi_phase := Stopping\<rparr>)"
| stop: "pi_phase p = Stopping \<Longrightarrow> drop_worker (final_sync (pi_worker p, pi_fs p)) = (k, w) \<Longrightarrow>
    pipe_step P p (Stop (pi_queue p)) (p\<lparr>pi_queue := [], pi_phase := Stopped, pi_worker := k, pi_fs := w\<rparr>)"

inductive pipe_run :: "penv \<Rightarrow> pipe \<Rightarrow> label list \<Rightarrow> pipe \<Rightarrow> bool" for P p where
  none: "pipe_run P p [] p"
| more: "pipe_run P p ls q \<Longrightarrow> pipe_step P q l q' \<Longrightarrow> pipe_run P p (ls @ [l]) q'"

end
