(* ===== verification/Pipeline_Facts.thy ===== *)
theory Pipeline_Facts
  imports Pipeline_System
begin

text \<open>
  What the operations of the writer thread leave alone, and the outcomes of one event.
\<close>

section \<open>The books\<close>

text \<open>The part of a worker that only emitting, writing and parking change.\<close>

definition books :: "worker \<Rightarrow> pipeline_config \<times> bool \<times> path \<times> int \<times> nat \<times> nat \<times> nat \<times> nat \<times> nat" where
  "books k = (wk_cfg k, wk_fallback k, wk_dlq_dir k, pm_queue_depth (wk_metrics k), pm_writes_ok (wk_metrics k),
     pm_writes_parked (wk_metrics k), pm_events_lost (wk_metrics k), pm_rejected_queue_full (wk_metrics k),
     pm_rejected_disk_full (wk_metrics k))"

definition calm :: "'a wop \<Rightarrow> bool" where
  "calm m \<longleftrightarrow> (\<forall>k w r k' w'. m (k, w) = (r, (k', w')) \<longrightarrow> books k' = books k \<and> wk_sink_calls k' = wk_sink_calls k)"

named_theorems calm_intros \<open>operations that leave the books alone\<close>

lemma calmI: "(\<And>k w. books (fst (snd (m (k, w)))) = books k \<and> wk_sink_calls (fst (snd (m (k, w)))) = wk_sink_calls k) \<Longrightarrow> calm m"
  unfolding calm_def by (metis fst_conv snd_conv)

lemma calmD: "calm m \<Longrightarrow> m (k, w) = (r, (k', w')) \<Longrightarrow> books k' = books k \<and> wk_sink_calls k' = wk_sink_calls k"
  unfolding calm_def by blast

lemma calm_seqE [calm_intros]: "calm m \<Longrightarrow> (\<And>a. calm (f a)) \<Longrightarrow> calm (seqE m f)"
  unfolding calm_def seqE_def by (fastforce split: prod.splits sum.splits)

lemma calm_basic [calm_intros]: "calm (retE a)" "calm (raiseE e)" "calm (liftE r)"
  by (simp_all add: calm_def)

lemma books_store [simp]: "books (k\<lparr>wk_store := s\<rparr>) = books k" "books (k\<lparr>wk_dlq := t\<rparr>) = books k"
  by (simp_all add: books_def)

lemma calm_on_store [calm_intros]: "calm (on_store m)"
  by (auto simp: calm_def on_store_def books_def split: prod.splits)

lemma calm_wk_disk [calm_intros]: "calm (wk_disk m)"
  by (auto simp: calm_def wk_disk_def split: prod.splits)

lemma calm_close_dlq [calm_intros]: "calm close_dlq"
  by (auto simp: calm_def close_dlq_def books_def)

lemma calm_open_dlq [calm_intros]: "calm (open_dlq P)"
  by (auto simp: calm_def open_dlq_def books_def split: option.splits prod.splits sum.splits)

lemma calm_on_dlq [calm_intros]: "calm (on_dlq P m)"
  unfolding on_dlq_def by (rule calm_seqE [OF calm_open_dlq]) (auto simp: calm_def books_def split: prod.splits)

lemma calm_try_write [calm_intros]: "calm (try_write P D ev)"
  by (simp add: try_write_def calm_on_store)

lemma calm_dlq_len: "calm (dlq_len P)"
  unfolding dlq_len_def
  by (rule calm_seqE [OF calm_on_dlq]) (auto simp: calm_def books_def Let_def upd_metrics_def m_set_dlq_entries_def)

lemma calm_finish_redrive: "calm (finish_redrive P rep)"
proof -
  have "calm (\<lambda>(k, w). (Inr rep, upd_metrics (m_set_dlq_entries (rp_requeued rep)) k, w))"
    by (auto simp: calm_def books_def upd_metrics_def m_set_dlq_entries_def)
  then have "calm (seqE (wk_disk (swap_dirs d)) (\<lambda>_. seqE (open_dlq P)
      (\<lambda>_ (k, w). (Inr rep, upd_metrics (m_set_dlq_entries (rp_requeued rep)) k, w))))" for d
    by (intro calm_intros)
  then have "calm (\<lambda>(k, w). seqE (wk_disk (swap_dirs (wk_dlq_dir k))) (\<lambda>_. seqE (open_dlq P)
      (\<lambda>_ (k, w). (Inr rep, upd_metrics (m_set_dlq_entries (rp_requeued rep)) k, w))) (k, w))"
    unfolding calm_def by fastforce
  then show ?thesis unfolding finish_redrive_def by (rule calm_seqE [OF calm_close_dlq])
qed

lemma call_fallback_books [simp]: "books (call_fallback ev t k) = books k" "wk_sink_calls (call_fallback ev t k) = wk_sink_calls k"
  by (simp_all add: call_fallback_def books_def)

lemma redrive_entries_books:
  "redrive_entries P I i es rep ((k, st), w) = (r, ((k', st'), w')) \<Longrightarrow>
     books k' = books k \<and> wk_sink_calls k' = wk_sink_calls k"
proof (induction es arbitrary: i rep k st w)
  case Nil
  then show ?case by simp
next
  case (Cons e es)
  obtain r1 k1 w1 where t: "try_write P (ri_draws I i) (de_event e) (k, w) = (r1, (k1, w1))" by (metis surj_pair)
  note b = calmD [OF calm_try_write t]
  show ?case
  proof (cases r1)
    case (Inr u)
    then have "redrive_entries P I (Suc i) es (rep\<lparr>rp_replayed := rp_replayed rep + 1\<rparr>) ((k1, st), w1) = (r, ((k', st'), w'))"
      using Cons.prems t by simp
    from Cons.IH [OF this] b show ?thesis by simp
  next
    case (Inl er)
    obtain r2 st2 w2 where a: "dlq_append P \<lparr>de_event = de_event e, de_error = ErrorText er, de_failed_at = ri_failed_at I i\<rparr>
        (st, w1) = (r2, (st2, w2))" by (metis surj_pair)
    show ?thesis
    proof (cases r2)
      case (Inl e')
      then show ?thesis using Cons.prems t b a \<open>r1 = Inl er\<close> by simp
    next
      case (Inr u)
      then have "redrive_entries P I (Suc i) es (rep\<lparr>rp_requeued := rp_requeued rep + 1\<rparr>)
          ((call_fallback (de_event e) (ErrorText er) k1, st2), w2) = (r, ((k', st'), w'))"
        using Cons.prems t a \<open>r1 = Inl er\<close> by simp
      from Cons.IH [OF this] b show ?thesis by simp
    qed
  qed
qed

lemma calm_replay [calm_intros]: "calm (replay P I entries rep0)"
proof -
  have "books k' = books k \<and> wk_sink_calls k' = wk_sink_calls k"
    if "replay P I entries rep0 (k, w) = (r, (k', w'))" for k w r k' w'
  proof -
    obtain r0 w0 where rm: "remove_stale (redrive_staging_dir (wk_dlq_dir k)) w = (r0, w0)" by (metis surj_pair)
    obtain r1 w1 where op: "table_open (se_ext (pe_store P)) (se_meta (pe_store P)) (redrive_staging_dir (wk_dlq_dir k))
        DLQ_SEGMENT_BYTES w0 = (r1, w1)" by (metis surj_pair)
    show ?thesis
    proof (cases r0; cases r1)
      fix u st assume r: "r0 = Inr u" "r1 = Inr st"
      obtain r2 k2 st2 w2 where en: "redrive_entries P I 0 entries rep0 ((k, st), w1) = (r2, ((k2, st2), w2))"
        by (metis surj_pair)
      obtain r3 k3 w3 where sy: "on_store store_sync (k2, w2) = (r3, (k3, w3))" by (metis surj_pair)
      obtain r4 st4 w4 where ts: "table_sync (st2, w3) = (r4, (st4, w4))" by (metis surj_pair)
      note b = redrive_entries_books [OF en] calmD [OF calm_on_store sy]
      show ?thesis
        using that rm op en sy ts r b calmD [OF calm_finish_redrive]
        by (auto simp: replay_def wk_disk_def seqE_def Let_def split: sum.splits)
    qed (use that rm op in \<open>auto simp: replay_def wk_disk_def seqE_def Let_def\<close>)
  qed
  then show ?thesis unfolding calm_def by blast
qed

lemma calm_here: "(\<And>k w. calm (m k w)) \<Longrightarrow> calm (\<lambda>(k, w). m k w (k, w))"
  unfolding calm_def by simp

lemma calm_if [calm_intros]: "calm m \<Longrightarrow> calm m' \<Longrightarrow> calm (if b then m else m')"
  by simp

lemma calm_redrive: "calm (redrive P I)"
  unfolding redrive_def Let_def by (intro calm_seqE calm_on_dlq calm_here calm_intros)

lemma calm_query_access: "calm (worker_query_access P I actor q)"
  by (auto simp: calm_def worker_query_access_def Let_def on_store_def books_def split: prod.splits sum.splits)

section \<open>Housekeeping\<close>

lemma check_disk_books [simp]: "books (check_disk now answer k) = books k"
  "wk_sink_calls (check_disk now answer k) = wk_sink_calls k"
  by (auto simp: check_disk_def Let_def set_low_disk_def latch_disk_full_def set_disk_full_def call_fallback_def books_def
      split: sum.splits prod.splits)

lemma housekeeping_books:
  "housekeeping P n1 n2 n3 answer (k, w) = (k', w') \<Longrightarrow> books k' = books k \<and> wk_sink_calls k' = wk_sink_calls k"
  by (auto simp: housekeeping_def Let_def on_store_def split: prod.splits)

section \<open>One event\<close>

text \<open>What the attempts come to: written at attempt \<open>j\<close>, or given up with an error.\<close>

definition written_at ::
  "penv \<Rightarrow> draws \<Rightarrow> audit_event \<Rightarrow> worker \<Rightarrow> nat \<Rightarrow> uid \<Rightarrow> worker \<Rightarrow> fs \<Rightarrow> bool" where
  "written_at P D ev k j log_id k' w' \<longleftrightarrow>
     (\<exists>k1 w1 k2. try_write P D ev (k1, w1) = (Inr log_id, (k2, w')) \<and> wk_store k' = wk_store k2) \<and>
     books k' = (case books k of (c, f, d, q, ok, rest) \<Rightarrow> (c, f, d, q, Suc ok, rest)) \<and>
     pm_write_retries (wk_metrics k') = pm_write_retries (wk_metrics k) + j \<and>
     pm_dlq_entries (wk_metrics k') = pm_dlq_entries (wk_metrics k) \<and>
     \<not> hs_disk_full (wk_health k') \<and> wk_fallback_calls k' = wk_fallback_calls k \<and>
     wk_sink_calls k' = wk_sink_calls k @ (if pc_sink (wk_cfg k) then [(ev, log_id)] else [])"

definition gave_up :: "worker \<Rightarrow> nat \<Rightarrow> error \<Rightarrow> worker \<Rightarrow> bool" where
  "gave_up k j e k' \<longleftrightarrow> books k' = books k \<and> wk_sink_calls k' = wk_sink_calls k \<and>
     wk_fallback_calls k' = wk_fallback_calls k \<and>
     pm_write_retries (wk_metrics k') = pm_write_retries (wk_metrics k) + j \<and>
     pm_dlq_entries (wk_metrics k') = pm_dlq_entries (wk_metrics k) \<and> (is_storage_full e \<longrightarrow> hs_disk_full (wk_health k'))"

lemma try_write_fields:
  "try_write P D ev (k, w) = (r, (k', w')) \<Longrightarrow> k' = k\<lparr>wk_store := wk_store k'\<rparr>"
  by (auto simp: try_write_def on_store_def split: prod.splits)

lemma write_attempts_cases:
  assumes "write_attempts P I ev n a t (k, w) = (r, (k', w'))" and "a \<le> n" and "n = unat (pc_max_retries (wk_cfg k))"
  shows "(\<exists>j log_id. a + j \<le> n \<and> r = Inr log_id \<and> written_at P (wi_draws I (a + j)) ev k j log_id k' w') \<or>
    (\<exists>j e. a + j \<le> n \<and> r = Inl (ErrorText e) \<and> gave_up k j e k' \<and> (is_storage_full e \<or> a + j = n))"
  using assms
proof (induction P I ev n a t "(k, w)" arbitrary: k w rule: write_attempts.induct)
  case (1 P I ev n a t k w)
  obtain r1 k1 w1 where t: "try_write P (wi_draws I a) ev (k, w) = (r1, (k1, w1))" by (metis surj_pair)
  note k1 = try_write_fields [OF t]
  have f: "books k1 = books k" "wk_metrics k1 = wk_metrics k" "wk_health k1 = wk_health k" "wk_cfg k1 = wk_cfg k"
    "wk_fallback_calls k1 = wk_fallback_calls k" "wk_sink_calls k1 = wk_sink_calls k"
    by (subst k1, simp)+
  note run = "1.prems"(1) [unfolded write_attempts.simps [of P I ev n a t k w]]
  show ?case
  proof (cases r1)
    case (Inr log_id)
    then have r: "r = Inr log_id" "k' = after_write I ev log_id k1" "w' = w1" using run t "1.prems"(2) by simp_all
    have "written_at P (wi_draws I a) ev k 0 log_id k' w'"
      unfolding written_at_def
    proof (intro conjI)
      show "\<exists>k1 w1 k2. try_write P (wi_draws I a) ev (k1, w1) = (Inr log_id, (k2, w')) \<and> wk_store k' = wk_store k2"
        using t Inr r by (intro exI [of _ k] exI [of _ w] exI [of _ k1])
          (simp add: after_write_def call_sink_def latch_disk_full_def upd_metrics_def)
    qed (use f in \<open>simp_all add: r(2) after_write_def call_sink_def latch_disk_full_def set_disk_full_def upd_metrics_def
        m_write_ok_def books_def\<close>)
    then show ?thesis using r(1) "1.prems"(2) by (intro disjI1 exI [of _ 0] exI [of _ log_id]) simp
  next
    case (Inl e)
    show ?thesis
    proof (cases "is_storage_full e")
      case True
      then have r: "r = Inl (ErrorText e)" "k' = latch_disk_full True k1" using run t Inl "1.prems"(2) by simp_all
      have "gave_up k 0 e k'"
        using f by (simp add: gave_up_def r(2) latch_disk_full_def set_disk_full_def books_def)
      then show ?thesis using r(1) "1.prems"(2) True by (intro disjI2 exI [of _ 0] exI [of _ e]) simp
    next
      case False
      let ?k2 = "after_failure a k1"
      have rest: "write_attempts P I ev n (a + 1) (ErrorText e) (?k2, w1) = (r, (k', w'))"
        using run t Inl False "1.prems"(2) by simp
      show ?thesis
      proof (cases "a = n")
        case True
        then have r: "r = Inl (ErrorText e)" "k' = ?k2" using rest by (simp_all add: write_attempts.simps)
        have "?k2 = k1" using True "1.prems"(3) f(4) by (simp add: after_failure_def)
        then have "gave_up k 0 e k'" using f r(2) False by (simp add: gave_up_def)
        then show ?thesis using r(1) True by (intro disjI2 exI [of _ 0] exI [of _ e]) simp
      next
        case neq: False
        then have lt: "a + 1 \<le> n" using "1.prems"(2) by simp
        have g: "books ?k2 = books k" "wk_cfg ?k2 = wk_cfg k" "wk_fallback_calls ?k2 = wk_fallback_calls k"
          "wk_sink_calls ?k2 = wk_sink_calls k" "pm_dlq_entries (wk_metrics ?k2) = pm_dlq_entries (wk_metrics k)"
          "pm_write_retries (wk_metrics ?k2) = pm_write_retries (wk_metrics k) + 1"
          using f lt "1.prems"(3) by (simp_all add: after_failure_def upd_metrics_def m_retry_def books_def)
        have "\<not> a > n" using "1.prems"(2) by simp
        from "1"(1) [OF this t [symmetric] Inl refl False rest lt] g(2) "1.prems"(3)
        consider j log_id where "a + 1 + j \<le> n" "r = Inr log_id" "written_at P (wi_draws I (a + 1 + j)) ev ?k2 j log_id k' w'"
          | j e' where "a + 1 + j \<le> n" "r = Inl (ErrorText e')" "gave_up ?k2 j e' k'" "is_storage_full e' \<or> a + 1 + j = n"
          by auto
        then show ?thesis
        proof cases
          case 1
          then have "written_at P (wi_draws I (a + Suc j)) ev k (Suc j) log_id k' w'" using g by (simp add: written_at_def)
          then show ?thesis using 1 by (intro disjI1 exI [of _ "Suc j"] exI [of _ log_id]) simp
        next
          case 2
          then have "gave_up k (Suc j) e' k'" using g by (simp add: gave_up_def)
          then show ?thesis using 2 by (intro disjI2 exI [of _ "Suc j"] exI [of _ e']) auto
        qed
      qed
    qed
  qed
qed

text \<open>What parking comes to.\<close>

definition parked_in_dlq :: "penv \<Rightarrow> dlq_entry \<Rightarrow> worker \<Rightarrow> worker \<Rightarrow> bool" where
  "parked_in_dlq P entry k k' \<longleftrightarrow>
     (\<exists>kw kw'. on_dlq P (seqE (dlq_append P entry) (\<lambda>_. table_sync)) kw = (Inr (), kw')) \<and>
     books k' = (case books k of (c, f, d, q, ok, pk, rest) \<Rightarrow> (c, f, d, q, ok, Suc pk, rest)) \<and>
     pm_dlq_entries (wk_metrics k') = Suc (pm_dlq_entries (wk_metrics k)) \<and>
     wk_fallback_calls k' = wk_fallback_calls k @ (if wk_fallback k then [(de_event entry, de_error entry)] else [])"

definition lost_event :: "dlq_entry \<Rightarrow> worker \<Rightarrow> worker \<Rightarrow> bool" where
  "lost_event entry k k' \<longleftrightarrow>
     (\<exists>e. books k' = (case books k of (c, f, d, q, ok, pk, l, rest) \<Rightarrow> (c, f, d, q, ok, Suc pk, Suc l, rest)) \<and>
        pm_dlq_entries (wk_metrics k') = pm_dlq_entries (wk_metrics k) \<and> (is_storage_full e \<longrightarrow> hs_disk_full (wk_health k')) \<and>
        wk_fallback_calls k' = wk_fallback_calls k @
          (if wk_fallback k then [(de_event entry, BothText (de_error entry) e)] else []))"

lemma on_dlq_fields:
  "on_dlq P m (k, w) = (r, (k', w')) \<Longrightarrow> k' = k\<lparr>wk_dlq := wk_dlq k'\<rparr>"
  by (auto simp: on_dlq_def open_dlq_def seqE_def split: option.splits prod.splits sum.splits)

lemma park_cases:
  assumes "park P ev err now (k, w) = (k', w')"
  defines "entry \<equiv> \<lparr>de_event = ev, de_error = err, de_failed_at = now\<rparr>"
  shows "(parked_in_dlq P entry k k' \<or> lost_event entry k k') \<and> wk_sink_calls k' = wk_sink_calls k \<and>
    pm_write_retries (wk_metrics k') = pm_write_retries (wk_metrics k) \<and>
    (hs_disk_full (wk_health k) \<longrightarrow> hs_disk_full (wk_health k'))"
proof -
  obtain r k1 w1 where d: "on_dlq P (seqE (dlq_append P entry) (\<lambda>_. table_sync)) (upd_metrics m_parked k, w) = (r, (k1, w1))"
    by (metis surj_pair)
  note k1 = on_dlq_fields [OF d]
  have f: "wk_metrics k1 = m_parked (wk_metrics k)" "wk_health k1 = wk_health k" "wk_cfg k1 = wk_cfg k"
    "wk_fallback k1 = wk_fallback k" "wk_dlq_dir k1 = wk_dlq_dir k"
    "wk_fallback_calls k1 = wk_fallback_calls k" "wk_sink_calls k1 = wk_sink_calls k"
    by (subst k1, simp add: upd_metrics_def)+
  show ?thesis
  proof (cases r)
    case (Inr u)
    then have k': "k' = call_fallback ev err (upd_metrics m_dlq_inc k1)"
      using assms(1) d by (simp add: park_def Let_def entry_def)
    have "parked_in_dlq P entry k k'" unfolding parked_in_dlq_def
    proof (intro conjI)
      show "\<exists>kw kw'. on_dlq P (seqE (dlq_append P entry) (\<lambda>_. table_sync)) kw = (Inr (), kw')" using d Inr by auto
    qed (use f in \<open>simp_all add: k' call_fallback_def upd_metrics_def m_dlq_inc_def m_parked_def books_def entry_def\<close>)
    then show ?thesis using f by (simp add: k' call_fallback_def upd_metrics_def m_dlq_inc_def m_parked_def)
  next
    case (Inl e)
    then have k': "k' = call_fallback ev (BothText err e)
        (if is_storage_full e then latch_disk_full True (upd_metrics m_lost k1) else upd_metrics m_lost k1)"
      using assms(1) d by (simp add: park_def Let_def entry_def)
    have "lost_event entry k k'" unfolding lost_event_def
      by (rule exI [of _ e]) (use f in \<open>simp add: k' call_fallback_def upd_metrics_def m_lost_def m_parked_def books_def entry_def
        latch_disk_full_def set_disk_full_def\<close>)
    then show ?thesis using f
      by (simp add: k' call_fallback_def upd_metrics_def m_lost_def m_parked_def latch_disk_full_def set_disk_full_def)
  qed
qed

text \<open>The effect of one event on the books: the first two components tell what became of it.\<close>

definition books_after :: "nat \<Rightarrow> nat \<Rightarrow> nat \<Rightarrow> worker \<Rightarrow> worker \<Rightarrow> bool" where
  "books_after ok parked lost k k' \<longleftrightarrow> books k' =
     (case books k of (c, f, d, q, ok0, pk, l, rest) \<Rightarrow> (c, f, d, q, ok0 + ok, pk + parked, l + lost, rest))"

lemma write_event_cases:
  assumes "write_event P I ev (k, w) = (k', w')"
  obtains (written) j log_id where "j \<le> unat (pc_max_retries (wk_cfg k))" "written_at P (wi_draws I j) ev k j log_id k' w'"
    | (parked) j e k1 where "j \<le> unat (pc_max_retries (wk_cfg k))" "gave_up k j e k1"
        "is_storage_full e \<or> j = unat (pc_max_retries (wk_cfg k))" "(is_storage_full e \<longrightarrow> hs_disk_full (wk_health k'))"
        "parked_in_dlq P \<lparr>de_event = ev, de_error = ErrorText e, de_failed_at = wi_failed_at I\<rparr> k1 k' \<or>
         lost_event \<lparr>de_event = ev, de_error = ErrorText e, de_failed_at = wi_failed_at I\<rparr> k1 k'"
        "wk_sink_calls k' = wk_sink_calls k" "pm_write_retries (wk_metrics k') = pm_write_retries (wk_metrics k) + j"
proof -
  let ?n = "unat (pc_max_retries (wk_cfg k))"
  obtain r k1 w1 where a: "write_attempts P I ev ?n 0 NoText (k, w) = (r, (k1, w1))" by (metis surj_pair)
  from write_attempts_cases [OF a] consider
      j log_id where "j \<le> ?n" "r = Inr log_id" "written_at P (wi_draws I j) ev k j log_id k1 w1"
    | j e where "j \<le> ?n" "r = Inl (ErrorText e)" "gave_up k j e k1" "is_storage_full e \<or> j = ?n"
    by auto
  then show ?thesis
  proof cases
    case 1
    then show ?thesis using assms a written by (simp add: write_event_def)
  next
    case 2
    then have pk: "park P ev (ErrorText e) (wi_failed_at I) (k1, w1) = (k', w')"
      using assms a by (simp add: write_event_def)
    show ?thesis using parked [OF 2(1,3,4)] park_cases [OF pk] 2(3) by (simp add: gave_up_def)
  qed
qed

lemma write_event_books:
  assumes "write_event P I ev (k, w) = (k', w')"
  shows "books_after 1 0 0 k k' \<or> books_after 0 1 0 k k' \<or> books_after 0 1 1 k k'"
  using assms
proof (cases rule: write_event_cases)
  case (written j log_id)
  then show ?thesis by (auto simp: written_at_def books_after_def split: prod.splits)
next
  case (parked j e k1)
  then show ?thesis by (auto simp: gave_up_def parked_in_dlq_def lost_event_def books_after_def split: prod.splits)
qed

lemma books_fields:
  "books k' = books k \<longleftrightarrow> wk_cfg k' = wk_cfg k \<and> wk_fallback k' = wk_fallback k \<and> wk_dlq_dir k' = wk_dlq_dir k \<and>
     pm_queue_depth (wk_metrics k') = pm_queue_depth (wk_metrics k) \<and>
     pm_writes_ok (wk_metrics k') = pm_writes_ok (wk_metrics k) \<and>
     pm_writes_parked (wk_metrics k') = pm_writes_parked (wk_metrics k) \<and>
     pm_events_lost (wk_metrics k') = pm_events_lost (wk_metrics k) \<and>
     pm_rejected_queue_full (wk_metrics k') = pm_rejected_queue_full (wk_metrics k) \<and>
     pm_rejected_disk_full (wk_metrics k') = pm_rejected_disk_full (wk_metrics k)"
  by (simp add: books_def)

lemma replying_calm: "calm m \<Longrightarrow> replying f m (k, w) = (r, (k', w')) \<Longrightarrow> books k' = books k"
  by (auto simp: replying_def split: prod.splits dest: calmD)

lemmas replying_store = replying_calm [OF calm_on_store]

lemma worker_verify_books: "worker_verify P (k, w) = (r, (k', w')) \<Longrightarrow> books k' = books k"
  by (auto simp: worker_verify_def on_store_def Let_def split: prod.splits)

lemma handle_books:
  assumes "handle P I c (k, w) = (r, (k', w'))" and "\<And>ev. c \<noteq> CEmit ev"
  shows "books k' = books k"
proof (cases c)
  case CRedriveDlq
  then show ?thesis using assms(1) replying_calm [OF calm_redrive] by (simp add: handle_def)
next
  case CDlqLen
  then show ?thesis using assms(1) replying_calm [OF calm_dlq_len] by (simp add: handle_def)
next
  case CVerifyIntegrity
  then show ?thesis using assms(1) by (auto simp: handle_def split: prod.splits intro: worker_verify_books)
next
  case (CRecordAccess rec)
  then show ?thesis using assms(1) by (auto simp: handle_def on_store_def split: prod.splits)
next
  case (CQueryAccess a q)
  then show ?thesis using assms(1) replying_calm [OF calm_query_access] by (simp add: handle_def)
qed (use assms in \<open>auto simp: handle_def dest: replying_store\<close>)

lemma handle_emit_books:
  assumes "handle P I (CEmit ev) (k, w) = (r, (k', w'))"
  shows "\<exists>ok parked lost. ok + parked = 1 \<and> lost \<le> parked \<and> books_after ok parked lost (upd_metrics m_queue_dec k) k'"
proof -
  have "write_event P (ci_write I) ev (upd_metrics m_queue_dec k, w) = (k', w')" using assms by (simp add: handle_def)
  from write_event_books [OF this] show ?thesis
  proof (elim disjE)
    assume "books_after 1 0 0 (upd_metrics m_queue_dec k) k'"
    then show ?thesis by (intro exI [of _ 1] exI [of _ 0]) simp
  next
    assume "books_after 0 1 0 (upd_metrics m_queue_dec k) k'"
    then show ?thesis by (intro exI [of _ 0] exI [of _ 1] exI [of _ 0]) simp
  next
    assume "books_after 0 1 1 (upd_metrics m_queue_dec k) k'"
    then show ?thesis by (intro exI [of _ 0] exI [of _ 1]) simp
  qed
qed


section \<open>Accounting\<close>

text \<open>
  The accounting of the running pipeline: what a run has accepted, handled and dropped, read off
  its labels, and the invariant that ties it to the queue, the gauge and the counters.
\<close>


section \<open>Reading a run\<close>

fun emit_of :: "command \<Rightarrow> audit_event list" where
  "emit_of (CEmit ev) = [ev]"
| "emit_of _ = []"

definition emits_of :: "command list \<Rightarrow> audit_event list" where
  "emits_of cs = concat (map emit_of cs)"

lemma emits_of_simps [simp]:
  "emits_of [] = []" "emits_of (c # cs) = emit_of c @ emits_of cs" "emits_of (cs @ ds) = emits_of cs @ emits_of ds"
  by (simp_all add: emits_of_def)

lemma emit_of_other: "(\<And>ev. c \<noteq> CEmit ev) \<Longrightarrow> emit_of c = []"
  by (cases c) auto

definition current_emits :: "command option \<Rightarrow> audit_event list" where
  "current_emits c = (case c of None \<Rightarrow> [] | Some c \<Rightarrow> emit_of c)"

lemma current_emits_simps [simp]: "current_emits None = []" "current_emits (Some c) = emit_of c"
  by (simp_all add: current_emits_def)

fun accepted_by :: "label \<Rightarrow> audit_event list" where
  "accepted_by (Accepted ev) = [ev]"
| "accepted_by _ = []"

fun handled_by :: "label \<Rightarrow> audit_event list" where
  "handled_by (Handled c r) = emit_of c"
| "handled_by _ = []"

fun dropped_by :: "label \<Rightarrow> audit_event list" where
  "dropped_by (Stop cs) = emits_of cs"
| "dropped_by _ = []"

fun rejected_by :: "label \<Rightarrow> nat" where
  "rejected_by (Rejected ev) = 1"
| "rejected_by _ = 0"

definition accepted :: "label list \<Rightarrow> audit_event list" where "accepted ls = concat (map accepted_by ls)"
definition handled :: "label list \<Rightarrow> audit_event list" where "handled ls = concat (map handled_by ls)"
definition dropped :: "label list \<Rightarrow> audit_event list" where "dropped ls = concat (map dropped_by ls)"
definition rejected :: "label list \<Rightarrow> nat" where "rejected ls = sum_list (map rejected_by ls)"

lemma run_readings [simp]:
  "accepted [] = []" "accepted (ls @ [l]) = accepted ls @ accepted_by l"
  "handled [] = []" "handled (ls @ [l]) = handled ls @ handled_by l"
  "dropped [] = []" "dropped (ls @ [l]) = dropped ls @ dropped_by l"
  "rejected [] = 0" "rejected (ls @ [l]) = rejected ls + rejected_by l"
  by (simp_all add: accepted_def handled_def dropped_def rejected_def)

lemma run_parts [simp]:
  "accepted (l # ls) = accepted_by l @ accepted ls" "accepted (ls @ ms) = accepted ls @ accepted ms"
  "handled (l # ls) = handled_by l @ handled ls" "handled (ls @ ms) = handled ls @ handled ms"
  "dropped (l # ls) = dropped_by l @ dropped ls" "dropped (ls @ ms) = dropped ls @ dropped ms"
  by (simp_all add: accepted_def handled_def dropped_def)

section \<open>The invariant\<close>

text \<open>The events the pipeline has accepted and not finished with.\<close>

definition pending :: "pipe \<Rightarrow> audit_event list" where
  "pending p = current_emits (pi_current p) @ emits_of (pi_queue p)"

definition accounted :: "worker \<Rightarrow> label list \<Rightarrow> pipe \<Rightarrow> bool" where
  "accounted k0 ls p \<longleftrightarrow>
     (let m = wk_metrics (pi_worker p); m0 = wk_metrics k0
      in accepted ls = handled ls @ pending p @ dropped ls \<and>
         pm_queue_depth m = pm_queue_depth m0 + int (size (pi_inflight p) + size (pi_bounced p) + length (pending p) + length (dropped ls)) \<and>
         pm_writes_ok m + pm_writes_parked m = pm_writes_ok m0 + pm_writes_parked m0 + length (handled ls) \<and>
         pm_events_lost m + pm_writes_parked m0 \<le> pm_writes_parked m + pm_events_lost m0 \<and>
         pm_rejected_disk_full m = pm_rejected_disk_full m0 + rejected ls \<and>
         length (pi_queue p) \<le> max 1 (pc_queue_capacity (wk_cfg k0)) \<and> wk_cfg (pi_worker p) = wk_cfg k0 \<and>
         (pi_phase p = Stopped \<longrightarrow> pi_queue p = []) \<and> (pi_phase p \<in> {Stopping, Stopped} \<longrightarrow> pi_current p = None) \<and>
         (dropped ls \<noteq> [] \<longrightarrow> pi_phase p = Stopped))"

lemma accounted_start: "accounted k [] (pipe_of k w)"
  by (simp add: accounted_def pipe_of_def pending_def)

inductive_cases pipe_stepE: "pipe_step P p l p'"

lemma accounted_step:
  assumes "accounted k0 ls p" and "pipe_step P p l p'"
  shows "accounted k0 (ls @ [l]) p'"
  using assms(2)
proof (cases rule: pipe_step.cases)
  case (reject ev e)
  then show ?thesis using assms(1)
    by (auto simp: emit_begin_def accounted_def Let_def pending_def on_metrics_def upd_metrics_def
        m_rejected_disk_full_def split: if_splits)
next
  case (start ev)
  then show ?thesis using assms(1)
    by (auto simp: emit_begin_def accounted_def Let_def pending_def on_metrics_def upd_metrics_def m_queue_inc_def
        split: if_splits)
next
  case (accept ev)
  then have s: "0 < size (pi_inflight p)" by (metis size_eq_0_iff_empty empty_not_add_mset gr0I multi_member_split)
  show ?thesis using accept assms(1) s
    by (auto simp: emit_send_def accounted_def Let_def pending_def enqueue_def has_room_def size_Diff_singleton
        split: if_splits)
next
  case (fail ev e)
  then have s: "0 < size (pi_inflight p)" by (metis size_eq_0_iff_empty empty_not_add_mset gr0I multi_member_split)
  show ?thesis using fail assms(1) s
    by (auto simp: emit_send_def accounted_def Let_def pending_def size_Diff_singleton split: if_splits)
next
  case (undo e)
  then have s: "0 < size (pi_bounced p)" by (metis size_eq_0_iff_empty empty_not_add_mset gr0I multi_member_split)
  show ?thesis using undo assms(1) s
    by (auto simp: emit_undo_def accounted_def Let_def pending_def size_Diff_singleton on_metrics_def upd_metrics_def
        m_queue_dec_def m_rejected_queue_full_def split: if_splits)
next
  case (send c)
  then show ?thesis using assms(1) emit_of_other [of c]
    by (auto simp: accounted_def Let_def pending_def enqueue_def has_room_def)
next
  case (recv c cs)
  then show ?thesis using assms(1) by (auto simp: accounted_def Let_def pending_def)
next
  case (handle c I r k w)
  have ph: "pi_phase p \<notin> {Stopping, Stopped}" "dropped ls = []" using handle assms(1) by (auto simp: accounted_def Let_def)
  show ?thesis
  proof (cases "\<exists>ev. c = CEmit ev")
    case False
    then have "books k = books (pi_worker p)" using handle_books [OF handle(4)] by blast
    then show ?thesis using handle assms(1) emit_of_other [of c] False ph
      by (auto simp: accounted_def Let_def pending_def books_fields)
  next
    case True
    then obtain ev where c: "c = CEmit ev" ..
    obtain ok parked lost where b: "ok + parked = 1" "lost \<le> parked"
      "books_after ok parked lost (upd_metrics m_queue_dec (pi_worker p)) k"
      using handle_emit_books handle(4) c by blast
    then show ?thesis using handle assms(1) c ph
      by (auto simp: accounted_def Let_def pending_def books_after_def books_def upd_metrics_def m_queue_dec_def)
  qed
next
  case (housekeep n1 n2 n3 answer k w)
  then have "books k = books (pi_worker p)" using housekeeping_books by blast
  then show ?thesis using housekeep assms(1) by (auto simp: accounted_def Let_def pending_def books_fields)
next
  case (shutdown cs)
  then show ?thesis using assms(1) by (auto simp: accounted_def Let_def pending_def)
next
  case (drain c cs)
  then show ?thesis using assms(1) by (auto simp: accounted_def Let_def pending_def)
next
  case drained
  then show ?thesis using assms(1) by (auto simp: accounted_def Let_def pending_def)
next
  case forget
  then show ?thesis using assms(1) by (auto simp: accounted_def Let_def pending_def)
next
  case disconnected
  then show ?thesis using assms(1) by (auto simp: accounted_def Let_def pending_def)
next
  case (stop k w)
  have "books k = books (pi_worker p)"
    using stop(4) by (auto simp: drop_worker_def final_sync_def on_store_def books_def split: prod.splits option.splits)
  then show ?thesis using stop assms(1) by (auto simp: accounted_def Let_def pending_def books_fields)
qed

lemma accounted_run: "pipe_run P (pipe_of k w) ls p \<Longrightarrow> accounted k ls p"
  by (induction rule: pipe_run.induct) (auto intro: accounted_start accounted_step)

section \<open>Cutting a run\<close>

lemma pipe_run_trans: "pipe_run P q ms q' \<Longrightarrow> pipe_run P p ls q \<Longrightarrow> pipe_run P p (ls @ ms) q'"
proof (induction rule: pipe_run.induct)
  case (more ms q l q')
  then show ?case using pipe_run.more [of P p "ls @ ms"] by simp
qed simp

inductive_cases pipe_run_snocE: "pipe_run P p (ls @ [l]) p'"

lemma pipe_run_split:
  "pipe_run P p (as @ l # bs) p' \<Longrightarrow> \<exists>q q'. pipe_run P p as q \<and> pipe_step P q l q' \<and> pipe_run P q' bs p'"
proof (induction bs arbitrary: p' rule: rev_induct)
  case Nil
  then obtain q where "pipe_run P p as q" "pipe_step P q l p'" by (auto elim: pipe_run_snocE)
  then show ?case using pipe_run.none by blast
next
  case (snoc b bs)
  have "pipe_run P p ((as @ l # bs) @ [b]) p'" using snoc.prems by simp
  then obtain q where q: "pipe_run P p (as @ l # bs) q" "pipe_step P q b p'" by (rule pipe_run_snocE) blast
  from snoc.IH [OF q(1)] show ?case using pipe_run.more [OF _ q(2)] by blast
qed

text \<open>After the drain nothing is handled any more.\<close>

lemma after_drain:
  "pipe_run P p bs p' \<Longrightarrow> pi_phase p \<in> {Stopping, Stopped} \<Longrightarrow> pi_current p = None \<Longrightarrow>
     handled bs = [] \<and> pi_phase p' \<in> {Stopping, Stopped} \<and> pi_current p' = None"
proof (induction rule: pipe_run.induct)
  case (more ls q l q')
  then have q: "handled ls = []" "pi_phase q \<in> {Stopping, Stopped}" "pi_current q = None" by simp_all
  from more.hyps(2) show ?case
    by (cases rule: pipe_step.cases)
      (use q in \<open>auto simp: emit_begin_def emit_send_def emit_undo_def enqueue_def on_metrics_def Let_def split: if_splits\<close>)
qed simp

end
