(* ===== verification/Pipeline_Persist.thy ===== *)
theory Pipeline_Persist
  imports Pipeline_Facts Store_Append
begin

text \<open>
  On a disk without faults, the writer thread keeps the store's invariant and the dead-letter
  queue's, and every event ends up in one of the two.
\<close>

section \<open>A table next to the store\<close>

lemma keeps_cong:
  assumes "\<And>x. fget w' (t_dir t @ [x]) = fget w (t_dir t @ [x])"
  shows "keeps X M C xs t w' = keeps X M C xs t w"
  unfolding keeps_def using tbl_inv_cong [OF assms] by auto

lemma store_else:
  assumes "store_inv E G s w" and "store_inv E G' s' w'" and "sr_else G' = sr_else G" and "st_cfg s' = st_cfg s"
    and "foreign_dir (cf_root (st_cfg s)) d"
  shows "fget w' (d @ [x]) = fget w (d @ [x])"
  using assms by (simp add: store_inv_def foreign_same_def)

text \<open>A write next to the store.\<close>

lemma store_inv_foreign:
  assumes i: "store_inv E G s w" and d: "foreign_dir (cf_root (st_cfg s)) d" and o: "same_outside d w w'"
  shows "store_inv E (G\<lparr>sr_else := w'\<rparr>) s w'"
proof -
  have sd: "store_dirs s" using i by (simp add: store_inv_def)
  have "kept_registry.apart d (st_registries s)"
    using sd d by (auto simp: kept_registry.apart_def store_dirs_def registry_dir_plain foreign_dir_def)
  then show ?thesis using i d same_outside_quiet [OF o] sd
    by (auto simp: store_inv_def store_dirs_def foreign_dir_def
        intro: kept_table.local [OF o] kept_registry.all_local [OF _ _ o])
qed

lemma keeps_append_ok:
  assumes "keeps X M C xs t w" and "quiet w" and "t_active_seq t < u64_max_nat"
    and "c_ser C x = Inr p" and "length p \<le> MAX_RECORD"
    and "table_append X M C x ts (t, w) = (r, (t', w'))"
  shows "r = Inr () \<and> table_step 1 t w t' w' \<and> keeps X M C (xs @ [(ts, x)]) t' w'"
proof -
  from assms(1) obtain vs v where "tbl_inv X M vs v t w" by (rule keepsE)
  from this assms(3,6) have "r = Inr ()"
    by (cases rule: table_append_cases) (use assms(2,4,5) in auto)
  then show ?thesis using keeps_append [OF assms(1-3,6)] by simp
qed

section \<open>Rows are only added\<close>

definition only_added :: "store_rows \<Rightarrow> store_rows \<Rightarrow> bool" where
  "only_added G G' \<longleftrightarrow> sr_meta G' = sr_meta G \<and> sr_access G' = sr_access G \<and> prefix (sr_logs G) (sr_logs G') \<and>
     prefix (sr_relations G) (sr_relations G') \<and> (\<forall>k. prefix (sr_registries G k) (sr_registries G' k))"

lemma only_added_refl [simp]: "only_added G G"
  by (simp add: only_added_def)

lemma only_added_trans: "only_added G G1 \<Longrightarrow> only_added G1 G2 \<Longrightarrow> only_added G G2"
  unfolding only_added_def by (metis prefix_order.trans)

lemma only_added_extends: "extends G G' \<Longrightarrow> only_added G G'"
  by (simp add: extends_def only_added_def)

lemma only_added_else [simp]: "only_added G (G'\<lparr>sr_else := w\<rparr>) = only_added G G'"
  by (simp add: only_added_def)

section \<open>The attempts\<close>

text \<open>The uids that the attempts up to \<open>n\<close> draw for their registrations are new and all different.\<close>

definition attempts_fresh :: "(nat \<Rightarrow> draws) \<Rightarrow> nat \<Rightarrow> nat \<Rightarrow> nat \<Rightarrow> store_rows \<Rightarrow> bool" where
  "attempts_fresh D a n m G \<longleftrightarrow> (\<forall>j. a \<le> j \<and> j \<le> n \<longrightarrow> unused (D j) 0 (Suc m) G) \<and>
     (\<forall>i j. a \<le> i \<and> i < j \<and> j \<le> n \<longrightarrow> dr_uid (D i) ` {0..<Suc m} \<inter> dr_uid (D j) ` {0..<Suc m} = {})"

lemma attempts_fresh_next:
  assumes "attempts_fresh D a n m G" and "new_uids G G' (dr_uid (D a) ` {0..<Suc m})"
  shows "attempts_fresh D (Suc a) n m G'"
proof -
  have "unused (D j) 0 (Suc m) G'" if j: "Suc a \<le> j" "j \<le> n" for j
  proof -
    have u: "unused (D j) 0 (Suc m) G" and dis: "dr_uid (D a) ` {0..<Suc m} \<inter> dr_uid (D j) ` {0..<Suc m} = {}"
      using assms(1) j unfolding attempts_fresh_def by auto
    have "dr_uid (D j) i \<notin> rr_uid ` set (sr_registries G' k)" if i: "i \<in> {0..<0 + Suc m}" for i k
    proof -
      have "dr_uid (D j) i \<in> dr_uid (D j) ` {0..<Suc m}" using i by simp
      then have "dr_uid (D j) i \<notin> dr_uid (D a) ` {0..<Suc m}" using dis by blast
      moreover have "dr_uid (D j) i \<notin> rr_uid ` set (sr_registries G k)" using u i by (simp add: unused_def)
      moreover have "rr_uid ` set (sr_registries G' k) \<subseteq> rr_uid ` set (sr_registries G k) \<union> dr_uid (D a) ` {0..<Suc m}"
        using assms(2) unfolding new_uids_def by blast
      ultimately show ?thesis by blast
    qed
    then show ?thesis using u unfolding unused_def by blast
  qed
  moreover have "\<forall>i j. Suc a \<le> i \<and> i < j \<and> j \<le> n \<longrightarrow> dr_uid (D i) ` {0..<Suc m} \<inter> dr_uid (D j) ` {0..<Suc m} = {}"
    using assms(1) unfolding attempts_fresh_def by (metis Suc_leD)
  ultimately show ?thesis unfolding attempts_fresh_def by blast
qed

definition event_targets :: "audit_event \<Rightarrow> (string \<times> entity_input) list" where
  "event_targets ev = map (\<lambda>t. (tsp_entity_type t, tsp_input t)) (ev_targets ev)"

text \<open>The room one attempt may use.\<close>

definition attempt_room :: "audit_event \<Rightarrow> nat" where
  "attempt_room ev = 2 * length (ev_targets ev) + 2"

text \<open>What a written event has left in the store: \<open>G\<close> before, \<open>G'\<close> after.\<close>

definition event_written :: "penv \<Rightarrow> draws \<Rightarrow> audit_event \<Rightarrow> store_rows \<Rightarrow> store_rows \<Rightarrow> bool" where
  "event_written P D ev G G' \<longleftrightarrow>
     appended (pe_store P) D (ev_occurred_at ev) (ev_actor_type ev) (ev_actor ev) (ev_method ev) (ev_url ev)
       (ev_content ev) (event_targets ev) (ev_custom ev) G G'"

lemma try_write_inv:
  assumes i: "store_inv (pe_store P) G (wk_store k) w" and room: "store_room (attempt_room ev + n) (wk_store k)"
    and fresh: "unused D 0 (Suc (length (ev_targets ev))) G"
    and run: "try_write P D ev (k, w) = (r, (k', w'))"
  shows "\<exists>G'. store_inv (pe_store P) G' (wk_store k') w' \<and> store_room n (wk_store k') \<and> extends G G' \<and>
    st_cfg (wk_store k') = st_cfg (wk_store k) \<and> new_uids G G' (dr_uid D ` {0..<Suc (length (ev_targets ev))}) \<and>
    (\<forall>id. r = Inr id \<longrightarrow> id = dr_uid D (length (ev_targets ev) + 1) \<and> event_written P D ev G G')"
proof -
  obtain s' where a: "append_at (pe_store P) D (ev_occurred_at ev) (ev_actor_type ev) (ev_actor ev) (ev_method ev)
      (ev_url ev) (ev_content ev) (event_targets ev) (ev_custom ev) (wk_store k, w) = (r, (s', w'))" and s': "wk_store k' = s'"
    using run by (auto simp: try_write_def on_store_def event_targets_def split: prod.splits)
  have l: "length (event_targets ev) = length (ev_targets ev)" by (simp add: event_targets_def)
  have room': "store_room (Suc (length (event_targets ev) + Suc (length (event_targets ev) + n))) (wk_store k)"
    using store_room_mono [OF room] by (simp add: attempt_room_def l)
  from append_at_inv [OF i room' _ a] fresh obtain G' where "store_inv (pe_store P) G' s' w'" "store_room n s'"
    "extends G G'" "st_cfg s' = st_cfg (wk_store k)" "new_uids G G' (dr_uid D ` {0..<Suc (length (event_targets ev))})"
    "\<forall>id. r = Inr id \<longrightarrow> id = dr_uid D (length (event_targets ev) + 1) \<and> validate_custom (wk_store k) (ev_custom ev) (ev_occurred_at ev) = Inr () \<and>
       appended (pe_store P) D (ev_occurred_at ev) (ev_actor_type ev) (ev_actor ev) (ev_method ev) (ev_url ev)
         (ev_content ev) (event_targets ev) (ev_custom ev) G G'"
    by (auto simp: l)
  then show ?thesis unfolding s' event_written_def l by blast
qed

lemma write_attempts_inv:
  assumes "write_attempts P I ev n a t (k, w) = (r, (k', w'))"
    and "store_inv (pe_store P) G (wk_store k) w" and "store_room ((Suc n - a) * attempt_room ev + q) (wk_store k)"
    and "attempts_fresh (wi_draws I) a n (length (ev_targets ev)) G"
  shows "\<exists>G'. store_inv (pe_store P) G' (wk_store k') w' \<and> store_room q (wk_store k') \<and> only_added G G' \<and>
    sr_else G' = sr_else G \<and> st_cfg (wk_store k') = st_cfg (wk_store k) \<and> wk_dlq k' = wk_dlq k \<and>
    (\<forall>id. r = Inr id \<longrightarrow> (\<exists>j H. j \<le> n \<and> only_added G H \<and> id = dr_uid (wi_draws I j) (length (ev_targets ev) + 1) \<and>
       event_written P (wi_draws I j) ev H G'))"
  using assms
proof (induction P I ev n a t "(k, w)" arbitrary: k w G rule: write_attempts.induct)
  case (1 P I ev n a t k w)
  note run = "1.prems"(1) [unfolded write_attempts.simps [of P I ev n a t k w]]
  show ?case
  proof (cases "a > n")
    case True
    then show ?thesis using run "1.prems"(2,3) by (intro exI [of _ G]) auto
  next
    case False
    obtain r1 k1 w1 where t: "try_write P (wi_draws I a) ev (k, w) = (r1, (k1, w1))" by (metis surj_pair)
    have nn: "Suc n - a = Suc (Suc n - Suc a)" using False by simp
    have room: "store_room (attempt_room ev + ((Suc n - Suc a) * attempt_room ev + q)) (wk_store k)"
      using "1.prems"(3) unfolding nn by (simp add: add.assoc)
    have fr: "unused (wi_draws I a) 0 (Suc (length (ev_targets ev))) G"
      using "1.prems"(4) False by (simp add: attempts_fresh_def)
    obtain G1 where G1: "store_inv (pe_store P) G1 (wk_store k1) w1"
      "store_room ((Suc n - Suc a) * attempt_room ev + q) (wk_store k1)" "extends G G1"
      "st_cfg (wk_store k1) = st_cfg (wk_store k)"
      "new_uids G G1 (dr_uid (wi_draws I a) ` {0..<Suc (length (ev_targets ev))})"
      "\<forall>id. r1 = Inr id \<longrightarrow> id = dr_uid (wi_draws I a) (length (ev_targets ev) + 1) \<and> event_written P (wi_draws I a) ev G G1"
      using try_write_inv [OF "1.prems"(2) room fr t] by blast
    have q1: "store_room q (wk_store k1)" using store_room_mono [OF G1(2)] by simp
    have dl: "wk_dlq k1 = wk_dlq k" by (subst try_write_fields [OF t]) simp
    have oa: "only_added G G1" "sr_else G1 = sr_else G" using only_added_extends [OF G1(3)] G1(3) by (simp_all add: extends_def)
    have st: "wk_store (latch_disk_full b kk) = wk_store kk" "wk_dlq (latch_disk_full b kk) = wk_dlq kk"
      "wk_store (after_failure a kk) = wk_store kk" "wk_dlq (after_failure a kk) = wk_dlq kk" for b kk
      by (simp_all add: latch_disk_full_def after_failure_def upd_metrics_def)
    show ?thesis
    proof (cases r1)
      case (Inr id)
      then have e: "r = Inr id" "w' = w1" "wk_store k' = wk_store k1" "wk_dlq k' = wk_dlq k1"
        using run t False by (auto simp: after_write_def call_sink_def latch_disk_full_def upd_metrics_def split: if_splits)
      have "\<forall>id'. r = Inr id' \<longrightarrow> (\<exists>j H. j \<le> n \<and> only_added G H \<and>
          id' = dr_uid (wi_draws I j) (length (ev_targets ev) + 1) \<and> event_written P (wi_draws I j) ev H G1)"
        using G1(6) Inr e(1) False by (intro allI impI exI [of _ a] exI [of _ G]) simp
      then show ?thesis using e G1(1,4) q1 oa dl by (intro exI [of _ G1]) simp
    next
      case (Inl e)
      show ?thesis
      proof (cases "is_storage_full e")
        case True
        then show ?thesis using run t Inl False G1(1,4) q1 oa dl st by (intro exI [of _ G1]) auto
      next
        case nf: False
        then have rest: "write_attempts P I ev n (a + 1) (ErrorText e) (after_failure a k1, w1) = (r, (k', w'))"
          using run t Inl False by simp
        have i1: "store_inv (pe_store P) G1 (wk_store (after_failure a k1)) w1"
          "store_room ((Suc n - (a + 1)) * attempt_room ev + q) (wk_store (after_failure a k1))"
          "attempts_fresh (wi_draws I) (a + 1) n (length (ev_targets ev)) G1"
          using G1(1,2) st attempts_fresh_next [OF "1.prems"(4) G1(5)] by simp_all
        obtain G2 where G2: "store_inv (pe_store P) G2 (wk_store k') w'" "store_room q (wk_store k')" "only_added G1 G2"
          "sr_else G2 = sr_else G1" "st_cfg (wk_store k') = st_cfg (wk_store k1)" "wk_dlq k' = wk_dlq k1"
          "\<forall>id. r = Inr id \<longrightarrow> (\<exists>j H. j \<le> n \<and> only_added G1 H \<and>
             id = dr_uid (wi_draws I j) (length (ev_targets ev) + 1) \<and> event_written P (wi_draws I j) ev H G2)"
          using "1"(1) [OF False t [symmetric] Inl refl nf rest i1] st by auto
        then show ?thesis using oa only_added_trans [OF oa(1)] G1(4) dl
          by (intro exI [of _ G2]) (auto, blast)
      qed
    qed
  qed
qed

section \<open>The worker\<close>

text \<open>The store holds \<open>G\<close>, the dead-letter queue, in a directory of its own, the entries \<open>xs\<close>.\<close>

definition worker_inv :: "penv \<Rightarrow> store_rows \<Rightarrow> (u64 \<times> dlq_entry) list \<Rightarrow> worker \<Rightarrow> fs \<Rightarrow> bool" where
  "worker_inv P G xs k w \<longleftrightarrow> store_inv (pe_store P) G (wk_store k) w \<and>
     foreign_dir (cf_root (st_cfg (wk_store k))) (wk_dlq_dir k) \<and>
     (\<exists>t. wk_dlq k = Some t \<and> t_dir t = wk_dlq_dir k \<and>
        keeps (se_ext (pe_store P)) (se_meta (pe_store P)) (pe_entries P) xs t w)"

lemma worker_invE:
  assumes "worker_inv P G xs k w"
  obtains t where "store_inv (pe_store P) G (wk_store k) w" "foreign_dir (cf_root (st_cfg (wk_store k))) (wk_dlq_dir k)"
    "wk_dlq k = Some t" "t_dir t = wk_dlq_dir k" "keeps (se_ext (pe_store P)) (se_meta (pe_store P)) (pe_entries P) xs t w"
  using assms unfolding worker_inv_def by blast

text \<open>The entry can be stored, whatever error it carries.\<close>

definition storable :: "penv \<Rightarrow> audit_event \<Rightarrow> u64 \<Rightarrow> bool" where
  "storable P ev now \<longleftrightarrow>
     (\<forall>err. \<exists>p. c_ser (pe_entries P) \<lparr>de_event = ev, de_error = err, de_failed_at = now\<rparr> = Inr p \<and> length p \<le> MAX_RECORD)"

definition dlq_room :: "worker \<Rightarrow> bool" where
  "dlq_room k \<longleftrightarrow> (\<forall>t. wk_dlq k = Some t \<longrightarrow> t_active_seq t < u64_max_nat)"

lemma park_inv:
  assumes i: "worker_inv P G xs k w" and room: "dlq_room k" and ser: "storable P ev now"
    and run: "park P ev err now (k, w) = (k', w')"
  shows "worker_inv P (G\<lparr>sr_else := w'\<rparr>) (xs @ [(now, \<lparr>de_event = ev, de_error = err, de_failed_at = now\<rparr>)]) k' w' \<and>
    pm_events_lost (wk_metrics k') = pm_events_lost (wk_metrics k)"
proof -
  let ?X = "se_ext (pe_store P)" and ?M = "se_meta (pe_store P)" and ?C = "pe_entries P"
    and ?en = "\<lparr>de_event = ev, de_error = err, de_failed_at = now\<rparr>"
  from i obtain t where I: "store_inv (pe_store P) G (wk_store k) w" "foreign_dir (cf_root (st_cfg (wk_store k))) (wk_dlq_dir k)"
    "wk_dlq k = Some t" "t_dir t = wk_dlq_dir k" "keeps ?X ?M ?C xs t w" by (rule worker_invE)
  obtain r1 t1 w1 where a: "dlq_append P ?en (t, w) = (r1, (t1, w1))" by (metis surj_pair)
  obtain p where p: "c_ser ?C ?en = Inr p" "length p \<le> MAX_RECORD" using ser unfolding storable_def by blast
  have q: "quiet w" using I(1) by (rule store_inv_quiet)
  have A: "r1 = Inr ()" "table_step 1 t w t1 w1" "keeps ?X ?M ?C (xs @ [(now, ?en)]) t1 w1"
    using keeps_append_ok [OF I(5) q _ p] a room I(3) by (simp_all add: dlq_append_def dlq_room_def)
  have q1: "quiet w1" using table_step_quiet [OF A(2) q] .
  obtain r2 t2 w2 where b: "table_sync (t1, w1) = (r2, (t2, w2))" by (metis surj_pair)
  have B: "r2 = Inr ()" "keeps ?X ?M ?C (xs @ [(now, ?en)]) t2 w2" "table_step 0 t1 w1 t2 w2"
    using keeps_sync [OF A(3) q1 b] by auto
  have e: "w' = w2" "k' = call_fallback ev err (upd_metrics m_dlq_inc ((upd_metrics m_parked k)\<lparr>wk_dlq := Some t2\<rparr>))"
    using run a A(1) b B(1) I(3)
    by (simp_all add: park_def Let_def on_dlq_def open_dlq_def seqE_def upd_metrics_def)
  have "table_step 1 t w t2 w2" using table_step_trans [OF A(2) B(3)] by simp
  then have st: "same_outside (wk_dlq_dir k) w w2" "t_dir t2 = wk_dlq_dir k" using I(4) by (simp_all add: table_step_def)
  have f: "wk_store k' = wk_store k" "wk_dlq k' = Some t2" "wk_dlq_dir k' = wk_dlq_dir k"
    "pm_events_lost (wk_metrics k') = pm_events_lost (wk_metrics k)"
    by (simp_all add: e call_fallback_def upd_metrics_def m_dlq_inc_def m_parked_def)
  show ?thesis using store_inv_foreign [OF I(1,2) st(1)] I(2) B(2) st(2) f e(1) unfolding worker_inv_def by auto
qed

lemma write_event_inv:
  assumes i: "worker_inv P G xs k w" and room: "store_room (Suc n * attempt_room ev) (wk_store k)" "dlq_room k"
    and n: "n = unat (pc_max_retries (wk_cfg k))"
    and fresh: "attempts_fresh (wi_draws I) 0 n (length (ev_targets ev)) G" and ser: "storable P ev (wi_failed_at I)"
    and run: "write_event P I ev (k, w) = (k', w')"
  shows "\<exists>G' xs'. worker_inv P G' xs' k' w' \<and> only_added G G' \<and>
    pm_events_lost (wk_metrics k') = pm_events_lost (wk_metrics k) \<and>
    ((xs' = xs \<and> (\<exists>j H. j \<le> n \<and> only_added G H \<and> event_written P (wi_draws I j) ev H G')) \<or>
     (\<exists>e. xs' = xs @ [(wi_failed_at I, \<lparr>de_event = ev, de_error = ErrorText e, de_failed_at = wi_failed_at I\<rparr>)]))"
proof -
  let ?X = "se_ext (pe_store P)" and ?M = "se_meta (pe_store P)" and ?C = "pe_entries P"
  from i obtain t where W: "store_inv (pe_store P) G (wk_store k) w" "foreign_dir (cf_root (st_cfg (wk_store k))) (wk_dlq_dir k)"
    "wk_dlq k = Some t" "t_dir t = wk_dlq_dir k" "keeps ?X ?M ?C xs t w" by (rule worker_invE)
  obtain r k1 w1 where a: "write_attempts P I ev n 0 NoText (k, w) = (r, (k1, w1))" by (metis surj_pair)
  have rm: "store_room ((Suc n - 0) * attempt_room ev + 0) (wk_store k)" using room(1) by simp
  obtain G1 where G1: "store_inv (pe_store P) G1 (wk_store k1) w1" "only_added G G1" "sr_else G1 = sr_else G"
    "st_cfg (wk_store k1) = st_cfg (wk_store k)" "wk_dlq k1 = wk_dlq k"
    "\<forall>id. r = Inr id \<longrightarrow> (\<exists>j H. j \<le> n \<and> only_added G H \<and> id = dr_uid (wi_draws I j) (length (ev_targets ev) + 1) \<and>
       event_written P (wi_draws I j) ev H G1)"
    using write_attempts_inv [OF a W(1) rm fresh] by blast
  have "keeps ?X ?M ?C xs t w1"
    using W(4,5) keeps_cong store_else [OF W(1) G1(1,3,4) W(2)] by (metis)
  moreover have d: "wk_dlq_dir k1 = wk_dlq_dir k" and l: "pm_events_lost (wk_metrics k1) = pm_events_lost (wk_metrics k)"
    using write_attempts_cases [OF a _ n] by (auto simp: written_at_def gave_up_def books_def)
  ultimately have i1: "worker_inv P G1 xs k1 w1" using G1(1,4,5) W(2-4) unfolding worker_inv_def by auto
  show ?thesis
  proof (cases r)
    case (Inr id)
    then have "k' = k1" "w' = w1" using run a n by (simp_all add: write_event_def)
    then show ?thesis using i1 G1(2,6) Inr l by blast
  next
    case (Inl err)
    then have pk: "park P ev err (wi_failed_at I) (k1, w1) = (k', w')" using run a n by (simp add: write_event_def)
    obtain e where e: "err = ErrorText e" using write_attempts_cases [OF a _ n] Inl by auto
    have "dlq_room k1" using room(2) G1(5) by (simp add: dlq_room_def)
    from park_inv [OF i1 this ser pk] show ?thesis using G1(2) e l
      by (intro exI [of _ "G1\<lparr>sr_else := w'\<rparr>"] exI [of _ "xs @ [(wi_failed_at I, \<lparr>de_event = ev, de_error = err, de_failed_at = wi_failed_at I\<rparr>)]"]) auto
  qed
qed

end
