(* ===== verification/Pipeline_Props.thy ===== *)
theory Pipeline_Props
  imports Pipeline_Facts Pipeline_Persist Store_Demo
begin

text \<open>
  The properties of the pipeline.
\<close>

section \<open>A small pipeline\<close>

definition demo_event :: audit_event where
  "demo_event = event_new 3 ''user'' demo_input ''GET'' ''u'' (CText ''hi'')"

definition demo_err :: error where "demo_err = Schema AccessLogDisabled"

definition demo_entry :: dlq_entry where
  "demo_entry = \<lparr>de_event = demo_event, de_error = NoText, de_failed_at = 4\<rparr>"

text \<open>A codec of queue entries that forgets all but one.\<close>

definition demo_penv :: penv where
  "demo_penv = \<lparr>pe_store = demo_senv, pe_entries = \<lparr>c_ser = \<lambda>_. Inr [1], c_de = \<lambda>_. Inr demo_entry\<rparr>\<rparr>"

definition demo_dlq_dir :: path where "demo_dlq_dir = demo_root @ [''dlq'']"

definition demo_worker :: worker where
  "demo_worker = start_worker demo_store demo_root demo_dlq_dir (loaded_table demo_dlq_dir []) pipeline_config_default True 0"

definition demo_pipe_fs :: fs where
  "demo_pipe_fs = fput (segment_path demo_dlq_dir 0) (seg_image demo_ext ZERO_CHAIN []) demo_store_fs"

definition demo_inputs :: write_inputs where
  "demo_inputs = \<lparr>wi_draws = \<lambda>i. demo_draws\<lparr>dr_uid := \<lambda>n. of_nat (10 * i + n)\<rparr>, wi_latency_nanos = 800000, wi_failed_at = 4\<rparr>"

lemma demo_worker_simps [simp]:
  "wk_store demo_worker = demo_store" "wk_dlq demo_worker = Some (loaded_table demo_dlq_dir [])"
  "wk_dlq_dir demo_worker = demo_dlq_dir" "wk_cfg demo_worker = pipeline_config_default" "wk_fallback demo_worker"
  "wk_metrics demo_worker = metrics_default" "wk_fallback_calls demo_worker = []" "wk_sink_calls demo_worker = []"
  by (simp_all add: demo_worker_def start_worker_def m_set_dlq_entries_def metrics_default_def)

lemma demo_root_cfg [simp]: "cf_root (st_cfg demo_store) = demo_root"
  by (simp add: demo_store_def demo_store_with_def Let_def demo_cfg_def config_keys_def config_new_def)

lemma demo_dlq_foreign: "foreign_dir demo_root demo_dlq_dir"
  by (simp add: foreign_dir_def demo_dlq_dir_def demo_root_def)

lemma demo_worker_inv: "worker_inv demo_penv (no_rows\<lparr>sr_else := demo_pipe_fs\<rparr>) [] demo_worker demo_pipe_fs"
proof -
  have o: "same_outside demo_dlq_dir demo_store_fs demo_pipe_fs"
    by (auto simp: same_outside_def demo_pipe_fs_def segment_path_def)
  have "store_inv demo_senv (no_rows\<lparr>sr_else := demo_pipe_fs\<rparr>) demo_store demo_pipe_fs"
    using store_inv_foreign [OF demo_store_inv _ o] demo_dlq_foreign by simp
  moreover have "keeps demo_ext demo_meta_codec C [] (loaded_table demo_dlq_dir []) demo_pipe_fs" for C :: "dlq_entry codec"
  proof (rule loaded_table_keeps)
    show "x = segment_name 0" if "fget demo_pipe_fs (demo_dlq_dir @ [x]) \<noteq> None" for x
      using that by (auto simp: demo_pipe_fs_def demo_store_fs_def demo_fs_with_def demo_dirs_def fget_def demo_dlq_dir_def
          demo_root_def segment_path_def fput_def split: if_splits)
  qed (simp_all add: demo_pipe_fs_def rows_keep_def)
  ultimately show ?thesis using demo_dlq_foreign
    by (simp add: worker_inv_def demo_penv_def) (simp add: demo_senv_def)
qed

section \<open>The start\<close>

text \<open>
  C27: a checksum that does not match in a sealed segment of the dead-letter queue keeps
  \<open>AuditPipeline::start\<close> from returning: after the error, the reader's offset stays behind the bytes
  it has taken, so the scan whose \<open>Ok\<close> rows the start counts never comes to its end.
\<close>

theorem start_hangs_on_bad_frame:
  assumes "seqE (recover_swap (dlq_dir_of store_root cfg)) (\<lambda>_. table_open (se_ext (pe_store P)) (se_meta (pe_store P))
      (dlq_dir_of store_root cfg) DLQ_SEGMENT_BYTES) w = (Inr dlq, w1)"
    and "table_slices (dlq, w1) = (Inr sls, (dlq2, w2))"
    and "(seq, ss) \<in> set (t_sealed dlq)" and "fget w2 (ss_path ss) = Some (seg_header seed @ rows)"
    and "length seed = 32" and "spoiled_rows (se_ext (pe_store P)) rows" and "length rows + 37 \<le> u64_max_nat"
  shows "pipeline_start P s store_root cfg fallback w = None"
proof -
  let ?X = "se_ext (pe_store P)"
  obtain r1 where fl: "table_flush (dlq, w1) = (r1, (dlq2, w2))" "sls = slices_of dlq2"
    using assms(2) by (auto simp: table_slices_def seqE_def split: prod.splits sum.splits)
  have sealed: "t_sealed dlq2 = t_sealed dlq"
    using fl(1) by (auto simp: table_flush_def on_active_def split: prod.splits)
  let ?sl = "\<lambda>(seq, s). \<lparr>sl_path = ss_path s, sl_bound = u64_max_nat, sl_seq = seq,
      sl_min_ts = m_min_timestamp (ss_meta s), sl_max_ts = m_max_timestamp (ss_meta s)\<rparr>"
  define sl where "sl = ?sl (seq, ss)"
  have "?sl (seq, ss) \<in> set (map ?sl (t_sealed dlq2))" unfolding set_map sealed using assms(3) by (rule imageI)
  then have sl: "sl \<in> set sls" "sl_path sl = ss_path ss" "sl_bound sl = u64_max_nat"
    unfolding sl_def fl(2) slices_of_def by simp_all
  have "min (length rows + 37) u64_max_nat = length rows + 37" using assms(7) by simp
  then have "open_bounded (sl_path sl) (sl_bound sl) w2 =
      Inr \<lparr>rd_path = ss_path ss, rd_rest = rows, rd_offset = 37, rd_end = 37 + length rows, rd_seed = seed\<rparr>"
    using assms(4,5) sl(2,3) read_header_image [OF assms(5), of "ss_path ss" rows]
    by (simp add: open_bounded_def fs_read_def open_bounded_bytes_def Let_def add.commute)
  moreover have "doomed ?X \<lparr>rd_path = ss_path ss, rd_rest = rows, rd_offset = 37, rd_end = 37 + length rows, rd_seed = seed\<rparr>"
    using assms(6) by (simp add: doomed_def)
  ultimately have "endless ?X w2 \<lparr>ls_left = sls, ls_current = None\<rparr>" using sl(1) by (auto simp: endless_def)
  from count_ok_endless [OF this, of "pe_entries P" 0] show ?thesis using assms(1,2) by (simp add: pipeline_start_def Let_def)
qed

text \<open>A queue of two segments; the row of the first has the checksum 7 instead of 1.\<close>

definition spoiled_fs :: fs where
  "spoiled_fs = \<lparr>fs_files =
      [(segment_path demo_dlq_dir 0, seg_header ZERO_CHAIN @ frame_with_crc demo_ext 7 (3, ZERO_CHAIN, [1])),
       (meta_path demo_dlq_dir 0, le64 3 @ le64 3 @ le_bytes 8 1), (segment_path demo_dlq_dir 1, [])],
     fs_dirs = [demo_root, demo_dlq_dir], fs_faults = []\<rparr>"

lemma spoiled_fs_files:
  "fget spoiled_fs (segment_path demo_dlq_dir 0) = Some (seg_header ZERO_CHAIN @ frame_with_crc demo_ext 7 (3, ZERO_CHAIN, [1]))"
  "fget spoiled_fs (segment_path demo_dlq_dir 1) = Some []"
  "read_meta demo_meta_codec (meta_path demo_dlq_dir 0) spoiled_fs = Some \<lparr>m_min_timestamp = 3, m_max_timestamp = 3, m_records = 1\<rparr>"
proof -
  have n: "segment_name 0 \<noteq> segment_name 1" "meta_name 0 \<noteq> segment_name 0" "meta_name 0 \<noteq> segment_name 1"
    by (metis segment_path_inject segment_path_def zero_neq_one, metis meta_path_def segment_meta_path segment_path_def,
        metis meta_path_def segment_meta_path segment_path_def)
  then show "fget spoiled_fs (segment_path demo_dlq_dir 0) =
      Some (seg_header ZERO_CHAIN @ frame_with_crc demo_ext 7 (3, ZERO_CHAIN, [1]))"
    "fget spoiled_fs (segment_path demo_dlq_dir 1) = Some []"
    by (simp_all add: fget_def spoiled_fs_def segment_path_def meta_path_def)
  have "fget spoiled_fs (meta_path demo_dlq_dir 0) = Some (le64 3 @ le64 3 @ le_bytes 8 1)"
    using n by (simp add: fget_def spoiled_fs_def segment_path_def meta_path_def)
  then show "read_meta demo_meta_codec (meta_path demo_dlq_dir 0) spoiled_fs =
      Some \<lparr>m_min_timestamp = 3, m_max_timestamp = 3, m_records = 1\<rparr>"
    by (simp add: read_meta_def demo_meta_codec_def le_nat_le_bytes)
qed

lemma spoiled_fs_names: "list_segments demo_dlq_dir spoiled_fs = [0, 1]"
proof -
  have "fs_read_dir demo_dlq_dir spoiled_fs = [segment_name 0, meta_name 0, segment_name 1]"
    by (simp add: fs_read_dir_def spoiled_fs_def segment_path_def meta_path_def demo_dlq_dir_def demo_root_def)
  moreover have "parse_segment_name (segment_name 0) = Some 0" "parse_segment_name (segment_name 1) = Some 1"
    by (simp_all add: parse_segment_name u64_max_nat_def)
  ultimately show ?thesis using parse_meta_name [of 0] by (simp add: list_segments_def List.map_filter_def)
qed

lemma spoiled_opens:
  "\<exists>dlq w1. seqE (recover_swap demo_dlq_dir) (\<lambda>_. table_open demo_ext demo_meta_codec demo_dlq_dir DLQ_SEGMENT_BYTES) spoiled_fs =
     (Inr dlq, w1) \<and> fget w1 (segment_path demo_dlq_dir 0) = fget spoiled_fs (segment_path demo_dlq_dir 0) \<and> quiet w1 \<and>
     (\<exists>m. (0, \<lparr>ss_path = segment_path demo_dlq_dir 0, ss_meta = m\<rparr>) \<in> set (t_sealed dlq)) \<and>
     seg_path (t_active dlq) = segment_path demo_dlq_dir 1 \<and> fget w1 (segment_path demo_dlq_dir 1) = Some []"
proof -
  let ?m = "\<lparr>m_min_timestamp = 3, m_max_timestamp = 3, m_records = 1\<rparr>"
  have q: "quiet spoiled_fs" by (simp add: quiet_def spoiled_fs_def)
  have rec: "recover_swap demo_dlq_dir spoiled_fs = (Inr (), spoiled_fs)"
    by (simp add: recover_swap_def Let_def dir_exists_def spoiled_fs_def redrive_staging_dir_def with_extension_def
        file_stem_def demo_dlq_dir_def demo_root_def)
  have mk: "fs_create_dir_all demo_dlq_dir spoiled_fs = (Inr (), spoiled_fs)"
    using q by (simp add: fs_create_dir_all_def) (simp add: spoiled_fs_def)
  have ld: "load_sealed demo_ext demo_meta_codec demo_dlq_dir [0] [] spoiled_fs =
      (Inr [(0, \<lparr>ss_path = segment_path demo_dlq_dir 0, ss_meta = ?m\<rparr>)], spoiled_fs)"
    using spoiled_fs_files(3) by (simp add: seqE_def load_meta_def)
  obtain r w1 where op: "seg_open demo_ext (segment_path demo_dlq_dir 1) ZERO_CHAIN spoiled_fs = (r, w1)" by (metis surj_pair)
  have "case fget spoiled_fs (segment_path demo_dlq_dir 1) of None \<Rightarrow> True | Some c \<Rightarrow> length c < 37"
    using spoiled_fs_files(2) by simp
  from ext_ok_demo length_ZERO_CHAIN this op show ?thesis
  proof (cases rule: seg_open_fresh_cases)
    case (ok s)
    have "seqE (recover_swap demo_dlq_dir) (\<lambda>_. table_open demo_ext demo_meta_codec demo_dlq_dir DLQ_SEGMENT_BYTES) spoiled_fs =
      (Inr \<lparr>t_dir = demo_dlq_dir, t_active = s, t_active_seq = 1,
         t_sealed = [(0, \<lparr>ss_path = segment_path demo_dlq_dir 0, ss_meta = ?m\<rparr>)], t_max_segment_bytes = DLQ_SEGMENT_BYTES\<rparr>, w1)"
      using rec mk ld op ok(1) spoiled_fs_names by (simp add: seqE_def table_open_def Let_def)
    moreover have "fget w1 (segment_path demo_dlq_dir 0) = fget spoiled_fs (segment_path demo_dlq_dir 0)" "quiet w1"
      using ok(5) q by (auto simp: same_but_def)
    ultimately show ?thesis using ok(4,6) by (intro exI conjI) auto
  next
    case (fault i)
    then show ?thesis using q by simp
  qed
qed

lemma start_hangs_on_bad_frame_witness:
  "pipeline_start demo_penv demo_store demo_root pipeline_config_default False spoiled_fs = None"
proof -
  obtain dlq w1 m where O: "seqE (recover_swap demo_dlq_dir) (\<lambda>_. table_open demo_ext demo_meta_codec demo_dlq_dir DLQ_SEGMENT_BYTES)
      spoiled_fs = (Inr dlq, w1)" "fget w1 (segment_path demo_dlq_dir 0) = fget spoiled_fs (segment_path demo_dlq_dir 0)"
    "quiet w1" "(0, \<lparr>ss_path = segment_path demo_dlq_dir 0, ss_meta = m\<rparr>) \<in> set (t_sealed dlq)"
    "seg_path (t_active dlq) = segment_path demo_dlq_dir 1" "fget w1 (segment_path demo_dlq_dir 1) = Some []"
    using spoiled_opens by blast
  let ?p = "segment_path demo_dlq_dir 1"
  have "\<exists>dlq2 w2. table_flush (dlq, w1) = (Inr (), (dlq2, w2)) \<and> fget w2 (segment_path demo_dlq_dir 0) = fget w1 (segment_path demo_dlq_dir 0)"
    using fs_append_raw_quiet [OF O(3,6), of "seg_buf (t_active dlq)"] O(5)
    by (cases "seg_buf (t_active dlq) = []") (simp_all add: table_flush_def on_active_def seg_flush_def bw_flush_buf_def)
  then obtain dlq2 w2 where F: "table_flush (dlq, w1) = (Inr (), (dlq2, w2))"
    "fget w2 (segment_path demo_dlq_dir 0) = fget w1 (segment_path demo_dlq_dir 0)" by blast
  have dir: "dlq_dir_of demo_root pipeline_config_default = demo_dlq_dir"
    by (simp add: dlq_dir_of_def pipeline_config_default_def demo_dlq_dir_def)
  have env: "se_ext (pe_store demo_penv) = demo_ext" "se_meta (pe_store demo_penv) = demo_meta_codec"
    by (simp_all add: demo_penv_def demo_senv_def)
  have "spoiled_rows demo_ext (frame_with_crc demo_ext 7 (3, ZERO_CHAIN, [1]))"
    unfolding spoiled_rows_def
    by (intro exI [of _ "[]"] exI [of _ 3] exI [of _ ZERO_CHAIN] exI [of _ "[1]"] exI [of _ 7])
      (simp add: demo_ext_def stored_ok_def)
  moreover have "length (frame_with_crc demo_ext 7 (3, ZERO_CHAIN, [1])) + 37 \<le> u64_max_nat"
    by (simp add: frame_with_crc_def frame_def u64_max_nat_def)
  moreover have "table_slices (dlq, w1) = (Inr (slices_of dlq2), (dlq2, w2))" using F by (simp add: table_slices_def seqE_def)
  moreover have "fget w2 (ss_path \<lparr>ss_path = segment_path demo_dlq_dir 0, ss_meta = m\<rparr>) =
      Some (seg_header ZERO_CHAIN @ frame_with_crc demo_ext 7 (3, ZERO_CHAIN, [1]))" using F(2) O(2) spoiled_fs_files(1) by simp
  ultimately show ?thesis
    using start_hangs_on_bad_frame [of demo_root pipeline_config_default demo_penv spoiled_fs dlq w1] O(1,4)
    by (simp add: dir env)
qed

section \<open>One event\<close>




lemma demo_attempts_fresh: "attempts_fresh (wi_draws demo_inputs) 0 3 0 (no_rows\<lparr>sr_else := w\<rparr>)"
proof -
  have "(of_nat (10 * i) :: uid) \<noteq> of_nat (10 * j)" if "i < j" "j \<le> 3" for i j :: nat
  proof -
    have "unat (of_nat (10 * i) :: uid) = 10 * i" "unat (of_nat (10 * j) :: uid) = 10 * j"
      using that by (simp_all only: unat_of_nat) simp_all
    then show ?thesis using that by auto
  qed
  then show ?thesis
    by (auto simp: attempts_fresh_def unused_def demo_inputs_def no_rows_def demo_draws_def)
qed


section \<open>Accounting\<close>

text \<open>
  C4: in every run of the pipeline, whatever the interleaving of emitting threads with the writer:
  the accepted events are, in the order of their acceptance, the events handled, the one being
  handled, those in the channel and those the receiver was dropped with. Every handled event is
  counted as written or as parked, the lost ones are among the parked. The queue gauge counts the
  emits under way, the events accepted and not yet taken, and, after the stop, the dropped ones;
  the rejections by the disk-full latch are counted; and the channel never holds more than its
  capacity.
\<close>

theorem pipeline_accounting:
  assumes "pipe_run P (pipe_of k w) ls p" and "wk_metrics k = metrics_default"
  defines "m \<equiv> wk_metrics (pi_worker p)"
  shows "accepted ls = handled ls @ pending p @ dropped ls \<and>
    pm_writes_ok m + pm_writes_parked m = length (handled ls) \<and> pm_events_lost m \<le> pm_writes_parked m \<and>
    pm_queue_depth m =
      int (size (pi_inflight p) + size (pi_bounced p) + length (pending p) + length (dropped ls)) \<and>
    pm_rejected_disk_full m = rejected ls \<and>
    length (pi_queue p) \<le> max 1 (pc_queue_capacity (wk_cfg k)) \<and> (dropped ls \<noteq> [] \<longrightarrow> pi_phase p = Stopped)"
  using accounted_run [OF assms(1)] assms(2) unfolding m_def accounted_def Let_def by (simp add: metrics_default_def)

lemma demo_emit:
  assumes "pi_phase p \<noteq> Stopped" "pi_handles p" "pi_inflight p = {#}" "has_room p" "\<not> rejects_full p"
  shows "\<exists>p'. pipe_run P p [Begun ev, Accepted ev] p' \<and> pi_queue p' = pi_queue p @ [CEmit ev] \<and> pi_phase p' = pi_phase p \<and>
    pi_worker p' = upd_metrics m_queue_inc (pi_worker p) \<and> pi_fs p' = pi_fs p"
proof -
  obtain p1 where b: "emit_begin ev p = (None, p1)" "p1 = (on_metrics m_queue_inc p)\<lparr>pi_inflight := {#ev#}\<rparr>"
    using assms(3,5) by (simp add: emit_begin_def)
  have r: "has_room p1" using assms(4) by (simp add: has_room_def b(2) on_metrics_def upd_metrics_def)
  obtain p2 where s: "emit_send ev p1 = (None, p2)" "p2 = enqueue (CEmit ev) (p1\<lparr>pi_inflight := {#}\<rparr>)"
    using assms(1) r by (simp add: emit_send_def Let_def b(2) on_metrics_def has_room_def)
  have "pipe_step P p (Begun ev) p1" using assms(2) b(1) by (rule pipe_step.start)
  moreover have "pipe_step P p1 (Accepted ev) p2" by (rule pipe_step.accept [OF _ s(1)]) (simp add: b(2))
  ultimately have "pipe_run P p (([] @ [Begun ev]) @ [Accepted ev]) p2"
    using pipe_run.more [OF pipe_run.more [OF pipe_run.none]] by blast
  then show ?thesis using s(2) b(2) by (intro exI [of _ p2]) (simp add: enqueue_def on_metrics_def)
qed

lemma demo_pipe_facts: "pi_phase (pipe_of demo_worker w) \<noteq> Stopped" "pi_handles (pipe_of demo_worker w)"
  "pi_inflight (pipe_of demo_worker w) = {#}" "has_room (pipe_of demo_worker w)" "\<not> rejects_full (pipe_of demo_worker w)"
  by (simp_all add: pipe_of_def has_room_def rejects_full_def pipeline_config_default_def Let_def)

lemma pipeline_accounting_witness:
  "\<exists>ls p. pipe_run demo_penv (pipe_of demo_worker demo_pipe_fs) ls p \<and> accepted ls = [demo_event] \<and>
     pending p = [demo_event] \<and> pm_queue_depth (wk_metrics (pi_worker p)) = 1"
proof -
  obtain p where p: "pipe_run demo_penv (pipe_of demo_worker demo_pipe_fs) [Begun demo_event, Accepted demo_event] p"
    "pi_worker p = upd_metrics m_queue_inc demo_worker" using demo_emit [OF demo_pipe_facts] by (force simp: pipe_of_def)
  have l: "accepted [Begun demo_event, Accepted demo_event] = [demo_event]" "handled [Begun demo_event, Accepted demo_event] = []"
    "dropped [Begun demo_event, Accepted demo_event] = []" by (simp_all add: accepted_def handled_def dropped_def)
  have "pending p = [demo_event]" using pipeline_accounting [OF p(1)] l by simp
  then show ?thesis using p l(1)
    by (intro exI [of _ "[Begun demo_event, Accepted demo_event]"] exI [of _ p])
      (simp add: upd_metrics_def m_queue_inc_def metrics_default_def)
qed

text \<open>
  C26: the shutdown. When the drain has ended, every event accepted until then has been handled. An
  event that is accepted after it, while the thread syncs the store, is never handled: the channel
  accepts it, and the receiver is dropped with it. No counter and no hook tells of it.
\<close>

theorem shutdown_drains_then_drops:
  assumes "pipe_run P (pipe_of k w) (as @ Drained # bs) p"
  shows "handled as = accepted as \<and> handled bs = [] \<and> accepted bs = emits_of (pi_queue p) @ dropped bs \<and>
    (pi_phase p = Stopped \<longrightarrow> dropped bs = accepted bs)"
proof -
  obtain q q' where R: "pipe_run P (pipe_of k w) as q" "pipe_step P q Drained q'" "pipe_run P q' bs p"
    using pipe_run_split [OF assms] by blast
  have d: "pi_queue q = []" "pi_current q = None" "pi_phase q \<noteq> Stopped" "pi_phase q' = Stopping" "pi_current q' = None"
    using R(2) by (auto elim: pipe_step.cases)
  have A: "accepted as = handled as" "dropped as = []"
    using accounted_run [OF R(1)] d by (auto simp: accounted_def Let_def pending_def)
  have B: "handled bs = []" "pi_current p = None" using after_drain [OF R(3)] d by simp_all
  have "accepted bs = emits_of (pi_queue p) @ dropped bs" "pi_phase p = Stopped \<longrightarrow> pi_queue p = []"
    using accounted_run [OF assms] A B by (simp_all add: accounted_def Let_def pending_def)
  then show ?thesis using A B(1) by auto
qed

lemma shutdown_drains_then_drops_witness:
  "\<exists>as bs p. pipe_run demo_penv (pipe_of demo_worker demo_pipe_fs) (as @ Drained # bs) p \<and> pi_phase p = Stopped \<and>
     accepted bs = [demo_event] \<and> dropped bs = [demo_event] \<and> handled bs = []"
proof -
  let ?p0 = "pipe_of demo_worker demo_pipe_fs"
  let ?p1 = "enqueue CShutdown ?p0"
  let ?p2 = "?p1\<lparr>pi_queue := [], pi_phase := Draining\<rparr>"
  let ?p3 = "?p2\<lparr>pi_phase := Stopping\<rparr>"
  have s1: "pipe_step demo_penv ?p0 (Sent CShutdown) ?p1"
    by (rule pipe_step.send) (use demo_pipe_facts in simp_all)
  have s2: "pipe_step demo_penv ?p1 ShutdownReceived ?p2"
    by (rule pipe_step.shutdown) (simp_all add: enqueue_def pipe_of_def)
  have s3: "pipe_step demo_penv ?p2 Drained ?p3"
    by (rule pipe_step.drained) (simp_all add: enqueue_def pipe_of_def)
  have facts: "pi_phase ?p3 \<noteq> Stopped" "pi_handles ?p3" "pi_inflight ?p3 = {#}" "has_room ?p3" "\<not> rejects_full ?p3"
    using demo_pipe_facts [of demo_pipe_fs]
    by (simp_all add: enqueue_def pipe_of_def has_room_def rejects_full_def Let_def pipeline_config_default_def)
  obtain p4 where p4: "pipe_run demo_penv ?p3 [Begun demo_event, Accepted demo_event] p4"
    "pi_queue p4 = pi_queue ?p3 @ [CEmit demo_event]" "pi_phase p4 = pi_phase ?p3" using demo_emit [OF facts] by blast
  obtain k w where kw: "drop_worker (final_sync (pi_worker p4, pi_fs p4)) = (k, w)" by (metis surj_pair)
  let ?p5 = "p4\<lparr>pi_queue := [], pi_phase := Stopped, pi_worker := k, pi_fs := w\<rparr>"
  let ?bs = "[Begun demo_event, Accepted demo_event, Stop [CEmit demo_event]]"
  have "pipe_step demo_penv p4 (Stop [CEmit demo_event]) ?p5"
    using pipe_step.stop [OF _ kw] p4(2,3) by (simp add: enqueue_def pipe_of_def)
  then have "pipe_run demo_penv ?p3 ([Begun demo_event, Accepted demo_event] @ [Stop [CEmit demo_event]]) ?p5"
    by (rule pipe_run.more [OF p4(1)])
  moreover have "pipe_run demo_penv ?p0 ((([] @ [Sent CShutdown]) @ [ShutdownReceived]) @ [Drained]) ?p3"
    using s1 s2 s3 by (blast intro: pipe_run.intros)
  ultimately have run: "pipe_run demo_penv ?p0 ([Sent CShutdown, ShutdownReceived] @ Drained # ?bs) ?p5"
    using pipe_run_trans by fastforce
  show ?thesis using shutdown_drains_then_drops [OF run] run
    by (intro exI [of _ "[Sent CShutdown, ShutdownReceived]"] exI [of _ ?bs] exI [of _ ?p5]) simp
qed

end
