(* ===== verification/Pipeline_Handle.thy ===== *)
theory Pipeline_Handle
  imports Pipeline_Props
begin

text \<open>
  The calls of \<open>AuditHandle\<close> (\<open>crates/quipu-middleware/src/pipeline.rs\<close>) other than the emit: the
  permission check, the command that is sent, what is made of the reply on the calling thread, and
  the access record left behind. The record is appended without waiting.
\<close>

section \<open>Calls\<close>

datatype call =
    HSnapshot
  | HQuery log_query
  | HQueryPage log_query
  | HCount log_query
  | HQueryAccess access_query
  | HEntityTypes
  | HListEntities string bool
  | HEntityHistory string string
  | HDefineType type_schema
  | HDefineCustomColumn custom_column_def
  | HFlush
  | HRedriveDlq
  | HApplyRetention
  | HDlqLen
  | HVerifyIntegrity

datatype answer =
    AnSnapshot read_snapshot
  | AnViews "log_view list"
  | AnPage query_page
  | AnCount nat
  | AnAccess "access_record list"
  | AnTypes "type_schema list"
  | AnSnaps "target_snapshot list"
  | AnUnit
  | AnRedrive redrive_report
  | AnVerify verify_report

text \<open>The action that is checked; \<open>flush\<close> checks none.\<close>

fun call_action :: "call \<Rightarrow> action option" where
  "call_action HSnapshot = Some AQuery"
| "call_action (HQuery q) = Some AQuery"
| "call_action (HQueryPage q) = Some AQuery"
| "call_action (HCount q) = Some AQuery"
| "call_action (HQueryAccess q) = Some AAdminister"
| "call_action HEntityTypes = Some AQuery"
| "call_action (HListEntities type_name include_deleted) = Some AQuery"
| "call_action (HEntityHistory type_name entity_id) = Some AQuery"
| "call_action (HDefineType schema) = Some AAdminister"
| "call_action (HDefineCustomColumn d) = Some AAdminister"
| "call_action HFlush = None"
| "call_action HRedriveDlq = Some AAdminister"
| "call_action HApplyRetention = Some AAdminister"
| "call_action HDlqLen = Some AAdminister"
| "call_action HVerifyIntegrity = Some AAdminister"

fun call_command :: "role \<Rightarrow> call \<Rightarrow> command" where
  "call_command r HSnapshot = CSnapshot"
| "call_command r (HQuery q) = CSnapshot"
| "call_command r (HQueryPage q) = CSnapshot"
| "call_command r (HCount q) = CSnapshot"
| "call_command r (HQueryAccess q) = CQueryAccess r q"
| "call_command r HEntityTypes = CEntityTypes"
| "call_command r (HListEntities type_name include_deleted) = CListEntities type_name include_deleted"
| "call_command r (HEntityHistory type_name entity_id) = CEntityHistory type_name entity_id"
| "call_command r (HDefineType schema) = CDefineType schema"
| "call_command r (HDefineCustomColumn d) = CDefineCustomColumn d"
| "call_command r HFlush = CFlush"
| "call_command r HRedriveDlq = CRedriveDlq"
| "call_command r HApplyRetention = CApplyRetention"
| "call_command r HDlqLen = CDlqLen"
| "call_command r HVerifyIntegrity = CVerifyIntegrity"

definition handle_request :: "permission_policy \<Rightarrow> role \<Rightarrow> call \<Rightarrow> command mres" where
  "handle_request pol r c =
     (case call_action c of
        None \<Rightarrow> Inr (call_command r c)
      | Some a \<Rightarrow> rbind (handle_check pol r a) (\<lambda>_. Inr (call_command r c)))"

section \<open>Replies\<close>

text \<open>\<open>round_trip\<close> on the reply: without one the worker is gone.\<close>

definition snapshot_reply :: "reply option \<Rightarrow> read_snapshot mres" where
  "snapshot_reply rep = (case rep of Some (RpSnapshot r) \<Rightarrow> r | _ \<Rightarrow> Inl WorkerGone)"

definition types_reply :: "reply option \<Rightarrow> type_schema list mres" where
  "types_reply rep = (case rep of Some (RpTypes r) \<Rightarrow> r | _ \<Rightarrow> Inl WorkerGone)"

definition snaps_reply :: "reply option \<Rightarrow> target_snapshot list mres" where
  "snaps_reply rep = (case rep of Some (RpSnaps r) \<Rightarrow> r | _ \<Rightarrow> Inl WorkerGone)"

definition unit_reply :: "reply option \<Rightarrow> unit mres" where
  "unit_reply rep = (case rep of Some (RpUnit r) \<Rightarrow> r | _ \<Rightarrow> Inl WorkerGone)"

definition redrive_reply :: "reply option \<Rightarrow> redrive_report mres" where
  "redrive_reply rep = (case rep of Some (RpRedrive r) \<Rightarrow> r | _ \<Rightarrow> Inl WorkerGone)"

definition count_reply :: "reply option \<Rightarrow> nat mres" where
  "count_reply rep = (case rep of Some (RpCount r) \<Rightarrow> r | _ \<Rightarrow> Inl WorkerGone)"

definition verify_reply :: "reply option \<Rightarrow> verify_report mres" where
  "verify_reply rep = (case rep of Some (RpVerify r) \<Rightarrow> r | _ \<Rightarrow> Inl WorkerGone)"

definition access_reply :: "reply option \<Rightarrow> access_record list mres" where
  "access_reply rep = (case rep of Some (RpAccess r) \<Rightarrow> r | _ \<Rightarrow> Inl WorkerGone)"

text \<open>The access record of a call: operation, parameters, result count.\<close>

type_synonym access_note = "string \<times> string \<times> nat option"

definition finish_with :: "'a mres \<Rightarrow> ('a \<Rightarrow> answer) \<Rightarrow> ('a \<Rightarrow> access_note option) \<Rightarrow> answer mres \<times> access_note option" where
  "finish_with r f note = (case r of Inl e \<Rightarrow> (Inl e, None) | Inr x \<Rightarrow> (Inr (f x), note x))"

text \<open>The scans of a query run here, on the disk \<open>w\<close> as it is then.\<close>

definition call_finish :: "senv \<Rightarrow> fs \<Rightarrow> call \<Rightarrow> reply option \<Rightarrow> answer mres \<times> access_note option" where
  "call_finish E w c rep =
     (case c of
        HSnapshot \<Rightarrow> finish_with (snapshot_reply rep) AnSnapshot (\<lambda>_. None)
      | HQuery q \<Rightarrow>
          finish_with (rbind (snapshot_reply rep) (\<lambda>sn. core (fst (snapshot_query E w q sn)))) AnViews
            (\<lambda>hits. Some (''query_logs'', summarize_log_query (se_json E) q, Some (length hits)))
      | HQueryPage q \<Rightarrow>
          finish_with (rbind (snapshot_reply rep) (\<lambda>sn. core (fst (snapshot_query_page E w q sn)))) AnPage
            (\<lambda>page. Some (''query_logs'', summarize_log_query (se_json E) q, Some (length (qp_logs page))))
      | HCount q \<Rightarrow>
          finish_with (rbind (snapshot_reply rep) (\<lambda>sn. core (fst (snapshot_count E w q sn)))) AnCount
            (\<lambda>n. Some (''count_logs'', summarize_log_query (se_json E) q, Some n))
      | HQueryAccess q \<Rightarrow> finish_with (access_reply rep) AnAccess (\<lambda>_. None)
      | HEntityTypes \<Rightarrow> finish_with (types_reply rep) AnTypes (\<lambda>_. None)
      | HListEntities type_name include_deleted \<Rightarrow>
          finish_with (snaps_reply rep) AnSnaps
            (\<lambda>snaps. Some (''list_entities'', se_json E (JObject [(''include_deleted'', JBool include_deleted),
               (''type_name'', JString type_name)]), Some (length snaps)))
      | HEntityHistory type_name entity_id \<Rightarrow>
          finish_with (snaps_reply rep) AnSnaps
            (\<lambda>snaps. Some (''entity_history'', se_json E (JObject [(''entity_id'', JString entity_id),
               (''type_name'', JString type_name)]), Some (length snaps)))
      | HDefineType schema \<Rightarrow> finish_with (unit_reply rep) (\<lambda>_. AnUnit) (\<lambda>_. None)
      | HDefineCustomColumn d \<Rightarrow> finish_with (unit_reply rep) (\<lambda>_. AnUnit) (\<lambda>_. None)
      | HFlush \<Rightarrow> finish_with (unit_reply rep) (\<lambda>_. AnUnit) (\<lambda>_. None)
      | HRedriveDlq \<Rightarrow>
          finish_with (redrive_reply rep) AnRedrive (\<lambda>n. Some (''redrive_dlq'', ''{}'', Some (rp_replayed n)))
      | HApplyRetention \<Rightarrow>
          finish_with (count_reply rep) AnCount (\<lambda>n. Some (''apply_retention'', ''{}'', Some n))
      | HDlqLen \<Rightarrow> finish_with (count_reply rep) AnCount (\<lambda>n. Some (''dlq_len'', ''{}'', Some n))
      | HVerifyIntegrity \<Rightarrow>
          finish_with (verify_reply rep) AnVerify
            (\<lambda>report. Some (''verify'', se_json E (JObject [(''ok'', JBool (vr_ok report))]), Some (vr_segments_checked report))))"

text \<open>\<open>u\<close> and \<open>now\<close> belong to the access record.\<close>

definition leave_note :: "uid \<Rightarrow> u64 \<Rightarrow> role \<Rightarrow> access_note option \<Rightarrow> pipe \<Rightarrow> pipe" where
  "leave_note u now r note p =
     (case note of
        None \<Rightarrow> p
      | Some (operation, params, n) \<Rightarrow> handle_record_access (access_new u now r operation params n) p)"

section \<open>A whole call\<close>

text \<open>
  The call on a pipeline with nothing to do: the writer thread takes the command at once. With other
  commands in the queue the reply comes after them; the steps are those of \<open>pipe_step\<close>.
\<close>

definition handle_call ::
  "penv \<Rightarrow> permission_policy \<Rightarrow> cmd_inputs \<Rightarrow> uid \<Rightarrow> u64 \<Rightarrow> role \<Rightarrow> call \<Rightarrow> pipe \<Rightarrow> answer mres \<times> pipe" where
  "handle_call P pol I u now r c p =
     (case handle_request pol r c of
        Inl e \<Rightarrow> (Inl e, p)
      | Inr cmd \<Rightarrow>
          if pi_phase p = Stopped then (Inl WorkerGone, p)
          else case handle P I cmd (pi_worker p, pi_fs p) of
            (rep, (k, w)) \<Rightarrow>
              (case call_finish (pe_store P) w c rep of
                 (ans, note) \<Rightarrow> (ans, leave_note u now r note (p\<lparr>pi_worker := k, pi_fs := w\<rparr>))))"

section \<open>Facts\<close>

lemma call_command_no_emit: "call_command r c \<noteq> CEmit ev" "call_command r c \<noteq> CShutdown"
  "call_command r c \<noteq> CRecordAccess rec"
  by (cases c; simp)+

lemma handle_request_denied:
  "call_action c = Some a \<Longrightarrow> \<not> is_allowed pol r a \<Longrightarrow> handle_request pol r c = Inl (PermissionDenied r a)"
  by (simp add: handle_request_def handle_check_def rbind_def)

lemma handle_request_granted:
  "(\<And>a. call_action c = Some a \<Longrightarrow> is_allowed pol r a) \<Longrightarrow> handle_request pol r c = Inr (call_command r c)"
  by (auto simp: handle_request_def handle_check_def rbind_def split: option.splits)

lemma finish_with_note: "finish_with r f note = (ans, Some t) \<Longrightarrow> \<exists>x. r = Inr x \<and> ans = Inr (f x) \<and> note x = Some t"
  by (auto simp: finish_with_def split: sum.splits)

lemma call_finish_error: "call_finish E w c rep = (Inl e, note) \<Longrightarrow> note = None"
  by (cases c) (auto simp: call_finish_def finish_with_def split: sum.splits)

text \<open>The call is a run of the pipeline: the command is sent, received and handled.\<close>

lemma handle_call_run:
  assumes "handle_request pol r c = Inr cmd" and "pi_phase p = Running" and "pi_current p = None" and "pi_queue p = []"
    and "pi_handles p" and "has_room p" and "handle P I cmd (pi_worker p, pi_fs p) = (rep, (k, w))"
  shows "pipe_run P p [Sent cmd, Received cmd, Handled cmd rep] (p\<lparr>pi_worker := k, pi_fs := w\<rparr>)"
proof -
  have cmd: "cmd = call_command r c"
    using assms(1) by (auto simp: handle_request_def rbind_def split: option.splits sum.splits)
  let ?p1 = "enqueue cmd p"
  let ?p2 = "?p1\<lparr>pi_queue := [], pi_current := Some cmd\<rparr>"
  have "pipe_step P p (Sent cmd) ?p1"
    using assms(2,5,6) call_command_no_emit(1) [of r c] cmd by (intro pipe_step.send) auto
  moreover have "pipe_step P ?p1 (Received cmd) ?p2"
    using assms(2-4) call_command_no_emit(2) [of r c] cmd by (intro pipe_step.recv) (auto simp: enqueue_def)
  moreover have "pipe_step P ?p2 (Handled cmd rep) (?p2\<lparr>pi_current := None, pi_worker := k, pi_fs := w\<rparr>)"
    using assms(7) by (intro pipe_step.handle) (auto simp: enqueue_def)
  moreover have "?p2\<lparr>pi_current := None, pi_worker := k, pi_fs := w\<rparr> = p\<lparr>pi_worker := k, pi_fs := w\<rparr>"
    using assms(3,4) by (simp add: enqueue_def)
  ultimately have "pipe_run P p ((([] @ [Sent cmd]) @ [Received cmd]) @ [Handled cmd rep]) (p\<lparr>pi_worker := k, pi_fs := w\<rparr>)"
    by (metis pipe_run.none pipe_run.more)
  then show ?thesis by simp
qed


section \<open>Gate and record\<close>

text \<open>
  What the calls of a handle promise: the permission check comes first, and who reads or administers
  the store is on record.
\<close>


text \<open>The calls that leave an access record when they succeed. A read of the access log is recorded by the
  writer thread itself.\<close>

definition leaves_note :: "call \<Rightarrow> bool" where
  "leaves_note c \<longleftrightarrow> (case c of HQuery _ \<Rightarrow> True | HQueryPage _ \<Rightarrow> True | HCount _ \<Rightarrow> True | HListEntities _ _ \<Rightarrow> True
     | HEntityHistory _ _ \<Rightarrow> True | HRedriveDlq \<Rightarrow> True | HApplyRetention \<Rightarrow> True | HDlqLen \<Rightarrow> True
     | HVerifyIntegrity \<Rightarrow> True | _ \<Rightarrow> False)"

lemma call_finish_note:
  "call_finish E w c rep = (ans, note) \<Longrightarrow>
     (note = None \<longleftrightarrow> (\<exists>e. ans = Inl e) \<or> \<not> leaves_note c)"
  by (cases c) (auto simp: call_finish_def finish_with_def leaves_note_def split: sum.splits)

lemma leave_note_queue:
  "pi_queue (leave_note u now r note p) = pi_queue p @
     (case note of
        Some (operation, params, n) \<Rightarrow>
          if pi_phase p \<noteq> Stopped \<and> has_room p then [CRecordAccess (access_new u now r operation params n)] else []
      | None \<Rightarrow> [])"
  by (auto simp: leave_note_def handle_record_access_def enqueue_def split: option.splits)

lemma leave_note_same:
  "pi_worker (leave_note u now r note p) = pi_worker p" "pi_fs (leave_note u now r note p) = pi_fs p"
  by (auto simp: leave_note_def handle_record_access_def enqueue_def split: option.splits)



end
