(* ===== verification/Audit_Layer.thy ===== *)
theory Audit_Layer
  imports Pipeline_System Audit_Event
begin

text \<open>
  The auditing proxy (\<open>crates/quipu-middleware/src/layer.rs\<close>): endpoint rules, the capture of bodies,
  the event of an exchange, and the call of the wrapped service.

  The service behind the layer is a function from the request to an error or a response. A body is
  what reading it to its end yields: all its bytes or an error. What the crates \<open>http\<close> and \<open>serde_json\<close>
  do is a parameter.
\<close>

section \<open>Filters\<close>

text \<open>
  The programmable filters of the audit layer (\<open>crates/quipu-middleware/src/filter.rs\<close>). The filters
  are functions of the host. A header map stays the list of its fields; a status is its number.
\<close>


datatype filter_decision = Audit | Skip

record request_info =
  rq_method :: string
  rq_uri :: string
  rq_headers :: headers

record response_info =
  rn_status :: nat
  rn_headers :: headers

type_synonym pre_filter = "request_info \<Rightarrow> filter_decision"

text \<open>A post filter answers with the event it may have changed.\<close>

type_synonym post_filter = "request_info \<Rightarrow> response_info \<Rightarrow> audit_event \<Rightarrow> filter_decision \<times> audit_event"

record filter_set =
  fi_pre :: "pre_filter list"
  fi_post :: "post_filter list"

definition filter_set_new :: filter_set where
  "filter_set_new = \<lparr>fi_pre = [], fi_post = []\<rparr>"

definition add_pre :: "pre_filter \<Rightarrow> filter_set \<Rightarrow> filter_set" where
  "add_pre f fs = fs\<lparr>fi_pre := fi_pre fs @ [f]\<rparr>"

definition add_post :: "post_filter \<Rightarrow> filter_set \<Rightarrow> filter_set" where
  "add_post f fs = fs\<lparr>fi_post := fi_post fs @ [f]\<rparr>"

fun run_pre :: "pre_filter list \<Rightarrow> request_info \<Rightarrow> filter_decision" where
  "run_pre [] req = Audit"
| "run_pre (f # fs) req = (if f req = Skip then Skip else run_pre fs req)"

fun run_post ::
  "post_filter list \<Rightarrow> request_info \<Rightarrow> response_info \<Rightarrow> audit_event \<Rightarrow> filter_decision \<times> audit_event" where
  "run_post [] req res event = (Audit, event)"
| "run_post (f # fs) req res event =
     (case f req res event of
        (Skip, event') \<Rightarrow> (Skip, event')
      | (Audit, event') \<Rightarrow> run_post fs req res event')"

text \<open>The first \<open>Skip\<close> wins; without one every post filter has been applied, in order.\<close>

lemma run_pre_audit: "run_pre fs req = Audit \<longleftrightarrow> (\<forall>f \<in> set fs. f req = Audit)"
  by (induction fs) (auto, metis filter_decision.exhaust)

lemma run_pre_skip: "run_pre fs req = Skip \<longleftrightarrow> (\<exists>f \<in> set fs. f req = Skip)"
  by (induction fs) auto

lemma run_post_append:
  "run_post (fs @ gs) req res event =
     (case run_post fs req res event of
        (Skip, event') \<Rightarrow> (Skip, event')
      | (Audit, event') \<Rightarrow> run_post gs req res event')"
  by (induction fs arbitrary: event) (auto split: prod.splits filter_decision.splits)

lemma run_post_all:
  assumes "\<And>f ev. f \<in> set fs \<Longrightarrow> fst (f req res ev) = Audit"
  shows "run_post fs req res event = (Audit, fold (\<lambda>f ev. snd (f req res ev)) fs event)"
  using assms
proof (induction fs arbitrary: event)
  case (Cons f fs)
  then have "f req res event = (Audit, snd (f req res event))" by (metis list.set_intros(1) prod.collapse)
  with Cons show ?case by (auto split: prod.splits)
qed simp



definition DEFAULT_CAPTURE_LIMIT :: nat where "DEFAULT_CAPTURE_LIMIT = 1024 * 1024"

type_synonym actor_extractor = "request_info \<Rightarrow> string \<times> entity_input"
type_synonym target_extractor = "request_info \<Rightarrow> response_info \<Rightarrow> bytes \<Rightarrow> bytes \<Rightarrow> target_spec list"

section \<open>Endpoint rules\<close>

record endpoint_rule =
  er_method :: "string option"
  er_path_prefix :: string
  er_capture_request_body :: bool
  er_capture_response_body :: bool
  er_max_capture_bytes :: nat
  er_targets :: "target_extractor option"

definition rule_prefix :: "string \<Rightarrow> endpoint_rule" where
  "rule_prefix path_prefix = \<lparr>er_method = None, er_path_prefix = path_prefix, er_capture_request_body = False,
     er_capture_response_body = False, er_max_capture_bytes = DEFAULT_CAPTURE_LIMIT, er_targets = None\<rparr>"

definition rule_method :: "string \<Rightarrow> endpoint_rule \<Rightarrow> endpoint_rule" where
  "rule_method m r = r\<lparr>er_method := Some m\<rparr>"

definition rule_capture_request :: "endpoint_rule \<Rightarrow> endpoint_rule" where
  "rule_capture_request r = r\<lparr>er_capture_request_body := True\<rparr>"

definition rule_capture_response :: "endpoint_rule \<Rightarrow> endpoint_rule" where
  "rule_capture_response r = r\<lparr>er_capture_response_body := True\<rparr>"

definition rule_capture_limit :: "nat \<Rightarrow> endpoint_rule \<Rightarrow> endpoint_rule" where
  "rule_capture_limit n r = r\<lparr>er_max_capture_bytes := n\<rparr>"

definition rule_target_extractor :: "target_extractor \<Rightarrow> endpoint_rule \<Rightarrow> endpoint_rule" where
  "rule_target_extractor f r = r\<lparr>er_targets := Some f\<rparr>"

definition rule_matches :: "endpoint_rule \<Rightarrow> string \<Rightarrow> string \<Rightarrow> bool" where
  "rule_matches r meth path \<longleftrightarrow>
     (case er_method r of None \<Rightarrow> True | Some m \<Rightarrow> m = meth) \<and> prefix (er_path_prefix r) path"

section \<open>Capture\<close>

datatype capture = CaptureNone | CaptureBody bytes | CaptureTooLarge nat

definition capture_measured :: "bytes \<Rightarrow> nat \<Rightarrow> capture" where
  "capture_measured bs limit = (if length bs > limit then CaptureTooLarge (length bs) else CaptureBody bs)"

fun capture_bytes :: "capture \<Rightarrow> bytes" where
  "capture_bytes (CaptureBody b) = b"
| "capture_bytes _ = []"

fun capture_to_json :: "httpext \<Rightarrow> capture \<Rightarrow> json" where
  "capture_to_json H CaptureNone = JNull"
| "capture_to_json H (CaptureTooLarge n) =
     JString (if n > 0 then ''<body of '' @ dec n @ '' bytes exceeds the capture limit>''
              else ''<body exceeds the capture limit>'')"
| "capture_to_json H (CaptureBody b) =
     (if b = [] then JNull
      else case hx_json_parse H b of
             Some v \<Rightarrow> v
           | None \<Rightarrow>
               if utf8_valid b then JString (from_bytes b)
               else JString (''<'' @ dec (length b) @ '' binary bytes>''))"

definition content_length :: "httpext \<Rightarrow> headers \<Rightarrow> nat option" where
  "content_length H hs =
     Option.bind (header_str H hs ''content-length'') parse_u64"

section \<open>The layer\<close>

definition default_actor_extractor :: "httpext \<Rightarrow> actor_extractor" where
  "default_actor_extractor H req =
     (let who = (case header_str H (rq_headers req) ''x-audit-actor'' of
                   Some s \<Rightarrow> s | None \<Rightarrow> ''anonymous'')
      in (''default_actor'', entity_field ''name'' (Text who) (entity_new who)))"

record audit_layer =
  ly_rules :: "endpoint_rule list"
  ly_filters :: filter_set
  ly_actor :: actor_extractor
  ly_targets :: "target_extractor option"

definition layer_new :: "httpext \<Rightarrow> audit_layer" where
  "layer_new H = \<lparr>ly_rules = [], ly_filters = filter_set_new, ly_actor = default_actor_extractor H, ly_targets = None\<rparr>"

definition layer_rules :: "endpoint_rule list \<Rightarrow> audit_layer \<Rightarrow> audit_layer" where
  "layer_rules rules ly = ly\<lparr>ly_rules := rules\<rparr>"

definition layer_filters :: "filter_set \<Rightarrow> audit_layer \<Rightarrow> audit_layer" where
  "layer_filters fs ly = ly\<lparr>ly_filters := fs\<rparr>"

definition layer_actor_extractor :: "actor_extractor \<Rightarrow> audit_layer \<Rightarrow> audit_layer" where
  "layer_actor_extractor f ly = ly\<lparr>ly_actor := f\<rparr>"

definition layer_target_extractor :: "target_extractor \<Rightarrow> audit_layer \<Rightarrow> audit_layer" where
  "layer_target_extractor f ly = ly\<lparr>ly_targets := Some f\<rparr>"

section \<open>An exchange\<close>

datatype body = Body bytes | BrokenBody

record http_request =
  hr_info :: request_info
  hr_body :: body

record http_response =
  hp_info :: response_info
  hp_body :: body

definition empty_response :: "nat \<Rightarrow> http_response" where
  "empty_response status = \<lparr>hp_info = \<lparr>rn_status = status, rn_headers = []\<rparr>, hp_body = Body []\<rparr>"

definition select_rule :: "httpext \<Rightarrow> audit_layer \<Rightarrow> request_info \<Rightarrow> endpoint_rule option" where
  "select_rule H ly info =
     (if ly_rules ly = [] then Some (rule_prefix ''/'')
      else find (\<lambda>r. rule_matches r (rq_method info) (hx_path H (rq_uri info))) (ly_rules ly))"

text \<open>\<open>Inl\<close> is the response the call ends with.\<close>

definition capture_request :: "httpext \<Rightarrow> endpoint_rule \<Rightarrow> http_request \<Rightarrow> http_response + capture \<times> http_request" where
  "capture_request H rule req =
     (if \<not> er_capture_request_body rule then Inr (CaptureNone, req)
      else case content_length H (rq_headers (hr_info req)) of
        Some n \<Rightarrow>
          if n > er_max_capture_bytes rule then Inr (CaptureTooLarge n, req)
          else (case hr_body req of
                  Body bs \<Rightarrow> Inr (capture_measured bs (er_max_capture_bytes rule), req\<lparr>hr_body := Body bs\<rparr>)
                | BrokenBody \<Rightarrow> Inl (empty_response 400))
      | None \<Rightarrow>
          (case hr_body req of
             Body bs \<Rightarrow> Inr (capture_measured bs (er_max_capture_bytes rule), req\<lparr>hr_body := Body bs\<rparr>)
           | BrokenBody \<Rightarrow> Inl (empty_response 400)))"

definition capture_response :: "httpext \<Rightarrow> endpoint_rule \<Rightarrow> http_response \<Rightarrow> http_response + capture \<times> http_response" where
  "capture_response H rule res =
     (let declared = content_length H (rn_headers (hp_info res))
      in if er_capture_response_body rule \<and>
            (case declared of None \<Rightarrow> True | Some n \<Rightarrow> n \<le> er_max_capture_bytes rule)
         then (case hp_body res of
                 Body bs \<Rightarrow> Inr (capture_measured bs (er_max_capture_bytes rule), res\<lparr>hp_body := Body bs\<rparr>)
               | BrokenBody \<Rightarrow> Inl (empty_response 500))
         else Inr (if er_capture_response_body rule
                   then CaptureTooLarge (case declared of None \<Rightarrow> 0 | Some n \<Rightarrow> n) else CaptureNone, res))"

text \<open>The event of the exchange; \<open>now\<close> is the clock.\<close>

definition exchange_content :: "httpext \<Rightarrow> nat \<Rightarrow> capture \<Rightarrow> capture \<Rightarrow> content" where
  "exchange_content H status c1 c2 =
     CJson (hx_json_print H (JObject [(''request'', capture_to_json H c1), (''response'', capture_to_json H c2),
       (''status'', JNumber status)]))"

definition exchange_event ::
  "httpext \<Rightarrow> audit_layer \<Rightarrow> endpoint_rule \<Rightarrow> u64 \<Rightarrow> request_info \<Rightarrow> response_info \<Rightarrow> capture \<Rightarrow> capture \<Rightarrow> audit_event" where
  "exchange_event H ly rule now info res_info c1 c2 =
     (let (actor_type, actor) = ly_actor ly info;
          event = event_new now actor_type actor (rq_method info) (rq_uri info)
                    (exchange_content H (rn_status res_info) c1 c2)
      in case (case er_targets rule of Some f \<Rightarrow> Some f | None \<Rightarrow> ly_targets ly) of
           Some extract \<Rightarrow> event\<lparr>ev_targets := extract info res_info (capture_bytes c1) (capture_bytes c2)\<rparr>
         | None \<Rightarrow> event)"

text \<open>The post filters, and the emit; its failure is only logged.\<close>

definition offer_event :: "audit_layer \<Rightarrow> request_info \<Rightarrow> response_info \<Rightarrow> audit_event \<Rightarrow> pipe \<Rightarrow> pipe" where
  "offer_event ly info res_info event p =
     (case run_post (fi_post (ly_filters ly)) info res_info event of
        (Audit, event') \<Rightarrow> snd (emit_unchecked event' p)
      | (Skip, _) \<Rightarrow> p)"

definition layer_call ::
  "httpext \<Rightarrow> audit_layer \<Rightarrow> (http_request \<Rightarrow> 'e + http_response) \<Rightarrow> u64 \<Rightarrow> http_request \<Rightarrow> pipe
     \<Rightarrow> ('e + http_response) \<times> pipe" where
  "layer_call H ly inner now req p =
     (let info = hr_info req
      in case select_rule H ly info of
           None \<Rightarrow> (inner req, p)
         | Some rule \<Rightarrow>
             if run_pre (fi_pre (ly_filters ly)) info \<noteq> Audit then (inner req, p)
             else case capture_request H rule req of
               Inl res \<Rightarrow> (Inr res, p)
             | Inr (c1, req') \<Rightarrow>
                 (case inner req' of
                    Inl e \<Rightarrow> (Inl e, p)
                  | Inr res \<Rightarrow>
                      (case capture_response H rule res of
                         Inl bad \<Rightarrow> (Inr bad, p)
                       | Inr (c2, res') \<Rightarrow>
                           (Inr res', offer_event ly info (hp_info res)
                              (exchange_event H ly rule now info (hp_info res) c1 c2) p))))"

section \<open>Facts\<close>

lemma content_length_bound: "content_length H hs = Some n \<Longrightarrow> n \<le> u64_max_nat"
  by (auto simp: content_length_def parse_u64_def Let_def bind_eq_Some_conv split: if_splits option.splits)

text \<open>Capturing leaves the message as it was, and keeps at most the limit.\<close>

lemma capture_request_same: "capture_request H rule req = Inr (c, req') \<Longrightarrow> req' = req"
  by (auto simp: capture_request_def split: if_splits option.splits body.splits)

lemma capture_response_same: "capture_response H rule res = Inr (c, res') \<Longrightarrow> res' = res"
  by (auto simp: capture_response_def Let_def split: if_splits option.splits body.splits)

lemma capture_measured_bound: "length (capture_bytes (capture_measured bs n)) \<le> n"
  by (simp add: capture_measured_def)

lemma capture_request_bound:
  "capture_request H rule req = Inr (c, req') \<Longrightarrow> length (capture_bytes c) \<le> er_max_capture_bytes rule"
  by (auto simp: capture_request_def capture_measured_bound split: if_splits option.splits body.splits)

lemma capture_response_bound:
  "capture_response H rule res = Inr (c, res') \<Longrightarrow> length (capture_bytes c) \<le> er_max_capture_bytes rule"
  by (auto simp: capture_response_def capture_measured_bound Let_def split: if_splits option.splits body.splits)

lemma capture_request_intact: "hr_body req \<noteq> BrokenBody \<Longrightarrow> \<exists>c. capture_request H rule req = Inr (c, req)"
  by (cases "hr_body req") (auto simp: capture_request_def split: option.splits)

lemma capture_response_intact: "hp_body res \<noteq> BrokenBody \<Longrightarrow> \<exists>c. capture_response H rule res = Inr (c, res)"
  by (cases "hp_body res") (auto simp: capture_response_def Let_def split: option.splits)

lemma find_split:
  "find P xs = Some x \<Longrightarrow> \<exists>before after. xs = before @ x # after \<and> P x \<and> (\<forall>y \<in> set before. \<not> P y)"
proof (induction xs)
  case (Cons a xs)
  show ?case
  proof (cases "P a")
    case True
    with Cons.prems show ?thesis by (intro exI [of _ "[]"] exI [of _ xs]) simp
  next
    case False
    with Cons obtain before after where "xs = before @ x # after" "P x" "\<forall>y \<in> set before. \<not> P y" by auto
    with False show ?thesis by (intro exI [of _ "a # before"] exI [of _ after]) simp
  qed
qed simp

lemma select_rule_first:
  assumes "select_rule H ly info = Some rule" and "ly_rules ly \<noteq> []"
  shows "\<exists>before after. ly_rules ly = before @ rule # after \<and>
    rule_matches rule (rq_method info) (hx_path H (rq_uri info)) \<and>
    (\<forall>r \<in> set before. \<not> rule_matches r (rq_method info) (hx_path H (rq_uri info)))"
  using assms by (auto simp: select_rule_def dest!: find_split)

lemma select_rule_none:
  "select_rule H ly info = None \<longleftrightarrow> ly_rules ly \<noteq> [] \<and>
     (\<forall>r \<in> set (ly_rules ly). \<not> rule_matches r (rq_method info) (hx_path H (rq_uri info)))"
  by (auto simp: select_rule_def find_None_iff)

end
