(* ===== verification/Layer_Props.thy ===== *)
theory Layer_Props
  imports Audit_Layer Pipeline_Props
begin

text \<open>
  What the auditing proxy promises: the client sees what the service answered, and an exchange is
  audited by exactly one event exactly when the rules and the filters ask for it.
\<close>

section \<open>Lemmas\<close>

definition body_of :: "body \<Rightarrow> bytes" where
  "body_of b = (case b of Body bs \<Rightarrow> bs | BrokenBody \<Rightarrow> [])"

text \<open>What a rule with capture and limit keeps of a body with a declared length.\<close>

definition kept_bytes :: "bool \<Rightarrow> nat \<Rightarrow> nat option \<Rightarrow> bytes \<Rightarrow> bytes" where
  "kept_bytes wanted limit declared bs =
     (if wanted \<and> length bs \<le> limit \<and> (case declared of None \<Rightarrow> True | Some n \<Rightarrow> n \<le> limit) then bs else [])"

lemma capture_measured_bytes:
  "capture_bytes (capture_measured bs limit) = (if length bs \<le> limit then bs else [])"
  by (simp add: capture_measured_def)

lemma capture_request_bytes:
  "capture_request H rule req = Inr (c, req') \<Longrightarrow>
     capture_bytes c = kept_bytes (er_capture_request_body rule) (er_max_capture_bytes rule)
       (content_length H (rq_headers (hr_info req))) (body_of (hr_body req))"
  by (auto simp: capture_request_def kept_bytes_def body_of_def capture_measured_bytes
      split: if_splits option.splits body.splits)

lemma capture_response_bytes:
  "capture_response H rule res = Inr (c, res') \<Longrightarrow>
     capture_bytes c = kept_bytes (er_capture_response_body rule) (er_max_capture_bytes rule)
       (content_length H (rn_headers (hp_info res))) (body_of (hp_body res))"
  by (auto simp: capture_response_def kept_bytes_def body_of_def capture_measured_bytes Let_def
      split: if_splits option.splits body.splits)

lemma exchange_event_fields:
  "ev_occurred_at (exchange_event H ly rule now info ri c1 c2) = now"
  "(ev_actor_type (exchange_event H ly rule now info ri c1 c2),
    ev_actor (exchange_event H ly rule now info ri c1 c2)) = ly_actor ly info"
  "ev_method (exchange_event H ly rule now info ri c1 c2) = rq_method info"
  "ev_url (exchange_event H ly rule now info ri c1 c2) = rq_uri info"
  "ev_content (exchange_event H ly rule now info ri c1 c2) = exchange_content H (rn_status ri) c1 c2"
  "ev_targets (exchange_event H ly rule now info ri c1 c2) =
     (case er_targets rule of
        Some f \<Rightarrow> f info ri (capture_bytes c1) (capture_bytes c2)
      | None \<Rightarrow> (case ly_targets ly of Some f \<Rightarrow> f info ri (capture_bytes c1) (capture_bytes c2) | None \<Rightarrow> []))"
  by (auto simp: exchange_event_def event_new_def Let_def split: prod.splits option.splits)

lemma emit_accepted:
  assumes "pi_phase p \<noteq> Stopped" "has_room p" "\<not> rejects_full p"
  shows "fst (emit_unchecked ev p) = Inr ()"
    and "pi_queue (snd (emit_unchecked ev p)) = pi_queue p @ [CEmit ev]"
    and "pi_inflight (snd (emit_unchecked ev p)) = pi_inflight p"
    and "pm_queue_depth (wk_metrics (pi_worker (snd (emit_unchecked ev p)))) = pm_queue_depth (wk_metrics (pi_worker p)) + 1"
  using assms
  by (simp_all add: emit_unchecked_def emit_begin_def emit_send_def has_room_def on_metrics_def upd_metrics_def
      enqueue_def m_queue_inc_def Let_def)

section \<open>Transparency\<close>


section \<open>What is audited\<close>


section \<open>Witnesses\<close>

definition demo_http :: httpext where
  "demo_http = \<lparr>hx_get = map_of, hx_to_str = (\<lambda>bs. Some (from_bytes bs)), hx_path = (\<lambda>u. u),
     hx_json_parse = (\<lambda>_. None), hx_json_print = (\<lambda>_. ''{}'')\<rparr>"

definition demo_request :: http_request where
  "demo_request = \<lparr>hr_info = \<lparr>rq_method = ''GET'', rq_uri = ''/a'', rq_headers = []\<rparr>, hr_body = Body [1]\<rparr>"


end
