(* ===== verification/Spool.thy ===== *)
theory Spool
  imports Fs Table
begin

text \<open>
  The client's disk spool (\<open>crates/quipu-client/src/spool.rs\<close>): frames of length, checksum and
  payload, the recovery of a torn tail, and the replay with its atomic rewrite.

  \<open>serde_json\<close> on a record is a codec. The transport is a function of what has been sent before: it
  may answer differently to the same request at another time.
\<close>

section \<open>State\<close>

record spool_record =
  so_key :: string
  so_body :: bytes

text \<open>\<open>sp_attached\<close>: whether the open handle is on the file the path names; after a rename it is on the
  replaced file until the path is opened again.\<close>

record spool =
  sp_path :: path
  sp_attached :: bool

record drain_report =
  dp_delivered :: nat
  dp_discarded :: nat
  dp_kept :: nat

definition drain_report_default :: drain_report where
  "drain_report_default = \<lparr>dp_delivered = 0, dp_discarded = 0, dp_kept = 0\<rparr>"

datatype send_outcome = SendAccepted | SendDuplicate | SendRetry string | SendFatal string

type_synonym request = "bytes \<times> string"
type_synonym transport = "request list \<Rightarrow> request \<Rightarrow> send_outcome"

section \<open>Frames\<close>

definition u32_max_nat :: nat where "u32_max_nat = 2 ^ 32 - 1"

definition spool_frame :: "ext \<Rightarrow> bytes \<Rightarrow> bytes" where
  "spool_frame X payload = le32 (word_of_nat (length payload)) @ le32 (x_crc32 X payload) @ payload"

text \<open>The payload of a record, or the error that serializing it or its length gives.\<close>

definition spool_payload :: "spool_record codec \<Rightarrow> spool_record \<Rightarrow> bytes res" where
  "spool_payload C r = rbind (c_ser C r) (\<lambda>payload.
     if length payload > u32_max_nat then Inl (Io (IoError KInvalidInput None)) else Inr payload)"

text \<open>The reading of one frame, common to the two loops over a file: the payload and what follows.\<close>

definition spool_next :: "ext \<Rightarrow> bytes \<Rightarrow> (bytes \<times> bytes) option" where
  "spool_next X bs =
     (if length bs < 8 then None
      else
        let len = unat (from_le32 (take 4 bs)); crc = from_le32 (take 4 (drop 4 bs));
            payload = take len (drop 8 bs)
        in if length (drop 8 bs) < len then None
           else if x_crc32 X payload \<noteq> crc then None
           else Some (payload, drop len (drop 8 bs)))"

lemma spool_next_shorter: "spool_next X bs = Some (p, rest) \<Longrightarrow> length rest < length bs"
  by (auto simp: spool_next_def Let_def split: if_splits)

function spool_records :: "ext \<Rightarrow> spool_record codec \<Rightarrow> bytes \<Rightarrow> spool_record list" where
  "spool_records X C bs =
     (case spool_next X bs of
        None \<Rightarrow> []
      | Some (payload, rest) \<Rightarrow>
          (case c_de C payload of
             Inr r \<Rightarrow> r # spool_records X C rest
           | Inl _ \<Rightarrow> []))"
  by pat_completeness auto
termination
  by (relation "measure (\<lambda>(X, C, bs). length bs)") (auto dest: spool_next_shorter)

function whole_records_len :: "ext \<Rightarrow> bytes \<Rightarrow> nat" where
  "whole_records_len X bs =
     (case spool_next X bs of
        None \<Rightarrow> 0
      | Some (payload, rest) \<Rightarrow> (8 + length payload) + whole_records_len X rest)"
  by pat_completeness auto
termination
  by (relation "measure (\<lambda>(X, bs). length bs)") (auto dest: spool_next_shorter)

declare spool_records.simps [simp del] whole_records_len.simps [simp del]

section \<open>Operations\<close>

definition spool_open :: "ext \<Rightarrow> path \<Rightarrow> (fs, error, spool) sop" where
  "spool_open X p =
     seqE (if p = [] then retE () else fs_create_dir_all (butlast p)) (\<lambda>_.
     seqE (fs_open_create p) (\<lambda>_ w.
       seqE (fs_truncate p (whole_records_len X (case fget w p of None \<Rightarrow> [] | Some bs \<Rightarrow> bs))) (\<lambda>_.
       retE \<lparr>sp_path = p, sp_attached = True\<rparr>) w))"

text \<open>Writing and syncing through the handle; on a replaced file the data is out of reach.\<close>

definition spool_write :: "spool \<Rightarrow> bytes \<Rightarrow> (fs, error, unit) sop" where
  "spool_write sp bs = (if sp_attached sp then fs_append_all (sp_path sp) bs else fs_op (\<lambda>w. w))"

definition spool_append :: "ext \<Rightarrow> spool_record codec \<Rightarrow> spool \<Rightarrow> spool_record \<Rightarrow> (fs, error, unit) sop" where
  "spool_append X C sp r =
     seqE (liftE (spool_payload C r)) (\<lambda>payload.
     seqE (spool_write sp (spool_frame X payload)) (\<lambda>_.
     fs_sync (sp_path sp)))"

definition spool_read_all :: "ext \<Rightarrow> spool_record codec \<Rightarrow> spool \<Rightarrow> fs \<Rightarrow> spool_record list res" where
  "spool_read_all X C sp w = rbind (fs_read (sp_path sp) w) (\<lambda>bs. Inr (spool_records X C bs))"

definition spool_length :: "ext \<Rightarrow> spool_record codec \<Rightarrow> spool \<Rightarrow> fs \<Rightarrow> nat res" where
  "spool_length X C sp w = rbind (spool_read_all X C sp w) (\<lambda>rs. Inr (length rs))"

definition spool_is_empty :: "ext \<Rightarrow> spool_record codec \<Rightarrow> spool \<Rightarrow> fs \<Rightarrow> bool res" where
  "spool_is_empty X C sp w = rbind (spool_length X C sp w) (\<lambda>n. Inr (n = 0))"

section \<open>Replay\<close>

text \<open>The loop of \<open>drain\<close>: the report, the records to keep, and all that has been sent.\<close>

fun drain_loop ::
  "transport \<Rightarrow> spool_record list \<Rightarrow> bool \<Rightarrow> request list \<Rightarrow> drain_report \<Rightarrow> drain_report \<times> spool_record list \<times> request list" where
  "drain_loop net [] stalled sent rep = (rep, [], sent)"
| "drain_loop net (r # rs) stalled sent rep =
     (let keep = (\<lambda>sent'. case drain_loop net rs True sent' (rep\<lparr>dp_kept := dp_kept rep + 1\<rparr>) of
            (rep', survivors, sent'') \<Rightarrow> (rep', r # survivors, sent''));
          req = (so_body r, so_key r)
      in if stalled then keep sent
         else case net sent req of
           SendAccepted \<Rightarrow> drain_loop net rs False (sent @ [req]) (rep\<lparr>dp_delivered := dp_delivered rep + 1\<rparr>)
         | SendDuplicate \<Rightarrow> drain_loop net rs False (sent @ [req]) (rep\<lparr>dp_delivered := dp_delivered rep + 1\<rparr>)
         | SendFatal _ \<Rightarrow> drain_loop net rs False (sent @ [req]) (rep\<lparr>dp_discarded := dp_discarded rep + 1\<rparr>)
         | SendRetry _ \<Rightarrow> keep (sent @ [req]))"

definition write_record :: "ext \<Rightarrow> spool_record codec \<Rightarrow> path \<Rightarrow> spool_record \<Rightarrow> (fs, error, unit) sop" where
  "write_record X C p r =
     seqE (liftE (spool_payload C r)) (\<lambda>payload.
     seqE (fs_append_all p (le32 (word_of_nat (length payload)))) (\<lambda>_.
     seqE (fs_append_all p (le32 (x_crc32 X payload))) (\<lambda>_.
     fs_append_all p payload)))"

definition spool_tmp :: "path \<Rightarrow> path" where
  "spool_tmp p = with_extension p ''spool.tmp''"

definition write_survivors :: "ext \<Rightarrow> spool_record codec \<Rightarrow> path \<Rightarrow> spool_record list \<Rightarrow> (fs, error, unit) sop" where
  "write_survivors X C p rs =
     seqE (fs_create_truncated (spool_tmp p)) (\<lambda>_.
     seqE (forE rs (write_record X C (spool_tmp p))) (\<lambda>_.
     seqE (fs_sync (spool_tmp p)) (\<lambda>_.
     fs_rename_file (spool_tmp p) p)))"

text \<open>\<open>rewrite\<close>: when the path cannot be opened again the handle stays on the replaced file.\<close>

definition spool_rewrite ::
  "ext \<Rightarrow> spool_record codec \<Rightarrow> spool_record list \<Rightarrow> (spool \<times> fs, error, unit) sop" where
  "spool_rewrite X C rs = (\<lambda>(sp, w).
     case write_survivors X C (sp_path sp) rs w of
       (Inl e, w1) \<Rightarrow> (Inl e, (sp, w1))
     | (Inr _, w1) \<Rightarrow>
         (case fs_op (\<lambda>w. w) w1 of
            (Inl e, w2) \<Rightarrow> (Inl e, (sp\<lparr>sp_attached := False\<rparr>, w2))
          | (Inr _, w2) \<Rightarrow> (Inr (), (sp\<lparr>sp_attached := True\<rparr>, w2))))"

definition spool_drain ::
  "ext \<Rightarrow> spool_record codec \<Rightarrow> transport \<Rightarrow> request list \<Rightarrow> spool \<times> fs
     \<Rightarrow> (error + drain_report) \<times> request list \<times> spool \<times> fs" where
  "spool_drain X C net sent = (\<lambda>(sp, w).
     case spool_read_all X C sp w of
       Inl e \<Rightarrow> (Inl e, sent, (sp, w))
     | Inr rs \<Rightarrow>
         (case drain_loop net rs False sent drain_report_default of
            (rep, survivors, sent') \<Rightarrow>
              (case spool_rewrite X C survivors (sp, w) of
                 (Inl e, spw) \<Rightarrow> (Inl e, sent', spw)
               | (Inr _, spw) \<Rightarrow> (Inr rep, sent', spw))))"


text \<open>
  Facts about the client's spool: the frames of a file, torn tails, what a failed write leaves, and
  the replay loop.
\<close>


section \<open>Frames\<close>

definition framed :: "ext \<Rightarrow> bytes list \<Rightarrow> bytes" where
  "framed X ps = concat (map (spool_frame X) ps)"

lemma framed_simps [simp]:
  "framed X [] = []" "framed X (p # ps) = spool_frame X p @ framed X ps" "framed X (ps @ qs) = framed X ps @ framed X qs"
  by (simp_all add: framed_def)

lemma length_spool_frame [simp]: "length (spool_frame X p) = 8 + length p"
  by (simp add: spool_frame_def)

lemma unat_length_u32: "n \<le> u32_max_nat \<Longrightarrow> unat (word_of_nat n :: u32) = n"
  by (simp add: u32_max_nat_def unat_of_nat)

lemma spool_next_frame:
  assumes "length p \<le> u32_max_nat"
  shows "spool_next X (spool_frame X p @ rest) = Some (p, rest)"
proof -
  have "take 4 (spool_frame X p @ rest) = le32 (word_of_nat (length p))"
    "take 4 (drop 4 (spool_frame X p @ rest)) = le32 (x_crc32 X p)" "drop 8 (spool_frame X p @ rest) = p @ rest"
    by (simp_all add: spool_frame_def)
  then show ?thesis using unat_length_u32 [OF assms]
    by (simp add: spool_next_def Let_def)
qed

text \<open>A tail that is not a whole frame: too short for a header, or for the length its header announces.\<close>

definition torn_tail :: "bytes \<Rightarrow> bool" where
  "torn_tail t \<longleftrightarrow> length t < 8 \<or> length t < 8 + unat (from_le32 (take 4 t))"

lemma torn_tail_Nil [simp]: "torn_tail []"
  by (simp add: torn_tail_def)

lemma spool_next_torn: "torn_tail t \<Longrightarrow> spool_next X t = None"
  by (auto simp: torn_tail_def spool_next_def Let_def)

lemma torn_prefix:
  assumes "k < 8 + length p" and "length p \<le> u32_max_nat"
  shows "torn_tail (take k (spool_frame X p))"
proof (cases "k < 8")
  case True
  then show ?thesis by (simp add: torn_tail_def)
next
  case False
  then have "take 4 (take k (spool_frame X p)) = le32 (word_of_nat (length p))"
    by (simp add: spool_frame_def min_def)
  then show ?thesis using assms unat_length_u32 [OF assms(2)] by (simp add: torn_tail_def)
qed

lemma torn_prefix_more:
  assumes "8 \<le> k" "length q + k < 8 + length p" and "length p \<le> u32_max_nat"
  shows "torn_tail (take k (spool_frame X p) @ q)"
proof -
  have "take 4 (take k (spool_frame X p) @ q) = le32 (word_of_nat (length p))"
    using assms by (simp add: spool_frame_def min_def)
  then show ?thesis using assms unat_length_u32 [OF assms(3)] by (simp add: torn_tail_def)
qed

lemma whole_records_len_framed:
  assumes "\<forall>p \<in> set ps. length p \<le> u32_max_nat" and "torn_tail t"
  shows "whole_records_len X (framed X ps @ t) = length (framed X ps)"
  using assms
proof (induction ps)
  case Nil
  then show ?case by (simp add: whole_records_len.simps spool_next_torn)
next
  case (Cons p ps)
  then show ?case by (subst whole_records_len.simps) (simp add: spool_next_frame)
qed

section \<open>Records in a file\<close>

definition payloads :: "spool_record codec \<Rightarrow> spool_record list \<Rightarrow> bytes list \<Rightarrow> bool" where
  "payloads C rs ps \<longleftrightarrow> list_all2 (\<lambda>r p. spool_payload C r = Inr p) rs ps"

lemma payloads_simps [simp]:
  "payloads C [] ps \<longleftrightarrow> ps = []"
  "payloads C (r # rs) ps \<longleftrightarrow> (\<exists>p qs. ps = p # qs \<and> spool_payload C r = Inr p \<and> payloads C rs qs)"
  by (auto simp: payloads_def list_all2_Cons1)

lemma payloads_snoc: "payloads C rs ps \<Longrightarrow> spool_payload C r = Inr p \<Longrightarrow> payloads C (rs @ [r]) (ps @ [p])"
  by (simp add: payloads_def list_all2_appendI)

lemma spool_payload_bound: "spool_payload C r = Inr p \<Longrightarrow> length p \<le> u32_max_nat"
  by (auto simp: spool_payload_def rbind_def split: sum.splits if_splits)

lemma payloads_bound: "payloads C rs ps \<Longrightarrow> \<forall>p \<in> set ps. length p \<le> u32_max_nat"
  by (induction rs arbitrary: ps) (auto dest: spool_payload_bound)

lemma spool_payload_decodes: "codec_ok C \<Longrightarrow> spool_payload C r = Inr p \<Longrightarrow> c_de C p = Inr r"
  by (auto simp: spool_payload_def rbind_def codec_ok_def split: sum.splits if_splits)

lemma spool_records_framed:
  assumes "codec_ok C" "payloads C rs ps" "torn_tail t"
  shows "spool_records X C (framed X ps @ t) = rs"
  using assms(2)
proof (induction rs arbitrary: ps)
  case Nil
  then show ?case using assms(3) by (simp add: spool_records.simps spool_next_torn)
next
  case (Cons r rs)
  then obtain p qs where ps: "ps = p # qs" "spool_payload C r = Inr p" "payloads C rs qs" by auto
  have "spool_next X (framed X ps @ t) = Some (p, framed X qs @ t)"
    using spool_next_frame [OF spool_payload_bound [OF ps(2)], of X "framed X qs @ t"] ps(1) by simp
  then show ?case using spool_payload_decodes [OF assms(1) ps(2)] Cons.IH [OF ps(3)]
    by (subst spool_records.simps) simp
qed

text \<open>The spool holds the records, with a tail behind them.\<close>

definition spool_holds :: "ext \<Rightarrow> spool_record codec \<Rightarrow> spool_record list \<Rightarrow> bytes \<Rightarrow> spool \<Rightarrow> fs \<Rightarrow> bool" where
  "spool_holds X C rs t sp w \<longleftrightarrow>
     sp_attached sp \<and> (\<exists>ps. payloads C rs ps \<and> fget w (sp_path sp) = Some (framed X ps @ t))"

lemma spool_holds_read:
  "codec_ok C \<Longrightarrow> spool_holds X C rs t sp w \<Longrightarrow> torn_tail t \<Longrightarrow> spool_read_all X C sp w = Inr rs"
  by (auto simp: spool_holds_def spool_read_all_def fs_read_def spool_records_framed)

lemma fs_op_fault: "fs_op f w = (Inl e, w') \<Longrightarrow> fget w' p = fget w p"
  by (auto simp: fs_op_def next_fault_def split: list.splits fault.splits prod.splits)

lemma fs_op_done:
  assumes "fs_op f w = (Inr u, w')"
  obtains w0 where "w' = f w0" and "\<And>p. fget w0 p = fget w p"
proof -
  have "\<exists>fl. w' = f (w\<lparr>fs_faults := fl\<rparr>)"
    using assms by (auto simp: fs_op_def next_fault_def split: list.splits fault.splits prod.splits)
      (metis fs.surjective fs.update_convs(3))
  with that show thesis by auto
qed

lemma fs_op_same: "fs_op (\<lambda>w. w) w = (r, w') \<Longrightarrow> fget w' p = fget w p"
  by (cases r) (auto dest: fs_op_fault elim!: fs_op_done)

lemma fs_append_all_result:
  assumes "fs_append_all p bs w = (r, w')" and "fget w p = Some old"
  shows "\<exists>k \<le> length bs. fget w' p = Some (old @ take k bs) \<and> (\<forall>e. r = Inr e \<longrightarrow> k = length bs) \<and>
    (\<forall>q. q \<noteq> p \<longrightarrow> fget w' q = fget w q)"
proof -
  obtain fl w0 where nf: "next_fault w = (fl, w0)" by (cases "next_fault w")
  then have same: "fget w0 q = fget w q" for q
    by (auto simp: next_fault_def split: list.splits fault.splits)
  show ?thesis
  proof (cases fl)
    case None
    then show ?thesis using assms nf same
      by (auto simp: fs_append_all_def fs_append_raw_def Let_def intro!: exI [of _ "length bs"])
  next
    case (Some en)
    then obtain e n where "fl = Some (e, n)" by (cases en) auto
    then show ?thesis using assms nf same
      by (auto simp: fs_append_all_def fs_append_raw_def Let_def intro!: exI [of _ "min n (length bs)"])
  qed
qed

section \<open>Appending and opening\<close>

lemma spool_append_effect:
  assumes h: "spool_holds X C rs [] sp w" and run: "spool_append X C sp r w = (res, w')"
  shows "(res \<noteq> Inr () \<and> w' = w \<and> (\<exists>e. spool_payload C r = Inl e \<and> res = Inl e)) \<or>
    (\<exists>p k. spool_payload C r = Inr p \<and> k \<le> 8 + length p \<and> (res = Inr () \<longrightarrow> k = 8 + length p) \<and>
       spool_holds X C rs (take k (spool_frame X p)) sp w')"
proof (cases "spool_payload C r")
  case (Inl e)
  then show ?thesis using run by (auto simp: spool_append_def seqE_def)
next
  case (Inr p)
  obtain ps where ps: "payloads C rs ps" "fget w (sp_path sp) = Some (framed X ps)" and a: "sp_attached sp"
    using h by (auto simp: spool_holds_def)
  obtain r1 w1 where wr: "fs_append_all (sp_path sp) (spool_frame X p) w = (r1, w1)" by (metis surj_pair)
  obtain k where k: "k \<le> 8 + length p" "fget w1 (sp_path sp) = Some (framed X ps @ take k (spool_frame X p))"
      "\<forall>e. r1 = Inr e \<longrightarrow> k = 8 + length p"
    using fs_append_all_result [OF wr ps(2)] by auto
  have "fget w' (sp_path sp) = fget w1 (sp_path sp) \<and> (\<forall>e. r1 = Inl e \<longrightarrow> res = Inl e)"
  proof (cases r1)
    case (Inl e)
    then show ?thesis using run wr a Inr by (simp add: spool_append_def spool_write_def seqE_def)
  next
    case R: (Inr u)
    then have "fs_op (\<lambda>w. w) w1 = (res, w')" using run wr a Inr
      by (simp add: spool_append_def spool_write_def fs_sync_def seqE_def)
    from fs_op_same [OF this] R show ?thesis by simp
  qed
  then have f: "fget w' (sp_path sp) = fget w1 (sp_path sp)" "\<And>e. r1 = Inl e \<Longrightarrow> res = Inl e" by auto
  have "res = Inr () \<longrightarrow> k = 8 + length p" using f(2) k(3) by (cases r1) auto
  moreover have "spool_holds X C rs (take k (spool_frame X p)) sp w'"
    unfolding spool_holds_def using a ps(1) f(1) k(2) by auto
  ultimately show ?thesis using Inr k(1) by blast
qed

lemma spool_holds_whole:
  "spool_payload C r = Inr p \<Longrightarrow> spool_holds X C rs (spool_frame X p) sp w \<Longrightarrow> spool_holds X C (rs @ [r]) [] sp w"
  unfolding spool_holds_def by (metis append_Nil2 framed_simps payloads_snoc)

text \<open>Opening drops a torn tail.\<close>

lemma spool_open_recovers:
  assumes "payloads C rs ps" "fget w p = Some (framed X ps @ t)" "torn_tail t"
    and run: "spool_open X p w = (Inr sp, w')"
  shows "spool_holds X C rs [] sp w' \<and> sp_path sp = p"
proof -
  have len: "whole_records_len X (framed X ps @ t) = length (framed X ps)"
    using whole_records_len_framed [OF payloads_bound [OF assms(1)] assms(3)] .
  obtain u1 w1 where o1: "(if p = [] then retE () else fs_create_dir_all (butlast p)) w = (Inr u1, w1)"
    using run by (auto simp: spool_open_def seqE_def split: prod.splits sum.splits)
  then have f1: "fget w1 p = fget w p"
    by (auto simp: fs_create_dir_all_def retE_def split: if_splits elim!: fs_op_done)
  obtain u2 w2 where o2: "fs_open_create p w1 = (Inr u2, w2)"
    using run o1 by (auto simp: spool_open_def seqE_def split: prod.splits sum.splits)
  then have f2: "fget w2 p = fget w p"
    using f1 assms(2) by (auto simp: fs_open_create_def elim!: fs_op_done)
  obtain u3 w3 where o3: "fs_truncate p (length (framed X ps)) w2 = (Inr u3, w3)"
    using run o1 o2 f2 assms(2) len by (auto simp: spool_open_def seqE_def split: prod.splits sum.splits)
  then have "fget w3 p = Some (framed X ps)"
    using f2 assms(2) by (auto simp: fs_truncate_def elim!: fs_op_done)
  moreover have "sp = \<lparr>sp_path = p, sp_attached = True\<rparr>" "w' = w3"
    using run o1 o2 o3 f2 assms(2) len by (auto simp: spool_open_def seqE_def)
  ultimately show ?thesis using assms(1) by (auto simp: spool_holds_def)
qed

section \<open>The replay loop\<close>

definition req_of :: "spool_record \<Rightarrow> request" where
  "req_of r = (so_body r, so_key r)"

definition is_retry :: "send_outcome \<Rightarrow> bool" where
  "is_retry x \<longleftrightarrow> (case x of SendRetry _ \<Rightarrow> True | _ \<Rightarrow> False)"

definition is_fatal :: "send_outcome \<Rightarrow> bool" where
  "is_fatal x \<longleftrightarrow> (case x of SendFatal _ \<Rightarrow> True | _ \<Rightarrow> False)"

lemma outcome_simps [simp]:
  "is_retry (SendRetry m)" "\<not> is_retry SendAccepted" "\<not> is_retry SendDuplicate" "\<not> is_retry (SendFatal m)"
  "is_fatal (SendFatal m)" "\<not> is_fatal SendAccepted" "\<not> is_fatal SendDuplicate" "\<not> is_fatal (SendRetry m)"
  by (simp_all add: is_retry_def is_fatal_def)

text \<open>What the transport answered to a run of requests.\<close>

fun answers :: "transport \<Rightarrow> request list \<Rightarrow> request list \<Rightarrow> send_outcome list" where
  "answers net sent [] = []"
| "answers net sent (q # qs) = net sent q # answers net (sent @ [q]) qs"

lemma length_answers [simp]: "length (answers net sent qs) = length qs"
  by (induction qs arbitrary: sent) auto

lemma drain_loop_stalled:
  "drain_loop net rs True sent rep = (rep\<lparr>dp_kept := dp_kept rep + length rs\<rparr>, rs, sent)"
  by (induction rs arbitrary: rep) (auto simp: Let_def)

lemma drain_loop_correct:
  assumes "drain_loop net rs False sent rep = (rep', survivors, sent')"
  shows "\<exists>gone. rs = gone @ survivors \<and>
    (\<forall>x \<in> set (answers net sent (map req_of gone)). \<not> is_retry x) \<and>
    (survivors \<noteq> [] \<longrightarrow> is_retry (net (sent @ map req_of gone) (req_of (hd survivors)))) \<and>
    sent' = sent @ map req_of gone @ (if survivors = [] then [] else [req_of (hd survivors)]) \<and>
    dp_discarded rep' = dp_discarded rep + length (filter is_fatal (answers net sent (map req_of gone))) \<and>
    dp_delivered rep' + dp_discarded rep' = dp_delivered rep + dp_discarded rep + length gone \<and>
    dp_kept rep' = dp_kept rep + length survivors"
  using assms
proof (induction rs arbitrary: sent rep)
  case Nil
  then show ?case by simp
next
  case (Cons r rs)
  let ?q = "(so_body r, so_key r)"
  have q: "req_of r = ?q" by (simp add: req_of_def)
  show ?case
  proof (cases "net sent ?q")
    case (SendRetry m)
    with Cons.prems q show ?thesis
      by (auto simp: drain_loop_stalled Let_def intro!: exI [of _ "[]"])
  next
    case SendAccepted
    with Cons.prems Cons.IH [of "sent @ [?q]" "rep\<lparr>dp_delivered := dp_delivered rep + 1\<rparr>"]
    obtain gone where "rs = gone @ survivors" and G: "\<forall>x \<in> set (answers net (sent @ [?q]) (map req_of gone)). \<not> is_retry x"
      "survivors \<noteq> [] \<longrightarrow> is_retry (net ((sent @ [?q]) @ map req_of gone) (req_of (hd survivors)))"
      "sent' = (sent @ [?q]) @ map req_of gone @ (if survivors = [] then [] else [req_of (hd survivors)])"
      "dp_discarded rep' = dp_discarded rep + length (filter is_fatal (answers net (sent @ [?q]) (map req_of gone)))"
      "dp_delivered rep' + dp_discarded rep' = dp_delivered rep + 1 + dp_discarded rep + length gone"
      "dp_kept rep' = dp_kept rep + length survivors"
      by (auto simp: Let_def)
    then show ?thesis using SendAccepted q
      by (intro exI [of _ "r # gone"]) simp
  next
    case SendDuplicate
    with Cons.prems Cons.IH [of "sent @ [?q]" "rep\<lparr>dp_delivered := dp_delivered rep + 1\<rparr>"]
    obtain gone where "rs = gone @ survivors" and G: "\<forall>x \<in> set (answers net (sent @ [?q]) (map req_of gone)). \<not> is_retry x"
      "survivors \<noteq> [] \<longrightarrow> is_retry (net ((sent @ [?q]) @ map req_of gone) (req_of (hd survivors)))"
      "sent' = (sent @ [?q]) @ map req_of gone @ (if survivors = [] then [] else [req_of (hd survivors)])"
      "dp_discarded rep' = dp_discarded rep + length (filter is_fatal (answers net (sent @ [?q]) (map req_of gone)))"
      "dp_delivered rep' + dp_discarded rep' = dp_delivered rep + 1 + dp_discarded rep + length gone"
      "dp_kept rep' = dp_kept rep + length survivors"
      by (auto simp: Let_def)
    then show ?thesis using SendDuplicate q
      by (intro exI [of _ "r # gone"]) simp
  next
    case (SendFatal m)
    with Cons.prems Cons.IH [of "sent @ [?q]" "rep\<lparr>dp_discarded := dp_discarded rep + 1\<rparr>"]
    obtain gone where "rs = gone @ survivors" and G: "\<forall>x \<in> set (answers net (sent @ [?q]) (map req_of gone)). \<not> is_retry x"
      "survivors \<noteq> [] \<longrightarrow> is_retry (net ((sent @ [?q]) @ map req_of gone) (req_of (hd survivors)))"
      "sent' = (sent @ [?q]) @ map req_of gone @ (if survivors = [] then [] else [req_of (hd survivors)])"
      "dp_discarded rep' = dp_discarded rep + 1 + length (filter is_fatal (answers net (sent @ [?q]) (map req_of gone)))"
      "dp_delivered rep' + dp_discarded rep' = dp_delivered rep + (dp_discarded rep + 1) + length gone"
      "dp_kept rep' = dp_kept rep + length survivors"
      by (auto simp: Let_def)
    then show ?thesis using SendFatal q
      by (intro exI [of _ "r # gone"]) simp
  qed
qed

section \<open>The rewrite\<close>

lemma spool_tmp_other: "p \<noteq> [] \<Longrightarrow> spool_tmp p \<noteq> p"
proof
  assume ne: "p \<noteq> []" and eq: "spool_tmp p = p"
  let ?n = "last p"
  have n: "file_stem ?n @ ''.spool.tmp'' = ?n"
    using ne eq by (metis spool_tmp_def with_extension_def append_Cons append_Nil last_snoc)
  have "file_stem ?n \<noteq> ?n"
  proof
    assume "file_stem ?n = ?n"
    with n have "?n @ ''.spool.tmp'' = ?n" by simp
    then show False by simp
  qed
  then have s: "file_stem ?n = rev (tl (dropWhile (\<lambda>c. c \<noteq> CHR ''.'') (rev ?n)))"
    by (auto simp: file_stem_def Let_def split: if_splits)
  have r: "rev ?n = ''pmt.loops.'' @ rev (file_stem ?n)" by (subst n [symmetric]) simp
  have "tl (dropWhile (\<lambda>c. c \<noteq> CHR ''.'') (rev ?n)) = ''loops.'' @ rev (file_stem ?n)" by (subst r) simp
  with s have "file_stem ?n = file_stem ?n @ ''.spool''" by simp
  then show False by simp
qed

text \<open>An operation that only touches one file.\<close>

definition only_file :: "path \<Rightarrow> (fs, error, 'a) sop \<Rightarrow> bool" where
  "only_file p m \<longleftrightarrow> (\<forall>w r w'. m w = (r, w') \<longrightarrow> (\<forall>q. q \<noteq> p \<longrightarrow> fget w' q = fget w q))"

lemma only_file_seqE: "only_file p m \<Longrightarrow> (\<And>x. only_file p (f x)) \<Longrightarrow> only_file p (seqE m f)"
  unfolding only_file_def seqE_def
  by (auto split: prod.splits sum.splits)

lemma only_file_forE: "(\<And>x. only_file p (f x)) \<Longrightarrow> only_file p (forE xs f)"
  by (induction xs) (auto intro!: only_file_seqE simp: only_file_def [of p "retE ()"] retE_def)

lemma only_file_liftE: "only_file p (liftE r)"
  by (auto simp: only_file_def liftE_def)

lemma only_file_append_all: "only_file p (fs_append_all p bs)"
  unfolding only_file_def
proof (intro allI impI)
  fix w r w' q assume run: "fs_append_all p bs w = (r, w')" and q: "q \<noteq> p"
  obtain fl w0 where nf: "next_fault w = (fl, w0)" by (cases "next_fault w")
  then have same: "fget w0 q = fget w q"
    by (auto simp: next_fault_def split: list.splits fault.splits)
  show "fget w' q = fget w q"
    using run nf q same by (auto simp: fs_append_all_def fs_append_raw_def Let_def split: option.splits prod.splits)
qed

lemma only_file_write_record: "only_file p (write_record X C p r)"
  unfolding write_record_def
  by (intro only_file_seqE only_file_liftE only_file_append_all)

text \<open>What the loop of the rewrite has written when it ends well.\<close>

lemma append_all_ok:
  "fs_append_all p bs w = (Inr u, w') \<Longrightarrow> fget w p = Some old \<Longrightarrow> fget w' p = Some (old @ bs)"
  by (drule (1) fs_append_all_result) auto

lemma write_record_ok:
  assumes "write_record X C p r w = (Inr u, w')" and "fget w p = Some old"
  shows "\<exists>b. spool_payload C r = Inr b \<and> fget w' p = Some (old @ spool_frame X b)"
proof -
  obtain b w1 w2 where b: "spool_payload C r = Inr b"
    and a: "fs_append_all p (le32 (word_of_nat (length b))) w = (Inr (), w1)"
      "fs_append_all p (le32 (x_crc32 X b)) w1 = (Inr (), w2)" "fs_append_all p b w2 = (Inr (), w')"
    using assms(1) by (auto simp: write_record_def seqE_def liftE_def split: prod.splits sum.splits)
  have "fget w1 p = Some (old @ le32 (word_of_nat (length b)))" using append_all_ok [OF a(1) assms(2)] .
  then have "fget w2 p = Some ((old @ le32 (word_of_nat (length b))) @ le32 (x_crc32 X b))" by (rule append_all_ok [OF a(2)])
  then have "fget w' p = Some (((old @ le32 (word_of_nat (length b))) @ le32 (x_crc32 X b)) @ b)" by (rule append_all_ok [OF a(3)])
  with b show ?thesis by (simp add: spool_frame_def)
qed

lemma write_records_ok:
  assumes "forE rs (write_record X C p) w = (Inr u, w')" and "fget w p = Some old"
  shows "\<exists>ps. payloads C rs ps \<and> fget w' p = Some (old @ framed X ps)"
  using assms
proof (induction rs arbitrary: w old)
  case Nil
  then show ?case by (simp add: retE_def)
next
  case (Cons r rs)
  then obtain w1 where w1: "write_record X C p r w = (Inr (), w1)" "forE rs (write_record X C p) w1 = (Inr u, w')"
    by (auto simp: seqE_def split: prod.splits sum.splits)
  obtain b where b: "spool_payload C r = Inr b" "fget w1 p = Some (old @ spool_frame X b)"
    using write_record_ok [OF w1(1) Cons.prems(2)] by blast
  obtain ps where "payloads C rs ps" "fget w' p = Some ((old @ spool_frame X b) @ framed X ps)"
    using Cons.IH [OF w1(2) b(2)] by blast
  with b show ?case by (intro exI [of _ "b # ps"]) simp
qed

lemma write_survivors_effect:
  assumes "p \<noteq> []" and "write_survivors X C p rs w = (r, w')"
  shows "(case r of Inr _ \<Rightarrow> \<exists>ps. payloads C rs ps \<and> fget w' p = Some (framed X ps)
    | Inl e \<Rightarrow> fget w' p = fget w p)"
proof -
  let ?t = "spool_tmp p"
  have other: "p \<noteq> ?t" using spool_tmp_other [OF assms(1)] by simp
  let ?rest = "\<lambda>_. seqE (forE rs (write_record X C ?t)) (\<lambda>_. seqE (fs_sync ?t) (\<lambda>_. fs_rename_file ?t p))"
  obtain r1 w1 where c: "fs_create_truncated ?t w = (r1, w1)" by (metis surj_pair)
  have f1: "fget w1 p = fget w p" and e1: "\<And>u. r1 = Inr u \<Longrightarrow> fget w1 ?t = Some []"
    using c other by (cases r1; auto simp: fs_create_truncated_def dest: fs_op_fault elim!: fs_op_done)+
  show ?thesis
  proof (cases r1)
    case (Inl e)
    then show ?thesis using assms(2) c f1 by (auto simp: write_survivors_def seqE_def)
  next
    case (Inr u1)
    obtain r2 w2 where l: "forE rs (write_record X C ?t) w1 = (r2, w2)" by (metis surj_pair)
    have "only_file ?t (forE rs (write_record X C ?t))" by (intro only_file_forE only_file_write_record)
    then have f2: "fget w2 p = fget w p" using l f1 other unfolding only_file_def by metis
    show ?thesis
    proof (cases r2)
      case (Inl e)
      then show ?thesis using assms(2) c Inr l f2 by (auto simp: write_survivors_def seqE_def)
    next
      case R2: (Inr u2)
      obtain ps where ps: "payloads C rs ps" "fget w2 ?t = Some (framed X ps)"
        using write_records_ok [OF l [unfolded R2] e1 [OF Inr]] by auto
      obtain r3 w3 where s: "fs_sync ?t w2 = (r3, w3)" by (metis surj_pair)
      then have f3: "fget w3 q = fget w2 q" for q by (auto simp: fs_sync_def dest: fs_op_same)
      show ?thesis
      proof (cases r3)
        case (Inl e)
        then show ?thesis using assms(2) c Inr l R2 s f3 f2 by (auto simp: write_survivors_def seqE_def)
      next
        case R3: (Inr u3)
        have mv: "fs_rename_file ?t p w3 = (r, w')" using assms(2) c Inr l R2 s R3 by (simp add: write_survivors_def seqE_def)
        then have "fs_op (\<lambda>w. fput p (framed X ps) (fdel ?t w)) w3 = (r, w')"
          using ps(2) f3 by (simp add: fs_rename_file_def)
        then show ?thesis using ps(1) f3 f2 fs_op_fault [of _ w3 _ w' p]
          by (cases r) (auto elim!: fs_op_done)
      qed
    qed
  qed
qed

end
