(* ===== verification/Client.thy ===== *)
theory Client
  imports Complex_Main Spool Text_Codec Model Registry_Index
begin

unbundle bit_operations_syntax

text \<open>
  The reference client (\<open>crates/quipu-client/src/\<close>: \<open>event.rs\<close>, \<open>retry.rs\<close>, \<open>client.rs\<close>): the event, the
  idempotency key, the retry loop and the spool behind it.

  The length of a delay is floating-point arithmetic on a random draw; it is an input. When a
  delay is given at all is the code's.
\<close>

section \<open>Events\<close>

record wire_target =
  wt_entity_type :: string
  wt_input :: entity_input

record wire_event =
  we_occurred_at :: "u64 option"
  we_actor_type :: string
  we_actor :: entity_input
  we_method :: string
  we_url :: string
  we_content :: content
  we_targets :: "wire_target list"
  we_custom :: "(string \<times> fval) list"

definition wire_target_new :: "string \<Rightarrow> entity_input \<Rightarrow> wire_target" where
  "wire_target_new entity_type input = \<lparr>wt_entity_type = entity_type, wt_input = input\<rparr>"

text \<open>\<open>now\<close> is the clock.\<close>

definition wire_event_new :: "u64 \<Rightarrow> string \<Rightarrow> entity_input \<Rightarrow> string \<Rightarrow> string \<Rightarrow> content \<Rightarrow> wire_event" where
  "wire_event_new now actor_type actor meth url cont =
     \<lparr>we_occurred_at = Some now, we_actor_type = actor_type, we_actor = actor, we_method = meth, we_url = url,
      we_content = cont, we_targets = [], we_custom = []\<rparr>"

definition wire_event_target :: "wire_target \<Rightarrow> wire_event \<Rightarrow> wire_event" where
  "wire_event_target t ev = ev\<lparr>we_targets := we_targets ev @ [t]\<rparr>"

definition wire_event_custom :: "string \<Rightarrow> fval \<Rightarrow> wire_event \<Rightarrow> wire_event" where
  "wire_event_custom name v ev = ev\<lparr>we_custom := bt_insert name v (we_custom ev)\<rparr>"

section \<open>Idempotency keys\<close>

text \<open>\<open>bs\<close> are the 16 random bytes.\<close>

definition uuid_bytes :: "bytes \<Rightarrow> bytes" where
  "uuid_bytes bs = (bs[6 := (bs ! 6 AND 0x0f) OR 0x40])[8 := (bs ! 8 AND 0x3f) OR 0x80]"

fun uuid_text :: "nat \<Rightarrow> bytes \<Rightarrow> string" where
  "uuid_text i [] = []"
| "uuid_text i (b # bs) =
     (if i \<in> {4, 6, 8, 10} then ''-'' else []) @ [hex_char (unat (drop_bit 4 b)), hex_char (unat (b AND 0xf))] @
     uuid_text (Suc i) bs"

definition new_idempotency_key :: "bytes \<Rightarrow> string" where
  "new_idempotency_key bs = uuid_text 0 (uuid_bytes bs)"

section \<open>Backoff\<close>

record backoff =
  bo_base_nanos :: nat
  bo_max_delay_nanos :: nat
  bo_multiplier :: rat
  bo_max_retries :: u32

definition backoff_default :: backoff where
  "backoff_default = \<lparr>bo_base_nanos = 100000000, bo_max_delay_nanos = 30000000000, bo_multiplier = 2, bo_max_retries = 6\<rparr>"

text \<open>\<open>jitter\<close> gives the delay drawn for an attempt, in nanoseconds.\<close>

definition backoff_delay :: "(u32 \<Rightarrow> nat) \<Rightarrow> backoff \<Rightarrow> u32 \<Rightarrow> nat option" where
  "backoff_delay jitter b attempt = (if attempt = 0 \<or> attempt > bo_max_retries b then None else Some (jitter attempt))"

section \<open>The client\<close>

datatype delivery =
    DeliveryAccepted
  | DeliverySpooled
  | DeliveryRejected string
  | DeliveryDropped string "error option"

text \<open>\<open>cl_sent\<close> is what the transport has been given, \<open>cl_slept\<close> the delays slept.\<close>

record client =
  cl_backoff :: backoff
  cl_spool :: "spool option"
  cl_sent :: "request list"
  cl_slept :: "nat list"

definition client_new :: client where
  "client_new = \<lparr>cl_backoff = backoff_default, cl_spool = None, cl_sent = [], cl_slept = []\<rparr>"

definition client_backoff :: "backoff \<Rightarrow> client \<Rightarrow> client" where
  "client_backoff b c = c\<lparr>cl_backoff := b\<rparr>"

definition with_spool :: "spool \<Rightarrow> client \<Rightarrow> client" where
  "with_spool sp c = c\<lparr>cl_spool := Some sp\<rparr>"

definition exhausted ::
  "ext \<Rightarrow> spool_record codec \<Rightarrow> request \<Rightarrow> string \<Rightarrow> client \<times> fs \<Rightarrow> delivery \<times> client \<times> fs" where
  "exhausted X C req reason = (\<lambda>(c, w).
     case cl_spool c of
       None \<Rightarrow> (DeliveryDropped reason None, (c, w))
     | Some sp \<Rightarrow>
         (case spool_append X C sp \<lparr>so_key = snd req, so_body = fst req\<rparr> w of
            (Inr _, w') \<Rightarrow> (DeliverySpooled, (c, w'))
          | (Inl e, w') \<Rightarrow> (DeliveryDropped reason (Some e), (c, w'))))"

text \<open>\<open>attempt\<close> is a \<open>u32\<close>: at its end it wraps to 0, for which there is no delay.\<close>

function deliver ::
  "ext \<Rightarrow> spool_record codec \<Rightarrow> transport \<Rightarrow> (u32 \<Rightarrow> nat) \<Rightarrow> request \<Rightarrow> u32 \<Rightarrow> client \<times> fs \<Rightarrow> delivery \<times> client \<times> fs" where
  "deliver X C net jitter req attempt (c, w) =
     (let c1 = c\<lparr>cl_sent := cl_sent c @ [req]\<rparr>
      in case net (cl_sent c) req of
           SendAccepted \<Rightarrow> (DeliveryAccepted, (c1, w))
         | SendDuplicate \<Rightarrow> (DeliveryAccepted, (c1, w))
         | SendFatal reason \<Rightarrow> (DeliveryRejected reason, (c1, w))
         | SendRetry reason \<Rightarrow>
             (case backoff_delay jitter (cl_backoff c) (attempt + 1) of
                Some d \<Rightarrow> deliver X C net jitter req (attempt + 1) (c1\<lparr>cl_slept := cl_slept c1 @ [d]\<rparr>, w)
              | None \<Rightarrow> exhausted X C req reason (c1, w)))"
  by pat_completeness auto
termination
proof (relation "measure (\<lambda>(X, C, net, jitter, req, attempt, c, w). 2 ^ 32 - unat attempt)", goal_cases)
  case (2 X C net jitter req attempt c w c1 reason d)
  then have "attempt + 1 \<noteq> 0" by (auto simp: backoff_delay_def split: if_splits)
  then have "unat (attempt + 1) = unat attempt + 1" using unatSuc [of attempt] by (simp add: add.commute)
  moreover have "unat attempt < 2 ^ 32" using unat_u32_bound [of attempt] by simp
  ultimately show ?case by simp
qed simp

declare deliver.simps [simp del]

text \<open>\<open>J\<close> encodes an event, \<open>bs\<close> are the random bytes of its key.\<close>

definition client_emit ::
  "ext \<Rightarrow> spool_record codec \<Rightarrow> wire_event codec \<Rightarrow> transport \<Rightarrow> (u32 \<Rightarrow> nat) \<Rightarrow> bytes \<Rightarrow> wire_event
     \<Rightarrow> client \<times> fs \<Rightarrow> (error + delivery) \<times> client \<times> fs" where
  "client_emit X C J net jitter bs ev = (\<lambda>(c, w).
     case c_ser J ev of
       Inl e \<Rightarrow> (Inl e, (c, w))
     | Inr body \<Rightarrow>
         (case deliver X C net jitter (body, new_idempotency_key bs) 0 (c, w) of (d, cw) \<Rightarrow> (Inr d, cw)))"

definition drain_spool ::
  "ext \<Rightarrow> spool_record codec \<Rightarrow> transport \<Rightarrow> client \<times> fs \<Rightarrow> (error + drain_report) \<times> client \<times> fs" where
  "drain_spool X C net = (\<lambda>(c, w).
     case cl_spool c of
       None \<Rightarrow> (Inr drain_report_default, (c, w))
     | Some sp \<Rightarrow>
         (case spool_drain X C net (cl_sent c) (sp, w) of
            (r, sent, (sp', w')) \<Rightarrow> (r, (c\<lparr>cl_spool := Some sp', cl_sent := sent\<rparr>, w'))))"

definition spooled :: "ext \<Rightarrow> spool_record codec \<Rightarrow> client \<Rightarrow> fs \<Rightarrow> nat res" where
  "spooled X C c w = (case cl_spool c of None \<Rightarrow> Inr 0 | Some sp \<Rightarrow> spool_length X C sp w)"

end
