(* ===== verification/Client_Props.thy ===== *)
theory Client_Props
  imports Client Spool Segment_Props
begin

text \<open>
  What the reference client promises: its spool loses nothing over a crash or a replay, its retry
  loop ends, and its keys identify events. And where the promise fails: behind a torn frame.
\<close>

section \<open>Lemmas\<close>

lemma spool_append_cases:
  assumes "spool_holds X C rs [] sp w" and "spool_append X C sp r w = (res, w')"
  obtains (whole) "spool_holds X C (rs @ [r]) [] sp w'"
  | (torn) t where "res \<noteq> Inr ()" "torn_tail t" "spool_holds X C rs t sp w'"
proof -
  from spool_append_effect [OF assms] consider "res \<noteq> Inr ()" "w' = w"
    | p k where "spool_payload C r = Inr p" "k \<le> 8 + length p" "res = Inr () \<longrightarrow> k = 8 + length p"
        "spool_holds X C rs (take k (spool_frame X p)) sp w'"
    by blast
  then show thesis
  proof cases
    case 1
    with assms(1) torn [of "[]"] show thesis by simp
  next
    case (2 p k)
    show thesis
    proof (cases "k = 8 + length p")
      case True
      with 2(4) have "spool_holds X C rs (spool_frame X p) sp w'" by simp
      with 2(1) show thesis by (intro whole spool_holds_whole)
    next
      case False
      with 2(2) have "k < 8 + length p" by simp
      from torn_prefix [OF this spool_payload_bound [OF 2(1)]] 2(3,4) False show thesis by (intro torn) auto
    qed
  qed
qed

lemma spool_rewrite_effect:
  assumes "sp_path sp \<noteq> []" and "spool_rewrite X C rs (sp, w) = (r, (sp', w'))"
  shows "sp_path sp' = sp_path sp \<and>
    (fget w' (sp_path sp) = fget w (sp_path sp) \<or> (\<exists>ps. payloads C rs ps \<and> fget w' (sp_path sp) = Some (framed X ps))) \<and>
    (\<forall>u. r = Inr u \<longrightarrow> spool_holds X C rs [] sp' w')"
proof -
  obtain r1 w1 where ws: "write_survivors X C (sp_path sp) rs w = (r1, w1)" by (metis surj_pair)
  note E = write_survivors_effect [OF assms(1) ws]
  show ?thesis
  proof (cases r1)
    case (Inl e)
    with assms(2) ws E show ?thesis by (auto simp: spool_rewrite_def)
  next
    case (Inr u)
    obtain r2 w2 where o: "fs_op (\<lambda>w. w) w1 = (r2, w2)" by (metis surj_pair)
    have "fget w2 q = fget w1 q" for q using fs_op_same [OF o] .
    with assms(2) ws Inr E o show ?thesis
      by (cases r2) (auto simp: spool_rewrite_def spool_holds_def)
  qed
qed

section \<open>The spool over a crash\<close>


section \<open>Replay\<close>

text \<open>Without an answer that asks for a retry, a replay that succeeds empties the spool.\<close>

lemma spool_drain_all:
  assumes C: "codec_ok C" and h: "spool_holds X C rs [] sp w" and path: "sp_path sp \<noteq> []"
    and drain: "spool_drain X C net sent (sp, w) = (Inr rep, sent', (sp', w'))"
    and net: "\<And>sent q. \<not> is_retry (net sent q)"
  shows "sent' = sent @ map req_of rs" and "dp_delivered rep + dp_discarded rep = length rs"
    and "spool_read_all X C sp' w' = Inr []"
proof -
  have read: "spool_read_all X C sp w = Inr rs" using spool_holds_read [OF C h torn_tail_Nil] .
  obtain rep' stay sent1 where loop: "drain_loop net rs False sent drain_report_default = (rep', stay, sent1)"
    by (metis surj_pair)
  from drain_loop_correct [OF this] net have G: "stay = []" "sent1 = sent @ map req_of rs"
      "dp_delivered rep' + dp_discarded rep' = length rs" by (auto simp: drain_report_default_def)
  obtain r2 sp2 w2 where rw: "spool_rewrite X C stay (sp, w) = (r2, (sp2, w2))" by (metis surj_pair)
  have out: "sent' = sent1" "sp' = sp2" "w' = w2" "rep = rep'" "\<exists>u. r2 = Inr u"
    using drain read loop rw by (auto simp: spool_drain_def split: sum.splits)
  then have "spool_holds X C stay [] sp' w'" using spool_rewrite_effect [OF path rw] by blast
  then show "spool_read_all X C sp' w' = Inr []" using spool_holds_read [OF C _ torn_tail_Nil] G(1) by blast
  show "sent' = sent @ map req_of rs" and "dp_delivered rep + dp_discarded rep = length rs" using G out by simp_all
qed

text \<open>
  C29: a replay loses nothing, whatever fails. The records leave in order: those before the first
  answer that asks for a retry have been answered for good, that one and all behind it stay. When
  the pass fails, the file holds either all the records or those that stay; when it succeeds it
  holds those that stay, and the report counts them.
\<close>

theorem spool_drain_correct:
  assumes "codec_ok C" and "spool_holds X C rs [] sp w" and "sp_path sp \<noteq> []"
    and "spool_drain X C net sent (sp, w) = (res, sent', (sp', w'))"
  shows "\<exists>gone stay kept. rs = gone @ stay \<and>
    (\<forall>x \<in> set (answers net sent (map req_of gone)). \<not> is_retry x) \<and>
    (stay \<noteq> [] \<longrightarrow> is_retry (net (sent @ map req_of gone) (req_of (hd stay)))) \<and>
    sent' = sent @ map req_of gone @ map req_of (take 1 stay) \<and>
    kept \<in> {rs, stay} \<and> (\<exists>ps. payloads C kept ps \<and> fget w' (sp_path sp) = Some (framed X ps)) \<and>
    (case res of
       Inl e \<Rightarrow> True
     | Inr rep \<Rightarrow> spool_holds X C stay [] sp' w' \<and> spool_read_all X C sp' w' = Inr stay \<and>
         dp_delivered rep + dp_discarded rep = length gone \<and> dp_kept rep = length stay \<and>
         dp_discarded rep = length (filter is_fatal (answers net sent (map req_of gone))))"
proof -
  have read: "spool_read_all X C sp w = Inr rs" using spool_holds_read [OF assms(1,2)] by simp
  obtain ps where ps: "payloads C rs ps" "fget w (sp_path sp) = Some (framed X ps)"
    using assms(2) by (auto simp: spool_holds_def)
  obtain rep stay sent1 where loop: "drain_loop net rs False sent drain_report_default = (rep, stay, sent1)"
    by (metis surj_pair)
  from drain_loop_correct [OF this] obtain gone where G: "rs = gone @ stay"
      "\<forall>x \<in> set (answers net sent (map req_of gone)). \<not> is_retry x"
      "stay \<noteq> [] \<longrightarrow> is_retry (net (sent @ map req_of gone) (req_of (hd stay)))"
      "sent1 = sent @ map req_of gone @ (if stay = [] then [] else [req_of (hd stay)])"
      "dp_discarded rep = length (filter is_fatal (answers net sent (map req_of gone)))"
      "dp_delivered rep + dp_discarded rep = length gone" "dp_kept rep = length stay"
    by (auto simp: drain_report_default_def)
  have sent1: "sent1 = sent @ map req_of gone @ map req_of (take 1 stay)"
    using G(4) by (cases stay) auto
  obtain r2 sp2 w2 where rw: "spool_rewrite X C stay (sp, w) = (r2, (sp2, w2))" by (metis surj_pair)
  note E = spool_rewrite_effect [OF assms(3) rw]
  have out: "sent' = sent1" "sp' = sp2" "w' = w2" "res = (case r2 of Inl e \<Rightarrow> Inl e | Inr _ \<Rightarrow> Inr rep)"
    using assms(4) read loop rw by (auto simp: spool_drain_def split: sum.splits)
  obtain kept where kept: "kept \<in> {rs, stay}" "\<exists>ps. payloads C kept ps \<and> fget w' (sp_path sp) = Some (framed X ps)"
    using E ps out(3) by auto
  have fin: "case res of Inl e \<Rightarrow> True
     | Inr rep \<Rightarrow> spool_holds X C stay [] sp' w' \<and> spool_read_all X C sp' w' = Inr stay \<and>
         dp_delivered rep + dp_discarded rep = length gone \<and> dp_kept rep = length stay \<and>
         dp_discarded rep = length (filter is_fatal (answers net sent (map req_of gone)))"
    using E G out spool_holds_read [OF assms(1) _ torn_tail_Nil, of X stay sp' w'] by (cases r2) auto
  show ?thesis using G(1-3) sent1 out(1) kept fin by blast
qed

section \<open>Behind a torn frame\<close>

text \<open>
  what the client does after a write of the spool has failed in the middle of a frame. The file
  is not cut back, so the next record is written behind the torn frame. Its append is reported as
  done, but while its frame is shorter than what the torn one still lacks, the record is not read
  back: a replay does not send it, and its rewrite removes it from the file for good.
\<close>

theorem spooled_behind_torn_frame_is_lost:
  assumes C: "codec_ok C" and torn: "spool_holds X C rs (take k (spool_frame X p)) sp w" and p: "length p \<le> u32_max_nat"
    and q: "spool_payload C r = Inr q" and k: "8 \<le> k" "k + (8 + length q) < 8 + length p"
    and ok: "spool_append X C sp r w = (Inr (), w1)" and path: "sp_path sp \<noteq> []"
    and drain: "spool_drain X C net sent (sp, w1) = (Inr rep, sent', (sp', w2))"
  shows "spool_read_all X C sp w1 = Inr rs \<and>
    (\<exists>gone stay. rs = gone @ stay \<and> sent' = sent @ map req_of gone @ map req_of (take 1 stay) \<and>
      spool_read_all X C sp' w2 = Inr stay)"
proof -
  obtain ps where ps: "payloads C rs ps" "fget w (sp_path sp) = Some (framed X ps @ take k (spool_frame X p))"
    and a: "sp_attached sp" using torn by (auto simp: spool_holds_def)
  obtain u wm where wr: "fs_append_all (sp_path sp) (spool_frame X q) w = (Inr u, wm)" and sy: "fs_op (\<lambda>w. w) wm = (Inr (), w1)"
    using ok q a by (auto simp: spool_append_def spool_write_def fs_sync_def seqE_def liftE_def split: prod.splits sum.splits)
  have f: "fget w1 (sp_path sp) = Some (framed X ps @ (take k (spool_frame X p) @ spool_frame X q))"
    using append_all_ok [OF wr ps(2)] fs_op_same [OF sy] by simp
  have t: "torn_tail (take k (spool_frame X p) @ spool_frame X q)"
    using torn_prefix_more [of k "spool_frame X q" p X] k p by simp
  have h: "spool_holds X C rs (take k (spool_frame X p) @ spool_frame X q) sp w1"
    using ps(1) f a by (auto simp: spool_holds_def)
  have read: "spool_read_all X C sp w1 = Inr rs" using spool_holds_read [OF C h t] .
  obtain rep' stay sent1 where loop: "drain_loop net rs False sent drain_report_default = (rep', stay, sent1)"
    by (metis surj_pair)
  from drain_loop_correct [OF this] obtain gone where G: "rs = gone @ stay"
      "sent1 = sent @ map req_of gone @ (if stay = [] then [] else [req_of (hd stay)])" by blast
  obtain r2 sp2 w3 where rw: "spool_rewrite X C stay (sp, w1) = (r2, (sp2, w3))" by (metis surj_pair)
  have out: "sent' = sent1" "sp' = sp2" "w2 = w3" "\<exists>u. r2 = Inr u"
    using drain read loop rw by (auto simp: spool_drain_def split: sum.splits)
  then have "spool_holds X C stay [] sp' w2" using spool_rewrite_effect [OF path rw] by blast
  then have "spool_read_all X C sp' w2 = Inr stay" using spool_holds_read [OF C _ torn_tail_Nil] by blast
  moreover have "sent' = sent @ map req_of gone @ map req_of (take 1 stay)"
    using G(2) out(1) by (cases stay) auto
  ultimately show ?thesis using read G(1) by blast
qed

section \<open>The retry loop\<close>

lemma delay_next:
  "backoff_delay jitter b (attempt + 1) = Some d \<Longrightarrow>
     attempt + 1 \<le> bo_max_retries b \<and> unat (attempt + 1) = Suc (unat attempt)"
  using unatSuc [of attempt] by (auto simp: backoff_delay_def add.commute split: if_splits)

lemma delay_last:
  assumes "backoff_delay jitter b (attempt + 1) = None" and "attempt \<le> bo_max_retries b"
  shows "unat attempt = unat (bo_max_retries b)"
proof (cases "attempt + 1 = 0")
  case True
  then have "attempt = - 1" by (metis add_eq_0_iff2)
  with assms(2) show ?thesis by (metis word_order.extremum_uniqueI)
next
  case False
  then have "unat (attempt + 1) = Suc (unat attempt)" using unatSuc [of attempt] by (simp add: add.commute)
  moreover have "bo_max_retries b < attempt + 1" using assms(1) False by (auto simp: backoff_delay_def split: if_splits)
  ultimately show ?thesis using assms(2) by (simp add: word_less_nat_alt word_le_nat_alt)
qed

lemma exhausted_client: "exhausted X C req reason (c, w) = (d, (c', w')) \<Longrightarrow> c' = c"
  by (auto simp: exhausted_def split: option.splits prod.splits sum.splits)

text \<open>A run of the loop from some attempt on: \<open>n\<close> retries, then the last answer.\<close>

definition delivered_as ::
  "ext \<Rightarrow> spool_record codec \<Rightarrow> transport \<Rightarrow> request \<Rightarrow> nat \<Rightarrow> nat \<Rightarrow> client \<times> fs \<Rightarrow> delivery \<times> client \<times> fs \<Rightarrow> bool" where
  "delivered_as X C net req left n = (\<lambda>(c, w) (d, c', w').
     let before = cl_sent c @ replicate n req; c1 = c\<lparr>cl_sent := before @ [req], cl_slept := cl_slept c'\<rparr> in
     n \<le> left \<and> c' = c1 \<and>
     (\<forall>i < n. is_retry (net (cl_sent c @ replicate i req) req)) \<and>
     length (cl_slept c') = length (cl_slept c) + n \<and>
     (case net before req of
        SendAccepted \<Rightarrow> d = DeliveryAccepted \<and> w' = w
      | SendDuplicate \<Rightarrow> d = DeliveryAccepted \<and> w' = w
      | SendFatal reason \<Rightarrow> d = DeliveryRejected reason \<and> w' = w
      | SendRetry reason \<Rightarrow> n = left \<and> exhausted X C req reason (c1, w) = (d, (c1, w'))))"

lemma delivered_as_Suc:
  assumes "delivered_as X C net req left n (c\<lparr>cl_sent := cl_sent c @ [req], cl_slept := cl_slept c @ [d0]\<rparr>, w) (d, c', w')"
    and "is_retry (net (cl_sent c) req)"
  shows "delivered_as X C net req (Suc left) (Suc n) (c, w) (d, c', w')"
proof -
  have "(\<forall>i < Suc n. is_retry (net (cl_sent c @ replicate i req) req)) \<longleftrightarrow>
      is_retry (net (cl_sent c) req) \<and> (\<forall>i < n. is_retry (net (cl_sent c @ req # replicate i req) req))"
    by (auto simp: less_Suc_eq_0_disj)
  with assms show ?thesis
    by (auto simp: delivered_as_def Let_def split: send_outcome.splits)
qed

lemma deliver_from:
  assumes "deliver X C net jitter req attempt (c, w) = (d, (c', w'))" and "attempt \<le> bo_max_retries (cl_backoff c)"
  shows "\<exists>n. delivered_as X C net req (unat (bo_max_retries (cl_backoff c)) - unat attempt) n (c, w) (d, c', w')"
  using assms
proof (induction X C net jitter req attempt "(c, w)" arbitrary: c w rule: deliver.induct)
  case (1 X C net jitter req attempt c w)
  note step = deliver.simps [of X C net jitter req attempt c w]
  let ?left = "unat (bo_max_retries (cl_backoff c)) - unat attempt"
  show ?case
  proof (cases "net (cl_sent c) req")
    case (SendRetry reason)
    show ?thesis
    proof (cases "backoff_delay jitter (cl_backoff c) (attempt + 1)")
      case None
      with SendRetry step "1.prems"(1)
      have ex: "exhausted X C req reason (c\<lparr>cl_sent := cl_sent c @ [req]\<rparr>, w) = (d, (c', w'))" by (simp add: Let_def)
      from exhausted_client [OF this] have "c' = c\<lparr>cl_sent := cl_sent c @ [req]\<rparr>" .
      then show ?thesis using ex SendRetry delay_last [OF None "1.prems"(2)]
        by (intro exI [of _ 0]) (simp add: delivered_as_def Let_def)
    next
      case (Some d0)
      let ?c = "c\<lparr>cl_sent := cl_sent c @ [req], cl_slept := cl_slept c @ [d0]\<rparr>"
      have run: "deliver X C net jitter req (attempt + 1) (?c, w) = (d, (c', w'))"
        using "1.prems"(1) step SendRetry Some by (simp add: Let_def)
      note nx = delay_next [OF Some]
      have "\<exists>n. delivered_as X C net req (unat (bo_max_retries (cl_backoff ?c)) - unat (attempt + 1)) n (?c, w) (d, c', w')"
        using "1.hyps" [OF refl SendRetry Some] run nx by simp
      then obtain n where n: "delivered_as X C net req (unat (bo_max_retries (cl_backoff c)) - unat (attempt + 1)) n (?c, w) (d, c', w')"
        by auto
      have "?left = Suc (unat (bo_max_retries (cl_backoff c)) - unat (attempt + 1))"
        using nx unfolding word_le_nat_alt by linarith
      with delivered_as_Suc [OF n] SendRetry show ?thesis by auto
    qed
  qed (use "1.prems"(1) step in \<open>auto simp: delivered_as_def Let_def intro!: exI [of _ 0]\<close>)
qed

text \<open>
  C30: the retry loop ends, and says truly what has happened. An event is sent at most
  \<open>max_retries + 1\<close> times, every time with the same body and key, each time but the last because the
  transport asked for a retry, with a pause before each repetition. It is reported accepted or
  rejected exactly when the last answer said so; otherwise the retries are used up, and it is
  reported spooled exactly when its append to the spool succeeded, and dropped otherwise.
\<close>

theorem deliver_correct:
  "\<exists>n d c' w'. deliver X C net jitter req 0 (c, w) = (d, (c', w')) \<and>
    n \<le> unat (bo_max_retries (cl_backoff c)) \<and> cl_sent c' = cl_sent c @ replicate (Suc n) req \<and>
    length (cl_slept c') = length (cl_slept c) + n \<and> cl_spool c' = cl_spool c \<and>
    (\<forall>i < n. is_retry (net (cl_sent c @ replicate i req) req)) \<and>
    (case net (cl_sent c @ replicate n req) req of
       SendAccepted \<Rightarrow> d = DeliveryAccepted \<and> w' = w
     | SendDuplicate \<Rightarrow> d = DeliveryAccepted \<and> w' = w
     | SendFatal reason \<Rightarrow> d = DeliveryRejected reason \<and> w' = w
     | SendRetry reason \<Rightarrow> n = unat (bo_max_retries (cl_backoff c)) \<and>
         (case cl_spool c of
            None \<Rightarrow> d = DeliveryDropped reason None \<and> w' = w
          | Some sp \<Rightarrow>
              (case spool_append X C sp \<lparr>so_key = snd req, so_body = fst req\<rparr> w of
                 (Inr _, w1) \<Rightarrow> d = DeliverySpooled \<and> w' = w1
               | (Inl e, w1) \<Rightarrow> d = DeliveryDropped reason (Some e) \<and> w' = w1)))"
proof -
  obtain d c' w' where run: "deliver X C net jitter req 0 (c, w) = (d, (c', w'))" by (metis surj_pair)
  from deliver_from [OF run] obtain n where n: "delivered_as X C net req (unat (bo_max_retries (cl_backoff c))) n (c, w) (d, c', w')"
    by auto
  then have c': "c' = c\<lparr>cl_sent := (cl_sent c @ replicate n req) @ [req], cl_slept := cl_slept c'\<rparr>"
    by (simp add: delivered_as_def Let_def)
  have "cl_sent c' = cl_sent c @ replicate (Suc n) req" "cl_spool c' = cl_spool c"
    using arg_cong [OF c', of cl_sent] arg_cong [OF c', of cl_spool] by (simp_all add: replicate_append_same)
  with n run show ?thesis
    by (intro exI [of _ n] exI [of _ d] exI [of _ c'] exI [of _ w'])
      (auto simp: delivered_as_def Let_def exhausted_def split: send_outcome.splits option.splits prod.splits sum.splits)
qed

section \<open>Keys\<close>

lemma hex_char_inject: "a < 16 \<Longrightarrow> b < 16 \<Longrightarrow> hex_char a = hex_char b \<longleftrightarrow> a = b"
  by (metis hex_val_char option.inject)

lemma nibbles: "unat (drop_bit 4 (b :: u8)) = unat b div 16" "unat (b AND 0xf) = unat b mod 16"
proof -
  have "b AND 0xf = take_bit 4 b" by (simp add: take_bit_eq_mask mask_eq_exp_minus_1)
  then show "unat (b AND 0xf) = unat b mod 16" by (simp add: take_bit_eq_mod unat_mod_distrib)
  show "unat (drop_bit 4 b) = unat b div 16" by (simp add: drop_bit_eq_div unat_div_distrib)
qed

lemma nibble_bounds: "unat (drop_bit 4 (b :: u8)) < 16" "unat (b AND 0xf) < 16"
  using unsigned_less [of b, where ?'a = nat] by (simp_all add: nibbles)

lemma nibbles_inject:
  assumes "unat (drop_bit 4 (b :: u8)) = unat (drop_bit 4 c)" "unat (b AND 0xf) = unat (c AND 0xf)"
  shows "b = c"
proof -
  have "unat b = unat c" using assms unfolding nibbles by (metis div_mult_mod_eq)
  then show ?thesis by (simp add: word_unat_eq_iff)
qed

lemma uuid_text_inject:
  "length bs = length cs \<Longrightarrow> uuid_text i bs = uuid_text i cs \<longleftrightarrow> bs = cs"
proof (induction bs arbitrary: i cs)
  case (Cons b bs)
  then obtain c cs' where cs: "cs = c # cs'" by (cases cs) auto
  have "hex_char (unat (drop_bit 4 b)) = hex_char (unat (drop_bit 4 c)) \<and> hex_char (unat (b AND 0xf)) = hex_char (unat (c AND 0xf))
      \<longleftrightarrow> b = c"
    using nibbles_inject [of b c] nibble_bounds [of b] nibble_bounds [of c] by (auto simp: hex_char_inject)
  with Cons cs show ?case by auto
qed simp

definition visible :: "char \<Rightarrow> bool" where
  "visible c \<longleftrightarrow> 0x21 \<le> (of_char c :: nat) \<and> (of_char c :: nat) \<le> 0x7e"

lemma visible_hex_char: "d < 16 \<Longrightarrow> visible (hex_char d)"
  by (auto simp: visible_def hex_char_def of_char_of)

lemma uuid_text_visible: "c \<in> set (uuid_text i bs) \<Longrightarrow> visible c"
  by (induction bs arbitrary: i) (auto simp: visible_hex_char nibble_bounds visible_def [of "CHR ''-''"] split: if_splits)

lemma list_of_16:
  assumes "length bs = 16"
  shows "bs = [bs ! 0, bs ! 1, bs ! 2, bs ! 3, bs ! 4, bs ! 5, bs ! 6, bs ! 7, bs ! 8, bs ! 9, bs ! 10, bs ! 11,
    bs ! 12, bs ! 13, bs ! 14, bs ! 15]"
proof -
  have "bs = map ((!) bs) [0..<16]" using map_nth [of bs] assms by simp
  also have "[0..<16] = [0, 1, 2, 3, 4, 5, 6, 7, 8, 9, 10, 11, 12, 13, 14, 15]" by (simp add: upt_rec)
  finally show ?thesis by simp
qed

lemma hex_char_values:
  "hex_char 4 = CHR ''4''" "hex_char 8 = CHR ''8''" "hex_char 9 = CHR ''9''" "hex_char 10 = CHR ''a''"
  "hex_char 11 = CHR ''b''"
  by code_simp+

lemma version_nibble: "drop_bit 4 ((b AND 0x0f) OR 0x40 :: u8) = 4"
  by (simp add: drop_bit_or drop_bit_and)

lemma variant_nibble: "unat (drop_bit 4 ((b AND 0x3f) OR 0x80 :: u8)) \<in> {8, 9, 10, 11}"
proof -
  let ?y = "drop_bit 4 b AND 3"
  have "?y = take_bit 2 (drop_bit 4 b)" by (simp add: take_bit_eq_mask mask_eq_exp_minus_1)
  then have "unat ?y < 4" by (simp add: take_bit_eq_mod unat_mod_distrib)
  then have "unat ?y = 0 \<or> unat ?y = 1 \<or> unat ?y = 2 \<or> unat ?y = 3" by linarith
  then have "?y = 0 \<or> ?y = 1 \<or> ?y = 2 \<or> ?y = 3" unfolding word_unat_eq_iff by simp
  moreover have "drop_bit 4 ((b AND 0x3f) OR 0x80) = ?y OR 8" by (simp add: drop_bit_or drop_bit_and)
  ultimately show ?thesis by auto
qed

lemma uuid_bytes_nth:
  "length bs = 16 \<Longrightarrow> uuid_bytes bs ! i =
     (if i = 6 then (bs ! 6 AND 0x0f) OR 0x40 else if i = 8 then (bs ! 8 AND 0x3f) OR 0x80 else bs ! i)"
  by (simp add: uuid_bytes_def nth_list_update)

lemma version_inject: "(b AND 0x0f) OR 0x40 = (c AND 0x0f) OR 0x40 \<longleftrightarrow> b AND 0x0f = (c AND 0x0f :: u8)"
proof
  assume "(b AND 0x0f) OR 0x40 = (c AND 0x0f) OR 0x40"
  then have "((b AND 0x0f) OR 0x40) AND 0x0f = ((c AND 0x0f) OR 0x40) AND 0x0f" by simp
  then show "b AND 0x0f = c AND 0x0f" by (simp add: and.assoc bit.conj_disj_distrib2)
qed simp

lemma variant_inject: "(b AND 0x3f) OR 0x80 = (c AND 0x3f) OR 0x80 \<longleftrightarrow> b AND 0x3f = (c AND 0x3f :: u8)"
proof
  assume "(b AND 0x3f) OR 0x80 = (c AND 0x3f) OR 0x80"
  then have "((b AND 0x3f) OR 0x80) AND 0x3f = ((c AND 0x3f) OR 0x80) AND 0x3f" by simp
  then show "b AND 0x3f = c AND 0x3f" by (simp add: and.assoc bit.conj_disj_distrib2)
qed simp

text \<open>
  an idempotency key is a version-4 UUID in its canonical form: 36 visible characters with
  hyphens at their places, the version and the variant in theirs. Two keys are equal only when all
  the random bits behind them that are not fixed by the format are.
\<close>

theorem idempotency_key_format:
  assumes "length bs = 16" and "length cs = 16"
  shows "length (new_idempotency_key bs) = 36"
    and "\<forall>i \<in> {8, 13, 18, 23}. new_idempotency_key bs ! i = CHR ''-''"
    and "new_idempotency_key bs ! 14 = CHR ''4''" and "new_idempotency_key bs ! 19 \<in> set ''89ab''"
    and "\<forall>c \<in> set (new_idempotency_key bs). visible c"
    and "new_idempotency_key bs = new_idempotency_key cs \<longleftrightarrow>
      (\<forall>i < 16. if i = 6 then bs ! i AND 0x0f = cs ! i AND 0x0f
        else if i = 8 then bs ! i AND 0x3f = cs ! i AND 0x3f else bs ! i = cs ! i)"
proof -
  define es where "es = uuid_bytes bs"
  have len: "length es = 16" "length (uuid_bytes cs) = 16" using assms by (simp_all add: es_def uuid_bytes_def)
  have key: "new_idempotency_key bs = uuid_text 0 [es ! 0, es ! 1, es ! 2, es ! 3, es ! 4, es ! 5, es ! 6, es ! 7,
      es ! 8, es ! 9, es ! 10, es ! 11, es ! 12, es ! 13, es ! 14, es ! 15]"
    unfolding new_idempotency_key_def es_def [symmetric] by (subst list_of_16 [OF len(1)]) (rule refl)
  show "length (new_idempotency_key bs) = 36" unfolding key by simp
  show "\<forall>i \<in> {8, 13, 18, 23}. new_idempotency_key bs ! i = CHR ''-''" unfolding key by simp
  have n: "new_idempotency_key bs ! 14 = hex_char (unat (drop_bit 4 (es ! 6)))"
    "new_idempotency_key bs ! 19 = hex_char (unat (drop_bit 4 (es ! 8)))"
    unfolding key by simp_all
  have es: "es ! 6 = (bs ! 6 AND 0x0f) OR 0x40" "es ! 8 = (bs ! 8 AND 0x3f) OR 0x80"
    using assms(1) by (simp_all add: es_def uuid_bytes_def)
  show "new_idempotency_key bs ! 14 = CHR ''4''"
    unfolding n es version_nibble by (simp add: hex_char_values)
  show "new_idempotency_key bs ! 19 \<in> set ''89ab''"
    using variant_nibble [of "bs ! 8"] unfolding n es by (auto simp: hex_char_values)
  show "\<forall>c \<in> set (new_idempotency_key bs). visible c"
    by (auto simp: new_idempotency_key_def dest: uuid_text_visible)
  have "new_idempotency_key bs = new_idempotency_key cs \<longleftrightarrow> uuid_bytes bs = uuid_bytes cs"
    using len by (simp add: new_idempotency_key_def es_def uuid_text_inject)
  also have "\<dots> \<longleftrightarrow> (\<forall>i < 16. uuid_bytes bs ! i = uuid_bytes cs ! i)"
    using len by (simp add: list_eq_iff_nth_eq es_def)
  also have "\<dots> \<longleftrightarrow> (\<forall>i < 16. if i = 6 then bs ! i AND 0x0f = cs ! i AND 0x0f
        else if i = 8 then bs ! i AND 0x3f = cs ! i AND 0x3f else bs ! i = cs ! i)"
    by (intro all_cong1 imp_cong refl) (use assms in \<open>simp add: uuid_bytes_nth version_inject variant_inject\<close>)
  finally show "new_idempotency_key bs = new_idempotency_key cs \<longleftrightarrow>
      (\<forall>i < 16. if i = 6 then bs ! i AND 0x0f = cs ! i AND 0x0f
        else if i = 8 then bs ! i AND 0x3f = cs ! i AND 0x3f else bs ! i = cs ! i)" .
qed

section \<open>Spooled and replayed\<close>

lemma deliver_spooled:
  assumes "deliver X C net jitter req 0 (c, w) = (DeliverySpooled, (c1, w1))" and "cl_spool c = Some sp"
  shows "cl_spool c1 = Some sp \<and> spool_append X C sp \<lparr>so_key = snd req, so_body = fst req\<rparr> w = (Inr (), w1)"
proof -
  obtain n where n: "delivered_as X C net req (unat (bo_max_retries (cl_backoff c))) n (c, w) (DeliverySpooled, c1, w1)"
    using deliver_from [OF assms(1)] by auto
  then have c1: "c1 = c\<lparr>cl_sent := (cl_sent c @ replicate n req) @ [req], cl_slept := cl_slept c1\<rparr>"
    by (simp add: delivered_as_def Let_def)
  have "cl_spool c1 = Some sp" using arg_cong [OF c1, of cl_spool] assms(2) by simp
  moreover have "spool_append X C sp \<lparr>so_key = snd req, so_body = fst req\<rparr> w = (Inr (), w1)"
    using n assms(2)
    by (cases "net (cl_sent c @ replicate n req) req")
      (auto simp: delivered_as_def Let_def exhausted_def split: prod.splits sum.splits)
  ultimately show ?thesis ..
qed

text \<open>
  C31: a spooled event arrives. An event that was reported spooled into an intact spool is in the
  next replay that runs without failure against a transport that asks for no retry: it is sent with
  the body and key of its first attempts, after all the events spooled before it, and the spool is
  empty then.
\<close>

theorem spooled_event_is_redelivered:
  assumes "codec_ok C" and "cl_spool c = Some sp" and "spool_holds X C rs [] sp w" and "sp_path sp \<noteq> []"
    and "deliver X C net jitter req 0 (c, w) = (DeliverySpooled, (c1, w1))"
    and "\<And>sent q. \<not> is_retry (net' sent q)"
    and "drain_spool X C net' (c1, w1) = (Inr rep, (c2, w2))"
  shows "cl_sent c2 = cl_sent c1 @ map req_of rs @ [req] \<and>
    dp_delivered rep + dp_discarded rep = Suc (length rs) \<and> spooled X C c2 w2 = Inr 0"
proof -
  let ?r = "\<lparr>so_key = snd req, so_body = fst req\<rparr>"
  have sp: "cl_spool c1 = Some sp" and ap: "spool_append X C sp ?r w = (Inr (), w1)"
    using deliver_spooled [OF assms(5,2)] by auto
  have h: "spool_holds X C (rs @ [?r]) [] sp w1"
    using assms(3) ap by (cases rule: spool_append_cases) auto
  obtain sent' sp' where dr: "spool_drain X C net' (cl_sent c1) (sp, w1) = (Inr rep, sent', (sp', w2))"
      and c2: "c2 = c1\<lparr>cl_spool := Some sp', cl_sent := sent'\<rparr>"
    using assms(7) sp by (auto simp: drain_spool_def split: prod.splits)
  show ?thesis
    using spool_drain_all [OF assms(1) h assms(4) dr assms(6)] c2 by (simp add: req_of_def spooled_def spool_length_def)
qed

section \<open>Witnesses\<close>

definition demo_record :: spool_record where
  "demo_record = \<lparr>so_key = ''k'', so_body = [9]\<rparr>"

definition demo_record_codec :: "spool_record codec" where
  "demo_record_codec = \<lparr>c_ser = (\<lambda>r. if r = demo_record then Inr [1, 2, 3] else Inl (Encode (CodecFailed ''record''))),
     c_de = (\<lambda>b. if b = [1, 2, 3] then Inr demo_record else Inl (Encode (CodecFailed ''record'')))\<rparr>"

definition demo_spool :: spool where
  "demo_spool = \<lparr>sp_path = [''s''], sp_attached = True\<rparr>"

definition demo_spool_fs :: "bytes \<Rightarrow> fs" where
  "demo_spool_fs bs = \<lparr>fs_files = [([''s''], bs)], fs_dirs = [], fs_faults = []\<rparr>"

lemma demo_record_codec_ok: "codec_ok demo_record_codec"
  by (auto simp: codec_ok_def demo_record_codec_def split: if_splits)

lemma demo_payload: "spool_payload demo_record_codec demo_record = Inr [1, 2, 3]"
  by (simp add: spool_payload_def demo_record_codec_def u32_max_nat_def)

lemma demo_spool_fs_simps [simp]: "fget (demo_spool_fs bs) [''s''] = Some bs" "quiet (demo_spool_fs bs)"
  by (simp_all add: demo_spool_fs_def fget_def quiet_def)

lemma demo_append:
  "spool_append demo_ext demo_record_codec demo_spool demo_record (demo_spool_fs bs) =
     (Inr (), fput [''s''] (bs @ spool_frame demo_ext [1, 2, 3]) (demo_spool_fs bs))"
  by (simp add: spool_append_def demo_payload seqE_def liftE_def spool_write_def demo_spool_def fs_append_all_def
      fs_append_raw_quiet fs_sync_def)

lemma demo_holds: "spool_holds demo_ext demo_record_codec [] t demo_spool (demo_spool_fs t)"
  by (simp add: spool_holds_def demo_spool_def)

lemma demo_path [simp]: "sp_path demo_spool = [''s'']"
  by (simp add: demo_spool_def)

lemma spool_open_quiet:
  assumes "quiet w" and "fget w [''s''] = Some bs"
  shows "\<exists>sp' w'. spool_open X [''s''] w = (Inr sp', w')"
  using assms by (simp add: spool_open_def seqE_def fs_create_dir_all_def fs_open_create_def fs_truncate_def retE_def quiet_def)


lemma write_survivors_quiet:
  assumes "quiet w" and "payloads C rs ps" and "p \<noteq> []"
  shows "\<exists>w'. write_survivors X C p rs w = (Inr (), w') \<and> quiet w'"
proof -
  have rec: "\<exists>w'. write_record X C q r v = (Inr (), w') \<and> quiet w' \<and> (\<exists>b. fget w' q = Some b)"
    if "quiet v" "spool_payload C r = Inr b0" "fget v q = Some b" for v q r b b0
    using that by (simp add: write_record_def seqE_def liftE_def fs_append_all_def fs_append_raw_quiet)
  have recs: "payloads C rs ps \<Longrightarrow> quiet v \<Longrightarrow> fget v q = Some b \<Longrightarrow>
      \<exists>w'. forE rs (write_record X C q) v = (Inr (), w') \<and> quiet w' \<and> (\<exists>b. fget w' q = Some b)" for v q b
  proof (induction rs arbitrary: ps v b)
    case (Cons r rs)
    then obtain b0 qs where "spool_payload C r = Inr b0" and qs: "payloads C rs qs" by auto
    with rec Cons.prems obtain v' b' where "write_record X C q r v = (Inr (), v')" "quiet v'" "fget v' q = Some b'"
      by blast
    with Cons.IH [OF qs] show ?case by (auto simp: seqE_def)
  qed (auto simp: retE_def)
  let ?t = "spool_tmp p"
  obtain w2 b where w2: "forE rs (write_record X C ?t) (fput ?t [] w) = (Inr (), w2)" "quiet w2" "fget w2 ?t = Some b"
    using recs [OF assms(2), of "fput ?t [] w" ?t "[]"] assms(1) by auto
  then show ?thesis using assms(1)
    by (simp add: write_survivors_def seqE_def fs_create_truncated_def fs_sync_def fs_rename_file_def)
qed

lemma spool_drain_quiet:
  assumes "codec_ok C" "spool_holds X C rs t sp w" "torn_tail t" "quiet w" "sp_path sp \<noteq> []"
  shows "\<exists>rep sent' sp' w'. spool_drain X C net sent (sp, w) = (Inr rep, sent', (sp', w'))"
proof -
  obtain ps where ps: "payloads C rs ps" using assms(2) by (auto simp: spool_holds_def)
  obtain rep stay sent1 where loop: "drain_loop net rs False sent drain_report_default = (rep, stay, sent1)"
    by (metis surj_pair)
  from drain_loop_correct [OF this] obtain gone where "rs = gone @ stay" by blast
  with ps obtain qs where "payloads C stay qs" unfolding payloads_def by (metis list_all2_append1)
  from write_survivors_quiet [OF assms(4) this assms(5)] obtain w1 where
    "write_survivors X C (sp_path sp) stay w = (Inr (), w1)" "quiet w1" by blast
  then show ?thesis using loop spool_holds_read [OF assms(1-3)]
    by (simp add: spool_drain_def spool_rewrite_def)
qed

theorem spool_drain_correct_witness:
  "\<exists>rep sent' sp' w'. spool_drain demo_ext demo_record_codec (\<lambda>_ _. SendRetry ''down'') []
     (demo_spool, demo_spool_fs []) = (Inr rep, sent', (sp', w')) \<and> dp_kept rep = 0"
proof -
  obtain rep sent' sp' w' where run: "spool_drain demo_ext demo_record_codec (\<lambda>_ _. SendRetry ''down'') []
      (demo_spool, demo_spool_fs []) = (Inr rep, sent', (sp', w'))"
    using spool_drain_quiet [OF demo_record_codec_ok demo_holds torn_tail_Nil] by fastforce
  from spool_drain_correct [OF demo_record_codec_ok demo_holds _ run] run show ?thesis by auto
qed

theorem spooled_behind_torn_frame_is_lost_witness:
  "let w = demo_spool_fs (take 8 (spool_frame demo_ext (replicate 100 0)))
   in \<exists>w1. spool_append demo_ext demo_record_codec demo_spool demo_record w = (Inr (), w1) \<and>
     spool_read_all demo_ext demo_record_codec demo_spool w1 = Inr []"
proof -
  let ?t = "take 8 (spool_frame demo_ext (replicate 100 0))"
  let ?w1 = "fput [''s''] (?t @ spool_frame demo_ext [1, 2, 3]) (demo_spool_fs ?t)"
  have torn: "torn_tail (?t @ spool_frame demo_ext [1, 2, 3])"
    using torn_prefix_more [of 8 "spool_frame demo_ext [1, 2, 3]" "replicate 100 0" demo_ext] by (simp add: u32_max_nat_def)
  have h1: "spool_holds demo_ext demo_record_codec [] (?t @ spool_frame demo_ext [1, 2, 3]) demo_spool ?w1"
    by (simp add: spool_holds_def demo_spool_def)
  obtain rep sent' sp' w2 where run: "spool_drain demo_ext demo_record_codec (\<lambda>_ _. SendAccepted) []
      (demo_spool, ?w1) = (Inr rep, sent', (sp', w2))"
    using spool_drain_quiet [OF demo_record_codec_ok h1 torn] by fastforce
  have "spool_read_all demo_ext demo_record_codec demo_spool ?w1 = Inr []"
    by (rule spooled_behind_torn_frame_is_lost
          [OF demo_record_codec_ok demo_holds _ demo_payload _ _ demo_append _ run, THEN conjunct1])
      (simp_all add: u32_max_nat_def)
  with demo_append show ?thesis by (auto simp: Let_def)
qed

theorem idempotency_key_format_witness:
  "length (new_idempotency_key (replicate 16 7)) = 36 \<and>
   new_idempotency_key (replicate 16 0) \<noteq> new_idempotency_key (replicate 16 1)"
  using idempotency_key_format(1) [of "replicate 16 7" "replicate 16 7"]
    idempotency_key_format(6) [of "replicate 16 0" "replicate 16 1"] by (auto dest!: spec [of _ 0])

theorem spooled_event_is_redelivered_witness:
  "let c = with_spool demo_spool client_new; req = (so_body demo_record, so_key demo_record)
   in \<exists>c1 w1 c2 w2 rep. deliver demo_ext demo_record_codec (\<lambda>_ _. SendRetry ''down'') (\<lambda>_. 0) req 0 (c, demo_spool_fs [])
       = (DeliverySpooled, (c1, w1)) \<and>
     drain_spool demo_ext demo_record_codec (\<lambda>_ _. SendAccepted) (c1, w1) = (Inr rep, (c2, w2)) \<and>
     cl_sent c2 = cl_sent c1 @ [req]"
proof -
  let ?c = "with_spool demo_spool client_new" and ?req = "(so_body demo_record, so_key demo_record)"
  let ?net = "\<lambda>(_ :: request list) (_ :: request). SendRetry ''down''"
  have sp: "cl_spool ?c = Some demo_spool" by (simp add: with_spool_def)
  have r: "\<lparr>so_key = snd ?req, so_body = fst ?req\<rparr> = demo_record" by simp
  obtain d c1 w1 where del0: "deliver demo_ext demo_record_codec ?net (\<lambda>_. 0) ?req 0 (?c, demo_spool_fs []) = (d, (c1, w1))"
    by (metis surj_pair)
  obtain n where n: "delivered_as demo_ext demo_record_codec ?net ?req (unat (bo_max_retries (cl_backoff ?c))) n
      (?c, demo_spool_fs []) (d, c1, w1)"
    using deliver_from [OF del0] by auto
  have ex: "exhausted demo_ext demo_record_codec ?req ''down'' (c0, demo_spool_fs []) =
      (DeliverySpooled, (c0, fput [''s''] ([] @ spool_frame demo_ext [1, 2, 3]) (demo_spool_fs [])))"
    if "cl_spool c0 = Some demo_spool" for c0
    using that demo_append [of "[]"] unfolding exhausted_def r by simp
  have out: "d = DeliverySpooled" "w1 = fput [''s''] ([] @ spool_frame demo_ext [1, 2, 3]) (demo_spool_fs [])"
    and c1: "c1 = ?c\<lparr>cl_sent := (cl_sent ?c @ replicate n ?req) @ [?req], cl_slept := cl_slept c1\<rparr>"
    using n sp by (auto simp: delivered_as_def Let_def ex)
  have sp1: "cl_spool c1 = Some demo_spool" using arg_cong [OF c1, of cl_spool] sp by simp
  have del: "deliver demo_ext demo_record_codec ?net (\<lambda>_. 0) ?req 0 (?c, demo_spool_fs []) = (DeliverySpooled, (c1, w1))"
    using del0 out(1) by simp
  note w1 = out(2)
  have h1: "spool_holds demo_ext demo_record_codec [demo_record] [] demo_spool w1"
    by (simp add: spool_holds_def demo_spool_def w1 demo_payload)
  have "quiet w1" by (simp add: w1)
  then obtain rep sent' sp' w2 where dr: "spool_drain demo_ext demo_record_codec (\<lambda>_ _. SendAccepted) (cl_sent c1)
      (demo_spool, w1) = (Inr rep, sent', (sp', w2))"
    using spool_drain_quiet [OF demo_record_codec_ok h1 torn_tail_Nil] by fastforce
  then obtain c2 where run: "drain_spool demo_ext demo_record_codec (\<lambda>_ _. SendAccepted) (c1, w1) = (Inr rep, (c2, w2))"
    using sp1 by (simp add: drain_spool_def)
  have "cl_sent c2 = cl_sent c1 @ map req_of [] @ [?req]"
    by (rule spooled_event_is_redelivered [OF demo_record_codec_ok sp demo_holds _ del _ run, THEN conjunct1]) simp_all
  with del run show ?thesis by (auto simp: Let_def)
qed

theorem deliver_correct_witness:
  "let c = client_backoff (backoff_default\<lparr>bo_max_retries := 0\<rparr>) client_new
   in \<exists>c'. deliver demo_ext demo_record_codec (\<lambda>_ _. SendRetry ''down'') (\<lambda>_. 0) ([1], ''k'') 0 (c, demo_spool_fs [])
       = (DeliveryDropped ''down'' None, (c', demo_spool_fs [])) \<and> cl_sent c' = [([1], ''k'')]"
  using deliver_correct [of demo_ext demo_record_codec "\<lambda>_ _. SendRetry ''down''" "\<lambda>_. 0" "([1], ''k'')"
      "client_backoff (backoff_default\<lparr>bo_max_retries := 0\<rparr>) client_new" "demo_spool_fs []"]
  by (auto simp: Let_def client_new_def client_backoff_def)

end
