(* ===== verification/Server_Auth.thy ===== *)
theory Server_Auth
  imports Access_Log Permissions Key_Ring
begin

text \<open>
  Bearer tokens and grants of the server (\<open>crates/quipu-server/src/auth.rs\<close> and the auth section of
  \<open>crates/quipu-server/src/config.rs\<close>). A hash map is an association list; a loop over one runs
  over it in some order, and the result is shown not to depend on it.
\<close>

definition HASH_PREFIX :: string where "HASH_PREFIX = ''sha256:''"

definition token_sha256_hex :: "cryptoext \<Rightarrow> string \<Rightarrow> string" where
  "token_sha256_hex K token = sha256_hex K (as_bytes token)"

section \<open>The token map\<close>

record token_entry =
  te_role :: string
  te_expires :: "u64 option"

type_synonym token_map = "(string \<times> token_entry) list"

definition token_insert :: "string \<Rightarrow> token_entry \<Rightarrow> token_map \<Rightarrow> bool \<times> token_map" where
  "token_insert hash e m = (if map_of m hash \<noteq> None then (False, m) else (True, (hash, e) # m))"

definition contains_hash :: "token_map \<Rightarrow> string \<Rightarrow> bool" where
  "contains_hash m hash \<longleftrightarrow> map_of m hash \<noteq> None"

definition token_hashes :: "token_map \<Rightarrow> string list" where
  "token_hashes m = map fst m"

record auth_state =
  as_tokens :: token_map
  as_policy :: permission_policy
  as_max_concurrent_queries :: "u32 option"

text \<open>The role behind \<open>Authorization: Bearer <token>\<close>, and the token's hash.\<close>

definition role_for :: "httpext \<Rightarrow> cryptoext \<Rightarrow> headers \<Rightarrow> token_map \<Rightarrow> u64 \<Rightarrow> (role \<times> string) option" where
  "role_for H K hs tokens now_secs =
     Option.bind (header_str H hs ''authorization'') (\<lambda>v.
     Option.bind (strip_prefix ''Bearer '' v) (\<lambda>token.
       let hash = token_sha256_hex K token
       in Option.bind (map_of tokens hash) (\<lambda>entry.
            if (case te_expires entry of Some exp \<Rightarrow> now_secs \<ge> exp | None \<Rightarrow> False) then None
            else Some (te_role entry, hash))))"

section \<open>The auth section of the configuration\<close>

datatype token_spec = TokenRole string | TokenDetailed string "u64 option"

fun token_spec_role :: "token_spec \<Rightarrow> string" where
  "token_spec_role (TokenRole r) = r"
| "token_spec_role (TokenDetailed r _) = r"

fun token_spec_expires :: "token_spec \<Rightarrow> u64 option" where
  "token_spec_expires (TokenRole _) = None"
| "token_spec_expires (TokenDetailed _ e) = e"

datatype action_spec = SpecEmit | SpecQuery | SpecAdminister

fun action_of_spec :: "action_spec \<Rightarrow> action" where
  "action_of_spec SpecEmit = AEmit"
| "action_of_spec SpecQuery = AQuery"
| "action_of_spec SpecAdminister = AAdminister"

record auth_section =
  au_tokens :: "(string \<times> token_spec) list"
  au_grants :: "(string \<times> action_spec list) list"
  au_max_concurrent_queries :: "u32 option"

datatype auth_error = NotHexSha256 string | TokenListedTwice

definition lower_char :: "char \<Rightarrow> char" where
  "lower_char c = (let n = of_char c :: nat in if 65 \<le> n \<and> n \<le> 90 then char_of (n + 32) else c)"

definition is_hexdigit :: "char \<Rightarrow> bool" where
  "is_hexdigit c \<longleftrightarrow> (let n = of_char c :: nat
     in (48 \<le> n \<and> n \<le> 57) \<or> (65 \<le> n \<and> n \<le> 70) \<or> (97 \<le> n \<and> n \<le> 102))"

text \<open>The hash of one key of the section.\<close>

definition token_key_hash :: "cryptoext \<Rightarrow> string \<Rightarrow> auth_error + string" where
  "token_key_hash K key =
     (case strip_prefix HASH_PREFIX key of
        Some digits \<Rightarrow>
          let digits = map lower_char digits
          in if length digits \<noteq> 64 \<or> \<not> list_all is_hexdigit digits then Inl (NotHexSha256 digits) else Inr digits
      | None \<Rightarrow> Inr (token_sha256_hex K key))"

definition token_spec_entry :: "token_spec \<Rightarrow> token_entry" where
  "token_spec_entry spec = \<lparr>te_role = token_spec_role spec, te_expires = token_spec_expires spec\<rparr>"

fun token_map_from :: "cryptoext \<Rightarrow> (string \<times> token_spec) list \<Rightarrow> token_map \<Rightarrow> auth_error + token_map" where
  "token_map_from K [] m = Inr m"
| "token_map_from K ((key, spec) # rest) m =
     rbind (token_key_hash K key) (\<lambda>hash.
       case token_insert hash (token_spec_entry spec) m of
         (True, m') \<Rightarrow> token_map_from K rest m'
       | (False, _) \<Rightarrow> Inl TokenListedTwice)"

definition token_map_of :: "cryptoext \<Rightarrow> auth_section \<Rightarrow> auth_error + token_map" where
  "token_map_of K s = token_map_from K (au_tokens s) []"

text \<open>Deny by default.\<close>

definition permission_policy_of :: "auth_section \<Rightarrow> permission_policy" where
  "permission_policy_of s =
     fold (\<lambda>(r, specs) pol. pp_grant r (map action_of_spec specs) pol) (au_grants s) deny_by_default"

definition auth_state_of :: "cryptoext \<Rightarrow> auth_section \<Rightarrow> auth_error + auth_state" where
  "auth_state_of K s =
     rbind (token_map_of K s) (\<lambda>m.
     Inr \<lparr>as_tokens = m, as_policy = permission_policy_of s, as_max_concurrent_queries = au_max_concurrent_queries s\<rparr>)"

section \<open>Facts\<close>

text \<open>The outcome of the loop: an entry per key, when all keys are good and their hashes differ.\<close>

definition keys_good :: "cryptoext \<Rightarrow> (string \<times> token_spec) list \<Rightarrow> bool" where
  "keys_good K ts \<longleftrightarrow> (\<forall>t \<in> set ts. \<exists>h. token_key_hash K (fst t) = Inr h) \<and>
     distinct (map (\<lambda>t. token_key_hash K (fst t)) ts)"

lemma token_map_from_good:
  assumes "keys_good K ts" and "\<And>t h. t \<in> set ts \<Longrightarrow> token_key_hash K (fst t) = Inr h \<Longrightarrow> map_of m h = None"
  shows "\<exists>m'. token_map_from K ts m = Inr m' \<and>
    (\<forall>h. map_of m' h = (case find (\<lambda>t. token_key_hash K (fst t) = Inr h) ts of
       Some t \<Rightarrow> Some (token_spec_entry (snd t)) | None \<Rightarrow> map_of m h))"
  using assms
proof (induction ts arbitrary: m)
  case Nil
  then show ?case by simp
next
  case (Cons t ts)
  obtain key spec where t: "t = (key, spec)" by (cases t)
  obtain h where h: "token_key_hash K key = Inr h" using Cons.prems(1) t by (auto simp: keys_good_def)
  let ?m = "(h, token_spec_entry spec) # m"
  have new: "map_of m h = None" using Cons.prems(2) [of t h] t h by simp
  have good: "keys_good K ts" using Cons.prems(1) by (simp add: keys_good_def)
  have fresh: "token_key_hash K (fst u) \<noteq> Inr h" if "u \<in> set ts" for u
    using Cons.prems(1) t h that by (auto simp: keys_good_def image_iff)
  obtain m' where m': "token_map_from K ts ?m = Inr m'"
      "\<forall>k. map_of m' k = (case find (\<lambda>t. token_key_hash K (fst t) = Inr k) ts of
         Some t \<Rightarrow> Some (token_spec_entry (snd t)) | None \<Rightarrow> map_of ?m k)"
    using Cons.IH [OF good, of ?m] Cons.prems(2) fresh by force
  have "find (\<lambda>t. token_key_hash K (fst t) = Inr h) ts = None" using fresh by (auto simp: find_None_iff)
  then have "\<forall>k. map_of m' k = (case find (\<lambda>t. token_key_hash K (fst t) = Inr k) (t # ts) of
         Some t \<Rightarrow> Some (token_spec_entry (snd t)) | None \<Rightarrow> map_of m k)"
    using m'(2) t h by (auto split: option.splits)
  then show ?case using m'(1) t h new by (simp add: token_insert_def rbind_def)
qed

lemma token_map_from_only_good:
  "token_map_from K ts m = Inr m' \<Longrightarrow> keys_good K ts \<and>
     (\<forall>t \<in> set ts. \<forall>h. token_key_hash K (fst t) = Inr h \<longrightarrow> map_of m h = None)"
proof (induction ts arbitrary: m)
  case Nil
  then show ?case by (simp add: keys_good_def)
next
  case (Cons t ts)
  obtain key spec where t: "t = (key, spec)" by (cases t)
  obtain h where h: "token_key_hash K key = Inr h" "map_of m h = None"
      "token_map_from K ts ((h, token_spec_entry spec) # m) = Inr m'"
    using Cons.prems t by (auto simp: rbind_def token_insert_def split: sum.splits prod.splits bool.splits if_splits)
  have rest: "keys_good K ts"
    "\<forall>u \<in> set ts. \<forall>k. token_key_hash K (fst u) = Inr k \<longrightarrow> k \<noteq> h \<and> map_of m k = None"
    using Cons.IH [OF h(3)] by (auto split: if_splits)
  have "token_key_hash K (fst u) \<noteq> token_key_hash K key" if "u \<in> set ts" for u
    using rest(2) that h(1) by fastforce
  then have "token_key_hash K key \<notin> (\<lambda>t. token_key_hash K (fst t)) ` set ts" by force
  with rest h t show ?case by (auto simp: keys_good_def)
qed

lemma policy_of_grants:
  "is_allowed (permission_policy_of s) r a \<longleftrightarrow>
     (\<exists>specs. (r, specs) \<in> set (au_grants s) \<and> a \<in> action_of_spec ` set specs)"
proof -
  have "is_allowed (fold (\<lambda>(r, specs) pol. pp_grant r (map action_of_spec specs) pol) gs pol) r a \<longleftrightarrow>
      (\<exists>specs. (r, specs) \<in> set gs \<and> a \<in> action_of_spec ` set specs) \<or>
      (if \<exists>specs. (r, specs) \<in> set gs then map_of (pp_grants pol) r \<noteq> None \<and> is_allowed pol r a
       else is_allowed pol r a)" if "\<not> pp_default_allow pol" for gs pol
    using that
  proof (induction gs arbitrary: pol)
    case (Cons g gs)
    obtain r' specs where g: "g = (r', specs)" by (cases g)
    have d: "\<not> pp_default_allow (pp_grant r' (map action_of_spec specs) pol)"
      using Cons.prems by (simp add: pp_grant_def Let_def)
    have k: "map_of (pp_grants (pp_grant r' (map action_of_spec specs) pol)) r \<noteq> None \<longleftrightarrow> r = r' \<or> map_of (pp_grants pol) r \<noteq> None"
      by (auto simp: pp_grant_def Let_def update_conv')
    show ?case using Cons.IH [OF d] g k by (auto simp: is_allowed_grant)
  qed simp
  from this [of deny_by_default "au_grants s"] show ?thesis
    by (auto simp: permission_policy_of_def deny_by_default_def is_allowed_def split: if_splits)
qed

end
