(* ===== verification/Server_State.thy ===== *)
theory Server_State
  imports Server_Auth Pipeline_Handle
begin

text \<open>
  The shared state of the HTTP server (\<open>crates/quipu-server/src/api.rs\<close>): the window of idempotency
  keys, the query slots of the tokens, the verification guard and the reload of the auth section.
  Each operation is what happens under one lock.
\<close>

section \<open>The idempotency window\<close>

definition DEFAULT_IDEMPOTENCY_WINDOW :: nat where "DEFAULT_IDEMPOTENCY_WINDOW = 65536"

record dedup_window =
  dw_capacity :: nat
  dw_seen :: "string set"
  dw_order :: "string list"

definition dedup_new :: "nat \<Rightarrow> dedup_window" where
  "dedup_new capacity = \<lparr>dw_capacity = capacity, dw_seen = {}, dw_order = []\<rparr>"

definition dedup_evict :: "dedup_window \<Rightarrow> dedup_window" where
  "dedup_evict d =
     (if length (dw_order d) \<ge> dw_capacity d
      then (case dw_order d of
              [] \<Rightarrow> d
            | old # rest \<Rightarrow> d\<lparr>dw_order := rest, dw_seen := dw_seen d - {old}\<rparr>)
      else d)"

definition dedup_insert :: "string \<Rightarrow> dedup_window \<Rightarrow> bool \<times> dedup_window" where
  "dedup_insert key d =
     (if dw_capacity d = 0 then (True, d)
      else if key \<in> dw_seen d then (False, d)
      else
        let d1 = dedup_evict d
        in (True, d1\<lparr>dw_seen := insert key (dw_seen d1), dw_order := dw_order d1 @ [key]\<rparr>))"

text \<open>\<open>position\<close> then \<open>remove\<close>: the first occurrence.\<close>

definition dedup_remove :: "string \<Rightarrow> dedup_window \<Rightarrow> dedup_window" where
  "dedup_remove key d =
     (if key \<in> dw_seen d then d\<lparr>dw_seen := dw_seen d - {key}, dw_order := remove1 key (dw_order d)\<rparr> else d)"

section \<open>The application state\<close>

datatype query_slot = SlotUnlimited | SlotAcquired nat | SlotBusy

text \<open>
  A semaphore is its number of free permits, in a list by the order of creation: one that has left
  the map lives on while permits of it are out. The writer thread, the channel and the disk are the
  \<open>pipe\<close> behind the handle.
\<close>

record app_state =
  ap_pipe :: pipe
  ap_auth :: auth_state
  ap_slots :: "(string \<times> nat) list"
  ap_permits :: "nat list"
  ap_verify_running :: bool
  ap_verify_runs :: nat
  ap_dedup :: dedup_window

definition app_new :: "pipe \<Rightarrow> auth_state \<Rightarrow> app_state" where
  "app_new p auth = \<lparr>ap_pipe = p, ap_auth = auth, ap_slots = [], ap_permits = [], ap_verify_running = False,
     ap_verify_runs = 0, ap_dedup = dedup_new DEFAULT_IDEMPOTENCY_WINDOW\<rparr>"

definition idempotency_window :: "nat \<Rightarrow> app_state \<Rightarrow> app_state" where
  "idempotency_window capacity a = a\<lparr>ap_dedup := dedup_new capacity\<rparr>"

subsection \<open>The verification guard\<close>

text \<open>\<open>compare_exchange\<close>: whether the guard was free.\<close>

definition try_begin_verify :: "app_state \<Rightarrow> bool \<times> app_state" where
  "try_begin_verify a = (if ap_verify_running a then (False, a) else (True, a\<lparr>ap_verify_running := True\<rparr>))"

definition drop_verify_guard :: "app_state \<Rightarrow> app_state" where
  "drop_verify_guard a = a\<lparr>ap_verify_running := False\<rparr>"

definition count_verify_run :: "app_state \<Rightarrow> app_state" where
  "count_verify_run a = a\<lparr>ap_verify_runs := ap_verify_runs a + 1\<rparr>"

subsection \<open>Query slots\<close>

text \<open>The limit is read under the lock of the auth state, the semaphore is taken under that of the
  map: two steps.\<close>

definition slot_limit :: "app_state \<Rightarrow> u32 option" where
  "slot_limit a = as_max_concurrent_queries (ap_auth a)"

definition slot_entry :: "string \<Rightarrow> u32 \<Rightarrow> app_state \<Rightarrow> nat \<times> app_state" where
  "slot_entry token_hash limit a =
     (case map_of (ap_slots a) token_hash of
        Some s \<Rightarrow> (s, a)
      | None \<Rightarrow>
          let s = length (ap_permits a)
          in (s, a\<lparr>ap_slots := (token_hash, s) # ap_slots a, ap_permits := ap_permits a @ [unat limit]\<rparr>))"

definition slot_acquire :: "nat \<Rightarrow> app_state \<Rightarrow> query_slot \<times> app_state" where
  "slot_acquire s a =
     (if ap_permits a ! s = 0 then (SlotBusy, a)
      else (SlotAcquired s, a\<lparr>ap_permits := (ap_permits a)[s := ap_permits a ! s - 1]\<rparr>))"

definition slot_take :: "string \<Rightarrow> u32 option \<Rightarrow> app_state \<Rightarrow> query_slot \<times> app_state" where
  "slot_take token_hash limit a =
     (case limit of
        None \<Rightarrow> (SlotUnlimited, a)
      | Some n \<Rightarrow> (case slot_entry token_hash n a of (s, a1) \<Rightarrow> slot_acquire s a1))"

definition query_slot_of :: "string \<Rightarrow> app_state \<Rightarrow> query_slot \<times> app_state" where
  "query_slot_of token_hash a = slot_take token_hash (slot_limit a) a"

text \<open>The drop of a slot.\<close>

definition slot_release :: "query_slot \<Rightarrow> app_state \<Rightarrow> app_state" where
  "slot_release sl a =
     (case sl of
        SlotAcquired s \<Rightarrow> a\<lparr>ap_permits := (ap_permits a)[s := ap_permits a ! s + 1]\<rparr>
      | _ \<Rightarrow> a)"

subsection \<open>Reload of the auth section\<close>

datatype reload_error = LoadFailed io_error | AuthInvalid auth_error

text \<open>\<open>file\<close> is what reading and parsing the configuration file yields.\<close>

definition reload_next :: "cryptoext \<Rightarrow> io_error + auth_section \<Rightarrow> reload_error + auth_state" where
  "reload_next K file =
     (case file of
        Inl e \<Rightarrow> Inl (LoadFailed e)
      | Inr s \<Rightarrow> (case auth_state_of K s of Inl e \<Rightarrow> Inl (AuthInvalid e) | Inr next \<Rightarrow> Inr next))"

definition tokens_missing :: "token_map \<Rightarrow> token_map \<Rightarrow> nat" where
  "tokens_missing m m' = length (filter (\<lambda>h. \<not> contains_hash m h) (token_hashes m'))"

definition swap_auth :: "auth_state \<Rightarrow> app_state \<Rightarrow> app_state" where
  "swap_auth next a =
     (let a1 = (if as_max_concurrent_queries next \<noteq> as_max_concurrent_queries (ap_auth a)
                then a\<lparr>ap_slots := []\<rparr> else a)
      in a1\<lparr>ap_auth := next\<rparr>)"

definition reload_record :: "senv \<Rightarrow> uid \<Rightarrow> u64 \<Rightarrow> nat \<Rightarrow> nat \<Rightarrow> access_record" where
  "reload_record E u now added removed =
     access_new u now ''system'' ''auth_reload''
       (se_json E (JObject [(''tokens_added'', JNumber added), (''tokens_removed'', JNumber removed)])) None"

definition reload_auth ::
  "cryptoext \<Rightarrow> senv \<Rightarrow> uid \<Rightarrow> u64 \<Rightarrow> io_error + auth_section \<Rightarrow> app_state \<Rightarrow> (reload_error + unit) \<times> app_state" where
  "reload_auth K E u now file a =
     (case reload_next K file of
        Inl e \<Rightarrow> (Inl e, a)
      | Inr next \<Rightarrow>
          let added = tokens_missing (as_tokens (ap_auth a)) (as_tokens next);
              removed = tokens_missing (as_tokens next) (as_tokens (ap_auth a));
              a1 = swap_auth next a
          in (Inr (), a1\<lparr>ap_pipe := handle_record_access (reload_record E u now added removed) (ap_pipe a1)\<rparr>))"

section \<open>The window: invariant and refinement\<close>

text \<open>The set and the queue agree; the queue is no longer than the capacity.\<close>

definition dedup_inv :: "dedup_window \<Rightarrow> bool" where
  "dedup_inv d \<longleftrightarrow> dw_seen d = set (dw_order d) \<and> distinct (dw_order d) \<and> length (dw_order d) \<le> dw_capacity d"

lemma dedup_inv_new [simp]: "dedup_inv (dedup_new n)"
  by (simp add: dedup_inv_def dedup_new_def)

text \<open>As a list of keys: the last \<open>capacity\<close> ones.\<close>

definition window_push :: "nat \<Rightarrow> string \<Rightarrow> string list \<Rightarrow> string list" where
  "window_push n key ks = (if n = 0 \<or> key \<in> set ks then ks else drop (Suc (length ks) - n) (ks @ [key]))"

lemma dedup_insert_answer:
  "dedup_inv d \<Longrightarrow> fst (dedup_insert key d) \<longleftrightarrow> dw_capacity d = 0 \<or> key \<notin> set (dw_order d)"
  by (simp add: dedup_insert_def dedup_inv_def Let_def)

lemma dedup_capacity [simp]:
  "dw_capacity (snd (dedup_insert key d)) = dw_capacity d" "dw_capacity (dedup_remove key d) = dw_capacity d"
  by (auto simp: dedup_insert_def dedup_evict_def dedup_remove_def Let_def split: list.splits)

lemma dedup_insert_order:
  assumes "dedup_inv d"
  shows "dw_order (snd (dedup_insert key d)) = window_push (dw_capacity d) key (dw_order d)"
    and "dedup_inv (snd (dedup_insert key d))"
proof -
  have "dw_order (snd (dedup_insert key d)) = window_push (dw_capacity d) key (dw_order d) \<and>
      dedup_inv (snd (dedup_insert key d))"
  proof (cases "dw_capacity d = 0 \<or> key \<in> dw_seen d")
    case True
    then have "snd (dedup_insert key d) = d" by (auto simp: dedup_insert_def)
    moreover have "window_push (dw_capacity d) key (dw_order d) = dw_order d"
      using True assms by (simp add: window_push_def dedup_inv_def)
    ultimately show ?thesis using assms by simp
  next
    case False
    show ?thesis
    proof (cases "length (dw_order d) < dw_capacity d")
      case True
      have seen: "dw_seen d = set (dw_order d)" "distinct (dw_order d)" "key \<notin> set (dw_order d)"
        using assms False by (auto simp: dedup_inv_def)
      have ins: "dedup_insert key d = (True, d\<lparr>dw_seen := insert key (dw_seen d), dw_order := dw_order d @ [key]\<rparr>)"
        using False True by (simp add: dedup_insert_def dedup_evict_def Let_def)
      have "window_push (dw_capacity d) key (dw_order d) = dw_order d @ [key]"
        using False True seen(3) by (simp add: window_push_def)
      then show ?thesis using seen True by (simp add: ins dedup_inv_def)
    next
      case full: False
      then obtain old rest where o: "dw_order d = old # rest" "Suc (length rest) = dw_capacity d"
        using assms False by (cases "dw_order d") (auto simp: dedup_inv_def)
      have seen: "dw_seen d = set (old # rest)" "old \<notin> set rest" "distinct rest" "key \<notin> set (old # rest)"
        using assms o(1) False by (auto simp: dedup_inv_def)
      have ins: "dedup_insert key d =
          (True, d\<lparr>dw_order := rest @ [key], dw_seen := insert key (set (old # rest) - {old})\<rparr>)"
        using False full o(1) seen(1) by (simp add: dedup_insert_def dedup_evict_def Let_def)
      have "window_push (dw_capacity d) key (dw_order d) = rest @ [key]"
        using False seen(4) o by (simp add: window_push_def)
      moreover have "set (old # rest) - {old} = set rest" using seen(2) by simp
      ultimately show ?thesis using seen(3,4) o(2) by (simp add: ins dedup_inv_def)
    qed
  qed
  then show "dw_order (snd (dedup_insert key d)) = window_push (dw_capacity d) key (dw_order d)"
    and "dedup_inv (snd (dedup_insert key d))" by auto
qed

lemma dedup_remove_order:
  assumes "dedup_inv d"
  shows "dw_order (dedup_remove key d) = filter (\<lambda>k. k \<noteq> key) (dw_order d)" and "dedup_inv (dedup_remove key d)"
proof -
  have "length (remove1 key ks) \<le> length ks" for ks :: "string list" by (simp add: length_remove1)
  then show "dedup_inv (dedup_remove key d)"
    using assms by (auto simp: dedup_remove_def dedup_inv_def intro: order_trans)
  have "filter (\<lambda>k. k \<noteq> key) (dw_order d) = dw_order d" if "key \<notin> set (dw_order d)"
    using that by (intro filter_True) auto
  moreover have "filter (\<lambda>k. k \<noteq> key) ks = removeAll key ks" for ks :: "string list" by (induction ks) auto
  ultimately show "dw_order (dedup_remove key d) = filter (\<lambda>k. k \<noteq> key) (dw_order d)"
    using assms by (simp add: dedup_remove_def dedup_inv_def distinct_remove1_removeAll)
qed

end
