(* ===== verification/Server_Health.thy ===== *)
theory Server_Health
  imports Pipeline_System
begin

text \<open>
  What the server shows of itself (\<open>crates/quipu-server/src/api.rs\<close>): the health report behind
  \<open>GET /v1/healthz\<close> and the Prometheus text behind \<open>GET /metrics\<close>.
\<close>

section \<open>Health\<close>

text \<open>The reasons, with the data of their messages.\<close>

datatype health_reason =
    WriterDead
  | StoreDiskFull
  | RootNotWritable error
  | FreeSpaceLow disk_usage disk_thresholds
  | FreeSpaceLowReported

record health_report =
  hl_status :: string
  hl_reasons :: "health_reason list"

text \<open>Create, write, sync, remove; the removal is best effort.\<close>

definition probe_path :: "path \<Rightarrow> path" where
  "probe_path store_root = store_root @ [''.healthz-probe'']"

definition probe_write :: "path \<Rightarrow> (fs, error, unit) sop" where
  "probe_write store_root w =
     (let path = probe_path store_root
      in case seqE (fs_create_truncated path) (\<lambda>_. seqE (fs_append_all path (as_bytes ''probe'')) (\<lambda>_. fs_sync path)) w of
           (result, w1) \<Rightarrow> (result, snd (fs_remove_file path w1)))"

text \<open>The flags and reasons of each check, in the order of the code: unhealthy, degraded, reasons.\<close>

definition disk_verdict :: "health_state \<Rightarrow> io_error + disk_usage \<Rightarrow> health_reason list" where
  "disk_verdict h usage =
     (case usage of
        Inr u \<Rightarrow> if is_low (hs_thresholds h) u then [FreeSpaceLow u (hs_thresholds h)] else []
      | Inl _ \<Rightarrow> if hs_low_disk h then [FreeSpaceLowReported] else [])"

definition evaluate_health ::
  "health_state \<Rightarrow> path \<Rightarrow> io_error + statvfs \<Rightarrow> fs \<Rightarrow> health_report \<times> fs" where
  "evaluate_health h store_root answer w =
     (let dead = (if hs_writer_alive h then [] else [WriterDead]);
          full = (if hs_disk_full h then [StoreDiskFull] else []);
          (probe, w1) = probe_write store_root w;
          unwritable = (case probe of Inl e \<Rightarrow> [RootNotWritable e] | Inr _ \<Rightarrow> []);
          low = disk_verdict h (measure_disk answer);
          unhealthy = (dead @ full @ unwritable \<noteq> []);
          degraded = (low \<noteq> []);
          status = (if unhealthy then ''unhealthy'' else if degraded then ''degraded'' else ''ok'')
      in (\<lparr>hl_status = status, hl_reasons = dead @ full @ unwritable @ low\<rparr>, w1))"

definition health_code :: "health_report \<Rightarrow> nat" where
  "health_code r = (if hl_status r = ''unhealthy'' then 503 else 200)"

section \<open>Metrics\<close>

text \<open>All files below the root, on the list of all files. What cannot be read counts as nothing.\<close>

definition dir_size :: "path \<Rightarrow> fs \<Rightarrow> nat" where
  "dir_size root_dir w = sum_list (map (\<lambda>(p, c). length c) (filter (\<lambda>(p, c). strict_prefix root_dir p) (fs_files w)))"

text \<open>
  \<open>Display\<close> of an \<open>f64\<close> that is the float nearest to a decimal of at most 15 digits prints that decimal,
  without trailing zeros and without an exponent. The bounds are such, and the sum of the latencies is
  one while it is below \<open>10^15\<close> microseconds, some 31 years. \<open>digits\<close> is the number of decimals.
\<close>

fun strip_zeros :: "string \<Rightarrow> string" where
  "strip_zeros [] = []"
| "strip_zeros (c # cs) = (let r = strip_zeros cs in if r = [] \<and> c = CHR ''0'' then [] else c # r)"

definition show_decimal :: "nat \<Rightarrow> nat \<Rightarrow> string" where
  "show_decimal digits n =
     (let whole = dec (n div 10 ^ digits);
          part = strip_zeros (replicate (digits - length (dec (n mod 10 ^ digits))) CHR ''0'' @ dec (n mod 10 ^ digits))
      in if part = [] then whole else whole @ ''.'' @ part)"

definition NL :: string where "NL = [CHR 0x0A]"

definition metric_into :: "string \<Rightarrow> string \<Rightarrow> string \<Rightarrow> string \<Rightarrow> string \<Rightarrow> string" where
  "metric_into out name kind help v =
     out @ ''# HELP '' @ name @ '' '' @ help @ NL @ ''# TYPE '' @ name @ '' '' @ kind @ NL @ name @ '' '' @ v @ NL"

definition rejected_into :: "string \<Rightarrow> metrics_snapshot \<Rightarrow> string" where
  "rejected_into out m =
     out @ ''# HELP quipu_emit_rejected_total Emits rejected at the caller, by reason.'' @ NL @
     ''# TYPE quipu_emit_rejected_total counter'' @ NL @
     ''quipu_emit_rejected_total{reason=\"queue_full\"} '' @ dec (ms_rejected_queue_full m) @ NL @
     ''quipu_emit_rejected_total{reason=\"disk_full\"} '' @ dec (ms_rejected_disk_full m) @ NL"

definition bucket_into :: "string \<Rightarrow> nat \<times> nat \<Rightarrow> string" where
  "bucket_into out = (\<lambda>(bound, n).
     out @ ''quipu_write_latency_seconds_bucket{le=\"'' @ show_decimal 9 bound @ ''\"} '' @ dec n @ NL)"

definition latency_into :: "string \<Rightarrow> metrics_snapshot \<Rightarrow> string" where
  "latency_into out m =
     foldl bucket_into
       (out @ ''# HELP quipu_write_latency_seconds Wall time to durably persist one event (including retries).'' @ NL @
        ''# TYPE quipu_write_latency_seconds histogram'' @ NL) (ms_buckets m) @
     ''quipu_write_latency_seconds_bucket{le=\"+Inf\"} '' @ dec (ms_latency_count m) @ NL @
     ''quipu_write_latency_seconds_sum '' @ show_decimal 6 (ms_latency_sum_micros m) @ NL @
     ''quipu_write_latency_seconds_count '' @ dec (ms_latency_count m) @ NL"

definition flag :: "bool \<Rightarrow> string" where
  "flag b = dec (if b then 1 else 0)"

definition counters_into :: "string \<Rightarrow> metrics_snapshot \<Rightarrow> string" where
  "counters_into out m =
     (let out = metric_into out ''quipu_queue_depth'' ''gauge''
            ''Audit events enqueued but not yet picked up by the writer thread.'' (dec (ms_queue_depth m));
          out = metric_into out ''quipu_dlq_entries'' ''gauge''
            ''Events currently parked in the dead-letter queue.'' (dec (ms_dlq_entries m));
          out = metric_into out ''quipu_writes_ok_total'' ''counter''
            ''Events durably appended to the store.'' (dec (ms_writes_ok m));
          out = metric_into out ''quipu_write_retries_total'' ''counter''
            ''Failed write attempts that were retried.'' (dec (ms_write_retries m));
          out = metric_into out ''quipu_writes_parked_total'' ''counter''
            ''Events that exhausted retries (or hit disk-full) and went to the DLQ.'' (dec (ms_writes_parked m))
      in metric_into out ''quipu_events_lost_total'' ''counter''
            ''Events lost outright: store and DLQ both failed (fallback hook only).'' (dec (ms_events_lost m)))"

definition disk_into :: "string \<Rightarrow> nat \<Rightarrow> disk_usage option \<Rightarrow> string" where
  "disk_into out store_bytes disk =
     (let out = metric_into out ''quipu_store_bytes'' ''gauge''
            ''Total bytes on disk under the store root (all tables, registries, DLQ).'' (dec store_bytes)
      in case disk of
           None \<Rightarrow> out
         | Some d \<Rightarrow>
             let out = metric_into out ''quipu_disk_free_bytes'' ''gauge''
                   ''Free bytes on the filesystem holding the store root.'' (dec (unat (du_free_bytes d)))
             in metric_into out ''quipu_disk_total_bytes'' ''gauge''
                   ''Size of the filesystem holding the store root.'' (dec (unat (du_total_bytes d))))"

definition health_into :: "string \<Rightarrow> health_state \<Rightarrow> nat \<Rightarrow> string" where
  "health_into out h verify_runs =
     (let out = metric_into out ''quipu_writer_alive'' ''gauge''
            ''1 while the audit writer thread is running.'' (flag (hs_writer_alive h));
          out = metric_into out ''quipu_disk_full'' ''gauge''
            ''1 while the ENOSPC latch is set (writes failing for lack of space).'' (flag (hs_disk_full h));
          out = metric_into out ''quipu_disk_low'' ''gauge''
            ''1 while free disk space is below the warning thresholds.'' (flag (hs_low_disk h))
      in metric_into out ''quipu_verify_runs_total'' ''counter''
            ''Completed integrity verification passes since startup.'' (dec verify_runs))"

definition render_prometheus ::
  "metrics_snapshot \<Rightarrow> health_state \<Rightarrow> nat \<Rightarrow> disk_usage option \<Rightarrow> nat \<Rightarrow> string" where
  "render_prometheus m h store_bytes disk verify_runs =
     health_into (disk_into (latency_into (rejected_into (counters_into [] m) m) m) store_bytes disk) h verify_runs"

section \<open>Facts: health\<close>

lemma evaluate_health_report:
  assumes "evaluate_health h dir answer w = (r, w')"
  shows "hl_status r = (if \<not> hs_writer_alive h \<or> hs_disk_full h \<or> (\<exists>e. fst (probe_write dir w) = Inl e) then ''unhealthy''
      else if (case measure_disk answer of Inr u \<Rightarrow> is_low (hs_thresholds h) u | Inl _ \<Rightarrow> hs_low_disk h) then ''degraded''
      else ''ok'')"
    and "hl_reasons r = [] \<longleftrightarrow> hl_status r = ''ok''"
  using assms
  by (auto simp: evaluate_health_def Let_def disk_verdict_def split: prod.splits sum.splits if_splits)

text \<open>The probe touches no other file.\<close>

lemma same_but_fs_op: "(\<And>u. same_but p u (f u)) \<Longrightarrow> same_but p w (snd (fs_op f w))"
  by (cases "next_fault w" rule: prod.exhaust)
    (auto simp: fs_op_def split: option.splits dest!: next_fault_same [of w _ _ p] intro: same_but_trans)

lemma same_but_append_all: "same_but p w (snd (fs_append_all p bs w))"
proof -
  obtain fl w1 where n: "next_fault w = (fl, w1)" by (metis surj_pair)
  from next_fault_same [OF n, of p] have "same_but p w w1" by simp
  then show ?thesis
    by (auto simp: fs_append_all_def fs_append_raw_def n Let_def intro: same_but_fputI split: option.splits)
qed

lemma same_but_fdel: "same_but p w (fdel p w)"
  by (auto simp: same_but_def)

lemma same_but_remove_file: "same_but p w (snd (fs_remove_file p w))"
  by (auto simp: fs_remove_file_def intro!: same_but_fs_op same_but_fdel split: option.splits)

lemma same_but_seqE:
  assumes "same_but p w (snd (m w))" and "\<And>a u. same_but p u (snd (k a u))"
  shows "same_but p w (snd (seqE m k w))"
  using assms by (cases "m w" rule: prod.exhaust) (auto simp: seqE_def split: sum.splits intro: same_but_trans)

lemma probe_write_same: "same_but (probe_path dir) w (snd (probe_write dir w))"
proof -
  let ?m = "seqE (fs_create_truncated (probe_path dir))
    (\<lambda>_. seqE (fs_append_all (probe_path dir) (as_bytes ''probe'')) (\<lambda>_. fs_sync (probe_path dir)))"
  have "same_but (probe_path dir) w (snd (?m w))"
    unfolding fs_create_truncated_def fs_sync_def
    by (intro same_but_seqE same_but_fs_op same_but_append_all same_but_fput same_but_refl)
  then show ?thesis
    using same_but_trans same_but_remove_file by (auto simp: probe_write_def Let_def split: prod.splits)
qed

lemma probe_write_quiet:
  assumes "quiet w"
  shows "fst (probe_write dir w) = Inr () \<and> fget (snd (probe_write dir w)) (probe_path dir) = None"
  using assms
  by (simp add: probe_write_def seqE_def fs_create_truncated_def fs_append_all_def fs_append_raw_quiet fs_sync_def
      fs_remove_file_def Let_def)

section \<open>Facts: the exposition format\<close>

text \<open>A scraper: the lines that are not comments, each a sample's name with its labels, a blank and the value.\<close>

fun lines_from :: "string \<Rightarrow> string \<Rightarrow> string list" where
  "lines_from acc [] = (if acc = [] then [] else [acc])"
| "lines_from acc (c # cs) = (if c = CHR 0x0A then acc # lines_from [] cs else lines_from (acc @ [c]) cs)"

definition sample_of :: "string \<Rightarrow> string \<times> string" where
  "sample_of l = (takeWhile (\<lambda>c. c \<noteq> CHR '' '') l, drop 1 (dropWhile (\<lambda>c. c \<noteq> CHR '' '') l))"

definition scrape :: "string \<Rightarrow> (string \<times> string) list" where
  "scrape s = map sample_of (filter (\<lambda>l. \<not> prefix ''#'' l) (lines_from [] s))"

definition whole_lines :: "string \<Rightarrow> bool" where
  "whole_lines s \<longleftrightarrow> s = [] \<or> last s = CHR 0x0A"

text \<open>A text without a newline, and one without a newline or a blank.\<close>

definition one_line :: "string \<Rightarrow> bool" where
  "one_line s \<longleftrightarrow> CHR 0x0A \<notin> set s"

definition one_word :: "string \<Rightarrow> bool" where
  "one_word s \<longleftrightarrow> one_line s \<and> CHR '' '' \<notin> set s"

lemma one_line_append [simp]: "one_line (a @ b) \<longleftrightarrow> one_line a \<and> one_line b"
  by (auto simp: one_line_def)

lemma one_line_Cons [simp]: "one_line []" "one_line (c # s) \<longleftrightarrow> c \<noteq> CHR 0x0A \<and> one_line s"
  by (auto simp: one_line_def)

lemma one_word_Cons [simp]: "one_word []" "one_word (c # s) \<longleftrightarrow> c \<noteq> CHR 0x0A \<and> c \<noteq> CHR '' '' \<and> one_word s"
  by (auto simp: one_word_def)

lemma one_word_append [simp]: "one_word (a @ b) \<longleftrightarrow> one_word a \<and> one_word b"
  by (auto simp: one_word_def)

lemma one_word_line [simp]: "one_word s \<Longrightarrow> one_line s"
  by (simp add: one_word_def)

lemma lines_from_line: "one_line l \<Longrightarrow> lines_from acc (l @ NL @ s) = (acc @ l) # lines_from [] s"
  by (induction l arbitrary: acc) (auto simp: one_line_def NL_def)

lemma lines_from_append:
  "(if a = [] then acc = [] else last a = CHR 0x0A) \<Longrightarrow> lines_from acc (a @ b) = lines_from acc a @ lines_from [] b"
  by (induction acc a rule: lines_from.induct) (auto split: if_splits)

lemma scrape_append: "whole_lines a \<Longrightarrow> scrape (a @ b) = scrape a @ scrape b"
  using lines_from_append [of a "[]" b] by (cases "a = []") (auto simp: scrape_def whole_lines_def)

lemma scrape_Nil [simp]: "scrape [] = []"
  by (simp add: scrape_def)

lemma scrape_line:
  "one_line l \<Longrightarrow> scrape (l @ NL @ s) = (if prefix ''#'' l then [] else [sample_of l]) @ scrape s"
  by (simp add: scrape_def lines_from_line)

lemma whole_lines_NL [simp]: "whole_lines []" "whole_lines (a @ NL)" "whole_lines (a @ b @ NL)"
  by (simp_all add: whole_lines_def NL_def)

lemma sample_of_word:
  "one_word name \<Longrightarrow> sample_of (name @ '' '' @ v) = (name, v)"
  unfolding sample_of_def one_word_def
  by (subst takeWhile_append2 dropWhile_append2; auto)+

text \<open>A metric is one sample.\<close>

lemma scrape_metric:
  assumes "whole_lines out" and "one_word name" and "one_line kind" and "one_line help" and "one_line v"
    and "\<not> prefix ''#'' name" and "name \<noteq> []"
  shows "scrape (metric_into out name kind help v) = scrape out @ [(name, v)]"
    and "whole_lines (metric_into out name kind help v)"
proof -
  let ?h = "''# HELP '' @ name @ '' '' @ help" and ?t = "''# TYPE '' @ name @ '' '' @ kind" and ?s = "name @ '' '' @ v"
  have eq: "metric_into out name kind help v = out @ (?h @ NL @ ?t @ NL @ ?s @ NL @ [])"
    by (simp add: metric_into_def)
  have l: "one_line ?h" "one_line ?t" "one_line ?s" using assms by simp_all
  have "\<not> prefix ''#'' ?s" using assms(6,7) by (cases name) auto
  then show "scrape (metric_into out name kind help v) = scrape out @ [(name, v)]"
    using assms(1,2) l by (simp only: eq scrape_append scrape_line sample_of_word) (simp add: sample_of_word)
  have "metric_into out name kind help v = (out @ ?h @ NL @ ?t @ NL @ ?s) @ NL" by (simp add: eq)
  then show "whole_lines (metric_into out name kind help v)" by (simp only: whole_lines_NL)
qed

lemma digit_val_blank: "digit_val (CHR 0x0A) = None" "digit_val (CHR '' '') = None"
  by (simp_all add: digit_val_def)

lemma one_word_dec [simp]: "one_word (dec n)"
proof (induction n rule: dec.induct)
  case (1 n)
  have "digit d \<noteq> CHR 0x0A \<and> digit d \<noteq> CHR '' ''" if "d < 10" for d
    using that by (metis digit_val_digit digit_val_blank option.distinct(1))
  with 1 show ?case by (subst dec.simps) simp
qed

lemma set_strip_zeros: "set (strip_zeros s) \<subseteq> set s"
  by (induction s) (auto simp: Let_def)

lemma one_word_decimal [simp]: "one_word (show_decimal digits n)"
proof -
  have "one_word (strip_zeros s)" if "one_word s" for s
    using that set_strip_zeros [of s] by (auto simp: one_word_def one_line_def)
  moreover have "one_word (replicate k CHR ''0'' @ dec m)" for k m
    by (simp only: one_word_append one_word_dec) (simp add: one_word_def one_line_def)
  ultimately show ?thesis by (simp add: show_decimal_def Let_def)
qed

lemma one_word_flag [simp]: "one_word (flag b)"
  by (simp add: flag_def)

definition counter_samples :: "metrics_snapshot \<Rightarrow> (string \<times> string) list" where
  "counter_samples m =
     [(''quipu_queue_depth'', dec (ms_queue_depth m)), (''quipu_dlq_entries'', dec (ms_dlq_entries m)),
      (''quipu_writes_ok_total'', dec (ms_writes_ok m)), (''quipu_write_retries_total'', dec (ms_write_retries m)),
      (''quipu_writes_parked_total'', dec (ms_writes_parked m)), (''quipu_events_lost_total'', dec (ms_events_lost m))]"

lemma scrape_counters:
  "whole_lines out \<Longrightarrow> scrape (counters_into out m) = scrape out @ counter_samples m \<and> whole_lines (counters_into out m)"
  by (simp add: counters_into_def counter_samples_def Let_def scrape_metric)

text \<open>The same for the lines that are written one by one.\<close>

definition sample_into :: "string \<Rightarrow> string \<Rightarrow> string \<Rightarrow> string" where
  "sample_into out name v = out @ (name @ '' '' @ v) @ NL @ []"

definition comment_into :: "string \<Rightarrow> string \<Rightarrow> string" where
  "comment_into out l = out @ (''#'' @ l) @ NL @ []"

lemma scrape_sample:
  assumes "whole_lines out" and "one_word name" and "one_line v" and "\<not> prefix ''#'' name" and "name \<noteq> []"
  shows "scrape (sample_into out name v) = scrape out @ [(name, v)]" and "whole_lines (sample_into out name v)"
proof -
  have "\<not> prefix ''#'' (name @ '' '' @ v)" using assms(4,5) by (cases name) auto
  moreover have "one_line (name @ '' '' @ v)" using assms(2,3) by simp
  ultimately show "scrape (sample_into out name v) = scrape out @ [(name, v)]"
    using assms(1,2) by (simp only: sample_into_def scrape_append scrape_line sample_of_word) simp
  have "sample_into out name v = (out @ name @ '' '' @ v) @ NL" by (simp add: sample_into_def)
  then show "whole_lines (sample_into out name v)" by (simp only: whole_lines_NL)
qed

lemma scrape_comment:
  assumes "whole_lines out" and "one_line l"
  shows "scrape (comment_into out l) = scrape out" and "whole_lines (comment_into out l)"
proof -
  have "one_line (''#'' @ l)" using assms(2) by simp
  then show "scrape (comment_into out l) = scrape out"
    using assms(1) by (simp only: comment_into_def scrape_append scrape_line) simp
  have "comment_into out l = (out @ ''#'' @ l) @ NL" by (simp add: comment_into_def)
  then show "whole_lines (comment_into out l)" by (simp only: whole_lines_NL)
qed

definition bucket_name :: "nat \<Rightarrow> string" where
  "bucket_name bound = ''quipu_write_latency_seconds_bucket{le=\"'' @ show_decimal 9 bound @ ''\"}''"

lemma scrape_buckets:
  "whole_lines out \<Longrightarrow> scrape (foldl bucket_into out bs) = scrape out @ map (\<lambda>(bound, n). (bucket_name bound, dec n)) bs \<and>
     whole_lines (foldl bucket_into out bs)"
proof (induction bs arbitrary: out)
  case (Cons b bs)
  obtain bound n where b: "b = (bound, n)" by (cases b)
  have eq: "bucket_into out b = sample_into out (bucket_name bound) (dec n)"
    by (simp add: b bucket_into_def bucket_name_def sample_into_def)
  have "one_word (bucket_name bound)" "\<not> prefix ''#'' (bucket_name bound)" "bucket_name bound \<noteq> []"
    by (simp_all add: bucket_name_def)
  note S = scrape_sample [OF Cons.prems this(1) one_word_line [OF one_word_dec] this(2,3), of n, folded eq]
  show ?case using Cons.IH [OF S(2)] S(1) b by simp
qed simp

definition rejected_samples :: "metrics_snapshot \<Rightarrow> (string \<times> string) list" where
  "rejected_samples m =
     [(''quipu_emit_rejected_total{reason=\"queue_full\"}'', dec (ms_rejected_queue_full m)),
      (''quipu_emit_rejected_total{reason=\"disk_full\"}'', dec (ms_rejected_disk_full m))]"

definition latency_samples :: "metrics_snapshot \<Rightarrow> (string \<times> string) list" where
  "latency_samples m =
     map (\<lambda>(bound, n). (bucket_name bound, dec n)) (ms_buckets m) @
     [(''quipu_write_latency_seconds_bucket{le=\"+Inf\"}'', dec (ms_latency_count m)),
      (''quipu_write_latency_seconds_sum'', show_decimal 6 (ms_latency_sum_micros m)),
      (''quipu_write_latency_seconds_count'', dec (ms_latency_count m))]"

definition disk_samples :: "nat \<Rightarrow> disk_usage option \<Rightarrow> (string \<times> string) list" where
  "disk_samples store_bytes disk = (''quipu_store_bytes'', dec store_bytes) #
     (case disk of None \<Rightarrow> [] | Some d \<Rightarrow>
        [(''quipu_disk_free_bytes'', dec (unat (du_free_bytes d))), (''quipu_disk_total_bytes'', dec (unat (du_total_bytes d)))])"

definition health_samples :: "health_state \<Rightarrow> nat \<Rightarrow> (string \<times> string) list" where
  "health_samples h verify_runs =
     [(''quipu_writer_alive'', flag (hs_writer_alive h)), (''quipu_disk_full'', flag (hs_disk_full h)),
      (''quipu_disk_low'', flag (hs_low_disk h)), (''quipu_verify_runs_total'', dec verify_runs)]"

lemma scrape_rejected:
  assumes "whole_lines out"
  shows "scrape (rejected_into out m) = scrape out @ rejected_samples m \<and> whole_lines (rejected_into out m)"
proof -
  have "rejected_into out m = sample_into (sample_into (comment_into (comment_into out
      '' HELP quipu_emit_rejected_total Emits rejected at the caller, by reason.'')
      '' TYPE quipu_emit_rejected_total counter'')
      ''quipu_emit_rejected_total{reason=\"queue_full\"}'' (dec (ms_rejected_queue_full m)))
      ''quipu_emit_rejected_total{reason=\"disk_full\"}'' (dec (ms_rejected_disk_full m))"
    by (simp add: rejected_into_def sample_into_def comment_into_def)
  then show ?thesis using assms by (simp add: scrape_comment scrape_sample rejected_samples_def)
qed

lemma scrape_latency:
  assumes "whole_lines out"
  shows "scrape (latency_into out m) = scrape out @ latency_samples m \<and> whole_lines (latency_into out m)"
proof -
  let ?o = "comment_into (comment_into out
      '' HELP quipu_write_latency_seconds Wall time to durably persist one event (including retries).'')
      '' TYPE quipu_write_latency_seconds histogram''"
  have o: "scrape ?o = scrape out" "whole_lines ?o" using assms by (simp_all add: scrape_comment)
  have "out @ ''# HELP quipu_write_latency_seconds Wall time to durably persist one event (including retries).'' @ NL @
        ''# TYPE quipu_write_latency_seconds histogram'' @ NL = ?o" by (simp add: comment_into_def)
  then have "latency_into out m = sample_into (sample_into (sample_into (foldl bucket_into ?o (ms_buckets m))
      ''quipu_write_latency_seconds_bucket{le=\"+Inf\"}'' (dec (ms_latency_count m)))
      ''quipu_write_latency_seconds_sum'' (show_decimal 6 (ms_latency_sum_micros m)))
      ''quipu_write_latency_seconds_count'' (dec (ms_latency_count m))"
    unfolding latency_into_def by (simp only:) (simp add: sample_into_def)
  then show ?thesis using o scrape_buckets [OF o(2), of "ms_buckets m"] by (simp add: scrape_sample latency_samples_def)
qed

lemma scrape_disk:
  "whole_lines out \<Longrightarrow> scrape (disk_into out store_bytes disk) = scrape out @ disk_samples store_bytes disk \<and>
     whole_lines (disk_into out store_bytes disk)"
  by (cases disk) (simp_all add: disk_into_def disk_samples_def Let_def scrape_metric)

lemma scrape_health:
  "whole_lines out \<Longrightarrow> scrape (health_into out h verify_runs) = scrape out @ health_samples h verify_runs"
  by (simp add: health_into_def health_samples_def Let_def scrape_metric)

text \<open>
  a scrape of the metrics text reads back every counter of the snapshot under its name, once, with
  its value, the buckets with their bounds, the sizes and the flags, and nothing else: no value and
  no help text can break a line or add a sample.
\<close>

theorem metrics_text_scrapes_back:
  "scrape (render_prometheus m h store_bytes disk verify_runs) =
     counter_samples m @ rejected_samples m @ latency_samples m @ disk_samples store_bytes disk @ health_samples h verify_runs"
  by (simp add: render_prometheus_def scrape_counters scrape_rejected scrape_latency scrape_disk scrape_health)

text \<open>
  the health report is \<open>unhealthy\<close> exactly when the writer thread is gone, the disk-full latch is
  set or the probe write fails, and \<open>degraded\<close> exactly when it is not unhealthy and space is low: by
  the fresh measurement, or by the last housekeeping when there is none. The report gives a reason
  exactly when it is not \<open>ok\<close>. The probe touches no other file, and on a disk without faults it
  succeeds and leaves no file behind.
\<close>

theorem health_report_correct:
  fixes h :: health_state and dir :: path
  shows "case evaluate_health h dir answer w of (r, w') \<Rightarrow>
    hl_status r = (if \<not> hs_writer_alive h \<or> hs_disk_full h \<or> (\<exists>e. fst (probe_write dir w) = Inl e) then ''unhealthy''
      else if (case measure_disk answer of Inr u \<Rightarrow> is_low (hs_thresholds h) u | Inl _ \<Rightarrow> hs_low_disk h) then ''degraded''
      else ''ok'') \<and>
    (hl_reasons r = [] \<longleftrightarrow> hl_status r = ''ok'') \<and> (health_code r = 503 \<longleftrightarrow> hl_status r = ''unhealthy'') \<and>
    same_but (probe_path dir) w w' \<and>
    (quiet w \<longrightarrow> fst (probe_write dir w) = Inr () \<and> fget w' (probe_path dir) = None)"
proof -
  obtain r w' where e: "evaluate_health h dir answer w = (r, w')" by (metis surj_pair)
  have "w' = snd (probe_write dir w)" using e by (auto simp: evaluate_health_def Let_def split: prod.splits)
  then show ?thesis
    using evaluate_health_report [OF e] probe_write_same [of dir w] probe_write_quiet [of w dir] e
    by (simp add: health_code_def)
qed

theorem health_report_correct_witness:
  "let w = \<lparr>fs_files = [([''d'', ''f''], [1])], fs_dirs = [], fs_faults = []\<rparr>;
       (r, w') = evaluate_health (health_new thresholds_default) [''d''] (Inl (IoError KOther None)) w
   in hl_status r = ''ok'' \<and> fget w' (probe_path [''d'']) = None \<and> fget w' [''d'', ''f''] = Some [1]"
  using health_report_correct [where h = "health_new thresholds_default" and dir = "[''d'']" and
      answer = "Inl (IoError KOther None)" and w = "\<lparr>fs_files = [([''d'', ''f''], [1])], fs_dirs = [], fs_faults = []\<rparr>"]
  by (auto simp: Let_def quiet_def health_new_def measure_disk_def same_but_def probe_path_def fget_def split: prod.splits)

end
