(* ===== verification/Server_Api.thy ===== *)
theory Server_Api
  imports Server_State Server_Health
begin

text \<open>
  The HTTP handlers of the server (\<open>crates/quipu-server/src/api.rs\<close>). A handler gets what the
  framework has extracted from the request: its headers, path, query and JSON body. Each handler
  runs here without another one in between; what can happen between the steps of two is in
  \<open>Server_Overlap\<close>. A task that panics is not modelled: the operations behind the handlers do not.
\<close>

section \<open>Answers and errors\<close>

text \<open>A message is the display of an error or a fixed text.\<close>

datatype api_message = ErrorText mw_error | Message string

record api_error =
  ae_status :: nat
  ae_message :: api_message

datatype reply_body =
    NoBody
  | JsonBody json
  | AnswerBody answer
  | HealthBody health_report
  | TextBody string
  | NdjsonBody string
  | OpenApiBody
  | ErrorBody api_message

record http_reply =
  ho_status :: nat
  ho_body :: reply_body

definition into_response :: "api_error \<Rightarrow> http_reply" where
  "into_response e = \<lparr>ho_status = ae_status e, ho_body = ErrorBody (ae_message e)\<rparr>"

definition core_status :: "error \<Rightarrow> nat" where
  "core_status e =
     (case e of
        Schema _ \<Rightarrow> 400
      | Crypto _ \<Rightarrow> 400
      | InvalidCursor _ \<Rightarrow> 400
      | NotFound _ \<Rightarrow> 404
      | _ \<Rightarrow> 500)"

definition mw_status :: "mw_error \<Rightarrow> nat" where
  "mw_status e =
     (case e of
        PermissionDenied _ _ \<Rightarrow> 403
      | QueueFull _ \<Rightarrow> 503
      | DiskFull _ \<Rightarrow> 507
      | WorkerGone \<Rightarrow> 500
      | Core e \<Rightarrow> core_status e)"

definition api_error_of :: "mw_error \<Rightarrow> api_error" where
  "api_error_of e = \<lparr>ae_status = mw_status e, ae_message = ErrorText e\<rparr>"

definition unauthorized :: api_error where
  "unauthorized = \<lparr>ae_status = 401, ae_message = Message ''missing or unknown bearer token''\<rparr>"

definition internal :: "string \<Rightarrow> api_error" where
  "internal msg = \<lparr>ae_status = 500, ae_message = Message msg\<rparr>"

section \<open>The server\<close>

text \<open>The libraries: HTTP, the pipeline's, and the JSON text of a log view. The pipeline behind the
  handlers allows everything: the handlers check the grants (\<open>crates/quipu-server/src/main.rs\<close>).\<close>

record server =
  sv_http :: httpext
  sv_pipe :: penv
  sv_view_json :: "log_view \<Rightarrow> string + string"

definition server_policy :: permission_policy where
  "server_policy = allow_all"

text \<open>The clocks, the id of the access record and the inputs of the command behind one request.\<close>

record req_inputs =
  in_now_secs :: u64
  in_now :: u64
  in_uid :: uid
  in_cmd :: cmd_inputs
  in_statvfs :: "io_error + statvfs"

record caller =
  ca_role :: role
  ca_token_hash :: string

type_synonym 'a handler = "(app_state, api_error, 'a) sop"

definition authorize :: "server \<Rightarrow> u64 \<Rightarrow> headers \<Rightarrow> action \<Rightarrow> app_state \<Rightarrow> api_error + caller" where
  "authorize S now_secs hs a st =
     (case role_for (sv_http S) (se_crypto (pe_store (sv_pipe S))) hs (as_tokens (ap_auth st)) now_secs of
        None \<Rightarrow> Inl unauthorized
      | Some (r, token_hash) \<Rightarrow>
          if is_allowed (as_policy (ap_auth st)) r a then Inr \<lparr>ca_role = r, ca_token_hash = token_hash\<rparr>
          else Inl (api_error_of (PermissionDenied r a)))"

definition authorized :: "server \<Rightarrow> req_inputs \<Rightarrow> headers \<Rightarrow> action \<Rightarrow> (caller \<Rightarrow> 'a handler) \<Rightarrow> 'a handler" where
  "authorized S I hs a k = seqE (\<lambda>st. (authorize S (in_now_secs I) hs a st, st)) k"

text \<open>A call of the handle on the blocking pool.\<close>

definition blocking :: "'a mres \<Rightarrow> api_error + 'a" where
  "blocking r = (case r of Inl e \<Rightarrow> Inl (api_error_of e) | Inr x \<Rightarrow> Inr x)"

definition call_handle :: "server \<Rightarrow> req_inputs \<Rightarrow> role \<Rightarrow> call \<Rightarrow> answer handler" where
  "call_handle S I r c st =
     (case handle_call (sv_pipe S) server_policy (in_cmd I) (in_uid I) (in_now I) r c (ap_pipe st) of
        (ans, p) \<Rightarrow> (blocking ans, st\<lparr>ap_pipe := p\<rparr>))"

definition reply_with :: "nat \<Rightarrow> reply_body \<Rightarrow> http_reply handler" where
  "reply_with code b = retE \<lparr>ho_status = code, ho_body = b\<rparr>"

section \<open>Health and metrics\<close>

definition healthz :: "req_inputs \<Rightarrow> http_reply handler" where
  "healthz I st =
     (case evaluate_health (h_snapshot (wk_health (pi_worker (ap_pipe st)))) (wk_store_root (pi_worker (ap_pipe st)))
          (in_statvfs I) (pi_fs (ap_pipe st)) of
        (report, w) \<Rightarrow> (Inr \<lparr>ho_status = health_code report, ho_body = HealthBody report\<rparr>,
            st\<lparr>ap_pipe := (ap_pipe st)\<lparr>pi_fs := w\<rparr>\<rparr>))"

definition metrics_endpoint :: "server \<Rightarrow> req_inputs \<Rightarrow> headers \<Rightarrow> http_reply handler" where
  "metrics_endpoint S I hs =
     authorized S I hs AAdminister (\<lambda>_ st.
       let k = pi_worker (ap_pipe st);
           disk = (case measure_disk (in_statvfs I) of Inr u \<Rightarrow> Some u | Inl _ \<Rightarrow> None)
       in reply_with 200 (TextBody (render_prometheus (m_snapshot (wk_metrics k)) (h_snapshot (wk_health k))
            (dir_size (wk_store_root k) (pi_fs (ap_pipe st))) disk (ap_verify_runs st))) st)"

definition openapi_json :: "http_reply handler" where
  "openapi_json = reply_with 200 OpenApiBody"

section \<open>Schema\<close>

definition define_type_endpoint :: "server \<Rightarrow> req_inputs \<Rightarrow> headers \<Rightarrow> type_schema \<Rightarrow> http_reply handler" where
  "define_type_endpoint S I hs schema =
     authorized S I hs AAdminister (\<lambda>c.
     seqE (call_handle S I (ca_role c) (HDefineType schema)) (\<lambda>_. reply_with 204 NoBody))"

definition list_types_endpoint :: "server \<Rightarrow> req_inputs \<Rightarrow> headers \<Rightarrow> http_reply handler" where
  "list_types_endpoint S I hs =
     authorized S I hs AQuery (\<lambda>c.
     seqE (call_handle S I (ca_role c) HEntityTypes) (\<lambda>ans. reply_with 200 (AnswerBody ans)))"

definition define_column_endpoint :: "server \<Rightarrow> req_inputs \<Rightarrow> headers \<Rightarrow> custom_column_def \<Rightarrow> http_reply handler" where
  "define_column_endpoint S I hs d =
     authorized S I hs AAdminister (\<lambda>c.
     seqE (call_handle S I (ca_role c) (HDefineCustomColumn d)) (\<lambda>_. reply_with 204 NoBody))"

section \<open>Appending\<close>

record append_request =
  lr_occurred_at :: "u64 option"
  lr_actor_type :: string
  lr_actor :: entity_input
  lr_method :: string
  lr_url :: string
  lr_content :: content
  lr_targets :: "target_spec list"
  lr_custom :: "(string \<times> fval) list"

text \<open>\<open>trim\<close>: a header that is text holds ASCII, so only ASCII white space matters.\<close>

definition is_white :: "char \<Rightarrow> bool" where
  "is_white c \<longleftrightarrow> (let n = of_char c :: nat in n = 32 \<or> (9 \<le> n \<and> n \<le> 13))"

definition trim :: "string \<Rightarrow> string" where
  "trim s = rev (dropWhile is_white (rev (dropWhile is_white s)))"

definition bad_key :: "string \<Rightarrow> api_error" where
  "bad_key msg = \<lparr>ae_status = 400, ae_message = Message (''idempotency-key: '' @ msg)\<rparr>"

definition is_visible :: "char \<Rightarrow> bool" where
  "is_visible c \<longleftrightarrow> (let n = of_char c :: nat in 0x21 \<le> n \<and> n \<le> 0x7e)"

definition idempotency_key :: "httpext \<Rightarrow> headers \<Rightarrow> api_error + string option" where
  "idempotency_key H hs =
     (case hx_get H hs ''idempotency-key'' of
        None \<Rightarrow> Inr None
      | Some raw \<Rightarrow>
          (case hx_to_str H raw of
             None \<Rightarrow> Inl (bad_key ''must be visible ASCII'')
           | Some v \<Rightarrow>
               let key = trim v
               in if key = [] \<or> length key > 128 then Inl (bad_key ''must be 1-128 characters'')
                  else if \<not> list_all is_visible key then Inl (bad_key ''must be visible ASCII without spaces'')
                  else Inr (Some key)))"

definition append_event :: "u64 \<Rightarrow> append_request \<Rightarrow> audit_event" where
  "append_event now req =
     (let ev = event_new now (lr_actor_type req) (lr_actor req) (lr_method req) (lr_url req) (lr_content req);
          ev1 = (case lr_occurred_at req of Some t \<Rightarrow> ev\<lparr>ev_occurred_at := t\<rparr> | None \<Rightarrow> ev)
      in ev1\<lparr>ev_targets := lr_targets req, ev_custom := lr_custom req\<rparr>)"

definition status_body :: "string \<Rightarrow> reply_body" where
  "status_body s = JsonBody (JObject [(''status'', JString s)])"

text \<open>The key is reserved, the event enqueued, and the key released when that fails: three steps.\<close>

definition reserve_key :: "string option \<Rightarrow> app_state \<Rightarrow> bool \<times> app_state" where
  "reserve_key idem st =
     (case idem of
        None \<Rightarrow> (True, st)
      | Some key \<Rightarrow> (case dedup_insert key (ap_dedup st) of (new, d) \<Rightarrow> (new, st\<lparr>ap_dedup := d\<rparr>)))"

definition release_key :: "string option \<Rightarrow> app_state \<Rightarrow> app_state" where
  "release_key idem st = (case idem of None \<Rightarrow> st | Some key \<Rightarrow> st\<lparr>ap_dedup := dedup_remove key (ap_dedup st)\<rparr>)"

definition emit_handle :: "role \<Rightarrow> audit_event \<Rightarrow> app_state \<Rightarrow> unit mres \<times> app_state" where
  "emit_handle r ev st =
     (case handle_emit server_policy r ev (ap_pipe st) of (res, p) \<Rightarrow> (res, st\<lparr>ap_pipe := p\<rparr>))"

definition append_log_endpoint :: "server \<Rightarrow> req_inputs \<Rightarrow> headers \<Rightarrow> append_request \<Rightarrow> http_reply handler" where
  "append_log_endpoint S I hs req =
     authorized S I hs AEmit (\<lambda>c.
     seqE (liftE (idempotency_key (sv_http S) hs)) (\<lambda>idem st.
       case reserve_key idem st of
         (False, st1) \<Rightarrow> reply_with 202 (status_body ''duplicate'') st1
       | (True, st1) \<Rightarrow>
           (case emit_handle (ca_role c) (append_event (in_now I) req) st1 of
              (Inl e, st2) \<Rightarrow> (Inl (api_error_of e), release_key idem st2)
            | (Inr _, st2) \<Rightarrow> reply_with 202 (status_body ''queued'') st2)))"

section \<open>Queries\<close>

definition too_many :: api_error where
  "too_many = \<lparr>ae_status = 429, ae_message = Message ''too many concurrent queries for this token''\<rparr>"

text \<open>The slot is held until the handler returns.\<close>

definition with_slot :: "caller \<Rightarrow> 'a handler \<Rightarrow> 'a handler" where
  "with_slot c m st =
     (case query_slot_of (ca_token_hash c) st of
        (SlotBusy, st1) \<Rightarrow> (Inl too_many, st1)
      | (slot, st1) \<Rightarrow> (case m st1 of (r, st2) \<Rightarrow> (r, slot_release slot st2)))"

definition query_logs_endpoint :: "server \<Rightarrow> req_inputs \<Rightarrow> headers \<Rightarrow> log_query \<Rightarrow> http_reply handler" where
  "query_logs_endpoint S I hs q =
     authorized S I hs AQuery (\<lambda>c. with_slot c
     (seqE (call_handle S I (ca_role c) (HQueryPage q)) (\<lambda>ans. reply_with 200 (AnswerBody ans))))"

definition number_body :: "string \<Rightarrow> answer \<Rightarrow> reply_body" where
  "number_body name ans = JsonBody (JObject [(name, JNumber (case ans of AnCount n \<Rightarrow> n | _ \<Rightarrow> 0))])"

definition count_logs_endpoint :: "server \<Rightarrow> req_inputs \<Rightarrow> headers \<Rightarrow> log_query \<Rightarrow> http_reply handler" where
  "count_logs_endpoint S I hs q =
     authorized S I hs AQuery (\<lambda>c. with_slot c
     (seqE (call_handle S I (ca_role c) (HCount q)) (\<lambda>ans. reply_with 200 (number_body ''count'' ans))))"

fun export_lines :: "(log_view \<Rightarrow> string + string) \<Rightarrow> log_view list \<Rightarrow> string \<Rightarrow> string + string" where
  "export_lines J [] body = Inr body"
| "export_lines J (v # vs) body = rbind (J v) (\<lambda>line. export_lines J vs (body @ line @ NL))"

definition answer_views :: "answer \<Rightarrow> log_view list" where
  "answer_views ans = (case ans of AnViews vs \<Rightarrow> vs | _ \<Rightarrow> [])"

definition export_logs_endpoint :: "server \<Rightarrow> req_inputs \<Rightarrow> headers \<Rightarrow> log_query \<Rightarrow> http_reply handler" where
  "export_logs_endpoint S I hs q =
     authorized S I hs AQuery (\<lambda>c. with_slot c
     (seqE (call_handle S I (ca_role c) (HQuery q)) (\<lambda>ans.
      case export_lines (sv_view_json S) (answer_views ans) [] of
        Inl msg \<Rightarrow> liftE (Inl (internal msg))
      | Inr body \<Rightarrow> reply_with 200 (NdjsonBody body))))"

definition query_access_endpoint :: "server \<Rightarrow> req_inputs \<Rightarrow> headers \<Rightarrow> access_query \<Rightarrow> http_reply handler" where
  "query_access_endpoint S I hs q =
     authorized S I hs AAdminister (\<lambda>c.
     seqE (call_handle S I (ca_role c) (HQueryAccess q)) (\<lambda>ans. reply_with 200 (AnswerBody ans)))"

section \<open>Registry browsing\<close>

definition list_entities_endpoint :: "server \<Rightarrow> req_inputs \<Rightarrow> headers \<Rightarrow> string \<Rightarrow> bool \<Rightarrow> http_reply handler" where
  "list_entities_endpoint S I hs type_name include_deleted =
     authorized S I hs AQuery (\<lambda>c.
     seqE (call_handle S I (ca_role c) (HListEntities type_name include_deleted)) (\<lambda>ans. reply_with 200 (AnswerBody ans)))"

definition entity_history_endpoint :: "server \<Rightarrow> req_inputs \<Rightarrow> headers \<Rightarrow> string \<Rightarrow> string \<Rightarrow> http_reply handler" where
  "entity_history_endpoint S I hs type_name entity_id =
     authorized S I hs AQuery (\<lambda>c.
     seqE (call_handle S I (ca_role c) (HEntityHistory type_name entity_id)) (\<lambda>ans. reply_with 200 (AnswerBody ans)))"

section \<open>Administration\<close>

definition admin_flush :: "server \<Rightarrow> req_inputs \<Rightarrow> headers \<Rightarrow> http_reply handler" where
  "admin_flush S I hs =
     authorized S I hs AAdminister (\<lambda>c.
     seqE (call_handle S I (ca_role c) HFlush) (\<lambda>_ st.
       reply_with 204 NoBody (st\<lparr>ap_pipe :=
         handle_record_access (access_new (in_uid I) (in_now I) (ca_role c) ''flush'' ''{}'' None) (ap_pipe st)\<rparr>)))"

definition redrive_body :: "answer \<Rightarrow> reply_body" where
  "redrive_body ans =
     (case ans of
        AnRedrive rep \<Rightarrow> JsonBody (JObject [(''quarantined_entries'', JNumber (rp_quarantined_entries rep)),
          (''quarantined_segments'', JNumber (rp_quarantined_segments rep)),
          (''redriven'', JNumber (rp_replayed rep)), (''requeued'', JNumber (rp_requeued rep))])
      | _ \<Rightarrow> NoBody)"

definition admin_redrive :: "server \<Rightarrow> req_inputs \<Rightarrow> headers \<Rightarrow> http_reply handler" where
  "admin_redrive S I hs =
     authorized S I hs AAdminister (\<lambda>c.
     seqE (call_handle S I (ca_role c) HRedriveDlq) (\<lambda>ans. reply_with 200 (redrive_body ans)))"

definition admin_retention :: "server \<Rightarrow> req_inputs \<Rightarrow> headers \<Rightarrow> http_reply handler" where
  "admin_retention S I hs =
     authorized S I hs AAdminister (\<lambda>c.
     seqE (call_handle S I (ca_role c) HApplyRetention) (\<lambda>ans. reply_with 200 (number_body ''segments_dropped'' ans)))"

definition admin_dlq :: "server \<Rightarrow> req_inputs \<Rightarrow> headers \<Rightarrow> http_reply handler" where
  "admin_dlq S I hs =
     authorized S I hs AAdminister (\<lambda>c.
     seqE (call_handle S I (ca_role c) HDlqLen) (\<lambda>ans. reply_with 200 (number_body ''parked'' ans)))"

definition verify_busy :: api_error where
  "verify_busy = \<lparr>ae_status = 409, ae_message = Message ''an integrity verification is already running''\<rparr>"

text \<open>The guard is dropped when the call returns, then the pass is counted.\<close>

definition guarded_verify :: "server \<Rightarrow> req_inputs \<Rightarrow> role \<Rightarrow> answer handler" where
  "guarded_verify S I r st =
     (case call_handle S I r HVerifyIntegrity st of
        (Inl e, st1) \<Rightarrow> (Inl e, drop_verify_guard st1)
      | (Inr ans, st1) \<Rightarrow> (Inr ans, count_verify_run (drop_verify_guard st1)))"

definition admin_verify :: "server \<Rightarrow> req_inputs \<Rightarrow> headers \<Rightarrow> http_reply handler" where
  "admin_verify S I hs =
     authorized S I hs AAdminister (\<lambda>c st.
       case try_begin_verify st of
         (False, st1) \<Rightarrow> (Inl verify_busy, st1)
       | (True, st1) \<Rightarrow> seqE (guarded_verify S I (ca_role c)) (\<lambda>ans. reply_with 200 (AnswerBody ans)) st1)"

text \<open>One tick of the periodic task: skipped while a verification runs.\<close>

definition periodic_verify_tick :: "server \<Rightarrow> req_inputs \<Rightarrow> app_state \<Rightarrow> app_state" where
  "periodic_verify_tick S I st =
     (case try_begin_verify st of
        (False, st1) \<Rightarrow> st1
      | (True, st1) \<Rightarrow> snd (guarded_verify S I ''periodic-verify'' st1))"

section \<open>The routes\<close>

datatype endpoint =
    Healthz
  | Metrics
  | DefineType type_schema
  | ListTypes
  | DefineColumn custom_column_def
  | OpenApi
  | AppendLog append_request
  | QueryLogs log_query
  | CountLogs log_query
  | ExportLogs log_query
  | ListEntities string bool
  | EntityHistory string string
  | QueryAccess access_query
  | AdminFlush
  | AdminRedrive
  | AdminRetention
  | AdminDlq
  | AdminVerify

fun route :: "server \<Rightarrow> req_inputs \<Rightarrow> headers \<Rightarrow> endpoint \<Rightarrow> http_reply handler" where
  "route S I hs Healthz = healthz I"
| "route S I hs Metrics = metrics_endpoint S I hs"
| "route S I hs (DefineType schema) = define_type_endpoint S I hs schema"
| "route S I hs ListTypes = list_types_endpoint S I hs"
| "route S I hs (DefineColumn d) = define_column_endpoint S I hs d"
| "route S I hs OpenApi = openapi_json"
| "route S I hs (AppendLog req) = append_log_endpoint S I hs req"
| "route S I hs (QueryLogs q) = query_logs_endpoint S I hs q"
| "route S I hs (CountLogs q) = count_logs_endpoint S I hs q"
| "route S I hs (ExportLogs q) = export_logs_endpoint S I hs q"
| "route S I hs (ListEntities type_name include_deleted) = list_entities_endpoint S I hs type_name include_deleted"
| "route S I hs (EntityHistory type_name entity_id) = entity_history_endpoint S I hs type_name entity_id"
| "route S I hs (QueryAccess q) = query_access_endpoint S I hs q"
| "route S I hs AdminFlush = admin_flush S I hs"
| "route S I hs AdminRedrive = admin_redrive S I hs"
| "route S I hs AdminRetention = admin_retention S I hs"
| "route S I hs AdminDlq = admin_dlq S I hs"
| "route S I hs AdminVerify = admin_verify S I hs"

definition serve_request :: "server \<Rightarrow> req_inputs \<Rightarrow> headers \<Rightarrow> endpoint \<Rightarrow> app_state \<Rightarrow> http_reply \<times> app_state" where
  "serve_request S I hs ep st =
     (case route S I hs ep st of
        (Inl e, st') \<Rightarrow> (into_response e, st')
      | (Inr r, st') \<Rightarrow> (r, st'))"

end
