(* ===== verification/Server_Props.thy ===== *)
theory Server_Props
  imports Server_Api
begin

text \<open>
  What the server promises: who may do what, that a request is the call of the handle behind it under
  the caller's role, that a retransmitted event is not recorded twice, and what a reload does.
\<close>

section \<open>The gate\<close>

text \<open>The grant an endpoint asks for; the health report and the interface description ask for none.\<close>

fun endpoint_action :: "endpoint \<Rightarrow> action option" where
  "endpoint_action Healthz = None"
| "endpoint_action OpenApi = None"
| "endpoint_action (AppendLog req) = Some AEmit"
| "endpoint_action ListTypes = Some AQuery"
| "endpoint_action (QueryLogs q) = Some AQuery"
| "endpoint_action (CountLogs q) = Some AQuery"
| "endpoint_action (ExportLogs q) = Some AQuery"
| "endpoint_action (ListEntities type_name include_deleted) = Some AQuery"
| "endpoint_action (EntityHistory type_name entity_id) = Some AQuery"
| "endpoint_action (DefineType schema) = Some AAdminister"
| "endpoint_action (DefineColumn d) = Some AAdminister"
| "endpoint_action Metrics = Some AAdminister"
| "endpoint_action (QueryAccess q) = Some AAdminister"
| "endpoint_action AdminFlush = Some AAdminister"
| "endpoint_action AdminRedrive = Some AAdminister"
| "endpoint_action AdminRetention = Some AAdminister"
| "endpoint_action AdminDlq = Some AAdminister"
| "endpoint_action AdminVerify = Some AAdminister"

text \<open>The token of a request is good: it is listed, not expired, and its role has the grant.\<close>

definition good_caller :: "server \<Rightarrow> req_inputs \<Rightarrow> headers \<Rightarrow> action \<Rightarrow> app_state \<Rightarrow> role \<Rightarrow> string \<Rightarrow> bool" where
  "good_caller S I hs a st r h \<longleftrightarrow>
     role_for (sv_http S) (se_crypto (pe_store (sv_pipe S))) hs (as_tokens (ap_auth st)) (in_now_secs I) = Some (r, h) \<and>
     is_allowed (as_policy (ap_auth st)) r a"


lemma authorize_cases:
  obtains (good) r h where "good_caller S I hs a st r h"
      "authorize S (in_now_secs I) hs a st = Inr \<lparr>ca_role = r, ca_token_hash = h\<rparr>"
  | (unknown) "\<And>r h. \<not> good_caller S I hs a st r h" "authorize S (in_now_secs I) hs a st = Inl unauthorized"
  | (denied) r where "\<And>r h. \<not> good_caller S I hs a st r h"
      "authorize S (in_now_secs I) hs a st = Inl (api_error_of (PermissionDenied r a))"
proof (cases "role_for (sv_http S) (se_crypto (pe_store (sv_pipe S))) hs (as_tokens (ap_auth st)) (in_now_secs I)")
  case None
  then show ?thesis by (intro unknown) (simp_all add: authorize_def good_caller_def)
next
  case (Some rh)
  obtain r h where "rh = (r, h)" by (cases rh)
  with Some show ?thesis
    by (cases "is_allowed (as_policy (ap_auth st)) r a")
      (auto simp: authorize_def good_caller_def intro: good denied [of r])
qed

lemma good_caller_authorized:
  assumes "good_caller S I hs a st r h"
  shows "authorized S I hs a k st = k \<lparr>ca_role = r, ca_token_hash = h\<rparr> st"
  using assms by (simp add: authorized_def seqE_def authorize_def good_caller_def)

lemma bad_caller_authorized:
  assumes "\<And>r h. \<not> good_caller S I hs a st r h"
  shows "\<exists>e. authorized S I hs a k st = (Inl e, st) \<and> ae_status e \<in> {401, 403}"
  by (rule authorize_cases [of S I hs a st])
    (use assms in \<open>auto simp: authorized_def seqE_def unauthorized_def api_error_of_def mw_status_def\<close>)

text \<open>
  C15: a request for an endpoint that asks for a grant is answered 401 or 403 and does nothing at all,
  unless it carries a listed token that has not expired and whose role has that grant in the auth
  section in force.
\<close>

theorem requests_are_gated:
  assumes "endpoint_action ep = Some a" and "\<And>r h. \<not> good_caller S I hs a st r h"
  shows "\<exists>res. serve_request S I hs ep st = (res, st) \<and> ho_status res \<in> {401, 403}"
proof -
  have "\<exists>e. route S I hs ep st = (Inl e, st) \<and> ae_status e \<in> {401, 403}"
    using assms bad_caller_authorized [of S I hs a st]
    by (cases ep) (auto simp: metrics_endpoint_def define_type_endpoint_def list_types_endpoint_def
        define_column_endpoint_def append_log_endpoint_def query_logs_endpoint_def count_logs_endpoint_def
        export_logs_endpoint_def query_access_endpoint_def list_entities_endpoint_def entity_history_endpoint_def
        admin_flush_def admin_redrive_def admin_retention_def admin_dlq_def admin_verify_def)
  then show ?thesis by (auto simp: serve_request_def into_response_def)
qed

section \<open>A request is the call behind it\<close>

fun endpoint_call :: "endpoint \<Rightarrow> call option" where
  "endpoint_call (DefineType schema) = Some (HDefineType schema)"
| "endpoint_call ListTypes = Some HEntityTypes"
| "endpoint_call (DefineColumn d) = Some (HDefineCustomColumn d)"
| "endpoint_call (QueryLogs q) = Some (HQueryPage q)"
| "endpoint_call (CountLogs q) = Some (HCount q)"
| "endpoint_call (ExportLogs q) = Some (HQuery q)"
| "endpoint_call (ListEntities type_name include_deleted) = Some (HListEntities type_name include_deleted)"
| "endpoint_call (EntityHistory type_name entity_id) = Some (HEntityHistory type_name entity_id)"
| "endpoint_call (QueryAccess q) = Some (HQueryAccess q)"
| "endpoint_call AdminFlush = Some HFlush"
| "endpoint_call AdminRedrive = Some HRedriveDlq"
| "endpoint_call AdminRetention = Some HApplyRetention"
| "endpoint_call AdminDlq = Some HDlqLen"
| "endpoint_call AdminVerify = Some HVerifyIntegrity"
| "endpoint_call ep = None"

definition needs_slot :: "endpoint \<Rightarrow> bool" where
  "needs_slot ep \<longleftrightarrow> (case ep of QueryLogs _ \<Rightarrow> True | CountLogs _ \<Rightarrow> True | ExportLogs _ \<Rightarrow> True | _ \<Rightarrow> False)"

text \<open>What a request finds free: a slot for a query, the guard for a verification.\<close>

definition can_serve :: "endpoint \<Rightarrow> string \<Rightarrow> app_state \<Rightarrow> bool" where
  "can_serve ep h st \<longleftrightarrow>
     (needs_slot ep \<longrightarrow> fst (query_slot_of h st) \<noteq> SlotBusy) \<and> (ep = AdminVerify \<longrightarrow> \<not> ap_verify_running st)"

definition success_code :: "endpoint \<Rightarrow> nat" where
  "success_code ep = (case ep of DefineType _ \<Rightarrow> 204 | DefineColumn _ \<Rightarrow> 204 | AdminFlush \<Rightarrow> 204 | _ \<Rightarrow> 200)"

text \<open>The free permits of the semaphores a state has are those of another: nothing was kept.\<close>

definition permits_kept :: "app_state \<Rightarrow> app_state \<Rightarrow> bool" where
  "permits_kept st st' \<longleftrightarrow> take (length (ap_permits st)) (ap_permits st') = ap_permits st"

lemma slot_taken_and_released:
  assumes "query_slot_of h st = (slot, st1)" and "slot \<noteq> SlotBusy"
    and "\<forall>s \<in> snd ` set (ap_slots st). s < length (ap_permits st)"
    and "ap_permits st2 = ap_permits st1"
  shows "permits_kept st (slot_release slot st2)"
    and "slot_release slot st2 = st2\<lparr>ap_permits := ap_permits (slot_release slot st2)\<rparr>"
    and "st1 = st\<lparr>ap_slots := ap_slots st1, ap_permits := ap_permits st1\<rparr>"
proof -
  have "permits_kept st (slot_release slot st2) \<and>
      slot_release slot st2 = st2\<lparr>ap_permits := ap_permits (slot_release slot st2)\<rparr> \<and>
      st1 = st\<lparr>ap_slots := ap_slots st1, ap_permits := ap_permits st1\<rparr>"
  proof (cases "slot_limit st")
    case None
    with assms show ?thesis
      by (auto simp: query_slot_of_def slot_take_def slot_release_def permits_kept_def)
  next
    case (Some n)
    show ?thesis
    proof (cases "map_of (ap_slots st) h")
      case None
      with Some assms show ?thesis
        by (auto simp: query_slot_of_def slot_take_def slot_entry_def slot_acquire_def slot_release_def permits_kept_def
            nth_append Let_def split: if_splits)
    next
      case (Some s)
      then have "s < length (ap_permits st)" using assms(3) by (force dest: map_of_SomeD)
      with Some \<open>slot_limit st = Some n\<close> assms show ?thesis
        by (auto simp: query_slot_of_def slot_take_def slot_entry_def slot_acquire_def slot_release_def permits_kept_def
            split: if_splits)
    qed
  qed
  then show "permits_kept st (slot_release slot st2)"
    and "slot_release slot st2 = st2\<lparr>ap_permits := ap_permits (slot_release slot st2)\<rparr>"
    and "st1 = st\<lparr>ap_slots := ap_slots st1, ap_permits := ap_permits st1\<rparr>" by auto
qed

text \<open>Without a slot or a guard in the way, the state after a handler is that after its call.\<close>

lemma with_slot_free:
  assumes "fst (query_slot_of (ca_token_hash c) st) \<noteq> SlotBusy" and "\<forall>s \<in> snd ` set (ap_slots st). s < length (ap_permits st)"
    and "\<And>st1. st1 = st\<lparr>ap_slots := ap_slots st1, ap_permits := ap_permits st1\<rparr> \<Longrightarrow> m st1 = (res, st1\<lparr>ap_pipe := p\<rparr>)"
  shows "\<exists>st'. with_slot c m st = (res, st') \<and> permits_kept st st' \<and>
    st' = st\<lparr>ap_pipe := p, ap_slots := ap_slots st', ap_permits := ap_permits st'\<rparr>"
proof -
  obtain slot st1 where q: "query_slot_of (ca_token_hash c) st = (slot, st1)" by (metis surj_pair)
  have busy: "slot \<noteq> SlotBusy" using assms(1) q by simp
  note R = slot_taken_and_released [OF q busy assms(2), of "st1\<lparr>ap_pipe := p\<rparr>", simplified]
  let ?st' = "slot_release slot (st1\<lparr>ap_pipe := p\<rparr>)"
  have "with_slot c m st = (res, ?st')"
    using q busy assms(3) [OF R(3)] by (auto simp: with_slot_def split: query_slot.splits)
  moreover have "?st' = st\<lparr>ap_pipe := p, ap_slots := ap_slots ?st', ap_permits := ap_permits ?st'\<rparr>"
    by (subst R(2), subst R(3)) (simp, subst R(2), simp)
  ultimately show ?thesis using R(1) by blast
qed

text \<open>The reply to a call that has succeeded.\<close>

definition success_reply :: "server \<Rightarrow> endpoint \<Rightarrow> answer \<Rightarrow> http_reply" where
  "success_reply S ep ans =
     (case ep of
        DefineType _ \<Rightarrow> \<lparr>ho_status = 204, ho_body = NoBody\<rparr>
      | DefineColumn _ \<Rightarrow> \<lparr>ho_status = 204, ho_body = NoBody\<rparr>
      | AdminFlush \<Rightarrow> \<lparr>ho_status = 204, ho_body = NoBody\<rparr>
      | CountLogs _ \<Rightarrow> \<lparr>ho_status = 200, ho_body = number_body ''count'' ans\<rparr>
      | AdminRetention \<Rightarrow> \<lparr>ho_status = 200, ho_body = number_body ''segments_dropped'' ans\<rparr>
      | AdminDlq \<Rightarrow> \<lparr>ho_status = 200, ho_body = number_body ''parked'' ans\<rparr>
      | AdminRedrive \<Rightarrow> \<lparr>ho_status = 200, ho_body = redrive_body ans\<rparr>
      | ExportLogs _ \<Rightarrow>
          (case export_lines (sv_view_json S) (answer_views ans) [] of
             Inl msg \<Rightarrow> into_response (internal msg)
           | Inr body \<Rightarrow> \<lparr>ho_status = 200, ho_body = NdjsonBody body\<rparr>)
      | _ \<Rightarrow> \<lparr>ho_status = 200, ho_body = AnswerBody ans\<rparr>)"

definition slots_wf :: "app_state \<Rightarrow> bool" where
  "slots_wf st \<longleftrightarrow> (\<forall>s \<in> snd ` set (ap_slots st). s < length (ap_permits st))"

text \<open>The state after the call, but for the slots.\<close>

definition after_call :: "req_inputs \<Rightarrow> role \<Rightarrow> endpoint \<Rightarrow> answer mres \<Rightarrow> pipe \<Rightarrow> app_state \<Rightarrow> app_state" where
  "after_call I r ep ans p st =
     (case ans of
        Inl _ \<Rightarrow> st\<lparr>ap_pipe := p\<rparr>
      | Inr _ \<Rightarrow>
          if ep = AdminFlush
          then st\<lparr>ap_pipe := handle_record_access (access_new (in_uid I) (in_now I) r ''flush'' ''{}'' None) p\<rparr>
          else if ep = AdminVerify then st\<lparr>ap_pipe := p, ap_verify_runs := ap_verify_runs st + 1\<rparr>
          else st\<lparr>ap_pipe := p\<rparr>)"

lemma retE_Pair: "retE x = Pair (Inr x)"
  by (simp add: retE_def fun_eq_iff)

text \<open>
  C16: an authorized request is the call of the handle behind its endpoint under the role of the token.
  The reply is the call's answer, or its error with the status the error stands for; the state changes
  as the call changes the pipeline and in nothing else, except that a flush leaves its own access record
  and a verification that has run is counted. No query slot stays taken and the verification guard is
  free again, whether the call succeeds or fails.
\<close>

theorem request_served:
  assumes "endpoint_action ep = Some a" and "good_caller S I hs a st r h" and "endpoint_call ep = Some c"
    and "can_serve ep h st" and "slots_wf st"
    and call: "handle_call (sv_pipe S) allow_all (in_cmd I) (in_uid I) (in_now I) r c (ap_pipe st) = (ans, p)"
  shows "\<exists>st'. serve_request S I hs ep st =
      (case ans of Inl e \<Rightarrow> into_response (api_error_of e) | Inr x \<Rightarrow> success_reply S ep x, st') \<and>
    st' = (after_call I r ep ans p st)\<lparr>ap_slots := ap_slots st', ap_permits := ap_permits st'\<rparr> \<and>
    permits_kept st st'"
proof -
  let ?c = "\<lparr>ca_role = r, ca_token_hash = h\<rparr>"
  have ch: "call_handle S I r c st1 = (blocking ans, st1\<lparr>ap_pipe := p\<rparr>)" if "ap_pipe st1 = ap_pipe st" for st1
    using call that by (simp add: call_handle_def server_policy_def)
  have auth: "authorized S I hs a k st = k ?c st" for k :: "caller \<Rightarrow> http_reply handler"
    by (rule good_caller_authorized [OF assms(2)])
  show ?thesis
  proof (cases "needs_slot ep")
    case True
    define k where "k = (\<lambda>x. case ep of QueryLogs _ \<Rightarrow> reply_with 200 (AnswerBody x) | CountLogs _ \<Rightarrow> reply_with 200 (number_body ''count'' x)
      | _ \<Rightarrow> (case export_lines (sv_view_json S) (answer_views x) [] of Inl msg \<Rightarrow> liftE (Inl (internal msg))
          | Inr body \<Rightarrow> reply_with 200 (NdjsonBody body)))"
    define res where "res = (case ans of Inl e \<Rightarrow> Inl (api_error_of e) | Inr x \<Rightarrow> fst (k x st))"
    have ro: "route S I hs ep st = with_slot ?c (seqE (call_handle S I r c) k) st"
      using True assms(1,3) auth
      by (cases ep) (auto simp: k_def needs_slot_def query_logs_endpoint_def count_logs_endpoint_def export_logs_endpoint_def)
    have same: "k x st1 = (fst (k x st), st1)" for x st1
      using True by (cases ep) (auto simp: k_def needs_slot_def reply_with_def retE_def liftE_def split: sum.splits)
    have "seqE (call_handle S I r c) k st1 = (res, st1\<lparr>ap_pipe := p\<rparr>)"
      if "st1 = st\<lparr>ap_slots := ap_slots st1, ap_permits := ap_permits st1\<rparr>" for st1
    proof -
      have "ap_pipe st1 = ap_pipe st" using arg_cong [OF that, of ap_pipe] by simp
      note ch [OF this]
      then show ?thesis
      proof (cases ans)
        case (Inr x)
        then have "seqE (call_handle S I r c) k st1 = k x (st1\<lparr>ap_pipe := p\<rparr>)"
          using \<open>call_handle S I r c st1 = _\<close> by (simp add: seqE_def blocking_def)
        with Inr same [of x "st1\<lparr>ap_pipe := p\<rparr>"] show ?thesis by (simp add: res_def)
      qed (simp add: seqE_def blocking_def res_def)
    qed
    moreover have "fst (query_slot_of (ca_token_hash ?c) st) \<noteq> SlotBusy" using assms(4) True by (simp add: can_serve_def)
    ultimately obtain st' where st': "with_slot ?c (seqE (call_handle S I r c) k) st = (res, st')" "permits_kept st st'"
        "st' = st\<lparr>ap_pipe := p, ap_slots := ap_slots st', ap_permits := ap_permits st'\<rparr>"
      using with_slot_free [of ?c st] assms(5) by (metis slots_wf_def)
    have "ep \<noteq> AdminFlush" "ep \<noteq> AdminVerify" using True by (auto simp: needs_slot_def)
    then have "after_call I r ep ans p st = st\<lparr>ap_pipe := p\<rparr>" by (simp add: after_call_def split: sum.splits)
    moreover have "serve_request S I hs ep st = (case res of Inl e \<Rightarrow> into_response e | Inr r \<Rightarrow> r, st')"
      by (simp add: serve_request_def ro st'(1) split: sum.splits)
    moreover have "(case res of Inl e \<Rightarrow> into_response e | Inr r \<Rightarrow> r) =
        (case ans of Inl e \<Rightarrow> into_response (api_error_of e) | Inr x \<Rightarrow> success_reply S ep x)"
      using True by (cases ep) (auto simp: res_def k_def needs_slot_def success_reply_def reply_with_def retE_def liftE_def
          split: sum.splits)
    ultimately show ?thesis using st'(2,3) by auto
  next
    case False
    have free: "ep = AdminVerify \<Longrightarrow> \<not> ap_verify_running st" using assms(4) by (simp add: can_serve_def)
    then have guard: "st\<lparr>ap_pipe := p, ap_verify_running := False\<rparr> = st\<lparr>ap_pipe := p\<rparr>"
        "st\<lparr>ap_pipe := p, ap_verify_running := False, ap_verify_runs := n\<rparr> = st\<lparr>ap_pipe := p, ap_verify_runs := n\<rparr>"
      if "ep = AdminVerify" for n using that by (cases st; simp)+
    have "serve_request S I hs ep st =
      (case ans of Inl e \<Rightarrow> into_response (api_error_of e) | Inr x \<Rightarrow> success_reply S ep x, after_call I r ep ans p st)"
    proof (cases "ep = AdminVerify")
      case True
      have cv: "c = HVerifyIntegrity" "a = AAdminister" using True assms(1,3) by simp_all
      have "route S I hs ep st = seqE (guarded_verify S I r) (\<lambda>ans. reply_with 200 (AnswerBody ans)) (st\<lparr>ap_verify_running := True\<rparr>)"
        using True free auth cv by (simp add: admin_verify_def try_begin_verify_def)
      with True ch [of "st\<lparr>ap_verify_running := True\<rparr>"] cv show ?thesis
        by (cases ans) (simp_all add: serve_request_def seqE_def guarded_verify_def blocking_def drop_verify_guard_def
            count_verify_run_def reply_with_def retE_def success_reply_def after_call_def guard)
    next
      case False
      note nv = this
      define k where "k = (\<lambda>x (st1 :: app_state). (Inr (success_reply S ep x) :: api_error + http_reply,
          if ep = AdminFlush
          then st1\<lparr>ap_pipe := handle_record_access (access_new (in_uid I) (in_now I) r ''flush'' ''{}'' None) (ap_pipe st1)\<rparr>
          else st1))"
      have ro: "route S I hs ep st = seqE (call_handle S I r c) k st"
        using assms(1,3) \<open>\<not> needs_slot ep\<close> nv auth
        by (cases ep) (auto simp: k_def needs_slot_def success_reply_def reply_with_def retE_Pair define_type_endpoint_def
            list_types_endpoint_def define_column_endpoint_def query_access_endpoint_def list_entities_endpoint_def
            entity_history_endpoint_def admin_flush_def admin_redrive_def admin_retention_def admin_dlq_def)
      show ?thesis
        using ch [of st] nv by (cases ans) (simp_all add: serve_request_def ro seqE_def blocking_def k_def after_call_def)
    qed
    moreover have "permits_kept st (after_call I r ep ans p st)"
      by (simp add: permits_kept_def after_call_def split: sum.splits)
    moreover have "st' = st'\<lparr>ap_slots := ap_slots st', ap_permits := ap_permits st'\<rparr>" for st' :: app_state by simp
    ultimately show ?thesis by blast
  qed
qed

section \<open>Retransmissions\<close>

text \<open>A key that the window holds with at most \<open>n\<close> younger ones.\<close>

definition remembers :: "string \<Rightarrow> nat \<Rightarrow> dedup_window \<Rightarrow> bool" where
  "remembers k n d \<longleftrightarrow> dedup_inv d \<and> (\<exists>xs ys. dw_order d = xs @ k # ys \<and> length ys \<le> n)"

lemma remembers_duplicate: "remembers k n d \<Longrightarrow> dedup_insert k d = (False, d)"
  by (auto simp: remembers_def dedup_inv_def dedup_insert_def)

lemma remembers_new:
  assumes "dedup_inv d" and "0 < dw_capacity d" and "dedup_insert k d = (True, d')"
  shows "remembers k 0 d'"
proof -
  have k: "k \<notin> set (dw_order d)" using dedup_insert_answer [OF assms(1), of k] assms(2,3) by simp
  have "dw_order d' = window_push (dw_capacity d) k (dw_order d)" "dedup_inv d'"
    using dedup_insert_order [OF assms(1), of k] assms(3) by simp_all
  moreover have "Suc (length (dw_order d)) - dw_capacity d \<le> length (dw_order d)" using assms(2) by simp
  ultimately show ?thesis using k assms(2) by (auto simp: remembers_def window_push_def)
qed

lemma remembers_insert:
  assumes "remembers k n d" and "Suc n < dw_capacity d"
  shows "remembers k (Suc n) (snd (dedup_insert key d))"
proof -
  obtain xs ys where o: "dw_order d = xs @ k # ys" "length ys \<le> n" and inv: "dedup_inv d"
    using assms(1) by (auto simp: remembers_def)
  let ?m = "Suc (length (dw_order d)) - dw_capacity d"
  have "length (dw_order d) \<le> dw_capacity d" using inv by (simp add: dedup_inv_def)
  then have m: "?m \<le> length xs" using o assms(2) by (cases xs) auto
  have "\<exists>xs ys. window_push (dw_capacity d) key (dw_order d) = xs @ k # ys \<and> length ys \<le> Suc n"
  proof (cases "key \<in> set (dw_order d)")
    case True
    then have "window_push (dw_capacity d) key (dw_order d) = xs @ k # ys" using o by (simp add: window_push_def)
    then show ?thesis using o(2) le_SucI by blast
  next
    case False
    then have "window_push (dw_capacity d) key (dw_order d) = drop ?m xs @ k # (ys @ [key])"
      using o m assms(2) by (simp add: window_push_def)
    moreover have "length (ys @ [key]) \<le> Suc n" using o by simp
    ultimately show ?thesis by blast
  qed
  with dedup_insert_order [OF inv] show ?thesis by (simp add: remembers_def)
qed

lemma remembers_remove:
  assumes "remembers k n d" and "key \<noteq> k"
  shows "remembers k n (dedup_remove key d)"
proof -
  obtain xs ys where o: "dw_order d = xs @ k # ys" "length ys \<le> n" and inv: "dedup_inv d"
    using assms(1) by (auto simp: remembers_def)
  have "dw_order (dedup_remove key d) = filter (\<lambda>k. k \<noteq> key) xs @ k # filter (\<lambda>k. k \<noteq> key) ys"
    using dedup_remove_order(1) [OF inv] o assms(2) by simp
  moreover have "length (filter (\<lambda>k. k \<noteq> key) ys) \<le> n" using o(2) by (meson length_filter_le order_trans)
  ultimately show ?thesis using dedup_remove_order(2) [OF inv] by (auto simp: remembers_def)
qed

text \<open>What one append does to the window and the queue.\<close>

definition request_key :: "server \<Rightarrow> headers \<Rightarrow> string option" where
  "request_key S hs = (case idempotency_key (sv_http S) hs of Inr (Some k) \<Rightarrow> Some k | _ \<Rightarrow> None)"

lemma emit_handle_outcome:
  assumes "emit_handle r ev st = (res, st')"
  shows "ap_dedup st' = ap_dedup st"
    and "pi_queue (ap_pipe st') = pi_queue (ap_pipe st) @ (case res of Inr _ \<Rightarrow> [CEmit ev] | Inl _ \<Rightarrow> [])"
  using assms
  by (auto simp: emit_handle_def handle_emit_def server_policy_def handle_check_def emit_unchecked_def emit_begin_def
      emit_send_def emit_undo_def on_metrics_def enqueue_def Let_def split: prod.splits sum.splits if_splits option.splits)

datatype append_outcome = Queued audit_event | Duplicate | Refused

definition outcome_of :: "api_error + http_reply \<Rightarrow> audit_event \<Rightarrow> append_outcome" where
  "outcome_of res ev =
     (case res of
        Inl _ \<Rightarrow> Refused
      | Inr r \<Rightarrow> if ho_body r = status_body ''duplicate'' then Duplicate else Queued ev)"

lemma append_log_outcome:
  assumes "append_log_endpoint S I hs req st = (res, st')" and inv: "dedup_inv (ap_dedup st)"
  defines "ev \<equiv> append_event (in_now I) req"
  shows "pi_queue (ap_pipe st') = pi_queue (ap_pipe st) @ (case outcome_of res ev of Queued e \<Rightarrow> [CEmit e] | _ \<Rightarrow> [])" (is ?queue)
    and "case request_key S hs of
        None \<Rightarrow> ap_dedup st' = ap_dedup st \<and> outcome_of res ev \<noteq> Duplicate
      | Some k \<Rightarrow>
          (case outcome_of res ev of
             Queued _ \<Rightarrow> dedup_insert k (ap_dedup st) = (True, ap_dedup st')
           | Duplicate \<Rightarrow> fst (dedup_insert k (ap_dedup st)) = False \<and> ap_dedup st' = ap_dedup st
           | Refused \<Rightarrow> ap_dedup st' = ap_dedup st \<or>
               (\<exists>d. dedup_insert k (ap_dedup st) = (True, d) \<and> ap_dedup st' = dedup_remove k d))" (is ?window)
proof -
  have ne: "status_body ''queued'' \<noteq> status_body ''duplicate''" by (simp add: status_body_def)
  have keep: "fst (dedup_insert k d) = False \<Longrightarrow> snd (dedup_insert k d) = d" for k d
    by (auto simp: dedup_insert_def Let_def split: if_splits)
  have "?queue \<and> ?window"
  proof (cases "\<exists>r h. good_caller S I hs AEmit st r h")
    case False
    then have "\<exists>e. append_log_endpoint S I hs req st = (Inl e, st) \<and> ae_status e \<in> {401, 403}"
      unfolding append_log_endpoint_def by (intro bad_caller_authorized) auto
    then obtain e where "res = Inl e" "st' = st" using assms(1) by auto
    then show ?thesis by (auto simp: outcome_of_def split: option.splits)
  next
    case True
    then obtain r h where g: "good_caller S I hs AEmit st r h" by blast
    note run = assms(1) [unfolded append_log_endpoint_def good_caller_authorized [OF g]]
    show ?thesis
    proof (cases "idempotency_key (sv_http S) hs")
      case (Inl e)
      with run show ?thesis by (auto simp: seqE_def liftE_def outcome_of_def request_key_def)
    next
      case (Inr idem)
      obtain new st1 where rk: "reserve_key idem st = (new, st1)" by (metis surj_pair)
      obtain er st2 where em: "emit_handle r ev st1 = (er, st2)" by (metis surj_pair)
      note E = emit_handle_outcome [OF em]
      have st1: "ap_pipe st1 = ap_pipe st" using rk by (auto simp: reserve_key_def split: option.splits prod.splits)
      show ?thesis
      proof (cases new)
        case False
        then obtain k d where k: "idem = Some k" "dedup_insert k (ap_dedup st) = (False, d)" "st1 = st\<lparr>ap_dedup := d\<rparr>"
          using rk by (auto simp: reserve_key_def split: option.splits prod.splits)
        then have "st1 = st" using keep [of k "ap_dedup st"] by simp
        with k(1,2) Inr rk False run show ?thesis
          by (auto simp: seqE_def liftE_def reply_with_def retE_def outcome_of_def request_key_def)
      next
        case True
        show ?thesis
        proof (cases er)
          case err: (Inl e)
          with Inr rk True em run have "res = Inl (api_error_of e)" "st' = release_key idem st2"
            by (auto simp: seqE_def liftE_def ev_def)
          note out = this
          have q: "pi_queue (ap_pipe st') = pi_queue (ap_pipe st)"
            using out(2) E(2) err st1 by (simp add: release_key_def split: option.splits)
          have rf: "outcome_of res ev = Refused" using out(1) by (simp add: outcome_of_def)
          show ?thesis
          proof (cases idem)
            case None
            then have "ap_dedup st' = ap_dedup st" using out(2) E(1) rk by (simp add: release_key_def reserve_key_def)
            with None Inr q rf show ?thesis by (simp add: request_key_def)
          next
            case (Some k)
            obtain d where d: "dedup_insert k (ap_dedup st) = (True, d)" "ap_dedup st1 = d"
              using rk Some True by (auto simp: reserve_key_def split: prod.splits)
            then have "ap_dedup st' = dedup_remove k d" using out(2) E(1) Some by (simp add: release_key_def)
            with Some Inr q rf d(1) show ?thesis by (simp add: request_key_def)
          qed
        next
          case ok: (Inr u)
          with Inr rk True em run have out: "res = Inr \<lparr>ho_status = 202, ho_body = status_body ''queued''\<rparr>" "st' = st2"
            by (auto simp: seqE_def liftE_def ev_def reply_with_def retE_def)
          have q: "pi_queue (ap_pipe st') = pi_queue (ap_pipe st) @ [CEmit ev]"
            using out(2) E(2) ok st1 by simp
          have rf: "outcome_of res ev = Queued ev" using out(1) ne by (simp add: outcome_of_def)
          show ?thesis
          proof (cases idem)
            case None
            then have "ap_dedup st' = ap_dedup st" using out(2) E(1) rk by (simp add: reserve_key_def)
            with None Inr q rf show ?thesis by (simp add: request_key_def)
          next
            case (Some k)
            then have "dedup_insert k (ap_dedup st) = (True, ap_dedup st')"
              using rk True out(2) E(1) by (auto simp: reserve_key_def split: prod.splits)
            with Some Inr q rf show ?thesis by (simp add: request_key_def)
          qed
        qed
      qed
    qed
  qed
  then show ?queue and ?window by auto
qed

text \<open>
  Appends one after the other. Between two of them everything but the window may have changed in any
  way: the pipeline, the tokens, the slots. Each outcome comes with the commands it has put in the
  queue.
\<close>

type_synonym arrival = "app_state \<times> req_inputs \<times> headers \<times> append_request"

definition append_step :: "server \<Rightarrow> arrival \<Rightarrow> dedup_window \<Rightarrow> (append_outcome \<times> command list) \<times> dedup_window" where
  "append_step S = (\<lambda>(st, I, hs, req) d.
     case append_log_endpoint S I hs req (st\<lparr>ap_dedup := d\<rparr>) of
       (res, st') \<Rightarrow> ((outcome_of res (append_event (in_now I) req),
          drop (length (pi_queue (ap_pipe st))) (pi_queue (ap_pipe st'))), ap_dedup st'))"

fun append_run :: "server \<Rightarrow> arrival list \<Rightarrow> dedup_window \<Rightarrow> (append_outcome \<times> command list) list" where
  "append_run S [] d = []"
| "append_run S (r # rs) d = (case append_step S r d of (out, d') \<Rightarrow> out # append_run S rs d')"

definition key_of :: "server \<Rightarrow> arrival \<Rightarrow> string option" where
  "key_of S = (\<lambda>(st, I, hs, req). request_key S hs)"

lemma append_run_length [simp]: "length (append_run S rs d) = length rs"
  by (induction rs arbitrary: d) (auto split: prod.splits)

lemma append_step_outcome:
  assumes "append_step S r d = ((out, cs), d')" and "dedup_inv d"
  shows "cs = (case out of Queued e \<Rightarrow> [CEmit e] | _ \<Rightarrow> [])" and "dedup_inv d'" and "dw_capacity d' = dw_capacity d"
    and "out = Duplicate \<Longrightarrow> \<exists>k. key_of S r = Some k \<and> (0 < dw_capacity d \<longrightarrow> k \<in> set (dw_order d))"
    and "out = Queued e \<Longrightarrow> key_of S r = Some k \<Longrightarrow> dedup_insert k d = (True, d')"
    and "k \<in> set (dw_order d') \<Longrightarrow> k \<in> set (dw_order d) \<or> key_of S r = Some k \<and> (\<exists>e. out = Queued e)"
    and "remembers k n d \<Longrightarrow> key_of S r = Some k \<Longrightarrow> d' = d \<and> (\<forall>e. out \<noteq> Queued e)"
    and "remembers k n d \<Longrightarrow> key_of S r \<noteq> Some k \<Longrightarrow> Suc n < dw_capacity d \<Longrightarrow> remembers k (Suc n) d'"
proof -
  obtain st I hs req where r: "r = (st, I, hs, req)" by (cases r)
  obtain res st' where run: "append_log_endpoint S I hs req (st\<lparr>ap_dedup := d\<rparr>) = (res, st')" by (metis surj_pair)
  have out: "out = outcome_of res (append_event (in_now I) req)" "d' = ap_dedup st'"
      "cs = drop (length (pi_queue (ap_pipe st))) (pi_queue (ap_pipe st'))"
    using assms(1) r run by (auto simp: append_step_def)
  have inv: "dedup_inv (ap_dedup (st\<lparr>ap_dedup := d\<rparr>))" using assms(2) by simp
  have window: "ap_dedup (st\<lparr>ap_dedup := d\<rparr>) = d" by simp
  note O = append_log_outcome [OF run inv, folded out(1), unfolded window]
  have key: "key_of S r = request_key S hs" by (simp add: key_of_def r)
  show "cs = (case out of Queued e \<Rightarrow> [CEmit e] | _ \<Rightarrow> [])" using O(1) out(3) by simp
  have W: "case key_of S r of
        None \<Rightarrow> d' = d \<and> out \<noteq> Duplicate
      | Some k \<Rightarrow>
          (case out of
             Queued _ \<Rightarrow> dedup_insert k d = (True, d')
           | Duplicate \<Rightarrow> fst (dedup_insert k d) = False \<and> d' = d
           | Refused \<Rightarrow> d' = d \<or> (\<exists>d1. dedup_insert k d = (True, d1) \<and> d' = dedup_remove k d1))"
    using O(2) unfolding out(2) key .
  note I' = dedup_insert_order [OF assms(2)]
  have steps: "d' = d \<or> (\<exists>k. key_of S r = Some k \<and> (d' = snd (dedup_insert k d) \<or> d' = dedup_remove k (snd (dedup_insert k d))))"
    using W by (auto split: option.splits append_outcome.splits)
  then show "dedup_inv d'" and "dw_capacity d' = dw_capacity d"
    using assms(2) I' dedup_remove_order(2) by auto
  show "out = Duplicate \<Longrightarrow> \<exists>k. key_of S r = Some k \<and> (0 < dw_capacity d \<longrightarrow> k \<in> set (dw_order d))"
    using W dedup_insert_answer [OF assms(2)] by (auto split: option.splits)
  show "out = Queued e \<Longrightarrow> key_of S r = Some k \<Longrightarrow> dedup_insert k d = (True, d')" using W by simp
  have sub: "set (window_push n key ks) \<subseteq> insert key (set ks)" for n key ks
    by (auto simp: window_push_def dest: in_set_dropD)
  show "k \<in> set (dw_order d') \<Longrightarrow> k \<in> set (dw_order d) \<or> key_of S r = Some k \<and> (\<exists>e. out = Queued e)"
  proof -
    assume k: "k \<in> set (dw_order d')"
    show ?thesis
    proof (cases "d' = d")
      case False
      then obtain key where key: "key_of S r = Some key" using steps by auto
      show ?thesis
      proof (cases out)
        case (Queued e)
        then have "d' = snd (dedup_insert key d)" using W key by simp
        then have "k \<in> insert key (set (dw_order d))" using k I'(1) [of key] sub by auto
        with Queued key show ?thesis by auto
      next
        case Duplicate
        with W key False show ?thesis by simp
      next
        case Refused
        then have "d' = dedup_remove key (snd (dedup_insert key d))" using W key False by auto
        then have "k \<noteq> key" "k \<in> set (dw_order (snd (dedup_insert key d)))"
          using k dedup_remove_order(1) [OF I'(2)] by auto
        then have "k \<in> set (dw_order d)" using I'(1) [of key] sub [of "dw_capacity d" key "dw_order d"] by auto
        then show ?thesis ..
      qed
    qed (use k in simp)
  qed
  show "remembers k n d \<Longrightarrow> key_of S r = Some k \<Longrightarrow> d' = d \<and> (\<forall>e. out \<noteq> Queued e)"
    using W remembers_duplicate [of k n d] by (auto split: append_outcome.splits)
  show "remembers k n d \<Longrightarrow> key_of S r \<noteq> Some k \<Longrightarrow> Suc n < dw_capacity d \<Longrightarrow> remembers k (Suc n) d'"
  proof -
    assume m: "remembers k n d" and key: "key_of S r \<noteq> Some k" and n: "Suc n < dw_capacity d"
    have "remembers k (Suc n) d" using m by (auto simp: remembers_def le_Suc_eq)
    moreover have "remembers k (Suc n) (snd (dedup_insert key d))" for key by (rule remembers_insert [OF m n])
    ultimately show ?thesis using steps key remembers_remove by auto
  qed
qed

lemma append_run_duplicate:
  assumes "dedup_inv d" and "j < length rs" and "fst (append_run S rs d ! j) = Duplicate" and "0 < dw_capacity d"
  shows "\<exists>k. key_of S (rs ! j) = Some k \<and>
    (k \<in> set (dw_order d) \<or> (\<exists>i < j. key_of S (rs ! i) = Some k \<and> (\<exists>e. fst (append_run S rs d ! i) = Queued e)))"
  using assms
proof (induction rs arbitrary: d j)
  case (Cons r rs)
  obtain out cs d' where st: "append_step S r d = ((out, cs), d')" by (metis surj_pair)
  note O = append_step_outcome [OF st Cons.prems(1)]
  show ?case
  proof (cases j)
    case 0
    with Cons.prems(3,4) st O(4) show ?thesis by auto
  next
    case (Suc i)
    then obtain k where k: "key_of S (rs ! i) = Some k"
        "k \<in> set (dw_order d') \<or> (\<exists>i' < i. key_of S (rs ! i') = Some k \<and> (\<exists>e. fst (append_run S rs d' ! i') = Queued e))"
      using Cons.IH [OF O(2), of i] Cons.prems(2-4) st O(3) by auto
    from k(2) show ?thesis
    proof
      assume "k \<in> set (dw_order d')"
      with O(6) [of k] k(1) Suc st show ?thesis by (auto intro: exI [of _ 0])
    next
      assume "\<exists>i' < i. key_of S (rs ! i') = Some k \<and> (\<exists>e. fst (append_run S rs d' ! i') = Queued e)"
      then obtain i' e where "i' < i" "key_of S (rs ! i') = Some k" "fst (append_run S rs d' ! i') = Queued e" by blast
      then have "\<exists>i < j. key_of S ((r # rs) ! i) = Some k \<and> (\<exists>e. fst (append_run S (r # rs) d ! i) = Queued e)"
        using Suc st by (intro exI [of _ "Suc i'"]) auto
      with k(1) Suc show ?thesis by simp
    qed
  qed
qed simp

lemma append_run_remembers:
  assumes "remembers k n d" and "j < length rs" and "n + j < dw_capacity d" and "key_of S (rs ! j) = Some k"
  shows "fst (append_run S rs d ! j) \<noteq> Queued e"
  using assms
proof (induction rs arbitrary: d j n)
  case (Cons r rs)
  obtain out cs d' where st: "append_step S r d = ((out, cs), d')" by (metis surj_pair)
  have inv: "dedup_inv d" using Cons.prems(1) by (simp add: remembers_def)
  note O = append_step_outcome [OF st inv]
  show ?case
  proof (cases j)
    case 0
    with Cons.prems st O(7) [OF Cons.prems(1)] show ?thesis by auto
  next
    case (Suc i)
    show ?thesis
    proof (cases "key_of S r = Some k")
      case True
      then have "d' = d" using O(7) [OF Cons.prems(1)] by simp
      with Cons.IH [OF Cons.prems(1), of i] Cons.prems st Suc show ?thesis by auto
    next
      case False
      then have "remembers k (Suc n) d'" using O(8) [OF Cons.prems(1)] Cons.prems(3) Suc by simp
      with Cons.IH [of "Suc n" d' i] Cons.prems st Suc O(3) show ?thesis by auto
    qed
  qed
qed simp

lemma append_run_drop:
  "i < length rs \<Longrightarrow> dedup_inv d \<Longrightarrow> \<exists>d1 d2. dedup_inv d1 \<and> dw_capacity d1 = dw_capacity d \<and>
     append_step S (rs ! i) d1 = (append_run S rs d ! i, d2) \<and> drop (Suc i) (append_run S rs d) = append_run S (drop (Suc i) rs) d2"
proof (induction rs arbitrary: d i)
  case (Cons r rs)
  obtain out cs d' where st: "append_step S r d = ((out, cs), d')" by (metis surj_pair)
  note O = append_step_outcome [OF st Cons.prems(2)]
  show ?case
  proof (cases i)
    case 0
    with st Cons.prems(2) show ?thesis by auto
  next
    case (Suc i')
    with Cons.IH [OF _ O(2), of i'] Cons.prems st O(3) show ?thesis by auto
  qed
qed simp

text \<open>
  C14: retransmissions over any number of requests, whatever happens to the server between them. An event
  is put in the queue exactly by the requests that are answered as queued, once each. A request is
  answered as a duplicate only when an earlier request with its key was answered as queued. After a
  request with a key was answered as queued, none of the next \<open>window\<close> requests with that key puts a
  second event in the queue.
\<close>

theorem append_log_idempotent:
  fixes S :: server and rs :: "arrival list"
  assumes "0 < window" and "j < length rs"
  defines "outs \<equiv> append_run S rs (dedup_new window)"
  shows "snd (outs ! j) = (case fst (outs ! j) of Queued e \<Rightarrow> [CEmit e] | _ \<Rightarrow> []) \<and>
    (fst (outs ! j) = Duplicate \<longrightarrow>
       (\<exists>i < j. \<exists>k e. key_of S (rs ! i) = Some k \<and> key_of S (rs ! j) = Some k \<and> fst (outs ! i) = Queued e)) \<and>
    (\<forall>i < j. \<forall>k e. key_of S (rs ! i) = Some k \<and> key_of S (rs ! j) = Some k \<and> fst (outs ! i) = Queued e \<and> j - i \<le> window \<longrightarrow>
       snd (outs ! j) = [])"
proof -
  have cap: "dw_capacity (dedup_new window) = window" "dw_order (dedup_new window) = []" by (simp_all add: dedup_new_def)
  have cmds: "snd (outs ! j) = (case fst (outs ! j) of Queued e \<Rightarrow> [CEmit e] | _ \<Rightarrow> [])"
  proof -
    obtain d1 d2 where "dedup_inv d1" "append_step S (rs ! j) d1 = (outs ! j, d2)"
      using append_run_drop [OF assms(2), of "dedup_new window" S] by (auto simp: outs_def)
    then show ?thesis using append_step_outcome(1) [of S "rs ! j" d1 "fst (outs ! j)" "snd (outs ! j)" d2] by simp
  qed
  have dup: "\<exists>i < j. \<exists>k e. key_of S (rs ! i) = Some k \<and> key_of S (rs ! j) = Some k \<and> fst (outs ! i) = Queued e"
    if "fst (outs ! j) = Duplicate"
    using append_run_duplicate [OF dedup_inv_new assms(2), of S window] that assms(1) cap by (auto simp: outs_def)
  have once: "snd (outs ! j) = []" if ij: "i < j" "j - i \<le> window" and k: "key_of S (rs ! i) = Some k" "key_of S (rs ! j) = Some k"
      and q: "fst (outs ! i) = Queued e" for i k e
  proof -
    have "i < length rs" using ij(1) assms(2) by simp
    from append_run_drop [OF this, of "dedup_new window" S] obtain d1 d2 where
        D: "dedup_inv d1" "dw_capacity d1 = window" "append_step S (rs ! i) d1 = (outs ! i, d2)"
        "drop (Suc i) outs = append_run S (drop (Suc i) rs) d2"
      using cap by (auto simp: outs_def)
    obtain cs where o: "append_step S (rs ! i) d1 = ((Queued e, cs), d2)" using D(3) q by (metis prod.collapse)
    note O = append_step_outcome [OF o D(1)]
    have "remembers k 0 d2" using remembers_new [OF D(1)] O(5) k(1) D(2) assms(1) by simp
    then have "fst (append_run S (drop (Suc i) rs) d2 ! (j - Suc i)) \<noteq> Queued e'" for e'
      using ij assms(2) k(2) O(3) D(2) by (intro append_run_remembers) auto
    moreover have "append_run S (drop (Suc i) rs) d2 ! (j - Suc i) = outs ! j"
      using ij assms(2) by (simp flip: D(4)) (simp add: outs_def)
    ultimately show ?thesis using cmds by (auto split: append_outcome.splits)
  qed
  show ?thesis using cmds dup once by blast
qed

section \<open>Reload\<close>

lemma find_key:
  assumes "keys_good K ts"
  shows "find (\<lambda>t. token_key_hash K (fst t) = Inr h) ts = Some t \<longleftrightarrow> t \<in> set ts \<and> token_key_hash K (fst t) = Inr h"
proof -
  have "inj_on (\<lambda>t. token_key_hash K (fst t)) (set ts)" using assms by (simp add: keys_good_def distinct_map)
  then have inj: "u = t" if "u \<in> set ts" "t \<in> set ts" "token_key_hash K (fst u) = token_key_hash K (fst t)" for u t
    using that by (auto dest: inj_onD)
  have sound: "u \<in> set ts \<and> token_key_hash K (fst u) = Inr h"
    if "find (\<lambda>t. token_key_hash K (fst t) = Inr h) ts = Some u" for u using that by (auto simp: find_Some_iff)
  show ?thesis
  proof
    assume t: "t \<in> set ts \<and> token_key_hash K (fst t) = Inr h"
    then have "find (\<lambda>t. token_key_hash K (fst t) = Inr h) ts \<noteq> None"
      unfolding find_None_iff by blast
    then obtain u where u: "find (\<lambda>t. token_key_hash K (fst t) = Inr h) ts = Some u" by blast
    with sound [OF u] inj [of u t] t show "find (\<lambda>t. token_key_hash K (fst t) = Inr h) ts = Some t" by simp
  qed (rule sound)
qed

lemma token_map_of_good:
  assumes "keys_good K (au_tokens s)"
  shows "\<exists>m. token_map_of K s = Inr m \<and> (\<forall>h e. map_of m h = Some e \<longleftrightarrow>
    (\<exists>key spec. (key, spec) \<in> set (au_tokens s) \<and> token_key_hash K key = Inr h \<and> e = token_spec_entry spec))"
proof -
  obtain m where m: "token_map_from K (au_tokens s) [] = Inr m"
      "\<forall>h. map_of m h = (case find (\<lambda>t. token_key_hash K (fst t) = Inr h) (au_tokens s) of
         Some t \<Rightarrow> Some (token_spec_entry (snd t)) | None \<Rightarrow> map_of [] h)"
    using token_map_from_good [OF assms, of "[]"] by auto
  have "map_of m h = Some e \<longleftrightarrow>
      (\<exists>key spec. (key, spec) \<in> set (au_tokens s) \<and> token_key_hash K key = Inr h \<and> e = token_spec_entry spec)" for h e
  proof (cases "find (\<lambda>t. token_key_hash K (fst t) = Inr h) (au_tokens s)")
    case None
    then have "map_of m h = None" by (simp add: m(2))
    then show ?thesis using None by (auto simp: find_None_iff)
  next
    case (Some t)
    then have "t \<in> set (au_tokens s) \<and> token_key_hash K (fst t) = Inr h" using find_key [OF assms] by blast
    then have t: "(fst t, snd t) \<in> set (au_tokens s)" "token_key_hash K (fst t) = Inr h" by simp_all
    have uniq: "spec = snd t" if "(key, spec) \<in> set (au_tokens s)" "token_key_hash K key = Inr h" for key spec
      using find_key [OF assms, of h "(key, spec)"] that Some by simp
    have "map_of m h = Some (token_spec_entry (snd t))" by (simp add: m(2) Some)
    then have "map_of m h = Some e \<longleftrightarrow> e = token_spec_entry (snd t)" by auto
    with t uniq show ?thesis by blast
  qed
  then show ?thesis using m(1) by (auto simp: token_map_of_def)
qed

text \<open>
  C37: a reload of the auth section is all or nothing. It fails exactly when the file cannot be read or
  parsed, a key is neither plain nor a hash, or two keys stand for one token; then the old section stays
  in force. When it succeeds, the tokens in force are exactly the listed ones, by their hashes, the grants
  are exactly the listed ones, and the cap is the listed one; in which order the maps of the file are
  traversed makes no difference. The permits in use, the verification guard and the window stay.
\<close>

theorem reload_auth_correct:
  "let (res, st') = reload_auth K E u now read st
   in ((\<exists>e. res = Inl e) \<longleftrightarrow> (case read of Inl _ \<Rightarrow> True | Inr s \<Rightarrow> \<not> keys_good K (au_tokens s))) \<and>
     ap_permits st' = ap_permits st \<and> ap_verify_running st' = ap_verify_running st \<and> ap_dedup st' = ap_dedup st \<and>
     (case res of
        Inl _ \<Rightarrow> st' = st
      | Inr _ \<Rightarrow> \<exists>s. read = Inr s \<and>
          (\<forall>h e. map_of (as_tokens (ap_auth st')) h = Some e \<longleftrightarrow>
             (\<exists>key spec. (key, spec) \<in> set (au_tokens s) \<and> token_key_hash K key = Inr h \<and> e = token_spec_entry spec)) \<and>
          (\<forall>r a. is_allowed (as_policy (ap_auth st')) r a \<longleftrightarrow>
             (\<exists>specs. (r, specs) \<in> set (au_grants s) \<and> a \<in> action_of_spec ` set specs)) \<and>
          slot_limit st' = au_max_concurrent_queries s)"
proof (cases read)
  case (Inl e)
  then show ?thesis by (simp add: reload_auth_def reload_next_def)
next
  case (Inr s)
  show ?thesis
  proof (cases "keys_good K (au_tokens s)")
    case False
    then have "\<exists>e. token_map_of K s = Inl e"
      using token_map_from_only_good [of K "au_tokens s" "[]"] by (cases "token_map_of K s") (auto simp: token_map_of_def)
    with Inr False show ?thesis by (auto simp: reload_auth_def reload_next_def auth_state_of_def)
  next
    case True
    from token_map_of_good [OF this] obtain m where m: "token_map_of K s = Inr m" "\<forall>h e. map_of m h = Some e \<longleftrightarrow>
        (\<exists>key spec. (key, spec) \<in> set (au_tokens s) \<and> token_key_hash K key = Inr h \<and> e = token_spec_entry spec)" by blast
    with Inr True show ?thesis
      by (simp add: reload_auth_def reload_next_def auth_state_of_def swap_auth_def policy_of_grants slot_limit_def Let_def)
  qed
qed

section \<open>Witnesses\<close>

definition web_http :: httpext where
  "web_http = \<lparr>hx_get = map_of, hx_to_str = (\<lambda>bs. Some (from_bytes bs)), hx_path = (\<lambda>u. u),
     hx_json_parse = (\<lambda>_. None), hx_json_print = (\<lambda>_. ''{}'')\<rparr>"

definition web_server :: server where
  "web_server = \<lparr>sv_http = web_http, sv_pipe = demo_penv, sv_view_json = (\<lambda>_. Inr ''{}'')\<rparr>"

definition web_hash :: string where
  "web_hash = token_sha256_hex (se_crypto demo_senv) ''t''"

definition web_auth :: auth_state where
  "web_auth = \<lparr>as_tokens = [(web_hash, \<lparr>te_role = ''app'', te_expires = None\<rparr>)],
     as_policy = pp_grant ''app'' [AEmit, AQuery, AAdminister] deny_by_default, as_max_concurrent_queries = Some 1\<rparr>"

definition web_app :: app_state where
  "web_app = app_new (pipe_of demo_worker demo_pipe_fs) web_auth"

definition web_headers :: "string \<Rightarrow> headers" where
  "web_headers k = [(''authorization'', as_bytes ''Bearer t''), (''idempotency-key'', as_bytes k)]"

definition web_request :: append_request where
  "web_request = \<lparr>lr_occurred_at = Some 7, lr_actor_type = ''user'', lr_actor = demo_input, lr_method = ''GET'', lr_url = ''u'',
     lr_content = CText ''hi'', lr_targets = [], lr_custom = []\<rparr>"

lemma web_caller:
  assumes "ap_auth st = web_auth"
  shows "good_caller web_server I (web_headers k) a st ''app'' web_hash"
proof -
  have "is_allowed (as_policy web_auth) ''app'' a" by (cases a) (simp_all add: web_auth_def is_allowed_grant)
  then show ?thesis using assms
    by (simp add: good_caller_def role_for_def header_str_def web_server_def web_http_def web_headers_def demo_penv_def
        strip_prefix_def Let_def) (simp add: web_auth_def web_hash_def)
qed

theorem requests_are_gated_witness:
  "\<forall>I. \<exists>res. serve_request web_server I [] AdminRetention web_app = (res, web_app) \<and> ho_status res \<in> {401, 403}"
proof
  fix I :: req_inputs
  have "\<not> good_caller web_server I [] AAdminister web_app r h" for r h
    by (simp add: good_caller_def role_for_def header_str_def web_server_def web_http_def)
  then show "\<exists>res. serve_request web_server I [] AdminRetention web_app = (res, web_app) \<and> ho_status res \<in> {401, 403}"
    by (intro requests_are_gated) auto
qed

theorem request_served_witness:
  "\<forall>I. \<exists>st'. serve_request web_server I (web_headers ''k'') ListTypes web_app =
     (\<lparr>ho_status = 200, ho_body = AnswerBody (AnTypes (type_schemas demo_store))\<rparr>, st') \<and> pi_queue (ap_pipe st') = []"
proof
  fix I :: req_inputs
  let ?p = "pipe_of demo_worker demo_pipe_fs"
  have call: "handle_call (sv_pipe web_server) allow_all (in_cmd I) (in_uid I) (in_now I) ''app'' HEntityTypes (ap_pipe web_app) =
      (Inr (AnTypes (type_schemas demo_store)), ?p)"
    by (simp add: handle_call_def handle_request_def handle_check_def web_app_def app_new_def pipe_of_def handle_def
        call_finish_def finish_with_def types_reply_def leave_note_def)
  have "slots_wf web_app" "can_serve ListTypes web_hash web_app"
    by (simp_all add: slots_wf_def can_serve_def needs_slot_def web_app_def app_new_def)
  note S = request_served [OF _ web_caller [of web_app I "''k''" AQuery] _ this(2,1) call]
  have "ap_auth web_app = web_auth" by (simp add: web_app_def app_new_def)
  with S obtain st' where st: "serve_request web_server I (web_headers ''k'') ListTypes web_app =
      (success_reply web_server ListTypes (AnTypes (type_schemas demo_store)), st')"
      "st' = (after_call I ''app'' ListTypes (Inr (AnTypes (type_schemas demo_store))) ?p web_app)
        \<lparr>ap_slots := ap_slots st', ap_permits := ap_permits st'\<rparr>" by auto
  have "pi_queue (ap_pipe st') = []" by (subst st(2)) (simp add: after_call_def pipe_of_def)
  with st(1) show "\<exists>st'. serve_request web_server I (web_headers ''k'') ListTypes web_app =
     (\<lparr>ho_status = 200, ho_body = AnswerBody (AnTypes (type_schemas demo_store))\<rparr>, st') \<and> pi_queue (ap_pipe st') = []"
    by (auto simp: success_reply_def)
qed

theorem append_log_idempotent_witness:
  "\<forall>I. let rs = replicate 2 (web_app, I, web_headers ''k'', web_request); outs = append_run web_server rs (dedup_new 1)
     in (\<exists>e. fst (outs ! 0) = Queued e) \<and> snd (outs ! 1) = []"
proof
  fix I :: req_inputs
  let ?r = "(web_app, I, web_headers ''k'', web_request)"
  let ?outs = "append_run web_server [?r, ?r] (dedup_new 1)"
  have key: "idempotency_key web_http (web_headers ''k'') = Inr (Some ''k'')"
    by (simp add: idempotency_key_def web_http_def web_headers_def trim_def is_white_def is_visible_def Let_def)
  have k: "key_of web_server ?r = Some ''k''" using key by (simp add: key_of_def request_key_def web_server_def)
  let ?st = "web_app\<lparr>ap_dedup := dedup_new 1\<rparr>"
  have auth: "ap_auth ?st = web_auth" by (simp add: web_app_def app_new_def)
  have pipe: "ap_pipe ?st = pipe_of demo_worker demo_pipe_fs" by (simp add: web_app_def app_new_def)
  have ne: "status_body ''queued'' \<noteq> status_body ''duplicate''" by (simp add: status_body_def)
  have room: "\<exists>p. handle_emit server_policy ''app'' ev (pipe_of demo_worker demo_pipe_fs) = (Inr (), p)" for ev
    by (simp add: handle_emit_def handle_check_def server_policy_def emit_unchecked_def emit_begin_def rejects_full_def
        pipeline_config_default_def emit_send_def has_room_def pipe_of_def on_metrics_def upd_metrics_def Let_def)
  have "\<exists>st'. append_log_endpoint web_server I (web_headers ''k'') web_request ?st =
      (Inr \<lparr>ho_status = 202, ho_body = status_body ''queued''\<rparr>, st')"
    unfolding append_log_endpoint_def good_caller_authorized [OF web_caller [OF auth]]
    using key room [of "append_event (in_now I) web_request"] pipe
    by (auto simp: seqE_def liftE_def web_server_def reserve_key_def dedup_insert_def dedup_new_def dedup_evict_def Let_def
        emit_handle_def reply_with_def retE_def web_app_def app_new_def split: prod.splits)
  then have "\<exists>e. fst (?outs ! 0) = Queued e"
    using ne by (auto simp: append_step_def outcome_of_def)
  then obtain e where q: "fst (?outs ! 0) = Queued e" by blast
  have "snd (?outs ! 1) = []"
    using append_log_idempotent [of 1 1 "[?r, ?r]" web_server] k q by (auto dest: spec [of _ 0])
  with q show "let rs = replicate 2 ?r; outs = append_run web_server rs (dedup_new 1)
     in (\<exists>e. fst (outs ! 0) = Queued e) \<and> snd (outs ! 1) = []"
    by (simp add: numeral_2_eq_2 Let_def)
qed

theorem reload_auth_correct_witness:
  "let s = \<lparr>au_tokens = [(''t'', TokenRole ''app'')], au_grants = [(''app'', [SpecQuery])], au_max_concurrent_queries = None\<rparr>;
       (res, st') = reload_auth demo_crypto demo_senv 1 2 (Inr s) web_app
   in res = Inr () \<and> map_of (as_tokens (ap_auth st')) (token_sha256_hex demo_crypto ''t'') =
        Some \<lparr>te_role = ''app'', te_expires = None\<rparr> \<and> \<not> is_allowed (as_policy (ap_auth st')) ''app'' AEmit"
proof -
  let ?s = "\<lparr>au_tokens = [(''t'', TokenRole ''app'')], au_grants = [(''app'', [SpecQuery])], au_max_concurrent_queries = None\<rparr>"
  have h: "token_key_hash demo_crypto ''t'' = Inr (token_sha256_hex demo_crypto ''t'')"
    by (simp add: token_key_hash_def strip_prefix_def HASH_PREFIX_def)
  have good: "keys_good demo_crypto (au_tokens ?s)" using h by (simp add: keys_good_def)
  obtain res st' where r: "reload_auth demo_crypto demo_senv 1 2 (Inr ?s) web_app = (res, st')" by (metis surj_pair)
  note R = reload_auth_correct [of demo_crypto demo_senv 1 2 "Inr ?s" web_app, unfolded r]
  have "res = Inr ()" using R good by (cases res) auto
  with R h have "map_of (as_tokens (ap_auth st')) (token_sha256_hex demo_crypto ''t'') = Some (token_spec_entry (TokenRole ''app''))"
      "\<not> is_allowed (as_policy (ap_auth st')) ''app'' AEmit" by (auto simp: image_iff)
  with \<open>res = Inr ()\<close> r show ?thesis by (simp add: token_spec_entry_def)
qed

end
