(* ===== verification/Server_Overlap.thy ===== *)
theory Server_Overlap
  imports Server_Props "HOL-Library.Multiset"
begin

text \<open>
  Requests that overlap (\<open>crates/quipu-server/src/api.rs\<close>): the handlers of the server as a labelled step
  relation, one step per access to shared state. An append reserves its key, emits, and releases the key
  when the emit has failed; a query reads the cap, takes a slot, and frees it; a verification takes
  the guard and drops it; a reload swaps the auth section. Meanwhile the pipeline does what it wants.
\<close>

section \<open>Steps\<close>

text \<open>\<open>wb_pending\<close> are the appends that have reserved and not yet emitted, \<open>wb_failed\<close> those whose emit
  has failed and whose key is still reserved, \<open>wb_limits\<close> the queries that have read the cap, with what
  they read, \<open>wb_held\<close> the slots in use.\<close>

record web =
  wb_app :: app_state
  wb_pending :: "(string option \<times> audit_event) multiset"
  wb_failed :: "string option multiset"
  wb_limits :: "(string \<times> u32 option) multiset"
  wb_held :: "(string \<times> query_slot) multiset"
  wb_guards :: nat

definition web_of :: "app_state \<Rightarrow> web" where
  "web_of st = \<lparr>wb_app = st, wb_pending = {#}, wb_failed = {#}, wb_limits = {#}, wb_held = {#}, wb_guards = 0\<rparr>"

datatype web_label =
    WReserved "string option" audit_event
  | WDuplicate "string option"
  | WQueued audit_event
  | WFailed mw_error
  | WReleased "string option"
  | WLimitRead string "u32 option"
  | WSlot string query_slot
  | WFreed string
  | WVerifyBegun
  | WVerifyBusy
  | WVerifyEnded
  | WReloaded
  | WPipeline

inductive web_step :: "server \<Rightarrow> web \<Rightarrow> web_label \<Rightarrow> web \<Rightarrow> bool" for S where
  reserve: "reserve_key idem (wb_app w) = (True, st) \<Longrightarrow>
    web_step S w (WReserved idem ev) (w\<lparr>wb_app := st, wb_pending := add_mset (idem, ev) (wb_pending w)\<rparr>)"
| duplicate: "reserve_key idem (wb_app w) = (False, st) \<Longrightarrow> web_step S w (WDuplicate idem) (w\<lparr>wb_app := st\<rparr>)"
| queue: "(idem, ev) \<in># wb_pending w \<Longrightarrow> emit_handle r ev (wb_app w) = (Inr (), st) \<Longrightarrow>
    web_step S w (WQueued ev) (w\<lparr>wb_app := st, wb_pending := wb_pending w - {#(idem, ev)#}\<rparr>)"
| refuse: "(idem, ev) \<in># wb_pending w \<Longrightarrow> emit_handle r ev (wb_app w) = (Inl e, st) \<Longrightarrow>
    web_step S w (WFailed e) (w\<lparr>wb_app := st, wb_pending := wb_pending w - {#(idem, ev)#},
      wb_failed := add_mset idem (wb_failed w)\<rparr>)"
| release: "idem \<in># wb_failed w \<Longrightarrow>
    web_step S w (WReleased idem) (w\<lparr>wb_app := release_key idem (wb_app w), wb_failed := wb_failed w - {#idem#}\<rparr>)"
| limit: "web_step S w (WLimitRead h (slot_limit (wb_app w)))
    (w\<lparr>wb_limits := add_mset (h, slot_limit (wb_app w)) (wb_limits w)\<rparr>)"
| take: "(h, n) \<in># wb_limits w \<Longrightarrow> slot_take h n (wb_app w) = (slot, st) \<Longrightarrow>
    web_step S w (WSlot h slot) (w\<lparr>wb_app := st, wb_limits := wb_limits w - {#(h, n)#},
      wb_held := (if slot = SlotBusy then wb_held w else add_mset (h, slot) (wb_held w))\<rparr>)"
| free: "(h, slot) \<in># wb_held w \<Longrightarrow>
    web_step S w (WFreed h) (w\<lparr>wb_app := slot_release slot (wb_app w), wb_held := wb_held w - {#(h, slot)#}\<rparr>)"
| verify: "try_begin_verify (wb_app w) = (True, st) \<Longrightarrow>
    web_step S w WVerifyBegun (w\<lparr>wb_app := st, wb_guards := Suc (wb_guards w)\<rparr>)"
| busy: "try_begin_verify (wb_app w) = (False, st) \<Longrightarrow> web_step S w WVerifyBusy (w\<lparr>wb_app := st\<rparr>)"
| verified: "wb_guards w > 0 \<Longrightarrow>
    web_step S w WVerifyEnded (w\<lparr>wb_app := drop_verify_guard (wb_app w), wb_guards := wb_guards w - 1\<rparr>)"
| reload: "reload_auth (se_crypto (pe_store (sv_pipe S))) (pe_store (sv_pipe S)) u now file (wb_app w) = (res, st) \<Longrightarrow>
    web_step S w WReloaded (w\<lparr>wb_app := st\<rparr>)"
| pipeline: "web_step S w WPipeline (w\<lparr>wb_app := (wb_app w)\<lparr>ap_pipe := p\<rparr>\<rparr>)"

inductive web_run :: "server \<Rightarrow> web \<Rightarrow> web_label list \<Rightarrow> web \<Rightarrow> bool" for S w where
  none: "web_run S w [] w"
| more: "web_run S w ls w1 \<Longrightarrow> web_step S w1 l w2 \<Longrightarrow> web_run S w (ls @ [l]) w2"

inductive_cases web_stepE: "web_step S w l w'"

inductive_simps web_slot_simps: "web_step S w (WSlot h slot) w'"

section \<open>Verification\<close>

definition guard_inv :: "web \<Rightarrow> bool" where
  "guard_inv w \<longleftrightarrow> wb_guards w = (if ap_verify_running (wb_app w) then 1 else 0)"

lemma slot_take_other:
  assumes "slot_take h n st = (slot, st')"
  shows "ap_verify_running st' = ap_verify_running st" "ap_auth st' = ap_auth st" "ap_dedup st' = ap_dedup st"
    "ap_pipe st' = ap_pipe st"
  using assms
  by (auto simp: slot_take_def slot_entry_def slot_acquire_def Let_def split: option.splits if_splits)

lemma reserve_key_other:
  assumes "reserve_key idem st = (new, st')"
  shows "st' = st\<lparr>ap_dedup := ap_dedup st'\<rparr>"
  using assms by (auto simp: reserve_key_def split: option.splits prod.splits)

lemma emit_handle_other: "emit_handle r ev st = (res, st') \<Longrightarrow> st' = st\<lparr>ap_pipe := ap_pipe st'\<rparr>"
  by (auto simp: emit_handle_def split: prod.splits)

lemma reload_auth_other:
  assumes "reload_auth K E u now file st = (res, st')"
  shows "ap_verify_running st' = ap_verify_running st" "ap_permits st' = ap_permits st" "ap_dedup st' = ap_dedup st"
  using assms by (auto simp: reload_auth_def swap_auth_def Let_def split: sum.splits if_splits)

lemma release_key_other: "release_key idem st = st\<lparr>ap_dedup := ap_dedup (release_key idem st)\<rparr>"
  by (simp add: release_key_def split: option.splits)

lemma slot_release_other: "slot_release slot st = st\<lparr>ap_permits := ap_permits (slot_release slot st)\<rparr>"
  by (simp add: slot_release_def split: query_slot.splits)

lemma upd_running:
  "st' = st\<lparr>ap_dedup := d\<rparr> \<Longrightarrow> ap_verify_running st' = ap_verify_running st"
  "st' = st\<lparr>ap_pipe := p\<rparr> \<Longrightarrow> ap_verify_running st' = ap_verify_running st"
  "st' = st\<lparr>ap_permits := ps\<rparr> \<Longrightarrow> ap_verify_running st' = ap_verify_running st"
  by simp_all

lemma guard_inv_step: "web_step S w l w' \<Longrightarrow> guard_inv w \<Longrightarrow> guard_inv w'"
proof (induction rule: web_step.induct)
  case (reserve idem w st ev)
  then show ?case using upd_running(1) [OF reserve_key_other [OF reserve.hyps]] by (simp add: guard_inv_def)
next
  case (duplicate idem w st)
  then show ?case using upd_running(1) [OF reserve_key_other [OF duplicate.hyps]] by (simp add: guard_inv_def)
next
  case (queue idem ev w r st)
  then show ?case using upd_running(2) [OF emit_handle_other [OF queue.hyps(2)]] by (simp add: guard_inv_def)
next
  case (refuse idem ev w r e st)
  then show ?case using upd_running(2) [OF emit_handle_other [OF refuse.hyps(2)]] by (simp add: guard_inv_def)
next
  case (release idem w)
  then show ?case using upd_running(1) [OF release_key_other [of idem "wb_app w"]] by (simp add: guard_inv_def)
next
  case (free h slot w)
  then show ?case using upd_running(3) [OF slot_release_other [of slot "wb_app w"]] by (simp add: guard_inv_def)
qed (auto simp: guard_inv_def slot_take_other reload_auth_other try_begin_verify_def drop_verify_guard_def split: if_splits)

text \<open>
  whatever requests, ticks of the periodic task and reloads overlap, at most one verification runs at
  any time, and the guard is taken exactly while one runs: a request is refused as busy only then.
\<close>

theorem verification_is_exclusive:
  assumes "web_run S (web_of st) ls w" and "\<not> ap_verify_running st"
  shows "wb_guards w \<le> 1 \<and> (ap_verify_running (wb_app w) \<longleftrightarrow> wb_guards w = 1) \<and>
    (web_step S w WVerifyBusy w' \<longrightarrow> wb_guards w = 1)"
proof -
  have "guard_inv w" using assms
  proof (induction rule: web_run.induct)
    case none
    then show ?case by (simp add: guard_inv_def web_of_def)
  next
    case (more ls w1 l w2)
    then show ?case by (simp add: guard_inv_step)
  qed
  then show ?thesis by (auto simp: guard_inv_def try_begin_verify_def elim: web_stepE split: if_splits)
qed

section \<open>Query slots\<close>

text \<open>The slots a token holds.\<close>

definition held_by :: "string \<Rightarrow> web \<Rightarrow> nat" where
  "held_by h w = size (filter_mset (\<lambda>(h', slot). h' = h) (wb_held w))"

text \<open>With the cap at \<open>n\<close> all along: what is free and what is held of a token's semaphore make \<open>n\<close>.\<close>

definition slots_inv :: "u32 \<Rightarrow> web \<Rightarrow> bool" where
  "slots_inv n w \<longleftrightarrow>
     (let st = wb_app w in
       slot_limit st = Some n \<and> (\<forall>(h, m) \<in># wb_limits w. m = Some n) \<and>
       distinct (map snd (ap_slots st)) \<and> slots_wf st \<and>
       (\<forall>(h, slot) \<in># wb_held w. \<exists>s. slot = SlotAcquired s \<and> map_of (ap_slots st) h = Some s) \<and>
       (\<forall>h s. map_of (ap_slots st) h = Some s \<longrightarrow> ap_permits st ! s + held_by h w = unat n))"

lemma held_by_none: "(\<And>slot. (h, slot) \<notin># wb_held w) \<Longrightarrow> held_by h w = 0"
  by (auto simp: held_by_def multiset_eq_iff not_in_iff)

lemma slots_inv_same:
  assumes "slots_inv n w" and "ap_auth (wb_app w') = ap_auth (wb_app w)" and "ap_slots (wb_app w') = ap_slots (wb_app w)"
    and "ap_permits (wb_app w') = ap_permits (wb_app w)" and "wb_limits w' = wb_limits w" and "wb_held w' = wb_held w"
  shows "slots_inv n w'"
  using assms by (simp add: slots_inv_def Let_def slot_limit_def slots_wf_def held_by_def)

lemma slots_inv_upd:
  assumes "slots_inv n w" and "wb_limits w' = wb_limits w" and "wb_held w' = wb_held w"
  shows "wb_app w' = (wb_app w)\<lparr>ap_dedup := d\<rparr> \<Longrightarrow> slots_inv n w'"
    and "wb_app w' = (wb_app w)\<lparr>ap_pipe := p\<rparr> \<Longrightarrow> slots_inv n w'"
    and "wb_app w' = (wb_app w)\<lparr>ap_verify_running := b\<rparr> \<Longrightarrow> slots_inv n w'"
  using slots_inv_same [OF assms(1), of w'] assms(2,3) by simp_all

lemma map_of_index_inj:
  assumes "distinct (map snd xs)" and "map_of xs a = Some i" and "map_of xs b = Some i"
  shows "a = b"
proof -
  have "(a, i) \<in> set xs" "(b, i) \<in> set xs" using assms(2,3) by (auto dest: map_of_SomeD)
  with assms(1) show ?thesis by (induction xs) (auto simp: rev_image_eqI image_iff)
qed

lemma slots_inv_take:
  assumes inv: "slots_inv n w" and h: "(h, m) \<in># wb_limits w" and take: "slot_take h m (wb_app w) = (slot, st)"
  shows "slots_inv n (w\<lparr>wb_app := st, wb_limits := wb_limits w - {#(h, m)#},
      wb_held := (if slot = SlotBusy then wb_held w else add_mset (h, slot) (wb_held w))\<rparr>)"
proof -
  let ?st = "wb_app w"
  have I: "slot_limit ?st = Some n" "\<And>h' m. (h', m) \<in># wb_limits w \<Longrightarrow> m = Some n" "distinct (map snd (ap_slots ?st))"
    "\<And>h' s. (h', s) \<in> set (ap_slots ?st) \<Longrightarrow> s < length (ap_permits ?st)"
    "\<And>h' slot. (h', slot) \<in># wb_held w \<Longrightarrow> \<exists>s. slot = SlotAcquired s \<and> map_of (ap_slots ?st) h' = Some s"
    "\<And>h' s. map_of (ap_slots ?st) h' = Some s \<Longrightarrow> ap_permits ?st ! s + held_by h' w = unat n"
    using inv by (auto simp: slots_inv_def Let_def slots_wf_def)
  have m: "m = Some n" using I(2) h by blast
  obtain s st1 where e: "slot_entry h n ?st = (s, st1)" by (metis surj_pair)
  have limits: "\<forall>(h, m) \<in># wb_limits w - {#(h, m)#}. m = Some n" using I(2) by (auto dest: in_diffD)
  \<comment> \<open>the entry of the token: its semaphore, new or not\<close>
  have J: "slot_limit st1 = Some n" "distinct (map snd (ap_slots st1))"
      "\<And>h' s. (h', s) \<in> set (ap_slots st1) \<Longrightarrow> s < length (ap_permits st1)"
      "\<And>h' slot. (h', slot) \<in># wb_held w \<Longrightarrow> \<exists>s. slot = SlotAcquired s \<and> map_of (ap_slots st1) h' = Some s"
      "\<And>h' s. map_of (ap_slots st1) h' = Some s \<Longrightarrow> ap_permits st1 ! s + held_by h' w = unat n"
      "map_of (ap_slots st1) h = Some s"
  proof -
    have "slot_limit st1 = Some n \<and> distinct (map snd (ap_slots st1)) \<and>
      (\<forall>h' s. (h', s) \<in> set (ap_slots st1) \<longrightarrow> s < length (ap_permits st1)) \<and>
      (\<forall>h' slot. (h', slot) \<in># wb_held w \<longrightarrow> (\<exists>s. slot = SlotAcquired s \<and> map_of (ap_slots st1) h' = Some s)) \<and>
      (\<forall>h' s. map_of (ap_slots st1) h' = Some s \<longrightarrow> ap_permits st1 ! s + held_by h' w = unat n) \<and>
      map_of (ap_slots st1) h = Some s"
    proof (cases "map_of (ap_slots ?st) h")
      case (Some s')
      then have "st1 = ?st" "s = s'" using e by (simp_all add: slot_entry_def)
      with I Some show ?thesis by auto
    next
      case None
      then have st1: "st1 = ?st\<lparr>ap_slots := (h, s) # ap_slots ?st, ap_permits := ap_permits ?st @ [unat n]\<rparr>"
          "s = length (ap_permits ?st)" using e by (auto simp: slot_entry_def Let_def)
      have z: "held_by h w = 0" using I(5) None by (intro held_by_none) fastforce
      have "s \<notin> snd ` set (ap_slots ?st)" using I(4) st1(2) by (metis imageE less_irrefl prod.collapse)
      then have "distinct (map snd (ap_slots st1))" using I(3) st1 by simp
      moreover have "\<forall>h' s. (h', s) \<in> set (ap_slots st1) \<longrightarrow> s < length (ap_permits st1)"
        using I(4) st1 by (auto simp: less_Suc_eq)
      moreover have "\<exists>s. slot = SlotAcquired s \<and> map_of (ap_slots st1) h' = Some s" if "(h', slot) \<in># wb_held w" for h' slot
        using I(5) [OF that] None st1 by auto
      moreover have "ap_permits st1 ! i + held_by h' w = unat n" if "map_of (ap_slots st1) h' = Some i" for h' i
      proof (cases "h' = h")
        case True
        with that st1 z show ?thesis by (simp add: nth_append)
      next
        case False
        then have i: "map_of (ap_slots ?st) h' = Some i" using that st1 by simp
        then have "i < length (ap_permits ?st)" using I(4) by (auto dest: map_of_SomeD)
        with I(6) [OF i] st1 show ?thesis by (simp add: nth_append)
      qed
      moreover have "slot_limit st1 = Some n" using I(1) st1 by (simp add: slot_limit_def)
      ultimately show ?thesis using st1 by auto
    qed
    then show "slot_limit st1 = Some n" "distinct (map snd (ap_slots st1))"
      "\<And>h' s. (h', s) \<in> set (ap_slots st1) \<Longrightarrow> s < length (ap_permits st1)"
      "\<And>h' slot. (h', slot) \<in># wb_held w \<Longrightarrow> \<exists>s. slot = SlotAcquired s \<and> map_of (ap_slots st1) h' = Some s"
      "\<And>h' s. map_of (ap_slots st1) h' = Some s \<Longrightarrow> ap_permits st1 ! s + held_by h' w = unat n"
      "map_of (ap_slots st1) h = Some s" by auto
  qed
  have acq: "slot_acquire s st1 = (slot, st)" using take m e by (simp add: slot_take_def)
  show ?thesis
  proof (cases "ap_permits st1 ! s = 0")
    case True
    then have "slot = SlotBusy" "st = st1" using acq by (auto simp: slot_acquire_def)
    with J limits show ?thesis by (auto simp: slots_inv_def Let_def slots_wf_def held_by_def)
  next
    case False
    then have out: "slot = SlotAcquired s" "st = st1\<lparr>ap_permits := (ap_permits st1)[s := ap_permits st1 ! s - 1]\<rparr>"
      using acq by (auto simp: slot_acquire_def)
    have len: "s < length (ap_permits st1)" using J(3,6) by (auto dest: map_of_SomeD)
    let ?w' = "w\<lparr>wb_app := st, wb_limits := wb_limits w - {#(h, m)#}, wb_held := add_mset (h, slot) (wb_held w)\<rparr>"
    have held: "held_by h' ?w' = held_by h' w + (if h' = h then 1 else 0)" for h' by (simp add: held_by_def)
    have "ap_permits st ! i + held_by h' ?w' = unat n" if i: "map_of (ap_slots st) h' = Some i" for h' i
    proof (cases "h' = h")
      case True
      then have "i = s" using i out(2) J(6) by simp
      with True J(5,6) False len out(2) held show ?thesis by fastforce
    next
      case False
      have i1: "map_of (ap_slots st1) h' = Some i" using i out(2) by simp
      then have "i \<noteq> s" using map_of_index_inj [OF J(2) i1] J(6) False by blast
      with J(5) [OF i1] False out(2) held show ?thesis by simp
    qed
    moreover have "\<exists>s. slot' = SlotAcquired s \<and> map_of (ap_slots st) h' = Some s" if "(h', slot') \<in># add_mset (h, slot) (wb_held w)" for h' slot'
      using that J(4) [of h' slot'] J(6) out by auto
    ultimately have "slots_inv n ?w'"
      using J(1-3) limits out(2) unfolding slots_inv_def Let_def
      by (intro conjI) (auto simp: slots_wf_def slot_limit_def)
    then show ?thesis using out(1) by simp
  qed
qed

lemma slots_inv_free:
  assumes inv: "slots_inv n w" and h: "(h, slot) \<in># wb_held w"
  shows "slots_inv n (w\<lparr>wb_app := slot_release slot (wb_app w), wb_held := wb_held w - {#(h, slot)#}\<rparr>)"
proof -
  let ?st = "wb_app w" and ?w' = "w\<lparr>wb_app := slot_release slot (wb_app w), wb_held := wb_held w - {#(h, slot)#}\<rparr>"
  have I: "slot_limit ?st = Some n" "\<forall>(h, m) \<in># wb_limits w. m = Some n" "distinct (map snd (ap_slots ?st))"
    "\<And>h' s. (h', s) \<in> set (ap_slots ?st) \<Longrightarrow> s < length (ap_permits ?st)"
    "\<And>h' slot. (h', slot) \<in># wb_held w \<Longrightarrow> \<exists>s. slot = SlotAcquired s \<and> map_of (ap_slots ?st) h' = Some s"
    "\<And>h' s. map_of (ap_slots ?st) h' = Some s \<Longrightarrow> ap_permits ?st ! s + held_by h' w = unat n"
    using inv by (auto simp: slots_inv_def Let_def slots_wf_def)
  obtain s where s: "slot = SlotAcquired s" "map_of (ap_slots ?st) h = Some s" using I(5) [OF h] by blast
  have len: "s < length (ap_permits ?st)" using I(4) s(2) by (auto dest: map_of_SomeD)
  have rel: "slot_release slot ?st = ?st\<lparr>ap_permits := (ap_permits ?st)[s := ap_permits ?st ! s + 1]\<rparr>"
    by (simp add: s(1) slot_release_def)
  obtain H where H: "wb_held w = add_mset (h, slot) H" using h by (metis insert_DiffM)
  have held: "held_by h' w = held_by h' ?w' + (if h' = h then 1 else 0)" for h' by (simp add: held_by_def H)
  have "ap_permits (slot_release slot ?st) ! i + held_by h' ?w' = unat n" if i: "map_of (ap_slots ?st) h' = Some i" for h' i
  proof (cases "h' = h")
    case True
    then have "i = s" using i s(2) by simp
    with True I(6) [OF s(2)] len held [of h] show ?thesis by (simp add: rel)
  next
    case False
    then have "i \<noteq> s" using map_of_index_inj [OF I(3) i] s(2) by blast
    with I(6) [OF i] False held [of h'] show ?thesis by (simp add: rel)
  qed
  moreover have "\<exists>s. slot' = SlotAcquired s \<and> map_of (ap_slots ?st) h' = Some s" if "(h', slot') \<in># H" for h' slot'
    using that I(5) [of h' slot'] by (simp add: H)
  ultimately show ?thesis
    using I(1-4) unfolding slots_inv_def Let_def
    by (intro conjI) (auto simp: slots_wf_def slot_limit_def rel H)
qed

lemma slots_inv_step:
  assumes "web_step S w l w'" and "slots_inv n w" and "l \<noteq> WReloaded"
  shows "slots_inv n w'"
  using assms
proof (induction rule: web_step.induct)
  case (reserve idem w st ev)
  then show ?case using slots_inv_upd(1) [OF reserve.prems(1), of _ "ap_dedup st"] reserve_key_other [OF reserve.hyps] by simp
next
  case (duplicate idem w st)
  then show ?case using slots_inv_upd(1) [OF duplicate.prems(1), of _ "ap_dedup st"] reserve_key_other [OF duplicate.hyps] by simp
next
  case (queue idem ev w r st)
  then show ?case using slots_inv_upd(2) [OF queue.prems(1), of _ "ap_pipe st"] emit_handle_other [OF queue.hyps(2)] by simp
next
  case (refuse idem ev w r e st)
  then show ?case using slots_inv_upd(2) [OF refuse.prems(1), of _ "ap_pipe st"] emit_handle_other [OF refuse.hyps(2)] by simp
next
  case (release idem w)
  then show ?case
    using slots_inv_upd(1) [OF release.prems(1), of _ "ap_dedup (release_key idem (wb_app w))"] release_key_other [of idem "wb_app w"]
    by simp
next
  case (limit w h)
  then show ?case by (auto simp: slots_inv_def Let_def held_by_def)
next
  case (take h m w slot st)
  then show ?case using slots_inv_take by blast
next
  case (free h slot w)
  then show ?case using slots_inv_free by blast
next
  case (verify w st)
  then show ?case using slots_inv_upd(3) [OF verify.prems(1), of _ True] by (simp add: try_begin_verify_def split: if_splits)
next
  case (busy w st)
  then show ?case using slots_inv_same [OF busy.prems(1)] by (simp add: try_begin_verify_def split: if_splits)
next
  case (verified w)
  then show ?case using slots_inv_upd(3) [OF verified.prems(1), of _ False] by (simp add: drop_verify_guard_def)
next
  case (pipeline w p)
  then show ?case using slots_inv_upd(2) [OF pipeline.prems(1), of _ p] by simp
qed simp

text \<open>
  C36: with the cap at \<open>n\<close> and no reload, no token ever runs more than \<open>n\<close> queries at once, however the
  requests of all tokens overlap, and a token is refused only while it runs \<open>n\<close> queries: the tokens
  do not take each other's slots, and no slot leaks.
\<close>

theorem query_slots_bounded:
  assumes "web_run S (web_of (app_new p auth)) ls w" and "as_max_concurrent_queries auth = Some n" and "WReloaded \<notin> set ls"
  shows "held_by h w \<le> unat n \<and> (web_step S w (WSlot h SlotBusy) w' \<longrightarrow> held_by h w = unat n)"
proof -
  have inv: "slots_inv n w" using assms(1,3)
  proof (induction rule: web_run.induct)
    case none
    then show ?case using assms(2)
      by (simp add: slots_inv_def web_of_def app_new_def slot_limit_def slots_wf_def)
  next
    case (more ls w1 l w2)
    then show ?case using slots_inv_step by auto
  qed
  have bound: "held_by h w \<le> unat n"
  proof (cases "map_of (ap_slots (wb_app w)) h")
    case None
    then have "held_by h w = 0" using inv by (intro held_by_none) (fastforce simp: slots_inv_def Let_def)
    then show ?thesis by simp
  next
    case (Some s)
    then have "ap_permits (wb_app w) ! s + held_by h w = unat n" using inv by (auto simp: slots_inv_def Let_def)
    then show ?thesis by simp
  qed
  have "held_by h w = unat n" if busy: "web_step S w (WSlot h SlotBusy) w'"
  proof -
    obtain m st where t: "(h, m) \<in># wb_limits w" "slot_take h m (wb_app w) = (SlotBusy, st)"
        "w' = w\<lparr>wb_app := st, wb_limits := wb_limits w - {#(h, m)#}\<rparr>"
      using busy by (auto simp: web_slot_simps)
    have inv': "slots_inv n w'" using slots_inv_take [OF inv t(1,2)] t(3) by simp
    have "m = Some n" using inv t(1) by (auto simp: slots_inv_def Let_def)
    then obtain s where s: "map_of (ap_slots st) h = Some s" "ap_permits st ! s = 0"
      using t(2) by (auto simp: slot_take_def slot_entry_def slot_acquire_def Let_def split: option.splits if_splits)
    have "\<forall>h' s. map_of (ap_slots (wb_app w')) h' = Some s \<longrightarrow> ap_permits (wb_app w') ! s + held_by h' w' = unat n"
      using inv' by (simp add: slots_inv_def Let_def)
    moreover have "map_of (ap_slots (wb_app w')) h = Some s" "ap_permits (wb_app w') ! s = 0" using s t(3) by simp_all
    ultimately have "held_by h w' = unat n" by (metis add_0)
    then show ?thesis using t(3) by (simp add: held_by_def)
  qed
  with bound show ?thesis by blast
qed

section \<open>A cap read before a reload\<close>

lemma web_run_two: "web_step S w l1 w1 \<Longrightarrow> web_step S w1 l2 w2 \<Longrightarrow> web_run S w [l1, l2] w2"
  using web_run.more [OF web_run.more [OF web_run.none]] by fastforce

lemma web_run_append:
  "web_run S w1 ls' w2 \<Longrightarrow> web_run S w ls w1 \<Longrightarrow> web_run S w (ls @ ls') w2"
  by (induction rule: web_run.induct) (auto simp flip: append_assoc intro: web_run.more)

lemma one_more_slot:
  assumes "map_of (ap_slots (wb_app w)) h = Some s" and "ap_permits (wb_app w) ! s = Suc k" and "s < length (ap_permits (wb_app w))"
    and "slot_limit (wb_app w) = Some m"
  shows "\<exists>w'. web_run S w [WLimitRead h (Some m), WSlot h (SlotAcquired s)] w' \<and> held_by h w' = Suc (held_by h w) \<and>
    map_of (ap_slots (wb_app w')) h = Some s \<and> ap_permits (wb_app w') ! s = k \<and> s < length (ap_permits (wb_app w')) \<and>
    slot_limit (wb_app w') = Some m"
proof -
  let ?w1 = "w\<lparr>wb_limits := add_mset (h, Some m) (wb_limits w)\<rparr>"
  let ?st = "(wb_app w)\<lparr>ap_permits := (ap_permits (wb_app w))[s := k]\<rparr>"
  let ?w2 = "?w1\<lparr>wb_app := ?st, wb_limits := wb_limits w, wb_held := add_mset (h, SlotAcquired s) (wb_held w)\<rparr>"
  have "web_step S w (WLimitRead h (Some m)) ?w1" using web_step.limit [of S w h] assms(4) by simp
  moreover have "web_step S ?w1 (WSlot h (SlotAcquired s)) ?w2"
    using assms(1,2) by (auto simp: web_slot_simps slot_take_def slot_entry_def slot_acquire_def intro!: exI [of _ "Some m"])
  ultimately have "web_run S w [WLimitRead h (Some m), WSlot h (SlotAcquired s)] ?w2" by (rule web_run_two)
  then show ?thesis using assms by (intro exI [of _ ?w2]) (simp add: held_by_def slot_limit_def)
qed

lemma more_slots:
  assumes "map_of (ap_slots (wb_app w)) h = Some s" and "ap_permits (wb_app w) ! s = k" and "s < length (ap_permits (wb_app w))"
    and "slot_limit (wb_app w) = Some m"
  shows "\<exists>ls w'. web_run S w ls w' \<and> WReloaded \<notin> set ls \<and> held_by h w' = held_by h w + k \<and> slot_limit (wb_app w') = Some m"
  using assms
proof (induction k arbitrary: w)
  case 0
  then show ?case using web_run.none by fastforce
next
  case (Suc k)
  obtain w1 where w1: "web_run S w [WLimitRead h (Some m), WSlot h (SlotAcquired s)] w1" "held_by h w1 = Suc (held_by h w)"
      "map_of (ap_slots (wb_app w1)) h = Some s" "ap_permits (wb_app w1) ! s = k" "s < length (ap_permits (wb_app w1))"
      "slot_limit (wb_app w1) = Some m"
    using one_more_slot [OF Suc.prems] by blast
  from Suc.IH [OF w1(3-6)] obtain ls w2 where "web_run S w1 ls w2" "WReloaded \<notin> set ls" "held_by h w2 = held_by h w1 + k"
      "slot_limit (wb_app w2) = Some m" by blast
  with web_run_append [OF _ w1(1)] w1(2) show ?case by fastforce
qed

text \<open>
  a reload that lowers the cap does not take effect for a token whose query has read the old cap and
  not yet taken its slot. The semaphore that query creates after the reload has the old size and stays,
  so the token can run as many queries at once as the old cap allows, for as long as the cap is not
  changed again.
\<close>

theorem stale_query_cap:
  assumes "as_max_concurrent_queries (ap_auth st) = Some n" and "0 < n" and "map_of (ap_slots st) h = None"
    and "auth_state_of (se_crypto (pe_store (sv_pipe S))) s = Inr new" and "as_max_concurrent_queries new = Some m" and "m < n"
  shows "\<exists>ls w. web_run S (web_of st) ([WLimitRead h (Some n), WReloaded] @ ls) w \<and> WReloaded \<notin> set ls \<and>
    slot_limit (wb_app w) = Some m \<and> held_by h w = unat n \<and> unat m < held_by h w"
proof -
  let ?E = "pe_store (sv_pipe S)"
  let ?w1 = "(web_of st)\<lparr>wb_limits := {#(h, Some n)#}\<rparr>"
  obtain st2 where st2: "reload_auth (se_crypto ?E) ?E 0 0 (Inr s) st = (Inr (), st2)" by (simp add: reload_auth_def reload_next_def assms(4) Let_def)
  have r: "ap_auth st2 = new" "ap_slots st2 = []" "ap_permits st2 = ap_permits st"
    using st2 assms(1,4-6) by (auto simp: reload_auth_def reload_next_def swap_auth_def Let_def)
  let ?w2 = "?w1\<lparr>wb_app := st2\<rparr>"
  let ?s = "length (ap_permits st)"
  let ?st3 = "st2\<lparr>ap_slots := [(h, ?s)], ap_permits := ap_permits st @ [unat n - 1]\<rparr>"
  let ?w3 = "?w2\<lparr>wb_app := ?st3, wb_limits := {#}, wb_held := {#(h, SlotAcquired ?s)#}\<rparr>"
  have "0 < unat n" using assms(2) by (simp add: word_less_nat_alt)
  have "web_step S (web_of st) (WLimitRead h (Some n)) ?w1"
    using web_step.limit [of S "web_of st" h] assms(1) by (simp add: web_of_def slot_limit_def)
  moreover have "web_step S ?w1 WReloaded ?w2" 
    using web_step.reload [of S 0 0 "Inr s" ?w1 "Inr ()" st2] st2 by (simp add: web_of_def)
  moreover have t: "slot_take h (Some n) st2 = (SlotAcquired ?s, ?st3)"
    using r \<open>0 < unat n\<close> by (simp add: slot_take_def slot_entry_def slot_acquire_def Let_def nth_append)
  have "web_step S ?w2 (WSlot h (SlotAcquired ?s)) ?w3"
    using t by (auto simp: web_slot_simps web_of_def intro!: exI [of _ "Some n"])
  ultimately have run: "web_run S (web_of st) [WLimitRead h (Some n), WReloaded] ?w2" "web_run S ?w2 [WSlot h (SlotAcquired ?s)] ?w3"
    using web_run_two web_run.more [OF web_run.none] by fastforce+
  have "\<exists>ls w'. web_run S ?w3 ls w' \<and> WReloaded \<notin> set ls \<and> held_by h w' = held_by h ?w3 + (unat n - 1) \<and> slot_limit (wb_app w') = Some m"
    using r(1) assms(5) by (intro more_slots [where s = ?s]) (auto simp: slot_limit_def nth_append)
  then obtain ls w where w: "web_run S ?w3 ls w" "WReloaded \<notin> set ls" "held_by h w = held_by h ?w3 + (unat n - 1)"
      "slot_limit (wb_app w) = Some m" by blast
  have "held_by h ?w3 = 1" by (simp add: held_by_def)
  then have "held_by h w = unat n" using w(3) \<open>0 < unat n\<close> by simp
  moreover have "web_run S (web_of st) ([WLimitRead h (Some n), WReloaded] @ ([WSlot h (SlotAcquired ?s)] @ ls)) w"
    using web_run_append [OF web_run_append [OF w(1) run(2)] run(1)] .
  ultimately show ?thesis using w(2,4) assms(6) by (intro exI [of _ "[WSlot h (SlotAcquired ?s)] @ ls"] exI [of _ w])
      (simp add: word_less_nat_alt)
qed

section \<open>A duplicate of an append that fails\<close>

text \<open>
  C35: a retransmission that arrives between the reservation of its key and the failure of the first
  request's emit is acknowledged as already accepted, though no event of that key is in the queue and
  none will be: the first request fails and releases the key. A client that trusts the answer to its
  last attempt has lost the event.
\<close>

theorem duplicate_ack_can_lose_event:
  assumes "dedup_inv (ap_dedup st)" and "0 < dw_capacity (ap_dedup st)" and "key \<notin> set (dw_order (ap_dedup st))"
    and "handle_emit server_policy r ev (ap_pipe st) = (Inl e, p)"
  shows "\<exists>st'. web_run S (web_of st)
      [WReserved (Some key) ev, WDuplicate (Some key), WFailed e, WReleased (Some key)] (web_of st') \<and>
    pi_queue (ap_pipe st') = pi_queue (ap_pipe st) \<and> key \<notin> set (dw_order (ap_dedup st'))"
proof -
  obtain d where ins: "dedup_insert key (ap_dedup st) = (True, d)"
    using dedup_insert_answer [OF assms(1), of key] assms(3) by (metis prod.collapse)
  have inv: "dedup_inv d" using dedup_insert_order(2) [OF assms(1), of key] ins by simp
  have "remembers key 0 d" using remembers_new [OF assms(1,2) ins] .
  then have dup: "dedup_insert key d = (False, d)" by (rule remembers_duplicate)
  let ?st1 = "st\<lparr>ap_dedup := d\<rparr>"
  let ?st2 = "?st1\<lparr>ap_pipe := p\<rparr>"
  let ?st3 = "?st2\<lparr>ap_dedup := dedup_remove key d\<rparr>"
  let ?w1 = "(web_of st)\<lparr>wb_app := ?st1, wb_pending := {#(Some key, ev)#}\<rparr>"
  let ?w2 = "?w1\<lparr>wb_app := ?st2, wb_pending := {#}, wb_failed := {#Some key#}\<rparr>"
  have em: "emit_handle r ev ?st1 = (Inl e, ?st2)" using assms(4) by (simp add: emit_handle_def)
  have "web_step S (web_of st) (WReserved (Some key) ev) ?w1"
    using web_step.reserve [of "Some key" "web_of st" ?st1 S ev] ins by (simp add: reserve_key_def web_of_def)
  moreover have "web_step S ?w1 (WDuplicate (Some key)) ?w1"
    using web_step.duplicate [of "Some key" ?w1 ?st1 S] dup by (simp add: reserve_key_def web_of_def)
  moreover have "web_step S ?w1 (WFailed e) ?w2"
    using web_step.refuse [of "Some key" ev ?w1 r e ?st2 S] em by (simp add: web_of_def)
  moreover have "web_step S ?w2 (WReleased (Some key)) (web_of ?st3)"
    using web_step.release [of "Some key" ?w2 S] by (simp add: release_key_def web_of_def)
  ultimately have "web_run S (web_of st) [WReserved (Some key) ev, WDuplicate (Some key), WFailed e, WReleased (Some key)] (web_of ?st3)"
    using web_run.more [OF web_run.more [OF web_run.more [OF web_run.more [OF web_run.none]]]] by fastforce
  moreover have "pi_queue (ap_pipe ?st3) = pi_queue (ap_pipe st)" using emit_handle_outcome(2) [OF em] by simp
  moreover have "key \<notin> set (dw_order (ap_dedup ?st3))" using dedup_remove_order(1) [OF inv] by simp
  ultimately show ?thesis by blast
qed

section \<open>Witnesses\<close>

theorem verification_is_exclusive_witness:
  "\<exists>w. web_run web_server (web_of web_app) [WVerifyBegun, WVerifyBusy] w \<and> wb_guards w = 1"
proof -
  let ?w = "(web_of web_app)\<lparr>wb_app := web_app\<lparr>ap_verify_running := True\<rparr>, wb_guards := 1\<rparr>"
  have free: "\<not> ap_verify_running web_app" by (simp add: web_app_def app_new_def)
  then have "web_step web_server (web_of web_app) WVerifyBegun ?w"
    using web_step.verify [of "web_of web_app" "web_app\<lparr>ap_verify_running := True\<rparr>" web_server]
    by (simp add: try_begin_verify_def web_of_def)
  moreover have busy: "web_step web_server ?w WVerifyBusy ?w"
    using web_step.busy [of ?w "wb_app ?w" web_server] by (simp add: try_begin_verify_def web_of_def)
  ultimately have "web_run web_server (web_of web_app) [WVerifyBegun, WVerifyBusy] ?w" by (rule web_run_two)
  with verification_is_exclusive [OF this free] busy show ?thesis by blast
qed

theorem query_slots_bounded_witness:
  "\<exists>w. web_run web_server (web_of web_app) [WLimitRead ''h'' (Some 1), WSlot ''h'' (SlotAcquired 0)] w \<and>
     held_by ''h'' w = 1 \<and> held_by ''h'' w \<le> unat (1 :: u32)"
proof -
  let ?w1 = "(web_of web_app)\<lparr>wb_limits := {#(''h'', Some 1)#}\<rparr>"
  let ?st = "web_app\<lparr>ap_slots := [(''h'', 0)], ap_permits := [0]\<rparr>"
  let ?w2 = "?w1\<lparr>wb_app := ?st, wb_limits := {#}, wb_held := {#(''h'', SlotAcquired 0)#}\<rparr>"
  have cap: "as_max_concurrent_queries web_auth = Some 1" by (simp add: web_auth_def)
  have "web_step web_server (web_of web_app) (WLimitRead ''h'' (Some 1)) ?w1"
    using web_step.limit [of web_server "web_of web_app" "''h''"] cap
    by (simp add: slot_limit_def web_of_def web_app_def app_new_def)
  moreover have "web_step web_server ?w1 (WSlot ''h'' (SlotAcquired 0)) ?w2"
    using web_step.take [of "''h''" "Some 1" ?w1 "SlotAcquired 0" ?st web_server]
    by (simp add: slot_take_def slot_entry_def slot_acquire_def Let_def web_of_def web_app_def app_new_def)
  ultimately have run: "web_run web_server (web_of web_app) [WLimitRead ''h'' (Some 1), WSlot ''h'' (SlotAcquired 0)] ?w2"
    by (rule web_run_two)
  have "held_by ''h'' ?w2 \<le> unat (1 :: u32)"
    using query_slots_bounded [of web_server "pipe_of demo_worker demo_pipe_fs" web_auth _ ?w2 1 "''h''" ?w2, folded web_app_def] run cap
    by fastforce
  with run show ?thesis by (intro exI [of _ ?w2]) (simp add: held_by_def)
qed

theorem stale_query_cap_witness:
  "\<exists>ls w. web_run web_server (web_of (web_app\<lparr>ap_auth := web_auth\<lparr>as_max_concurrent_queries := Some 3\<rparr>\<rparr>))
     ([WLimitRead ''h'' (Some 3), WReloaded] @ ls) w \<and> slot_limit (wb_app w) = Some 1 \<and> held_by ''h'' w = 3"
proof -
  let ?st = "web_app\<lparr>ap_auth := web_auth\<lparr>as_max_concurrent_queries := Some 3\<rparr>\<rparr>"
  let ?s = "\<lparr>au_tokens = [], au_grants = [], au_max_concurrent_queries = Some 1\<rparr>"
  obtain new where n: "auth_state_of (se_crypto (pe_store (sv_pipe web_server))) ?s = Inr new"
      "as_max_concurrent_queries new = Some 1"
    by (simp add: auth_state_of_def token_map_of_def)
  show ?thesis
    using stale_query_cap [of ?st 3 "''h''" web_server ?s new 1] n by (auto simp: web_app_def app_new_def)
qed

theorem duplicate_ack_can_lose_event_witness:
  "let st = web_app\<lparr>ap_pipe := (pipe_of demo_worker demo_pipe_fs)\<lparr>pi_queue := replicate 4096 CFlush\<rparr>\<rparr>
   in \<exists>st'. web_run web_server (web_of st)
      [WReserved (Some ''k'') demo_event, WDuplicate (Some ''k''), WFailed (QueueFull demo_event), WReleased (Some ''k'')] (web_of st') \<and>
    pi_queue (ap_pipe st') = replicate 4096 CFlush"
proof -
  let ?p = "(pipe_of demo_worker demo_pipe_fs)\<lparr>pi_queue := replicate 4096 CFlush\<rparr>"
  let ?st = "web_app\<lparr>ap_pipe := ?p\<rparr>"
  obtain p where "handle_emit server_policy ''app'' demo_event ?p = (Inl (QueueFull demo_event), p)"
    by (simp add: handle_emit_def handle_check_def server_policy_def emit_unchecked_def emit_begin_def rejects_full_def
        pipeline_config_default_def emit_send_def has_room_def pipe_of_def on_metrics_def upd_metrics_def Let_def)
  moreover have "ap_dedup ?st = dedup_new DEFAULT_IDEMPOTENCY_WINDOW" by (simp add: web_app_def app_new_def)
  ultimately show ?thesis
    using duplicate_ack_can_lose_event [of ?st "''k''" "''app''" demo_event "QueueFull demo_event" p web_server]
    by (auto simp: dedup_new_def DEFAULT_IDEMPOTENCY_WINDOW_def Let_def dedup_inv_def)
qed

end
