(* ===== verification/Server_Sink.thy ===== *)
theory Server_Sink
  imports Server_Health Civil_Time
begin

text \<open>
  The syslog mirror of the server (\<open>crates/quipu-server/src/sink.rs\<close>): the RFC 5424 line of an event and the
  bounded queue between the writer thread's hook and the thread that owns the socket. Printing JSON
  is a parameter; the process id and the environment are inputs.
\<close>

definition SYSLOG_PRI :: nat where "SYSLOG_PRI = 13 * 8 + 6"

section \<open>The line\<close>

text \<open>\<open>char::is_ascii_graphic\<close>.\<close>

definition is_graphic :: "char \<Rightarrow> bool" where
  "is_graphic c \<longleftrightarrow> (let n = of_char c :: nat in 0x21 \<le> n \<and> n \<le> 0x7e)"

definition sanitize_tag :: "string \<Rightarrow> string" where
  "sanitize_tag s = (let cleaned = take 48 (filter is_graphic s) in if cleaned = [] then ''-'' else cleaned)"

text \<open>\<open>env\<close> is the variable \<open>HOSTNAME\<close>, when it is set and is text.\<close>

definition hostname :: "string option \<Rightarrow> string" where
  "hostname env = (case env of Some h \<Rightarrow> if h \<noteq> [] then sanitize_tag h else ''-'' | None \<Rightarrow> ''-'')"

definition sink_civil_from_days :: "int \<Rightarrow> int \<times> nat \<times> nat" where
  "sink_civil_from_days z0 =
     (let z = z0 + 719468;
          era = z div 146097;
          doe = z mod 146097;
          yoe = (doe - doe div 1460 + doe div 36524 - doe div 146096) div 365;
          y = yoe + era * 400;
          doy = doe - (365 * yoe + yoe div 4 - yoe div 100);
          mp = (5 * doy + 2) div 153;
          d = nat (doy - (153 * mp + 2) div 5 + 1);
          m = nat (if mp < 10 then mp + 3 else mp - 9)
      in (if m \<le> 2 then y + 1 else y, m, d))"

definition rfc3339_micros :: "u64 \<Rightarrow> string" where
  "rfc3339_micros unix_micros =
     (let secs = int (unat unix_micros div 1000000);
          micros = unat unix_micros mod 1000000;
          days = secs div 86400;
          secs_of_day = nat (secs mod 86400);
          (h, m, s) = (secs_of_day div 3600, secs_of_day mod 3600 div 60, secs_of_day mod 60);
          (year, month, day) = sink_civil_from_days days
      in pad_dec 4 (nat year) @ ''-'' @ pad_dec 2 month @ ''-'' @ pad_dec 2 day @ ''T'' @ pad_dec 2 h @ '':'' @
         pad_dec 2 m @ '':'' @ pad_dec 2 s @ ''.'' @ pad_dec 6 micros @ ''Z'')"

text \<open>The members of a JSON object are kept sorted. \<open>uid_text\<close> is the display of the log's id.\<close>

definition target_summary :: "target_spec \<Rightarrow> json" where
  "target_summary t = JObject [(''id'', JString (en_entity_id (tsp_input t))), (''type'', JString (tsp_entity_type t))]"

definition event_summary :: "audit_event \<Rightarrow> uid \<Rightarrow> json" where
  "event_summary ev log_id = JObject
     [(''actor'', JString (en_entity_id (ev_actor ev))), (''actor_type'', JString (ev_actor_type ev)),
      (''custom_keys'', JArray (map (JString \<circ> fst) (ev_custom ev))), (''log_id'', JString (uid_to_hex log_id)),
      (''method'', JString (ev_method ev)), (''targets'', JArray (map target_summary (ev_targets ev))),
      (''url'', JString (ev_url ev))]"

definition format_5424 :: "(json \<Rightarrow> string) \<Rightarrow> nat \<Rightarrow> string \<Rightarrow> string \<Rightarrow> nat \<Rightarrow> audit_event \<Rightarrow> uid \<Rightarrow> string" where
  "format_5424 J pri host app_name procid ev log_id =
     ''<'' @ dec pri @ ''>1 '' @ rfc3339_micros (ev_occurred_at ev) @ '' '' @ host @ '' '' @ app_name @ '' '' @ dec procid @
     '' audit - '' @ J (event_summary ev log_id)"

section \<open>The queue\<close>

text \<open>\<open>sk_waiting\<close>: the sender thread waits in \<open>recv\<close>; it matters for a capacity of 0, which hands a line
  over only then. \<open>sk_open\<close>: the sender thread is there.\<close>

record syslog_sink =
  sk_hostname :: string
  sk_app_name :: string
  sk_capacity :: nat
  sk_queue :: "string list"
  sk_waiting :: bool
  sk_open :: bool
  sk_dropped :: nat

definition syslog_new :: "string option \<Rightarrow> string \<Rightarrow> nat \<Rightarrow> syslog_sink" where
  "syslog_new env app_name queue_capacity =
     \<lparr>sk_hostname = hostname env, sk_app_name = sanitize_tag app_name, sk_capacity = queue_capacity, sk_queue = [],
      sk_waiting = False, sk_open = True, sk_dropped = 0\<rparr>"

definition sink_room :: "syslog_sink \<Rightarrow> bool" where
  "sink_room s \<longleftrightarrow> length (sk_queue s) < sk_capacity s \<or> (sk_capacity s = 0 \<and> sk_queue s = [] \<and> sk_waiting s)"

text \<open>The hook: never blocks.\<close>

definition sink_event :: "(json \<Rightarrow> string) \<Rightarrow> nat \<Rightarrow> audit_event \<Rightarrow> uid \<Rightarrow> syslog_sink \<Rightarrow> syslog_sink" where
  "sink_event J procid ev log_id s =
     (let line = format_5424 J SYSLOG_PRI (sk_hostname s) (sk_app_name s) procid ev log_id
      in if \<not> sk_open s then s
         else if sink_room s then s\<lparr>sk_queue := sk_queue s @ [line]\<rparr>
         else s\<lparr>sk_dropped := sk_dropped s + 1\<rparr>)"

text \<open>The sender thread: takes a line and sends it; a failed send only loses that line.\<close>

definition sink_send :: "syslog_sink \<Rightarrow> string option \<times> syslog_sink" where
  "sink_send s =
     (case sk_queue s of
        [] \<Rightarrow> (None, s\<lparr>sk_waiting := True\<rparr>)
      | line # rest \<Rightarrow> (Some line, s\<lparr>sk_queue := rest, sk_waiting := False\<rparr>))"

section \<open>Facts\<close>

lemma sink_civil_same: "sink_civil_from_days = civil_from_days"
  by (rule ext) (simp only: sink_civil_from_days_def civil_from_days_def)

lemma rfc3339_same: "rfc3339_micros t = format_rfc3339 t"
proof -
  let ?s = "unat t div 1000000"
  have a: "int ?s div 86400 = int (?s div 86400)" by (simp only: zdiv_int of_nat_numeral)
  have "int ?s mod 86400 = int (?s mod 86400)" by (simp only: zmod_int of_nat_numeral)
  then have b: "nat (int ?s mod 86400) = ?s mod 86400" by (simp only: nat_int)
  have c: "n mod 3600 div 60 = n div 60 mod 60" for n :: nat
    using mod_mult2_eq [of n 60 60] by simp
  show ?thesis unfolding rfc3339_micros_def format_rfc3339_def Let_def sink_civil_same prod.case a b c by (rule refl)
qed

text \<open>The fields of a line: the first \<open>n\<close> words and the rest.\<close>

fun words_of :: "nat \<Rightarrow> string \<Rightarrow> string list" where
  "words_of 0 s = [s]"
| "words_of (Suc n) s = (case sample_of s of (w, rest) \<Rightarrow> w # words_of n rest)"

lemma words_of_word: "one_word w \<Longrightarrow> words_of (Suc n) (w @ '' '' @ rest) = w # words_of n rest"
  by (simp only: words_of.simps sample_of_word) simp

lemma one_word_pad [simp]: "one_word (pad_dec w n)"
  by (simp only: pad_dec_def one_word_append one_word_dec) (simp add: one_word_def one_line_def)

lemma one_word_rfc3339 [simp]: "one_word (format_rfc3339 t)"
  by (simp add: format_rfc3339_def Let_def split: prod.splits)

lemma one_word_sanitize: "one_word (sanitize_tag s) \<and> sanitize_tag s \<noteq> []"
proof -
  have "\<not> is_graphic (CHR '' '')" "\<not> is_graphic (CHR 0x0A)" by (simp_all add: is_graphic_def)
  then have "CHR '' '' \<notin> set (filter is_graphic s)" "CHR 0x0A \<notin> set (filter is_graphic s)" by auto
  then have "one_word (take 48 (filter is_graphic s))" by (auto simp: one_word_def one_line_def dest: in_set_takeD)
  then show ?thesis by (auto simp: sanitize_tag_def Let_def)
qed

lemma one_word_hostname: "one_word (hostname env) \<and> hostname env \<noteq> []"
  using one_word_sanitize by (auto simp: hostname_def split: option.splits)

text \<open>
  a line the hook puts in the queue has exactly the fields of RFC 5424: priority and version, the
  event's time as the core formats it, host name and application, each one non-empty word whatever the
  environment and the configuration say, the process id, the message id, no structured data, and the
  JSON summary as the message. A printer of compact JSON writes no line break, so the line has none. The
  line depends on the event's metadata only: neither its content nor a custom value is in it.
\<close>

theorem syslog_line_correct:
  "(let line = format_5424 J SYSLOG_PRI (hostname env) (sanitize_tag app_name) procid ev log_id
    in words_of 7 line = [''<110>1'', format_rfc3339 (ev_occurred_at ev), hostname env, sanitize_tag app_name, dec procid,
         ''audit'', ''-'', J (event_summary ev log_id)] \<and>
       hostname env \<noteq> [] \<and> sanitize_tag app_name \<noteq> [] \<and>
       (one_line line \<longleftrightarrow> one_line (J (event_summary ev log_id))) \<and>
       line = format_5424 J SYSLOG_PRI (hostname env) (sanitize_tag app_name) procid
         (ev\<lparr>ev_content := c, ev_custom := map (\<lambda>(k, v). (k, f k)) (ev_custom ev),
            ev_actor := entity_new (en_entity_id (ev_actor ev)),
            ev_targets := map (\<lambda>t. target_spec_new (tsp_entity_type t) (entity_new (en_entity_id (tsp_input t)))) (ev_targets ev)\<rparr>)
         log_id)"
proof -
  let ?h = "hostname env" and ?a = "sanitize_tag app_name" and ?t = "format_rfc3339 (ev_occurred_at ev)"
  let ?j = "J (event_summary ev log_id)"
  have pri: "dec SYSLOG_PRI = ''110''" by code_simp
  have line: "format_5424 J SYSLOG_PRI ?h ?a procid ev log_id = ''<110>1'' @ '' '' @ (?t @ '' '' @ (?h @ '' '' @ (?a @ '' '' @
      (dec procid @ '' '' @ (''audit'' @ '' '' @ (''-'' @ '' '' @ ?j))))))"
    by (simp add: format_5424_def pri rfc3339_same)
  have h: "one_word ?h" "?h \<noteq> []" "one_word ?a" "?a \<noteq> []" using one_word_hostname one_word_sanitize by auto
  have "words_of 7 (format_5424 J SYSLOG_PRI ?h ?a procid ev log_id) =
      [''<110>1'', ?t, ?h, ?a, dec procid, ''audit'', ''-'', ?j]"
  proof -
    have seven: "7 = Suc (Suc (Suc (Suc (Suc (Suc (Suc 0))))))" by simp
    have w: "one_word ''<110>1''" "one_word ''audit''" "one_word ''-''" by simp_all
    show ?thesis unfolding line seven using h(1,3) w
      by (simp only: words_of_word one_word_rfc3339 one_word_dec words_of.simps(1))
  qed
  moreover have "one_line (format_5424 J SYSLOG_PRI ?h ?a procid ev log_id) \<longleftrightarrow> one_line ?j"
    unfolding line using h by simp
  moreover have "event_summary ev log_id = event_summary (ev\<lparr>ev_content := c, ev_custom := map (\<lambda>(k, v). (k, f k)) (ev_custom ev),
            ev_actor := entity_new (en_entity_id (ev_actor ev)),
            ev_targets := map (\<lambda>t. target_spec_new (tsp_entity_type t) (entity_new (en_entity_id (tsp_input t)))) (ev_targets ev)\<rparr>) log_id"
    by (auto simp: event_summary_def target_summary_def target_spec_new_def entity_new_def split: prod.splits)
  ultimately show ?thesis using h by (simp add: Let_def format_5424_def)
qed

text \<open>The queue: the lines sent and waiting are those offered, in order, less the dropped ones.\<close>

datatype sink_op = Offer audit_event uid | SendNext

fun sink_run :: "(json \<Rightarrow> string) \<Rightarrow> nat \<Rightarrow> sink_op list \<Rightarrow> syslog_sink \<Rightarrow> string list \<times> string list \<times> syslog_sink" where
  "sink_run J procid [] s = ([], [], s)"
| "sink_run J procid (Offer ev log_id # ops) s =
     (case sink_run J procid ops (sink_event J procid ev log_id s) of
        (offered, sent, s') \<Rightarrow> (format_5424 J SYSLOG_PRI (sk_hostname s) (sk_app_name s) procid ev log_id # offered, sent, s'))"
| "sink_run J procid (SendNext # ops) s =
     (case sink_send s of
        (line, s1) \<Rightarrow> (case sink_run J procid ops s1 of
          (offered, sent, s') \<Rightarrow> (offered, (case line of None \<Rightarrow> sent | Some l \<Rightarrow> l # sent), s')))"

lemma sink_conserves:
  "sink_run J procid ops s = (offered, sent, s') \<Longrightarrow> sk_open s \<Longrightarrow>
     (\<exists>kept. subseq kept offered \<and> sk_queue s @ kept = sent @ sk_queue s' \<and>
        sk_dropped s' + length kept = sk_dropped s + length offered)"
proof (induction J procid ops s arbitrary: offered sent s' rule: sink_run.induct)
  case (2 J procid ev log_id ops s)
  let ?line = "format_5424 J SYSLOG_PRI (sk_hostname s) (sk_app_name s) procid ev log_id"
  obtain offered1 where r: "sink_run J procid ops (sink_event J procid ev log_id s) = (offered1, sent, s')"
      "offered = ?line # offered1" using "2.prems"(1) by (auto split: prod.splits)
  have "sk_open (sink_event J procid ev log_id s)" using "2.prems"(2) by (simp add: sink_event_def Let_def)
  from "2.IH" [OF r(1) this] obtain kept where k: "subseq kept offered1"
      "sk_queue (sink_event J procid ev log_id s) @ kept = sent @ sk_queue s'"
      "sk_dropped s' + length kept = sk_dropped (sink_event J procid ev log_id s) + length offered1" by blast
  show ?case
  proof (cases "sink_room s")
    case True
    with k r(2) "2.prems"(2) show ?thesis
      by (intro exI [of _ "?line # kept"]) (simp add: sink_event_def Let_def)
  next
    case False
    with k r(2) "2.prems"(2) show ?thesis
      by (intro exI [of _ kept]) (auto simp: sink_event_def Let_def)
  qed
next
  case (3 J procid ops s)
  obtain line s1 where s1: "sink_send s = (line, s1)" by (metis surj_pair)
  obtain sent1 where r: "sink_run J procid ops s1 = (offered, sent1, s')" "sent = (case line of None \<Rightarrow> sent1 | Some l \<Rightarrow> l # sent1)"
    using "3.prems"(1) s1 by (auto split: prod.splits)
  have "sk_open s1" "sk_dropped s1 = sk_dropped s" "sk_queue s = (case line of None \<Rightarrow> sk_queue s1 | Some l \<Rightarrow> l # sk_queue s1)"
    using s1 "3.prems"(2) by (auto simp: sink_send_def split: list.splits)
  with "3.IH" [OF s1 [symmetric] r(1)] r(2) show ?case by (auto split: option.splits)
qed simp

end
