(* ===== verification/Server_Config.thy ===== *)
theory Server_Config
  imports Server_State
begin

text \<open>
  The configuration of the server (\<open>crates/quipu-server/src/config.rs\<close>) and what the process does with it
  when it starts and when it re-keys (\<open>crates/quipu-server/src/main.rs\<close>). The JSON text of the file is a
  codec; the auth section is in \<open>Server_Auth\<close>.
\<close>

section \<open>The sections\<close>

datatype sync_policy_spec = SpecAlways | SpecEveryN u32 | SpecOsManaged

record store_section =
  ss_root :: path
  ss_max_segment_bytes :: "u64 option"
  ss_sync_policy :: "sync_policy_spec option"
  ss_retention_days :: "u64 option"
  ss_retention_max_bytes :: "u64 option"
  ss_plaintext_cache :: bool
  ss_access_log :: bool
  ss_access_retention_days :: "u64 option"

record versioned_key_file =
  vk_version :: u32
  vk_file :: path

record versioned_rsa_key =
  vr_version :: u32
  vr_public_key_pem_file :: "path option"
  vr_private_key_pem_file :: "path option"

record keys_section =
  ks_hmac_key_file :: "path option"
  ks_public_key_pem_file :: "path option"
  ks_private_key_pem_file :: "path option"
  ks_hmac_keys :: "versioned_key_file list"
  ks_rsa_keys :: "versioned_rsa_key list"

record health_section =
  hc_min_free_bytes :: "u64 option"
  hc_min_free_ratio :: "rat option"
  hc_reject_emit_when_disk_full :: bool

record sink_section =
  kc_syslog_udp :: string
  kc_app_name :: "string option"
  kc_queue_capacity :: "nat option"

record server_config =
  sc_listen :: string
  sc_store :: store_section
  sc_keys :: keys_section
  sc_auth :: auth_section
  sc_tls :: "(path \<times> path) option"
  sc_verify :: "u64 option"
  sc_health :: health_section
  sc_idempotency :: "nat option"
  sc_sink :: "sink_section option"

text \<open>\<open>J\<close> is \<open>serde_json::from_reader\<close>.\<close>

definition load_config :: "(bytes \<Rightarrow> server_config option) \<Rightarrow> path \<Rightarrow> fs \<Rightarrow> server_config res" where
  "load_config J p w =
     rbind (fs_read p w) (\<lambda>text. ok_or (Io (IoError KInvalidData None)) (J text))"

section \<open>The key ring\<close>

text \<open>\<open>read_to_string\<close>.\<close>

definition fs_read_text :: "path \<Rightarrow> fs \<Rightarrow> string res" where
  "fs_read_text p w =
     rbind (fs_read p w) (\<lambda>b. if utf8_valid b then Inr (from_bytes b) else Inl (Io (IoError KInvalidData None)))"

text \<open>\<open>if let Some(p) = ...\<close> around one step of a builder.\<close>

definition when_some :: "'p option \<Rightarrow> ('p \<Rightarrow> 'r \<Rightarrow> 'r res) \<Rightarrow> 'r \<Rightarrow> 'r res" where
  "when_some p f R = (case p of None \<Rightarrow> Inr R | Some q \<Rightarrow> f q R)"

definition load_hmac :: "fs \<Rightarrow> u32 \<Rightarrow> path \<Rightarrow> key_ring \<Rightarrow> key_ring res" where
  "load_hmac w v p R = rbind (fs_read p w) (\<lambda>key. with_hmac_key_version v key R)"

definition load_public :: "cryptoext \<Rightarrow> fs \<Rightarrow> u32 \<Rightarrow> path \<Rightarrow> key_ring \<Rightarrow> key_ring res" where
  "load_public K w v p R = rbind (fs_read_text p w) (\<lambda>pem. with_public_pem_version K v pem R)"

definition load_private :: "cryptoext \<Rightarrow> fs \<Rightarrow> u32 \<Rightarrow> path \<Rightarrow> key_ring \<Rightarrow> key_ring res" where
  "load_private K w v p R = rbind (fs_read_text p w) (\<lambda>pem. with_private_pem_version K v pem R)"

fun load_hmac_keys :: "fs \<Rightarrow> versioned_key_file list \<Rightarrow> u32 list \<Rightarrow> key_ring \<Rightarrow> key_ring res" where
  "load_hmac_keys w [] seen R = Inr R"
| "load_hmac_keys w (k # ks) seen R =
     (if vk_version k \<in> set seen then Inl (Crypto (KeyConfiguredTwice ''hmac'' (vk_version k)))
      else rbind (load_hmac w (vk_version k) (vk_file k) R) (load_hmac_keys w ks (vk_version k # seen)))"

fun load_rsa_keys :: "cryptoext \<Rightarrow> fs \<Rightarrow> versioned_rsa_key list \<Rightarrow> u32 list \<Rightarrow> key_ring \<Rightarrow> key_ring res" where
  "load_rsa_keys K w [] seen R = Inr R"
| "load_rsa_keys K w (k # ks) seen R =
     (if vr_version k \<in> set seen then Inl (Crypto (KeyConfiguredTwice ''rsa'' (vr_version k)))
      else rbind (when_some (vr_public_key_pem_file k) (load_public K w (vr_version k)) R) (\<lambda>R1.
           rbind (when_some (vr_private_key_pem_file k) (load_private K w (vr_version k)) R1)
             (load_rsa_keys K w ks (vr_version k # seen))))"

definition keyring_of :: "cryptoext \<Rightarrow> fs \<Rightarrow> keys_section \<Rightarrow> key_ring res" where
  "keyring_of K w s =
     (let hmac_seen = (if ks_hmac_key_file s = None then [] else [1]);
          rsa_seen = (if ks_public_key_pem_file s = None \<and> ks_private_key_pem_file s = None then [] else [1])
      in rbind (when_some (ks_hmac_key_file s) (load_hmac w 1) key_ring_new) (\<lambda>R1.
         rbind (when_some (ks_public_key_pem_file s) (load_public K w 1) R1) (\<lambda>R2.
         rbind (when_some (ks_private_key_pem_file s) (load_private K w 1) R2) (\<lambda>R3.
         rbind (load_hmac_keys w (ks_hmac_keys s) hmac_seen R3)
           (load_rsa_keys K w (ks_rsa_keys s) rsa_seen)))))"

section \<open>The configurations of the store and of the pipeline\<close>

fun sync_policy_of :: "sync_policy_spec \<Rightarrow> sync_policy" where
  "sync_policy_of SpecAlways = Always"
| "sync_policy_of (SpecEveryN n) = EveryN n"
| "sync_policy_of SpecOsManaged = OsManaged"

definition if_some :: "'p option \<Rightarrow> ('p \<Rightarrow> 'c \<Rightarrow> 'c) \<Rightarrow> 'c \<Rightarrow> 'c" where
  "if_some p f c = (case p of None \<Rightarrow> c | Some q \<Rightarrow> f q c)"

definition retention_of :: "store_section \<Rightarrow> retention_policy" where
  "retention_of s =
     if_some (ss_retention_max_bytes s) (\<lambda>n. with_max_bytes (unat n))
       (case ss_retention_days s of Some d \<Rightarrow> keep_days d | None \<Rightarrow> keep_forever)"

definition store_config_of :: "cryptoext \<Rightarrow> fs \<Rightarrow> server_config \<Rightarrow> store_config res" where
  "store_config_of K w c =
     (let s = sc_store c
      in rbind (keyring_of K w (sc_keys c)) (\<lambda>ring.
         let c1 = config_plaintext_cache (ss_plaintext_cache s) (config_keys ring (config_new (ss_root s)));
             c2 = if_some (ss_max_segment_bytes s) (\<lambda>n. config_max_segment_bytes (unat n)) c1;
             c3 = if_some (ss_sync_policy s) (\<lambda>p. config_sync_policy (sync_policy_of p)) c2;
             c4 = config_access_log (ss_access_log s) (config_retention (retention_of s) c3)
         in Inr (if_some (ss_access_retention_days s) (\<lambda>d. config_access_retention (keep_days d)) c4)))"

definition pipeline_config_of :: "server_config \<Rightarrow> pipeline_config" where
  "pipeline_config_of c =
     (let h = sc_health c;
          t1 = if_some (hc_min_free_bytes h) (\<lambda>n t. t\<lparr>dt_min_free_bytes := n\<rparr>) thresholds_default;
          t2 = if_some (hc_min_free_ratio h) (\<lambda>r t. t\<lparr>dt_min_free_ratio := r\<rparr>) t1
      in pipeline_config_default\<lparr>pc_disk_thresholds := t2,
           pc_reject_emit_when_disk_full := hc_reject_emit_when_disk_full h\<rparr>)"

section \<open>Start and re-key\<close>

text \<open>The reasons for which the process exits with code 1.\<close>

datatype exit_reason =
    ConfigUnreadable error
  | StoreConfigInvalid error
  | StoreOpenFailed error
  | SinkFailed io_error
  | PipelineFailed error
  | AuthConfigInvalid auth_error
  | RekeyFailed error
  | PostVerifyFailed error

text \<open>
  From the configuration file to the state behind the router. \<open>udp\<close> is what the set-up of the
  syslog socket yields. \<open>None\<close>: the start of the pipeline does not return. \<open>process::exit\<close> drops nothing.
\<close>

definition server_start ::
  "penv \<Rightarrow> (bytes \<Rightarrow> server_config option) \<Rightarrow> path \<Rightarrow> lock_answer \<Rightarrow> io_error + unit \<Rightarrow> fs
     \<Rightarrow> ((exit_reason + app_state) \<times> fs) option" where
  "server_start P J config_path lock udp w =
     (let K = se_crypto (pe_store P)
      in case load_config J config_path w of
           Inl e \<Rightarrow> Some (Inl (ConfigUnreadable e), w)
         | Inr cfg \<Rightarrow>
      (case store_config_of K w cfg of
           Inl e \<Rightarrow> Some (Inl (StoreConfigInvalid e), w)
         | Inr store_cfg \<Rightarrow>
      (case store_open (pe_store P) store_cfg lock w of
           (Inl e, w1) \<Rightarrow> Some (Inl (StoreOpenFailed e), w1)
         | (Inr store, w1) \<Rightarrow>
      (case (if sc_sink cfg = None then Inr () else udp) of
           Inl e \<Rightarrow> Some (Inl (SinkFailed e), w1)
         | Inr _ \<Rightarrow>
      (case pipeline_start P store (cf_root store_cfg) ((pipeline_config_of cfg)\<lparr>pc_sink := sc_sink cfg \<noteq> None\<rparr>) False w1 of
           None \<Rightarrow> None
         | Some (Inl e, w2) \<Rightarrow> Some (Inl (PipelineFailed e), w2)
         | Some (Inr k, w2) \<Rightarrow>
      (case auth_state_of K (sc_auth cfg) of
           Inl e \<Rightarrow> Some (Inl (AuthConfigInvalid e), w2)
         | Inr auth \<Rightarrow> Some (Inr (if_some (sc_idempotency cfg) idempotency_window (app_new (pipe_of k w2) auth)), w2)))))))"

definition rekey_command ::
  "senv \<Rightarrow> (bytes \<Rightarrow> server_config option) \<Rightarrow> path \<Rightarrow> lock_answer \<Rightarrow> (nat \<Rightarrow> bytes) \<Rightarrow> u64 \<Rightarrow> fs
     \<Rightarrow> (exit_reason + rekey_event) \<times> fs" where
  "rekey_command E J config_path lock pads now w =
     (case load_config J config_path w of
        Inl e \<Rightarrow> (Inl (ConfigUnreadable e), w)
      | Inr cfg \<Rightarrow>
     (case store_config_of (se_crypto E) w cfg of
        Inl e \<Rightarrow> (Inl (StoreConfigInvalid e), w)
      | Inr store_cfg \<Rightarrow>
     (case store_open E store_cfg lock w of
        (Inl e, w1) \<Rightarrow> (Inl (StoreOpenFailed e), w1)
      | (Inr store, w1) \<Rightarrow>
     (case store_rekey E pads now (store, w1) of
        (Inl e, (store2, w2)) \<Rightarrow> (Inl (RekeyFailed e), w2)
      | (Inr ev, (store2, w2)) \<Rightarrow>
     (case verify_integrity E (store2, w2) of
        (Inl e, (store3, w3)) \<Rightarrow> (Inl (PostVerifyFailed e), w3)
      | (Inr _, (store3, w3)) \<Rightarrow> (Inr ev, w3))))))"

section \<open>What the section lists\<close>

definition hmac_listed :: "keys_section \<Rightarrow> (u32 \<times> path) list" where
  "hmac_listed s =
     (case ks_hmac_key_file s of None \<Rightarrow> [] | Some p \<Rightarrow> [(1, p)]) @
     map (\<lambda>k. (vk_version k, vk_file k)) (ks_hmac_keys s)"

definition rsa_listed :: "keys_section \<Rightarrow> (u32 \<times> path option \<times> path option) list" where
  "rsa_listed s =
     (if ks_public_key_pem_file s = None \<and> ks_private_key_pem_file s = None then []
      else [(1, ks_public_key_pem_file s, ks_private_key_pem_file s)]) @
     map (\<lambda>k. (vr_version k, vr_public_key_pem_file k, vr_private_key_pem_file k)) (ks_rsa_keys s)"

definition has_half :: "u32 \<times> path option \<times> path option \<Rightarrow> bool" where
  "has_half e \<longleftrightarrow> \<not> (fst (snd e) = None \<and> snd (snd e) = None)"

definition public_at :: "cryptoext \<Rightarrow> fs \<Rightarrow> path \<Rightarrow> bytes option" where
  "public_at K w p =
     (case fs_read_text p w of
        Inl _ \<Rightarrow> None
      | Inr pem \<Rightarrow> (case cx_parse_public K pem of Inl _ \<Rightarrow> None | Inr k \<Rightarrow> Some k))"

definition private_at :: "cryptoext \<Rightarrow> fs \<Rightarrow> path \<Rightarrow> bytes option" where
  "private_at K w p =
     (case fs_read_text p w of
        Inl _ \<Rightarrow> None
      | Inr pem \<Rightarrow> (case cx_parse_private K pem of Inl _ \<Rightarrow> None | Inr k \<Rightarrow> Some k))"

text \<open>The pair of one entry: the listed public key, or else that of the private key.\<close>

definition pair_at :: "cryptoext \<Rightarrow> fs \<Rightarrow> path option \<times> path option \<Rightarrow> rsa_pair" where
  "pair_at K w e =
     (let priv = Option.bind (snd e) (private_at K w)
      in \<lparr>rp_public = (case fst e of Some p \<Rightarrow> public_at K w p | None \<Rightarrow> map_option (cx_to_public K) priv),
          rp_private = priv\<rparr>)"

definition half_usable :: "cryptoext \<Rightarrow> fs \<Rightarrow> u32 \<times> path option \<times> path option \<Rightarrow> bool" where
  "half_usable K w e \<longleftrightarrow> \<not> has_half e \<or>
     (fst e \<noteq> KEYLESS \<and>
      (case fst (snd e) of None \<Rightarrow> True | Some p \<Rightarrow> public_at K w p \<noteq> None) \<and>
      (case snd (snd e) of None \<Rightarrow> True | Some p \<Rightarrow> private_at K w p \<noteq> None))"

definition keys_usable :: "cryptoext \<Rightarrow> fs \<Rightarrow> keys_section \<Rightarrow> bool" where
  "keys_usable K w s \<longleftrightarrow>
     distinct (map fst (hmac_listed s)) \<and> list_all (\<lambda>e. fst e \<noteq> KEYLESS \<and> fget w (snd e) \<noteq> None) (hmac_listed s) \<and>
     distinct (map fst (rsa_listed s)) \<and> list_all (half_usable K w) (rsa_listed s)"

definition highest :: "u32 list \<Rightarrow> u32 option" where
  "highest vs = (if vs = [] then None else Some (Max (set vs)))"

section \<open>The loops\<close>

definition bt_load :: "('k::linorder \<times> 'v) list \<Rightarrow> ('k \<times> 'v) list \<Rightarrow> ('k \<times> 'v) list" where
  "bt_load kvs m = fold (\<lambda>(k, v). bt_insert k v) kvs m"

lemma bt_load_simps [simp]: "bt_load [] m = m" "bt_load ((k, v) # kvs) m = bt_load kvs (bt_insert k v m)"
  by (simp_all add: bt_load_def)

lemma bt_load_append: "bt_load (xs @ ys) m = bt_load ys (bt_load xs m)"
  by (simp add: bt_load_def)

lemma bt_load_wf: "bt_wf m \<Longrightarrow> bt_wf (bt_load kvs m)"
  by (induction kvs arbitrary: m) (auto simp: bt_wf_insert)

lemma bt_load_keys: "fst ` set (bt_load kvs m) = fst ` set kvs \<union> fst ` set m"
proof (induction kvs arbitrary: m)
  case (Cons kv kvs)
  then show ?case by (cases kv) simp
qed simp

lemma map_of_bt_load: "distinct (map fst kvs) \<Longrightarrow> map_of (bt_load kvs m) = map_of m ++ map_of kvs"
proof (induction kvs arbitrary: m)
  case (Cons kv kvs)
  obtain k v where kv: "kv = (k, v)" by (cases kv)
  have "map_of kvs k = None" using Cons.prems kv by (simp add: map_of_eq_None_iff)
  then show ?case using Cons kv by (auto simp: map_add_def fun_eq_iff split: option.splits)
qed simp

lemma bt_insert_twice: "bt_wf m \<Longrightarrow> bt_insert k v (bt_insert k u m) = bt_insert k v m"
  by (induction m) (auto simp: bt_wf_Cons)

lemma last_key_highest: "bt_wf m \<Longrightarrow> last_key m = highest (map fst m)"
proof (cases m)
  case (Cons a list)
  assume wf: "bt_wf m"
  obtain v where v: "last_key m = Some v" using Cons by (simp add: last_key_def)
  have "Max (fst ` set m) = v" using last_key_max [OF wf v] by (intro Max_eqI) auto
  then show ?thesis using v Cons by (simp add: highest_def)
qed (simp add: last_key_def highest_def)

lemma highest_cong: "set us = set vs \<Longrightarrow> highest us = highest vs"
  by (auto simp: highest_def)

lemma load_hmac_iff:
  "load_hmac w v p R = Inr R' \<longleftrightarrow>
     v \<noteq> KEYLESS \<and> fget w p \<noteq> None \<and> R' = R\<lparr>kr_macs := bt_insert v (the (fget w p)) (kr_macs R)\<rparr>"
  by (auto simp: load_hmac_def fs_read_def ok_or_def with_hmac_key_version_def check_version_def rbind_Inr_iff
        split: option.splits)

lemma load_hmac_keys_iff:
  "load_hmac_keys w ks seen R = Inr R' \<longleftrightarrow>
     distinct (map vk_version ks) \<and> set (map vk_version ks) \<inter> set seen = {} \<and>
     list_all (\<lambda>k. vk_version k \<noteq> KEYLESS \<and> fget w (vk_file k) \<noteq> None) ks \<and>
     R' = R\<lparr>kr_macs := bt_load (map (\<lambda>k. (vk_version k, the (fget w (vk_file k)))) ks) (kr_macs R)\<rparr>"
proof (induction ks arbitrary: seen R)
  case (Cons k ks)
  show ?case
    by (cases "vk_version k \<in> set seen") (auto simp: rbind_Inr_iff load_hmac_iff Cons.IH)
qed auto

lemma load_public_iff:
  "load_public K w v p R = Inr R' \<longleftrightarrow>
     v \<noteq> KEYLESS \<and> public_at K w p \<noteq> None \<and>
     R' = R\<lparr>kr_rsa := bt_insert v ((rsa_entry R v)\<lparr>rp_public := public_at K w p\<rparr>) (kr_rsa R)\<rparr>"
  by (auto simp: load_public_def public_at_def with_public_pem_version_def check_version_def rbind_Inr_iff
        split: sum.splits)

lemma load_private_iff:
  "load_private K w v p R = Inr R' \<longleftrightarrow>
     v \<noteq> KEYLESS \<and> private_at K w p \<noteq> None \<and>
     R' = R\<lparr>kr_rsa := bt_insert v \<lparr>rp_public = (case rp_public (rsa_entry R v) of
         None \<Rightarrow> map_option (cx_to_public K) (private_at K w p) | Some q \<Rightarrow> Some q),
       rp_private = private_at K w p\<rparr> (kr_rsa R)\<rparr>"
  by (auto simp: load_private_def private_at_def with_private_pem_version_def check_version_def rbind_Inr_iff Let_def
        split: sum.splits option.splits)

lemma load_pair_iff:
  assumes "bt_wf (kr_rsa R)" and "map_of (kr_rsa R) v = None"
  shows "(\<exists>R1. when_some pub (load_public K w v) R = Inr R1 \<and> when_some priv (load_private K w v) R1 = Inr R') \<longleftrightarrow>
    half_usable K w (v, pub, priv) \<and>
    R' = R\<lparr>kr_rsa := bt_load (if has_half (v, pub, priv) then [(v, pair_at K w (pub, priv))] else []) (kr_rsa R)\<rparr>"
  using assms
  by (cases pub; cases priv)
    (auto simp: when_some_def load_public_iff load_private_iff half_usable_def has_half_def pair_at_def rsa_entry_def
       rsa_pair_default_def bt_insert_twice Let_def)

definition rsa_entries :: "cryptoext \<Rightarrow> fs \<Rightarrow> (u32 \<times> path option \<times> path option) list \<Rightarrow> (u32 \<times> rsa_pair) list" where
  "rsa_entries K w es = map (\<lambda>(v, e). (v, pair_at K w e)) (filter has_half es)"

lemma load_rsa_keys_iff:
  assumes "bt_wf (kr_rsa R)" and "fst ` set (kr_rsa R) \<subseteq> set seen"
  shows "load_rsa_keys K w ks seen R = Inr R' \<longleftrightarrow>
     distinct (map vr_version ks) \<and> set (map vr_version ks) \<inter> set seen = {} \<and>
     list_all (\<lambda>k. half_usable K w (vr_version k, vr_public_key_pem_file k, vr_private_key_pem_file k)) ks \<and>
     R' = R\<lparr>kr_rsa := bt_load (rsa_entries K w
       (map (\<lambda>k. (vr_version k, vr_public_key_pem_file k, vr_private_key_pem_file k)) ks)) (kr_rsa R)\<rparr>"
  using assms
proof (induction ks arbitrary: seen R)
  case (Cons k ks)
  let ?v = "vr_version k" and ?pub = "vr_public_key_pem_file k" and ?priv = "vr_private_key_pem_file k"
  let ?R2 = "R\<lparr>kr_rsa := bt_load (if has_half (?v, ?pub, ?priv) then [(?v, pair_at K w (?pub, ?priv))] else []) (kr_rsa R)\<rparr>"
  show ?case
  proof (cases "?v \<in> set seen")
    case False
    then have n: "map_of (kr_rsa R) ?v = None" using Cons.prems(2) by (auto simp: map_of_eq_None_iff)
    have wf: "bt_wf (kr_rsa ?R2)" using bt_load_wf [OF Cons.prems(1)] by simp
    have sub: "fst ` set (kr_rsa ?R2) \<subseteq> set (?v # seen)" using Cons.prems(2) by (auto simp: bt_load_keys)
    have "load_rsa_keys K w (k # ks) seen R = Inr R' \<longleftrightarrow>
        (\<exists>R3. (\<exists>R1. when_some ?pub (load_public K w ?v) R = Inr R1 \<and> when_some ?priv (load_private K w ?v) R1 = Inr R3) \<and>
           load_rsa_keys K w ks (?v # seen) R3 = Inr R')"
      using False by (simp add: rbind_Inr_iff) blast
    then have "load_rsa_keys K w (k # ks) seen R = Inr R' \<longleftrightarrow>
        half_usable K w (?v, ?pub, ?priv) \<and> load_rsa_keys K w ks (?v # seen) ?R2 = Inr R'"
      unfolding load_pair_iff [OF Cons.prems(1) n] by blast
    then show ?thesis using False by (auto simp: Cons.IH [OF wf sub] rsa_entries_def)
  qed simp
qed (auto simp: rsa_entries_def)

section \<open>The ring that is loaded\<close>

lemma keyring_of_iff:
  "keyring_of K w s = Inr R \<longleftrightarrow> keys_usable K w s \<and>
     R = \<lparr>kr_rsa = bt_load (rsa_entries K w (rsa_listed s)) [],
          kr_macs = bt_load (map (\<lambda>(v, p). (v, the (fget w p))) (hmac_listed s)) []\<rparr>"
proof -
  let ?hm = "ks_hmac_key_file s" and ?pub = "ks_public_key_pem_file s" and ?priv = "ks_private_key_pem_file s"
  let ?h = "if ?hm = None then [] else [1 :: u32]"
  let ?r = "if ?pub = None \<and> ?priv = None then [] else [1 :: u32]"
  let ?a = "case ?hm of None \<Rightarrow> [] | Some p \<Rightarrow> [(1 :: u32, p)]"
  let ?b = "if has_half (1, ?pub, ?priv) then [(1, pair_at K w (?pub, ?priv))] else []"
  let ?R1 = "\<lparr>kr_rsa = [], kr_macs = bt_load (map (\<lambda>(v, p). (v, the (fget w p))) ?a) []\<rparr>"
  let ?R3 = "?R1\<lparr>kr_rsa := bt_load ?b []\<rparr>"
  let ?hk = "map (\<lambda>k. (vk_version k, the (fget w (vk_file k)))) (ks_hmac_keys s)"
  let ?R4 = "?R3\<lparr>kr_macs := bt_load ?hk (kr_macs ?R3)\<rparr>"
  have "keyring_of K w s = Inr R \<longleftrightarrow>
    (\<exists>R1. when_some ?hm (load_hmac w 1) key_ring_new = Inr R1 \<and>
      (\<exists>R3. (\<exists>R2. when_some ?pub (load_public K w 1) R1 = Inr R2 \<and> when_some ?priv (load_private K w 1) R2 = Inr R3) \<and>
        (\<exists>R4. load_hmac_keys w (ks_hmac_keys s) ?h R3 = Inr R4 \<and> load_rsa_keys K w (ks_rsa_keys s) ?r R4 = Inr R)))"
    unfolding keyring_of_def Let_def rbind_Inr_iff by blast
  moreover have "when_some ?hm (load_hmac w 1) key_ring_new = Inr R1 \<longleftrightarrow>
      list_all (\<lambda>e. fst e \<noteq> KEYLESS \<and> fget w (snd e) \<noteq> None) ?a \<and> R1 = ?R1" for R1
    by (cases ?hm) (auto simp: when_some_def load_hmac_iff key_ring_new_def KEYLESS_def)
  moreover have "(\<exists>R2. when_some ?pub (load_public K w 1) ?R1 = Inr R2 \<and> when_some ?priv (load_private K w 1) R2 = Inr R3) \<longleftrightarrow>
      half_usable K w (1, ?pub, ?priv) \<and> R3 = ?R3" for R3
    by (subst load_pair_iff) simp_all
  moreover have "load_rsa_keys K w (ks_rsa_keys s) ?r ?R4 = Inr R \<longleftrightarrow>
     distinct (map vr_version (ks_rsa_keys s)) \<and> set (map vr_version (ks_rsa_keys s)) \<inter> set ?r = {} \<and>
     list_all (\<lambda>k. half_usable K w (vr_version k, vr_public_key_pem_file k, vr_private_key_pem_file k)) (ks_rsa_keys s) \<and>
     R = ?R4\<lparr>kr_rsa := bt_load (rsa_entries K w
       (map (\<lambda>k. (vr_version k, vr_public_key_pem_file k, vr_private_key_pem_file k)) (ks_rsa_keys s))) (kr_rsa ?R4)\<rparr>"
    by (rule load_rsa_keys_iff) (auto simp: has_half_def bt_wf_Cons)
  moreover have "keys_usable K w s \<longleftrightarrow>
     list_all (\<lambda>e. fst e \<noteq> KEYLESS \<and> fget w (snd e) \<noteq> None) ?a \<and> half_usable K w (1, ?pub, ?priv) \<and>
     distinct (map vk_version (ks_hmac_keys s)) \<and> set (map vk_version (ks_hmac_keys s)) \<inter> set ?h = {} \<and>
     list_all (\<lambda>k. vk_version k \<noteq> KEYLESS \<and> fget w (vk_file k) \<noteq> None) (ks_hmac_keys s) \<and>
     distinct (map vr_version (ks_rsa_keys s)) \<and> set (map vr_version (ks_rsa_keys s)) \<inter> set ?r = {} \<and>
     list_all (\<lambda>k. half_usable K w (vr_version k, vr_public_key_pem_file k, vr_private_key_pem_file k)) (ks_rsa_keys s)"
    by (auto simp: keys_usable_def hmac_listed_def rsa_listed_def half_usable_def has_half_def list_all_iff comp_def
          split: option.splits)
  moreover have "bt_load (rsa_entries K w (rsa_listed s)) [] =
      bt_load (rsa_entries K w (map (\<lambda>k. (vr_version k, vr_public_key_pem_file k, vr_private_key_pem_file k)) (ks_rsa_keys s)))
        (bt_load ?b [])"
    by (auto simp: rsa_entries_def rsa_listed_def has_half_def bt_load_append)
  moreover have "bt_load (map (\<lambda>(v, p). (v, the (fget w p))) (hmac_listed s)) [] = bt_load ?hk (kr_macs ?R3)"
    by (simp add: hmac_listed_def bt_load_append comp_def)
  ultimately show ?thesis by (auto simp: load_hmac_keys_iff)
qed

lemma rsa_entries_map_of:
  "distinct (map fst es) \<Longrightarrow> map_of (rsa_entries K w es) v = map_option (pair_at K w) (map_of (filter has_half es) v)"
  by (simp add: rsa_entries_def map_of_map)

text \<open>
  C38: The server starts with a key ring exactly when its configuration lists every key version once,
  none as version 0, and every listed file can be read and parsed. The ring then holds exactly the
  listed keys, each under its version, a private key without a public one together with the public
  key that belongs to it, and the highest listed version of each kind is the active one.
\<close>

theorem keyring_correct:
  "case keyring_of K w s of
     Inl _ \<Rightarrow> \<not> keys_usable K w s
   | Inr R \<Rightarrow> keys_usable K w s \<and> bt_wf (kr_macs R) \<and> bt_wf (kr_rsa R) \<and>
       (\<forall>v. map_of (kr_macs R) v = Option.bind (map_of (hmac_listed s) v) (fget w)) \<and>
       (\<forall>v. map_of (kr_rsa R) v = map_option (pair_at K w) (map_of (filter has_half (rsa_listed s)) v)) \<and>
       active_hmac_version R = highest (map fst (hmac_listed s)) \<and>
       active_rsa_version R = highest (map fst (filter has_half (rsa_listed s)))"
proof (cases "keyring_of K w s")
  case (Inl e)
  have "\<not> keys_usable K w s"
  proof
    assume "keys_usable K w s"
    then have "\<exists>R. keyring_of K w s = Inr R" unfolding keyring_of_iff by blast
    with Inl show False by simp
  qed
  then show ?thesis using Inl by simp
next
  case (Inr R)
  then have u: "keys_usable K w s"
    and R: "R = \<lparr>kr_rsa = bt_load (rsa_entries K w (rsa_listed s)) [],
          kr_macs = bt_load (map (\<lambda>(v, p). (v, the (fget w p))) (hmac_listed s)) []\<rparr>"
    by (simp_all add: keyring_of_iff)
  have d: "distinct (map fst (hmac_listed s))" "distinct (map fst (rsa_listed s))" using u by (simp_all add: keys_usable_def)
  have d': "distinct (map fst (rsa_entries K w (rsa_listed s)))"
    using d(2) by (simp add: rsa_entries_def comp_def case_prod_beta distinct_map_filter)
  have wf: "bt_wf (kr_macs R)" "bt_wf (kr_rsa R)" by (simp_all add: R bt_load_wf)
  have "map_of (kr_macs R) v = Option.bind (map_of (hmac_listed s) v) (fget w)" for v
  proof -
    have "map_of (kr_macs R) v = map_option (\<lambda>p. the (fget w p)) (map_of (hmac_listed s) v)"
      using d(1) by (simp add: R map_of_bt_load comp_def case_prod_beta map_of_map)
    moreover have "fget w p \<noteq> None" if "map_of (hmac_listed s) v = Some p" for p
      using u map_of_SomeD [OF that] by (auto simp: keys_usable_def list_all_iff)
    ultimately show ?thesis by (cases "map_of (hmac_listed s) v") auto
  qed
  moreover have "map_of (kr_rsa R) v = map_option (pair_at K w) (map_of (filter has_half (rsa_listed s)) v)" for v
    using rsa_entries_map_of [OF d(2)] d' by (simp add: R map_of_bt_load)
  moreover have "active_hmac_version R = highest (map fst (hmac_listed s))"
    unfolding active_hmac_version_def last_key_highest [OF wf(1)]
    by (rule highest_cong) (simp add: R bt_load_keys image_image case_prod_beta)
  moreover have "active_rsa_version R = highest (map fst (filter has_half (rsa_listed s)))"
    unfolding active_rsa_version_def last_key_highest [OF wf(2)]
    by (rule highest_cong) (simp add: R bt_load_keys rsa_entries_def image_image case_prod_beta)
  ultimately show ?thesis using Inr u wf by simp
qed

text \<open>
  A configuration that keeps every key it had, in either of its two shapes, and adds new
  versions keeps the store readable: every key of the old ring is in the new one, and what was
  digested under the old ring is found by a probe with the new one, among the versions that a search tries.
\<close>

theorem rotated_config_keeps_keys:
  assumes old: "keyring_of K w s = Inr R" and new: "keyring_of K w s' = Inr R'"
    and hm: "map_of (hmac_listed s) \<subseteq>\<^sub>m map_of (hmac_listed s')"
    and rs: "map_of (rsa_listed s) \<subseteq>\<^sub>m map_of (rsa_listed s')"
  shows "ring_extends R R' \<and>
    (\<forall>data ver d. hmac_hex K R data = Inr (ver, d) \<longrightarrow> hmac_hex_with K R' ver data = Inr d \<and> ver \<in> set (hmac_versions R'))"
proof -
  have u: "keys_usable K w s" "keys_usable K w s'" using old new by (simp_all add: keyring_of_iff)
  have macs: "map_of (kr_macs R) \<subseteq>\<^sub>m map_of (kr_macs R')"
    using old new u hm by (auto simp: keyring_of_iff keys_usable_def map_of_bt_load comp_def case_prod_beta map_of_map
        map_le_def dom_def)
  have "map_of (kr_rsa R') v = Some e" if e: "map_of (kr_rsa R) v = Some e" for v e
  proof -
    have d: "distinct (map fst (rsa_listed s))" "distinct (map fst (rsa_listed s'))"
      using u by (simp_all add: keys_usable_def)
    have f: "map_of (filter has_half es) v = (case map_of es v of Some x \<Rightarrow> if has_half (v, x) then Some x else None | None \<Rightarrow> None)"
      if "distinct (map fst es)" for es
      using that by (induction es) (auto simp: map_of_eq_None_iff split: option.splits)
    have m: "map_of (kr_rsa Q) v = map_option (pair_at K w) (map_of (filter has_half (rsa_listed q)) v)"
      if "keyring_of K w q = Inr Q" "distinct (map fst (rsa_listed q))" for q Q
    proof -
      have "distinct (map fst (rsa_entries K w (rsa_listed q)))"
        using that(2) by (simp add: rsa_entries_def comp_def case_prod_beta distinct_map_filter)
      then show ?thesis using that rsa_entries_map_of [OF that(2)] by (simp add: keyring_of_iff map_of_bt_load)
    qed
    obtain x where x: "map_of (rsa_listed s) v = Some x" "has_half (v, x)" "e = pair_at K w x"
      using e m [OF old d(1)] f [OF d(1)] by (auto split: option.splits if_splits)
    moreover have "map_of (rsa_listed s') v = Some x" using rs x(1) by (auto simp: map_le_def dom_def)
    ultimately show ?thesis using m [OF new d(2)] f [OF d(2)] by simp
  qed
  then have "map_of (kr_rsa R) \<subseteq>\<^sub>m map_of (kr_rsa R')" by (auto simp: map_le_def dom_def)
  with macs have e: "ring_extends R R'" by (simp add: ring_extends_def)
  then show ?thesis using hmac_probe_finds by blast
qed

text \<open>Its witness: from the single-file shape to the list with a second version.\<close>

definition demo_key_fs :: fs where
  "demo_key_fs = \<lparr>fs_files = [([''k1''], [1]), ([''k2''], [2])], fs_dirs = [], fs_faults = []\<rparr>"

definition demo_keys_old :: keys_section where
  "demo_keys_old = \<lparr>ks_hmac_key_file = Some [''k1''], ks_public_key_pem_file = None, ks_private_key_pem_file = None,
     ks_hmac_keys = [], ks_rsa_keys = []\<rparr>"

definition demo_keys_new :: keys_section where
  "demo_keys_new = \<lparr>ks_hmac_key_file = None, ks_public_key_pem_file = None, ks_private_key_pem_file = None,
     ks_hmac_keys = [\<lparr>vk_version = 2, vk_file = [''k2'']\<rparr>, \<lparr>vk_version = 1, vk_file = [''k1'']\<rparr>], ks_rsa_keys = []\<rparr>"

lemmas demo_key_defs = demo_key_fs_def demo_keys_old_def demo_keys_new_def keyring_of_def when_some_def
  load_hmac_def fs_read_def fget_def with_hmac_key_version_def check_version_def KEYLESS_def key_ring_new_def

lemma rotated_config_keeps_keys_witness:
  "hmac_hex demo_crypto \<lparr>kr_rsa = [], kr_macs = [(1, [1])]\<rparr> [7] = Inr (1, hex (cx_hmac demo_crypto [1] [7])) \<and>
   hmac_hex_with demo_crypto \<lparr>kr_rsa = [], kr_macs = [(1, [1]), (2, [2])]\<rparr> 1 [7] = Inr (hex (cx_hmac demo_crypto [1] [7]))"
proof -
  let ?R = "\<lparr>kr_rsa = [], kr_macs = [(1 :: u32, [1 :: u8])]\<rparr>" and ?R' = "\<lparr>kr_rsa = [], kr_macs = [(1 :: u32, [1 :: u8]), (2, [2])]\<rparr>"
  have "keyring_of demo_crypto demo_key_fs demo_keys_old = Inr ?R"
    "keyring_of demo_crypto demo_key_fs demo_keys_new = Inr ?R'"
    by (simp_all add: demo_key_defs)
  moreover have "map_of (hmac_listed demo_keys_old) \<subseteq>\<^sub>m map_of (hmac_listed demo_keys_new)"
    "map_of (rsa_listed demo_keys_old) \<subseteq>\<^sub>m map_of (rsa_listed demo_keys_new)"
    by (simp_all add: demo_key_defs hmac_listed_def rsa_listed_def map_le_def)
  moreover have "hmac_hex demo_crypto ?R [7] = Inr (1, hex (cx_hmac demo_crypto [1] [7]))"
    by (simp add: hmac_hex_def active_hmac_version_def last_key_def hmac_hex_with_def mac_of_def)
  ultimately show ?thesis using rotated_config_keeps_keys [of demo_crypto demo_key_fs demo_keys_old ?R demo_keys_new ?R'] by blast
qed

end
