(* ===== verification/Mcp.thy ===== *)
theory Mcp
  imports Server_Props
begin

text \<open>
  The agent's side (\<open>crates/quipu-mcp/src/\<close>): the issuer of tokens, the HTTP backend, the three tools,
  and the JSON-RPC server on standard input and output.

  \<open>serde_json\<close>'s parser and printers are parameters; an object is an association list in the order of
  its keys (the map is a \<open>BTreeMap\<close>), a number its text. Text is UTF-8, one character per byte.
\<close>

section \<open>JSON values\<close>

datatype jval =
    JvNull
  | JvBool bool
  | JvNumber string
  | JvString string
  | JvArray "jval list"
  | JvObject "(string \<times> jval) list"

record mcp_json =
  mj_parse :: "bytes \<Rightarrow> jval option" \<comment> \<open>\<open>from_slice\<close>, \<open>from_str\<close>\<close>
  mj_print :: "jval \<Rightarrow> string" \<comment> \<open>\<open>to_string\<close>\<close>
  mj_pretty :: "jval \<Rightarrow> string"

fun jget :: "string \<Rightarrow> jval \<Rightarrow> jval option" where
  "jget k (JvObject m) = map_of m k"
| "jget k _ = None"

fun as_str :: "jval \<Rightarrow> string option" where
  "as_str (JvString s) = Some s"
| "as_str _ = None"

definition get_str :: "string \<Rightarrow> jval \<Rightarrow> string option" where
  "get_str k v = Option.bind (jget k v) as_str"

section \<open>The issuer\<close>

record issued_token =
  it_token :: string
  it_hashed_key :: string
  it_role :: string
  it_expires :: "u64 option"

text \<open>\<open>bs\<close> are the 32 random bytes.\<close>

definition issue :: "cryptoext \<Rightarrow> bytes \<Rightarrow> string \<Rightarrow> u64 option \<Rightarrow> issued_token" where
  "issue K bs r expires =
     (let token = hex bs
      in \<lparr>it_token = token, it_hashed_key = ''sha256:'' @ sha256_hex K (as_bytes token), it_role = r,
          it_expires = expires\<rparr>)"

definition QUOTE :: string where "QUOTE = [CHR 0x22]"

definition quoted :: "string \<Rightarrow> string" where
  "quoted s = QUOTE @ s @ QUOTE"

definition config_entry :: "issued_token \<Rightarrow> string" where
  "config_entry t =
     (case it_expires t of
        None \<Rightarrow> quoted (it_hashed_key t) @ '': '' @ quoted (it_role t)
      | Some e \<Rightarrow> quoted (it_hashed_key t) @ '': { '' @ quoted ''role'' @ '': '' @ quoted (it_role t) @ '', '' @
          quoted ''expires'' @ '': '' @ dec (unat e) @ '' }'')"

section \<open>The backend\<close>

record backend_error =
  be_message :: string
  be_retryable :: bool

definition fatal_error :: "string \<Rightarrow> backend_error" where
  "fatal_error m = \<lparr>be_message = m, be_retryable = False\<rparr>"

definition retryable_error :: "string \<Rightarrow> backend_error" where
  "retryable_error m = \<lparr>be_message = m, be_retryable = True\<rparr>"

type_synonym backend_result = "backend_error + jval"

text \<open>The trait: three operations, on some state behind them.\<close>

datatype mcp_call = CallQuery jval | CallHistory string string | CallVerify

type_synonym 's mcp_backend = "mcp_call \<Rightarrow> 's \<Rightarrow> backend_result \<times> 's"

subsection \<open>Over HTTP\<close>

record http_backend =
  hb_addr :: string
  hb_token :: string

datatype exchange = ConnectFailed string | WriteFailed string | ReadFailed string | Received bytes

text \<open>What the server and the network answer, from the requests before and the text of this one.\<close>

type_synonym mcp_wire = "string list \<Rightarrow> string \<Rightarrow> exchange"

definition CRLF :: string where "CRLF = [CHR 0x0D, CHR 0x0A]"

definition request_text :: "http_backend \<Rightarrow> string \<Rightarrow> string \<Rightarrow> string option \<Rightarrow> string" where
  "request_text b meth path body =
     meth @ '' '' @ path @ '' HTTP/1.1'' @ CRLF @ ''Host: '' @ hb_addr b @ CRLF @
     ''Authorization: Bearer '' @ hb_token b @ CRLF @ ''Connection: close'' @ CRLF @
     (case body of
        None \<Rightarrow> []
      | Some t \<Rightarrow> ''Content-Type: application/json'' @ CRLF @ ''Content-Length: '' @ dec (length t) @ CRLF) @
     CRLF @ (case body of None \<Rightarrow> [] | Some t \<Rightarrow> t)"

fun find_subslice :: "bytes \<Rightarrow> bytes \<Rightarrow> nat option" where
  "find_subslice [] needle = None"
| "find_subslice (b # bs) needle =
     (if prefix needle (b # bs) then Some 0 else map_option Suc (find_subslice bs needle))"

text \<open>White space of Unicode, in UTF-8, and \<open>split_whitespace\<close>.\<close>

definition white_seqs :: "string list" where
  "white_seqs = map (map char_of)
     ([[9 :: nat], [10], [11], [12], [13], [32], [0xC2, 0x85], [0xC2, 0xA0], [0xE1, 0x9A, 0x80]] @
      map (\<lambda>k. [0xE2, 0x80, k]) [0x80, 0x81, 0x82, 0x83, 0x84, 0x85, 0x86, 0x87, 0x88, 0x89, 0x8A, 0xA8, 0xA9, 0xAF] @
      [[0xE2, 0x81, 0x9F], [0xE3, 0x80, 0x80]])"

definition white_len :: "string \<Rightarrow> nat" where
  "white_len s = (case find (\<lambda>p. prefix p s) white_seqs of None \<Rightarrow> 0 | Some p \<Rightarrow> length p)"

function split_whitespace :: "string \<Rightarrow> string \<Rightarrow> string list" where
  "split_whitespace cur [] = (if cur = [] then [] else [cur])"
| "split_whitespace cur (c # cs) =
     (if white_len (c # cs) = 0 then split_whitespace (cur @ [c]) cs
      else (if cur = [] then [] else [cur]) @ split_whitespace [] (drop (white_len (c # cs) - 1) cs))"
  by pat_completeness auto
termination by (relation "measure (\<lambda>(_, s). length s)") auto

text \<open>\<open>str::parse::<u16>\<close>.\<close>

definition parse_u16 :: "string \<Rightarrow> nat option" where
  "parse_u16 s = Option.bind (parse_u64 s) (\<lambda>n. if n \<le> 65535 then Some n else None)"

definition parse_response :: "bytes \<Rightarrow> (nat \<times> bytes) option" where
  "parse_response raw =
     Option.bind (find_subslice raw (as_bytes (CRLF @ CRLF))) (\<lambda>sep.
       let head = take sep raw;
           body = drop (sep + 4) raw;
           first_line_end = (case find_subslice head (as_bytes CRLF) of Some n \<Rightarrow> n | None \<Rightarrow> length head);
           status_line = take first_line_end head
       in if \<not> utf8_valid status_line then None
          else let fields = split_whitespace [] (from_bytes status_line)
               in if length fields \<le> 1 then None
                  else map_option (\<lambda>code. (code, body)) (parse_u16 (fields ! 1)))"

definition parse_body :: "mcp_json \<Rightarrow> bytes \<Rightarrow> jval" where
  "parse_body M body =
     (if body = [] then JvNull else case mj_parse M body of Some v \<Rightarrow> v | None \<Rightarrow> JvNull)"

definition server_msg :: "mcp_json \<Rightarrow> nat \<Rightarrow> bytes \<Rightarrow> string" where
  "server_msg M status body =
     (case get_str ''error'' (parse_body M body) of Some m \<Rightarrow> m | None \<Rightarrow> ''HTTP '' @ dec status)"

definition classify :: "mcp_json \<Rightarrow> nat \<Rightarrow> bytes \<Rightarrow> backend_result" where
  "classify M status body =
     (if 200 \<le> status \<and> status \<le> 299 then Inr (parse_body M body)
      else if status \<in> {408, 429, 502, 503, 504} then Inl (retryable_error (server_msg M status body))
      else if status = 409 then Inl (retryable_error (server_msg M status body))
      else Inl (fatal_error (server_msg M status body)))"

definition backend_request ::
  "mcp_json \<Rightarrow> mcp_wire \<Rightarrow> http_backend \<Rightarrow> string \<Rightarrow> string \<Rightarrow> string option \<Rightarrow> string list \<Rightarrow> backend_result \<times> string list" where
  "backend_request M net b meth path body sent =
     (let req = request_text b meth path body;
          res = (case net sent req of
             ConnectFailed e \<Rightarrow> Inl (retryable_error (''cannot reach audit server: '' @ e))
           | WriteFailed e \<Rightarrow> Inl (retryable_error (''write to audit server failed: '' @ e))
           | ReadFailed e \<Rightarrow> Inl (retryable_error (''read from audit server failed: '' @ e))
           | Received raw \<Rightarrow>
               (case parse_response raw of
                  None \<Rightarrow> Inl (retryable_error ''malformed HTTP response from audit server'')
                | Some (status, bytes) \<Rightarrow> classify M status bytes))
      in (res, sent @ [req]))"

definition unreserved :: "char \<Rightarrow> bool" where
  "unreserved c \<longleftrightarrow> (let n = of_char c :: nat in (48 \<le> n \<and> n \<le> 57) \<or> (65 \<le> n \<and> n \<le> 90) \<or> (97 \<le> n \<and> n \<le> 122)
     \<or> c = CHR ''-'' \<or> c = CHR ''_'' \<or> c = CHR ''.'' \<or> c = CHR ''~'')"

definition upper_hex :: "nat \<Rightarrow> char" where
  "upper_hex d = (if d < 10 then char_of (48 + d) else char_of (55 + d))"

definition encode_char :: "char \<Rightarrow> string" where
  "encode_char c =
     (if unreserved c then [c]
      else [CHR ''%'', upper_hex (of_char c div 16), upper_hex (of_char c mod 16)])"

definition encode_segment :: "string \<Rightarrow> string" where
  "encode_segment s = concat (map encode_char s)"

definition history_path :: "string \<Rightarrow> string \<Rightarrow> string" where
  "history_path entity_type entity_id =
     ''/v1/entities/'' @ encode_segment entity_type @ ''/'' @ encode_segment entity_id @ ''/history''"

fun http_call :: "mcp_json \<Rightarrow> mcp_wire \<Rightarrow> http_backend \<Rightarrow> string list mcp_backend" where
  "http_call M net b (CallQuery q) = backend_request M net b ''POST'' ''/v1/logs/query'' (Some (mj_print M q))"
| "http_call M net b (CallHistory t i) = backend_request M net b ''GET'' (history_path t i) None"
| "http_call M net b CallVerify = backend_request M net b ''POST'' ''/v1/admin/verify'' None"

section \<open>The tools\<close>

definition QUERY_LOGS :: string where "QUERY_LOGS = ''query_logs''"
definition GET_ENTITY_HISTORY :: string where "GET_ENTITY_HISTORY = ''get_entity_history''"
definition VERIFY_STORE_INTEGRITY :: string where "VERIFY_STORE_INTEGRITY = ''verify_store_integrity''"

definition DASH :: string where "DASH = map char_of [0xE2 :: nat, 0x80, 0x94]"

definition QUERY_DESC :: string where
  "QUERY_DESC =
     ''Search the audit log. Pass a LogQuery object; every field is optional and set fields are '' @
     ''AND-ed (an empty object {} returns the most recent events up to `limit`). Use this to answer '' @
     ''questions like 'who accessed document 42 last week' or 'show failed logins for user alice'. '' @
     ''Returns an array of LogView rows: each is the recorded action plus the actor/target as they '' @
     ''were at the time.''"

definition QUERY_FIELDS_DESC :: string where
  "QUERY_FIELDS_DESC =
     ''A LogQuery. Useful fields: from_micros/to_micros (UTC microseconds), actor_type, method, url, '' @
     ''limit, and targets (a list of {entity_type, field, value, mode} filters, mode one of '' @
     ''exact/exact_ci/prefix/contains). Values are tagged: {'' @ QUOTE @ ''Text'' @ QUOTE @ '':'' @ QUOTE @
     ''...'' @ QUOTE @ ''}, {'' @ QUOTE @ ''Number'' @ QUOTE @ '':1.5}, or {'' @ QUOTE @ ''Json'' @ QUOTE @
     '':'' @ QUOTE @ ''...'' @ QUOTE @ ''}.''"

definition HISTORY_DESC :: string where
  "HISTORY_DESC =
     ''Retrieve the full version history of one entity (a user, document, account, ...), oldest '' @
     ''first. Use this to see how an entity's recorded attributes changed over time '' @ DASH @
     '' renames, field edits, deletion. Returns an array of TargetSnapshot versions.''"

definition TYPE_DESC :: string where
  "TYPE_DESC =
     ''The registered type name, e.g. 'user' or 'document'.''"

definition ID_DESC :: string where
  "ID_DESC =
     ''The entity's stable external id.''"

definition VERIFY_DESC :: string where
  "VERIFY_DESC =
     ''Verify the audit store's tamper-evidence hash chains and return the report. Use this to answer '' @
     [CHR 0x27] @
     ''has the audit log been altered?'. A report with ok:false lists the first detected break (a '' @
     ''record edited in place or a segment removed/swapped); ok:true means every chain checked out.''"

definition json_text :: "string \<Rightarrow> string \<Rightarrow> string \<times> jval" where
  "json_text k s = (k, JvString s)"

definition described :: "string \<Rightarrow> string \<Rightarrow> string \<times> jval" where
  "described name desc = (name, JvObject [json_text ''description'' desc, json_text ''type'' ''string''])"

text \<open>The input schema of a tool; a tool without required fields has no such entry.\<close>

definition input_schema :: "(string \<times> jval) list \<Rightarrow> string list \<Rightarrow> jval" where
  "input_schema props required =
     JvObject ([(''additionalProperties'', JvBool False), (''properties'', JvObject props)] @
       (if required = [] then [] else [(''required'', JvArray (map JvString required))]) @ [json_text ''type'' ''object''])"

definition tool_def :: "string \<Rightarrow> string \<Rightarrow> jval \<Rightarrow> jval" where
  "tool_def name desc schema = JvObject [json_text ''description'' desc, (''inputSchema'', schema), json_text ''name'' name]"

definition tool_defs :: jval where
  "tool_defs = JvArray
     [tool_def QUERY_LOGS QUERY_DESC
        (input_schema [(''query'', JvObject [(''additionalProperties'', JvBool True),
           json_text ''description'' QUERY_FIELDS_DESC, json_text ''type'' ''object''])] [''query'']),
      tool_def GET_ENTITY_HISTORY HISTORY_DESC
        (input_schema [described ''entity_id'' ID_DESC, described ''entity_type'' TYPE_DESC]
           [''entity_type'', ''entity_id'']),
      tool_def VERIFY_STORE_INTEGRITY VERIFY_DESC (input_schema [] [])]"

text \<open>The call behind a tool, or the complaint about its arguments.\<close>

definition tool_request :: "string \<Rightarrow> jval \<Rightarrow> string + mcp_call" where
  "tool_request name arguments =
     (if name = QUERY_LOGS then
        Inr (CallQuery (case jget ''query'' arguments of Some q \<Rightarrow> q | None \<Rightarrow> JvObject []))
      else if name = GET_ENTITY_HISTORY then
        (case (get_str ''entity_type'' arguments, get_str ''entity_id'' arguments) of
           (Some t, Some i) \<Rightarrow> Inr (CallHistory t i)
         | _ \<Rightarrow> Inl (''get_entity_history requires string 'entity_type' and '' @ [CHR 0x27] @ ''entity_id'' @ [CHR 0x27]))
      else if name = VERIFY_STORE_INTEGRITY then Inr CallVerify
      else Inl (''unknown tool '' @ [CHR 0x27] @ name @ [CHR 0x27]))"

definition text_content :: "string \<Rightarrow> string \<times> jval" where
  "text_content t = (''content'', JvArray [JvObject [json_text ''text'' t, json_text ''type'' ''text'']])"

definition ok_result :: "mcp_json \<Rightarrow> jval \<Rightarrow> jval" where
  "ok_result M v = JvObject [text_content (mj_pretty M v)]"

definition error_result :: "string \<Rightarrow> jval" where
  "error_result m = JvObject [text_content m, (''isError'', JvBool True)]"

definition RETRY_HINT :: string where
  "RETRY_HINT = '' (transient '' @ DASH @ '' the audit server may be unreachable or busy; retrying may help)''"

definition tool_call :: "mcp_json \<Rightarrow> 's mcp_backend \<Rightarrow> string \<Rightarrow> jval \<Rightarrow> 's \<Rightarrow> jval \<times> 's" where
  "tool_call M be name arguments s =
     (case tool_request name arguments of
        Inl msg \<Rightarrow> (error_result msg, s)
      | Inr call \<Rightarrow>
          (case be call s of
             (Inr v, s') \<Rightarrow> (ok_result M v, s')
           | (Inl e, s') \<Rightarrow> (error_result (be_message e @ (if be_retryable e then RETRY_HINT else [])), s')))"

section \<open>The JSON-RPC server\<close>

definition PROTOCOL_VERSION :: string where "PROTOCOL_VERSION = ''2024-11-05''"

definition PARSE_ERROR :: string where "PARSE_ERROR = ''-32700''"
definition INVALID_REQUEST :: string where "INVALID_REQUEST = ''-32600''"
definition METHOD_NOT_FOUND :: string where "METHOD_NOT_FOUND = ''-32601''"
definition INVALID_PARAMS :: string where "INVALID_PARAMS = ''-32602''"

definition ok_response :: "mcp_json \<Rightarrow> jval \<Rightarrow> jval \<Rightarrow> string" where
  "ok_response M i result = mj_print M (JvObject [(''id'', i), json_text ''jsonrpc'' ''2.0'', (''result'', result)])"

definition error_response :: "mcp_json \<Rightarrow> jval \<Rightarrow> string \<Rightarrow> string \<Rightarrow> string" where
  "error_response M i code message =
     mj_print M (JvObject [(''error'', JvObject [(''code'', JvNumber code), json_text ''message'' message]), (''id'', i),
       json_text ''jsonrpc'' ''2.0''])"

text \<open>\<open>trim\<close>, white space being that of Unicode.\<close>

function trim_start :: "string \<Rightarrow> string" where
  "trim_start [] = []"
| "trim_start (c # cs) =
     (if white_len (c # cs) = 0 then c # cs else trim_start (drop (white_len (c # cs) - 1) cs))"
  by pat_completeness auto
termination by (relation "measure length") auto

definition white_end :: "string \<Rightarrow> nat" where
  "white_end s = (case find (\<lambda>p. suffix p s) white_seqs of None \<Rightarrow> 0 | Some p \<Rightarrow> length p)"

function trim_end :: "string \<Rightarrow> string" where
  "trim_end s = (if s = [] \<or> white_end s = 0 then s else trim_end (take (length s - white_end s) s))"
  by pat_completeness auto
termination by (relation "measure length") auto

declare trim_end.simps [simp del]

definition trim_text :: "string \<Rightarrow> string" where
  "trim_text s = trim_end (trim_start s)"

definition initialize_result :: jval where
  "initialize_result = JvObject [(''capabilities'', JvObject [(''tools'', JvObject [])]),
     json_text ''protocolVersion'' PROTOCOL_VERSION,
     (''serverInfo'', JvObject [json_text ''name'' ''quipu-mcp'', json_text ''version'' ''0.1.0''])]"

definition dispatch :: "mcp_json \<Rightarrow> 's mcp_backend \<Rightarrow> string \<Rightarrow> jval \<Rightarrow> 's \<Rightarrow> ((string \<times> string) + jval) \<times> 's" where
  "dispatch M be meth params s =
     (if meth = ''initialize'' then (Inr initialize_result, s)
      else if meth = ''notifications/initialized'' \<or> meth = ''notifications/cancelled'' then (Inr JvNull, s)
      else if meth = ''ping'' then (Inr (JvObject []), s)
      else if meth = ''tools/list'' then (Inr (JvObject [(''tools'', tool_defs)]), s)
      else if meth = ''tools/call'' then
        (case get_str ''name'' params of
           None \<Rightarrow> (Inl (INVALID_PARAMS, ''tools/call requires '' @ [CHR 0x27] @ ''name'' @ [CHR 0x27]), s)
         | Some name \<Rightarrow>
             let arguments = (case jget ''arguments'' params of Some a \<Rightarrow> a | None \<Rightarrow> JvObject [])
             in (case tool_call M be name arguments s of (r, s') \<Rightarrow> (Inr r, s')))
      else (Inl (METHOD_NOT_FOUND, ''unknown method '' @ [CHR 0x27] @ meth @ [CHR 0x27]), s))"

definition handle_line :: "mcp_json \<Rightarrow> 's mcp_backend \<Rightarrow> string \<Rightarrow> 's \<Rightarrow> string option \<times> 's" where
  "handle_line M be line s =
     (let line = trim_text line
      in if line = [] then (None, s)
         else case mj_parse M (as_bytes line) of
                None \<Rightarrow> (Some (error_response M JvNull PARSE_ERROR ''parse error''), s)
              | Some msg \<Rightarrow>
                  (case get_str ''method'' msg of
                     None \<Rightarrow> (map_option (\<lambda>i. error_response M i INVALID_REQUEST ''missing method'') (jget ''id'' msg), s)
                   | Some meth \<Rightarrow>
                       let params = (case jget ''params'' msg of Some p \<Rightarrow> p | None \<Rightarrow> JvNull)
                       in (case dispatch M be meth params s of
                             (outcome, s') \<Rightarrow>
                               (case (jget ''id'' msg, outcome) of
                                  (None, _) \<Rightarrow> (None, s')
                                | (Some i, Inr result) \<Rightarrow> (Some (ok_response M i result), s')
                                | (Some i, Inl (code, message)) \<Rightarrow> (Some (error_response M i code message), s')))))"

text \<open>
  The loop. A line is what reading it yields; every write and flush uses up one entry of the fault
  schedule, a write that fails has put out the first \<open>n\<close> bytes.
\<close>

record stdio =
  so_faults :: "fault list"
  so_out :: string

definition put_out :: "string \<Rightarrow> stdio \<Rightarrow> io_error option \<times> stdio" where
  "put_out t o' =
     (case so_faults o' of
        [] \<Rightarrow> (None, o'\<lparr>so_out := so_out o' @ t\<rparr>)
      | Pass # fs \<Rightarrow> (None, o'\<lparr>so_out := so_out o' @ t, so_faults := fs\<rparr>)
      | Fault e n # fs \<Rightarrow> (Some e, o'\<lparr>so_out := so_out o' @ take n t, so_faults := fs\<rparr>))"

definition put_reply :: "string \<Rightarrow> stdio \<Rightarrow> io_error option \<times> stdio" where
  "put_reply t o' =
     (case put_out t o' of
        (Some e, o1) \<Rightarrow> (Some e, o1)
      | (None, o1) \<Rightarrow>
          (case put_out NL o1 of
             (Some e, o2) \<Rightarrow> (Some e, o2)
           | (None, o2) \<Rightarrow> put_out [] o2))"

fun run_stdio ::
  "mcp_json \<Rightarrow> 's mcp_backend \<Rightarrow> (io_error + string) list \<Rightarrow> 's \<Rightarrow> stdio \<Rightarrow> (io_error + unit) \<times> 's \<times> stdio" where
  "run_stdio M be [] s o' = (Inr (), s, o')"
| "run_stdio M be (Inl e # _) s o' = (Inl e, s, o')"
| "run_stdio M be (Inr line # lines) s o' =
     (case handle_line M be line s of
        (None, s1) \<Rightarrow> run_stdio M be lines s1 o'
      | (Some response, s1) \<Rightarrow>
          (case put_reply response o' of
             (Some e, o1) \<Rightarrow> (Inl e, s1, o1)
           | (None, o1) \<Rightarrow> run_stdio M be lines s1 o1))"

section \<open>Reading back what was written\<close>

fun cut :: "char \<Rightarrow> string \<Rightarrow> string list" where
  "cut d [] = [[]]"
| "cut d (c # cs) = (if c = d then [] # cut d cs else (case cut d cs of [] \<Rightarrow> [[c]] | x # xs \<Rightarrow> (c # x) # xs))"

lemma cut_plain: "d \<notin> set a \<Longrightarrow> cut d a = [a]"
  by (induction a) auto

lemma cut_append: "d \<notin> set a \<Longrightarrow> cut d (a @ d # b) = a # cut d b"
  by (induction a) auto

text \<open>What a server reads of a request: the method and the segments of the path, decoded.\<close>

definition upper_val :: "char \<Rightarrow> nat" where
  "upper_val c = (let n = of_char c in if n \<le> 57 then n - 48 else n - 55)"

fun percent_decode :: "string \<Rightarrow> string" where
  "percent_decode [] = []"
| "percent_decode (c # cs) =
     (if c = CHR ''%'' then
        (case cs of a # b # rest \<Rightarrow> char_of (16 * upper_val a + upper_val b) # percent_decode rest | _ \<Rightarrow> c # percent_decode cs)
      else c # percent_decode cs)"

definition read_request :: "string \<Rightarrow> string \<times> string list" where
  "read_request r =
     (let fields = cut (CHR '' '') (hd (cut (CHR 0x0D) r))
      in (hd fields, map percent_decode (cut (CHR ''/'') (fields ! 1))))"

fun call_text :: "mcp_json \<Rightarrow> http_backend \<Rightarrow> mcp_call \<Rightarrow> string" where
  "call_text M b (CallQuery q) = request_text b ''POST'' ''/v1/logs/query'' (Some (mj_print M q))"
| "call_text M b (CallHistory t i) = request_text b ''GET'' (history_path t i) None"
| "call_text M b CallVerify = request_text b ''POST'' ''/v1/admin/verify'' None"

text \<open>The three operations of the interface, as method and path.\<close>

fun call_target :: "mcp_call \<Rightarrow> string \<times> string list" where
  "call_target (CallQuery q) = (''POST'', [[], ''v1'', ''logs'', ''query''])"
| "call_target (CallHistory t i) = (''GET'', [[], ''v1'', ''entities'', t, i, ''history''])"
| "call_target CallVerify = (''POST'', [[], ''v1'', ''admin'', ''verify''])"

definition path_char :: "char \<Rightarrow> bool" where
  "path_char c \<longleftrightarrow> c \<noteq> CHR '' '' \<and> c \<noteq> CHR 0x0D \<and> c \<noteq> CHR ''/''"

lemma path_char_range: "(of_char c :: nat) \<notin> {32, 13, 47} \<Longrightarrow> path_char c"
  by (auto simp: path_char_def)

lemma path_char_upper_hex: "d < 16 \<Longrightarrow> path_char (upper_hex d)"
  by (rule path_char_range) (auto simp: upper_hex_def of_char_of)

lemma path_char_unreserved: "unreserved c \<Longrightarrow> path_char c"
  by (auto simp: unreserved_def path_char_def Let_def)

lemma byte_nibbles: "(of_char c :: nat) div 16 < 16" "(of_char c :: nat) mod 16 < 16"
proof -
  have "(of_char c :: nat) < 256" using mod_less_divisor [of 256 "of_char c :: nat"] by (simp add: of_char_mod_256 del: mod_less_divisor)
  then show "(of_char c :: nat) div 16 < 16" by (simp add: less_mult_imp_div_less)
qed simp

lemma encode_char_plain: "x \<in> set (encode_char c) \<Longrightarrow> path_char x"
  using byte_nibbles [of c] path_char_upper_hex path_char_unreserved
  by (auto simp: encode_char_def path_char_def split: if_splits)

lemma encode_segment_plain: "x \<in> set (encode_segment s) \<Longrightarrow> path_char x"
  by (auto simp: encode_segment_def dest: encode_char_plain)

lemma upper_val_hex: "d < 16 \<Longrightarrow> upper_val (upper_hex d) = d"
  by (auto simp: upper_val_def upper_hex_def of_char_of Let_def)

lemma percent_decode_char: "percent_decode (encode_char c @ s) = c # percent_decode s"
proof (cases "unreserved c")
  case True
  then have "c \<noteq> CHR ''%''" by (auto simp: unreserved_def Let_def)
  then show ?thesis using True by (simp add: encode_char_def)
next
  case False
  have "16 * ((of_char c :: nat) div 16) + of_char c mod 16 = of_char c" by simp
  then show ?thesis using False by (simp add: encode_char_def upper_val_hex byte_nibbles del: mult_div_mod_eq)
qed

lemma percent_decode_segment: "percent_decode (encode_segment s) = s"
  by (induction s) (simp_all add: encode_segment_def percent_decode_char)

lemma read_request_text:
  assumes "CHR '' '' \<notin> set meth" "CHR 0x0D \<notin> set meth" "CHR '' '' \<notin> set path" "CHR 0x0D \<notin> set path"
  shows "read_request (request_text b meth path body) = (meth, map percent_decode (cut (CHR ''/'') path))"
proof -
  have "\<exists>rest. request_text b meth path body = (meth @ CHR '' '' # path @ CHR '' '' # ''HTTP/1.1'') @ CHR 0x0D # rest"
    unfolding request_text_def CRLF_def by (simp only: append_assoc append_Cons append_Nil) blast
  then obtain rest where r: "request_text b meth path body = (meth @ CHR '' '' # path @ CHR '' '' # ''HTTP/1.1'') @ CHR 0x0D # rest"
    by blast
  have "hd (cut (CHR 0x0D) (request_text b meth path body)) = meth @ CHR '' '' # path @ CHR '' '' # ''HTTP/1.1''"
    unfolding r by (subst cut_append) (use assms in auto)
  moreover have "cut (CHR '' '') (meth @ CHR '' '' # path @ CHR '' '' # ''HTTP/1.1'') = [meth, path, ''HTTP/1.1'']"
    using assms by (simp add: cut_append)
  ultimately show ?thesis by (simp add: read_request_def Let_def)
qed

lemma cut_history:
  "map percent_decode (cut (CHR ''/'') (history_path t i)) = [[], ''v1'', ''entities'', t, i, ''history'']"
proof -
  have n: "CHR ''/'' \<notin> set (encode_segment x)" for x using encode_segment_plain [of "CHR ''/''" x] by (auto simp: path_char_def)
  have "history_path t i = [] @ CHR ''/'' # ''v1'' @ CHR ''/'' # ''entities'' @ CHR ''/'' # encode_segment t @ CHR ''/'' #
      encode_segment i @ CHR ''/'' # ''history''"
    by (simp add: history_path_def)
  then show ?thesis using n by (simp only: cut_append) (simp add: cut_append cut_plain percent_decode_segment)
qed

lemma read_call: "read_request (call_text M b c) = call_target c"
proof (cases c)
  case (CallHistory t i)
  have "CHR '' '' \<notin> set (history_path t i)" "CHR 0x0D \<notin> set (history_path t i)"
    using encode_segment_plain [of "CHR '' ''"] encode_segment_plain [of "CHR 0x0D"]
    by (auto simp: history_path_def path_char_def)
  then show ?thesis using CallHistory by (simp add: read_request_text cut_history)
qed (simp_all add: read_request_text)

lemma http_call_sends: "snd (http_call M net b c sent) = sent @ [call_text M b c]"
  by (cases c) (simp_all add: backend_request_def Let_def)

section \<open>The agent only reads\<close>

text \<open>
  The interface between the JSON-RPC server and its backend: a backend that leaves one note per call.
  The server adds the notes of the calls it makes, and nothing else reaches what is behind the backend.
\<close>

locale logged_backend =
  fixes note_of :: "mcp_call \<Rightarrow> 'r" and be :: "'r list mcp_backend"
  assumes logs: "snd (be c s) = s @ [note_of c]"
begin

lemma tool_call_notes: "\<exists>calls. snd (tool_call M be name args s) = s @ map note_of calls"
proof (cases "tool_request name args")
  case (Inr c)
  have "snd (be c s) = s @ map note_of [c]" by (simp add: logs)
  then show ?thesis using Inr by (auto simp: tool_call_def split: prod.splits sum.splits intro: exI [of _ "[c]"])
qed (auto simp: tool_call_def)

lemma dispatch_notes: "\<exists>calls. snd (dispatch M be meth params s) = s @ map note_of calls"
  using tool_call_notes by (auto simp: dispatch_def Let_def split: prod.splits option.splits) (metis sndI)+

lemma handle_line_notes: "\<exists>calls. snd (handle_line M be line s) = s @ map note_of calls"
  using dispatch_notes by (auto simp: handle_line_def Let_def split: prod.splits option.splits sum.splits) (metis sndI)+

lemma run_stdio_notes: "\<exists>calls. fst (snd (run_stdio M be lines s o')) = s @ map note_of calls"
proof (induction lines arbitrary: s o')
  case (Cons l lines)
  show ?case
  proof (cases l)
    case (Inr line)
    obtain r s1 where h: "handle_line M be line s = (r, s1)" by force
    obtain cs where c: "s1 = s @ map note_of cs" using handle_line_notes [of M line s] h by auto
    have "\<exists>calls. fst (snd (run_stdio M be lines s1 o1)) = s @ map note_of calls" for o1
    proof -
      obtain ds where "fst (snd (run_stdio M be lines s1 o1)) = s1 @ map note_of ds" using Cons.IH by blast
      then have "fst (snd (run_stdio M be lines s1 o1)) = s @ map note_of (cs @ ds)" using c by simp
      then show ?thesis by blast
    qed
    then show ?thesis using Inr h c by (auto split: option.splits prod.splits)
  qed auto
qed auto

end

interpretation agent_http: logged_backend "call_text M b" "http_call M net b" for M b net
  by unfold_locales (rule http_call_sends)

section \<open>The conversation\<close>

definition needs_reply :: "mcp_json \<Rightarrow> string \<Rightarrow> bool" where
  "needs_reply M line \<longleftrightarrow> trim_text line \<noteq> [] \<and>
     (case mj_parse M (as_bytes (trim_text line)) of None \<Rightarrow> True | Some msg \<Rightarrow> jget ''id'' msg \<noteq> None)"

text \<open>A reply to a line: the parse error, or a result or an error under the line's id.\<close>

definition replies_to :: "mcp_json \<Rightarrow> string \<Rightarrow> string \<Rightarrow> bool" where
  "replies_to M line reply \<longleftrightarrow>
     (case mj_parse M (as_bytes (trim_text line)) of
        None \<Rightarrow> reply = error_response M JvNull PARSE_ERROR ''parse error''
      | Some msg \<Rightarrow> \<exists>i. jget ''id'' msg = Some i \<and>
          ((\<exists>result. reply = ok_response M i result) \<or> (\<exists>code message. reply = error_response M i code message)))"

lemma handle_line_reply:
  "case fst (handle_line M be line s) of None \<Rightarrow> \<not> needs_reply M line | Some r \<Rightarrow> needs_reply M line \<and> replies_to M line r"
  by (auto simp: handle_line_def needs_reply_def replies_to_def Let_def split: prod.splits option.splits sum.splits)

lemma put_reply_quiet: "so_faults o' = [] \<Longrightarrow> put_reply r o' = (None, o'\<lparr>so_out := so_out o' @ r @ NL\<rparr>)"
  by (simp add: put_reply_def put_out_def)

definition reply_text :: "string list \<Rightarrow> string" where
  "reply_text rs = concat (map (\<lambda>r. r @ NL) rs)"

lemma run_stdio_replies:
  assumes "so_faults o' = []"
  shows "\<exists>replies s'. run_stdio M be (map Inr lines) s o' = (Inr (), s', o'\<lparr>so_out := so_out o' @ reply_text replies\<rparr>) \<and>
    list_all2 (replies_to M) (filter (needs_reply M) lines) replies"
  using assms
proof (induction lines arbitrary: s o')
  case Nil
  then show ?case by (simp add: reply_text_def)
next
  case (Cons line lines)
  obtain r s1 where h: "handle_line M be line s = (r, s1)" by force
  note R = handle_line_reply [where M = M and be = be and line = line and s = s, unfolded h, simplified]
  show ?case
  proof (cases r)
    case None
    then show ?thesis using Cons h R by simp
  next
    case (Some t)
    let ?o = "o'\<lparr>so_out := so_out o' @ t @ NL\<rparr>"
    obtain replies s' where i: "run_stdio M be (map Inr lines) s1 ?o = (Inr (), s', ?o\<lparr>so_out := so_out ?o @ reply_text replies\<rparr>)"
        "list_all2 (replies_to M) (filter (needs_reply M) lines) replies"
      using Cons.IH [of ?o s1] Cons.prems by auto
    have "run_stdio M be (map Inr (line # lines)) s o' =
        (Inr (), s', o'\<lparr>so_out := so_out o' @ reply_text (t # replies)\<rparr>)"
      using Some h i(1) put_reply_quiet [OF Cons.prems, of t] by (simp add: reply_text_def)
    moreover have "list_all2 (replies_to M) (filter (needs_reply M) (line # lines)) (t # replies)" using Some R i(2) by simp
    ultimately show ?thesis by blast
  qed
qed

lemma cut_replies:
  assumes "\<And>r. r \<in> set replies \<Longrightarrow> CHR 0x0A \<notin> set r"
  shows "cut (CHR 0x0A) (reply_text replies) = replies @ [[]]"
  using assms by (induction replies) (simp_all add: reply_text_def NL_def cut_append)

section \<open>An issued token at the server\<close>

text \<open>The value of the config entry, as the server's configuration holds it.\<close>

definition issued_spec :: "issued_token \<Rightarrow> token_spec" where
  "issued_spec t = (case it_expires t of None \<Rightarrow> TokenRole (it_role t) | Some e \<Rightarrow> TokenDetailed (it_role t) (Some e))"

lemma issued_spec_entry [simp]:
  "token_spec_entry (issued_spec t) = \<lparr>te_role = it_role t, te_expires = it_expires t\<rparr>"
  by (auto simp: issued_spec_def token_spec_entry_def split: option.splits)

lemma hex_char_lower: "d < 16 \<Longrightarrow> is_hexdigit (hex_char d) \<and> lower_char (hex_char d) = hex_char d"
  by (auto simp: is_hexdigit_def lower_char_def hex_char_def of_char_of)

lemma hex_digits_lower: "x \<in> set (hex_digits k n) \<Longrightarrow> is_hexdigit x \<and> lower_char x = x"
  by (induction k arbitrary: n) (auto simp: hex_char_lower)

lemma hex_lower: "x \<in> set (hex bs) \<Longrightarrow> is_hexdigit x \<and> lower_char x = x"
  using hex_digits_lower by (auto simp: hex_def)

lemma length_hex: "length (hex bs) = 2 * length bs"
  by (induction bs) (simp_all add: hex_def)

lemma issued_key_hash:
  assumes "length (cx_sha256 K (as_bytes (hex bs))) = 32"
  shows "token_key_hash K (it_hashed_key (issue K bs r e)) = Inr (token_sha256_hex K (it_token (issue K bs r e)))"
proof -
  let ?d = "sha256_hex K (as_bytes (hex bs))"
  have "strip_prefix HASH_PREFIX (it_hashed_key (issue K bs r e)) = Some ?d"
    unfolding issue_def HASH_PREFIX_def Let_def issued_token.simps by (rule strip_prefix_append)
  moreover have "map lower_char ?d = ?d" by (rule map_idI) (simp add: sha256_hex_def hex_lower)
  moreover have "length ?d = 64" using assms by (simp add: sha256_hex_def length_hex)
  moreover have "list_all is_hexdigit ?d" by (simp add: list_all_iff sha256_hex_def hex_lower)
  ultimately show ?thesis by (simp add: token_key_hash_def token_sha256_hex_def issue_def Let_def)
qed

text \<open>
  C39: A token that the issuer mints opens the server: once its key and its value are in the auth
  section of a configuration the server accepts, a request that carries the token is admitted to
  exactly the actions granted to the token's role, under that role, until the token expires.
\<close>

theorem issued_token_is_accepted:
  assumes "K = se_crypto (pe_store (sv_pipe S))" and t: "t = issue K bs r expires"
    and len: "length (cx_sha256 K (as_bytes (it_token t))) = 32"
    and s: "auth_state_of K s = Inr (ap_auth app)" and listed: "(it_hashed_key t, issued_spec t) \<in> set (au_tokens s)"
    and hdr: "header_str (sv_http S) hs ''authorization'' = Some (''Bearer '' @ it_token t)"
  shows "authorize S now hs a app =
    (if (case expires of Some e \<Rightarrow> e \<le> now | None \<Rightarrow> False) then Inl unauthorized
     else if \<exists>specs. (r, specs) \<in> set (au_grants s) \<and> a \<in> action_of_spec ` set specs
       then Inr \<lparr>ca_role = r, ca_token_hash = token_sha256_hex K (it_token t)\<rparr>
     else Inl (api_error_of (PermissionDenied r a)))"
proof -
  obtain m where m: "token_map_of K s = Inr m" "ap_auth app = \<lparr>as_tokens = m, as_policy = permission_policy_of s,
      as_max_concurrent_queries = au_max_concurrent_queries s\<rparr>"
    using s by (auto simp: auth_state_of_def rbind_Inr_iff)
  then have "keys_good K (au_tokens s)" using token_map_from_only_good by (auto simp: token_map_of_def)
  from token_map_of_good [OF this] m(1) have mm: "map_of m h = Some e \<longleftrightarrow> (\<exists>key spec. (key, spec) \<in> set (au_tokens s) \<and>
      token_key_hash K key = Inr h \<and> e = token_spec_entry spec)" for h e by auto
  have "token_key_hash K (it_hashed_key t) = Inr (token_sha256_hex K (it_token t))"
    using len issued_key_hash unfolding t by (simp add: issue_def Let_def)
  with mm listed have "map_of m (token_sha256_hex K (it_token t)) = Some (token_spec_entry (issued_spec t))" by blast
  then have e: "map_of m (token_sha256_hex K (it_token t)) = Some \<lparr>te_role = r, te_expires = expires\<rparr>"
    by (simp add: t issue_def Let_def)
  have "strip_prefix ''Bearer '' (''Bearer '' @ it_token t) = Some (it_token t)" by (rule strip_prefix_append)
  then have "role_for (sv_http S) K hs m now = (if (case expires of Some x \<Rightarrow> x \<le> now | None \<Rightarrow> False) then None
      else Some (r, token_sha256_hex K (it_token t)))"
    using e hdr by (simp add: role_for_def Let_def del: append_Cons append.simps)
  then show ?thesis using m(2) assms(1) by (auto simp: authorize_def policy_of_grants)
qed

text \<open>
  C40: Whatever an agent sends on the standard input, the process asks the server for nothing but
  queries, entity histories and verifications: every request it adds is the text of one of the three
  calls, and a server that takes the request line apart and decodes the path reads that call's
  method and path, with the names the agent gave as single path segments, whatever characters they hold.
\<close>

theorem agent_only_reads:
  "\<exists>calls. fst (snd (run_stdio M (http_call M net b) lines sent o')) = sent @ map (call_text M b) calls \<and>
     map read_request (map (call_text M b) calls) = map call_target calls"
proof -
  obtain calls where "fst (snd (run_stdio M (http_call M net b) lines sent o')) = sent @ map (call_text M b) calls"
    using agent_http.run_stdio_notes by blast
  moreover have "map read_request (map (call_text M b) calls) = map call_target calls" by (simp add: read_call)
  ultimately show ?thesis by blast
qed

text \<open>
  The conversation on standard input and output, when no write fails: the output is one line per
  request that has an id or cannot be parsed, in their order, each answering its request under its id;
  notifications and blank lines get no reply. The printer of JSON puts no line break into a text.
\<close>

theorem stdio_conversation:
  assumes nl: "\<And>v. CHR 0x0A \<notin> set (mj_print M v)"
  shows "\<exists>replies s'. run_stdio M be (map Inr lines) s \<lparr>so_faults = [], so_out = []\<rparr> =
      (Inr (), s', \<lparr>so_faults = [], so_out = reply_text replies\<rparr>) \<and>
    cut (CHR 0x0A) (reply_text replies) = replies @ [[]] \<and>
    list_all2 (replies_to M) (filter (needs_reply M) lines) replies"
proof -
  obtain replies s' where r: "run_stdio M be (map Inr lines) s \<lparr>so_faults = [], so_out = []\<rparr> =
      (Inr (), s', \<lparr>so_faults = [], so_out = reply_text replies\<rparr>)"
      "list_all2 (replies_to M) (filter (needs_reply M) lines) replies"
    using run_stdio_replies [of "\<lparr>so_faults = [], so_out = []\<rparr>" M be lines s] by auto
  have "CHR 0x0A \<notin> set r" if "replies_to M line r" for line r
    using that nl by (auto simp: replies_to_def ok_response_def error_response_def split: option.splits)
  then have "CHR 0x0A \<notin> set r" if "r \<in> set replies" for r
    using that r(2) by (auto simp: list_all2_conv_all_nth in_set_conv_nth)
  from r cut_replies [OF this] show ?thesis by blast
qed

section \<open>Witnesses\<close>

definition agent_crypto :: cryptoext where
  "agent_crypto = demo_crypto\<lparr>cx_sha256 := (\<lambda>b. replicate 31 7 @ [hd (b @ [0])])\<rparr>"

definition agent_server :: server where
  "agent_server = web_server\<lparr>sv_pipe := demo_penv\<lparr>pe_store := demo_senv\<lparr>se_crypto := agent_crypto\<rparr>\<rparr>\<rparr>"

lemma issued_token_is_accepted_witness:
  "\<exists>auth. auth_state_of agent_crypto \<lparr>au_tokens = [(it_hashed_key (issue agent_crypto [1] ''auditor'' (Some 9)),
        TokenDetailed ''auditor'' (Some 9))], au_grants = [(''auditor'', [SpecQuery])],
        au_max_concurrent_queries = None\<rparr> = Inr auth \<and>
     authorize agent_server 8 [(''authorization'', as_bytes (''Bearer '' @ hex [1]))] AQuery (web_app\<lparr>ap_auth := auth\<rparr>) =
       Inr \<lparr>ca_role = ''auditor'', ca_token_hash = token_sha256_hex agent_crypto (hex [1])\<rparr>"
proof -
  let ?t = "issue agent_crypto [1] ''auditor'' (Some 9)"
  let ?s = "\<lparr>au_tokens = [(it_hashed_key ?t, TokenDetailed ''auditor'' (Some 9))], au_grants = [(''auditor'', [SpecQuery])],
        au_max_concurrent_queries = None\<rparr>"
  have len: "length (cx_sha256 agent_crypto x) = 32" for x by (simp add: agent_crypto_def)
  have tok: "it_token ?t = hex [1]" by (simp add: issue_def Let_def)
  have "token_key_hash agent_crypto (it_hashed_key ?t) = Inr (token_sha256_hex agent_crypto (it_token ?t))"
    by (rule issued_key_hash [OF len])
  then obtain auth where a: "auth_state_of agent_crypto ?s = Inr auth"
    by (simp add: auth_state_of_def token_map_of_def token_insert_def)
  have h: "header_str (sv_http agent_server) [(''authorization'', as_bytes (''Bearer '' @ hex [1]))] ''authorization'' =
      Some (''Bearer '' @ it_token ?t)"
    by (simp add: header_str_def agent_server_def web_server_def web_http_def tok del: append_Cons)
  have "authorize agent_server 8 [(''authorization'', as_bytes (''Bearer '' @ hex [1]))] AQuery (web_app\<lparr>ap_auth := auth\<rparr>) =
      Inr \<lparr>ca_role = ''auditor'', ca_token_hash = token_sha256_hex agent_crypto (it_token ?t)\<rparr>"
    using issued_token_is_accepted [of agent_crypto agent_server ?t "[1]" "''auditor''" "Some 9" ?s "web_app\<lparr>ap_auth := auth\<rparr>"
        "[(''authorization'', as_bytes (''Bearer '' @ hex [1]))]" 8 AQuery] a len h
    by (simp add: agent_server_def issued_spec_def issue_def Let_def del: append_Cons)
  with a tok show ?thesis by auto
qed

definition agent_json :: mcp_json where
  "agent_json = \<lparr>mj_parse = (\<lambda>b. if b = as_bytes ''p'' then Some (JvObject [(''id'', JvNumber ''1''), (''method'', JvString ''ping'')])
       else if b = as_bytes ''n'' then Some (JvObject [(''method'', JvString ''ping'')]) else None),
     mj_print = (\<lambda>v. if jget ''result'' v = None then ''e'' else ''r''), mj_pretty = (\<lambda>_. ''v'')\<rparr>"

lemma white_one:
  assumes "(of_char c :: nat) \<notin> {9, 10, 11, 12, 13, 32}"
  shows "white_len [c] = 0 \<and> white_end [c] = 0"
proof -
  have "p = [] \<or> p = [c] \<Longrightarrow> p \<notin> set white_seqs" for p
    using assms by (auto simp: white_seqs_def of_char_of)
  then have "find (\<lambda>p. prefix p [c]) white_seqs = None" "find (\<lambda>p. suffix p [c]) white_seqs = None"
    by (auto simp: find_None_iff prefix_Cons suffix_Cons)
  then show ?thesis by (simp add: white_len_def white_end_def)
qed

lemma trim_one: "(of_char c :: nat) \<notin> {9, 10, 11, 12, 13, 32} \<Longrightarrow> trim_text [c] = [c]"
  using white_one [of c] by (simp add: trim_text_def trim_end.simps)

lemma stdio_conversation_witness:
  "\<forall>net b. \<exists>sent a. run_stdio agent_json (http_call agent_json net b) (map Inr [''p'', ''n'', ''x'']) []
     \<lparr>so_faults = [], so_out = []\<rparr> = (Inr (), sent, \<lparr>so_faults = [], so_out = reply_text [a, ''e'']\<rparr>)"
proof (intro allI)
  fix net :: mcp_wire and b :: http_backend
  have needs: "filter (needs_reply agent_json) [''p'', ''n'', ''x''] = [''p'', ''x'']"
    by (simp add: needs_reply_def trim_one agent_json_def)
  have ans: "replies_to agent_json ''x'' r \<Longrightarrow> r = ''e''" for r
    by (simp add: replies_to_def trim_one agent_json_def error_response_def json_text_def)
  have nl: "CHR 0x0A \<notin> set (mj_print agent_json v)" for v by (simp add: agent_json_def)
  obtain replies s' where r: "run_stdio agent_json (http_call agent_json net b) (map Inr [''p'', ''n'', ''x'']) []
      \<lparr>so_faults = [], so_out = []\<rparr> = (Inr (), s', \<lparr>so_faults = [], so_out = reply_text replies\<rparr>)"
      "list_all2 (replies_to agent_json) [''p'', ''x''] replies"
    using stdio_conversation [of agent_json "http_call agent_json net b" "[''p'', ''n'', ''x'']" "[]", unfolded needs, OF nl] by blast
  then obtain a where "replies = [a, ''e'']" using ans by (auto simp: list_all2_Cons1)
  with r(1) show "\<exists>sent a. run_stdio agent_json (http_call agent_json net b) (map Inr [''p'', ''n'', ''x'']) []
     \<lparr>so_faults = [], so_out = []\<rparr> = (Inr (), sent, \<lparr>so_faults = [], so_out = reply_text [a, ''e'']\<rparr>)" by auto
qed

end
