(* ===== verification/Spec2Isabelle.thy ===== *)
theory Spec2Isabelle
  imports Segment_Props Table_Props Audit_Props Store_Props Pipeline_Props Pipeline_Handle Layer_Props Client_Props Server_Overlap Server_Sink Server_Config Mcp
begin

text \<open>
  A verification library of Quipu-Log, an append-only, tamper-evident audit store, and of the programs
  around it. Sources are named below \<open>src/crates/\<close>.

  \<^bold>\<open>The program.\<close> The store (\<open>quipu-core\<close>) keeps its rows in tables: directories of rolling segment files
  whose frames carry a CRC and a SHA-256 chain value. On top of the tables are the registries of
  entities (versioned, with protected field values and blind-index tokens), the log and relation
  tables, the meta table, the access log, signed checkpoints and the retention limits. One writer
  thread (\<open>quipu-middleware\<close>) owns the store; handles send it events through a bounded channel, it retries,
  and it parks what it cannot write in a dead-letter queue, which is itself a table. An HTTP proxy
  layer produces events from exchanges. The daemon (\<open>quipu-server\<close>) puts tokens, grants, idempotency keys,
  query slots and a verification guard in front of the handle; the client (\<open>quipu-client\<close>) retries and
  spools to disk; the agent's process (\<open>quipu-mcp\<close>) mints tokens and asks the server on behalf of an agent.

  \<^bold>\<open>Theories, bottom up.\<close> Within each the definitions stand in the order of the code.
  \<^item> \<open>Quipu_Prelude\<close>: machine integers, little-endian encodings, \<open>'a res\<close> and the state-passing operations
    \<open>('s, 'e, 'a) sop\<close> with \<open>seqE\<close>, \<open>retE\<close> and \<open>forE\<close>, ordered maps as association lists, text as one character
    per byte; the locale of append-only logs. \<open>Errors\<close>: \<open>error.rs\<close>. \<open>Fs\<close>: \<open>std::fs\<close> with a schedule of faults, one
    entry per call that can fail, and \<open>BufWriter\<close>. \<open>Names\<close>, \<open>Text_Codec\<close>: numbers in file names, base64,
    hexadecimal, UTF-8. \<open>Model\<close>: \<open>model.rs\<close>, \<open>schema.rs\<close>, \<open>query.rs\<close>. \<open>Civil_Time\<close>: \<open>time.rs\<close>.
  \<^item> \<open>Segment\<close>, \<open>Segment_Format\<close>, \<open>Segment_Read\<close>, \<open>Segment_Write\<close>, \<open>Segment_Props\<close>: \<open>storage/segment.rs\<close>. The invariant
    \<open>seg_inv\<close> ties the writer's counters, its buffer and the file to a list of rows.
  \<^item> \<open>Table\<close>, \<open>Scan\<close> and \<open>Table_Inv\<close>, \<open>Table_Append\<close>, \<open>Scan_Facts\<close>, \<open>Table_Read\<close>, \<open>Table_Verify\<close>, \<open>Table_Retain\<close>, \<open>Table_Reopen\<close>,
    \<open>Scan_Loop\<close>, \<open>Table_Props\<close>: \<open>storage/table.rs\<close>. \<open>tbl_inv\<close> ties a table to its view, a list of linked segments.
  \<^item> \<open>Key_Ring\<close>, \<open>Tokens\<close>, \<open>Registry_Index\<close>, \<open>Registry\<close> and \<open>Registry_Facts\<close>, \<open>Registry_Laws\<close>, \<open>Registry_Search\<close>,
    \<open>Registry_Props\<close>: \<open>crypto.rs\<close>, \<open>tokens.rs\<close>, \<open>registry.rs\<close>. \<open>Core_Props\<close>: their round trips.
  \<^item> \<open>Checkpoint\<close>, \<open>Retention_Policy\<close>, \<open>Access_Log\<close>, \<open>Query_Cursor\<close>, \<open>Audit_Props\<close>: \<open>checkpoint.rs\<close>, \<open>retention.rs\<close>,
    \<open>access.rs\<close>, the cursors of \<open>query.rs\<close>.
  \<^item> \<open>Store_State\<close>, \<open>Store\<close>, \<open>Store_Maintain\<close>, \<open>Store_Query\<close> model \<open>store.rs\<close>; \<open>Kept_Table\<close>, \<open>Store_Inv\<close>, \<open>Store_Write\<close>,
    \<open>Store_Append\<close>, \<open>Query_Facts\<close>, \<open>Store_Read\<close>, \<open>Store_Retain\<close>, \<open>Store_Schema\<close>, \<open>Store_Props\<close> reason about it
    (\<open>store_inv\<close>: every table keeps the rows of a ghost list); \<open>Store_Demo\<close> is the concrete store of the witnesses.
  \<^item> \<open>Permissions\<close>, \<open>Audit_Event\<close>, \<open>Pipeline_Metrics\<close>, \<open>Pipeline_Health\<close>, \<open>Pipeline_Worker\<close>, \<open>Pipeline_Redrive\<close>, \<open>Pipeline\<close>,
    \<open>Pipeline_Start\<close>, \<open>Pipeline_System\<close> (the step relation \<open>pipe_step\<close> of emitters, handles and the writer),
    \<open>Pipeline_Handle\<close>, \<open>Audit_Layer\<close> model \<open>quipu-middleware\<close>; \<open>Pipeline_Facts\<close>, \<open>Pipeline_Persist\<close>, \<open>Pipeline_Props\<close>,
    \<open>Layer_Props\<close> reason about it.
  \<^item> \<open>Spool\<close>, \<open>Client\<close>, \<open>Client_Props\<close>: \<open>quipu-client\<close>.
  \<^item> \<open>Server_Auth\<close>, \<open>Server_State\<close>, \<open>Server_Health\<close>, \<open>Server_Api\<close>, \<open>Server_Sink\<close>, \<open>Server_Config\<close> model \<open>quipu-server\<close>;
    \<open>Server_Props\<close> takes requests one at a time, \<open>Server_Overlap\<close> lets the steps of several interleave (\<open>web_step\<close>).
  \<^item> \<open>Mcp\<close>: \<open>quipu-mcp\<close>.

  \<^bold>\<open>What the lemmas show.\<close> Segments and tables: appends under every fault schedule, recovery after a crash,
  verification and tamper evidence, scans against a filter over all rows, retention. Registries: an
  upsert stores what it should, the searches are complete over key rotations, reopening rebuilds the
  index. The store: \<open>append_at\<close> keeps the invariant on every outcome, a query is the first matching
  rows and its cursor continues, the byte budget ends, redefinitions only add. The pipeline: every
  accepted event is handled, dropped or pending, an event is stored, parked or reported lost, a
  shutdown drains. The layer is transparent and audits what its rules ask for. The client's loop ends
  and its spool loses nothing. The server admits exactly what tokens and grants allow, answers as
  the handle does, records a keyed event once. The configuration's key ring; the agent only reads.
  Where the code falls short of its documentation a theorem or a note in the manifest says so.

  \<^bold>\<open>Interfaces\<close> are locales, each interpreted on the definitions of its provider: append-only logs in
  \<open>Quipu_Prelude\<close>, interpreted for segments and tables; operations whose effect depends on one directory only
  in \<open>Kept_Table\<close>, interpreted for tables and registries, which is why the parts of a store stay valid
  while one of them changes; the backend of the JSON-RPC server in \<open>Mcp\<close>, interpreted for the HTTP backend.

  \<^bold>\<open>Parameters.\<close> SHA-256, CRC-32, HMAC, RSA and AES-GCM (records \<open>ext\<close> and \<open>cryptoext\<close>), \<open>bincode\<close> and
  \<open>serde_json\<close> as codecs with a round trip as hypothesis where one is used, \<open>http\<close>, \<open>statvfs\<close>, the wrapped
  service of the layer, the network. Clocks, process ids, random bytes, the lock of the operating
  system and the faults of the disk are inputs. Collision freedom is never assumed: tamper evidence
  names the collision.

  \<^bold>\<open>Bounds and fuel.\<close> Loops are structural or have a measure, but for two. Counting the dead-letter queue
  may not end and is a \<open>partial_function (option)\<close>; \<open>start_hangs_on_bad_frame\<close> shows when. The scaling of a
  binary fraction to 53 bits has fuel 200, more than the 64-bit operands need. A channel of capacity 0 is a
  rendezvous: a send succeeds only while the writer waits. The float in the latency sum is printed for sums
  of at most 15 digits of microseconds. Integers that can wrap are words; file sizes, sequence numbers and
  counters are natural numbers, with the limit written out where the code tests one.

  \<^bold>\<open>Not modelled.\<close> The listener and TLS (\<open>serve.rs\<close>), the argument lists, environment variables, log lines and
  the signal handler of the two binaries; what axum extracts from a request before a handler runs
  (a body that is not JSON is rejected before the token is looked at); the HTTP transport of the
  client, which is a trait there; trailers of HTTP bodies; panics of blocking tasks; memory exhaustion and
  poisoned locks; the bytes that \<open>bincode\<close> and \<open>serde_json\<close> choose. Calls of the store run one at a time,
  as the borrow checker enforces.
\<close>

end
